(* ===== verification/CDS_Prelude.thy ===== *)
theory CDS_Prelude
  imports Main "HOL-Library.Word" "HOL-Library.Monad_Syntax"
begin

text \<open>
  Shared vocabulary of the development: the machine types of the sources, the encoding of
  failing assertions, the vector operations of the C++ containers the code uses, and the
  lemma collections the component theories extend.

  \<^item> \<open>modelclock_t\<close> is a 32-bit unsigned integer, \<open>uint64_t\<close> and \<open>void *\<close> are 64-bit words;
    their arithmetic wraps.
  \<^item> Objects the code shares by pointer (actions, promises, graph nodes, threads) are named by
    a natural number, an index into the store of the state that owns them; a null pointer is
    \<open>None\<close>.
  \<^item> \<open>ASSERT\<close> (enabled by \<open>CONFIG_ASSERT\<close>) ends the process when its condition fails. A
    function that asserts returns an \<open>option\<close>, and \<open>None\<close> is that exit.
\<close>

unbundle bit_operations_syntax

type_synonym modelclock = "32 word"
type_synonym u64 = "64 word"
type_synonym loc = "64 word"
type_synonym thread_id = nat
type_synonym act_ptr = nat
type_synonym promise_ptr = nat

definition ASSERT :: "bool \<Rightarrow> unit option" where
  "ASSERT b = (if b then Some () else None)"

named_theorems vec_simps \<open>rewrite rules for resized vectors\<close>

lemma ASSERT_bind_eq_Some [simp]:
  "Option.bind (ASSERT b) f = Some x \<longleftrightarrow> b \<and> f () = Some x"
  by (simp add: ASSERT_def)

lemma ASSERT_eq_Some [simp]: "ASSERT b = Some u \<longleftrightarrow> b"
  by (simp add: ASSERT_def)

lemma ASSERT_True [simp]: "ASSERT True = Some ()"
  by (simp add: ASSERT_def)

lemma ASSERT_False [simp]: "ASSERT False = None"
  by (simp add: ASSERT_def)

subsection \<open>Vectors that grow: \<open>std::vector::resize\<close> with a default element\<close>

definition vec_grow :: "nat \<Rightarrow> 'a \<Rightarrow> 'a list \<Rightarrow> 'a list" where
  "vec_grow n d xs = xs @ replicate (n - length xs) d"

text \<open>Reading a vector with a default beyond its end.\<close>

definition vec_get :: "'a \<Rightarrow> 'a list \<Rightarrow> nat \<Rightarrow> 'a" where
  "vec_get d xs i = (if i < length xs then xs ! i else d)"

lemma length_vec_grow [simp, vec_simps]: "length (vec_grow n d xs) = max n (length xs)"
  by (simp add: vec_grow_def)

lemma vec_get_grow [simp, vec_simps]: "vec_get d (vec_grow n d xs) i = vec_get d xs i"
  by (auto simp: vec_get_def vec_grow_def nth_append)

lemma nth_vec_grow:
  "i < max n (length xs) \<Longrightarrow> vec_grow n d xs ! i = (if i < length xs then xs ! i else d)"
  by (auto simp: vec_grow_def nth_append)

lemma vec_get_update [vec_simps]:
  "vec_get d (xs[i := v]) j = (if i = j \<and> i < length xs then v else vec_get d xs j)"
  by (auto simp: vec_get_def)

lemma nth_update_if: "xs[i := v] ! j = (if i = j \<and> i < length xs then v else xs ! j)"
  by (cases "i < length xs") (auto simp: list_update_beyond)

lemma vec_get_Nil [simp]: "vec_get d [] i = d"
  by (simp add: vec_get_def)

lemma vec_get_Cons_0 [simp]: "vec_get d (x # xs) 0 = x"
  by (simp add: vec_get_def)

lemma vec_get_Cons_Suc [simp]: "vec_get d (x # xs) (Suc i) = vec_get d xs i"
  by (simp add: vec_get_def)

lemma vec_get_out [simp]: "length xs \<le> i \<Longrightarrow> vec_get d xs i = d"
  by (simp add: vec_get_def)

lemma vec_get_replicate [simp]: "vec_get d (replicate n d) i = d"
  by (simp add: vec_get_def)

lemma vec_grow_id [simp]: "n \<le> length xs \<Longrightarrow> vec_grow n d xs = xs"
  by (simp add: vec_grow_def)

text \<open>\<open>resize\<close> proper, which also drops elements.\<close>

definition vec_resize :: "nat \<Rightarrow> 'a \<Rightarrow> 'a list \<Rightarrow> 'a list" where
  "vec_resize n d xs = take n xs @ replicate (n - length xs) d"

lemma length_vec_resize [simp, vec_simps]: "length (vec_resize n d xs) = n"
  by (simp add: vec_resize_def)

lemma vec_resize_grow: "length xs \<le> n \<Longrightarrow> vec_resize n d xs = vec_grow n d xs"
  by (simp add: vec_resize_def vec_grow_def)

lemma nth_vec_resize:
  "i < n \<Longrightarrow> vec_resize n d xs ! i = (if i < length xs then xs ! i else d)"
  by (auto simp: vec_resize_def nth_append min_def)

subsection \<open>Loops over a list that change a state\<close>

text \<open>
  A loop that visits every element, and a loop that may be left early: the body says whether to
  leave, the result whether it was left.
\<close>

fun for_each :: "('a \<Rightarrow> 's \<Rightarrow> 's option) \<Rightarrow> 'a list \<Rightarrow> 's \<Rightarrow> 's option" where
  "for_each f [] s = Some s"
| "for_each f (x # xs) s = do { s \<leftarrow> f x s; for_each f xs s }"

fun for_until :: "('a \<Rightarrow> 's \<Rightarrow> (bool \<times> 's) option) \<Rightarrow> 'a list \<Rightarrow> 's \<Rightarrow> (bool \<times> 's) option" where
  "for_until f [] s = Some (False, s)"
| "for_until f (x # xs) s = do {
     (stop, s) \<leftarrow> f x s;
     if stop then Some (True, s) else for_until f xs s
   }"

lemma for_each_inv:
  assumes "for_each f xs s = Some s'" "P s"
    and "\<And>x s s'. x \<in> set xs \<Longrightarrow> f x s = Some s' \<Longrightarrow> P s \<Longrightarrow> P s'"
  shows "P s'"
  using assms
proof (induction xs arbitrary: s)
  case Nil
  then show ?case by simp
next
  case (Cons x xs)
  from Cons.prems(1) obtain s1 where s1: "f x s = Some s1" "for_each f xs s1 = Some s'"
    by (auto simp: bind_eq_Some_conv)
  show ?case
  proof (rule Cons.IH [OF s1(2)])
    show "P s1" using Cons.prems(3) [of x s s1] Cons.prems(2) s1(1) by simp
    show "\<And>y s s'. y \<in> set xs \<Longrightarrow> f y s = Some s' \<Longrightarrow> P s \<Longrightarrow> P s'"
      using Cons.prems(3) by (meson list.set_intros(2))
  qed
qed

lemma for_until_inv:
  assumes "for_until f xs s = Some (b, s')" "P s"
    and "\<And>x s b s'. x \<in> set xs \<Longrightarrow> f x s = Some (b, s') \<Longrightarrow> P s \<Longrightarrow> P s'"
  shows "P s'"
  using assms
proof (induction xs arbitrary: s)
  case Nil
  then show ?case by simp
next
  case (Cons x xs)
  from Cons.prems(1) obtain c s1 where s1: "f x s = Some (c, s1)"
      "(if c then Some (True, s1) else for_until f xs s1) = Some (b, s')"
    by (auto simp: bind_eq_Some_conv)
  have P1: "P s1" using Cons.prems(3) [of x s c s1] Cons.prems(2) s1(1) by simp
  show ?case
  proof (cases c)
    case True
    with s1(2) P1 show ?thesis by simp
  next
    case False
    with s1(2) have "for_until f xs s1 = Some (b, s')" by simp
    then show ?thesis
      by (rule Cons.IH [OF _ P1]) (meson Cons.prems(3) list.set_intros(2))
  qed
qed

lemma for_each_append:
  "for_each f (xs @ ys) s = Option.bind (for_each f xs s) (for_each f ys)"
  by (induction xs arbitrary: s) (auto simp: bind_eq_None_conv split: Option.bind_split)

text \<open>Different numbers that are less than the modulus apart.\<close>

lemma mod_neq:
  assumes "k < m" "m < k + (n :: nat)"
  shows "k mod n \<noteq> m mod n"
proof
  assume "k mod n = m mod n"
  then have "n dvd m - k" using assms(1) mod_eq_dvd_iff_nat [of k m n] by simp
  with assms show False by (auto dest: dvd_imp_le)
qed

end
