(* ===== verification/Clock_Vector.thy ===== *)
theory Clock_Vector
  imports CDS_Prelude
begin

text \<open>
  Clock vectors (\<open>clockvector.cc\<close>). A vector is the array \<open>clock\<close> as a list; its field
  \<open>num_threads\<close> is the length. The constructor reads only the thread id and the sequence
  number of the action it is given, so those two are its arguments. The interface the rest of
  the checker relies on is the locale \<open>clock_spec\<close>, interpreted here on the code's model.
\<close>

type_synonym clock_vector = "modelclock list"

subsection \<open>Operations\<close>

definition new_clock_vector :: "clock_vector option \<Rightarrow> thread_id \<Rightarrow> modelclock \<Rightarrow> clock_vector" where
  "new_clock_vector parent tid seq =
     (let n = tid + 1;
          n' = (case parent of Some p \<Rightarrow> if length p > n then length p else n | None \<Rightarrow> n);
          clock = (case parent of Some p \<Rightarrow> vec_grow n' 0 p | None \<Rightarrow> replicate n' 0)
      in clock[tid := seq])"

text \<open>The element-wise maximum loop: the vector, the other vector, the \<open>changed\<close> flag.\<close>

fun cv_max_loop :: "clock_vector \<Rightarrow> clock_vector \<Rightarrow> bool \<Rightarrow> bool \<times> clock_vector" where
  "cv_max_loop cs [] changed = (changed, cs)"
| "cv_max_loop [] (d # ds) changed = (changed, [])"
| "cv_max_loop (c # cs) (d # ds) changed =
     (let (ch, r) = cv_max_loop cs ds (if d > c then True else changed)
      in (ch, (if d > c then d else c) # r))"

definition cv_merge :: "clock_vector \<Rightarrow> clock_vector \<Rightarrow> bool \<times> clock_vector" where
  "cv_merge this cv =
     cv_max_loop (if length cv > length this then vec_grow (length cv) 0 this else this) cv False"

definition synchronized_since :: "clock_vector \<Rightarrow> thread_id \<Rightarrow> modelclock \<Rightarrow> bool" where
  "synchronized_since this tid seq = (if tid < length this then seq \<le> this ! tid else False)"

definition getClock :: "clock_vector \<Rightarrow> thread_id \<Rightarrow> modelclock" where
  "getClock this t = (if t < length this then this ! t else 0)"

subsection \<open>Lemmas\<close>

lemma getClock_vec_get: "getClock this t = vec_get 0 this t"
  by (simp add: getClock_def vec_get_def)

lemma length_cv_max_loop: "length ds \<le> length cs \<Longrightarrow> length (snd (cv_max_loop cs ds ch)) = length cs"
  by (induction cs ds ch rule: cv_max_loop.induct) (auto split: prod.splits)

lemma vec_get_cv_max_loop:
  "length ds \<le> length cs \<Longrightarrow>
   vec_get 0 (snd (cv_max_loop cs ds ch)) t = max (vec_get 0 cs t) (vec_get 0 ds t)"
proof (induction cs ds ch arbitrary: t rule: cv_max_loop.induct)
  case (1 cs ch)
  then show ?case by simp
next
  case (2 d ds ch)
  then show ?case by simp
next
  case (3 c cs d ds ch)
  then show ?case by (cases t) (auto simp: max_def split: prod.splits)
qed

lemma changed_cv_max_loop:
  "length ds \<le> length cs \<Longrightarrow>
   fst (cv_max_loop cs ds ch) \<longleftrightarrow> ch \<or> (\<exists>t. vec_get 0 cs t < vec_get 0 ds t)"
proof (induction cs ds ch rule: cv_max_loop.induct)
  case (1 cs ch)
  then show ?case by (auto simp: not_less)
next
  case (2 d ds ch)
  then show ?case by simp
next
  case (3 c cs d ds ch)
  have *: "(\<exists>t. vec_get 0 (c # cs) t < vec_get 0 (d # ds) t) \<longleftrightarrow>
        c < d \<or> (\<exists>t. vec_get 0 cs t < vec_get 0 ds t)"
    by (metis not0_implies_Suc vec_get_Cons_0 vec_get_Cons_Suc)
  show ?case
    using "3.IH" "3.prems" unfolding * by (auto split: prod.splits if_splits)
qed

lemma getClock_cv_merge [simp]:
  "getClock (snd (cv_merge a b)) t = max (getClock a t) (getClock b t)"
  unfolding cv_merge_def getClock_vec_get by (subst vec_get_cv_max_loop) auto

lemma length_cv_merge [simp]: "length (snd (cv_merge a b)) = max (length a) (length b)"
  unfolding cv_merge_def by (subst length_cv_max_loop) auto

lemma fst_cv_merge: "fst (cv_merge a b) \<longleftrightarrow> (\<exists>t. getClock a t < getClock b t)"
  unfolding cv_merge_def getClock_vec_get by (subst changed_cv_max_loop) auto

lemma synchronized_since_getClock:
  "0 < seq \<Longrightarrow> synchronized_since cv t seq \<longleftrightarrow> seq \<le> getClock cv t"
  by (auto simp: synchronized_since_def getClock_def word_gt_0)

lemma length_new_clock_vector:
  "length (new_clock_vector p tid seq) =
     max (tid + 1) (case p of None \<Rightarrow> 0 | Some c \<Rightarrow> length c)"
  by (auto simp: new_clock_vector_def Let_def split: option.splits)

lemma getClock_new_clock_vector [simp]:
  "getClock (new_clock_vector p tid seq) t =
     (if t = tid then seq else case p of None \<Rightarrow> 0 | Some c \<Rightarrow> getClock c t)"
  by (auto simp: new_clock_vector_def Let_def getClock_vec_get vec_get_update
      simp del: replicate_Suc split: option.splits)

lemma synchronized_since_new_self [simp]: "synchronized_since (new_clock_vector p tid seq) tid seq"
proof -
  have "tid < length (new_clock_vector p tid seq)"
    by (simp add: length_new_clock_vector)
  moreover from this have "new_clock_vector p tid seq ! tid = seq"
    using getClock_new_clock_vector [of p tid seq tid] by (simp add: getClock_def)
  ultimately show ?thesis
    by (simp add: synchronized_since_def)
qed

lemma synchronized_since_merge:
  "0 < seq \<Longrightarrow> synchronized_since (snd (cv_merge a b)) t seq \<longleftrightarrow>
     synchronized_since a t seq \<or> synchronized_since b t seq"
  by (simp add: synchronized_since_getClock le_max_iff_disj)

subsection \<open>The interface of clock vectors\<close>

text \<open>
  What the clients use: a read-out per thread, a merge that is the pointwise maximum and
  reports whether it changed anything, and the query for a non-initial clock value. From
  these follow the order of vectors and that a merge is its least upper bound.
\<close>

locale clock_spec =
  fixes getc :: "'c \<Rightarrow> thread_id \<Rightarrow> modelclock"
    and mergec :: "'c \<Rightarrow> 'c \<Rightarrow> bool \<times> 'c"
    and since :: "'c \<Rightarrow> thread_id \<Rightarrow> modelclock \<Rightarrow> bool"
  assumes get_merge: "getc (snd (mergec a b)) t = max (getc a t) (getc b t)"
    and merge_changed: "fst (mergec a b) \<longleftrightarrow> (\<exists>t. getc a t < getc b t)"
    and since_iff: "0 < s \<Longrightarrow> since a t s \<longleftrightarrow> s \<le> getc a t"
begin

definition below :: "'c \<Rightarrow> 'c \<Rightarrow> bool" where
  "below a b \<longleftrightarrow> (\<forall>t. getc a t \<le> getc b t)"

lemma below_refl: "below a a"
  by (simp add: below_def)

lemma below_trans: "below a b \<Longrightarrow> below b c \<Longrightarrow> below a c"
  unfolding below_def by (meson order_trans)

lemma merge_upper1: "below a (snd (mergec a b))"
  by (simp add: below_def get_merge)

lemma merge_upper2: "below b (snd (mergec a b))"
  by (simp add: below_def get_merge)

lemma merge_least: "below a c \<Longrightarrow> below b c \<Longrightarrow> below (snd (mergec a b)) c"
  by (simp add: below_def get_merge)

lemma merge_unchanged_iff: "\<not> fst (mergec a b) \<longleftrightarrow> below b a"
  by (auto simp: merge_changed below_def not_less)

lemma merge_unchanged_get: "\<not> fst (mergec a b) \<Longrightarrow> getc (snd (mergec a b)) = getc a"
  by (auto simp: merge_changed get_merge max_def not_less fun_eq_iff intro: antisym)

lemma since_mono: "below a b \<Longrightarrow> 0 < s \<Longrightarrow> since a t s \<Longrightarrow> since b t s"
  unfolding below_def since_iff by (meson order_trans)

lemma since_merge: "0 < s \<Longrightarrow> since (snd (mergec a b)) t s \<longleftrightarrow> since a t s \<or> since b t s"
  by (simp add: since_iff get_merge le_max_iff_disj)

end

interpretation cv: clock_spec getClock cv_merge synchronized_since
  by unfold_locales (simp_all add: fst_cv_merge synchronized_since_getClock)

subsection \<open>Properties\<close>

text \<open>
  \<open>merge\<close> is the join of clock vectors: it returns the pointwise maximum over all threads,
  the least vector above both arguments, it is as long as the longer one, and its result flag
  tells whether the vector grew.
\<close>

theorem merge_is_join:
  "getClock (snd (cv_merge a b)) t = max (getClock a t) (getClock b t) \<and>
   length (snd (cv_merge a b)) = max (length a) (length b) \<and>
   (fst (cv_merge a b) \<longleftrightarrow> getClock (snd (cv_merge a b)) \<noteq> getClock a)"
proof -
  have "getClock (snd (cv_merge a b)) \<noteq> getClock a" if "fst (cv_merge a b)"
  proof -
    from that obtain u where "getClock a u < getClock b u" by (auto simp: fst_cv_merge)
    then have "getClock (snd (cv_merge a b)) u \<noteq> getClock a u" by (simp add: max_def order.strict_implies_order order.strict_implies_not_eq [symmetric])
    then show ?thesis by metis
  qed
  with cv.merge_unchanged_get [of a b] show ?thesis by auto
qed

end
