(* ===== verification/Model_Action.thy ===== *)
theory Model_Action
  imports Clock_Vector
begin

text \<open>
  Actions of the checked program (\<open>action.h\<close>, \<open>action.cc\<close>, \<open>memoryorder.h\<close>). A
  \<open>ModelAction\<close> is the record \<open>model_action\<close>; the two pointers to other objects that its
  methods follow (\<open>reads_from\<close>, \<open>reads_from_promise\<close>) are indices, and a method that follows
  them takes the store of actions and a read-out of the promises. A null clock-vector pointer
  is the empty vector: a constructed vector has at least one entry, so the two never clash.
  The back pointer \<open>node\<close> is an index into the node stack.
\<close>

subsection \<open>Enumerations and constants\<close>

datatype memory_order =
  memory_order_relaxed | memory_order_acquire | memory_order_release
  | memory_order_acq_rel | memory_order_seq_cst

datatype action_type =
  MODEL_FIXUP_RELSEQ | THREAD_CREATE | THREAD_START | THREAD_YIELD | THREAD_JOIN
  | THREAD_FINISH | ATOMIC_UNINIT | ATOMIC_READ | ATOMIC_WRITE | ATOMIC_RMWR | ATOMIC_RMW
  | ATOMIC_RMWC | ATOMIC_INIT | ATOMIC_FENCE | ATOMIC_LOCK | ATOMIC_TRYLOCK | ATOMIC_UNLOCK
  | ATOMIC_NOTIFY_ONE | ATOMIC_NOTIFY_ALL | ATOMIC_WAIT | ATOMIC_ANNOTATION

definition VALUE_NONE :: u64 where "VALUE_NONE = 0xdeadbeef"
definition FENCE_LOCATION :: loc where "FENCE_LOCATION = 0x7"
definition ACTION_INITIAL_CLOCK :: modelclock where "ACTION_INITIAL_CLOCK = 0"
definition VALUE_TRYSUCCESS :: u64 where "VALUE_TRYSUCCESS = 1"
definition VALUE_TRYFAILED :: u64 where "VALUE_TRYFAILED = 0"

record model_action =
  ma_type :: action_type
  ma_order :: memory_order
  ma_original_order :: memory_order
  ma_location :: loc
  ma_tid :: thread_id
  ma_value :: u64
  ma_reads_from :: "act_ptr option"
  ma_reads_from_promise :: "promise_ptr option"
  ma_last_fence_release :: "act_ptr option"
  ma_node :: "nat option"
  ma_seq_number :: modelclock
  ma_cv :: clock_vector
  ma_sleep_flag :: bool

text \<open>
  The constructor: \<open>thread\<close> is the id of the given thread, and \<open>current\<close> the id of
  \<open>thread_current()\<close>, used when no thread is given.
\<close>

definition new_action ::
  "action_type \<Rightarrow> memory_order \<Rightarrow> loc \<Rightarrow> u64 \<Rightarrow> thread_id option \<Rightarrow> thread_id \<Rightarrow> model_action option" where
  "new_action type ord l value thread current = do {
     ASSERT (l \<noteq> 0 \<or> type = ATOMIC_FENCE \<or> type = MODEL_FIXUP_RELSEQ);
     Some \<lparr>ma_type = type, ma_order = ord, ma_original_order = ord, ma_location = l,
       ma_tid = (case thread of Some t \<Rightarrow> t | None \<Rightarrow> current), ma_value = value,
       ma_reads_from = None, ma_reads_from_promise = None, ma_last_fence_release = None,
       ma_node = None, ma_seq_number = ACTION_INITIAL_CLOCK, ma_cv = [], ma_sleep_flag = False\<rparr>
   }"

subsection \<open>Classification\<close>

definition is_thread_start :: "model_action \<Rightarrow> bool" where
  "is_thread_start a \<longleftrightarrow> ma_type a = THREAD_START"
definition is_thread_join :: "model_action \<Rightarrow> bool" where
  "is_thread_join a \<longleftrightarrow> ma_type a = THREAD_JOIN"
definition is_relseq_fixup :: "model_action \<Rightarrow> bool" where
  "is_relseq_fixup a \<longleftrightarrow> ma_type a = MODEL_FIXUP_RELSEQ"
definition is_mutex_op :: "model_action \<Rightarrow> bool" where
  "is_mutex_op a \<longleftrightarrow> ma_type a = ATOMIC_LOCK \<or> ma_type a = ATOMIC_TRYLOCK \<or> ma_type a = ATOMIC_UNLOCK
     \<or> ma_type a = ATOMIC_WAIT \<or> ma_type a = ATOMIC_NOTIFY_ONE \<or> ma_type a = ATOMIC_NOTIFY_ALL"
definition is_lock :: "model_action \<Rightarrow> bool" where
  "is_lock a \<longleftrightarrow> ma_type a = ATOMIC_LOCK"
definition is_wait :: "model_action \<Rightarrow> bool" where
  "is_wait a \<longleftrightarrow> ma_type a = ATOMIC_WAIT"
definition is_notify :: "model_action \<Rightarrow> bool" where
  "is_notify a \<longleftrightarrow> ma_type a = ATOMIC_NOTIFY_ONE \<or> ma_type a = ATOMIC_NOTIFY_ALL"
definition is_notify_one :: "model_action \<Rightarrow> bool" where
  "is_notify_one a \<longleftrightarrow> ma_type a = ATOMIC_NOTIFY_ONE"
definition is_unlock :: "model_action \<Rightarrow> bool" where
  "is_unlock a \<longleftrightarrow> ma_type a = ATOMIC_UNLOCK"
definition is_trylock :: "model_action \<Rightarrow> bool" where
  "is_trylock a \<longleftrightarrow> ma_type a = ATOMIC_TRYLOCK"
definition is_success_lock :: "model_action \<Rightarrow> bool" where
  "is_success_lock a \<longleftrightarrow>
     ma_type a = ATOMIC_LOCK \<or> (ma_type a = ATOMIC_TRYLOCK \<and> ma_value a = VALUE_TRYSUCCESS)"
definition is_failed_trylock :: "model_action \<Rightarrow> bool" where
  "is_failed_trylock a \<longleftrightarrow> ma_type a = ATOMIC_TRYLOCK \<and> ma_value a = VALUE_TRYFAILED"
definition is_uninitialized :: "model_action \<Rightarrow> bool" where
  "is_uninitialized a \<longleftrightarrow> ma_type a = ATOMIC_UNINIT"
definition is_read :: "model_action \<Rightarrow> bool" where
  "is_read a \<longleftrightarrow> ma_type a = ATOMIC_READ \<or> ma_type a = ATOMIC_RMWR \<or> ma_type a = ATOMIC_RMW"
definition is_write :: "model_action \<Rightarrow> bool" where
  "is_write a \<longleftrightarrow> ma_type a = ATOMIC_WRITE \<or> ma_type a = ATOMIC_RMW \<or> ma_type a = ATOMIC_INIT
     \<or> ma_type a = ATOMIC_UNINIT"
definition is_yield :: "model_action \<Rightarrow> bool" where
  "is_yield a \<longleftrightarrow> ma_type a = THREAD_YIELD"
definition is_rmwr :: "model_action \<Rightarrow> bool" where
  "is_rmwr a \<longleftrightarrow> ma_type a = ATOMIC_RMWR"
definition is_rmw :: "model_action \<Rightarrow> bool" where
  "is_rmw a \<longleftrightarrow> ma_type a = ATOMIC_RMW"
definition is_rmwc :: "model_action \<Rightarrow> bool" where
  "is_rmwc a \<longleftrightarrow> ma_type a = ATOMIC_RMWC"
definition could_be_write :: "model_action \<Rightarrow> bool" where
  "could_be_write a \<longleftrightarrow> is_write a \<or> is_rmwr a"
definition is_atomic_var :: "model_action \<Rightarrow> bool" where
  "is_atomic_var a \<longleftrightarrow> is_read a \<or> could_be_write a"
definition is_fence :: "model_action \<Rightarrow> bool" where
  "is_fence a \<longleftrightarrow> ma_type a = ATOMIC_FENCE"
definition is_initialization :: "model_action \<Rightarrow> bool" where
  "is_initialization a \<longleftrightarrow> ma_type a = ATOMIC_INIT"
definition is_annotation :: "model_action \<Rightarrow> bool" where
  "is_annotation a \<longleftrightarrow> ma_type a = ATOMIC_ANNOTATION"
definition is_relaxed :: "model_action \<Rightarrow> bool" where
  "is_relaxed a \<longleftrightarrow> ma_order a = memory_order_relaxed"
definition is_acquire :: "model_action \<Rightarrow> bool" where
  "is_acquire a = (case ma_order a of memory_order_acquire \<Rightarrow> True | memory_order_acq_rel \<Rightarrow> True
     | memory_order_seq_cst \<Rightarrow> True | _ \<Rightarrow> False)"
definition is_release :: "model_action \<Rightarrow> bool" where
  "is_release a = (case ma_order a of memory_order_release \<Rightarrow> True | memory_order_acq_rel \<Rightarrow> True
     | memory_order_seq_cst \<Rightarrow> True | _ \<Rightarrow> False)"
definition is_seqcst :: "model_action \<Rightarrow> bool" where
  "is_seqcst a \<longleftrightarrow> ma_order a = memory_order_seq_cst"

lemmas action_class_defs =
  is_thread_start_def is_thread_join_def is_relseq_fixup_def is_mutex_op_def is_lock_def
  is_wait_def is_notify_def is_notify_one_def is_unlock_def is_trylock_def is_success_lock_def
  is_failed_trylock_def is_uninitialized_def is_read_def is_write_def is_yield_def is_rmwr_def
  is_rmw_def is_rmwc_def could_be_write_def is_atomic_var_def is_fence_def
  is_initialization_def is_annotation_def is_relaxed_def is_acquire_def is_release_def
  is_seqcst_def

subsection \<open>Comparisons between actions\<close>

definition same_var :: "model_action \<Rightarrow> model_action \<Rightarrow> bool" where
  "same_var this act =
     (if is_wait act \<or> is_wait this
      then if is_wait act \<and> is_wait this
           then if ma_value this = ma_value act then True else ma_location this = ma_location act
           else if is_wait this
           then if ma_value this = ma_location act then True else ma_location this = ma_location act
           else if is_wait act
           then if ma_location this = ma_value act then True else ma_location this = ma_location act
           else ma_location this = ma_location act
      else ma_location this = ma_location act)"

definition same_thread :: "model_action \<Rightarrow> model_action \<Rightarrow> bool" where
  "same_thread this act \<longleftrightarrow> ma_tid this = ma_tid act"

definition could_synchronize_with :: "model_action \<Rightarrow> model_action \<Rightarrow> bool" where
  "could_synchronize_with this act =
     (if same_thread this act then False
      else if \<not> same_var this act \<and> \<not> is_fence this \<and> \<not> is_fence act then False
      else if (could_be_write this \<or> could_be_write act \<or> is_fence this \<or> is_fence act)
              \<and> is_seqcst this \<and> is_seqcst act then True
      else if is_acquire this \<and> is_release act \<and> is_read this \<and> could_be_write act then True
      else if (is_lock this \<or> is_trylock this) \<and> (is_unlock act \<or> is_wait act) then True
      else if is_trylock this \<and> is_success_lock act then True
      else if is_unlock this \<and> (is_trylock act \<or> is_lock act) then True
      else if is_trylock this \<and> (is_unlock act \<or> is_wait act) then True
      else if is_notify this \<and> is_wait act then True
      else if is_wait this \<and> is_notify act then True
      else False)"

definition is_conflicting_lock :: "model_action \<Rightarrow> model_action \<Rightarrow> bool" where
  "is_conflicting_lock this act =
     (if same_thread this act then False
      else if is_success_lock act then True
      else if is_unlock act \<and> is_trylock this \<and> ma_value this = VALUE_TRYSUCCESS then True
      else if is_wait act \<and> is_trylock this \<and> ma_value this = VALUE_TRYSUCCESS then True
      else False)"

subsection \<open>Updates\<close>

definition copy_from_new :: "model_action \<Rightarrow> model_action \<Rightarrow> model_action" where
  "copy_from_new this newaction = this\<lparr>ma_seq_number := ma_seq_number newaction\<rparr>"

definition set_seq_number :: "modelclock \<Rightarrow> model_action \<Rightarrow> model_action option" where
  "set_seq_number num this = do {
     ASSERT (\<not> is_uninitialized this);
     ASSERT (ma_seq_number this = ACTION_INITIAL_CLOCK);
     Some (this\<lparr>ma_seq_number := num\<rparr>)
   }"

definition copy_typeandorder :: "model_action \<Rightarrow> model_action \<Rightarrow> model_action" where
  "copy_typeandorder act this = this\<lparr>ma_type := ma_type act, ma_order := ma_order act\<rparr>"

definition process_rmw :: "model_action \<Rightarrow> model_action \<Rightarrow> model_action" where
  "process_rmw act this =
     (let this = this\<lparr>ma_order := ma_order act\<rparr>
      in if is_rmwc act then this\<lparr>ma_type := ATOMIC_READ\<rparr>
         else if is_rmw act then this\<lparr>ma_type := ATOMIC_RMW, ma_value := ma_value act\<rparr>
         else this)"

definition create_cv :: "model_action option \<Rightarrow> model_action \<Rightarrow> model_action" where
  "create_cv parent this = this\<lparr>ma_cv :=
     (case parent of
        Some p \<Rightarrow> new_clock_vector (if ma_cv p = [] then None else Some (ma_cv p))
                    (ma_tid this) (ma_seq_number this)
      | None \<Rightarrow> new_clock_vector None (ma_tid this) (ma_seq_number this))\<rparr>"

definition set_try_lock :: "bool \<Rightarrow> model_action \<Rightarrow> model_action" where
  "set_try_lock obtainedlock this =
     this\<lparr>ma_value := (if obtainedlock then VALUE_TRYSUCCESS else VALUE_TRYFAILED)\<rparr>"

text \<open>
  \<open>set_read_from\<close> reports the bug "may read from uninitialized atomic" when the store is the
  uninitialised one: the second component says whether it does.
\<close>

definition set_read_from :: "act_ptr \<Rightarrow> model_action \<Rightarrow> model_action \<Rightarrow> model_action \<times> bool" where
  "set_read_from p act this =
     (this\<lparr>ma_reads_from := Some p, ma_reads_from_promise := None\<rparr>, is_uninitialized act)"

definition set_read_from_promise :: "promise_ptr \<Rightarrow> model_action \<Rightarrow> model_action option" where
  "set_read_from_promise p this = do {
     ASSERT (is_read this);
     Some (this\<lparr>ma_reads_from_promise := Some p, ma_reads_from := None\<rparr>)
   }"

subsection \<open>Values\<close>

definition get_write_value :: "model_action \<Rightarrow> u64 option" where
  "get_write_value this = do { ASSERT (is_write this); Some (ma_value this) }"

definition get_reads_from_value ::
  "(act_ptr \<Rightarrow> model_action) \<Rightarrow> (promise_ptr \<Rightarrow> u64) \<Rightarrow> model_action \<Rightarrow> u64 option" where
  "get_reads_from_value acts pval this = do {
     ASSERT (is_read this);
     (case ma_reads_from this of
        Some w \<Rightarrow> get_write_value (acts w)
      | None \<Rightarrow> (case ma_reads_from_promise this of
                   Some p \<Rightarrow> Some (pval p)
                 | None \<Rightarrow> Some VALUE_NONE))
   }"

definition get_return_value ::
  "(act_ptr \<Rightarrow> model_action) \<Rightarrow> (promise_ptr \<Rightarrow> u64) \<Rightarrow> model_action \<Rightarrow> u64 option" where
  "get_return_value acts pval this =
     (if is_read this then get_reads_from_value acts pval this
      else if is_write this then get_write_value this
      else Some (ma_value this))"

subsection \<open>Happens-before through clock vectors\<close>

definition synchronize_with :: "model_action \<Rightarrow> model_action \<Rightarrow> bool \<times> model_action" where
  "synchronize_with act this =
     (if ma_seq_number this < ma_seq_number act then (False, this)
      else (True, this\<lparr>ma_cv := snd (cv_merge (ma_cv this) (ma_cv act))\<rparr>))"

definition has_synchronized_with :: "model_action \<Rightarrow> model_action \<Rightarrow> bool" where
  "has_synchronized_with this act = synchronized_since (ma_cv this) (ma_tid act) (ma_seq_number act)"

definition happens_before :: "model_action \<Rightarrow> model_action \<Rightarrow> bool" where
  "happens_before this act = synchronized_since (ma_cv act) (ma_tid this) (ma_seq_number this)"

subsection \<open>Names, hash and look-ups\<close>

definition get_type_str :: "model_action \<Rightarrow> string" where
  "get_type_str a = (case ma_type a of
     MODEL_FIXUP_RELSEQ \<Rightarrow> ''relseq fixup'' | THREAD_CREATE \<Rightarrow> ''thread create''
   | THREAD_START \<Rightarrow> ''thread start'' | THREAD_YIELD \<Rightarrow> ''thread yield''
   | THREAD_JOIN \<Rightarrow> ''thread join'' | THREAD_FINISH \<Rightarrow> ''thread finish''
   | ATOMIC_UNINIT \<Rightarrow> ''uninitialized'' | ATOMIC_READ \<Rightarrow> ''atomic read''
   | ATOMIC_WRITE \<Rightarrow> ''atomic write'' | ATOMIC_RMW \<Rightarrow> ''atomic rmw''
   | ATOMIC_FENCE \<Rightarrow> ''fence'' | ATOMIC_RMWR \<Rightarrow> ''atomic rmwr''
   | ATOMIC_RMWC \<Rightarrow> ''atomic rmwc'' | ATOMIC_INIT \<Rightarrow> ''init atomic''
   | ATOMIC_LOCK \<Rightarrow> ''lock'' | ATOMIC_UNLOCK \<Rightarrow> ''unlock'' | ATOMIC_TRYLOCK \<Rightarrow> ''trylock''
   | ATOMIC_WAIT \<Rightarrow> ''wait'' | ATOMIC_NOTIFY_ONE \<Rightarrow> ''notify one''
   | ATOMIC_NOTIFY_ALL \<Rightarrow> ''notify all'' | ATOMIC_ANNOTATION \<Rightarrow> ''annotation'')"

definition get_mo_str :: "model_action \<Rightarrow> string" where
  "get_mo_str a = (case ma_order a of
     memory_order_relaxed \<Rightarrow> ''relaxed'' | memory_order_acquire \<Rightarrow> ''acquire''
   | memory_order_release \<Rightarrow> ''release'' | memory_order_acq_rel \<Rightarrow> ''acq_rel''
   | memory_order_seq_cst \<Rightarrow> ''seq_cst'')"

text \<open>The numbers of the enumerators, in declaration order.\<close>

fun action_type_code :: "action_type \<Rightarrow> 32 word" where
  "action_type_code MODEL_FIXUP_RELSEQ = 0" | "action_type_code THREAD_CREATE = 1"
| "action_type_code THREAD_START = 2" | "action_type_code THREAD_YIELD = 3"
| "action_type_code THREAD_JOIN = 4" | "action_type_code THREAD_FINISH = 5"
| "action_type_code ATOMIC_UNINIT = 6" | "action_type_code ATOMIC_READ = 7"
| "action_type_code ATOMIC_WRITE = 8" | "action_type_code ATOMIC_RMWR = 9"
| "action_type_code ATOMIC_RMW = 10" | "action_type_code ATOMIC_RMWC = 11"
| "action_type_code ATOMIC_INIT = 12" | "action_type_code ATOMIC_FENCE = 13"
| "action_type_code ATOMIC_LOCK = 14" | "action_type_code ATOMIC_TRYLOCK = 15"
| "action_type_code ATOMIC_UNLOCK = 16" | "action_type_code ATOMIC_NOTIFY_ONE = 17"
| "action_type_code ATOMIC_NOTIFY_ALL = 18" | "action_type_code ATOMIC_WAIT = 19"
| "action_type_code ATOMIC_ANNOTATION = 20"

fun memory_order_code :: "memory_order \<Rightarrow> 32 word" where
  "memory_order_code memory_order_relaxed = 0" | "memory_order_code memory_order_acquire = 1"
| "memory_order_code memory_order_release = 2" | "memory_order_code memory_order_acq_rel = 3"
| "memory_order_code memory_order_seq_cst = 4"

definition action_hash ::
  "(act_ptr \<Rightarrow> model_action) \<Rightarrow> (promise_ptr \<Rightarrow> u64) \<Rightarrow> (promise_ptr \<Rightarrow> int) \<Rightarrow> model_action \<Rightarrow> 32 word option" where
  "action_hash acts pval pindex this = (
     let h = action_type_code (ma_type this);
         h = h XOR push_bit 3 (memory_order_code (ma_order this));
         h = h XOR push_bit 5 (ma_seq_number this);
         h = h XOR push_bit 6 (word_of_nat (ma_tid this))
     in if is_read this
        then let h = (case ma_reads_from this of
                        Some w \<Rightarrow> h XOR ma_seq_number (acts w)
                      | None \<Rightarrow> (case ma_reads_from_promise this of
                                   Some p \<Rightarrow> h XOR word_of_int (pindex p)
                                 | None \<Rightarrow> h))
             in do { v \<leftarrow> get_reads_from_value acts pval this; Some (h XOR ucast v) }
        else Some h)"

definition get_mutex :: "model_action \<Rightarrow> loc option" where
  "get_mutex a = (if is_trylock a \<or> is_lock a \<or> is_unlock a then Some (ma_location a)
     else if is_wait a then Some (ma_value a) else None)"

subsection \<open>Lemmas on classification and updates\<close>

lemma same_thread_commute: "same_thread a b = same_thread b a"
  by (auto simp: same_thread_def)

lemma same_thread_trans: "same_thread a b \<Longrightarrow> same_thread b c \<Longrightarrow> same_thread a c"
  by (simp add: same_thread_def)

lemma same_var_commute: "same_var a b = same_var b a"
  by (auto simp: same_var_def)

lemma same_var_no_wait: "\<not> is_wait a \<Longrightarrow> \<not> is_wait b \<Longrightarrow> same_var a b \<longleftrightarrow> ma_location a = ma_location b"
  by (simp add: same_var_def)

lemma success_failed_exclusive: "\<not> (is_success_lock a \<and> is_failed_trylock a)"
  by (auto simp: is_success_lock_def is_failed_trylock_def VALUE_TRYSUCCESS_def VALUE_TRYFAILED_def)

lemma set_try_lock_class:
  "is_trylock a \<Longrightarrow> is_success_lock (set_try_lock b a) = b \<and> is_failed_trylock (set_try_lock b a) = (\<not> b)"
  by (auto simp: set_try_lock_def is_success_lock_def is_failed_trylock_def is_trylock_def
      VALUE_TRYSUCCESS_def VALUE_TRYFAILED_def)

lemma process_rmw_read:
  "is_rmwr r \<Longrightarrow> is_rmw a \<or> is_rmwc a \<Longrightarrow>
   is_read (process_rmw a r) \<and> (is_write (process_rmw a r) \<longleftrightarrow> is_rmw a) \<and>
   ma_seq_number (process_rmw a r) = ma_seq_number r \<and> ma_cv (process_rmw a r) = ma_cv r \<and>
   ma_reads_from (process_rmw a r) = ma_reads_from r \<and> ma_order (process_rmw a r) = ma_order a"
  by (auto simp: process_rmw_def Let_def action_class_defs)

lemma new_action_Some:
  "new_action ty ord l v th cur = Some a \<Longrightarrow>
   ma_type a = ty \<and> ma_order a = ord \<and> ma_location a = l \<and> ma_value a = v \<and> ma_cv a = []
   \<and> ma_seq_number a = 0 \<and> ma_tid a = (case th of Some t \<Rightarrow> t | None \<Rightarrow> cur)"
  by (auto simp: new_action_def ACTION_INITIAL_CLOCK_def)

subsection \<open>Lemmas on happens-before\<close>

lemma create_cv_nonempty [simp]: "ma_cv (create_cv p a) \<noteq> []"
proof -
  have "length (new_clock_vector q t s) > 0" for q t s
    by (simp add: length_new_clock_vector)
  then show ?thesis
    by (auto simp: create_cv_def split: option.splits)
qed

lemma create_cv_fields [simp]:
  "ma_seq_number (create_cv p a) = ma_seq_number a" "ma_tid (create_cv p a) = ma_tid a"
  "ma_type (create_cv p a) = ma_type a" "ma_location (create_cv p a) = ma_location a"
  "ma_order (create_cv p a) = ma_order a" "ma_value (create_cv p a) = ma_value a"
  "ma_reads_from (create_cv p a) = ma_reads_from a"
  by (simp_all add: create_cv_def)

lemma create_cv_happens_before_self: "happens_before a (create_cv p a)"
  by (auto simp: happens_before_def create_cv_def split: option.splits)

lemma getClock_Nil [simp]: "getClock [] t = 0"
  by (simp add: getClock_def)

lemma create_cv_inherits:
  "x \<noteq> ma_tid a \<Longrightarrow> getClock (ma_cv (create_cv (Some p) a)) x = getClock (ma_cv p) x"
  by (simp add: create_cv_def)

lemma happens_before_create_cv:
  assumes "happens_before x p" "0 < ma_seq_number x" "ma_seq_number x \<le> ma_seq_number a"
  shows "happens_before x (create_cv (Some p) a)"
  using assms by (auto simp: happens_before_def synchronized_since_getClock create_cv_def)

lemma synchronize_with_fields:
  "synchronize_with act this = (b, t') \<Longrightarrow>
   ma_seq_number t' = ma_seq_number this \<and> ma_tid t' = ma_tid this \<and> ma_type t' = ma_type this"
  by (auto simp: synchronize_with_def split: if_splits)

lemma happens_before_synchronize_with:
  assumes "synchronize_with act this = (True, t')" "0 < ma_seq_number x"
  shows "happens_before x t' \<longleftrightarrow> happens_before x this \<or> happens_before x act"
  using assms by (auto simp: synchronize_with_def happens_before_def cv.since_merge split: if_splits)

subsection \<open>Properties\<close>

text \<open>
  Synchronisation transfers happens-before: after \<open>synchronize_with\<close> succeeds, exactly the
  actions that happened before either side happen before the synchronised action, and the
  action it synchronised with does so as well.
\<close>

theorem synchronize_with_joins_histories:
  assumes "synchronize_with act this = (True, t')" "0 < ma_seq_number x" "0 < ma_seq_number act"
    and "happens_before act act"
  shows "(happens_before x t' \<longleftrightarrow> happens_before x this \<or> happens_before x act) \<and>
    happens_before act t'"
  using assms by (simp add: happens_before_synchronize_with)

definition sample_action :: "action_type \<Rightarrow> thread_id \<Rightarrow> modelclock \<Rightarrow> model_action" where
  "sample_action ty t s =
     \<lparr>ma_type = ty, ma_order = memory_order_seq_cst, ma_original_order = memory_order_seq_cst,
      ma_location = 16, ma_tid = t, ma_value = 3, ma_reads_from = None,
      ma_reads_from_promise = None, ma_last_fence_release = None, ma_node = None,
      ma_seq_number = s, ma_cv = new_clock_vector None t s, ma_sleep_flag = False\<rparr>"

theorem synchronize_with_joins_histories_witness:
  "happens_before (sample_action ATOMIC_WRITE 0 1)
     (snd (synchronize_with (sample_action ATOMIC_WRITE 0 1) (sample_action ATOMIC_READ 1 2)))"
proof -
  have s: "synchronize_with (sample_action ATOMIC_WRITE 0 1) (sample_action ATOMIC_READ 1 2) =
      (True, snd (synchronize_with (sample_action ATOMIC_WRITE 0 1) (sample_action ATOMIC_READ 1 2)))"
    by code_simp
  have "happens_before (sample_action ATOMIC_WRITE 0 1) (sample_action ATOMIC_WRITE 0 1)"
    by code_simp
  with synchronize_with_joins_histories [OF s, of "sample_action ATOMIC_WRITE 0 1"] show ?thesis
    by (simp add: sample_action_def)
qed

end
