(* ===== verification/Promise_Model.thy ===== *)
theory Promise_Model
  imports Model_Action
begin

text \<open>
  Promises of future values (\<open>promise.h\<close>, \<open>promise.cc\<close>). The back pointer to the execution
  only serves \<open>get_index\<close> and is left to the execution's model. \<open>num_available_threads\<close> and
  \<open>num_was_available_threads\<close> are C \<open>int\<close> counters. The representation invariant
  \<open>promise_inv\<close> says that the counters count the set flags.
\<close>

record future_value =
  fv_value :: u64
  fv_expiration :: modelclock
  fv_tid :: thread_id

record promise =
  available_thread :: "bool list"
  was_available_thread :: "bool list"
  num_available_threads :: int
  num_was_available_threads :: int
  fv :: future_value
  readers :: "act_ptr list"
  pr_write :: "act_ptr option"

subsection \<open>Operations\<close>

definition has_failed :: "promise \<Rightarrow> bool" where
  "has_failed p \<longleftrightarrow> num_available_threads p = 0"

definition thread_is_available :: "promise \<Rightarrow> thread_id \<Rightarrow> bool" where
  "thread_is_available p tid =
     (if tid \<ge> length (available_thread p) then False else available_thread p ! tid)"

definition thread_was_available :: "promise \<Rightarrow> thread_id \<Rightarrow> bool" where
  "thread_was_available p tid =
     (if tid \<ge> length (was_available_thread p) then False else was_available_thread p ! tid)"

definition eliminate_thread :: "thread_id \<Rightarrow> promise \<Rightarrow> bool \<times> promise" where
  "eliminate_thread tid p =
     (if \<not> thread_is_available p tid then (False, p)
      else let p = p\<lparr>available_thread := (available_thread p)[tid := False],
                     num_available_threads := num_available_threads p - 1\<rparr>
           in (has_failed p, p))"

definition add_thread :: "thread_id \<Rightarrow> promise \<Rightarrow> promise" where
  "add_thread tid p =
     (let p = (if tid \<ge> length (available_thread p)
               then p\<lparr>available_thread := vec_grow (tid + 1) False (available_thread p)\<rparr> else p);
          p = (if \<not> available_thread p ! tid
               then p\<lparr>available_thread := (available_thread p)[tid := True],
                      num_available_threads := num_available_threads p + 1\<rparr> else p);
          p = (if tid \<ge> length (was_available_thread p)
               then p\<lparr>was_available_thread := vec_grow (tid + 1) False (was_available_thread p)\<rparr> else p)
      in if \<not> was_available_thread p ! tid
         then p\<lparr>was_available_thread := (was_available_thread p)[tid := True],
                num_was_available_threads := num_was_available_threads p + 1\<rparr> else p)"

definition new_promise :: "act_ptr \<Rightarrow> thread_id \<Rightarrow> future_value \<Rightarrow> promise" where
  "new_promise read read_tid f =
     (let p = \<lparr>available_thread = [], was_available_thread = [], num_available_threads = 0,
               num_was_available_threads = 0, fv = f, readers = [read], pr_write = None\<rparr>
      in snd (eliminate_thread read_tid (add_thread (fv_tid f) p)))"

definition add_reader :: "act_ptr \<Rightarrow> thread_id \<Rightarrow> promise \<Rightarrow> bool \<times> promise" where
  "add_reader reader reader_tid p =
     eliminate_thread reader_tid (p\<lparr>readers := readers p @ [reader]\<rparr>)"

definition get_reader :: "promise \<Rightarrow> nat \<Rightarrow> act_ptr option" where
  "get_reader p i = (if i < length (readers p) then Some (readers p ! i) else None)"

definition max_available_thread_idx :: "promise \<Rightarrow> nat" where
  "max_available_thread_idx p = length (available_thread p)"

definition set_write :: "act_ptr \<Rightarrow> promise \<Rightarrow> promise" where
  "set_write w p = p\<lparr>pr_write := Some w\<rparr>"

text \<open>\<open>get_reader(0)->same_var(act)\<close>: the first reader always exists, see \<open>readers_nonempty\<close>.\<close>

definition same_location :: "(act_ptr \<Rightarrow> model_action) \<Rightarrow> promise \<Rightarrow> model_action \<Rightarrow> bool" where
  "same_location acts p act =
     (case get_reader p 0 of Some r \<Rightarrow> same_var (acts r) act | None \<Rightarrow> False)"

definition is_compatible :: "(act_ptr \<Rightarrow> model_action) \<Rightarrow> promise \<Rightarrow> model_action \<Rightarrow> bool" where
  "is_compatible acts p act \<longleftrightarrow>
     thread_is_available p (ma_tid act) \<and>
     (case get_reader p 0 of Some r \<Rightarrow> same_var (acts r) act | None \<Rightarrow> False)"

definition is_compatible_exclusive :: "(act_ptr \<Rightarrow> model_action) \<Rightarrow> promise \<Rightarrow> model_action \<Rightarrow> bool" where
  "is_compatible_exclusive acts p act \<longleftrightarrow> num_available_threads p = 1 \<and> is_compatible acts p act"

definition same_value :: "promise \<Rightarrow> model_action \<Rightarrow> bool option" where
  "same_value p w = do { v \<leftarrow> get_write_value w; Some (fv_value (fv p) = v) }"

subsection \<open>The representation invariant\<close>

definition flags_of :: "bool list \<Rightarrow> nat set" where
  "flags_of bs = {i. i < length bs \<and> bs ! i}"

definition promise_inv :: "promise \<Rightarrow> bool" where
  "promise_inv p \<longleftrightarrow>
     num_available_threads p = int (count_list (available_thread p) True) \<and>
     num_was_available_threads p = int (count_list (was_available_thread p) True) \<and>
     length (available_thread p) \<le> length (was_available_thread p) \<and>
     (\<forall>t. thread_is_available p t \<longrightarrow> thread_was_available p t) \<and>
     readers p \<noteq> []"

lemma count_list_True_update:
  "i < length bs \<Longrightarrow> int (count_list (bs[i := b]) True) =
     int (count_list bs True) - (if bs ! i then 1 else 0) + (if b then 1 else 0)"
proof (induction bs arbitrary: i)
  case Nil
  then show ?case by simp
next
  case (Cons a bs)
  show ?case
  proof (cases i)
    case 0
    then show ?thesis by auto
  next
    case (Suc k)
    with Cons.prems Cons.IH [of k] show ?thesis by auto
  qed
qed

lemma list_update_True_id [simp]: "xs ! i \<Longrightarrow> xs[i := True] = xs"
  by (metis (full_types) list_update_id)

lemma list_update_False_id [simp]: "\<not> xs ! i \<Longrightarrow> xs[i := False] = xs"
  by (metis (full_types) list_update_id)

lemma count_list_replicate: "count_list (replicate n b) c = (if b = c then n else 0)"
  by (induction n) auto

lemma count_list_vec_grow_False [simp]: "count_list (vec_grow n False bs) True = count_list bs True"
  by (simp add: vec_grow_def count_list_replicate)

lemma thread_is_available_vec: "thread_is_available p t = vec_get False (available_thread p) t"
  by (simp add: thread_is_available_def vec_get_def)

lemma thread_was_available_vec: "thread_was_available p t = vec_get False (was_available_thread p) t"
  by (simp add: thread_was_available_def vec_get_def)

lemmas thread_available_vec = thread_is_available_vec thread_was_available_vec

lemma eliminate_thread_available:
  "thread_is_available (snd (eliminate_thread t p)) u \<longleftrightarrow> thread_is_available p u \<and> u \<noteq> t"
  by (auto simp: eliminate_thread_def Let_def thread_available_vec vec_get_update)

lemma eliminate_thread_was [simp]:
  "thread_was_available (snd (eliminate_thread t p)) u = thread_was_available p u"
  "readers (snd (eliminate_thread t p)) = readers p" "fv (snd (eliminate_thread t p)) = fv p"
  by (auto simp: eliminate_thread_def Let_def thread_was_available_def)

lemma length_available_eliminate [simp]:
  "length (available_thread (snd (eliminate_thread t p))) = length (available_thread p)"
  "was_available_thread (snd (eliminate_thread t p)) = was_available_thread p"
  "num_was_available_threads (snd (eliminate_thread t p)) = num_was_available_threads p"
  by (auto simp: eliminate_thread_def Let_def)

lemma eliminate_thread_inv: 
  assumes "promise_inv p"
  shows "promise_inv (snd (eliminate_thread t p))"
proof -
  have "num_available_threads (snd (eliminate_thread t p)) =
          int (count_list (available_thread (snd (eliminate_thread t p))) True)"
    using assms by (auto simp: promise_inv_def eliminate_thread_def Let_def thread_is_available_def
        count_list_True_update split: if_splits)
  then show ?thesis
    using assms by (simp add: promise_inv_def eliminate_thread_available)
qed

lemma add_thread_fields [simp]:
  "readers (add_thread t p) = readers p" "fv (add_thread t p) = fv p"
  "available_thread (add_thread t p) = (vec_grow (t + 1) False (available_thread p))[t := True]"
  "was_available_thread (add_thread t p) = (vec_grow (t + 1) False (was_available_thread p))[t := True]"
  by (auto simp: add_thread_def Let_def)

lemma add_thread_available [simp]:
  "thread_is_available (add_thread t p) u \<longleftrightarrow> u = t \<or> thread_is_available p u"
  "thread_was_available (add_thread t p) u \<longleftrightarrow> u = t \<or> thread_was_available p u"
  by (auto simp: thread_available_vec vec_get_update)

lemma add_thread_counts:
  "num_available_threads (add_thread t p) =
     num_available_threads p + (if thread_is_available p t then 0 else 1)"
  "num_was_available_threads (add_thread t p) =
     num_was_available_threads p + (if thread_was_available p t then 0 else 1)"
  by (auto simp: add_thread_def Let_def thread_is_available_def thread_was_available_def nth_vec_grow)

lemma count_list_grow_update:
  "int (count_list ((vec_grow (t + 1) False bs)[t := True]) True) =
     int (count_list bs True) + (if vec_get False bs t then 0 else 1)"
  by (subst count_list_True_update) (auto simp: nth_vec_grow vec_get_def)

lemma add_thread_inv:
  assumes inv: "promise_inv p"
  shows "promise_inv (add_thread t p)"
proof -
  have a: "num_available_threads (add_thread t p) =
      int (count_list (available_thread (add_thread t p)) True)"
    using inv unfolding add_thread_counts add_thread_fields count_list_grow_update
    by (simp add: promise_inv_def thread_is_available_vec)
  have w: "num_was_available_threads (add_thread t p) =
      int (count_list (was_available_thread (add_thread t p)) True)"
    using inv unfolding add_thread_counts add_thread_fields count_list_grow_update
    by (simp add: promise_inv_def thread_was_available_vec)
  from a w inv show ?thesis
    by (auto simp: promise_inv_def simp del: add_thread_fields(3,4))
       (simp add: add_thread_fields(3,4))
qed

lemma new_promise_inv: "promise_inv (new_promise r t f)"
proof -
  define p0 where "p0 = \<lparr>available_thread = [], was_available_thread = [], num_available_threads = 0,
      num_was_available_threads = 0, fv = f, readers = [r], pr_write = None\<rparr>"
  have "promise_inv p0"
    by (simp add: p0_def promise_inv_def thread_is_available_def)
  then show ?thesis
    by (simp add: new_promise_def Let_def p0_def [symmetric] eliminate_thread_inv add_thread_inv)
qed

lemma promise_inv_readers_append:
  "promise_inv p \<Longrightarrow> promise_inv (p\<lparr>readers := readers p @ [r]\<rparr>)"
  by (simp add: promise_inv_def thread_is_available_def thread_was_available_def)

lemma add_reader_inv: "promise_inv p \<Longrightarrow> promise_inv (snd (add_reader r t p))"
  unfolding add_reader_def by (intro eliminate_thread_inv promise_inv_readers_append)

lemma set_write_inv [simp]: "promise_inv (set_write w p) = promise_inv p"
  by (simp add: set_write_def promise_inv_def thread_is_available_def thread_was_available_def)

lemma count_list_eq_0_iff: "count_list bs True = 0 \<longleftrightarrow> (\<forall>i < length bs. \<not> bs ! i)"
  by (auto simp: count_list_0_iff in_set_conv_nth)

lemma has_failed_iff:
  assumes "promise_inv p"
  shows "has_failed p \<longleftrightarrow> (\<forall>t. \<not> thread_is_available p t)"
  using assms by (auto simp: has_failed_def promise_inv_def count_list_eq_0_iff thread_is_available_def)

lemma eliminate_thread_result:
  assumes "promise_inv p"
  shows "fst (eliminate_thread t p) \<longleftrightarrow>
           thread_is_available p t \<and> (\<forall>u. thread_is_available p u \<longrightarrow> u = t)"
proof (cases "thread_is_available p t")
  case True
  then have "fst (eliminate_thread t p) = has_failed (snd (eliminate_thread t p))"
    by (simp add: eliminate_thread_def Let_def)
  with True show ?thesis
    by (auto simp: has_failed_iff [OF eliminate_thread_inv [OF assms]] eliminate_thread_available)
next
  case False
  then show ?thesis by (simp add: eliminate_thread_def)
qed

lemma readers_nonempty: "promise_inv p \<Longrightarrow> get_reader p 0 = Some (hd (readers p))"
  by (auto simp: promise_inv_def get_reader_def hd_conv_nth)

subsection \<open>Properties\<close>

text \<open>The operations an execution applies to a promise, and a run of them.\<close>

datatype promise_op = Eliminate thread_id | AddThread thread_id | AddReader act_ptr thread_id
  | SetWrite act_ptr

fun promise_step :: "promise_op \<Rightarrow> promise \<Rightarrow> promise" where
  "promise_step (Eliminate t) p = snd (eliminate_thread t p)"
| "promise_step (AddThread t) p = add_thread t p"
| "promise_step (AddReader r t) p = snd (add_reader r t p)"
| "promise_step (SetWrite w) p = set_write w p"

lemma promise_step_inv: "promise_inv p \<Longrightarrow> promise_inv (promise_step st p)"
  by (cases st) (simp_all add: eliminate_thread_inv add_thread_inv add_reader_inv)

lemma promise_run_inv: "promise_inv p \<Longrightarrow> promise_inv (fold promise_step sts p)"
  by (induction sts arbitrary: p) (simp_all add: promise_step_inv)

lemma count_list_card: "count_list bs True = card {i. vec_get False bs i}"
proof (induction bs)
  case Nil
  then show ?case by simp
next
  case (Cons b bs)
  have "{i. vec_get False (b # bs) i} = (if b then {0} else {}) \<union> Suc ` {i. vec_get False bs i}"
  proof (rule set_eqI)
    fix i
    show "i \<in> {i. vec_get False (b # bs) i} \<longleftrightarrow>
        i \<in> (if b then {0} else {}) \<union> Suc ` {i. vec_get False bs i}"
      by (cases i) auto
  qed
  moreover have "finite {i. vec_get False bs i}"
    by (rule finite_subset [of _ "{..<length bs}"]) (auto simp: vec_get_def)
  ultimately show ?case
    using Cons.IH by (cases b) (auto simp: card_image)
qed

text \<open>
  Whatever operations an execution applies to a promise, its counters count the threads
  that are and were available, and it has failed exactly when no thread is left that could
  still perform the promised write.
\<close>

theorem promise_counts_available_threads:
  "let p = fold promise_step sts (new_promise r t f)
   in num_available_threads p = int (card {u. thread_is_available p u}) \<and>
      num_was_available_threads p = int (card {u. thread_was_available p u}) \<and>
      (has_failed p \<longleftrightarrow> (\<nexists>u. thread_is_available p u))"
proof -
  have "promise_inv (fold promise_step sts (new_promise r t f))"
    by (rule promise_run_inv [OF new_promise_inv])
  then show ?thesis
    by (simp add: Let_def promise_inv_def count_list_card thread_available_vec [symmetric]
        has_failed_iff)
qed

text \<open>
  \<open>eliminate_thread\<close> makes exactly the given thread unavailable, keeps the promise
  well-formed, and returns true exactly when that thread was the last one available.
\<close>

theorem eliminate_thread_spec:
  assumes "promise_inv p" "eliminate_thread t p = (failed, p')"
  shows "promise_inv p' \<and>
    (\<forall>u. thread_is_available p' u \<longleftrightarrow> thread_is_available p u \<and> u \<noteq> t) \<and>
    (\<forall>u. thread_was_available p' u = thread_was_available p u) \<and>
    (failed \<longleftrightarrow> thread_is_available p t \<and> has_failed p')"
  using assms eliminate_thread_inv [OF assms(1), of t] eliminate_thread_available [of t p]
    eliminate_thread_was(1) [of t p] eliminate_thread_result [OF assms(1), of t]
  by (auto simp: has_failed_iff)

theorem eliminate_thread_spec_witness:
  "let p = add_thread 2 (new_promise 7 1 \<lparr>fv_value = 5, fv_expiration = 9, fv_tid = 0\<rparr>)
   in eliminate_thread 2 (snd (eliminate_thread 0 p)) =
        (True, snd (eliminate_thread 2 (snd (eliminate_thread 0 p)))) \<and>
      has_failed (snd (eliminate_thread 2 (snd (eliminate_thread 0 p))))"
proof -
  define p where "p = snd (eliminate_thread 0
     (add_thread 2 (new_promise 7 1 \<lparr>fv_value = 5, fv_expiration = 9, fv_tid = 0\<rparr>)))"
  have inv: "promise_inv p"
    unfolding p_def by (intro eliminate_thread_inv add_thread_inv new_promise_inv)
  have e: "eliminate_thread 2 p = (True, snd (eliminate_thread 2 p))"
    unfolding p_def by code_simp
  from eliminate_thread_spec [OF inv e] e show ?thesis by (simp add: p_def Let_def)
qed

end
