(* ===== verification/Hash_Table.thy ===== *)
theory Hash_Table
  imports CDS_Prelude
begin

text \<open>
  The open-addressing hash table (\<open>hashtable.h\<close>). A slot is a pair of a key and a value; the
  key 0 marks an empty slot. Every table of the program is built with the default load factor
  0.5, so the threshold is half the capacity. \<open>_Shift\<close> is the field \<open>ht_shift\<close>. The probing
  loops may run forever on a full table: they are partial functions, and the invariant
  \<open>ht_inv\<close> (the capacity is a power of two, the table keeps free slots, every key is reachable
  from its home slot) makes them return.

  The locale \<open>ptr_map\<close> is the interface the cycle graph, the race detector and the work
  lists rely on; it is interpreted on the operations of this table.
\<close>

type_synonym 'v slots = "(u64 \<times> 'v) list"

type_synonym u32 = "32 word"

record 'v hash_table =
  ht_table :: "'v slots"
  ht_capacity :: u32
  ht_size :: u32
  ht_capacitymask :: u32
  ht_threshold :: u32
  ht_shift :: nat

subsection \<open>Operations\<close>

definition new_hash_table :: "nat \<Rightarrow> u32 \<Rightarrow> ('v::zero) hash_table" where
  "new_hash_table shift initialcapacity =
     \<lparr>ht_table = replicate (unat initialcapacity) (0, 0), ht_capacity = initialcapacity, ht_size = 0,
      ht_capacitymask = initialcapacity - 1, ht_threshold = initialcapacity div 2, ht_shift = shift\<rparr>"

definition ht_reset :: "('v::zero) hash_table \<Rightarrow> 'v hash_table" where
  "ht_reset t = t\<lparr>ht_table := replicate (unat (ht_capacity t)) (0, 0), ht_size := 0\<rparr>"

text \<open>\<open>unsigned int index = ((_KeyInt)key) >> _Shift\<close>: the shifted key cut to 32 bits.\<close>

definition ht_index :: "nat \<Rightarrow> u64 \<Rightarrow> u32" where
  "ht_index shift key = ucast (drop_bit shift key)"

text \<open>The probing loops; a slot outside of the table is refused.\<close>

partial_function (option) ht_search :: "'v slots \<Rightarrow> u32 \<Rightarrow> u64 \<Rightarrow> u32 \<Rightarrow> (bool \<times> nat) option" where
  "ht_search table msk key index =
     (let index = index AND msk; i = unat index
      in if \<not> i < length table then None
         else if fst (table ! i) = key then Some (True, i)
         else if fst (table ! i) \<noteq> 0 then ht_search table msk key (index + 1)
         else Some (False, i))"

declare ht_search.simps [code]

partial_function (option) ht_find_free :: "'v slots \<Rightarrow> u32 \<Rightarrow> u32 \<Rightarrow> nat option" where
  "ht_find_free table msk index =
     (let index = index AND msk; i = unat index
      in if \<not> i < length table then None
         else if fst (table ! i) \<noteq> 0 then ht_find_free table msk (index + 1) else Some i)"

declare ht_find_free.simps [code]

fun ht_move :: "nat \<Rightarrow> u32 \<Rightarrow> 'v slots \<Rightarrow> 'v slots \<Rightarrow> 'v slots option" where
  "ht_move shift msk [] table = Some table"
| "ht_move shift msk ((key, v) # bins) table = do {
     i \<leftarrow> ht_find_free table msk (ht_index shift key);
     ht_move shift msk bins (table[i := (key, v)])
   }"

definition ht_resize :: "u32 \<Rightarrow> ('v::zero) hash_table \<Rightarrow> 'v hash_table option" where
  "ht_resize newsize t = do {
     table \<leftarrow> ht_move (ht_shift t) (newsize - 1) (ht_table t) (replicate (unat newsize) (0, 0));
     Some (t\<lparr>ht_table := table, ht_capacity := newsize, ht_capacitymask := newsize - 1,
             ht_threshold := newsize div 2\<rparr>)
   }"

definition ht_put :: "u64 \<Rightarrow> 'v \<Rightarrow> ('v::zero) hash_table \<Rightarrow> 'v hash_table option" where
  "ht_put key v t = do {
     ASSERT (key \<noteq> 0);
     t \<leftarrow> (if ht_size t > ht_threshold t then ht_resize (push_bit 1 (ht_capacity t)) t else Some t);
     (found, i) \<leftarrow> ht_search (ht_table t) (ht_capacitymask t) key (ht_index (ht_shift t) key);
     Some (if found then t\<lparr>ht_table := (ht_table t)[i := (key, v)]\<rparr>
           else t\<lparr>ht_table := (ht_table t)[i := (key, v)], ht_size := ht_size t + 1\<rparr>)
   }"

definition ht_get :: "('v::zero) hash_table \<Rightarrow> u64 \<Rightarrow> 'v option" where
  "ht_get t key = do {
     ASSERT (key \<noteq> 0);
     (found, i) \<leftarrow> ht_search (ht_table t) (ht_capacitymask t) key (ht_index (ht_shift t) key);
     Some (if found then snd (ht_table t ! i) else 0)
   }"

definition ht_contains :: "('v::zero) hash_table \<Rightarrow> u64 \<Rightarrow> bool option" where
  "ht_contains t key = do {
     ASSERT (key \<noteq> 0);
     (found, i) \<leftarrow> ht_search (ht_table t) (ht_capacitymask t) key (ht_index (ht_shift t) key);
     Some found
   }"

subsection \<open>Probing\<close>

text \<open>The capacities: the powers of two that a 32-bit word holds.\<close>

definition is_capacity :: "nat \<Rightarrow> bool" where
  "is_capacity n \<longleftrightarrow> (\<exists>m. n = 2 ^ m \<and> m \<le> 31)"

definition home :: "nat \<Rightarrow> u64 \<Rightarrow> nat" where
  "home shift key = unat (ht_index shift key)"

lemma ht_index_home: "ht_index shift key = of_nat (home shift key)"
  by (simp add: home_def)

lemma capacity_less: "is_capacity n \<Longrightarrow> n \<le> 2 ^ 31" "is_capacity n \<Longrightarrow> 0 < n"
  by (auto simp: is_capacity_def simp del: numeral_power_eq_of_nat_cancel_iff
      dest: power_increasing [of _ 31 "2::nat"])

lemma masked_index:
  assumes "is_capacity n"
  shows "of_nat i AND (of_nat n - 1 :: u32) = of_nat (i mod n)"
proof -
  obtain m where m: "n = 2 ^ m" "m \<le> 31" using assms by (auto simp: is_capacity_def)
  have "of_nat n - 1 = (mask m :: u32)" by (simp add: m(1) mask_eq_exp_minus_1)
  then have "of_nat i AND (of_nat n - 1 :: u32) = take_bit m (of_nat i)" by (simp only: take_bit_eq_mask)
  also have "\<dots> = of_nat (take_bit m i)" by (simp add: take_bit_of_nat)
  finally show ?thesis by (simp add: take_bit_eq_mod m(1))
qed

lemma unat_masked_index:
  assumes "is_capacity n"
  shows "unat (of_nat (i mod n) :: u32) = i mod n"
proof -
  have "i mod n < 2 ^ 32"
    using capacity_less(1) [OF assms] mod_less_divisor [OF capacity_less(2) [OF assms], of i]
    by (simp only: power_numeral) simp
  then show ?thesis by (simp add: unat_of_nat take_bit_nat_eq_self)
qed

lemma ht_search_unfold:
  assumes "is_capacity n" "length tab = n"
  shows "ht_search tab (of_nat n - 1) k (of_nat i) =
     (if fst (tab ! (i mod n)) = k then Some (True, i mod n)
      else if fst (tab ! (i mod n)) \<noteq> 0 then ht_search tab (of_nat n - 1) k (of_nat (i mod n + 1))
      else Some (False, i mod n))"
proof -
  have "i mod n < length tab" using capacity_less(2) [OF assms(1)] assms(2) by simp
  then show ?thesis
    by (subst ht_search.simps) (simp add: Let_def masked_index [OF assms(1)] unat_masked_index [OF assms(1)] add.commute)
qed

lemma ht_find_free_unfold:
  assumes "is_capacity n" "length tab = n"
  shows "ht_find_free tab (of_nat n - 1) (of_nat i) =
     (if fst (tab ! (i mod n)) \<noteq> 0 then ht_find_free tab (of_nat n - 1) (of_nat (i mod n + 1))
      else Some (i mod n))"
proof -
  have "i mod n < length tab" using capacity_less(2) [OF assms(1)] assms(2) by simp
  then show ?thesis
    by (subst ht_find_free.simps) (simp add: Let_def masked_index [OF assms(1)] unat_masked_index [OF assms(1)] add.commute)
qed

lemma probe_shift: "(i mod n + 1 + x) mod n = (i + Suc x) mod (n::nat)"
  by (metis Suc_eq_plus1 add.assoc mod_add_left_eq plus_1_eq_Suc)

lemma ht_search_spec:
  assumes n: "is_capacity n" "length tab = n"
  shows "\<forall>j'<j. fst (tab ! ((i + j') mod n)) \<noteq> 0 \<and> fst (tab ! ((i + j') mod n)) \<noteq> k \<Longrightarrow>
    fst (tab ! ((i + j) mod n)) = k \<or> fst (tab ! ((i + j) mod n)) = 0 \<Longrightarrow>
    ht_search tab (of_nat n - 1) k (of_nat i) = Some (fst (tab ! ((i + j) mod n)) = k, (i + j) mod n)"
proof (induction j arbitrary: i)
  case 0
  then show ?case by (subst ht_search_unfold [OF n]) auto
next
  case (Suc j)
  have h0: "fst (tab ! (i mod n)) \<noteq> 0 \<and> fst (tab ! (i mod n)) \<noteq> k"
    using Suc.prems(1) [rule_format, of 0] by simp
  have "\<forall>j'<j. fst (tab ! ((i mod n + 1 + j') mod n)) \<noteq> 0 \<and> fst (tab ! ((i mod n + 1 + j') mod n)) \<noteq> k"
    unfolding probe_shift using Suc.prems(1) by blast
  from Suc.IH [OF this] Suc.prems(2)
  have "ht_search tab (of_nat n - 1) k (of_nat (i mod n + 1)) =
      Some (fst (tab ! ((i + Suc j) mod n)) = k, (i + Suc j) mod n)"
    unfolding probe_shift by blast
  with h0 show ?case unfolding ht_search_unfold [OF n, of k i] by simp
qed

lemma ht_find_free_spec:
  assumes n: "is_capacity n" "length tab = n"
  shows "\<forall>j'<j. fst (tab ! ((i + j') mod n)) \<noteq> 0 \<Longrightarrow> fst (tab ! ((i + j) mod n)) = 0 \<Longrightarrow>
    ht_find_free tab (of_nat n - 1) (of_nat i) = Some ((i + j) mod n)"
proof (induction j arbitrary: i)
  case 0
  then show ?case by (subst ht_find_free_unfold [OF n]) simp
next
  case (Suc j)
  have h0: "fst (tab ! (i mod n)) \<noteq> 0"
    using Suc.prems(1) [rule_format, of 0] by simp
  have "\<forall>j'<j. fst (tab ! ((i mod n + 1 + j') mod n)) \<noteq> 0"
    unfolding probe_shift using Suc.prems(1) by blast
  from Suc.IH [OF this] Suc.prems(2)
  have "ht_find_free tab (of_nat n - 1) (of_nat (i mod n + 1)) = Some ((i + Suc j) mod n)"
    unfolding probe_shift by blast
  with h0 show ?case unfolding ht_find_free_unfold [OF n, of i] by simp
qed

subsection \<open>The invariant\<close>

text \<open>The distance of slot \<open>i\<close> from slot \<open>h\<close> along the probe sequence of a table of size \<open>n\<close>.\<close>

definition probe_dist :: "nat \<Rightarrow> nat \<Rightarrow> nat \<Rightarrow> nat" where
  "probe_dist n h i = (i + n - h mod n) mod n"

lemma probe_dist_less [simp]: "0 < n \<Longrightarrow> probe_dist n h i < n"
  by (simp add: probe_dist_def)

lemma probe_dist_reaches: "i < n \<Longrightarrow> (h + probe_dist n h i) mod n = i"
proof -
  assume i: "i < n"
  have "(h + probe_dist n h i) mod n = (h mod n + (i + n - h mod n)) mod n"
    unfolding probe_dist_def by presburger
  also have "h mod n + (i + n - h mod n) = i + n"
    using i mod_less_divisor [of n h] by linarith
  finally show ?thesis using i by simp
qed

lemma probe_inj_le:
  assumes "j \<le> d" "d < n" "(h + j) mod n = (h + d) mod (n::nat)"
  shows "j = d"
proof -
  from assms have "n dvd (h + d) - (h + j)"
    using mod_eq_dvd_iff_nat [of "h + j" "h + d" n] by simp
  then have "n dvd d - j" by simp
  with assms show ?thesis
    by (metis diff_is_0_eq' dvd_imp_le le_antisym less_imp_diff_less linorder_not_le zero_less_diff)
qed

lemma probe_inj: "j < n \<Longrightarrow> d < n \<Longrightarrow> (h + j) mod n = (h + d) mod (n::nat) \<Longrightarrow> j = d"
  by (metis nat_le_linear probe_inj_le)

text \<open>
  \<open>slots_ok n sh tab\<close>: the table has \<open>n\<close> slots, no key twice, and every slot passed on the way
  from the home of a key to the key is occupied. \<open>occupied\<close> counts the occupied slots.
\<close>

definition chain :: "'v slots \<Rightarrow> nat \<Rightarrow> nat \<Rightarrow> nat \<Rightarrow> bool" where
  "chain tab n h d \<longleftrightarrow> (\<forall>j<d. fst (tab ! ((h + j) mod n)) \<noteq> 0)"

definition slots_ok :: "nat \<Rightarrow> nat \<Rightarrow> 'v slots \<Rightarrow> bool" where
  "slots_ok n sh tab \<longleftrightarrow> length tab = n \<and>
     (\<forall>i<n. \<forall>j<n. fst (tab ! i) \<noteq> 0 \<and> fst (tab ! i) = fst (tab ! j) \<longrightarrow> i = j) \<and>
     (\<forall>i<n. fst (tab ! i) \<noteq> 0 \<longrightarrow>
        chain tab n (home sh (fst (tab ! i))) (probe_dist n (home sh (fst (tab ! i))) i))"

definition occupied :: "'v slots \<Rightarrow> nat" where
  "occupied tab = length (filter (\<lambda>s. fst s \<noteq> 0) tab)"

definition ht_inv :: "'v hash_table \<Rightarrow> bool" where
  "ht_inv t \<longleftrightarrow>
     is_capacity (length (ht_table t)) \<and> 4 \<le> length (ht_table t) \<and>
     ht_capacity t = of_nat (length (ht_table t)) \<and> ht_capacitymask t = ht_capacity t - 1 \<and>
     ht_threshold t = of_nat (length (ht_table t) div 2) \<and>
     slots_ok (length (ht_table t)) (ht_shift t) (ht_table t) \<and>
     ht_size t = of_nat (occupied (ht_table t)) \<and>
     occupied (ht_table t) \<le> length (ht_table t) div 2 + 1"

definition ht_lookup :: "'v hash_table \<Rightarrow> u64 \<Rightarrow> 'v option" where
  "ht_lookup t k = (if k = 0 then None else map_of (ht_table t) k)"

lemma occupied_less_free: "occupied tab < length tab \<Longrightarrow> \<exists>i < length tab. fst (tab ! i) = 0"
proof -
  assume "occupied tab < length tab"
  have "filter (\<lambda>s. fst s \<noteq> 0) tab \<noteq> tab"
  proof
    assume "filter (\<lambda>s. fst s \<noteq> 0) tab = tab"
    with \<open>occupied tab < length tab\<close> show False
      unfolding occupied_def by simp
  qed
  then have "\<not> (\<forall>s \<in> set tab. fst s \<noteq> 0)"
    by (simp add: filter_id_conv)
  then obtain s where "s \<in> set tab" "fst s = 0" by blast
  then show ?thesis unfolding in_set_conv_nth by blast
qed

lemma occupied_update:
  "i < length tab \<Longrightarrow> occupied (tab[i := (k, v)]) + (if fst (tab ! i) \<noteq> 0 then 1 else 0) =
     occupied tab + (if k \<noteq> 0 then 1 else 0)"
proof (induction tab arbitrary: i)
  case Nil
  then show ?case by simp
next
  case (Cons s tab)
  show ?case
  proof (cases i)
    case 0
    then show ?thesis by (auto simp: occupied_def)
  next
    case (Suc i')
    with Cons.prems have "i' < length tab" by simp
    from Cons.IH [OF this] show ?thesis
      using Suc by (auto simp: occupied_def split: if_splits)
  qed
qed

lemma slots_uniqueD:
  "slots_ok n sh tab \<Longrightarrow> i < n \<Longrightarrow> j < n \<Longrightarrow> fst (tab ! i) \<noteq> 0 \<Longrightarrow> fst (tab ! j) = fst (tab ! i) \<Longrightarrow> i = j"
  unfolding slots_ok_def by metis

lemma slots_chainD:
  "slots_ok n sh tab \<Longrightarrow> i < n \<Longrightarrow> fst (tab ! i) = k \<Longrightarrow> k \<noteq> 0 \<Longrightarrow>
     chain tab n (home sh k) (probe_dist n (home sh k) i)"
  unfolding slots_ok_def by metis

text \<open>Where a search ends: at the key if it is stored, otherwise at the first free slot.\<close>

lemma search_stored:
  assumes n: "is_capacity n" and ok: "slots_ok n sh tab" and i: "i < n" "fst (tab ! i) = k" "k \<noteq> 0"
  shows "ht_search tab (of_nat n - 1) k (ht_index sh k) = Some (True, i)"
proof -
  let ?h = "home sh k" let ?d = "probe_dist n ?h i"
  have n0: "0 < n" using n by (rule capacity_less)
  have len: "length tab = n" using ok by (simp add: slots_ok_def)
  have at: "(?h + ?d) mod n = i" using i by (simp add: probe_dist_reaches)
  have "chain tab n ?h ?d"
    using ok i by (rule slots_chainD)
  moreover have "fst (tab ! ((?h + j) mod n)) \<noteq> k" if "j < ?d" for j
  proof
    assume "fst (tab ! ((?h + j) mod n)) = k"
    then have "(?h + j) mod n = i"
      using slots_uniqueD [OF ok i(1), of "(?h + j) mod n"] i n0 by simp
    then have "j = ?d"
      using that n0 at probe_inj [of j n ?d ?h] probe_dist_less [OF n0, of ?h i] by linarith
    with that show False by simp
  qed
  ultimately have "\<forall>j<?d. fst (tab ! ((?h + j) mod n)) \<noteq> 0 \<and> fst (tab ! ((?h + j) mod n)) \<noteq> k"
    by (auto simp: chain_def)
  from ht_search_spec [OF n len this] at i show ?thesis by (simp add: ht_index_home)
qed

lemma first_free:
  assumes "e < n" "fst (tab ! e) = 0"
  obtains j where "chain tab n h j" "fst (tab ! ((h + j) mod n)) = 0" "j < n"
proof -
  let ?P = "\<lambda>j. fst (tab ! ((h + j) mod n)) = 0"
  have P: "?P (probe_dist n h e)" using assms by (simp add: probe_dist_reaches)
  show ?thesis
  proof
    show "chain tab n h (Least ?P)"
      unfolding chain_def using not_less_Least by blast
    show "?P (Least ?P)" using P by (rule LeastI)
    have "Least ?P \<le> probe_dist n h e" using P by (rule Least_le)
    also have "\<dots> < n" using assms by simp
    finally show "Least ?P < n" .
  qed
qed

lemma search_absent:
  assumes n: "is_capacity n" and len: "length tab = n" and e: "e < n" "fst (tab ! e) = 0"
    and absent: "\<forall>i<n. fst (tab ! i) \<noteq> k" and k: "k \<noteq> 0"
  obtains j where "ht_search tab (of_nat n - 1) k (ht_index sh k) = Some (False, (home sh k + j) mod n)"
    "fst (tab ! ((home sh k + j) mod n)) = 0" "chain tab n (home sh k) j" "j < n"
proof -
  let ?h = "home sh k"
  obtain j where j: "chain tab n ?h j" "fst (tab ! ((?h + j) mod n)) = 0" "j < n"
    using first_free [OF e] by blast
  have "\<forall>j'<j. fst (tab ! ((?h + j') mod n)) \<noteq> 0 \<and> fst (tab ! ((?h + j') mod n)) \<noteq> k"
    using j absent capacity_less(2) [OF n] by (auto simp: chain_def)
  from ht_search_spec [OF n len this] j k
  have "ht_search tab (of_nat n - 1) k (ht_index sh k) = Some (False, (?h + j) mod n)"
    by (auto simp: ht_index_home)
  with j show thesis by (intro that) auto
qed

subsection \<open>The interface: a map keyed by pointers\<close>

locale ptr_map =
  fixes get :: "'m \<Rightarrow> u64 \<Rightarrow> ('v::zero) option"
    and contains :: "'m \<Rightarrow> u64 \<Rightarrow> bool option"
    and put :: "u64 \<Rightarrow> 'v \<Rightarrow> 'm \<Rightarrow> 'm option"
    and reset :: "'m \<Rightarrow> 'm"
    and lookup :: "'m \<Rightarrow> u64 \<Rightarrow> 'v option"
    and invar :: "'m \<Rightarrow> bool"
    and limit :: nat
  assumes get_lookup: "invar m \<Longrightarrow> k \<noteq> 0 \<Longrightarrow>
      get m k = Some (case lookup m k of None \<Rightarrow> 0 | Some v \<Rightarrow> v)"
    and contains_lookup: "invar m \<Longrightarrow> k \<noteq> 0 \<Longrightarrow> contains m k = Some (lookup m k \<noteq> None)"
    and finite_lookup: "invar m \<Longrightarrow> finite (dom (lookup m))"
    and put_lookup: "invar m \<Longrightarrow> k \<noteq> 0 \<Longrightarrow> card (dom (lookup m)) < limit \<Longrightarrow>
      \<exists>m'. put k v m = Some m' \<and> invar m' \<and> lookup m' = (lookup m)(k \<mapsto> v)"
    and reset_lookup: "invar m \<Longrightarrow> invar (reset m) \<and> lookup (reset m) = Map.empty"
begin

lemma get_put_same:
  assumes "invar m" "k \<noteq> 0" "card (dom (lookup m)) < limit" "put k v m = Some m'"
  shows "get m' k = Some v" and "contains m' k = Some True"
  using put_lookup [OF assms(1-3), of v] assms by (auto simp: get_lookup contains_lookup)

lemma get_put_other:
  assumes "invar m" "k \<noteq> 0" "card (dom (lookup m)) < limit" "put k v m = Some m'" "j \<noteq> 0" "j \<noteq> k"
  shows "get m' j = get m j" and "contains m' j = contains m j"
  using put_lookup [OF assms(1-3), of v] assms by (auto simp: get_lookup contains_lookup)

primrec put_all :: "(u64 \<times> 'v) list \<Rightarrow> 'm \<Rightarrow> 'm option" where
  "put_all [] m = Some m"
| "put_all (kv # kvs) m = Option.bind (put (fst kv) (snd kv) m) (put_all kvs)"

lemma put_all_lookup:
  "invar m \<Longrightarrow> \<forall>kv \<in> set kvs. fst kv \<noteq> 0 \<Longrightarrow> card (dom (lookup m) \<union> fst ` set kvs) < limit \<Longrightarrow>
   \<exists>m'. put_all kvs m = Some m' \<and> invar m' \<and> lookup m' = lookup m ++ map_of (rev kvs)"
proof (induction kvs arbitrary: m)
  case Nil
  then show ?case by simp
next
  case (Cons kv kvs)
  have "card (dom (lookup m)) \<le> card (dom (lookup m) \<union> fst ` set (kv # kvs))"
    using finite_lookup [OF Cons.prems(1)] by (intro card_mono) auto
  with Cons.prems obtain m1 where m1: "put (fst kv) (snd kv) m = Some m1" "invar m1"
      "lookup m1 = (lookup m)(fst kv \<mapsto> snd kv)"
    using put_lookup [of m "fst kv" "snd kv"] by auto
  have "dom (lookup m1) \<union> fst ` set kvs = dom (lookup m) \<union> fst ` set (kv # kvs)"
    unfolding m1(3) by auto
  with Cons.prems(3) have "card (dom (lookup m1) \<union> fst ` set kvs) < limit" by simp
  from Cons.IH [OF m1(2) _ this] Cons.prems(2) obtain m' where
      "put_all kvs m1 = Some m'" "invar m'" "lookup m' = lookup m1 ++ map_of (rev kvs)"
    by auto
  with m1 show ?case
    by (cases kv) (auto simp: map_add_def fun_eq_iff split: option.splits)
qed

end

subsection \<open>What an insertion does to the slots\<close>

lemma chain_mono: "chain tab n h d \<Longrightarrow> k \<noteq> 0 \<Longrightarrow> 0 < n \<Longrightarrow> length tab = n \<Longrightarrow> chain (tab[i := (k, v)]) n h d"
  by (simp add: chain_def nth_update_if)

lemma slots_ok_overwrite:
  assumes ok: "slots_ok n sh tab" and i: "i < n" "fst (tab ! i) = k" and k: "k \<noteq> 0"
  shows "slots_ok n sh (tab[i := (k, v)])"
proof -
  have len: "length tab = n" and n0: "0 < n"
    using ok i by (auto simp: slots_ok_def)
  have fst_eq: "fst (tab[i := (k, v)] ! j) = fst (tab ! j)" if "j < n" for j
    using i that len by (cases "j = i") auto
  have ch: "chain (tab[i := (k, v)]) n h d" if "chain tab n h d" for h d
    using that k n0 len by (rule chain_mono)
  show ?thesis
    unfolding slots_ok_def
  proof (intro conjI allI impI)
    show "length (tab[i := (k, v)]) = n" using len by simp
  next
    fix a b assume ab: "a < n" "b < n"
      "fst (tab[i := (k, v)] ! a) \<noteq> 0 \<and> fst (tab[i := (k, v)] ! a) = fst (tab[i := (k, v)] ! b)"
    then have "fst (tab ! a) \<noteq> 0" "fst (tab ! b) = fst (tab ! a)"
      by (metis fst_eq)+
    with ab(1,2) show "a = b" by (rule slots_uniqueD [OF ok])
  next
    fix a assume "a < n" "fst (tab[i := (k, v)] ! a) \<noteq> 0"
    with slots_chainD [OF ok, of a] show "chain (tab[i := (k, v)]) n (home sh (fst (tab[i := (k, v)] ! a)))
        (probe_dist n (home sh (fst (tab[i := (k, v)] ! a))) a)"
      by (simp add: fst_eq ch)
  qed
qed

lemma slots_ok_insert:
  assumes ok: "slots_ok n sh tab" and k: "k \<noteq> 0" and absent: "\<forall>i<n. fst (tab ! i) \<noteq> k"
    and j: "j < n" "chain tab n (home sh k) j"
    and i: "i = (home sh k + j) mod n"
  shows "slots_ok n sh (tab[i := (k, v)])"
proof -
  have len: "length tab = n" and n0: "0 < n"
    using ok j by (auto simp: slots_ok_def)
  have i_less: "i < n" using i n0 by simp
  have dist: "probe_dist n (home sh k) i = j"
    using probe_inj [of "probe_dist n (home sh k) i" n j "home sh k"]
      probe_dist_reaches [OF i_less, of "home sh k"] i j n0 by simp
  have ch: "chain (tab[i := (k, v)]) n h d" if "chain tab n h d" for h d
    using that k n0 len by (rule chain_mono)
  let ?t = "tab[i := (k, v)]"
  have at: "?t ! a = (if a = i then (k, v) else tab ! a)" for a
    using i_less len by (simp add: nth_list_update)
  show ?thesis
    unfolding slots_ok_def
  proof (intro conjI allI impI)
    show "length ?t = n" using len by simp
  next
    fix a b assume ab: "a < n" "b < n" "fst (?t ! a) \<noteq> 0 \<and> fst (?t ! a) = fst (?t ! b)"
    show "a = b"
    proof (cases "a = i \<or> b = i")
      case True
      then show ?thesis
      proof
        assume a: "a = i"
        show "a = b"
        proof (rule ccontr)
          assume "a \<noteq> b"
          with ab a have "fst (tab ! b) = k" by (simp add: at)
          with absent ab show False by blast
        qed
      next
        assume b: "b = i"
        show "a = b"
        proof (rule ccontr)
          assume "a \<noteq> b"
          with ab b have "fst (tab ! a) = k" by (simp add: at)
          with absent ab show False by blast
        qed
      qed
    next
      case False
      with ab have "fst (tab ! a) \<noteq> 0" "fst (tab ! b) = fst (tab ! a)"
        by (metis at)+
      with ab(1,2) show ?thesis by (rule slots_uniqueD [OF ok])
    qed
  next
    fix a assume a: "a < n" "fst (?t ! a) \<noteq> 0"
    show "chain ?t n (home sh (fst (?t ! a))) (probe_dist n (home sh (fst (?t ! a))) a)"
    proof (cases "a = i")
      case True
      with j dist show ?thesis by (simp add: at ch)
    next
      case False
      with a slots_chainD [OF ok, of a] show ?thesis by (simp add: at ch)
    qed
  qed
qed

lemma map_of_nth_unique:
  assumes "\<forall>i<length xs. \<forall>j<length xs. fst (xs ! i) = k \<and> fst (xs ! j) = k \<longrightarrow> i = j"
    and "i < length xs" "xs ! i = (k, v)"
  shows "map_of xs k = Some v"
  using assms
proof (induction xs arbitrary: i)
  case Nil
  then show ?case by simp
next
  case (Cons x xs)
  show ?case
  proof (cases "fst x = k")
    case True
    with Cons.prems have "i = 0"
      by (metis fst_conv length_greater_0_conv list.discI nth_Cons_0)
    with Cons.prems show ?thesis by (cases x) simp
  next
    case False
    with Cons.prems obtain i' where i': "i = Suc i'" "i' < length xs" "xs ! i' = (k, v)"
      by (cases i) auto
    have "\<forall>i<length xs. \<forall>j<length xs. fst (xs ! i) = k \<and> fst (xs ! j) = k \<longrightarrow> i = j"
      using Cons.prems(1) by (metis Suc_less_eq length_Cons nat.inject nth_Cons_Suc)
    from Cons.IH [OF this i'(2,3)] False show ?thesis by (cases x) simp
  qed
qed

lemma slots_map_of:
  assumes "slots_ok n sh tab" "i < n" "tab ! i = (k, v)" "k \<noteq> 0"
  shows "map_of tab k = Some v"
proof (rule map_of_nth_unique)
  show "\<forall>i<length tab. \<forall>j<length tab. fst (tab ! i) = k \<and> fst (tab ! j) = k \<longrightarrow> i = j"
    using assms slots_uniqueD [OF assms(1)] by (auto simp: slots_ok_def)
  show "i < length tab" "tab ! i = (k, v)"
    using assms by (auto simp: slots_ok_def)
qed

lemma map_of_None_nth: "map_of tab k = None \<longleftrightarrow> (\<forall>i < length tab. fst (tab ! i) \<noteq> k)"
  unfolding map_of_eq_None_iff image_iff by (metis in_set_conv_nth)

lemma slots_map_of_update:
  assumes ok: "slots_ok n sh tab" and ok': "slots_ok n sh (tab[i := (k, v)])" and i: "i < n" and k: "k \<noteq> 0"
    and old: "fst (tab ! i) = 0 \<or> fst (tab ! i) = k" and x: "x \<noteq> 0"
  shows "map_of (tab[i := (k, v)]) x = ((map_of tab)(k \<mapsto> v)) x"
proof (cases "x = k")
  case True
  have "map_of (tab[i := (k, v)]) k = Some v"
    using ok ok' i k by (intro slots_map_of [OF ok' i]) (auto simp: slots_ok_def)
  with True show ?thesis by simp
next
  case False
  have len: "length tab = n" using ok by (simp add: slots_ok_def)
  show ?thesis
  proof (cases "map_of tab x")
    case None
    with False have "map_of (tab[i := (k, v)]) x = None"
      unfolding map_of_None_nth by (simp add: nth_update_if)
    with None False show ?thesis by simp
  next
    case (Some w)
    then have "(x, w) \<in> set tab" by (rule map_of_SomeD)
    then obtain a where a: "a < n" "tab ! a = (x, w)"
      using len by (auto simp: in_set_conv_nth)
    with old x False have "a \<noteq> i" by auto
    with a have "tab[i := (k, v)] ! a = (x, w)" by simp
    with slots_map_of [OF ok' a(1) _ x] have "map_of (tab[i := (k, v)]) x = Some w" by blast
    with Some False show ?thesis by simp
  qed
qed

subsection \<open>Resizing\<close>

text \<open>
  \<open>ht_move\<close> re-inserts every slot of the old table, the empty ones included: those rewrite an
  empty slot. The moved keys have to be new to the target and pairwise different.
\<close>

definition keys_of :: "'v slots \<Rightarrow> u64 list" where
  "keys_of tab = filter (\<lambda>k. k \<noteq> 0) (map fst tab)"

lemma occupied_keys: "occupied tab = length (keys_of tab)"
  by (simp add: occupied_def keys_of_def filter_map o_def)

lemma slots_distinct_keys: "slots_ok n sh tab \<Longrightarrow> distinct (keys_of tab)"
proof -
  have *: "(\<forall>i<length tab. \<forall>j<length tab. fst (tab ! i) \<noteq> 0 \<and> fst (tab ! i) = fst (tab ! j) \<longrightarrow> i = j)
      \<Longrightarrow> distinct (keys_of tab)" for tab :: "'a slots"
  proof (induction tab)
    case Nil
    then show ?case by (simp add: keys_of_def)
  next
    case (Cons s tab)
    have "\<forall>i<length tab. \<forall>j<length tab. fst (tab ! i) \<noteq> 0 \<and> fst (tab ! i) = fst (tab ! j) \<longrightarrow> i = j"
      using Cons.prems by (metis Suc_less_eq length_Cons nat.inject nth_Cons_Suc)
    with Cons.IH have d: "distinct (keys_of tab)" by blast
    have "fst s \<notin> set (keys_of tab)"
    proof
      assume "fst s \<in> set (keys_of tab)"
      then obtain j where j: "j < length tab" "fst (tab ! j) = fst s" "fst s \<noteq> 0"
        by (auto simp: keys_of_def in_set_conv_nth)
      with Cons.prems [rule_format, of 0 "Suc j"] show False by simp
    qed
    with d show ?case by (auto simp: keys_of_def)
  qed
  show "slots_ok n sh tab \<Longrightarrow> distinct (keys_of tab)"
    unfolding slots_ok_def using * by blast
qed

lemma slots_ok_clear:
  assumes ok: "slots_ok n sh tab" and i: "i < n" "fst (tab ! i) = 0"
  shows "slots_ok n sh (tab[i := (0, v)])"
proof -
  have len: "length tab = n" using ok by (simp add: slots_ok_def)
  have f: "fst (tab[i := (0, v)] ! a) = fst (tab ! a)" for a
    using i by (cases "a = i") (simp_all add: nth_update_if)
  show ?thesis
    using ok unfolding slots_ok_def chain_def f length_list_update .
qed

lemma map_of_clear:
  assumes ok: "slots_ok n sh tab" and i: "i < n" "fst (tab ! i) = 0" and x: "x \<noteq> 0"
  shows "map_of (tab[i := (0, v)]) x = map_of tab x"
proof (cases "map_of tab x")
  case None
  with x i have "map_of (tab[i := (0, v)]) x = None"
    unfolding map_of_None_nth by (auto simp: nth_update_if)
  with None show ?thesis by simp
next
  case (Some w)
  have len: "length tab = n" using ok by (simp add: slots_ok_def)
  from Some have "(x, w) \<in> set tab" by (rule map_of_SomeD)
  then obtain a where a: "a < n" "tab ! a = (x, w)"
    using len by (auto simp: in_set_conv_nth)
  with i x have "tab[i := (0, v)] ! a = (x, w)" by (auto simp: nth_update_if)
  from slots_map_of [OF slots_ok_clear [OF ok i] a(1) this x] Some show ?thesis by simp
qed

lemma ht_move_spec:
  assumes n: "is_capacity n"
  shows "slots_ok n sh tab \<Longrightarrow> distinct (keys_of bins) \<Longrightarrow>
    set (keys_of bins) \<inter> set (keys_of tab) = {} \<Longrightarrow> occupied tab + occupied bins < n \<Longrightarrow>
    \<exists>tab'. ht_move sh (of_nat n - 1) bins tab = Some tab' \<and> slots_ok n sh tab' \<and>
      occupied tab' = occupied tab + occupied bins \<and>
      (\<forall>x. x \<noteq> 0 \<longrightarrow> map_of tab' x = (map_of tab ++ map_of bins) x)"
proof (induction bins arbitrary: tab)
  case Nil
  then show ?case by (simp add: occupied_def)
next
  case (Cons s bins)
  obtain k v where s: "s = (k, v)" by (cases s)
  have len: "length tab = n" using Cons.prems by (simp add: slots_ok_def)
  obtain e where e: "e < n" "fst (tab ! e) = 0"
    using occupied_less_free [of tab] Cons.prems(4) len by auto
  obtain j where j: "chain tab n (home sh k) j" "fst (tab ! ((home sh k + j) mod n)) = 0" "j < n"
    using first_free [OF e, of "home sh k"] by blast
  define i where "i = (home sh k + j) mod n"
  have i: "i < n" "fst (tab ! i) = 0" using j e unfolding i_def by auto
  have found: "ht_find_free tab (of_nat n - 1) (ht_index sh k) = Some i"
    unfolding i_def ht_index_home using j by (intro ht_find_free_spec [OF n len]) (auto simp: chain_def)
  let ?tab = "tab[i := (k, v)]"
  have absent: "\<forall>a<n. fst (tab ! a) \<noteq> k" if "k \<noteq> 0"
  proof (intro allI impI notI)
    fix a assume "a < n" "fst (tab ! a) = k"
    then have "k \<in> fst ` set tab"
      using len by (metis image_eqI nth_mem)
    with that have "k \<in> set (keys_of tab)"
      by (simp add: keys_of_def)
    with Cons.prems(3) that s show False by (auto simp: keys_of_def)
  qed
  have ok: "slots_ok n sh ?tab"
  proof (cases "k = 0")
    case True
    with slots_ok_clear [OF Cons.prems(1) i] show ?thesis by simp
  next
    case False
    show ?thesis
      by (rule slots_ok_insert [OF Cons.prems(1) False absent [OF False] j(3,1)]) (rule i_def)
  qed
  have occ: "occupied ?tab = occupied tab + (if k \<noteq> 0 then 1 else 0)"
    using occupied_update [of i tab k v] i len by simp
  have map: "map_of ?tab x = (if x = k then Some v else map_of tab x)" if "x \<noteq> 0" for x
  proof (cases "k = 0")
    case True
    with that map_of_clear [OF Cons.prems(1) i that] show ?thesis by simp
  next
    case False
    from slots_map_of_update [OF Cons.prems(1) ok i(1) False _ that] i show ?thesis by simp
  qed
  have keys: "set (keys_of ?tab) \<subseteq> insert k (set (keys_of tab))"
    unfolding keys_of_def using set_update_subset_insert [of tab i "(k, v)"] by auto
  have occ_s: "occupied (s # bins) = (if k \<noteq> 0 then 1 else 0) + occupied bins"
    by (simp add: occupied_def s)
  have "distinct (keys_of bins)" "k \<noteq> 0 \<Longrightarrow> k \<notin> set (keys_of bins)" "0 \<notin> set (keys_of bins)"
    using Cons.prems(2) by (auto simp: keys_of_def s split: if_splits)
  moreover from this have "set (keys_of bins) \<inter> set (keys_of ?tab) = {}"
  proof -
    have "set (keys_of bins) \<subseteq> set (keys_of (s # bins))" by (auto simp: keys_of_def)
    moreover have "k \<notin> set (keys_of bins)"
      using \<open>k \<noteq> 0 \<Longrightarrow> k \<notin> set (keys_of bins)\<close> \<open>0 \<notin> set (keys_of bins)\<close> by metis
    ultimately show ?thesis using keys Cons.prems(3) by blast
  qed
  moreover have "occupied ?tab + occupied bins < n"
    using Cons.prems(4) occ occ_s by simp
  ultimately obtain tab' where tab': "ht_move sh (of_nat n - 1) bins ?tab = Some tab'" "slots_ok n sh tab'"
      "occupied tab' = occupied ?tab + occupied bins"
      "\<forall>x. x \<noteq> 0 \<longrightarrow> map_of tab' x = (map_of ?tab ++ map_of bins) x"
    using Cons.IH [OF ok] by blast
  have mp: "map_of tab' x = (map_of tab ++ map_of (s # bins)) x" if x: "x \<noteq> 0" for x
  proof (cases "x = k")
    case True
    with x \<open>k \<noteq> 0 \<Longrightarrow> k \<notin> set (keys_of bins)\<close> have "map_of bins k = None"
      by (auto simp: keys_of_def map_of_eq_None_iff)
    with True x tab' map show ?thesis by (simp add: map_add_def s)
  next
    case False
    with x tab' map show ?thesis by (simp add: map_add_def s split: option.split)
  qed
  have "ht_move sh (of_nat n - 1) (s # bins) tab = Some tab'"
    using tab'(1) found by (simp add: s)
  moreover have "occupied tab' = occupied tab + occupied (s # bins)"
    using tab'(3) occ occ_s by simp
  ultimately show ?case using tab'(2) mp by blast
qed

lemma slots_ok_empty: "slots_ok n sh (replicate n (0, 0))"
  by (simp add: slots_ok_def)

lemma occupied_empty [simp]: "occupied (replicate n (0, v)) = 0"
  by (simp add: occupied_def)

lemma keys_of_empty [simp]: "keys_of (replicate n (0, v)) = []"
  by (simp add: keys_of_def)

lemma map_of_empty_slots: "x \<noteq> 0 \<Longrightarrow> map_of (replicate n (0, v)) x = None"
  by (auto simp: map_of_eq_None_iff)

lemma capacity_double:
  "is_capacity n \<Longrightarrow> n \<noteq> 2 ^ 31 \<Longrightarrow> is_capacity (2 * n)"
  unfolding is_capacity_def by (metis le_neq_implies_less less_eq_Suc_le power_Suc)

lemma shifted_capacity: "push_bit 1 (of_nat n :: u32) = of_nat (2 * n)"
  by (simp add: push_bit_eq_mult)

lemma halved_capacity:
  assumes "is_capacity n"
  shows "(of_nat n :: u32) div 2 = of_nat (n div 2)"
proof -
  have "n < 2 ^ 32" using capacity_less(1) [OF assms] by simp
  then have "unat (of_nat n :: u32) = n" "unat (of_nat (n div 2) :: u32) = n div 2"
    by (simp_all add: unat_of_nat take_bit_nat_eq_self)
  then show ?thesis by (simp add: word_unat_eq_iff unat_div_distrib)
qed

lemma unat_capacity: "is_capacity n \<Longrightarrow> unat (of_nat n :: u32) = n"
  using capacity_less(1) [of n] by (simp add: unat_of_nat take_bit_nat_eq_self)

lemma ht_resize_spec:
  assumes inv: "ht_inv t" and room: "length (ht_table t) \<noteq> 2 ^ 31"
  obtains t' where "ht_resize (push_bit 1 (ht_capacity t)) t = Some t'" "ht_inv t'" "ht_lookup t' = ht_lookup t"
    "occupied (ht_table t') \<le> length (ht_table t') div 2"
proof -
  let ?c = "length (ht_table t)"
  let ?n = "2 * ?c"
  have c: "is_capacity ?c" "4 \<le> ?c" "ht_capacity t = of_nat ?c"
    and ok: "slots_ok ?c (ht_shift t) (ht_table t)"
    and size: "ht_size t = of_nat (occupied (ht_table t))"
    using inv by (simp_all add: ht_inv_def)
  have n: "is_capacity ?n" using c(1) room by (rule capacity_double)
  have cap: "push_bit 1 (ht_capacity t) = of_nat ?n"
    unfolding c(3) by (rule shifted_capacity)
  have occ: "occupied (ht_table t) \<le> ?c"
    by (simp add: occupied_def)
  obtain tab' where tab': "ht_move (ht_shift t) (of_nat ?n - 1) (ht_table t) (replicate ?n (0, 0)) = Some tab'"
      "slots_ok ?n (ht_shift t) tab'" "occupied tab' = occupied (ht_table t)"
      "\<forall>x. x \<noteq> 0 \<longrightarrow> map_of tab' x = (map_of (replicate ?n (0, 0)) ++ map_of (ht_table t)) x"
    using ht_move_spec [OF n slots_ok_empty slots_distinct_keys [OF ok], of "ht_shift t"] occ c(2) by auto
  have len: "length tab' = ?n" using tab'(2) by (simp add: slots_ok_def)
  let ?t = "t\<lparr>ht_table := tab', ht_capacity := of_nat ?n, ht_capacitymask := of_nat ?n - 1,
              ht_threshold := of_nat ?n div 2\<rparr>"
  have "ht_lookup ?t = ht_lookup t"
    using tab'(4) by (auto simp: ht_lookup_def fun_eq_iff map_add_def map_of_empty_slots split: option.splits)
  moreover have "ht_inv ?t"
    unfolding ht_inv_def using c(2) tab'(2,3) size occ n halved_capacity [OF n]
    by (simp add: len del: of_nat_mult)
  moreover have "ht_resize (of_nat ?n) t = Some ?t"
    using tab'(1) unfolding ht_resize_def unat_capacity [OF n] by simp
  moreover have "occupied (ht_table ?t) \<le> length (ht_table ?t) div 2"
    using occ tab'(3) len by simp
  ultimately show thesis unfolding cap [symmetric] by - (rule that)
qed

text \<open>
  At \<open>2 ^ 31\<close> slots the shift of the capacity wraps to 0: the new table has no slot at all and
  moving the first bin leaves it.
\<close>

lemma ht_put_full_fails:
  assumes inv: "ht_inv t" and full: "length (ht_table t) = 2 ^ 31"
    and size: "ht_size t > ht_threshold t"
  shows "ht_put k v t = None"
proof -
  have "ht_capacity t = of_nat (2 ^ 31)"
    using inv full by (simp add: ht_inv_def)
  then have cap: "push_bit 1 (ht_capacity t) = 0"
    unfolding shifted_capacity by simp
  obtain s bins where "ht_table t = s # bins"
    using full by (cases "ht_table t") auto
  moreover have "ht_find_free ([] :: 'a slots) msk i = None" for msk i
    by (subst ht_find_free.simps) (simp add: Let_def)
  ultimately have "ht_resize 0 t = None"
    by (cases s) (simp add: ht_resize_def)
  with size show ?thesis unfolding ht_put_def cap by (simp add: Option.bind_eq_None_conv)
qed

subsection \<open>The table implements the interface\<close>

lemma ht_inv_free:
  assumes "ht_inv t"
  obtains e where "e < length (ht_table t)" "fst (ht_table t ! e) = 0"
proof -
  have "4 \<le> length (ht_table t)" "occupied (ht_table t) \<le> length (ht_table t) div 2 + 1"
    using assms by (simp_all add: ht_inv_def)
  then have "occupied (ht_table t) < length (ht_table t)" by linarith
  from occupied_less_free [OF this] that show thesis by metis
qed

lemma ht_size_less:
  assumes "ht_inv t"
  shows "ht_threshold t < ht_size t \<longleftrightarrow> length (ht_table t) div 2 < occupied (ht_table t)"
proof -
  let ?c = "length (ht_table t)"
  have inv: "is_capacity ?c" "ht_threshold t = of_nat (?c div 2)" "ht_size t = of_nat (occupied (ht_table t))"
    "occupied (ht_table t) \<le> ?c div 2 + 1"
    using assms by (simp_all add: ht_inv_def)
  have "?c div 2 < 2 ^ 32" "occupied (ht_table t) < 2 ^ 32"
    using capacity_less(1) [OF inv(1)] inv(4) by simp_all
  then show ?thesis
    unfolding inv(2,3) by (simp add: word_less_nat_alt unat_of_nat take_bit_nat_eq_self)
qed

lemma ht_search_lookup:
  assumes inv: "ht_inv t" and k: "k \<noteq> 0"
  shows "(\<exists>i v. ht_search (ht_table t) (ht_capacitymask t) k (ht_index (ht_shift t) k) = Some (True, i)
            \<and> i < length (ht_table t) \<and> ht_table t ! i = (k, v) \<and> ht_lookup t k = Some v) \<or>
         (\<exists>i j. ht_search (ht_table t) (ht_capacitymask t) k (ht_index (ht_shift t) k) = Some (False, i)
            \<and> i = (home (ht_shift t) k + j) mod length (ht_table t) \<and> j < length (ht_table t)
            \<and> chain (ht_table t) (length (ht_table t)) (home (ht_shift t) k) j
            \<and> fst (ht_table t ! i) = 0 \<and> ht_lookup t k = None)"
proof -
  let ?c = "length (ht_table t)"
  obtain e where e: "e < ?c" "fst (ht_table t ! e) = 0"
    using ht_inv_free [OF inv] by blast
  have c: "is_capacity ?c" and ok: "slots_ok ?c (ht_shift t) (ht_table t)"
    and mk: "ht_capacitymask t = of_nat ?c - 1"
    using inv by (simp_all add: ht_inv_def)
  show ?thesis
  proof (cases "\<forall>i<?c. fst (ht_table t ! i) \<noteq> k")
    case True
    then have "ht_lookup t k = None"
      by (simp add: ht_lookup_def map_of_None_nth)
    with search_absent [OF c refl e True k, of "ht_shift t"] show ?thesis
      unfolding mk by metis
  next
    case False
    then obtain i where i: "i < ?c" "fst (ht_table t ! i) = k" by blast
    then have kv: "ht_table t ! i = (k, snd (ht_table t ! i))" by (metis prod.collapse)
    with slots_map_of [OF ok i(1) kv k] search_stored [OF c ok i k] i k show ?thesis
      unfolding mk ht_lookup_def by auto
  qed
qed

lemma ht_get_lookup:
  "ht_inv t \<Longrightarrow> k \<noteq> 0 \<Longrightarrow> ht_get t k = Some (case ht_lookup t k of None \<Rightarrow> 0 | Some v \<Rightarrow> v)"
  by (drule (1) ht_search_lookup) (auto simp: ht_get_def)

lemma ht_contains_lookup: "ht_inv t \<Longrightarrow> k \<noteq> 0 \<Longrightarrow> ht_contains t k = Some (ht_lookup t k \<noteq> None)"
  by (drule (1) ht_search_lookup) (auto simp: ht_contains_def)

lemma ht_put_no_resize:
  assumes inv: "ht_inv t" and k: "k \<noteq> 0" and size: "occupied (ht_table t) \<le> length (ht_table t) div 2"
  shows "\<exists>t'. ht_put k v t = Some t' \<and> ht_inv t' \<and> ht_lookup t' = (ht_lookup t)(k \<mapsto> v)"
proof -
  let ?c = "length (ht_table t)"
  have ok: "slots_ok ?c (ht_shift t) (ht_table t)"
    using inv by (simp add: ht_inv_def)
  have no: "\<not> ht_threshold t < ht_size t" using size ht_size_less [OF inv] by simp
  from ht_search_lookup [OF inv k] show ?thesis
  proof
    assume "\<exists>i v. ht_search (ht_table t) (ht_capacitymask t) k (ht_index (ht_shift t) k) = Some (True, i)
            \<and> i < ?c \<and> ht_table t ! i = (k, v) \<and> ht_lookup t k = Some v"
    then obtain i w where i: "i < ?c" "ht_table t ! i = (k, w)"
      and s: "ht_search (ht_table t) (ht_capacitymask t) k (ht_index (ht_shift t) k) = Some (True, i)"
      by blast
    let ?t = "t\<lparr>ht_table := (ht_table t)[i := (k, v)]\<rparr>"
    have ok': "slots_ok ?c (ht_shift t) ((ht_table t)[i := (k, v)])"
      using i k by (intro slots_ok_overwrite [OF ok]) auto
    have "ht_lookup ?t = (ht_lookup t)(k \<mapsto> v)"
      using slots_map_of_update [OF ok ok' i(1) k] i k by (auto simp: ht_lookup_def fun_eq_iff)
    moreover have "ht_inv ?t"
      using inv ok' occupied_update [of i "ht_table t" k v] i k by (simp add: ht_inv_def)
    ultimately show ?thesis using s k no by (simp add: ht_put_def)
  next
    assume "\<exists>i j. ht_search (ht_table t) (ht_capacitymask t) k (ht_index (ht_shift t) k) = Some (False, i)
            \<and> i = (home (ht_shift t) k + j) mod ?c \<and> j < ?c
            \<and> chain (ht_table t) ?c (home (ht_shift t) k) j
            \<and> fst (ht_table t ! i) = 0 \<and> ht_lookup t k = None"
    then obtain i j where s: "ht_search (ht_table t) (ht_capacitymask t) k (ht_index (ht_shift t) k) = Some (False, i)"
      and i: "i = (home (ht_shift t) k + j) mod ?c" "fst (ht_table t ! i) = 0"
      and j: "j < ?c" "chain (ht_table t) ?c (home (ht_shift t) k) j"
      and none: "ht_lookup t k = None" by blast
    let ?t = "t\<lparr>ht_table := (ht_table t)[i := (k, v)], ht_size := ht_size t + 1\<rparr>"
    have i_less: "i < ?c" unfolding i(1) using j(1) by (intro mod_less_divisor) linarith
    have "\<forall>a<?c. fst (ht_table t ! a) \<noteq> k"
      using none k by (simp add: ht_lookup_def map_of_None_nth)
    from slots_ok_insert [OF ok k this j i(1)]
    have ok': "slots_ok ?c (ht_shift t) ((ht_table t)[i := (k, v)])" .
    have "ht_lookup ?t = (ht_lookup t)(k \<mapsto> v)"
      using slots_map_of_update [OF ok ok' i_less k] i k by (auto simp: ht_lookup_def fun_eq_iff)
    moreover have "ht_inv ?t"
    proof -
      have occ: "occupied ((ht_table t)[i := (k, v)]) = occupied (ht_table t) + 1"
        using occupied_update [OF i_less, of k v] i(2) k by simp
      show ?thesis
        using inv ok' size unfolding ht_inv_def by (simp add: occ)
    qed
    ultimately show ?thesis using s k no by (simp add: ht_put_def)
  qed
qed

lemma ht_lookup_dom:
  "dom (ht_lookup t) = set (keys_of (ht_table t))"
proof -
  have "k \<in> dom (ht_lookup t) \<longleftrightarrow> k \<noteq> 0 \<and> k \<in> dom (map_of (ht_table t))" for k
    by (simp add: ht_lookup_def dom_def)
  then show ?thesis by (auto simp: dom_map_of_conv_image_fst keys_of_def)
qed

lemma ht_lookup_card: "ht_inv t \<Longrightarrow> card (dom (ht_lookup t)) = occupied (ht_table t)"
  unfolding ht_lookup_dom occupied_keys ht_inv_def
  by (blast intro: distinct_card slots_distinct_keys)

text \<open>
  A table of \<open>2 ^ 31\<close> slots cannot grow; it takes insertions as long as it holds at most
  \<open>2 ^ 30\<close> keys. No smaller table has a limit.
\<close>

definition ht_limit :: nat where
  "ht_limit = 2 ^ 30 + 1"

lemma ht_put_lookup:
  assumes inv: "ht_inv t" and k: "k \<noteq> 0" and room: "card (dom (ht_lookup t)) < ht_limit"
  shows "\<exists>t'. ht_put k v t = Some t' \<and> ht_inv t' \<and> ht_lookup t' = (ht_lookup t)(k \<mapsto> v)"
proof (cases "length (ht_table t) div 2 < occupied (ht_table t)")
  case True
  then have "length (ht_table t) \<noteq> 2 ^ 31"
    using room unfolding ht_lookup_card [OF inv] ht_limit_def by auto
  from ht_resize_spec [OF inv this] obtain t1 where
      t1: "ht_resize (push_bit 1 (ht_capacity t)) t = Some t1" "ht_inv t1" "ht_lookup t1 = ht_lookup t"
      "occupied (ht_table t1) \<le> length (ht_table t1) div 2"
    by blast
  have "ht_put k v t = ht_put k v t1"
    using t1 True ht_size_less [OF inv] ht_size_less [OF t1(2)] by (simp add: ht_put_def)
  with ht_put_no_resize [OF t1(2) k t1(4), of v] t1(3) show ?thesis by simp
next
  case False
  with ht_put_no_resize [OF inv k] show ?thesis by simp
qed

lemma ht_reset_lookup: "ht_inv t \<Longrightarrow> ht_inv (ht_reset t) \<and> ht_lookup (ht_reset t) = Map.empty"
  by (auto simp: ht_inv_def ht_reset_def ht_lookup_def slots_ok_empty map_of_empty_slots fun_eq_iff unat_capacity)

lemma new_hash_table_inv:
  assumes "2 \<le> m" "m \<le> 31"
  shows "ht_inv (new_hash_table sh (2 ^ m) :: ('v::zero) hash_table) \<and>
     ht_lookup (new_hash_table sh (2 ^ m) :: 'v hash_table) = Map.empty"
proof -
  have c: "is_capacity (2 ^ m)" using assms by (auto simp: is_capacity_def)
  have cap: "(2 ^ m :: u32) = of_nat (2 ^ m)" by simp
  have "(2::nat) ^ 2 \<le> 2 ^ m" using assms by (intro power_increasing) auto
  then show ?thesis
    unfolding cap using c halved_capacity [OF c]
    by (auto simp del: of_nat_power simp: ht_inv_def new_hash_table_def ht_lookup_def slots_ok_empty
        map_of_empty_slots fun_eq_iff unat_capacity [OF c])
qed

interpretation ht: ptr_map ht_get ht_contains ht_put ht_reset ht_lookup ht_inv ht_limit
  by unfold_locales
    (auto simp: ht_get_lookup ht_contains_lookup ht_put_lookup ht_reset_lookup ht_lookup_dom)

subsection \<open>Properties\<close>

fun ht_put_all :: "(u64 \<times> 'v) list \<Rightarrow> ('v::zero) hash_table \<Rightarrow> 'v hash_table option" where
  "ht_put_all [] t = Some t"
| "ht_put_all ((k, v) # kvs) t = do { t \<leftarrow> ht_put k v t; ht_put_all kvs t }"

lemma ht_put_all_eq: "ht_put_all kvs t = ht.put_all kvs t"
  by (induction kvs t rule: ht_put_all.induct) (simp_all add: fun_eq_iff split: bind_splits)

text \<open>
  C27: the table implements a map: any sequence of insertions of non-null keys into a fresh
  table of a power-of-two capacity between 4 and \<open>2 ^ 31\<close>, with at most \<open>2 ^ 30\<close> different keys,
  returns (probing ends, the resizes included), and \<open>get\<close> and \<open>contains\<close> of every non-null key
  then return the value inserted last, or 0 and false. All fields have the 32 bits of the code;
  at the bound on the keys the next doubling of the capacity would wrap to 0.
\<close>

theorem hash_table_is_a_map:
  fixes kvs :: "(u64 \<times> 'v::zero) list"
  assumes "2 \<le> m" "m \<le> 31" "\<forall>kv \<in> set kvs. fst kv \<noteq> 0" "card (fst ` set kvs) \<le> 2 ^ 30"
  shows "\<exists>t. ht_put_all kvs (new_hash_table sh (2 ^ m)) = Some t \<and>
    (\<forall>k. k \<noteq> 0 \<longrightarrow>
       ht_get t k = Some (case map_of (rev kvs) k of None \<Rightarrow> 0 | Some v \<Rightarrow> v) \<and>
       ht_contains t k = Some (map_of (rev kvs) k \<noteq> None))"
proof -
  let ?t0 = "new_hash_table sh (2 ^ m) :: 'v hash_table"
  have inv: "ht_inv ?t0" and empty: "ht_lookup ?t0 = Map.empty"
    using new_hash_table_inv [where 'v = 'v, OF assms(1,2), of sh] by simp_all
  have "card (dom (ht_lookup ?t0) \<union> fst ` set kvs) < ht_limit"
    using assms(4) by (simp add: empty ht_limit_def)
  from ht.put_all_lookup [OF inv assms(3) this] obtain t where
      "ht_put_all kvs ?t0 = Some t" "ht_inv t" "ht_lookup t = map_of (rev kvs)"
    unfolding empty empty_map_add ht_put_all_eq by blast
  then show ?thesis by (auto simp: ht.get_lookup ht.contains_lookup)
qed

theorem hash_table_is_a_map_witness:
  "\<exists>t. ht_put_all [(0x10, 7), (0x20, 8), (0x10, 9)] (new_hash_table 4 (2 ^ 3)) = Some t \<and>
     ht_get t 0x10 = Some (9::nat) \<and> ht_contains t 0x30 = Some False"
proof -
  let ?kvs = "[(0x10, 7), (0x20, 8), (0x10, 9)] :: (u64 \<times> nat) list"
  have "card (fst ` set ?kvs) \<le> 2 ^ 30" by (simp add: card_insert_if)
  moreover have "\<forall>kv \<in> set ?kvs. fst kv \<noteq> 0" by simp
  ultimately obtain t where t: "ht_put_all ?kvs (new_hash_table 4 (2 ^ 3)) = Some t"
      "\<And>k. k \<noteq> 0 \<Longrightarrow>
         ht_get t k = Some (case map_of (rev ?kvs) k of None \<Rightarrow> 0 | Some v \<Rightarrow> v) \<and>
         ht_contains t k = Some (map_of (rev ?kvs) k \<noteq> None)"
    using hash_table_is_a_map [of 3 ?kvs 4] by auto
  from t(2) [of "0x10"] t(2) [of "0x30"] t(1) show ?thesis by simp
qed

text \<open>
  an insertion into a well-formed table below the limit returns a well-formed table that
  differs from the old one exactly at the key, also when it has to resize first.
\<close>

theorem ht_put_updates:
  assumes "ht_inv t" "k \<noteq> 0" "card (dom (ht_lookup t)) < ht_limit"
  shows "\<exists>t'. ht_put k v t = Some t' \<and> ht_inv t' \<and> ht_get t' k = Some v \<and>
    ht_contains t' k = Some True \<and> (\<forall>j. j \<noteq> 0 \<and> j \<noteq> k \<longrightarrow> ht_get t' j = ht_get t j)"
proof -
  obtain t' where t': "ht_put k v t = Some t'" "ht_inv t'"
    using ht.put_lookup [OF assms, of v] by blast
  with ht.get_put_same [OF assms t'(1)] ht.get_put_other(1) [OF assms t'(1)] show ?thesis by blast
qed

end
