(* ===== verification/Cycle_Graph.thy ===== *)
theory Cycle_Graph
  imports Promise_Model Hash_Table
begin

text \<open>
  The modification-order graph (\<open>cyclegraph.h\<close>, \<open>cyclegraph.cc\<close>). Nodes live in a store
  indexed by numbers; \<open>cg_next\<close> is the next node to be allocated. The two hash tables from
  actions and from promises to nodes are finite maps: \<open>Hash_Table\<close> shows that the table the
  code uses behaves like one. The tables refuse the null key by an assertion, which
  \<open>erasePromiseNode\<close> keeps. Loops over the graph are partial functions; that they return on a
  well-formed graph is a theorem.
\<close>

type_synonym node_ptr = nat

record cycle_node =
  cn_action :: "act_ptr option"
  cn_promise :: "promise_ptr option"
  cn_edges :: "node_ptr list"
  cn_back_edges :: "node_ptr list"
  cn_hasRMW :: "node_ptr option"

record cycle_graph =
  cg_nodes :: "node_ptr \<Rightarrow> cycle_node"
  cg_next :: node_ptr
  actionToNode :: "act_ptr \<rightharpoonup> node_ptr"
  promiseToNode :: "promise_ptr \<rightharpoonup> node_ptr"
  hasCycles :: bool
  oldCycles :: bool
  rollbackvector :: "node_ptr list"
  rmwrollbackvector :: "node_ptr list"

text \<open>An action or a promise: the argument types of the overloaded and templated methods.\<close>

datatype mo_obj = ActObj act_ptr | PromObj promise_ptr

subsection \<open>Nodes\<close>

definition new_action_node :: "act_ptr \<Rightarrow> cycle_node" where
  "new_action_node a = \<lparr>cn_action = Some a, cn_promise = None, cn_edges = [], cn_back_edges = [], cn_hasRMW = None\<rparr>"

definition new_promise_node :: "promise_ptr \<Rightarrow> cycle_node" where
  "new_promise_node p = \<lparr>cn_action = None, cn_promise = Some p, cn_edges = [], cn_back_edges = [], cn_hasRMW = None\<rparr>"

definition is_promise_node :: "cycle_node \<Rightarrow> bool" where
  "is_promise_node n \<longleftrightarrow> cn_action n = None"

definition edges :: "cycle_graph \<Rightarrow> node_ptr \<Rightarrow> node_ptr list" where
  "edges g n = cn_edges (cg_nodes g n)"

definition back_edges :: "cycle_graph \<Rightarrow> node_ptr \<Rightarrow> node_ptr list" where
  "back_edges g n = cn_back_edges (cg_nodes g n)"

definition getRMW :: "cycle_graph \<Rightarrow> node_ptr \<Rightarrow> node_ptr option" where
  "getRMW g n = cn_hasRMW (cg_nodes g n)"

definition upd_node :: "node_ptr \<Rightarrow> (cycle_node \<Rightarrow> cycle_node) \<Rightarrow> cycle_graph \<Rightarrow> cycle_graph" where
  "upd_node n f g = g\<lparr>cg_nodes := (cg_nodes g)(n := f (cg_nodes g n))\<rparr>"

definition node_addEdge :: "node_ptr \<Rightarrow> node_ptr \<Rightarrow> cycle_graph \<Rightarrow> bool \<times> cycle_graph" where
  "node_addEdge this node g =
     (if node \<in> set (edges g this) then (False, g)
      else (True, upd_node node (\<lambda>n. n\<lparr>cn_back_edges := cn_back_edges n @ [this]\<rparr>)
                    (upd_node this (\<lambda>n. n\<lparr>cn_edges := cn_edges n @ [node]\<rparr>) g)))"

definition node_removeEdge :: "node_ptr \<Rightarrow> cycle_graph \<Rightarrow> node_ptr option \<times> cycle_graph" where
  "node_removeEdge this g =
     (if edges g this = [] then (None, g)
      else let ret = last (edges g this)
           in (Some ret, upd_node ret (\<lambda>n. n\<lparr>cn_back_edges := remove1 this (cn_back_edges n)\<rparr>)
                           (upd_node this (\<lambda>n. n\<lparr>cn_edges := butlast (cn_edges n)\<rparr>) g)))"

definition node_removeBackEdge :: "node_ptr \<Rightarrow> cycle_graph \<Rightarrow> node_ptr option \<times> cycle_graph" where
  "node_removeBackEdge this g =
     (if back_edges g this = [] then (None, g)
      else let ret = last (back_edges g this)
           in (Some ret, upd_node ret (\<lambda>n. n\<lparr>cn_edges := remove1 this (cn_edges n)\<rparr>)
                           (upd_node this (\<lambda>n. n\<lparr>cn_back_edges := butlast (cn_back_edges n)\<rparr>) g)))"

definition node_setRMW :: "node_ptr \<Rightarrow> node_ptr \<Rightarrow> cycle_graph \<Rightarrow> bool \<times> cycle_graph" where
  "node_setRMW this node g =
     (if getRMW g this \<noteq> None then (True, g)
      else (False, upd_node this (\<lambda>n. n\<lparr>cn_hasRMW := Some node\<rparr>) g))"

definition node_clearRMW :: "node_ptr \<Rightarrow> cycle_graph \<Rightarrow> cycle_graph" where
  "node_clearRMW this g = upd_node this (\<lambda>n. n\<lparr>cn_hasRMW := None\<rparr>) g"

text \<open>\<open>compatible\<close> is \<open>promise->is_compatible(writer)\<close>.\<close>

definition node_resolvePromise ::
  "(promise_ptr \<Rightarrow> act_ptr \<Rightarrow> bool) \<Rightarrow> node_ptr \<Rightarrow> act_ptr \<Rightarrow> cycle_graph \<Rightarrow> cycle_graph option" where
  "node_resolvePromise compatible this writer g = do {
     ASSERT (is_promise_node (cg_nodes g this));
     ASSERT (case cn_promise (cg_nodes g this) of Some p \<Rightarrow> compatible p writer | None \<Rightarrow> False);
     Some (upd_node this (\<lambda>n. n\<lparr>cn_action := Some writer, cn_promise := None\<rparr>) g)
   }"

subsection \<open>Graph: nodes of actions and promises\<close>

definition empty_node :: cycle_node where
  "empty_node = \<lparr>cn_action = None, cn_promise = None, cn_edges = [], cn_back_edges = [], cn_hasRMW = None\<rparr>"

definition new_cycle_graph :: cycle_graph where
  "new_cycle_graph = \<lparr>cg_nodes = (\<lambda>_. empty_node), cg_next = 0, actionToNode = Map.empty,
     promiseToNode = Map.empty, hasCycles = False, oldCycles = False, rollbackvector = [],
     rmwrollbackvector = []\<rparr>"

fun putNode :: "mo_obj \<Rightarrow> node_ptr \<Rightarrow> cycle_graph \<Rightarrow> cycle_graph" where
  "putNode (ActObj a) n g = g\<lparr>actionToNode := (actionToNode g)(a \<mapsto> n)\<rparr>"
| "putNode (PromObj p) n g = g\<lparr>promiseToNode := (promiseToNode g)(p \<mapsto> n)\<rparr>"

definition erasePromiseNode :: "promise_ptr option \<Rightarrow> cycle_graph \<Rightarrow> cycle_graph option" where
  "erasePromiseNode promise g = (case promise of
     None \<Rightarrow> None
   | Some p \<Rightarrow> Some (g\<lparr>promiseToNode := (promiseToNode g)(p := None)\<rparr>))"

fun getNode_noCreate :: "cycle_graph \<Rightarrow> mo_obj \<Rightarrow> node_ptr option" where
  "getNode_noCreate g (ActObj a) = actionToNode g a"
| "getNode_noCreate g (PromObj p) = promiseToNode g p"

fun new_node :: "mo_obj \<Rightarrow> cycle_node" where
  "new_node (ActObj a) = new_action_node a"
| "new_node (PromObj p) = new_promise_node p"

definition getNode :: "mo_obj \<Rightarrow> cycle_graph \<Rightarrow> node_ptr \<times> cycle_graph" where
  "getNode x g = (case getNode_noCreate g x of
     Some n \<Rightarrow> (n, g)
   | None \<Rightarrow> (cg_next g, putNode x (cg_next g)
        (g\<lparr>cg_nodes := (cg_nodes g)(cg_next g := new_node x), cg_next := Suc (cg_next g)\<rparr>)))"

subsection \<open>Reachability\<close>

text \<open>
  The work list is a stack: its head is the back of \<open>queue\<close>. \<open>discover\<close> is the inner loop
  over the edges of a node.
\<close>

fun discover :: "node_ptr list \<Rightarrow> node_ptr set \<Rightarrow> node_ptr list \<Rightarrow> node_ptr set \<times> node_ptr list" where
  "discover [] disc queue = (disc, queue)"
| "discover (next # es) disc queue =
     (if next \<notin> disc then discover es (insert next disc) (next # queue)
      else discover es disc queue)"

partial_function (option) reach_loop ::
  "cycle_graph \<Rightarrow> node_ptr \<Rightarrow> node_ptr set \<Rightarrow> node_ptr list \<Rightarrow> bool option" where
  "reach_loop g to disc queue =
     (if queue = [] then Some False
      else let node = hd queue
           in if node = to then Some True
              else let r = discover (edges g node) disc (tl queue)
                   in reach_loop g to (fst r) (snd r))"

declare reach_loop.simps [code]

definition checkReachable_nodes :: "cycle_graph \<Rightarrow> node_ptr \<Rightarrow> node_ptr \<Rightarrow> bool option" where
  "checkReachable_nodes g from to = reach_loop g to {from} [from]"

definition checkReachable :: "cycle_graph \<Rightarrow> mo_obj \<Rightarrow> mo_obj \<Rightarrow> bool option" where
  "checkReachable g from to = (case (getNode_noCreate g from, getNode_noCreate g to) of
     (Some fromnode, Some tonode) \<Rightarrow> checkReachable_nodes g fromnode tonode
   | _ \<Rightarrow> Some False)"

partial_function (option) promise_loop ::
  "cycle_graph \<Rightarrow> (act_ptr \<Rightarrow> thread_id) \<Rightarrow> promise_ptr \<Rightarrow> node_ptr set \<Rightarrow> node_ptr list \<Rightarrow> promise
   \<Rightarrow> (bool \<times> promise) option" where
  "promise_loop g tid_of p disc queue pr =
     (if queue = [] then Some (False, pr)
      else let node = hd queue
           in if cn_promise (cg_nodes g node) = Some p then Some (True, pr)
              else let pr = (case cn_action (cg_nodes g node) of
                               Some a \<Rightarrow> snd (eliminate_thread (tid_of a) pr)
                             | None \<Rightarrow> pr);
                       r = discover (edges g node) disc (tl queue)
                   in promise_loop g tid_of p (fst r) (snd r) pr)"

declare promise_loop.simps [code]

text \<open>A \<open>fromact\<close> without a node is a null key for \<open>discovered->put\<close>, whose assertion fails.\<close>

definition checkPromise ::
  "cycle_graph \<Rightarrow> (act_ptr \<Rightarrow> thread_id) \<Rightarrow> act_ptr \<Rightarrow> promise_ptr \<Rightarrow> promise \<Rightarrow> (bool \<times> promise) option" where
  "checkPromise g tid_of fromact p pr = do {
     from \<leftarrow> actionToNode g fromact;
     promise_loop g tid_of p {from} [from] pr
   }"

subsection \<open>Adding edges\<close>

partial_function (option) rmw_chain :: "cycle_graph \<Rightarrow> node_ptr \<Rightarrow> node_ptr \<Rightarrow> node_ptr option" where
  "rmw_chain g tonode rmwnode =
     (if rmwnode \<noteq> tonode \<and> getRMW g rmwnode \<noteq> None
      then rmw_chain g tonode (the (getRMW g rmwnode))
      else Some rmwnode)"

declare rmw_chain.simps [code]

definition detect_cycle :: "node_ptr \<Rightarrow> node_ptr \<Rightarrow> cycle_graph \<Rightarrow> cycle_graph option" where
  "detect_cycle tonode fromnode g =
     (if \<not> hasCycles g
      then do { c \<leftarrow> checkReachable_nodes g tonode fromnode; Some (g\<lparr>hasCycles := c\<rparr>) }
      else Some g)"

definition push_rollback :: "node_ptr \<Rightarrow> cycle_graph \<Rightarrow> cycle_graph" where
  "push_rollback n g = g\<lparr>rollbackvector := rollbackvector g @ [n]\<rparr>"

definition addNodeEdge :: "node_ptr \<Rightarrow> node_ptr \<Rightarrow> cycle_graph \<Rightarrow> (bool \<times> cycle_graph) option" where
  "addNodeEdge fromnode tonode g =
     (let (added, g) = node_addEdge fromnode tonode g
      in if \<not> added then Some (False, g)
         else do {
           g \<leftarrow> detect_cycle tonode fromnode (push_rollback fromnode g);
           (case getRMW g fromnode of
              None \<Rightarrow> Some (True, g)
            | Some rmwnode \<Rightarrow> do {
                rmwnode \<leftarrow> rmw_chain g tonode rmwnode;
                if rmwnode \<noteq> tonode
                then let (added', g) = node_addEdge rmwnode tonode g
                     in if added'
                        then do { g \<leftarrow> detect_cycle tonode rmwnode g;
                                  Some (True, push_rollback rmwnode g) }
                        else Some (True, g)
                else Some (True, g) })
         })"

definition addEdge :: "mo_obj \<Rightarrow> mo_obj \<Rightarrow> cycle_graph \<Rightarrow> (bool \<times> cycle_graph) option" where
  "addEdge from to g =
     (let (fromnode, g) = getNode from g;
          (tonode, g) = getNode to g
      in addNodeEdge fromnode tonode g)"

text \<open>
  The loop of \<open>addRMWEdge\<close> re-reads \<open>getNumEdges\<close>; it runs over the edges of \<open>fromnode\<close>, which
  the body does not change when \<open>rmwnode\<close> is another node.
\<close>

fun transfer_edges :: "node_ptr \<Rightarrow> node_ptr list \<Rightarrow> cycle_graph \<Rightarrow> cycle_graph" where
  "transfer_edges rmwnode [] g = g"
| "transfer_edges rmwnode (tonode # es) g =
     (if tonode \<noteq> rmwnode
      then let (added, g) = node_addEdge rmwnode tonode g
           in transfer_edges rmwnode es (if added then push_rollback rmwnode g else g)
      else transfer_edges rmwnode es g)"

definition addRMWEdge :: "mo_obj \<Rightarrow> act_ptr \<Rightarrow> cycle_graph \<Rightarrow> cycle_graph option" where
  "addRMWEdge from rmw g =
     (let (fromnode, g) = getNode from g;
          (rmwnode, g) = getNode (ActObj rmw) g
      in do {
        ASSERT (getRMW g rmwnode = None);
        let (taken, g) = node_setRMW fromnode rmwnode g;
        let g = (if taken then g\<lparr>hasCycles := True\<rparr>
                 else g\<lparr>rmwrollbackvector := rmwrollbackvector g @ [fromnode]\<rparr>);
        let g = transfer_edges rmwnode (edges g fromnode) g;
        (_, g) \<leftarrow> addNodeEdge fromnode rmwnode g;
        Some g
      })"

subsection \<open>Promises that become writes\<close>

partial_function (option) merge_back :: "node_ptr \<Rightarrow> node_ptr \<Rightarrow> cycle_graph \<Rightarrow> (bool \<times> cycle_graph) option" where
  "merge_back w_node p_node g =
     (if back_edges g p_node = [] then Some (True, g)
      else let r = node_removeBackEdge p_node g; back = the (fst r); g = snd r
           in if back = w_node then merge_back w_node p_node g
              else do {
                r \<leftarrow> addNodeEdge back w_node g;
                if hasCycles (snd r) then Some (False, snd r) else merge_back w_node p_node (snd r)
              })"

declare merge_back.simps [code]

partial_function (option) merge_forward :: "node_ptr \<Rightarrow> node_ptr \<Rightarrow> cycle_graph \<Rightarrow> (bool \<times> cycle_graph) option" where
  "merge_forward w_node p_node g =
     (if edges g p_node = [] then Some (True, g)
      else let r = node_removeEdge p_node g; forward = the (fst r); g = snd r
           in if forward = w_node then merge_forward w_node p_node g
              else do {
                r \<leftarrow> addNodeEdge w_node forward g;
                if hasCycles (snd r) then Some (False, snd r) else merge_forward w_node p_node (snd r)
              })"

declare merge_forward.simps [code]

text \<open>
  \<open>mergeNodes\<close> fails (returns false) where the promise does not match the write, where both
  nodes have different RMW successors, or where a transferred edge closes a cycle.
\<close>

definition mergeNodes ::
  "(promise_ptr \<Rightarrow> act_ptr \<Rightarrow> bool) \<Rightarrow> (promise_ptr \<Rightarrow> act_ptr \<Rightarrow> bool option) \<Rightarrow>
   node_ptr \<Rightarrow> node_ptr \<Rightarrow> cycle_graph \<Rightarrow> (bool \<times> cycle_graph) option" where
  "mergeNodes compatible same_val w_node p_node g = do {
     ASSERT (\<not> is_promise_node (cg_nodes g w_node));
     ASSERT (is_promise_node (cg_nodes g p_node));
     promise \<leftarrow> cn_promise (cg_nodes g p_node);
     w \<leftarrow> cn_action (cg_nodes g w_node);
     same \<leftarrow> (if compatible promise w then same_val promise w else Some False);
     if \<not> same then Some (False, g)
     else
       let (failed, g) =
             (case getRMW g p_node of
                None \<Rightarrow> (False, g)
              | Some promise_rmw \<Rightarrow>
                  if getRMW g w_node \<noteq> Some promise_rmw then node_setRMW w_node promise_rmw g
                  else (False, g))
       in if failed then Some (False, g)
          else do {
            (ok, g) \<leftarrow> merge_back w_node p_node g;
            if \<not> ok then Some (False, g)
            else do {
              (ok, g) \<leftarrow> merge_forward w_node p_node g;
              if \<not> ok then Some (False, g)
              else do {
                g \<leftarrow> erasePromiseNode (Some promise) g;
                Some (\<not> hasCycles g, g)
              }
            }
          }
   }"

definition cg_resolvePromise ::
  "(promise_ptr \<Rightarrow> act_ptr \<Rightarrow> bool) \<Rightarrow> (promise_ptr \<Rightarrow> act_ptr \<Rightarrow> bool option) \<Rightarrow>
   promise_ptr \<Rightarrow> act_ptr \<Rightarrow> cycle_graph \<Rightarrow> (bool \<times> cycle_graph) option" where
  "cg_resolvePromise compatible same_val promise writer g = do {
     promise_node \<leftarrow> promiseToNode g promise;
     (case actionToNode g writer of
        Some w_node \<Rightarrow> mergeNodes compatible same_val w_node promise_node g
      | None \<Rightarrow> do {
          g \<leftarrow> node_resolvePromise compatible promise_node writer g;
          g \<leftarrow> erasePromiseNode (cn_promise (cg_nodes g promise_node)) g;
          Some (True, putNode (ActObj writer) promise_node g)
        })
   }"

subsection \<open>Transactions\<close>

definition startChanges :: "cycle_graph \<Rightarrow> cycle_graph option" where
  "startChanges g = do {
     ASSERT (rollbackvector g = []);
     ASSERT (rmwrollbackvector g = []);
     ASSERT (oldCycles g = hasCycles g);
     Some g
   }"

definition commitChanges :: "cycle_graph \<Rightarrow> cycle_graph" where
  "commitChanges g = g\<lparr>rollbackvector := [], rmwrollbackvector := [], oldCycles := hasCycles g\<rparr>"

definition rollbackChanges :: "cycle_graph \<Rightarrow> cycle_graph" where
  "rollbackChanges g =
     (let g' = fold (\<lambda>n g. snd (node_removeEdge n g)) (rollbackvector g) g;
          g'' = fold node_clearRMW (rmwrollbackvector g) g'
      in g''\<lparr>hasCycles := oldCycles g'', rollbackvector := [], rmwrollbackvector := []\<rparr>)"

definition checkForCycles :: "cycle_graph \<Rightarrow> bool" where
  "checkForCycles g = hasCycles g"

subsection \<open>Read-outs of the updated graph\<close>

lemma upd_node_simps [simp]:
  "cg_nodes (upd_node n f g) = (cg_nodes g)(n := f (cg_nodes g n))"
  "cg_next (upd_node n f g) = cg_next g"
  "actionToNode (upd_node n f g) = actionToNode g"
  "promiseToNode (upd_node n f g) = promiseToNode g"
  "hasCycles (upd_node n f g) = hasCycles g" "oldCycles (upd_node n f g) = oldCycles g"
  "rollbackvector (upd_node n f g) = rollbackvector g"
  "rmwrollbackvector (upd_node n f g) = rmwrollbackvector g"
  by (simp_all add: upd_node_def)

lemmas node_reads = edges_def back_edges_def getRMW_def

lemma node_reads_flags [simp]:
  "edges (g\<lparr>hasCycles := c\<rparr>) = edges g" "back_edges (g\<lparr>hasCycles := c\<rparr>) = back_edges g"
  "getRMW (g\<lparr>hasCycles := c\<rparr>) = getRMW g"
  "edges (g\<lparr>rmwrollbackvector := v\<rparr>) = edges g" "back_edges (g\<lparr>rmwrollbackvector := v\<rparr>) = back_edges g"
  "getRMW (g\<lparr>rmwrollbackvector := v\<rparr>) = getRMW g"
  "edges (push_rollback n g) = edges g" "back_edges (push_rollback n g) = back_edges g"
  "getRMW (push_rollback n g) = getRMW g" "cg_next (push_rollback n g) = cg_next g"
  "hasCycles (push_rollback n g) = hasCycles g" "oldCycles (push_rollback n g) = oldCycles g"
  "actionToNode (push_rollback n g) = actionToNode g" "promiseToNode (push_rollback n g) = promiseToNode g"
  "rmwrollbackvector (push_rollback n g) = rmwrollbackvector g"
  "rollbackvector (push_rollback n g) = rollbackvector g @ [n]"
  "cg_nodes (push_rollback n g) = cg_nodes g"
  by (simp_all add: node_reads fun_eq_iff push_rollback_def)

lemma node_addEdge_reads:
  assumes "node_addEdge a b g = (added, g')"
  shows "added \<longleftrightarrow> b \<notin> set (edges g a)"
    "edges g' x = (if x = a \<and> added then edges g a @ [b] else edges g x)"
    "back_edges g' x = (if x = b \<and> added then back_edges g b @ [a] else back_edges g x)"
    "getRMW g' = getRMW g" "cg_next g' = cg_next g" "hasCycles g' = hasCycles g"
    "oldCycles g' = oldCycles g" "rollbackvector g' = rollbackvector g"
    "rmwrollbackvector g' = rmwrollbackvector g"
    "actionToNode g' = actionToNode g" "promiseToNode g' = promiseToNode g"
    "cn_action (cg_nodes g' x) = cn_action (cg_nodes g x)"
    "cn_promise (cg_nodes g' x) = cn_promise (cg_nodes g x)"
  using assms by (auto simp: node_addEdge_def node_reads fun_eq_iff split: if_splits)

lemma node_removeEdge_reads:
  assumes "edges g a \<noteq> []"
  shows "edges (snd (node_removeEdge a g)) x = (if x = a then butlast (edges g a) else edges g x)"
    "back_edges (snd (node_removeEdge a g)) x =
       (if x = last (edges g a) then remove1 a (back_edges g x) else back_edges g x)"
    "getRMW (snd (node_removeEdge a g)) = getRMW g" "cg_next (snd (node_removeEdge a g)) = cg_next g"
    "rmwrollbackvector (snd (node_removeEdge a g)) = rmwrollbackvector g"
    "oldCycles (snd (node_removeEdge a g)) = oldCycles g"
  using assms by (auto simp: node_removeEdge_def node_reads Let_def fun_eq_iff)

subsection \<open>Well-formed graphs\<close>

definition mo_rel :: "cycle_graph \<Rightarrow> (node_ptr \<times> node_ptr) set" where
  "mo_rel g = {(a, b). b \<in> set (edges g a)}"

definition rmw_rel :: "cycle_graph \<Rightarrow> (node_ptr \<times> node_ptr) set" where
  "rmw_rel g = {(a, b). getRMW g a = Some b}"

text \<open>
  Forward and backward edges mirror each other, no edge is stored twice, edges and RMW
  successors join allocated nodes, and the chains of RMW successors end.
\<close>

definition cg_wf :: "cycle_graph \<Rightarrow> bool" where
  "cg_wf g \<longleftrightarrow>
     (\<forall>a b. b \<in> set (edges g a) \<longleftrightarrow> a \<in> set (back_edges g b)) \<and>
     (\<forall>a. distinct (edges g a)) \<and> (\<forall>a. distinct (back_edges g a)) \<and>
     (\<forall>a b. b \<in> set (edges g a) \<longrightarrow> a < cg_next g \<and> b < cg_next g) \<and>
     (\<forall>a b. getRMW g a = Some b \<longrightarrow> a < cg_next g \<and> b < cg_next g) \<and>
     acyclic (rmw_rel g)"

text \<open>The flag is sound: a graph that is not flagged has no cycle of modification-order edges.\<close>

definition cg_sound :: "cycle_graph \<Rightarrow> bool" where
  "cg_sound g \<longleftrightarrow> (\<not> hasCycles g \<longrightarrow> acyclic (mo_rel g))"

lemma cg_wfD:
  assumes "cg_wf g"
  shows "b \<in> set (edges g a) \<longleftrightarrow> a \<in> set (back_edges g b)" "distinct (edges g a)"
    "distinct (back_edges g a)" "b \<in> set (edges g a) \<Longrightarrow> a < cg_next g"
    "b \<in> set (edges g a) \<Longrightarrow> b < cg_next g" "getRMW g a = Some b \<Longrightarrow> a < cg_next g"
    "getRMW g a = Some b \<Longrightarrow> b < cg_next g" "acyclic (rmw_rel g)"
  using assms unfolding cg_wf_def by blast+

lemma cg_wf_cong:
  "edges g' = edges g \<Longrightarrow> back_edges g' = back_edges g \<Longrightarrow> getRMW g' = getRMW g \<Longrightarrow>
   cg_next g' = cg_next g \<Longrightarrow> cg_wf g' = cg_wf g"
  by (simp add: cg_wf_def rmw_rel_def)

lemma cg_wf_flags [simp]:
  "cg_wf (g\<lparr>hasCycles := c\<rparr>) = cg_wf g" "cg_wf (push_rollback n g) = cg_wf g"
  "cg_wf (g\<lparr>rmwrollbackvector := v\<rparr>) = cg_wf g"
  by (rule cg_wf_cong; simp)+

lemma mo_rel_flags [simp]:
  "mo_rel (g\<lparr>hasCycles := c\<rparr>) = mo_rel g" "mo_rel (push_rollback n g) = mo_rel g"
  "mo_rel (g\<lparr>rmwrollbackvector := v\<rparr>) = mo_rel g"
  by (simp_all add: mo_rel_def)

lemma new_cycle_graph_wf: "cg_wf new_cycle_graph" "cg_sound new_cycle_graph"
  by (simp_all add: cg_wf_def cg_sound_def new_cycle_graph_def node_reads empty_node_def mo_rel_def
      rmw_rel_def acyclic_def)

lemma node_addEdge_mo_rel:
  "node_addEdge a b g = (added, g') \<Longrightarrow> mo_rel g' = insert (a, b) (mo_rel g)"
  using node_addEdge_reads(1) [of a b g added g'] by (auto simp: mo_rel_def node_addEdge_reads(2) split: if_splits)

lemma node_addEdge_wf:
  assumes g: "node_addEdge a b g = (added, g')" and wf: "cg_wf g" and ab: "a < cg_next g" "b < cg_next g"
  shows "cg_wf g'"
proof -
  note r = node_addEdge_reads [OF g]
  have "y \<in> set (edges g' x) \<longleftrightarrow> x \<in> set (back_edges g' y)" for x y
    using cg_wfD(1) [OF wf] unfolding r(2,3) by auto
  moreover have "distinct (edges g' x)" for x
    using cg_wfD(2) [OF wf, of x] r(1) unfolding r(2) by (cases added) auto
  moreover have "distinct (back_edges g' x)" for x
    using cg_wfD(3) [OF wf, of x] r(1) cg_wfD(1) [OF wf, of b a] unfolding r(3) by (cases added) auto
  moreover have "y \<in> set (edges g' x) \<Longrightarrow> x < cg_next g' \<and> y < cg_next g'" for x y
    using cg_wfD(4,5) [OF wf] ab unfolding r(2,5) by (auto split: if_splits)
  ultimately show ?thesis
    using wf unfolding cg_wf_def rmw_rel_def r(4,5) by blast
qed

subsection \<open>Reachability is decided\<close>

lemma discover_spec:
  "discover es disc q = (disc', q') \<Longrightarrow>
     disc' = disc \<union> set es \<and> set q' = set q \<union> (set es - disc)"
proof (induction es disc q arbitrary: disc' q' rule: discover.induct)
  case (1 disc q)
  then show ?case by simp
next
  case (2 x es disc q)
  then show ?case by (cases "x \<in> disc") auto
qed

lemma discover_measure:
  "discover es disc q = (disc', q') \<Longrightarrow> finite N \<Longrightarrow> set es \<subseteq> N \<Longrightarrow>
     card (N - disc') + length q' = card (N - disc) + length q"
proof (induction es disc q arbitrary: disc' q' rule: discover.induct)
  case (1 disc q)
  then show ?case by simp
next
  case (2 x es disc q)
  show ?case
  proof (cases "x \<in> disc")
    case True
    with 2 show ?thesis by simp
  next
    case False
    with "2.prems" have "card (N - disc) = Suc (card (N - disc - {x}))"
      by (intro card.remove) auto
    then have "card (N - insert x disc) + length (x # q) = card (N - disc) + length q"
      by (simp add: Diff_insert [symmetric])
    with 2 False show ?thesis by simp
  qed
qed

lemma reach_loop_correct:
  assumes N: "finite N" "\<And>x. x \<in> N \<Longrightarrow> set (edges g x) \<subseteq> N"
  shows "disc \<subseteq> N \<Longrightarrow> set q \<subseteq> disc \<Longrightarrow>
    (\<And>x. x \<in> disc - set q \<Longrightarrow> set (edges g x) \<subseteq> disc \<and> x \<noteq> to) \<Longrightarrow>
    reach_loop g to disc q = Some (\<exists>x \<in> disc. (x, to) \<in> (mo_rel g)\<^sup>*)"
proof (induction "card (N - disc) + length q" arbitrary: disc q rule: less_induct)
  case less
  show ?case
  proof (cases q)
    case Nil
    have "x \<in> disc \<Longrightarrow> (x, y) \<in> (mo_rel g)\<^sup>* \<Longrightarrow> y \<in> disc" for x y
      by (rotate_tac, induction rule: rtrancl_induct) (use less.prems Nil in \<open>auto simp: mo_rel_def\<close>)
    with less.prems Nil show ?thesis
      by (subst reach_loop.simps) auto
  next
    case (Cons node q')
    show ?thesis
    proof (cases "node = to")
      case True
      with Cons less.prems show ?thesis by (subst reach_loop.simps) auto
    next
      case False
      obtain disc' q'' where d: "discover (edges g node) disc q' = (disc', q'')"
        by (cases "discover (edges g node) disc q'")
      have node: "node \<in> disc" "node \<in> N" using Cons less.prems by auto
      note ds = discover_spec [OF d]
      have "card (N - disc') + length q'' < card (N - disc) + length q"
        using discover_measure [OF d N(1) N(2) [OF node(2)]] Cons by simp
      moreover have "disc' \<subseteq> N" "set q'' \<subseteq> disc'"
        using ds less.prems N(2) [OF node(2)] Cons by auto
      moreover have "set (edges g x) \<subseteq> disc' \<and> x \<noteq> to" if "x \<in> disc' - set q''" for x
      proof (cases "x = node")
        case True
        with ds False show ?thesis by simp
      next
        case x: False
        with that ds Cons have "x \<in> disc - set q" by auto
        with less.prems(3) ds show ?thesis by blast
      qed
      ultimately have "reach_loop g to disc' q'' = Some (\<exists>x \<in> disc'. (x, to) \<in> (mo_rel g)\<^sup>*)"
        by (rule less.hyps)
      moreover have "(\<exists>x \<in> disc'. (x, to) \<in> (mo_rel g)\<^sup>*) \<longleftrightarrow> (\<exists>x \<in> disc. (x, to) \<in> (mo_rel g)\<^sup>*)"
      proof -
        have "(node, x) \<in> mo_rel g" if "x \<in> set (edges g node)" for x
          using that by (simp add: mo_rel_def)
        with ds node(1) show ?thesis
          by (metis (no_types, lifting) Un_iff converse_rtrancl_into_rtrancl)
      qed
      ultimately show ?thesis
        using Cons False d by (subst reach_loop.simps) (simp add: Let_def)
    qed
  qed
qed

lemma checkReachable_nodes_correct:
  assumes "cg_wf g" "a < cg_next g"
  shows "checkReachable_nodes g a b = Some ((a, b) \<in> (mo_rel g)\<^sup>*)"
  unfolding checkReachable_nodes_def
  using reach_loop_correct [of "{..<cg_next g}" g "{a}" "[a]" b] assms cg_wfD(5) [OF assms(1)]
  by auto

subsection \<open>Adding one edge\<close>

lemma detect_cycle_spec:
  assumes "cg_wf g" "b < cg_next g"
  shows "\<exists>c. detect_cycle b a g = Some (g\<lparr>hasCycles := c\<rparr>) \<and>
             (c \<longleftrightarrow> hasCycles g \<or> (b, a) \<in> (mo_rel g)\<^sup>*)"
  using checkReachable_nodes_correct [OF assms] by (auto simp: detect_cycle_def)

text \<open>The chain of RMW successors ends on a well-formed graph, at a node of the graph.\<close>

lemma rmw_rel_wf: "cg_wf g \<Longrightarrow> wf ((rmw_rel g)\<inverse>)"
proof (rule finite_acyclic_wf_converse)
  assume wf: "cg_wf g"
  have "rmw_rel g \<subseteq> {..<cg_next g} \<times> {..<cg_next g}"
    using cg_wfD(6,7) [OF wf] by (auto simp: rmw_rel_def)
  then show "finite (rmw_rel g)" by (rule finite_subset) simp
  show "acyclic (rmw_rel g)" using wf by (rule cg_wfD)
qed

lemma rmw_chain_spec:
  assumes wf: "cg_wf g"
  shows "n < cg_next g \<Longrightarrow> \<exists>m. rmw_chain g t n = Some m \<and> m < cg_next g \<and> (n, m) \<in> (rmw_rel g)\<^sup>*
            \<and> (m = t \<or> getRMW g m = None)"
proof (induction n rule: wf_induct [OF rmw_rel_wf [OF wf]])
  case (1 n)
  show ?case
  proof (cases "n \<noteq> t \<and> getRMW g n \<noteq> None")
    case True
    then obtain k where k: "getRMW g n = Some k" by auto
    then have nk: "(n, k) \<in> rmw_rel g" by (simp add: rmw_rel_def)
    then obtain m where m: "rmw_chain g t k = Some m" "m < cg_next g" "(k, m) \<in> (rmw_rel g)\<^sup>*"
        "m = t \<or> getRMW g m = None"
      using 1 cg_wfD(7) [OF wf k] by blast
    moreover have "rmw_chain g t n = rmw_chain g t k"
      using True k by (subst rmw_chain.simps) simp
    moreover have "(n, m) \<in> (rmw_rel g)\<^sup>*"
      using nk m(3) by (rule converse_rtrancl_into_rtrancl)
    ultimately show ?thesis by metis
  next
    case False
    with 1 show ?thesis by (subst rmw_chain.simps) auto
  qed
qed

lemma reach_insert_back: "(b, a) \<in> (insert (a, b) r)\<^sup>* \<longleftrightarrow> (b, a) \<in> r\<^sup>*"
  by (auto simp: rtrancl_insert)

text \<open>
  What one guarded insertion does: the edge is there afterwards, the graph stays well-formed,
  and the flag is raised exactly when the edge closes a cycle.
\<close>

lemma guarded_edge:
  assumes wf: "cg_wf g" and ab: "a < cg_next g" "b < cg_next g"
    and g1: "node_addEdge a b g = (added, g1)"
  shows "cg_wf g1" "cg_next g1 = cg_next g" "mo_rel g1 = insert (a, b) (mo_rel g)"
    "getRMW g1 = getRMW g" "hasCycles g1 = hasCycles g"
    "\<exists>c. detect_cycle b a g1 = Some (g1\<lparr>hasCycles := c\<rparr>) \<and> (c \<longleftrightarrow> hasCycles g \<or> (b, a) \<in> (mo_rel g)\<^sup>*)"
proof -
  show wf1: "cg_wf g1" by (rule node_addEdge_wf [OF g1 wf ab])
  show next1: "cg_next g1 = cg_next g" and "getRMW g1 = getRMW g" and h: "hasCycles g1 = hasCycles g"
    using node_addEdge_reads [OF g1] by auto
  show rel: "mo_rel g1 = insert (a, b) (mo_rel g)" by (rule node_addEdge_mo_rel [OF g1])
  show "\<exists>c. detect_cycle b a g1 = Some (g1\<lparr>hasCycles := c\<rparr>) \<and> (c \<longleftrightarrow> hasCycles g \<or> (b, a) \<in> (mo_rel g)\<^sup>*)"
    using detect_cycle_spec [OF wf1, of b a] ab next1 rel h by (simp add: reach_insert_back)
qed

definition flag_exact :: "cycle_graph \<Rightarrow> cycle_graph \<Rightarrow> bool" where
  "flag_exact g g' \<longleftrightarrow> (hasCycles g' \<longleftrightarrow> hasCycles g \<or> \<not> acyclic (mo_rel g'))"

text \<open>
  The edges \<open>addNodeEdge\<close> adds: the new edge and, where the origin has an RMW successor, an edge
  from the end of the chain of RMWs unless the chain meets the target.
\<close>

definition edge_effect :: "cycle_graph \<Rightarrow> node_ptr \<Rightarrow> node_ptr \<Rightarrow> cycle_graph \<Rightarrow> bool" where
  "edge_effect g f t g' \<longleftrightarrow>
     (if t \<in> set (edges g f) then mo_rel g' = mo_rel g
      else case getRMW g f of
        None \<Rightarrow> mo_rel g' = insert (f, t) (mo_rel g)
      | Some r \<Rightarrow> (\<exists>m. (r, m) \<in> (rmw_rel g)\<^sup>* \<and>
          (m = t \<and> mo_rel g' = insert (f, t) (mo_rel g) \<or>
           m \<noteq> t \<and> getRMW g m = None \<and> mo_rel g' = insert (m, t) (insert (f, t) (mo_rel g)))))"

text \<open>The second insertion of \<open>addNodeEdge\<close>: the end of the RMW chain is also ordered before \<open>tonode\<close>.\<close>

lemma addNodeEdge_spec:
  assumes wf: "cg_wf g" and ft: "f < cg_next g" "t < cg_next g" and sound: "cg_sound g"
  shows "\<exists>b g'. addNodeEdge f t g = Some (b, g') \<and> cg_wf g' \<and> cg_sound g' \<and> flag_exact g g' \<and>
    (b \<longleftrightarrow> t \<notin> set (edges g f)) \<and> cg_next g' = cg_next g \<and> getRMW g' = getRMW g \<and>
    edge_effect g f t g' \<and>
    actionToNode g' = actionToNode g \<and> promiseToNode g' = promiseToNode g"
proof -
  obtain added g1 where g1: "node_addEdge f t g = (added, g1)" by (cases "node_addEdge f t g")
  note r1 = node_addEdge_reads [OF g1] and e1 = guarded_edge [OF wf ft g1]
  show ?thesis
  proof (cases added)
    case False
    then have "g1 = g" and in_edges: "t \<in> set (edges g f)"
      using g1 by (auto simp: node_addEdge_def split: if_splits)
    moreover have "flag_exact g g"
      using sound by (auto simp: flag_exact_def cg_sound_def)
    moreover have "edge_effect g f t g" using in_edges by (simp add: edge_effect_def)
    ultimately show ?thesis
      using False wf sound g1 by (auto simp: addNodeEdge_def)
  next
    case True
    let ?p = "push_rollback f g1"
    obtain c where c: "detect_cycle t f ?p = Some (?p\<lparr>hasCycles := c\<rparr>)"
        "c \<longleftrightarrow> hasCycles g \<or> (t, f) \<in> (mo_rel g)\<^sup>*"
      using detect_cycle_spec [of ?p t f] e1 ft by (auto simp: reach_insert_back)
    let ?g2 = "?p\<lparr>hasCycles := c\<rparr>"
    have wf2: "cg_wf ?g2" and next2: "cg_next ?g2 = cg_next g" and rmw2: "getRMW ?g2 = getRMW g"
      and rel2: "mo_rel ?g2 = insert (f, t) (mo_rel g)"
      using e1 by simp_all
    have exact2: "flag_exact g ?g2" and sound2: "cg_sound ?g2"
      using sound c rel2 by (auto simp: flag_exact_def cg_sound_def acyclic_insert)
    have tabs2: "actionToNode ?g2 = actionToNode g" "promiseToNode ?g2 = promiseToNode g"
      using r1 by simp_all
    show ?thesis
    proof (cases "getRMW g f")
      case None
      then have "addNodeEdge f t g = Some (True, ?g2)"
        using g1 True c rmw2 by (simp add: addNodeEdge_def)
      moreover have "edge_effect g f t ?g2"
        using None rel2 True r1(1) by (simp add: edge_effect_def)
      ultimately show ?thesis
        using wf2 sound2 exact2 next2 rmw2 tabs2 True r1(1) by blast
    next
      case (Some r)
      have r: "r < cg_next ?g2" using cg_wfD(7) [OF wf Some] next2 by simp
      from rmw_chain_spec [OF wf2 r, of t] obtain m where
          m: "rmw_chain ?g2 t r = Some m" "m < cg_next g" "(r, m) \<in> (rmw_rel ?g2)\<^sup>*"
             "m = t \<or> getRMW ?g2 m = None"
        using next2 by auto
      have rel_rmw: "rmw_rel ?g2 = rmw_rel g" using rmw2 by (simp add: rmw_rel_def)
      have new: "t \<notin> set (edges g f)" using True r1(1) by simp
      show ?thesis
      proof (cases "m = t")
        case mt: True
        then have "addNodeEdge f t g = Some (True, ?g2)"
          using g1 True c Some m r1(4) by (simp add: addNodeEdge_def)
        moreover have "edge_effect g f t ?g2"
          using new Some mt m(3) rel_rmw rel2 by (auto simp: edge_effect_def)
        ultimately show ?thesis
          using wf2 sound2 exact2 next2 rmw2 tabs2 new by blast
      next
        case mt: False
        obtain added' g3 where g3: "node_addEdge m t ?g2 = (added', g3)" by (cases "node_addEdge m t ?g2")
        have mt_lt: "m < cg_next ?g2" "t < cg_next ?g2" using m ft next2 by simp_all
        note r3 = node_addEdge_reads [OF g3] and e3 = guarded_edge [OF wf2 mt_lt g3]
        show ?thesis
        proof (cases added')
          case False
          then have "g3 = ?g2"
            using g3 by (auto simp: node_addEdge_def split: if_splits)
          then have "addNodeEdge f t g = Some (True, ?g2)"
            using g1 True c Some m r1(4) mt g3 False by (simp add: addNodeEdge_def)
          moreover have "mo_rel ?g2 = insert (m, t) (insert (f, t) (mo_rel g))"
            using rel2 r3(1) False by (auto simp: mo_rel_def)
          then have "edge_effect g f t ?g2"
            using new Some mt m(3,4) rel_rmw rmw2 by (auto simp: edge_effect_def)
          ultimately show ?thesis
            using wf2 sound2 exact2 next2 rmw2 tabs2 new by blast
        next
          case ad: True
          obtain d where d: "detect_cycle t m g3 = Some (g3\<lparr>hasCycles := d\<rparr>)"
              "d \<longleftrightarrow> c \<or> (t, m) \<in> (insert (f, t) (mo_rel g))\<^sup>*"
            using e3(6) rel2 by auto
          let ?g4 = "push_rollback m (g3\<lparr>hasCycles := d\<rparr>)"
          have res: "addNodeEdge f t g = Some (True, ?g4)"
            using g1 True c Some m r1(4) mt g3 ad d by (simp add: addNodeEdge_def)
          have rel4: "mo_rel ?g4 = insert (m, t) (insert (f, t) (mo_rel g))"
            using e3(3) rel2 by simp
          have ac: "acyclic (mo_rel ?g4) \<longleftrightarrow> acyclic (mo_rel g) \<and> (t, f) \<notin> (mo_rel g)\<^sup>* \<and>
              (t, m) \<notin> (insert (f, t) (mo_rel g))\<^sup>*"
            unfolding rel4 acyclic_insert by blast
          have flag4: "hasCycles ?g4 = d" by simp
          have exact4: "flag_exact g ?g4" and sound4: "cg_sound ?g4"
            using sound c(2) d(2) unfolding flag_exact_def cg_sound_def flag4 ac by blast+
          have eff: "edge_effect g f t ?g4"
            using new Some mt m(3,4) rel_rmw rmw2 rel4 by (auto simp: edge_effect_def)
          have "cg_wf ?g4" "cg_next ?g4 = cg_next g" "getRMW ?g4 = getRMW g"
            "actionToNode ?g4 = actionToNode g" "promiseToNode ?g4 = promiseToNode g"
            using e3 r3 next2 rmw2 tabs2 by simp_all
          with res sound4 exact4 eff new show ?thesis by blast
        qed
      qed
    qed
  qed
qed

subsection \<open>Rolling back\<close>

text \<open>
  \<open>tracked g0 vec g\<close>: the edges of \<open>g\<close> are those of \<open>g0\<close> followed by one more edge of \<open>n\<close> for
  every occurrence of \<open>n\<close> in \<open>vec\<close>. Removing an edge of every node of \<open>vec\<close>, in any order,
  therefore gives back \<open>g0\<close>.
\<close>

definition mirrored :: "cycle_graph \<Rightarrow> bool" where
  "mirrored g \<longleftrightarrow> (\<forall>a b. b \<in> set (edges g a) \<longleftrightarrow> a \<in> set (back_edges g b)) \<and>
     (\<forall>a. distinct (edges g a)) \<and> (\<forall>a. distinct (back_edges g a))"

definition tracked :: "cycle_graph \<Rightarrow> node_ptr list \<Rightarrow> cycle_graph \<Rightarrow> bool" where
  "tracked g0 vec g \<longleftrightarrow> mirrored g0 \<and> mirrored g \<and>
     (\<forall>n. \<exists>ad. edges g n = edges g0 n @ ad \<and> length ad = count_list vec n) \<and>
     (\<forall>n. \<exists>bd. back_edges g n = back_edges g0 n @ bd)"

lemma mirrored_cg_wf: "cg_wf g \<Longrightarrow> mirrored g"
  by (simp add: cg_wf_def mirrored_def)

lemma mirroredD:
  assumes "mirrored g"
  shows "b \<in> set (edges g a) \<longleftrightarrow> a \<in> set (back_edges g b)" "distinct (edges g a)"
    "distinct (back_edges g a)"
  using assms unfolding mirrored_def by blast+

lemma tracked_refl: "mirrored g \<Longrightarrow> tracked g [] g"
  by (simp add: tracked_def)

lemma tracked_cong:
  "edges g' = edges g \<Longrightarrow> back_edges g' = back_edges g \<Longrightarrow> tracked g0 vec g' = tracked g0 vec g"
  by (simp add: tracked_def mirrored_def)

lemma mirrored_removeEdge:
  assumes m: "mirrored g" and ne: "edges g n \<noteq> []"
  shows "mirrored (snd (node_removeEdge n g))"
proof -
  note r = node_removeEdge_reads [OF ne]
  have app: "edges g n = butlast (edges g n) @ [last (edges g n)]" using ne by simp
  have dist: "distinct (edges g n)" using m by (rule mirroredD)
  have set_bl: "set (butlast (edges g n)) = set (edges g n) - {last (edges g n)}"
    using dist by (subst (asm) app, subst (2) app) auto
  have "b \<in> set (edges (snd (node_removeEdge n g)) a) \<longleftrightarrow> a \<in> set (back_edges (snd (node_removeEdge n g)) b)" for a b
    using mirroredD [OF m] set_bl unfolding r(1,2) by (auto simp: set_remove1_eq)
  moreover have "distinct (edges (snd (node_removeEdge n g)) a)" for a
    using mirroredD(2) [OF m] unfolding r(1) by (simp add: distinct_butlast)
  moreover have "distinct (back_edges (snd (node_removeEdge n g)) a)" for a
    using mirroredD(3) [OF m] unfolding r(2) by (simp add: distinct_remove1)
  ultimately show ?thesis unfolding mirrored_def by blast
qed

lemma tracked_removeEdge:
  assumes t: "tracked g0 (n # vec) g"
  shows "tracked g0 vec (snd (node_removeEdge n g))"
proof -
  obtain ad where ad: "edges g n = edges g0 n @ ad" "length ad = Suc (count_list vec n)"
    using t unfolding tracked_def by (metis count_list.simps(2) plus_1_eq_Suc add.commute)
  then have ad_ne: "ad \<noteq> []" and ne: "edges g n \<noteq> []" by auto
  note r = node_removeEdge_reads [OF ne]
  have m: "mirrored g" and m0: "mirrored g0" using t by (simp_all add: tracked_def)
  have last_new: "last (edges g n) \<notin> set (edges g0 n)"
    using mirroredD(2) [OF m, of n] ad ad_ne by auto
  then have n_new: "n \<notin> set (back_edges g0 (last (edges g n)))"
    using mirroredD(1) [OF m0] by simp
  have "\<exists>ad'. edges (snd (node_removeEdge n g)) x = edges g0 x @ ad' \<and> length ad' = count_list vec x" for x
  proof (cases "x = n")
    case True
    with ad ad_ne show ?thesis unfolding r(1) by (auto simp: butlast_append intro: exI [of _ "butlast ad"])
  next
    case False
    obtain ad' where "edges g x = edges g0 x @ ad'" "length ad' = count_list (n # vec) x"
      using t unfolding tracked_def by blast
    with False show ?thesis unfolding r(1) by auto
  qed
  moreover have "\<exists>bd. back_edges (snd (node_removeEdge n g)) x = back_edges g0 x @ bd" for x
  proof -
    obtain bd where "back_edges g x = back_edges g0 x @ bd"
      using t unfolding tracked_def by blast
    with n_new show ?thesis unfolding r(2) by (auto simp: remove1_append)
  qed
  ultimately show ?thesis
    using m0 mirrored_removeEdge [OF m ne] unfolding tracked_def by blast
qed

lemma tracked_fold: "tracked g0 vec g \<Longrightarrow> tracked g0 [] (fold (\<lambda>n g. snd (node_removeEdge n g)) vec g)"
  by (induction vec arbitrary: g) (simp_all add: tracked_removeEdge)

lemma tracked_Nil_eq:
  assumes t: "tracked g0 [] g"
  shows "edges g = edges g0" "back_edges g = back_edges g0"
proof -
  show e: "edges g = edges g0"
    using t unfolding tracked_def fun_eq_iff by (metis append_Nil2 count_list.simps(1) length_0_conv)
  show "back_edges g = back_edges g0"
  proof
    fix x
    obtain bd where bd: "back_edges g x = back_edges g0 x @ bd"
      using t unfolding tracked_def by blast
    have "bd = []"
    proof (rule ccontr)
      assume "bd \<noteq> []"
      then obtain a where a: "a \<in> set bd" by (cases bd) auto
      have m: "mirrored g" "mirrored g0" using t by (simp_all add: tracked_def)
      have "x \<in> set (edges g a)" using mirroredD(1) [OF m(1)] bd a by simp
      with e have "a \<in> set (back_edges g0 x)" using mirroredD(1) [OF m(2)] by simp
      moreover have "distinct (back_edges g x)" using m(1) by (rule mirroredD)
      ultimately show False using a bd by auto
    qed
    with bd show "back_edges g x = back_edges g0 x" by simp
  qed
qed

lemma tracked_addEdge:
  assumes t: "tracked g0 vec g" and g': "node_addEdge a b g = (added, g')"
  shows "tracked g0 (if added then vec @ [a] else vec) g'"
proof (cases added)
  case False
  with g' t show ?thesis by (auto simp: node_addEdge_def split: if_splits)
next
  case True
  note r = node_addEdge_reads [OF g']
  have new: "b \<notin> set (edges g a)" using r(1) True by simp
  have m: "mirrored g" using t by (simp add: tracked_def)
  have m': "mirrored g'"
    using mirroredD [OF m] new True unfolding mirrored_def r(2,3) by auto
  have "\<exists>ad. edges g' n = edges g0 n @ ad \<and> length ad = count_list (vec @ [a]) n" for n
  proof -
    obtain ad where "edges g n = edges g0 n @ ad" "length ad = count_list vec n"
      using t unfolding tracked_def by blast
    then show ?thesis using True unfolding r(2) by (auto simp: count_list_append)
  qed
  moreover have "\<exists>bd. back_edges g' n = back_edges g0 n @ bd" for n
  proof -
    obtain bd where "back_edges g n = back_edges g0 n @ bd"
      using t unfolding tracked_def by blast
    then show ?thesis using True unfolding r(3) by auto
  qed
  ultimately show ?thesis
    using True t m' unfolding tracked_def by simp
qed

text \<open>
  \<open>undoable g0 g\<close>: the change log of \<open>g\<close> leads back to \<open>g0\<close>: edges, RMW successors and flag.
\<close>

definition undoable :: "cycle_graph \<Rightarrow> cycle_graph \<Rightarrow> bool" where
  "undoable g0 g \<longleftrightarrow> tracked g0 (rollbackvector g) g \<and> oldCycles g = oldCycles g0 \<and>
     (\<forall>n \<in> set (rmwrollbackvector g). getRMW g0 n = None) \<and>
     (\<forall>n. n \<notin> set (rmwrollbackvector g) \<longrightarrow> getRMW g n = getRMW g0 n)"

lemma fold_clearRMW_reads:
  "edges (fold node_clearRMW ns g) = edges g" "back_edges (fold node_clearRMW ns g) = back_edges g"
  "getRMW (fold node_clearRMW ns g) n = (if n \<in> set ns then None else getRMW g n)"
  "oldCycles (fold node_clearRMW ns g) = oldCycles g"
  by (induction ns arbitrary: g) (auto simp: node_clearRMW_def node_reads fun_eq_iff)

lemma fold_removeEdge_reads:
  "getRMW (fold (\<lambda>n g. snd (node_removeEdge n g)) ns g) = getRMW g"
  "oldCycles (fold (\<lambda>n g. snd (node_removeEdge n g)) ns g) = oldCycles g"
  "rmwrollbackvector (fold (\<lambda>n g. snd (node_removeEdge n g)) ns g) = rmwrollbackvector g"
  by (induction ns arbitrary: g) (auto simp: node_removeEdge_def node_reads Let_def fun_eq_iff)

lemma rollback_undoable:
  assumes u: "undoable g0 g"
  shows "edges (rollbackChanges g) = edges g0" "back_edges (rollbackChanges g) = back_edges g0"
    "getRMW (rollbackChanges g) = getRMW g0" "hasCycles (rollbackChanges g) = oldCycles g0"
    "rollbackvector (rollbackChanges g) = []" "rmwrollbackvector (rollbackChanges g) = []"
proof -
  let ?g1 = "fold (\<lambda>n g. snd (node_removeEdge n g)) (rollbackvector g) g"
  have frame: "edges (g\<lparr>hasCycles := c, rollbackvector := v, rmwrollbackvector := w\<rparr>) = edges g"
    "back_edges (g\<lparr>hasCycles := c, rollbackvector := v, rmwrollbackvector := w\<rparr>) = back_edges g"
    "getRMW (g\<lparr>hasCycles := c, rollbackvector := v, rmwrollbackvector := w\<rparr>) = getRMW g"
    for g c v w by (simp_all add: node_reads fun_eq_iff)
  have t: "tracked g0 [] ?g1" using u by (simp add: undoable_def tracked_fold)
  show "edges (rollbackChanges g) = edges g0" "back_edges (rollbackChanges g) = back_edges g0"
    unfolding rollbackChanges_def Let_def frame fold_clearRMW_reads using tracked_Nil_eq [OF t] by auto
  show "getRMW (rollbackChanges g) = getRMW g0"
    unfolding rollbackChanges_def Let_def frame fun_eq_iff fold_clearRMW_reads fold_removeEdge_reads
    using u by (auto simp: undoable_def)
  show "hasCycles (rollbackChanges g) = oldCycles g0"
    using u by (simp add: rollbackChanges_def Let_def fold_clearRMW_reads fold_removeEdge_reads undoable_def)
qed (simp_all add: rollbackChanges_def Let_def)

lemma undoable_cong:
  "edges g' = edges g \<Longrightarrow> back_edges g' = back_edges g \<Longrightarrow> getRMW g' = getRMW g \<Longrightarrow>
   rollbackvector g' = rollbackvector g \<Longrightarrow> rmwrollbackvector g' = rmwrollbackvector g \<Longrightarrow>
   oldCycles g' = oldCycles g \<Longrightarrow> undoable g0 g' = undoable g0 g"
  by (simp add: undoable_def tracked_cong [of g' g])

lemma undoable_flag [simp]: "undoable g0 (g\<lparr>hasCycles := c\<rparr>) = undoable g0 g"
  by (rule undoable_cong) simp_all

lemma undoable_addEdge:
  assumes "undoable g0 g" "node_addEdge a b g = (added, g')"
  shows "undoable g0 (if added then push_rollback a g' else g')"
proof -
  note r = node_addEdge_reads [OF assms(2)]
  have "tracked g0 (if added then rollbackvector g @ [a] else rollbackvector g) g'"
    using tracked_addEdge [OF _ assms(2)] assms(1) by (simp add: undoable_def)
  then show ?thesis
    using assms(1) r(4,7,8,9) tracked_cong [of "push_rollback a g'" g'] by (cases added) (auto simp: undoable_def)
qed

lemma detect_cycle_cases:
  "detect_cycle b a g = Some g' \<Longrightarrow> \<exists>c. g' = g\<lparr>hasCycles := c\<rparr>"
  by (cases "hasCycles g") (auto simp: detect_cycle_def bind_eq_Some_conv intro: exI [of _ True])

lemma undoable_detect: "detect_cycle b a g = Some g' \<Longrightarrow> undoable g0 g \<Longrightarrow> undoable g0 g'"
  by (auto dest: detect_cycle_cases)

lemma addNodeEdge_undoable:
  assumes u: "undoable g0 g" and res: "addNodeEdge f t g = Some (b, g')"
  shows "undoable g0 g'"
proof -
  obtain added g1 where g1: "node_addEdge f t g = (added, g1)" by (cases "node_addEdge f t g")
  have u1: "undoable g0 (if added then push_rollback f g1 else g1)"
    by (rule undoable_addEdge [OF u g1])
  show ?thesis
  proof (cases added)
    case False
    with u1 res g1 show ?thesis by (simp add: addNodeEdge_def)
  next
    case True
    with res g1 obtain g2 where g2: "detect_cycle t f (push_rollback f g1) = Some g2"
      by (auto simp: addNodeEdge_def bind_eq_Some_conv)
    from u1 True have u2: "undoable g0 g2" by (auto intro: undoable_detect [OF g2])
    show ?thesis
    proof (cases "getRMW g2 f")
      case None
      with res g1 g2 True u2 show ?thesis by (simp add: addNodeEdge_def)
    next
      case (Some r)
      with res g1 g2 True obtain m where m: "rmw_chain g2 t r = Some m"
        by (auto simp: addNodeEdge_def bind_eq_Some_conv)
      obtain added' g3 where g3: "node_addEdge m t g2 = (added', g3)" by (cases "node_addEdge m t g2")
      have u3: "undoable g0 (if added' then push_rollback m g3 else g3)"
        by (rule undoable_addEdge [OF u2 g3])
      show ?thesis
      proof (cases "m \<noteq> t \<and> added'")
        case True': True
        with res g1 g2 True Some m g3 obtain g4 where
            g4: "detect_cycle t m g3 = Some g4" "g' = push_rollback m g4"
          by (auto simp: addNodeEdge_def bind_eq_Some_conv)
        then obtain c where "g4 = g3\<lparr>hasCycles := c\<rparr>" by (blast dest: detect_cycle_cases)
        with g4 have "g' = (push_rollback m g3)\<lparr>hasCycles := c\<rparr>" by (simp add: push_rollback_def)
        with u3 True' show ?thesis by simp
      next
        case False
        then have "g' = g2 \<or> g' = g3 \<and> \<not> added'"
          using res g1 g2 True Some m g3 by (auto simp: addNodeEdge_def split: if_splits)
        with u2 u3 show ?thesis by auto
      qed
    qed
  qed
qed

lemma transfer_edges_undoable: "undoable g0 g \<Longrightarrow> undoable g0 (transfer_edges r es g)"
proof (induction r es g rule: transfer_edges.induct)
  case (1 r g)
  then show ?case by simp
next
  case (2 r t es g)
  obtain added g1 where g1: "node_addEdge r t g = (added, g1)" by (cases "node_addEdge r t g")
  from undoable_addEdge [OF "2.prems" g1] 2 g1 show ?case by (auto simp: Let_def)
qed

subsection \<open>Objects and their nodes\<close>

text \<open>Every object of a table has its own allocated node, and every allocated node is in a table.\<close>

definition tables_ok :: "cycle_graph \<Rightarrow> bool" where
  "tables_ok g \<longleftrightarrow> (\<forall>x n. getNode_noCreate g x = Some n \<longrightarrow> n < cg_next g) \<and>
     (\<forall>x y n. getNode_noCreate g x = Some n \<and> getNode_noCreate g y = Some n \<longrightarrow> x = y) \<and>
     (\<forall>n < cg_next g. \<exists>x. getNode_noCreate g x = Some n)"

definition cg_inv :: "cycle_graph \<Rightarrow> bool" where
  "cg_inv g \<longleftrightarrow> cg_wf g \<and> cg_sound g \<and> tables_ok g"

lemma noCreate_cong:
  "actionToNode g' = actionToNode g \<Longrightarrow> promiseToNode g' = promiseToNode g \<Longrightarrow>
   getNode_noCreate g' x = getNode_noCreate g x"
  by (cases x) auto

lemma tables_ok_cong:
  "actionToNode g' = actionToNode g \<Longrightarrow> promiseToNode g' = promiseToNode g \<Longrightarrow>
   cg_next g' = cg_next g \<Longrightarrow> tables_ok g' = tables_ok g"
  using noCreate_cong [of g' g] by (simp add: tables_ok_def)

lemma new_cycle_graph_inv: "cg_inv new_cycle_graph"
proof -
  have "getNode_noCreate new_cycle_graph x = None" for x
    by (cases x) (simp_all add: new_cycle_graph_def)
  then have "tables_ok new_cycle_graph"
    by (simp add: tables_ok_def new_cycle_graph_def)
  then show ?thesis by (simp add: cg_inv_def new_cycle_graph_wf)
qed

lemma noCreate_putNode:
  "getNode_noCreate (putNode x n g) y = (if y = x then Some n else getNode_noCreate g y)"
  by (cases x; cases y) auto

lemma noCreate_nodes [simp]:
  "getNode_noCreate (g\<lparr>cg_nodes := ns, cg_next := k\<rparr>) y = getNode_noCreate g y"
  by (cases y) auto

lemma putNode_fields [simp]:
  "cg_nodes (putNode x n g) = cg_nodes g" "cg_next (putNode x n g) = cg_next g"
  "hasCycles (putNode x n g) = hasCycles g" "oldCycles (putNode x n g) = oldCycles g"
  "rollbackvector (putNode x n g) = rollbackvector g"
  "rmwrollbackvector (putNode x n g) = rmwrollbackvector g"
  by (cases x; simp)+

lemma fresh_node:
  assumes "cg_wf g" "cg_next g \<le> n"
  shows "edges g n = []" "back_edges g n = []" "getRMW g n = None"
proof -
  have "b \<notin> set (edges g n)" for b
    using cg_wfD(4) [OF assms(1), of b n] assms(2) by auto
  then show "edges g n = []" by (metis list.set_intros(1) neq_Nil_conv)
  have "b \<notin> set (back_edges g n)" for b
    using cg_wfD(1) [OF assms(1), of n b] cg_wfD(5) [OF assms(1), of n b] assms(2) by auto
  then show "back_edges g n = []" by (metis list.set_intros(1) neq_Nil_conv)
  show "getRMW g n = None"
    using cg_wfD(6) [OF assms(1), of n] assms(2) by (cases "getRMW g n") auto
qed

lemma getNode_spec:
  assumes wf: "cg_wf g" and gn: "getNode x g = (n, g')"
  shows "edges g' = edges g" "back_edges g' = back_edges g" "getRMW g' = getRMW g"
    "hasCycles g' = hasCycles g" "oldCycles g' = oldCycles g" "rollbackvector g' = rollbackvector g"
    "rmwrollbackvector g' = rmwrollbackvector g" "cg_next g \<le> cg_next g'"
    "getNode_noCreate g' x = Some n"
    "y \<noteq> x \<Longrightarrow> getNode_noCreate g' y = getNode_noCreate g y"
    "getNode_noCreate g x = Some m \<Longrightarrow> n = m"
    "getNode_noCreate g x = None \<Longrightarrow> n = cg_next g \<and> cg_next g' = Suc (cg_next g)"
proof -
  have empty: "cn_edges (new_node x) = []" "cn_back_edges (new_node x) = []" "cn_hasRMW (new_node x) = None"
    by (cases x; simp add: new_action_node_def new_promise_node_def)+
  note f = fresh_node [OF wf order_refl, unfolded node_reads]
  show "edges g' = edges g" "back_edges g' = back_edges g" "getRMW g' = getRMW g"
    using gn empty f by (auto simp: getNode_def node_reads fun_eq_iff split: option.splits)
qed (use gn in \<open>auto simp: getNode_def noCreate_putNode split: option.splits\<close>)

lemma getNode_inv:
  assumes inv: "cg_inv g" and gn: "getNode x g = (n, g')"
  shows "cg_inv g'" "n < cg_next g'" "mo_rel g' = mo_rel g"
proof -
  have wf: "cg_wf g" and tab: "tables_ok g" using inv by (simp_all add: cg_inv_def)
  note s = getNode_spec [OF wf gn]
  show rel: "mo_rel g' = mo_rel g" by (simp add: mo_rel_def s)
  have wf': "cg_wf g'"
    using wf s(8) unfolding cg_wf_def rmw_rel_def s(1-3) by (meson less_le_trans)
  have sound': "cg_sound g'" using inv by (simp add: cg_inv_def cg_sound_def rel s)
  have tab': "tables_ok g' \<and> n < cg_next g'"
  proof (cases "getNode_noCreate g x")
    case None
    with gn have g': "g' = putNode x (cg_next g) (g\<lparr>cg_nodes := (cg_nodes g)(cg_next g := new_node x), cg_next := Suc (cg_next g)\<rparr>)"
      by (auto simp: getNode_def)
    have nc: "getNode_noCreate g' y = (if y = x then Some (cg_next g) else getNode_noCreate g y)" for y
      unfolding g' noCreate_putNode by simp
    have nx: "cg_next g' = Suc (cg_next g)" by (simp add: g')
    show ?thesis
    proof
      show "n < cg_next g'" using s(12) [OF None] nx by simp
      have lt: "m < cg_next g" if "getNode_noCreate g y = Some m" for y m
        using tab that by (simp add: tables_ok_def)
      have inj: "y = z" if "getNode_noCreate g y = Some m" "getNode_noCreate g z = Some m" for y z m
        using tab that unfolding tables_ok_def by blast
      have ex: "\<exists>y. getNode_noCreate g y = Some m" if "m < cg_next g" for m
        using tab that by (simp add: tables_ok_def)
      show "tables_ok g'"
        unfolding tables_ok_def nc nx
      proof (intro conjI allI impI)
        fix y m assume "(if y = x then Some (cg_next g) else getNode_noCreate g y) = Some m"
        then show "m < Suc (cg_next g)" using lt by (auto split: if_splits intro: less_SucI)
      next
        fix y z m assume "(if y = x then Some (cg_next g) else getNode_noCreate g y) = Some m \<and>
            (if z = x then Some (cg_next g) else getNode_noCreate g z) = Some m"
        then show "y = z" using lt inj by (auto split: if_splits)
      next
        fix m assume "m < Suc (cg_next g)"
        then show "\<exists>y. (if y = x then Some (cg_next g) else getNode_noCreate g y) = Some m"
          using ex [of m] None by (metis less_Suc_eq option.distinct(1))
      qed
    qed
  next
    case (Some m)
    with gn have "g' = g" "n = m" by (auto simp: getNode_def)
    with tab Some show ?thesis by (auto simp: tables_ok_def)
  qed
  from wf' sound' tab' show "cg_inv g'" "n < cg_next g'" by (simp_all add: cg_inv_def)
qed

lemma getNode_undoable:
  assumes "cg_wf g" "getNode x g = (n, g')"
  shows "undoable g0 g' = undoable g0 g"
  by (rule undoable_cong) (simp_all add: getNode_spec [OF assms])

subsection \<open>The order on objects\<close>

definition mo_order :: "cycle_graph \<Rightarrow> (mo_obj \<times> mo_obj) set" where
  "mo_order g = {(x, y). \<exists>n m. getNode_noCreate g x = Some n \<and> getNode_noCreate g y = Some m \<and> (n, m) \<in> mo_rel g}"

lemma tables_okD:
  assumes "tables_ok g"
  shows "getNode_noCreate g x = Some n \<Longrightarrow> n < cg_next g"
    "getNode_noCreate g x = Some n \<Longrightarrow> getNode_noCreate g y = Some n \<Longrightarrow> x = y"
    "n < cg_next g \<Longrightarrow> \<exists>x. getNode_noCreate g x = Some n"
  using assms unfolding tables_ok_def by blast+

lemma mo_order_iff:
  assumes "tables_ok g" "getNode_noCreate g x = Some n" "getNode_noCreate g y = Some m"
  shows "(x, y) \<in> mo_order g \<longleftrightarrow> (n, m) \<in> mo_rel g"
  using assms by (auto simp: mo_order_def)

lemma mo_rel_path_order:
  assumes inv: "cg_inv g" and x: "getNode_noCreate g x = Some n"
  shows "(n, m) \<in> (mo_rel g)\<^sup>* \<Longrightarrow> \<exists>y. getNode_noCreate g y = Some m \<and> (x, y) \<in> (mo_order g)\<^sup>*"
proof (induction rule: rtrancl_induct)
  case base
  with x show ?case by blast
next
  case (step k m)
  then obtain y where y: "getNode_noCreate g y = Some k" "(x, y) \<in> (mo_order g)\<^sup>*" by blast
  have "m < cg_next g"
    using step.hyps(2) inv by (auto simp: mo_rel_def cg_inv_def dest: cg_wfD(5))
  then obtain z where z: "getNode_noCreate g z = Some m"
    using inv by (auto simp: cg_inv_def dest: tables_okD(3))
  with y step.hyps(2) have "(y, z) \<in> mo_order g" by (auto simp: mo_order_def)
  with y z show ?case by (meson rtrancl.rtrancl_into_rtrancl)
qed

lemma mo_order_path_rel:
  assumes tab: "tables_ok g" and x: "getNode_noCreate g x = Some n"
  shows "(x, y) \<in> (mo_order g)\<^sup>* \<Longrightarrow> \<exists>m. getNode_noCreate g y = Some m \<and> (n, m) \<in> (mo_rel g)\<^sup>*"
proof (induction rule: rtrancl_induct)
  case base
  with x show ?case by blast
next
  case (step y z)
  then obtain k where k: "getNode_noCreate g y = Some k" "(n, k) \<in> (mo_rel g)\<^sup>*" by blast
  from step.hyps(2) k obtain m where "getNode_noCreate g z = Some m" "(k, m) \<in> mo_rel g"
    by (auto simp: mo_order_def)
  with k show ?case by (meson rtrancl.rtrancl_into_rtrancl)
qed

lemma acyclic_mo_order:
  assumes inv: "cg_inv g"
  shows "acyclic (mo_order g) \<longleftrightarrow> acyclic (mo_rel g)"
proof -
  have tab: "tables_ok g" using inv by (simp add: cg_inv_def)
  have "\<exists>x. (x, x) \<in> (mo_order g)\<^sup>+" if "(n, n) \<in> (mo_rel g)\<^sup>+" for n
  proof -
    from that obtain k where k: "(n, k) \<in> mo_rel g" "(k, n) \<in> (mo_rel g)\<^sup>*" by (meson tranclD)
    from k(1) have "n < cg_next g" using inv by (auto simp: mo_rel_def cg_inv_def dest: cg_wfD(4))
    then obtain x where x: "getNode_noCreate g x = Some n" using tables_okD(3) [OF tab] by blast
    from k(1) have "k < cg_next g" using inv by (auto simp: mo_rel_def cg_inv_def dest: cg_wfD(5))
    then obtain y where y: "getNode_noCreate g y = Some k" using tables_okD(3) [OF tab] by blast
    from mo_rel_path_order [OF inv y k(2)] x have "(y, x) \<in> (mo_order g)\<^sup>*"
      using tables_okD(2) [OF tab] by blast
    moreover have "(x, y) \<in> mo_order g" using x y k by (auto simp: mo_order_def)
    ultimately show ?thesis by (meson rtrancl_into_trancl2)
  qed
  moreover have "\<exists>n. (n, n) \<in> (mo_rel g)\<^sup>+" if "(x, x) \<in> (mo_order g)\<^sup>+" for x
  proof -
    from that obtain y where y: "(x, y) \<in> mo_order g" "(y, x) \<in> (mo_order g)\<^sup>*" by (meson tranclD)
    then obtain n k where nk: "getNode_noCreate g x = Some n" "getNode_noCreate g y = Some k" "(n, k) \<in> mo_rel g"
      by (auto simp: mo_order_def)
    from mo_order_path_rel [OF tab nk(2) y(2)] nk have "(k, n) \<in> (mo_rel g)\<^sup>*" by auto
    with nk show ?thesis by (meson rtrancl_into_trancl2)
  qed
  ultimately show ?thesis unfolding acyclic_def by blast
qed

lemma checkReachable_correct:
  assumes inv: "cg_inv g"
  shows "checkReachable g x y =
    Some (getNode_noCreate g x \<noteq> None \<and> getNode_noCreate g y \<noteq> None \<and> (x, y) \<in> (mo_order g)\<^sup>*)"
proof (cases "getNode_noCreate g x")
  case None
  then show ?thesis by (simp add: checkReachable_def)
next
  case x: (Some n)
  show ?thesis
  proof (cases "getNode_noCreate g y")
    case None
    with x show ?thesis by (simp add: checkReachable_def)
  next
    case y: (Some m)
    have tab: "tables_ok g" and wf: "cg_wf g" using inv by (simp_all add: cg_inv_def)
    have "(n, m) \<in> (mo_rel g)\<^sup>* \<longleftrightarrow> (x, y) \<in> (mo_order g)\<^sup>*"
    proof
      assume "(n, m) \<in> (mo_rel g)\<^sup>*"
      from mo_rel_path_order [OF inv x this] tables_okD(2) [OF tab y]
      show "(x, y) \<in> (mo_order g)\<^sup>*" by blast
    next
      assume "(x, y) \<in> (mo_order g)\<^sup>*"
      from mo_order_path_rel [OF tab x this] y show "(n, m) \<in> (mo_rel g)\<^sup>*" by simp
    qed
    with x y checkReachable_nodes_correct [OF wf tables_okD(1) [OF tab x], of m] show ?thesis
      by (simp add: checkReachable_def)
  qed
qed

subsection \<open>Atomicity of read-modify-writes\<close>

text \<open>
  The RMW that reads from a store comes right after it: it is a successor in the graph, and
  every other successor of the store is ordered after the RMW.
\<close>

definition rmw_atomic :: "cycle_graph \<Rightarrow> bool" where
  "rmw_atomic g \<longleftrightarrow> rmw_rel g \<subseteq> mo_rel g \<and>
     (\<forall>a r z. (a, r) \<in> rmw_rel g \<and> (a, z) \<in> mo_rel g \<and> z \<noteq> r \<longrightarrow> (r, z) \<in> (mo_rel g)\<^sup>*)"

text \<open>The same without the demand that the RMW already is a successor, as inside \<open>addRMWEdge\<close>.\<close>

definition rmw_after :: "cycle_graph \<Rightarrow> bool" where
  "rmw_after g \<longleftrightarrow>
     (\<forall>a r z. (a, r) \<in> rmw_rel g \<and> (a, z) \<in> mo_rel g \<and> z \<noteq> r \<longrightarrow> (r, z) \<in> (mo_rel g)\<^sup>*)"

lemma edge_effect_mono: "edge_effect g f t g' \<Longrightarrow> insert (f, t) (mo_rel g) \<subseteq> mo_rel g'"
  by (auto simp: edge_effect_def mo_rel_def split: if_splits option.splits)

lemma edge_effect_rmw_after:
  assumes eff: "edge_effect g f t g'" and rmw: "rmw_rel g' = rmw_rel g" and after: "rmw_after g"
    and sub: "\<And>a r. (a, r) \<in> rmw_rel g \<Longrightarrow> (a, r) \<in> mo_rel g \<or> a = f \<and> r = t"
    and ends: "\<And>r. (f, r) \<in> rmw_rel g \<Longrightarrow> r = t \<Longrightarrow> getRMW g t = None"
  shows "rmw_after g'"
  unfolding rmw_after_def
proof (intro allI impI, elim conjE)
  fix a r z
  assume ar: "(a, r) \<in> rmw_rel g'" and az: "(a, z) \<in> mo_rel g'" and zr: "z \<noteq> r"
  note mono = edge_effect_mono [OF eff]
  have ft: "(f, t) \<in> mo_rel g'" using mono by blast
  have rmw_mo: "rmw_rel g \<subseteq> mo_rel g'" using sub ft mono by auto
  show "(r, z) \<in> (mo_rel g')\<^sup>*"
  proof (cases "(a, z) \<in> mo_rel g")
    case True
    with after ar zr rmw have "(r, z) \<in> (mo_rel g)\<^sup>*" unfolding rmw_after_def by blast
    with mono show ?thesis by (meson rtrancl_mono subset_insertI subset_iff subset_trans)
  next
    case False
    then have new: "t \<notin> set (edges g f)" and z: "z = t"
      using az eff by (auto simp: edge_effect_def mo_rel_def split: if_splits option.splits)
    show ?thesis
    proof (cases "a = f")
      case True
      with ar rmw have "(f, r) \<in> rmw_rel g" by simp
      then have r: "getRMW g f = Some r" by (simp add: rmw_rel_def)
      with eff new obtain m where m: "(r, m) \<in> (rmw_rel g)\<^sup>*"
          "m = t \<or> (m, t) \<in> mo_rel g'" by (auto simp: edge_effect_def)
      from m(1) rmw_mo have "(r, m) \<in> (mo_rel g')\<^sup>*" by (meson rtrancl_mono subset_iff)
      with m(2) z show ?thesis by (meson rtrancl.rtrancl_into_rtrancl)
    next
      case False
      with az z \<open>(a, z) \<notin> mo_rel g\<close> eff new obtain r' where r': "getRMW g f = Some r'" "getRMW g a = None"
        by (auto simp: edge_effect_def split: if_splits option.splits)
      moreover have "(a, r) \<in> rmw_rel g" using ar rmw by simp
      ultimately show ?thesis by (simp add: rmw_rel_def)
    qed
  qed
qed

lemma rmw_atomicI: "rmw_rel g \<subseteq> mo_rel g \<Longrightarrow> rmw_after g \<Longrightarrow> rmw_atomic g"
  by (simp add: rmw_atomic_def rmw_after_def)

lemma rmw_atomicD:
  assumes "rmw_atomic g"
  shows "rmw_after g" "rmw_rel g \<subseteq> mo_rel g"
  using assms unfolding rmw_atomic_def rmw_after_def by blast+

lemma rmw_rel_cong: "getRMW g' = getRMW g \<Longrightarrow> rmw_rel g' = rmw_rel g"
  by (simp add: rmw_rel_def)

lemma addNodeEdge_atomic:
  assumes "cg_wf g" "f < cg_next g" "t < cg_next g" "cg_sound g" "rmw_atomic g"
    and res: "addNodeEdge f t g = Some (b, g')"
  shows "rmw_atomic g'"
proof -
  from addNodeEdge_spec [OF assms(1-4)] res
  have eff: "edge_effect g f t g'" and rmw: "getRMW g' = getRMW g" by auto
  have sub: "rmw_rel g \<subseteq> mo_rel g" using assms(5) by (simp add: rmw_atomic_def)
  note mono = edge_effect_mono [OF eff]
  have "rmw_after g'"
  proof (cases "\<exists>r. (f, r) \<in> rmw_rel g \<and> r = t")
    case True
    then have "t \<in> set (edges g f)" using sub by (auto simp: mo_rel_def)
    with eff have "mo_rel g' = mo_rel g" by (simp add: edge_effect_def)
    with assms(5) show ?thesis
      unfolding rmw_atomic_def rmw_after_def rmw_rel_cong [OF rmw] by metis
  next
    case False
    show ?thesis
      by (rule edge_effect_rmw_after [OF eff rmw_rel_cong [OF rmw]])
         (use assms(5) False in \<open>auto simp: rmw_atomic_def rmw_after_def\<close>)
  qed
  moreover have "rmw_rel g' \<subseteq> mo_rel g'" using sub mono rmw_rel_cong [OF rmw] by auto
  ultimately show ?thesis by (rule rmw_atomicI [rotated])
qed

subsection \<open>Edges between objects\<close>

definition cg_good :: "cycle_graph \<Rightarrow> bool" where
  "cg_good g \<longleftrightarrow> cg_inv g \<and> rmw_atomic g"

lemma mo_order_cong:
  "mo_rel g' = mo_rel g \<Longrightarrow> actionToNode g' = actionToNode g \<Longrightarrow> promiseToNode g' = promiseToNode g \<Longrightarrow>
   mo_order g' = mo_order g"
  using noCreate_cong [of g' g] by (simp add: mo_order_def)

lemma getNode_mo_order:
  assumes inv: "cg_inv g" and gn: "getNode x g = (n, g')"
  shows "mo_order g' = mo_order g"
proof -
  have wf: "cg_wf g" using inv by (simp add: cg_inv_def)
  note s = getNode_spec [OF wf gn] and rel = getNode_inv(3) [OF inv gn]
  have "(k, m) \<notin> mo_rel g" if "getNode_noCreate g x = None" "k = n \<or> m = n" for k m
    using that s(12) cg_wfD(4,5) [OF wf] by (auto simp: mo_rel_def)
  then show ?thesis
    unfolding mo_order_def rel using s(9-11)
    by (auto; metis not_None_eq option.inject)
qed

lemma getNode_rmw_atomic:
  assumes inv: "cg_inv g" and gn: "getNode x g = (n, g')"
  shows "rmw_atomic g' = rmw_atomic g"
  using getNode_inv(3) [OF inv gn] getNode_spec(3) [OF _ gn] inv
  by (simp add: rmw_atomic_def rmw_rel_def cg_inv_def)

lemma two_nodes:
  assumes good: "cg_good g" and g1: "getNode x g = (n, g1)" and g2: "getNode y g1 = (m, g2)"
  shows "cg_good g2" "n < cg_next g2" "m < cg_next g2" "getNode_noCreate g2 x = Some n"
    "getNode_noCreate g2 y = Some m" "mo_order g2 = mo_order g" "mo_rel g2 = mo_rel g"
    "hasCycles g2 = hasCycles g" "edges g2 = edges g" "back_edges g2 = back_edges g"
    "getRMW g2 = getRMW g" "undoable g0 g2 = undoable g0 g"
proof -
  have inv: "cg_inv g" and wf: "cg_wf g" using good by (simp_all add: cg_good_def cg_inv_def)
  note i1 = getNode_inv [OF inv g1]
  then have wf1: "cg_wf g1" by (simp add: cg_inv_def)
  note i2 = getNode_inv [OF i1(1) g2] and s1 = getNode_spec [OF wf g1] and s2 = getNode_spec [OF wf1 g2]
  show "cg_good g2"
    using good i2 getNode_rmw_atomic [OF inv g1] getNode_rmw_atomic [OF i1(1) g2] by (simp add: cg_good_def)
  show "n < cg_next g2" using i1(2) s2(8) by simp
  show "getNode_noCreate g2 x = Some n"
    using s1(9) s2(9-11) by (cases "x = y") auto
  show "mo_order g2 = mo_order g"
    using getNode_mo_order [OF inv g1] getNode_mo_order [OF i1(1) g2] by simp
  show "undoable g0 g2 = undoable g0 g"
    using getNode_undoable [OF wf g1] getNode_undoable [OF wf1 g2] by simp
qed (use getNode_inv(2,3) [OF getNode_inv(1) [OF _ g1] g2] getNode_inv(3) [OF _ g1]
       getNode_spec [OF _ g1] getNode_spec [OF _ g2] getNode_inv(1) [OF _ g1] good
     in \<open>auto simp: cg_good_def cg_inv_def\<close>)

lemma addEdge_spec:
  assumes good: "cg_good g"
  shows "\<exists>b g'. addEdge x y g = Some (b, g') \<and> cg_good g' \<and> (b \<longleftrightarrow> (x, y) \<notin> mo_order g) \<and>
    insert (x, y) (mo_order g) \<subseteq> mo_order g' \<and>
    (hasCycles g' \<longleftrightarrow> hasCycles g \<or> \<not> acyclic (mo_order g')) \<and> getRMW g' = getRMW g \<and>
    ((\<forall>n. getRMW g n = None) \<longrightarrow> mo_order g' = insert (x, y) (mo_order g)) \<and>
    (undoable g0 g \<longrightarrow> undoable g0 g')"
proof -
  obtain n g1 where g1: "getNode x g = (n, g1)" by (cases "getNode x g")
  obtain m g2 where g2: "getNode y g1 = (m, g2)" by (cases "getNode y g1")
  note t = two_nodes [OF good g1 g2]
  have w: "cg_wf g2" "cg_sound g2" "tables_ok g2" "rmw_atomic g2"
    using t(1) by (simp_all add: cg_good_def cg_inv_def)
  from addNodeEdge_spec [OF w(1) t(2,3) w(2)] obtain b g' where
      res: "addNodeEdge n m g2 = Some (b, g')" and wf': "cg_wf g'" and sound': "cg_sound g'"
      and flag: "flag_exact g2 g'" and b: "b \<longleftrightarrow> m \<notin> set (edges g2 n)"
      and next': "cg_next g' = cg_next g2" and eff: "edge_effect g2 n m g'" and rmw': "getRMW g' = getRMW g2"
      and tabs: "actionToNode g' = actionToNode g2" "promiseToNode g' = promiseToNode g2" by blast
  have exact: "mo_order g' = insert (x, y) (mo_order g)" if "\<forall>n. getRMW g n = None"
  proof -
    have "mo_rel g' = insert (n, m) (mo_rel g2)"
      using eff that t(11) by (auto simp: edge_effect_def mo_rel_def split: if_splits)
    moreover have "getNode_noCreate g' z = getNode_noCreate g2 z" for z by (rule noCreate_cong [OF tabs])
    ultimately have "mo_order g' = insert (x, y) (mo_order g2)"
      using t(4,5) tables_okD(2) [OF w(3)] unfolding mo_order_def by auto
    with t(6) show ?thesis by simp
  qed
  have undo: "undoable g0 g \<longrightarrow> undoable g0 g'"
    using addNodeEdge_undoable [OF _ res, of g0] t(12) [of g0] by blast
  have tab': "tables_ok g'" using w(3) tables_ok_cong [OF tabs next'] by simp
  have nc: "getNode_noCreate g' z = getNode_noCreate g2 z" for z by (rule noCreate_cong [OF tabs])
  have good': "cg_good g'"
    using wf' sound' tab' addNodeEdge_atomic [OF w(1) t(2,3) w(2,4) res] by (simp add: cg_good_def cg_inv_def)
  have sub: "insert (x, y) (mo_order g) \<subseteq> mo_order g'"
    using edge_effect_mono [OF eff] t(4,5) unfolding t(6) [symmetric] unfolding mo_order_def nc by blast
  have "b \<longleftrightarrow> (x, y) \<notin> mo_order g"
    using b mo_order_iff [OF w(3) t(4,5)] t(6) by (simp add: mo_rel_def)
  moreover have "hasCycles g' \<longleftrightarrow> hasCycles g \<or> \<not> acyclic (mo_order g')"
    using flag acyclic_mo_order [of g'] good' t(8) by (simp add: flag_exact_def cg_good_def)
  moreover have "addEdge x y g = Some (b, g')"
    using g1 g2 res by (simp add: addEdge_def)
  moreover have "getRMW g' = getRMW g" using rmw' t(11) by simp
  ultimately show ?thesis using good' sub exact undo by blast
qed

subsection \<open>RMW edges\<close>

lemma rtrancl_no_pred: "(t, r) \<in> R\<^sup>* \<Longrightarrow> \<forall>x. (x, r) \<notin> R \<Longrightarrow> t = r"
  by (erule rtranclE) auto

text \<open>
  The transfer adds the edges without looking for cycles. That is safe when the RMW has no
  predecessor, or when there is nothing to transfer: the two cases the source comment names.
\<close>

lemma transfer_edges_spec:
  assumes "cg_wf g" "r < cg_next g" "\<forall>t \<in> set es. t < cg_next g"
    "es = [] \<or> (\<forall>x. (x, r) \<notin> mo_rel g)"
  shows "cg_wf (transfer_edges r es g) \<and> cg_next (transfer_edges r es g) = cg_next g \<and>
    getRMW (transfer_edges r es g) = getRMW g \<and> hasCycles (transfer_edges r es g) = hasCycles g \<and>
    mo_rel (transfer_edges r es g) = mo_rel g \<union> {(r, t) | t. t \<in> set es \<and> t \<noteq> r} \<and>
    (acyclic (mo_rel g) \<longrightarrow> acyclic (mo_rel (transfer_edges r es g))) \<and>
    actionToNode (transfer_edges r es g) = actionToNode g \<and>
    promiseToNode (transfer_edges r es g) = promiseToNode g"
  using assms
proof (induction es arbitrary: g)
  case Nil
  then show ?case by auto
next
  case (Cons t es)
  show ?case
  proof (cases "t = r")
    case True
    have "{(r, u) | u. u \<in> set (t # es) \<and> u \<noteq> r} = {(r, u) | u. u \<in> set es \<and> u \<noteq> r}"
      using True by auto
    moreover have "transfer_edges r (t # es) g = transfer_edges r es g" using True by simp
    moreover have "\<forall>t \<in> set es. t < cg_next g" "es = [] \<or> (\<forall>x. (x, r) \<notin> mo_rel g)"
      using Cons.prems by simp_all
    note Cons.IH [OF Cons.prems(1,2) this]
    ultimately show ?thesis by metis
  next
    case False
    obtain added g1 where g1: "node_addEdge r t g = (added, g1)" by (cases "node_addEdge r t g")
    note rd = node_addEdge_reads [OF g1]
    define h where "h = (if added then push_rollback r g1 else g1)"
    have wf1: "cg_wf h" using node_addEdge_wf [OF g1] Cons.prems by (simp add: h_def)
    have rel1: "mo_rel h = insert (r, t) (mo_rel g)" using node_addEdge_mo_rel [OF g1] by (simp add: h_def)
    have frame: "cg_next h = cg_next g" "getRMW h = getRMW g" "hasCycles h = hasCycles g"
      "actionToNode h = actionToNode g" "promiseToNode h = promiseToNode g"
      using rd by (simp_all add: h_def)
    have nopred: "\<forall>x. (x, r) \<notin> mo_rel g" using Cons.prems by simp
    have ac: "acyclic (mo_rel g) \<longrightarrow> acyclic (mo_rel h)"
      using rtrancl_no_pred [OF _ nopred, of t] False unfolding rel1 acyclic_insert by metis
    have eq: "transfer_edges r (t # es) g = transfer_edges r es h"
      using False g1 by (simp add: h_def)
    have "r < cg_next h" "\<forall>t \<in> set es. t < cg_next h" "es = [] \<or> (\<forall>x. (x, r) \<notin> mo_rel h)"
      using Cons.prems nopred False by (simp_all add: frame rel1)
    note IH = Cons.IH [OF wf1 this]
    have "mo_rel (transfer_edges r es h) = mo_rel g \<union> {(r, u) | u. u \<in> set (t # es) \<and> u \<noteq> r}"
      using IH False unfolding rel1 by auto
    with IH ac show ?thesis unfolding eq frame by blast
  qed
qed

lemma addRMWEdge_spec:
  assumes good: "cg_good g" and ne: "x \<noteq> ActObj rmw"
    and fresh: "\<And>n. actionToNode g rmw = Some n \<Longrightarrow> getRMW g n = None"
    and cases: "(\<forall>z. (z, ActObj rmw) \<notin> mo_order g) \<or> (\<forall>z. (x, z) \<notin> mo_order g)"
  shows "\<exists>g'. addRMWEdge x rmw g = Some g' \<and> cg_good g' \<and>
    insert (x, ActObj rmw) (mo_order g) \<subseteq> mo_order g' \<and>
    (\<forall>z. (x, z) \<in> mo_order g \<and> z \<noteq> ActObj rmw \<longrightarrow> (ActObj rmw, z) \<in> mo_order g') \<and>
    (\<forall>n. getNode_noCreate g x = Some n \<and> getRMW g n \<noteq> None \<longrightarrow> hasCycles g')"
proof -
  obtain f g1 where g1: "getNode x g = (f, g1)" by (cases "getNode x g")
  obtain r g2 where g2: "getNode (ActObj rmw) g1 = (r, g2)" by (cases "getNode (ActObj rmw) g1")
  note t = two_nodes [OF good g1 g2]
  have w: "cg_wf g2" "cg_sound g2" "tables_ok g2" "rmw_atomic g2"
    using t(1) by (simp_all add: cg_good_def cg_inv_def)
  have wf: "cg_wf g" and inv: "cg_inv g" using good by (simp_all add: cg_good_def cg_inv_def)
  have fr: "f \<noteq> r" using tables_okD(2) [OF w(3) t(4)] t(5) ne by blast
  have r_none: "getRMW g2 r = None"
  proof (cases "actionToNode g rmw")
    case None
    have "getNode_noCreate g1 (ActObj rmw) = None"
      using getNode_spec(10) [OF wf g1, of "ActObj rmw"] ne None by simp
    with getNode_spec(12) [of g1 _ r g2] g2 getNode_inv(1) [OF inv g1]
    have "r = cg_next g1" by (simp add: cg_inv_def)
    then have "cg_next g \<le> r" using getNode_spec(8) [OF wf g1] by simp
    with fresh_node(3) [OF wf] t(11) show ?thesis by simp
  next
    case (Some n)
    have "getNode_noCreate g1 (ActObj rmw) = Some n"
      using getNode_spec(10) [OF wf g1, of "ActObj rmw"] ne Some by simp
    with g2 have "r = n" by (simp add: getNode_def)
    with fresh [OF Some] t(11) show ?thesis by simp
  qed
  obtain taken g3 where g3: "node_setRMW f r g2 = (taken, g3)" by (cases "node_setRMW f r g2")
  define g4 where "g4 = (if taken then g3\<lparr>hasCycles := True\<rparr>
      else g3\<lparr>rmwrollbackvector := rmwrollbackvector g3 @ [f]\<rparr>)"
  have reads4: "edges g4 = edges g2" "back_edges g4 = back_edges g2" "cg_next g4 = cg_next g2"
      "actionToNode g4 = actionToNode g2" "promiseToNode g4 = promiseToNode g2"
      "getRMW g4 = (if taken then getRMW g2 else (getRMW g2)(f \<mapsto> r))" "hasCycles g4 = (taken \<or> hasCycles g2)"
      "taken \<longleftrightarrow> getRMW g2 f \<noteq> None"
    using g3 unfolding g4_def by (auto simp: node_setRMW_def node_reads fun_eq_iff split: if_splits)
  have rel4: "mo_rel g4 = mo_rel g2" by (simp add: mo_rel_def reads4)
  have rmw4: "rmw_rel g4 = (if taken then rmw_rel g2 else insert (f, r) (rmw_rel g2))"
    using reads4(8) by (auto simp: rmw_rel_def reads4(6) split: if_splits)
  have no_path: "(r, f) \<notin> (rmw_rel g2)\<^sup>*"
    using r_none fr by (metis (mono_tags, lifting) case_prodD converse_rtranclE mem_Collect_eq option.distinct(1) rmw_rel_def)
  have wf4: "cg_wf g4"
    using w(1) no_path t(2,3) unfolding cg_wf_def rmw4 reads4(1-3,6) by (auto simp: acyclic_insert)
  have sound4: "cg_sound g4" using w(2) by (auto simp: cg_sound_def rel4 reads4(7))
  define g5 where "g5 = transfer_edges r (edges g4 f) g4"
  have nc2: "(z, ActObj rmw) \<notin> mo_order g2 \<or> (x, z') \<notin> mo_order g2" for z z'
    using cases t(6) by auto
  have cases4: "edges g4 f = [] \<or> (\<forall>y. (y, r) \<notin> mo_rel g4)"
  proof (cases "edges g4 f")
    case (Cons z zs)
    then have fz: "(f, z) \<in> mo_rel g2" by (simp add: mo_rel_def reads4(1))
    then have "z < cg_next g2" using cg_wfD(5) [OF w(1)] by (simp add: mo_rel_def)
    then obtain oz where "getNode_noCreate g2 oz = Some z" using tables_okD(3) [OF w(3)] by blast
    with fz t(4) have ord: "(x, oz) \<in> mo_order g2" by (auto simp: mo_order_def)
    have "(y, r) \<notin> mo_rel g2" for y
    proof
      assume yr: "(y, r) \<in> mo_rel g2"
      then have "y < cg_next g2" using cg_wfD(4) [OF w(1)] by (simp add: mo_rel_def)
      then obtain oy where "getNode_noCreate g2 oy = Some y" using tables_okD(3) [OF w(3)] by blast
      with yr t(5) have "(oy, ActObj rmw) \<in> mo_order g2" by (auto simp: mo_order_def)
      with nc2 ord show False by blast
    qed
    then show ?thesis by (simp add: rel4)
  qed simp
  have es_lt: "\<forall>z \<in> set (edges g4 f). z < cg_next g4"
    using cg_wfD(5) [OF wf4] by blast
  from transfer_edges_spec [OF wf4 _ es_lt cases4] t(3) reads4(3)
  have s5: "cg_wf g5" "cg_next g5 = cg_next g2" "getRMW g5 = getRMW g4" "hasCycles g5 = hasCycles g4"
      "mo_rel g5 = mo_rel g2 \<union> {(r, z) | z. z \<in> set (edges g4 f) \<and> z \<noteq> r}"
      "acyclic (mo_rel g4) \<longrightarrow> acyclic (mo_rel g5)"
      "actionToNode g5 = actionToNode g2" "promiseToNode g5 = promiseToNode g2"
    unfolding g5_def by (auto simp: rel4 reads4)
  have sound5: "cg_sound g5" using sound4 s5(4,6) by (auto simp: cg_sound_def)
  have lt5: "f < cg_next g5" "r < cg_next g5" using t(2,3) s5(2) by simp_all
  from addNodeEdge_spec [OF s5(1) lt5 sound5] obtain b g' where
      res: "addNodeEdge f r g5 = Some (b, g')" and wf': "cg_wf g'" and sound': "cg_sound g'"
      and flag: "flag_exact g5 g'" and next': "cg_next g' = cg_next g5" and rmw': "getRMW g' = getRMW g5"
      and eff: "edge_effect g5 f r g'"
      and tabs: "actionToNode g' = actionToNode g5" "promiseToNode g' = promiseToNode g5" by blast
  have mono: "insert (f, r) (mo_rel g5) \<subseteq> mo_rel g'" by (rule edge_effect_mono [OF eff])
  have r5: "rmw_rel g5 = rmw_rel g4" "rmw_rel g' = rmw_rel g5"
    using s5(3) rmw' by (simp_all add: rmw_rel_def)
  have edges_f: "z \<in> set (edges g4 f) \<longleftrightarrow> (f, z) \<in> mo_rel g2" for z
    by (simp add: mo_rel_def reads4(1))
  have after2: "rmw_after g2" and sub2: "rmw_rel g2 \<subseteq> mo_rel g2"
    using rmw_atomicD [OF w(4)] by auto
  have after5: "rmw_after g5"
    unfolding rmw_after_def
  proof (intro allI impI, elim conjE)
    fix a q z assume aq: "(a, q) \<in> rmw_rel g5" and az: "(a, z) \<in> mo_rel g5" and zq: "z \<noteq> q"
    have a_not_r: "a \<noteq> r"
      using aq r_none fr unfolding r5 rmw4 by (auto simp: rmw_rel_def split: if_splits)
    with az have az2: "(a, z) \<in> mo_rel g2" by (auto simp: s5(5))
    show "(q, z) \<in> (mo_rel g5)\<^sup>*"
    proof (cases "(a, q) \<in> rmw_rel g2")
      case True
      with after2 az2 zq have "(q, z) \<in> (mo_rel g2)\<^sup>*" unfolding rmw_after_def by blast
      then show ?thesis unfolding s5(5) by (rule rev_subsetD [OF _ rtrancl_mono]) blast
    next
      case False
      with aq have "a = f" "q = r" unfolding r5 rmw4 by (auto split: if_splits)
      with az2 zq have "(r, z) \<in> mo_rel g5" unfolding s5(5) by (auto simp: edges_f)
      with \<open>q = r\<close> show ?thesis by blast
    qed
  qed
  have "rmw_after g'"
  proof (rule edge_effect_rmw_after [OF eff r5(2) after5])
    fix a q assume "(a, q) \<in> rmw_rel g5"
    with sub2 show "(a, q) \<in> mo_rel g5 \<or> a = f \<and> q = r"
      unfolding r5 rmw4 s5(5) by (auto split: if_splits)
  next
    show "getRMW g5 r = None" using r_none fr unfolding s5(3) reads4(6) by simp
  qed
  moreover have "rmw_rel g' \<subseteq> mo_rel g'"
    using sub2 mono unfolding r5(2) r5(1) rmw4 s5(5) by (auto split: if_splits)
  ultimately have atomic': "rmw_atomic g'" by (rule rmw_atomicI [rotated])
  have tabs2: "actionToNode g' = actionToNode g2" "promiseToNode g' = promiseToNode g2"
    using tabs s5(7,8) by simp_all
  have tab': "tables_ok g'"
    using w(3) tables_ok_cong [OF tabs2] next' s5(2) by simp
  have nc: "getNode_noCreate g' z = getNode_noCreate g2 z" for z by (rule noCreate_cong [OF tabs2])
  have good': "cg_good g'" using wf' sound' tab' atomic' by (simp add: cg_good_def cg_inv_def)
  have "insert (f, r) (mo_rel g2) \<subseteq> mo_rel g'" using mono unfolding s5(5) by blast
  then have sub: "insert (x, ActObj rmw) (mo_order g) \<subseteq> mo_order g'"
    using t(4,5) unfolding t(6) [symmetric] unfolding mo_order_def nc by blast
  have trans: "(ActObj rmw, z) \<in> mo_order g'" if "(x, z) \<in> mo_order g" "z \<noteq> ActObj rmw" for z
  proof -
    have "(x, z) \<in> mo_order g2" using that(1) t(6) by simp
    with t(4) obtain m where m: "getNode_noCreate g2 z = Some m" "(f, m) \<in> mo_rel g2"
      by (auto simp: mo_order_def)
    with that(2) t(5) have "m \<noteq> r" using tables_okD(2) [OF w(3)] by blast
    with m have "(r, m) \<in> mo_rel g5" unfolding s5(5) by (simp add: edges_f)
    with mono m t(5) show ?thesis unfolding mo_order_def nc by blast
  qed
  have conflict: "hasCycles g'" if "getNode_noCreate g x = Some n" "getRMW g n \<noteq> None" for n
  proof -
    have "f = n" using getNode_spec(11) [OF wf g1 that(1)] by simp
    with that(2) t(11) reads4(7,8) s5(4) flag show ?thesis by (simp add: flag_exact_def)
  qed
  have "addRMWEdge x rmw g = Some g'"
    using g1 g2 g3 r_none res unfolding addRMWEdge_def g5_def g4_def by (simp add: Let_def)
  with good' sub trans conflict show ?thesis by blast
qed

subsection \<open>Sequences of additions\<close>

fun addEdges :: "(mo_obj \<times> mo_obj) list \<Rightarrow> cycle_graph \<Rightarrow> cycle_graph option" where
  "addEdges [] g = Some g"
| "addEdges ((x, y) # es) g = do { (_, g) \<leftarrow> addEdge x y g; addEdges es g }"

lemma addEdges_append: "addEdges (xs @ ys) g = Option.bind (addEdges xs g) (addEdges ys)"
proof (induction xs arbitrary: g)
  case Nil
  then show ?case by simp
next
  case (Cons e xs)
  then show ?case by (cases e) (simp add: split_def)
qed

lemma addEdges_spec:
  "cg_good g \<Longrightarrow> hasCycles g \<longleftrightarrow> \<not> acyclic (mo_order g) \<Longrightarrow>
   \<exists>g'. addEdges es g = Some g' \<and> cg_good g' \<and> set es \<union> mo_order g \<subseteq> mo_order g' \<and>
     (hasCycles g' \<longleftrightarrow> \<not> acyclic (mo_order g')) \<and>
     ((\<forall>n. getRMW g n = None) \<longrightarrow> mo_order g' = set es \<union> mo_order g) \<and>
     (undoable g0 g \<longrightarrow> undoable g0 g')"
proof (induction es arbitrary: g)
  case Nil
  then show ?case by auto
next
  case (Cons e es)
  obtain x y where e: "e = (x, y)" by (cases e)
  from addEdge_spec [OF Cons.prems(1), of x y g0] obtain b g1 where
      g1: "addEdge x y g = Some (b, g1)" "cg_good g1" "insert (x, y) (mo_order g) \<subseteq> mo_order g1"
      and fl: "hasCycles g1 \<longleftrightarrow> hasCycles g \<or> \<not> acyclic (mo_order g1)"
      and r1: "getRMW g1 = getRMW g"
      and ex1: "(\<forall>n. getRMW g n = None) \<longrightarrow> mo_order g1 = insert (x, y) (mo_order g)"
      and u1: "undoable g0 g \<longrightarrow> undoable g0 g1" by blast
  have "acyclic (mo_order g)" if "acyclic (mo_order g1)"
    using that g1(3) by (meson acyclic_subset insert_subset)
  with fl Cons.prems(2) have "hasCycles g1 \<longleftrightarrow> \<not> acyclic (mo_order g1)" by blast
  from Cons.IH [OF g1(2) this] obtain g' where g': "addEdges es g1 = Some g'" "cg_good g'"
      "set es \<union> mo_order g1 \<subseteq> mo_order g'" "hasCycles g' \<longleftrightarrow> \<not> acyclic (mo_order g')"
      "(\<forall>n. getRMW g1 n = None) \<longrightarrow> mo_order g' = set es \<union> mo_order g1"
      "undoable g0 g1 \<longrightarrow> undoable g0 g'" by blast
  have "addEdges (e # es) g = Some g'" using e g1(1) g'(1) by simp
  moreover have "set (e # es) \<union> mo_order g \<subseteq> mo_order g'" using g1(3) g'(3) e by auto
  moreover have "(\<forall>n. getRMW g n = None) \<longrightarrow> mo_order g' = set (e # es) \<union> mo_order g"
    using ex1 g'(5) r1 e by auto
  ultimately show ?case using g'(2,4,6) u1 by blast
qed

lemma startChanges_Some:
  "startChanges g = Some g1 \<longleftrightarrow>
     g1 = g \<and> rollbackvector g = [] \<and> rmwrollbackvector g = [] \<and> oldCycles g = hasCycles g"
  by (auto simp: startChanges_def)

lemma startChanges_undoable: "cg_wf g \<Longrightarrow> startChanges g = Some g1 \<Longrightarrow> undoable g1 g1"
  by (auto simp: startChanges_Some undoable_def tracked_refl mirrored_cg_wf)

text \<open>
  Transactions of both kinds of additions. Nodes within the allocated ones are all that undoing
  needs: the recorded changes are undone whatever cycles or conflicting RMWs they made.
\<close>

datatype graph_change = Add_Edge mo_obj mo_obj | Add_RMW mo_obj act_ptr

fun addChanges :: "graph_change list \<Rightarrow> cycle_graph \<Rightarrow> cycle_graph option" where
  "addChanges [] g = Some g"
| "addChanges (Add_Edge x y # cs) g = do { (_, g) \<leftarrow> addEdge x y g; addChanges cs g }"
| "addChanges (Add_RMW x rmw # cs) g = do { g \<leftarrow> addRMWEdge x rmw g; addChanges cs g }"

definition cg_alloc :: "cycle_graph \<Rightarrow> bool" where
  "cg_alloc g \<longleftrightarrow> (\<forall>n. cg_next g \<le> n \<longrightarrow> edges g n = [] \<and> back_edges g n = [] \<and> getRMW g n = None) \<and>
     (\<forall>a b. getRMW g a = Some b \<longrightarrow> b < cg_next g) \<and>
     (\<forall>x n. getNode_noCreate g x = Some n \<longrightarrow> n < cg_next g)"

lemma cg_inv_alloc: "cg_inv g \<Longrightarrow> cg_alloc g"
  unfolding cg_alloc_def using fresh_node [of g] cg_wfD(7) [of g] tables_okD(1) [of g]
  by (auto simp: cg_inv_def)

lemma cg_alloc_cong:
  "edges g' = edges g \<Longrightarrow> back_edges g' = back_edges g \<Longrightarrow> getRMW g' = getRMW g \<Longrightarrow>
   cg_next g' = cg_next g \<Longrightarrow> actionToNode g' = actionToNode g \<Longrightarrow> promiseToNode g' = promiseToNode g \<Longrightarrow>
   cg_alloc g' = cg_alloc g"
  using noCreate_cong [of g' g] by (simp add: cg_alloc_def)

lemma cg_alloc_flags [simp]:
  "cg_alloc (g\<lparr>hasCycles := c\<rparr>) = cg_alloc g" "cg_alloc (push_rollback n g) = cg_alloc g"
  "cg_alloc (g\<lparr>rmwrollbackvector := v\<rparr>) = cg_alloc g"
proof -
  show "cg_alloc (push_rollback n g) = cg_alloc g"
    by (rule cg_alloc_cong; simp; simp add: push_rollback_def)
qed (rule cg_alloc_cong; simp)+

lemma node_addEdge_alloc:
  assumes g: "node_addEdge a b g = (added, g')" and al: "cg_alloc g" and ab: "a < cg_next g" "b < cg_next g"
  shows "cg_alloc g' \<and> cg_next g' = cg_next g"
proof -
  note r = node_addEdge_reads [OF g]
  show ?thesis
    using al ab noCreate_cong [OF r(10,11)] unfolding cg_alloc_def r(2-5) by auto
qed

lemma rmw_chain_alloc:
  assumes "rmw_chain g t n = Some m" "cg_alloc g" "n < cg_next g"
  shows "m < cg_next g"
  using assms
proof (induction rule: rmw_chain.raw_induct [rotated, consumes 1, case_names step])
  case (step rec g t n m)
  show ?case
  proof (cases "n \<noteq> t \<and> getRMW g n \<noteq> None")
    case True
    then obtain k where k: "getRMW g n = Some k" by auto
    with step.prems(1) have "k < cg_next g" by (auto simp: cg_alloc_def)
    with step True k show ?thesis by simp
  next
    case False
    with step show ?thesis by (auto split: if_splits)
  qed
qed

lemma addNodeEdge_alloc:
  assumes al: "cg_alloc g" and ft: "f < cg_next g" "t < cg_next g" and res: "addNodeEdge f t g = Some (b, g')"
  shows "cg_alloc g'"
proof -
  obtain added g1 where g1: "node_addEdge f t g = (added, g1)" by (cases "node_addEdge f t g")
  note a1 = node_addEdge_alloc [OF g1 al ft]
  show ?thesis
  proof (cases added)
    case False
    with a1 res g1 show ?thesis by (simp add: addNodeEdge_def)
  next
    case True
    with res g1 obtain g2 where g2: "detect_cycle t f (push_rollback f g1) = Some g2"
      by (auto simp: addNodeEdge_def bind_eq_Some_conv)
    then obtain c where c: "g2 = (push_rollback f g1)\<lparr>hasCycles := c\<rparr>" by (blast dest: detect_cycle_cases)
    have a2: "cg_alloc g2" and n2: "cg_next g2 = cg_next g" using a1 by (simp_all add: c)
    show ?thesis
    proof (cases "getRMW g2 f")
      case None
      with res g1 g2 True a2 show ?thesis by (simp add: addNodeEdge_def)
    next
      case (Some r)
      with res g1 g2 True obtain m where m: "rmw_chain g2 t r = Some m"
        by (auto simp: addNodeEdge_def bind_eq_Some_conv)
      have "r < cg_next g2" using a2 Some by (auto simp: cg_alloc_def)
      with m a2 have m_lt: "m < cg_next g2" by (rule rmw_chain_alloc)
      obtain added' g3 where g3: "node_addEdge m t g2 = (added', g3)" by (cases "node_addEdge m t g2")
      have a3: "cg_alloc g3" using node_addEdge_alloc [OF g3 a2 m_lt] ft n2 by simp
      have "g' = g2 \<or> g' = g3 \<or> (\<exists>g4. detect_cycle t m g3 = Some g4 \<and> g' = push_rollback m g4)"
        using res g1 g2 True Some m g3 by (auto simp: addNodeEdge_def bind_eq_Some_conv split: if_splits)
      with a2 a3 show ?thesis by (auto dest: detect_cycle_cases)
    qed
  qed
qed

lemma transfer_edges_alloc:
  "cg_alloc g \<Longrightarrow> r < cg_next g \<Longrightarrow> \<forall>t \<in> set es. t < cg_next g \<Longrightarrow>
   cg_alloc (transfer_edges r es g) \<and> cg_next (transfer_edges r es g) = cg_next g"
proof (induction r es g rule: transfer_edges.induct)
  case (1 r g)
  then show ?case by simp
next
  case (2 r t es g)
  obtain added g1 where g1: "node_addEdge r t g = (added, g1)" by (cases "node_addEdge r t g")
  have "cg_alloc g1 \<and> cg_next g1 = cg_next g"
    using node_addEdge_alloc [OF g1 "2.prems"(1)] "2.prems"(2,3) by simp
  with 2 g1 show ?case by (auto simp: Let_def)
qed

lemma getNode_alloc:
  assumes al: "cg_alloc g" and gn: "getNode x g = (n, g')"
  shows "cg_alloc g'" "n < cg_next g'" "cg_next g \<le> cg_next g'" "undoable g0 g' = undoable g0 g"
proof -
  have "cg_alloc g' \<and> n < cg_next g' \<and> cg_next g \<le> cg_next g' \<and> undoable g0 g' = undoable g0 g"
  proof (cases "getNode_noCreate g x")
    case (Some m)
    with gn al show ?thesis by (auto simp: getNode_def cg_alloc_def)
  next
    case None
    have empty: "cn_edges (new_node x) = []" "cn_back_edges (new_node x) = []" "cn_hasRMW (new_node x) = None"
      by (cases x; simp add: new_action_node_def new_promise_node_def)+
    have fresh: "edges g (cg_next g) = []" "back_edges g (cg_next g) = []" "getRMW g (cg_next g) = None"
      using al by (simp_all add: cg_alloc_def)
    have reads: "edges g' = edges g" "back_edges g' = back_edges g" "getRMW g' = getRMW g"
      using gn None empty fresh by (auto simp: getNode_def node_reads fun_eq_iff)
    have new: "n = cg_next g" "cg_next g' = Suc (cg_next g)" "rollbackvector g' = rollbackvector g"
        "rmwrollbackvector g' = rmwrollbackvector g" "oldCycles g' = oldCycles g"
      using gn None by (auto simp: getNode_def)
    have nc: "getNode_noCreate g' y = (if y = x then Some (cg_next g) else getNode_noCreate g y)" for y
      using gn None by (auto simp: getNode_def noCreate_putNode)
    have "cg_alloc g'"
      using al unfolding cg_alloc_def reads new(2) nc by (auto intro: less_SucI)
    moreover have "undoable g0 g' = undoable g0 g" by (rule undoable_cong) (simp_all add: reads new)
    ultimately show ?thesis using new by simp
  qed
  then show "cg_alloc g'" "n < cg_next g'" "cg_next g \<le> cg_next g'" "undoable g0 g' = undoable g0 g"
    by simp_all
qed

lemma addEdge_change:
  assumes "cg_alloc g" "undoable g0 g" "addEdge x y g = Some (b, g')"
  shows "cg_alloc g' \<and> undoable g0 g'"
proof -
  obtain n g1 where g1: "getNode x g = (n, g1)" by (cases "getNode x g")
  obtain m g2 where g2: "getNode y g1 = (m, g2)" by (cases "getNode y g1")
  note a1 = getNode_alloc [OF assms(1) g1] note a2 = getNode_alloc [OF a1(1) g2]
  have "addNodeEdge n m g2 = Some (b, g')" using assms(3) g1 g2 by (simp add: addEdge_def)
  moreover have "n < cg_next g2" using a1(2) a2(3) by simp
  ultimately show ?thesis
    using addNodeEdge_alloc [OF a2(1) _ a2(2)] addNodeEdge_undoable assms(2) a1(4) a2(4) by blast
qed

lemma setRMW_undoable:
  assumes u: "undoable g0 g" and s: "node_setRMW f r g = (taken, g')"
  shows "undoable g0 (if taken then g'\<lparr>hasCycles := True\<rparr>
           else g'\<lparr>rmwrollbackvector := rmwrollbackvector g' @ [f]\<rparr>)"
proof (cases taken)
  case True
  with s u show ?thesis by (auto simp: node_setRMW_def split: if_splits)
next
  case False
  with s have none: "getRMW g f = None" and g': "g' = upd_node f (\<lambda>n. n\<lparr>cn_hasRMW := Some r\<rparr>) g"
    by (auto simp: node_setRMW_def split: if_splits)
  let ?h = "g'\<lparr>rmwrollbackvector := rmwrollbackvector g' @ [f]\<rparr>"
  have reads: "edges ?h = edges g" "back_edges ?h = back_edges g" "getRMW ?h = (getRMW g)(f \<mapsto> r)"
      "rollbackvector ?h = rollbackvector g" "oldCycles ?h = oldCycles g"
      "rmwrollbackvector ?h = rmwrollbackvector g @ [f]"
    by (auto simp: g' node_reads fun_eq_iff upd_node_def)
  have "getRMW g0 f = None" using u none unfolding undoable_def by metis
  then have "undoable g0 ?h"
    using u unfolding undoable_def reads tracked_cong [OF reads(1,2)] by auto
  with False show ?thesis by simp
qed

lemma addRMWEdge_change:
  assumes al: "cg_alloc g" and u: "undoable g0 g" and res: "addRMWEdge x rmw g = Some g'"
  shows "cg_alloc g' \<and> undoable g0 g'"
proof -
  obtain f g1 where g1: "getNode x g = (f, g1)" by (cases "getNode x g")
  obtain r g2 where g2: "getNode (ActObj rmw) g1 = (r, g2)" by (cases "getNode (ActObj rmw) g1")
  note a1 = getNode_alloc [OF al g1] note a2 = getNode_alloc [OF a1(1) g2]
  obtain taken g3 where g3: "node_setRMW f r g2 = (taken, g3)" by (cases "node_setRMW f r g2")
  define g4 where "g4 = (if taken then g3\<lparr>hasCycles := True\<rparr>
      else g3\<lparr>rmwrollbackvector := rmwrollbackvector g3 @ [f]\<rparr>)"
  define g5 where "g5 = transfer_edges r (edges g4 f) g4"
  have lt: "f < cg_next g2" "r < cg_next g2" using a1(2) a2(2,3) by simp_all
  have reads4: "edges g4 = edges g2" "back_edges g4 = back_edges g2" "cg_next g4 = cg_next g2"
      "actionToNode g4 = actionToNode g2" "promiseToNode g4 = promiseToNode g2"
      "getRMW g4 = (if taken then getRMW g2 else (getRMW g2)(f \<mapsto> r))"
    using g3 unfolding g4_def by (auto simp: node_setRMW_def node_reads fun_eq_iff split: if_splits)
  have al4: "cg_alloc g4"
    using a2(1) lt noCreate_cong [OF reads4(4,5)] unfolding cg_alloc_def reads4(1,2,3,6) by auto
  have u4: "undoable g0 g4"
    unfolding g4_def using u a1(4) a2(4) by (intro setRMW_undoable [OF _ g3]) simp
  have "t < cg_next g4" if "t \<in> set (edges g4 f)" for t
  proof (rule ccontr)
    assume "\<not> t < cg_next g4"
    then have "back_edges g4 t = []" using al4 by (simp add: cg_alloc_def)
    moreover have "mirrored g4" using u4 by (simp add: undoable_def tracked_def)
    ultimately show False using that mirroredD(1) [of g4 t f] by simp
  qed
  then have al5: "cg_alloc g5 \<and> cg_next g5 = cg_next g4"
    unfolding g5_def using al4 lt reads4(3) by (intro transfer_edges_alloc) auto
  have u5: "undoable g0 g5" unfolding g5_def by (rule transfer_edges_undoable [OF u4])
  obtain b where b: "addNodeEdge f r g5 = Some (b, g')"
    using g1 g2 g3 res unfolding addRMWEdge_def g5_def g4_def
    by (auto simp: Let_def bind_eq_Some_conv split: if_splits)
  with al5 u5 lt reads4(3) addNodeEdge_alloc [of g5 f r b g'] addNodeEdge_undoable [OF u5 b] show ?thesis
    by simp
qed

lemma addChanges_undoable:
  "cg_alloc g \<Longrightarrow> undoable g0 g \<Longrightarrow> addChanges cs g = Some g' \<Longrightarrow> cg_alloc g' \<and> undoable g0 g'"
proof (induction cs g rule: addChanges.induct)
  case (1 g)
  then show ?case by simp
next
  case (2 x y cs g)
  from "2.prems"(3) obtain b g1 where "addEdge x y g = Some (b, g1)" "addChanges cs g1 = Some g'"
    by (auto simp: bind_eq_Some_conv)
  with addEdge_change [OF "2.prems"(1,2)] "2.IH" show ?case by auto
next
  case (3 x rmw cs g)
  from "3.prems"(3) obtain g1 where "addRMWEdge x rmw g = Some g1" "addChanges cs g1 = Some g'"
    by (auto simp: bind_eq_Some_conv)
  with addRMWEdge_change [OF "3.prems"(1,2)] "3.IH" show ?case by auto
qed

subsection \<open>Promises and the graph\<close>

lemma checkPromise_loop:
  assumes N: "finite N" "\<And>x. x \<in> N \<Longrightarrow> set (edges g x) \<subseteq> N"
  shows "disc \<subseteq> N \<Longrightarrow> set q \<subseteq> disc \<Longrightarrow>
    \<forall>x \<in> disc - set q. set (edges g x) \<subseteq> disc \<and> cn_promise (cg_nodes g x) \<noteq> Some p \<Longrightarrow>
    \<forall>x \<in> disc - set q. \<forall>a. cn_action (cg_nodes g x) = Some a \<longrightarrow> \<not> thread_is_available pr (tid_of a) \<Longrightarrow>
    promise_inv pr \<Longrightarrow>
    \<exists>b pr'. promise_loop g tid_of p disc q pr = Some (b, pr') \<and> promise_inv pr' \<and>
      (b \<longleftrightarrow> (\<exists>x \<in> disc. \<exists>y. (x, y) \<in> (mo_rel g)\<^sup>* \<and> cn_promise (cg_nodes g y) = Some p)) \<and>
      (\<forall>t. thread_is_available pr' t \<longrightarrow> thread_is_available pr t) \<and>
      (\<not> b \<longrightarrow> (\<forall>x \<in> disc. \<forall>y a. (x, y) \<in> (mo_rel g)\<^sup>* \<and> cn_action (cg_nodes g y) = Some a
                  \<longrightarrow> \<not> thread_is_available pr' (tid_of a))) \<and>
      (\<forall>t. thread_is_available pr t \<and> \<not> thread_is_available pr' t \<longrightarrow>
         (\<exists>x \<in> disc. \<exists>y a. (x, y) \<in> (mo_rel g)\<^sup>* \<and> cn_action (cg_nodes g y) = Some a \<and> tid_of a = t))"
proof (induction "card (N - disc) + length q" arbitrary: disc q pr rule: less_induct)
  case less
  show ?case
  proof (cases q)
    case Nil
    have closed: "(x, y) \<in> (mo_rel g)\<^sup>* \<Longrightarrow> x \<in> disc \<Longrightarrow> y \<in> disc" for x y
      by (induction rule: rtrancl_induct) (use less.prems(3) Nil in \<open>auto simp: mo_rel_def\<close>)
    have "promise_loop g tid_of p disc q pr = Some (False, pr)"
      using Nil by (subst promise_loop.simps) simp
    moreover have "\<not> (\<exists>x \<in> disc. \<exists>y. (x, y) \<in> (mo_rel g)\<^sup>* \<and> cn_promise (cg_nodes g y) = Some p)"
      using closed less.prems(3) Nil by (metis Diff_empty list.set(1))
    moreover have "\<forall>x \<in> disc. \<forall>y a. (x, y) \<in> (mo_rel g)\<^sup>* \<and> cn_action (cg_nodes g y) = Some a
                  \<longrightarrow> \<not> thread_is_available pr (tid_of a)"
      using closed less.prems(4) Nil by (metis Diff_empty list.set(1))
    ultimately show ?thesis using less.prems(5) by blast
  next
    case (Cons node q')
    have node: "node \<in> disc" "node \<in> N" using Cons less.prems by auto
    show ?thesis
    proof (cases "cn_promise (cg_nodes g node) = Some p")
      case True
      then have "promise_loop g tid_of p disc q pr = Some (True, pr)"
        using Cons by (subst promise_loop.simps) simp
      moreover have "\<exists>x \<in> disc. \<exists>y. (x, y) \<in> (mo_rel g)\<^sup>* \<and> cn_promise (cg_nodes g y) = Some p"
        using True node by blast
      ultimately show ?thesis using less.prems(5) by (intro exI [of _ True] exI [of _ pr]) simp
    next
      case False
      obtain disc' q'' where d: "discover (edges g node) disc q' = (disc', q'')"
        by (cases "discover (edges g node) disc q'")
      define pr1 where "pr1 = (case cn_action (cg_nodes g node) of
          Some a \<Rightarrow> snd (eliminate_thread (tid_of a) pr) | None \<Rightarrow> pr)"
      have pr1: "promise_inv pr1" "thread_is_available pr1 t \<Longrightarrow> thread_is_available pr t"
          "cn_action (cg_nodes g node) = Some a \<Longrightarrow> \<not> thread_is_available pr1 (tid_of a)"
          "thread_is_available pr t \<Longrightarrow> \<not> thread_is_available pr1 t \<Longrightarrow>
             \<exists>a. cn_action (cg_nodes g node) = Some a \<and> tid_of a = t" for t a
        using less.prems(5) unfolding pr1_def
        by (auto simp: eliminate_thread_inv eliminate_thread_available split: option.splits)
      note ds = discover_spec [OF d]
      have smaller: "card (N - disc') + length q'' < card (N - disc) + length q"
        using discover_measure [OF d N(1) N(2) [OF node(2)]] Cons by simp
      have sub: "disc' \<subseteq> N" "set q'' \<subseteq> disc'"
        using ds less.prems N(2) [OF node(2)] Cons by auto
      have old: "x = node \<or> x \<in> disc - set q" if "x \<in> disc' - set q''" for x
        using that ds Cons by auto
      have c1: "\<forall>x \<in> disc' - set q''. set (edges g x) \<subseteq> disc' \<and> cn_promise (cg_nodes g x) \<noteq> Some p"
        using old less.prems(3) ds False by blast
      have c2: "\<forall>x \<in> disc' - set q''. \<forall>a. cn_action (cg_nodes g x) = Some a \<longrightarrow> \<not> thread_is_available pr1 (tid_of a)"
        using old less.prems(4) pr1 by blast
      from less.hyps [OF smaller sub c1 c2 pr1(1)] obtain b pr' where
          res: "promise_loop g tid_of p disc' q'' pr1 = Some (b, pr')" "promise_inv pr'"
          and b: "b \<longleftrightarrow> (\<exists>x \<in> disc'. \<exists>y. (x, y) \<in> (mo_rel g)\<^sup>* \<and> cn_promise (cg_nodes g y) = Some p)"
          and av: "\<forall>t. thread_is_available pr' t \<longrightarrow> thread_is_available pr1 t"
          and nb: "\<not> b \<longrightarrow> (\<forall>x \<in> disc'. \<forall>y a. (x, y) \<in> (mo_rel g)\<^sup>* \<and> cn_action (cg_nodes g y) = Some a
                  \<longrightarrow> \<not> thread_is_available pr' (tid_of a))"
          and ub: "\<forall>t. thread_is_available pr1 t \<and> \<not> thread_is_available pr' t \<longrightarrow>
            (\<exists>x \<in> disc'. \<exists>y a. (x, y) \<in> (mo_rel g)\<^sup>* \<and> cn_action (cg_nodes g y) = Some a \<and> tid_of a = t)"
        by blast
      have reach: "\<exists>x' \<in> disc. (x', y) \<in> (mo_rel g)\<^sup>*" if "x \<in> disc'" "(x, y) \<in> (mo_rel g)\<^sup>*" for x y
      proof (cases "x \<in> disc")
        case True
        with that show ?thesis by blast
      next
        case False
        with that(1) ds have "(node, x) \<in> mo_rel g" by (simp add: mo_rel_def)
        with that(2) node show ?thesis by (meson converse_rtrancl_into_rtrancl)
      qed
      have "disc \<subseteq> disc'" using ds by blast
      have eq: "promise_loop g tid_of p disc q pr = Some (b, pr')"
        using Cons False d res(1) by (subst promise_loop.simps) (simp add: Let_def pr1_def)
      show ?thesis
      proof (intro exI conjI)
        show "promise_loop g tid_of p disc q pr = Some (b, pr')" by (rule eq)
        show "promise_inv pr'" by (rule res)
        show "b \<longleftrightarrow> (\<exists>x \<in> disc. \<exists>y. (x, y) \<in> (mo_rel g)\<^sup>* \<and> cn_promise (cg_nodes g y) = Some p)"
          unfolding b using reach \<open>disc \<subseteq> disc'\<close> by blast
        show "\<forall>t. thread_is_available pr' t \<longrightarrow> thread_is_available pr t" using av pr1(2) by blast
        show "\<not> b \<longrightarrow> (\<forall>x \<in> disc. \<forall>y a. (x, y) \<in> (mo_rel g)\<^sup>* \<and> cn_action (cg_nodes g y) = Some a
                  \<longrightarrow> \<not> thread_is_available pr' (tid_of a))"
          using nb \<open>disc \<subseteq> disc'\<close> by blast
        show "\<forall>t. thread_is_available pr t \<and> \<not> thread_is_available pr' t \<longrightarrow>
            (\<exists>x \<in> disc. \<exists>y a. (x, y) \<in> (mo_rel g)\<^sup>* \<and> cn_action (cg_nodes g y) = Some a \<and> tid_of a = t)"
          using ub reach pr1(4) node(1) by (metis rtrancl.rtrancl_refl)
      qed
    qed
  qed
qed

lemma acyclic_empty [simp]: "acyclic {}"
  by (simp add: acyclic_def)

text \<open>A well-formed graph whose cycle flag is exact.\<close>

definition graph_ok :: "cycle_graph \<Rightarrow> bool" where
  "graph_ok g \<longleftrightarrow> cg_good g \<and> (hasCycles g \<longleftrightarrow> \<not> acyclic (mo_order g))"

lemma new_cycle_graph_good: "cg_good new_cycle_graph"
proof -
  have "rmw_rel new_cycle_graph = {}"
    by (simp add: rmw_rel_def new_cycle_graph_def node_reads empty_node_def)
  then show ?thesis by (simp add: cg_good_def new_cycle_graph_inv rmw_atomic_def)
qed

lemma new_cycle_graph_order [simp]: "mo_order new_cycle_graph = {}"
  by (auto simp: mo_order_def mo_rel_def new_cycle_graph_def node_reads empty_node_def)

lemma new_cycle_graph_rmw [simp]: "getRMW new_cycle_graph n = None" "hasCycles new_cycle_graph = False"
  by (simp_all add: new_cycle_graph_def node_reads empty_node_def)

lemma addEdges_new:
  "\<exists>g. addEdges es new_cycle_graph = Some g \<and> cg_good g \<and> mo_order g = set es \<and>
     (hasCycles g \<longleftrightarrow> \<not> acyclic (set es))"
  using addEdges_spec [OF new_cycle_graph_good, of es new_cycle_graph] by auto

subsection \<open>Properties\<close>

text \<open>
  C14: on every graph built by edge additions the depth-first search of \<open>checkReachable\<close>
  returns, and it decides reachability in the recorded order between the two objects.
\<close>

theorem checkReachable_decides:
  assumes "addEdges es new_cycle_graph = Some g"
  shows "checkReachable g x y =
    Some (getNode_noCreate g x \<noteq> None \<and> getNode_noCreate g y \<noteq> None \<and> (x, y) \<in> (set es)\<^sup>*)"
proof -
  from addEdges_new [of es] assms have "cg_inv g" "mo_order g = set es" by (auto simp: cg_good_def)
  with checkReachable_correct [of g x y] show ?thesis by simp
qed

theorem checkReachable_decides_witness:
  "\<exists>g. addEdges [(ActObj 1, ActObj 2), (ActObj 2, PromObj 0)] new_cycle_graph = Some g \<and>
     checkReachable g (ActObj 1) (PromObj 0) =
       Some (getNode_noCreate g (ActObj 1) \<noteq> None \<and> getNode_noCreate g (PromObj 0) \<noteq> None \<and>
             (ActObj 1, PromObj 0) \<in> (set [(ActObj 1, ActObj 2), (ActObj 2, PromObj 0)])\<^sup>*)"
proof -
  obtain g where "addEdges [(ActObj 1, ActObj 2), (ActObj 2, PromObj 0)] new_cycle_graph = Some g"
    using addEdges_new [of "[(ActObj 1, ActObj 2), (ActObj 2, PromObj 0)]"] by blast
  with checkReachable_decides [OF this] show ?thesis by blast
qed

text \<open>
  C1: the graph is a decision procedure for consistency of the modification order: starting
  from the empty graph, adding any list of edges returns, records exactly these edges, and
  leaves \<open>checkForCycles\<close> true exactly when the edges have a cycle.
\<close>

theorem mo_graph_decides_acyclicity:
  "\<exists>g. addEdges es new_cycle_graph = Some g \<and> mo_order g = set es \<and>
     (checkForCycles g \<longleftrightarrow> \<not> acyclic (set es))"
  using addEdges_new [of es] by (auto simp: checkForCycles_def)

lemma rollback_to_start:
  assumes u: "undoable g0 g'" and start: "startChanges g0 = Some g"
  shows "edges (rollbackChanges g') = edges g0 \<and> back_edges (rollbackChanges g') = back_edges g0 \<and>
    getRMW (rollbackChanges g') = getRMW g0 \<and> hasCycles (rollbackChanges g') = hasCycles g0 \<and>
    startChanges (rollbackChanges g') \<noteq> None"
proof -
  have "oldCycles g0 = hasCycles g0" using start by (simp add: startChanges_Some)
  moreover have "oldCycles (rollbackChanges g') = oldCycles g0"
    using u by (simp add: rollbackChanges_def Let_def fold_clearRMW_reads fold_removeEdge_reads undoable_def)
  ultimately show ?thesis using rollback_undoable [OF u] by (auto simp: startChanges_def)
qed

lemma rollback_addEdges:
  assumes good: "cg_good g0" and start: "startChanges g0 = Some g"
    and flag: "hasCycles g0 \<longleftrightarrow> \<not> acyclic (mo_order g0)"
    and add: "addEdges es g = Some g'"
  shows "edges (rollbackChanges g') = edges g0 \<and> back_edges (rollbackChanges g') = back_edges g0 \<and>
    getRMW (rollbackChanges g') = getRMW g0 \<and> hasCycles (rollbackChanges g') = hasCycles g0 \<and>
    startChanges (rollbackChanges g') \<noteq> None"
proof (rule rollback_to_start [OF _ start])
  have g: "g = g0" using start by (simp add: startChanges_Some)
  have "undoable g0 g0"
    using good start g by (intro startChanges_undoable [of g0]) (auto simp: cg_good_def cg_inv_def)
  with addEdges_spec [OF good flag, of es g0] add g show "undoable g0 g'" by auto
qed

text \<open>
  C7: \<open>rollbackChanges\<close> undoes every edge and every RMW link added since \<open>startChanges\<close>, by any
  sequence of \<open>addEdge\<close> and \<open>addRMWEdge\<close> calls that returns, cycles and conflicting RMWs
  included: edges, back edges, RMW successors and the cycle flag are those of the start, and
  the next transaction can start.
\<close>

theorem rollback_restores_graph:
  assumes "cg_inv g0" "startChanges g0 = Some g" "addChanges cs g = Some g'"
  shows "edges (rollbackChanges g') = edges g0 \<and> back_edges (rollbackChanges g') = back_edges g0 \<and>
    getRMW (rollbackChanges g') = getRMW g0 \<and> hasCycles (rollbackChanges g') = hasCycles g0 \<and>
    startChanges (rollbackChanges g') \<noteq> None"
proof (rule rollback_to_start [OF _ assms(2)])
  have g: "g = g0" using assms(2) by (simp add: startChanges_Some)
  have "undoable g0 g0"
    using assms(1,2) g by (intro startChanges_undoable [of g0]) (auto simp: cg_inv_def)
  with addChanges_undoable [of g0 g0 cs g'] assms(1,3) g show "undoable g0 g'"
    by (auto simp: cg_inv_alloc)
qed

theorem rollback_restores_graph_witness:
  "\<exists>g'. addChanges [Add_RMW (ActObj 1) 2, Add_Edge (ActObj 1) (ActObj 3), Add_Edge (ActObj 3) (ActObj 1)]
       new_cycle_graph = Some g' \<and>
     getRMW g' 0 = Some 1 \<and> hasCycles g' \<and>
     edges (rollbackChanges g') = edges new_cycle_graph \<and> getRMW (rollbackChanges g') 0 = None \<and>
     \<not> hasCycles (rollbackChanges g')"
proof -
  let ?cs = "[Add_RMW (ActObj 1) 2, Add_Edge (ActObj 1) (ActObj 3), Add_Edge (ActObj 3) (ActObj 1)]"
  have start: "startChanges new_cycle_graph = Some new_cycle_graph"
    by (simp add: startChanges_Some new_cycle_graph_def)
  have "map_option (\<lambda>g. (getRMW g 0, hasCycles g)) (addChanges ?cs new_cycle_graph) = Some (Some 1, True)"
    by code_simp
  then obtain g' where g': "addChanges ?cs new_cycle_graph = Some g'" "getRMW g' 0 = Some 1" "hasCycles g'"
    by auto
  with rollback_restores_graph [OF new_cycle_graph_inv start g'(1)] show ?thesis by simp
qed

text \<open>
  C13: \<open>addRMWEdge\<close> makes a read-modify-write atomic: the RMW is ordered right after the store it
  reads, every other successor of the store comes after the RMW, and a second RMW that reads
  from the same store raises the cycle flag. The hypotheses are the assertion of the code and
  the two cases its comment relies on.
\<close>

theorem addRMWEdge_atomic:
  assumes "cg_good g" "x \<noteq> ActObj rmw"
    and "\<And>n. actionToNode g rmw = Some n \<Longrightarrow> getRMW g n = None"
    and "(\<forall>z. (z, ActObj rmw) \<notin> mo_order g) \<or> (\<forall>z. (x, z) \<notin> mo_order g)"
  shows "\<exists>g'. addRMWEdge x rmw g = Some g' \<and> cg_good g' \<and> (x, ActObj rmw) \<in> mo_order g' \<and>
    (\<forall>z. (x, z) \<in> mo_order g \<and> z \<noteq> ActObj rmw \<longrightarrow> (ActObj rmw, z) \<in> mo_order g') \<and>
    (\<forall>n. getNode_noCreate g x = Some n \<and> getRMW g n \<noteq> None \<longrightarrow> hasCycles g')"
  using addRMWEdge_spec [OF assms] by auto

theorem addRMWEdge_atomic_witness:
  "\<exists>g'. addRMWEdge (ActObj 1) 2 new_cycle_graph = Some g' \<and> cg_good g' \<and> (ActObj 1, ActObj 2) \<in> mo_order g'"
proof -
  have "actionToNode new_cycle_graph 2 = None" by (simp add: new_cycle_graph_def)
  then show ?thesis
    using addRMWEdge_atomic [OF new_cycle_graph_good, of "ActObj 1" 2] by auto
qed

text \<open>
  C15: \<open>checkPromise\<close> returns on a well-formed graph; it answers true exactly when the promise's
  node is ordered after the action. It rules out, for this promise, only threads that have an
  action at or after the given one in modification order: when the answer is false exactly
  these threads, and when it is true (the search stops there) some of them. No thread becomes
  available.
\<close>

theorem checkPromise_eliminates:
  assumes "cg_inv g" "actionToNode g a = Some n" "promise_inv pr"
  shows "\<exists>b pr'. checkPromise g tid_of a p pr = Some (b, pr') \<and> promise_inv pr' \<and>
    (b \<longleftrightarrow> (\<exists>y. (n, y) \<in> (mo_rel g)\<^sup>* \<and> cn_promise (cg_nodes g y) = Some p)) \<and>
    (\<forall>t. thread_is_available pr' t \<longrightarrow> thread_is_available pr t) \<and>
    (\<forall>t. thread_is_available pr t \<and> \<not> thread_is_available pr' t \<longrightarrow>
       (\<exists>y c. (n, y) \<in> (mo_rel g)\<^sup>* \<and> cn_action (cg_nodes g y) = Some c \<and> tid_of c = t)) \<and>
    (\<not> b \<longrightarrow> (\<forall>t. thread_is_available pr' t \<longleftrightarrow> thread_is_available pr t \<and>
       \<not> (\<exists>y c. (n, y) \<in> (mo_rel g)\<^sup>* \<and> cn_action (cg_nodes g y) = Some c \<and> tid_of c = t)))"
proof -
  have wf: "cg_wf g" and tab: "tables_ok g"
    using assms(1) by (simp_all add: cg_inv_def)
  have n: "n < cg_next g"
    using tables_okD(1) [OF tab, of "ActObj a" n] assms(2) by simp
  have "set (edges g x) \<subseteq> {..<cg_next g}" if "x \<in> {..<cg_next g}" for x
    using cg_wfD(5) [OF wf] by auto
  from checkPromise_loop [OF finite_lessThan this, of "{n}" "[n]" p pr tid_of] n assms obtain b pr' where
      res: "checkPromise g tid_of a p pr = Some (b, pr')" "promise_inv pr'"
      "b \<longleftrightarrow> (\<exists>y. (n, y) \<in> (mo_rel g)\<^sup>* \<and> cn_promise (cg_nodes g y) = Some p)"
      "\<forall>t. thread_is_available pr' t \<longrightarrow> thread_is_available pr t"
      and nb: "\<not> b \<longrightarrow> (\<forall>y c. (n, y) \<in> (mo_rel g)\<^sup>* \<and> cn_action (cg_nodes g y) = Some c
                  \<longrightarrow> \<not> thread_is_available pr' (tid_of c))"
      and ub: "\<forall>t. thread_is_available pr t \<and> \<not> thread_is_available pr' t \<longrightarrow>
        (\<exists>y c. (n, y) \<in> (mo_rel g)\<^sup>* \<and> cn_action (cg_nodes g y) = Some c \<and> tid_of c = t)"
    by (auto simp: checkPromise_def)
  have "\<not> b \<longrightarrow> (\<forall>t. thread_is_available pr' t \<longleftrightarrow> thread_is_available pr t \<and>
       \<not> (\<exists>y c. (n, y) \<in> (mo_rel g)\<^sup>* \<and> cn_action (cg_nodes g y) = Some c \<and> tid_of c = t))"
    using res(4) nb ub by blast
  with res ub show ?thesis by blast
qed

theorem checkPromise_eliminates_witness:
  "\<exists>g n b pr'. actionToNode g 1 = Some n \<and>
     checkPromise g (\<lambda>_. 0) 1 0 (new_promise 7 1 \<lparr>fv_value = 5, fv_expiration = 9, fv_tid = 0\<rparr>) = Some (b, pr') \<and>
     promise_inv pr'"
proof -
  obtain g n where g: "getNode (ActObj 1) new_cycle_graph = (n, g)" by (cases "getNode (ActObj 1) new_cycle_graph")
  have inv: "cg_inv g" by (rule getNode_inv [OF new_cycle_graph_inv g])
  have n: "actionToNode g 1 = Some n"
    using getNode_spec(9) [OF _ g] new_cycle_graph_wf by simp
  from checkPromise_eliminates [OF inv n new_promise_inv, of "\<lambda>_. 0" 0 7 1] n show ?thesis by blast
qed

text \<open>
  Resolving a promise with a write that has no node yet never completes:
  \<open>resolvePromise\<close> clears the promise of the node and then asks for it, so that
  \<open>erasePromiseNode\<close> gets a null key, which the hash table's assertion rejects.
\<close>

theorem resolvePromise_new_write_aborts:
  "actionToNode g writer = None \<Longrightarrow> cg_resolvePromise compatible same_val promise writer g = None"
  by (auto simp: cg_resolvePromise_def node_resolvePromise_def erasePromiseNode_def upd_node_def
      bind_eq_None_conv ASSERT_def split: option.splits)

theorem resolvePromise_new_write_aborts_witness:
  "\<exists>g n. getNode (PromObj 0) new_cycle_graph = (n, g) \<and> promiseToNode g 0 = Some n \<and>
     cg_resolvePromise (\<lambda>_ _. True) (\<lambda>_ _. Some True) 0 1 g = None"
proof -
  obtain g n where g: "getNode (PromObj 0) new_cycle_graph = (n, g)" by (cases "getNode (PromObj 0) new_cycle_graph")
  have "getNode_noCreate g (ActObj 1) = getNode_noCreate new_cycle_graph (ActObj 1)"
    using getNode_spec(10) [OF _ g, of "ActObj 1"] new_cycle_graph_wf by simp
  then have "actionToNode g 1 = None" by (simp add: new_cycle_graph_def)
  with resolvePromise_new_write_aborts [OF this] g getNode_spec(9) [OF _ g] new_cycle_graph_wf show ?thesis
    by auto
qed

end
