(* ===== verification/Thread_Model.thy ===== *)
theory Thread_Model
  imports Model_Action
begin

text \<open>
  Threads of the checked program and the mutexes they wait for (\<open>threads-model.h\<close>,
  \<open>threads.cc\<close>, \<open>include/mutex\<close>). A \<open>Thread\<close> is the record \<open>thread\<close>; the execution owns the
  threads and names them by their id, so a \<open>Thread *\<close> is a \<open>thread_id\<close>. The user context,
  the stack and the start routine belong to the C library's \<open>ucontext\<close> and are left out:
  \<open>swap_out\<close> and \<open>swap_in\<close> are the part of \<open>Thread::swap\<close> before \<open>swapcontext\<close>.

  Two address spaces are read: \<open>thread_at\<close> maps the address of a \<open>Thread\<close> object to its id and
  \<open>priv_of\<close> the address of a \<open>thrd_t\<close> to the id stored in its field \<open>priv\<close>.
\<close>

datatype thread_state =
  THREAD_CREATED | THREAD_RUNNING | THREAD_READY | THREAD_BLOCKED | THREAD_COMPLETED

record thread =
  th_parent :: "thread_id option"
  th_creation :: "act_ptr option"
  th_pending :: "act_ptr option"
  th_id :: thread_id
  th_state :: thread_state
  th_last_action_val :: u64
  th_model_thread :: bool

record mutex_state =
  locked :: "thread_id option"
  alloc_tid :: thread_id
  alloc_clock :: modelclock

subsection \<open>Operations on one thread\<close>

definition new_model_thread :: "thread_id \<Rightarrow> thread" where
  "new_model_thread tid =
     \<lparr>th_parent = None, th_creation = None, th_pending = None, th_id = tid, th_state = THREAD_READY,
      th_last_action_val = 0, th_model_thread = True\<rparr>"

definition new_thread :: "thread_id \<Rightarrow> thread_id option \<Rightarrow> thread" where
  "new_thread tid parent =
     \<lparr>th_parent = parent, th_creation = None, th_pending = None, th_id = tid,
      th_state = THREAD_CREATED, th_last_action_val = VALUE_NONE, th_model_thread = False\<rparr>"

definition is_complete :: "thread \<Rightarrow> bool" where
  "is_complete t \<longleftrightarrow> th_state t = THREAD_COMPLETED"

definition is_blocked :: "thread \<Rightarrow> bool" where
  "is_blocked t \<longleftrightarrow> th_state t = THREAD_BLOCKED"

definition set_state :: "thread_state \<Rightarrow> thread \<Rightarrow> thread option" where
  "set_state s t = do {
     ASSERT (s = THREAD_COMPLETED \<or> th_state t \<noteq> THREAD_COMPLETED);
     Some (t\<lparr>th_state := s\<rparr>)
   }"

definition complete :: "thread \<Rightarrow> thread option" where
  "complete t = do { ASSERT (\<not> is_complete t); Some (t\<lparr>th_state := THREAD_COMPLETED\<rparr>) }"

definition swap_out :: "thread \<Rightarrow> thread option" where
  "swap_out t = set_state THREAD_READY t"

definition swap_in :: "thread \<Rightarrow> thread option" where
  "swap_in t = set_state THREAD_RUNNING t"

definition set_creation :: "act_ptr \<Rightarrow> thread \<Rightarrow> thread" where
  "set_creation a t = t\<lparr>th_creation := Some a\<rparr>"

definition set_pending :: "act_ptr option \<Rightarrow> thread \<Rightarrow> thread" where
  "set_pending a t = t\<lparr>th_pending := a\<rparr>"

definition set_return_value :: "u64 \<Rightarrow> thread \<Rightarrow> thread" where
  "set_return_value v t = t\<lparr>th_last_action_val := v\<rparr>"

subsection \<open>Waiting for another thread\<close>

record thread_env =
  te_threads :: "thread_id \<Rightarrow> thread"
  te_actions :: "act_ptr \<Rightarrow> model_action"
  te_mutexes :: "loc \<Rightarrow> mutex_state"
  thread_at :: "loc \<Rightarrow> thread_id option"
  priv_of :: "loc \<Rightarrow> thread_id option"

definition get_thread_operand :: "thread_env \<Rightarrow> model_action \<Rightarrow> thread_id option" where
  "get_thread_operand env a =
     (if ma_type a = THREAD_CREATE then priv_of env (ma_location a)
      else if ma_type a = THREAD_JOIN then thread_at env (ma_location a)
      else None)"

definition waiting_on :: "thread_env \<Rightarrow> thread_id \<Rightarrow> thread_id option" where
  "waiting_on env t =
     (case th_pending (te_threads env t) of
        None \<Rightarrow> None
      | Some p \<Rightarrow>
          let pending = te_actions env p
          in if ma_type pending = THREAD_JOIN then get_thread_operand env pending
             else if is_lock pending
             then Option.bind (get_mutex pending) (\<lambda>m. locked (te_mutexes env m))
             else None)"

text \<open>
  The loop of \<open>is_waiting_on\<close> from a thread \<open>wait\<close>; it may run forever when the chain runs into
  a circle of waiting threads that avoids the thread asked for.
\<close>

partial_function (option) waiting_loop :: "thread_env \<Rightarrow> thread_id \<Rightarrow> thread_id option \<Rightarrow> bool option" where
  "waiting_loop env t wait =
     (if wait = None then Some False
      else if wait = Some t then Some True
      else waiting_loop env t (waiting_on env (the wait)))"

declare waiting_loop.simps [code]

definition is_waiting_on :: "thread_env \<Rightarrow> thread_id \<Rightarrow> thread_id \<Rightarrow> bool option" where
  "is_waiting_on env this t = waiting_loop env t (waiting_on env this)"

subsection \<open>Lemmas on thread states\<close>

lemma set_state_Some:
  "set_state s t = Some t' \<longleftrightarrow> (s = THREAD_COMPLETED \<or> \<not> is_complete t) \<and> t' = t\<lparr>th_state := s\<rparr>"
  by (auto simp: set_state_def is_complete_def)

lemma complete_final:
  "is_complete t \<Longrightarrow> complete t = None"
  "is_complete t \<Longrightarrow> swap_in t = None"
  "is_complete t \<Longrightarrow> swap_out t = None"
  by (simp_all add: complete_def swap_in_def swap_out_def set_state_def is_complete_def)

lemma complete_Some: "complete t = Some t' \<longleftrightarrow> \<not> is_complete t \<and> t' = t\<lparr>th_state := THREAD_COMPLETED\<rparr>"
  by (auto simp: complete_def)

subsection \<open>The relation of waiting\<close>

definition waits :: "thread_env \<Rightarrow> (thread_id \<times> thread_id) set" where
  "waits env = {(a, b). waiting_on env a = Some b}"

lemma single_valued_waits: "single_valued (waits env)"
  by (auto simp: single_valued_def waits_def)

lemma waiting_loop_None [simp]: "waiting_loop env t None = Some False"
  by (subst waiting_loop.simps) simp

lemma waiting_loop_Some:
  "waiting_loop env t (Some w) = (if w = t then Some True else waiting_loop env t (waiting_on env w))"
  by (subst waiting_loop.simps) simp

text \<open>If the loop answers, the answer is reachability along the chain.\<close>

lemma waiting_loop_sound:
  "waiting_loop env t w = Some r \<Longrightarrow> r \<longleftrightarrow> (\<exists>v. w = Some v \<and> (v, t) \<in> (waits env)\<^sup>*)"
proof (induction env t w r rule: waiting_loop.raw_induct [rotated, consumes 1, case_names step])
  case (step loop env t w r)
  show ?case
  proof (cases w)
    case None
    with step(2) show ?thesis by simp
  next
    case (Some v)
    show ?thesis
    proof (cases "v = t")
      case True
      with step(2) Some show ?thesis by simp
    next
      case False
      with step(2) Some have "loop env t (waiting_on env v) = Some r" by simp
      from step(1) [OF this]
      have r: "r \<longleftrightarrow> (\<exists>u. waiting_on env v = Some u \<and> (u, t) \<in> (waits env)\<^sup>*)" .
      have "(v, t) \<in> (waits env)\<^sup>* \<longleftrightarrow> (\<exists>u. waiting_on env v = Some u \<and> (u, t) \<in> (waits env)\<^sup>*)"
        using False by (auto simp: waits_def elim: converse_rtranclE intro: converse_rtrancl_into_rtrancl)
      with r Some show ?thesis by simp
    qed
  qed
qed

text \<open>
  The chain of threads behind a thread. The loop answers as soon as the chain ends or meets the
  thread asked for within the given number of steps.
\<close>

fun wait_chain :: "thread_env \<Rightarrow> nat \<Rightarrow> thread_id option \<Rightarrow> thread_id option" where
  "wait_chain env 0 w = w"
| "wait_chain env (Suc n) w = wait_chain env n (Option.bind w (waiting_on env))"

lemma wait_chain_None [simp]: "wait_chain env n None = None"
  by (induction n) simp_all

lemma waiting_loop_returns:
  "wait_chain env n w = None \<or> wait_chain env n w = Some t \<Longrightarrow> waiting_loop env t w \<noteq> None"
proof (induction n arbitrary: w)
  case 0
  then show ?case by (cases w) (auto simp: waiting_loop_Some)
next
  case (Suc n)
  show ?case
  proof (cases w)
    case None
    then show ?thesis by simp
  next
    case (Some v)
    with Suc.prems have "wait_chain env n (waiting_on env v) = None \<or>
        wait_chain env n (waiting_on env v) = Some t" by simp
    from Suc.IH [OF this] Some show ?thesis by (auto simp: waiting_loop_Some)
  qed
qed

lemma wait_chain_add: "wait_chain env (m + n) w = wait_chain env n (wait_chain env m w)"
  by (induction m arbitrary: w) auto

lemma wait_chain_relpow: "wait_chain env n (Some a) = Some b \<longleftrightarrow> (a, b) \<in> waits env ^^ n"
proof (induction n arbitrary: a)
  case 0
  then show ?case by auto
next
  case (Suc n)
  have "(a, b) \<in> waits env ^^ Suc n \<longleftrightarrow> (\<exists>c. waiting_on env a = Some c \<and> (c, b) \<in> waits env ^^ n)"
    by (auto simp: waits_def elim: relpow_Suc_E2 intro: relpow_Suc_I2 simp del: relpow.simps)
  with Suc.IH show ?case by (cases "waiting_on env a") simp_all
qed

lemma waiting_on_finite_chain:
  assumes fin: "finite (Range (waits env))" and acyc: "\<And>v. (v, v) \<in> (waits env)\<^sup>+ \<Longrightarrow> (v, t) \<in> (waits env)\<^sup>*"
  shows "waiting_loop env t w \<noteq> None"
proof (cases "\<exists>n. wait_chain env n w = None \<or> wait_chain env n w = Some t")
  case True
  then show ?thesis using waiting_loop_returns by blast
next
  case False
  then have never: "wait_chain env n w \<noteq> None" "wait_chain env n w \<noteq> Some t" for n by auto
  define f where "f n = the (wait_chain env n w)" for n
  have f: "wait_chain env n w = Some (f n)" for n using never by (simp add: f_def)
  have step: "(f n, f (Suc n)) \<in> waits env" for n
    using wait_chain_add [of env n 1 w] f [of n] f [of "Suc n"] by (simp add: waits_def)
  have pow: "(f i, f (i + k)) \<in> waits env ^^ k" for i k
    using wait_chain_add [of env i k w] f [of i] f [of "i + k"]
    by (simp add: wait_chain_relpow [symmetric])
  have "range (\<lambda>n. f (Suc n)) \<subseteq> Range (waits env)" using step by blast
  then have "finite (range (\<lambda>n. f (Suc n)))" using fin by (rule finite_subset)
  then have "\<not> inj (\<lambda>n. f (Suc n))" using finite_imageD infinite_UNIV_nat by blast
  then obtain i j where "f (Suc i) = f (Suc j)" "i < j" by (metis injI linorder_neqE_nat)
  then have "(f (Suc i), f (Suc i)) \<in> (waits env)\<^sup>+"
    using pow [of "Suc i" "j - i"] by (simp add: relpow_imp_rtrancl trancl_power) (metis zero_less_diff)
  from acyc [OF this] obtain k where k: "(f (Suc i), t) \<in> waits env ^^ k"
    using rtrancl_imp_relpow by blast
  have "f (Suc i + k) = t"
    using pow [of "Suc i" k] k by (metis option.inject wait_chain_relpow)
  with f never show ?thesis by metis
qed

subsection \<open>Properties\<close>

text \<open>
  The deadlock test returns and is exact: if only finitely many threads are waited for and no
  circle of waiting threads avoids the given thread, \<open>is_waiting_on\<close> answers whether this thread
  waits, directly or through others, for the given one.
\<close>

theorem is_waiting_on_decides:
  assumes "finite (Range (waits env))"
    and "\<And>v. (v, v) \<in> (waits env)\<^sup>+ \<Longrightarrow> (v, t) \<in> (waits env)\<^sup>*"
  shows "is_waiting_on env this t = Some ((this, t) \<in> (waits env)\<^sup>+)"
proof -
  obtain r where r: "is_waiting_on env this t = Some r"
    using waiting_on_finite_chain [OF assms, of "waiting_on env this"] by (auto simp: is_waiting_on_def)
  then have "r \<longleftrightarrow> (\<exists>v. waiting_on env this = Some v \<and> (v, t) \<in> (waits env)\<^sup>*)"
    unfolding is_waiting_on_def by (rule waiting_loop_sound)
  also have "\<dots> \<longleftrightarrow> (this, t) \<in> (waits env)\<^sup>+"
    by (auto simp: waits_def trancl_unfold_left)
  finally show ?thesis using r by simp
qed

text \<open>Two threads that each hold the mutex the other one waits for.\<close>

definition deadlock_env :: thread_env where
  "deadlock_env =
     \<lparr>te_threads = (\<lambda>t. if t = 1 \<or> t = 2 then (new_thread t None)\<lparr>th_pending := Some t\<rparr>
                        else new_thread t None),
      te_actions = (\<lambda>a. (sample_action ATOMIC_LOCK a 1)\<lparr>ma_location := of_nat a\<rparr>),
      te_mutexes = (\<lambda>m. \<lparr>locked = (if m = 1 then Some 2 else Some 1), alloc_tid = 0, alloc_clock = 0\<rparr>),
      thread_at = (\<lambda>_. None), priv_of = (\<lambda>_. None)\<rparr>"

lemma waiting_on_deadlock_env:
  "waiting_on deadlock_env t = (if t = 1 then Some 2 else if t = 2 then Some 1 else None)"
  by (auto simp: waiting_on_def deadlock_env_def new_thread_def sample_action_def is_lock_def
      get_mutex_def is_trylock_def is_unlock_def)

theorem is_waiting_on_decides_witness: "is_waiting_on deadlock_env 1 1 = Some True"
proof -
  have w: "waits deadlock_env = {(1, 2), (2, 1)}"
    by (auto simp: waits_def waiting_on_deadlock_env split: if_splits)
  have loop: "(1, 1) \<in> (waits deadlock_env)\<^sup>+" "(2, 1) \<in> (waits deadlock_env)\<^sup>+"
    unfolding w by (auto intro: trancl_into_trancl2)
  have "(v, 1) \<in> (waits deadlock_env)\<^sup>*" if "(v, v) \<in> (waits deadlock_env)\<^sup>+" for v
  proof -
    from that have "v \<in> Domain (waits deadlock_env)" by (meson tranclD DomainI)
    with loop show ?thesis unfolding w by (auto intro: trancl_into_rtrancl)
  qed
  with is_waiting_on_decides [of deadlock_env 1 1] loop(1) show ?thesis by (simp add: w)
qed

end
