(* ===== verification/Scheduler.thy ===== *)
theory Scheduler
  imports Thread_Model
begin

text \<open>
  The scheduler's record of which threads may run (\<open>schedule.h\<close>, \<open>schedule.cc\<close>). The array
  \<open>enabled\<close> with its length \<open>enabled_len\<close> is a list; \<open>current\<close> is the id of the running thread.
  \<open>set_enabled\<close> of \<open>THREAD_DISABLED\<close> calls back into the execution
  (\<open>check_promises_thread_disabled\<close>): the flag it returns says that the caller has to do so.
  The choice of the next thread (\<open>select_next_thread\<close>) needs the node stack and follows in
  \<open>Thread_Selection\<close>.
\<close>

datatype enabled_type = THREAD_DISABLED | THREAD_ENABLED | THREAD_SLEEP_SET

record scheduler =
  sc_enabled :: "enabled_type list"
  curr_thread_index :: nat
  sc_current :: "thread_id option"

subsection \<open>Operations\<close>

definition enabled_type_to_string :: "enabled_type \<Rightarrow> string" where
  "enabled_type_to_string e = (case e of
     THREAD_DISABLED \<Rightarrow> ''disabled'' | THREAD_ENABLED \<Rightarrow> ''enabled'' | THREAD_SLEEP_SET \<Rightarrow> ''sleep'')"

definition new_scheduler :: scheduler where
  "new_scheduler = \<lparr>sc_enabled = [], curr_thread_index = 0, sc_current = None\<rparr>"

definition set_enabled :: "thread_id \<Rightarrow> enabled_type \<Rightarrow> scheduler \<Rightarrow> bool \<times> scheduler" where
  "set_enabled t status s =
     (let en = (if t \<ge> length (sc_enabled s)
                then vec_grow (t + 1) THREAD_DISABLED (sc_enabled s) else sc_enabled s)
      in (status = THREAD_DISABLED, s\<lparr>sc_enabled := en[t := status]\<rparr>))"

definition is_enabled :: "scheduler \<Rightarrow> thread_id \<Rightarrow> bool" where
  "is_enabled s t =
     (if t \<ge> length (sc_enabled s) then False else sc_enabled s ! t \<noteq> THREAD_DISABLED)"

definition get_enabled :: "scheduler \<Rightarrow> thread_id \<Rightarrow> enabled_type option" where
  "get_enabled s t = do { ASSERT (t < length (sc_enabled s)); Some (sc_enabled s ! t) }"

definition is_sleep_set :: "scheduler \<Rightarrow> thread_id \<Rightarrow> bool option" where
  "is_sleep_set s t = do { e \<leftarrow> get_enabled s t; Some (e = THREAD_SLEEP_SET) }"

fun sleeping_loop :: "enabled_type list \<Rightarrow> bool \<Rightarrow> bool" where
  "sleeping_loop [] sleeping = sleeping"
| "sleeping_loop (e # es) sleeping =
     (if e = THREAD_ENABLED then False
      else if e = THREAD_SLEEP_SET then sleeping_loop es True
      else sleeping_loop es sleeping)"

definition all_threads_sleeping :: "scheduler \<Rightarrow> bool" where
  "all_threads_sleeping s = sleeping_loop (sc_enabled s) False"

text \<open>
  \<open>enabled_array\<close> is the array of the node; the code reads its first \<open>enabled_len\<close> entries, and a
  read beyond its end (a node that knows fewer threads) is undefined, here \<open>None\<close>.
\<close>

definition update_sleep_set :: "enabled_type list \<Rightarrow> scheduler \<Rightarrow> scheduler option" where
  "update_sleep_set enabled_array s =
     (if length (sc_enabled s) \<le> length enabled_array
      then Some (s\<lparr>sc_enabled := map2 (\<lambda>e a. if a = THREAD_SLEEP_SET then THREAD_SLEEP_SET else e)
                                   (sc_enabled s) enabled_array\<rparr>)
      else None)"

definition add_sleep :: "thread_id \<Rightarrow> scheduler \<Rightarrow> scheduler" where
  "add_sleep t s = snd (set_enabled t THREAD_SLEEP_SET s)"

definition remove_sleep :: "thread_id \<Rightarrow> scheduler \<Rightarrow> scheduler" where
  "remove_sleep t s = snd (set_enabled t THREAD_ENABLED s)"

definition sched_add_thread :: "thread \<Rightarrow> scheduler \<Rightarrow> scheduler option" where
  "sched_add_thread t s = do {
     ASSERT (\<not> th_model_thread t);
     Some (snd (set_enabled (th_id t) THREAD_ENABLED s))
   }"

definition remove_thread :: "thread_id \<Rightarrow> scheduler \<Rightarrow> bool \<times> scheduler" where
  "remove_thread t s =
     set_enabled t THREAD_DISABLED (if sc_current s = Some t then s\<lparr>sc_current := None\<rparr> else s)"

text \<open>\<open>sleep\<close> and \<open>wake\<close> also change the state of the thread object.\<close>

definition sched_sleep :: "thread \<Rightarrow> scheduler \<Rightarrow> (bool \<times> scheduler \<times> thread) option" where
  "sched_sleep t s =
     (let (chk, s) = set_enabled (th_id t) THREAD_DISABLED s
      in do { t \<leftarrow> set_state THREAD_BLOCKED t; Some (chk, s, t) })"

definition sched_wake :: "thread \<Rightarrow> scheduler \<Rightarrow> (scheduler \<times> thread) option" where
  "sched_wake t s = do {
     ASSERT (\<not> th_model_thread t);
     t' \<leftarrow> set_state THREAD_READY t;
     Some (snd (set_enabled (th_id t) THREAD_ENABLED s), t')
   }"

definition set_scheduler_thread :: "thread_id \<Rightarrow> scheduler \<Rightarrow> scheduler" where
  "set_scheduler_thread tid s = s\<lparr>curr_thread_index := tid\<rparr>"

definition set_current_thread :: "thread option \<Rightarrow> scheduler \<Rightarrow> scheduler option" where
  "set_current_thread t s = do {
     ASSERT (case t of None \<Rightarrow> True | Some th \<Rightarrow> \<not> th_model_thread th);
     Some (s\<lparr>sc_current := map_option th_id t\<rparr>)
   }"

definition get_current_thread :: "(thread_id \<Rightarrow> thread) \<Rightarrow> scheduler \<Rightarrow> thread_id option option" where
  "get_current_thread threads s = do {
     ASSERT (case sc_current s of None \<Rightarrow> True | Some t \<Rightarrow> \<not> th_model_thread (threads t));
     Some (sc_current s)
   }"

subsection \<open>Lemmas\<close>

text \<open>The status of a thread; a thread the array does not cover counts as disabled.\<close>

definition status :: "scheduler \<Rightarrow> thread_id \<Rightarrow> enabled_type" where
  "status s t = vec_get THREAD_DISABLED (sc_enabled s) t"

lemma is_enabled_status: "is_enabled s t \<longleftrightarrow> status s t \<noteq> THREAD_DISABLED"
  by (simp add: is_enabled_def status_def vec_get_def)

lemma status_set_enabled [simp]:
  "status (snd (set_enabled t e s)) u = (if u = t then e else status s u)"
  by (auto simp: status_def set_enabled_def Let_def vec_get_update)

lemma set_enabled_callback: "fst (set_enabled t e s) \<longleftrightarrow> e = THREAD_DISABLED"
  by (simp add: set_enabled_def Let_def)

lemma length_set_enabled [simp]:
  "length (sc_enabled (snd (set_enabled t e s))) = max (t + 1) (length (sc_enabled s))"
  by (simp add: set_enabled_def Let_def)

lemma set_enabled_frame [simp]:
  "sc_current (snd (set_enabled t e s)) = sc_current s"
  "curr_thread_index (snd (set_enabled t e s)) = curr_thread_index s"
  by (simp_all add: set_enabled_def Let_def)

lemma get_enabled_Some: "get_enabled s t = Some e \<longleftrightarrow> t < length (sc_enabled s) \<and> status s t = e"
  by (auto simp: get_enabled_def status_def vec_get_def)

lemma status_sleep_wake:
  "status (add_sleep t s) u = (if u = t then THREAD_SLEEP_SET else status s u)"
  "status (remove_sleep t s) u = (if u = t then THREAD_ENABLED else status s u)"
  "status (snd (remove_thread t s)) u = (if u = t then THREAD_DISABLED else status s u)"
  by (simp_all add: add_sleep_def remove_sleep_def remove_thread_def) (simp add: status_def)

lemma sleeping_loop_iff:
  "sleeping_loop es b \<longleftrightarrow> THREAD_ENABLED \<notin> set es \<and> (b \<or> THREAD_SLEEP_SET \<in> set es)"
  by (induction es b rule: sleeping_loop.induct) auto

lemma in_set_status: "e \<noteq> THREAD_DISABLED \<Longrightarrow> e \<in> set (sc_enabled s) \<longleftrightarrow> (\<exists>t. status s t = e)"
  by (auto simp: in_set_conv_nth status_def vec_get_def)

lemma update_sleep_set_status:
  assumes "update_sleep_set arr s = Some s'"
  shows "status s' t = (if t < length (sc_enabled s) \<and> arr ! t = THREAD_SLEEP_SET
                        then THREAD_SLEEP_SET else status s t)"
  using assms by (auto simp: update_sleep_set_def status_def vec_get_def split: if_splits)

subsection \<open>Properties\<close>

text \<open>
  \<open>all_threads_sleeping\<close> says that the execution is stuck on sleep sets: no thread is enabled
  and some thread sleeps. A thread that leaves the sleep set ends that state.
\<close>

theorem all_threads_sleeping_spec:
  "(all_threads_sleeping s \<longleftrightarrow>
      (\<forall>t. status s t \<noteq> THREAD_ENABLED) \<and> (\<exists>t. status s t = THREAD_SLEEP_SET)) \<and>
   \<not> all_threads_sleeping (remove_sleep t s)"
proof -
  have iff: "all_threads_sleeping s' \<longleftrightarrow>
      (\<forall>t. status s' t \<noteq> THREAD_ENABLED) \<and> (\<exists>t. status s' t = THREAD_SLEEP_SET)" for s'
    by (auto simp: all_threads_sleeping_def sleeping_loop_iff in_set_status)
  have "status (remove_sleep t s) t = THREAD_ENABLED" by (simp add: status_sleep_wake)
  then show ?thesis using iff by blast
qed

text \<open>
  Blocking and waking: \<open>sleep\<close> disables exactly the given thread, marks it blocked and asks for
  the promise check; \<open>wake\<close> of the blocked thread enables it again and makes it ready, and the
  two together leave the status of all other threads as it was.
\<close>

theorem sleep_wake_roundtrip:
  assumes "\<not> th_model_thread t" "\<not> is_complete t"
  shows "\<exists>s1 t1 s2 t2. sched_sleep t s = Some (True, s1, t1) \<and> is_blocked t1 \<and>
     \<not> is_enabled s1 (th_id t) \<and> sched_wake t1 s1 = Some (s2, t2) \<and>
     th_state t2 = THREAD_READY \<and> is_enabled s2 (th_id t) \<and>
     (\<forall>u. u \<noteq> th_id t \<longrightarrow> status s2 u = status s u)"
proof -
  define s1 where "s1 = snd (set_enabled (th_id t) THREAD_DISABLED s)"
  define t1 where "t1 = t\<lparr>th_state := THREAD_BLOCKED\<rparr>"
  have sleep: "sched_sleep t s = Some (True, s1, t1)"
    using assms(2) by (simp add: sched_sleep_def s1_def t1_def set_state_def is_complete_def
        set_enabled_def Let_def)
  have wake: "sched_wake t1 s1 =
      Some (snd (set_enabled (th_id t) THREAD_ENABLED s1), t1\<lparr>th_state := THREAD_READY\<rparr>)"
    using assms(1) by (simp add: sched_wake_def t1_def set_state_def)
  have "is_blocked t1" "\<not> is_enabled s1 (th_id t)"
    by (simp_all add: is_blocked_def t1_def is_enabled_status s1_def)
  with sleep wake show ?thesis
    by (intro exI [of _ s1] exI [of _ t1] exI [of _ "snd (set_enabled (th_id t) THREAD_ENABLED s1)"]
          exI [of _ "t1\<lparr>th_state := THREAD_READY\<rparr>"]) (simp add: is_enabled_status s1_def)
qed

theorem sleep_wake_roundtrip_witness:
  "\<exists>s1 t1. sched_sleep (new_thread 2 (Some 1)) new_scheduler = Some (True, s1, t1) \<and> is_blocked t1"
  using sleep_wake_roundtrip [of "new_thread 2 (Some 1)" new_scheduler]
  by (auto simp: new_thread_def is_complete_def)

end
