(* ===== verification/Node.thy ===== *)
theory Node
  imports Scheduler Promise_Model
begin

text \<open>
  Nodes of the search tree (class \<open>Node\<close> of \<open>nodestack.h\<close>, \<open>nodestack.cc\<close>) and the model
  checker's parameters (\<open>params.h\<close>). A node records the action taken, the thread choices explored and still to
  explore, the fairness counters, and every other choice the action has: the stores and
  promises it may read, the future values, the promises it may resolve, the writes that break a
  release sequence, and the numbered miscellaneous choices.

  A parent is a node of the same stack; the constructor and \<open>update_yield\<close> take it as an argument. The arrays
  \<open>enabled_array\<close> and \<open>yield_data\<close> are null until first written, \<open>None\<close> here; reading a null
  array or beyond an array is undefined and gives \<open>None\<close>.
\<close>

record model_params =
  maxreads :: int
  maxfuturedelay :: int
  yieldon :: bool
  yieldblock :: bool
  fairwindow :: "32 word"
  enabledcount :: "32 word"
  mp_bound :: "32 word"
  uninitvalue :: "32 word"
  maxexecutions :: int
  maxfuturevalues :: int
  expireslop :: "32 word"
  verbose :: int

record fairness_info =
  enabled_count :: "32 word"
  turns :: "32 word"
  priority :: bool

datatype read_from_type = READ_FROM_PAST | READ_FROM_PROMISE | READ_FROM_FUTURE | READ_FROM_NONE

definition YIELD_E :: "32 word" where "YIELD_E = 1"
definition YIELD_D :: "32 word" where "YIELD_D = 2"
definition YIELD_S :: "32 word" where "YIELD_S = 4"
definition YIELD_P :: "32 word" where "YIELD_P = 8"

definition YIELD_INDEX :: "nat \<Rightarrow> nat \<Rightarrow> nat \<Rightarrow> nat" where
  "YIELD_INDEX tid1 tid2 n = tid1 * n + tid2"

record node =
  nd_action :: act_ptr
  nd_uninit_action :: "act_ptr option"
  nd_num_threads :: nat
  explored_children :: "bool list"
  backtrack :: "bool list"
  fairness :: "fairness_info list"
  numBacktracks :: int
  nd_enabled_array :: "enabled_type list option"
  read_from_status :: read_from_type
  read_from_past :: "act_ptr list"
  read_from_past_idx :: nat
  read_from_promises :: "act_ptr list"
  read_from_promise_idx :: int
  future_values :: "future_value list"
  future_index :: int
  resolve_promise :: "bool list"
  resolve_promise_idx :: int
  relseq_break_writes :: "act_ptr option list"
  relseq_break_index :: int
  misc_index :: int
  misc_max :: int
  yield_data :: "32 word list option"

subsection \<open>Enabled threads, fairness, construction\<close>

definition node_is_enabled :: "node \<Rightarrow> thread_id \<Rightarrow> bool option" where
  "node_is_enabled n tid =
     (if tid < nd_num_threads n
      then do { en \<leftarrow> nd_enabled_array n; Some (en ! tid \<noteq> THREAD_DISABLED) }
      else Some False)"

definition enabled_status :: "node \<Rightarrow> thread_id \<Rightarrow> enabled_type option" where
  "enabled_status n tid =
     (if tid < nd_num_threads n then do { en \<leftarrow> nd_enabled_array n; Some (en ! tid) }
      else Some THREAD_DISABLED)"

definition no_fairness :: fairness_info where
  "no_fairness = \<lparr>enabled_count = 0, turns = 0, priority = False\<rparr>"

text \<open>
  The body of the constructor's fairness loop for thread \<open>i\<close>: the entry is copied from the
  parent, the new step enters the window, and the step that drops out of the window leaves it.
  \<open>prev\<close> stands for \<open>prevfairness\<close>: the thread of its action and its parent node, which may be
  null.
\<close>

definition base_fairness :: "node option \<Rightarrow> thread_id \<Rightarrow> fairness_info" where
  "base_fairness parent i = (case parent of
     Some p \<Rightarrow> if i < nd_num_threads p then fairness p ! i else no_fairness
   | None \<Rightarrow> no_fairness)"

definition fair_enter :: "bool \<Rightarrow> bool \<Rightarrow> fairness_info \<Rightarrow> fairness_info" where
  "fair_enter en acting fi =
     (let fi = (if en then fi\<lparr>enabled_count := enabled_count fi + 1\<rparr> else fi)
      in if acting then fi\<lparr>turns := turns fi + 1, priority := False\<rparr> else fi)"

definition fair_leave :: "model_params \<Rightarrow> bool \<Rightarrow> bool \<Rightarrow> fairness_info \<Rightarrow> fairness_info" where
  "fair_leave params en acting fi =
     (let fi = (if en then fi\<lparr>enabled_count := enabled_count fi - 1\<rparr> else fi);
          fi = (if acting then fi\<lparr>turns := turns fi - 1\<rparr> else fi)
      in if enabled_count fi \<ge> enabledcount params \<and> turns fi = 0 then fi\<lparr>priority := True\<rparr> else fi)"

definition fair_step ::
  "model_params \<Rightarrow> thread_id \<Rightarrow> node option \<Rightarrow> (thread_id \<times> node option) option \<Rightarrow> thread_id \<Rightarrow>
   fairness_info option" where
  "fair_step params currtid parent prev i = do {
     en \<leftarrow> (case parent of Some p \<Rightarrow> node_is_enabled p i | None \<Rightarrow> Some False);
     let fi = fair_enter en (i = currtid) (base_fairness parent i);
     (case prev of
        None \<Rightarrow> Some fi
      | Some (prevtid, prevparent) \<Rightarrow> do {
          pp \<leftarrow> prevparent;
          pen \<leftarrow> node_is_enabled pp i;
          Some (fair_leave params pen (i = prevtid) fi)
        })
   }"

fun fair_loop ::
  "model_params \<Rightarrow> thread_id \<Rightarrow> node option \<Rightarrow> (thread_id \<times> node option) option \<Rightarrow> thread_id list \<Rightarrow>
   fairness_info list option" where
  "fair_loop params currtid parent prev [] = Some []"
| "fair_loop params currtid parent prev (i # is) = do {
     fi \<leftarrow> fair_step params currtid parent prev i;
     fis \<leftarrow> fair_loop params currtid parent prev is;
     Some (fi # fis)
   }"

definition new_node ::
  "model_params \<Rightarrow> act_ptr \<Rightarrow> thread_id \<Rightarrow> node option \<Rightarrow> nat \<Rightarrow> (thread_id \<times> node option) option \<Rightarrow>
   node option" where
  "new_node params act currtid parent nthreads prev = do {
     fis \<leftarrow> (if fairwindow params \<noteq> 0 then fair_loop params currtid parent prev [0..<nthreads]
             else Some (replicate nthreads no_fairness));
     Some \<lparr>nd_action = act, nd_uninit_action = None, nd_num_threads = nthreads,
       explored_children = replicate nthreads False, backtrack = replicate nthreads False,
       fairness = fis, numBacktracks = 0, nd_enabled_array = None,
       read_from_status = READ_FROM_PAST, read_from_past = [], read_from_past_idx = 0,
       read_from_promises = [], read_from_promise_idx = -1, future_values = [],
       future_index = -1, resolve_promise = [], resolve_promise_idx = -1,
       relseq_break_writes = [], relseq_break_index = 0, misc_index = 0, misc_max = 0,
       yield_data = None\<rparr>
   }"

definition has_priority :: "node \<Rightarrow> thread_id \<Rightarrow> bool option" where
  "has_priority n tid =
     (if tid < length (fairness n) then Some (priority (fairness n ! tid)) else None)"

subsection \<open>Yields\<close>

definition get_yield_data :: "node \<Rightarrow> nat \<Rightarrow> nat \<Rightarrow> 32 word option" where
  "get_yield_data n tid1 tid2 =
     (if tid1 < nd_num_threads n \<and> tid2 < nd_num_threads n
      then do { yd \<leftarrow> yield_data n; Some (yd ! YIELD_INDEX tid1 tid2 (nd_num_threads n)) }
      else Some (YIELD_S OR YIELD_D))"

definition has_priority_over :: "node \<Rightarrow> thread_id \<Rightarrow> thread_id \<Rightarrow> bool option" where
  "has_priority_over n tid1 tid2 = do { y \<leftarrow> get_yield_data n tid1 tid2; Some (y AND YIELD_P \<noteq> 0) }"

text \<open>
  One step of the inner loop: the new entry for \<open>(u, v)\<close> from the parent's entry, whether \<open>v\<close> is
  enabled after the action and was enabled before it, and whether \<open>u\<close> is the acting thread.
\<close>

definition yield_entry :: "32 word \<Rightarrow> bool \<Rightarrow> bool \<Rightarrow> bool \<Rightarrow> 32 word" where
  "yield_entry y next_enabled curr_enabled acting =
     (if \<not> next_enabled
      then let y = y AND NOT YIELD_E in if acting \<and> curr_enabled then y OR YIELD_D else y
      else y)"

fun yield_row ::
  "scheduler \<Rightarrow> node \<Rightarrow> thread_id \<Rightarrow> nat \<Rightarrow> nat list \<Rightarrow> nat \<Rightarrow> 32 word list \<Rightarrow> 32 word list option" where
  "yield_row sch parent ct n [] u yd =
     (let k = YIELD_INDEX u ct n in Some (yd[k := (yd ! k AND NOT YIELD_P) OR YIELD_S]))"
| "yield_row sch parent ct n (v # vs) u yd = do {
     y \<leftarrow> get_yield_data parent u v;
     ce \<leftarrow> node_is_enabled parent v;
     yield_row sch parent ct n vs u
       (yd[YIELD_INDEX u v n := yield_entry y (is_enabled sch v) ce (u = ct)])
   }"

fun yield_rows ::
  "scheduler \<Rightarrow> node \<Rightarrow> thread_id \<Rightarrow> nat \<Rightarrow> nat list \<Rightarrow> 32 word list \<Rightarrow> 32 word list option" where
  "yield_rows sch parent ct n [] yd = Some yd"
| "yield_rows sch parent ct n (u # us) yd = do {
     yd \<leftarrow> yield_row sch parent ct n [0..<n] u yd;
     yield_rows sch parent ct n us yd
   }"

definition yield_curr :: "32 word \<Rightarrow> bool \<Rightarrow> 32 word" where
  "yield_curr y en =
     (let y = (if y AND (YIELD_E OR YIELD_D) \<noteq> 0 \<and> y AND YIELD_S = 0 then y OR YIELD_P else y);
          y = y AND YIELD_P
      in if en then y OR YIELD_E else y)"

fun yield_currs :: "scheduler \<Rightarrow> thread_id \<Rightarrow> nat \<Rightarrow> nat list \<Rightarrow> 32 word list \<Rightarrow> 32 word list" where
  "yield_currs sch ct n [] yd = yd"
| "yield_currs sch ct n (v # vs) yd =
     (let k = YIELD_INDEX ct v n
      in yield_currs sch ct n vs (yd[k := yield_curr (yd ! k) (is_enabled sch v)]))"

definition update_yield :: "scheduler \<Rightarrow> model_action \<Rightarrow> node option \<Rightarrow> node \<Rightarrow> node option" where
  "update_yield sch action parent n =
     (let nt = nd_num_threads n;
          yd = (case yield_data n of None \<Rightarrow> replicate (nt * nt) 0 | Some yd \<Rightarrow> yd)
      in case parent of
           None \<Rightarrow> Some (n\<lparr>yield_data := Some (replicate (nt * nt) (YIELD_S OR YIELD_D))\<rparr>)
         | Some p \<Rightarrow> do {
             yd \<leftarrow> yield_rows sch p (ma_tid action) nt [0..<nt] yd;
             Some (n\<lparr>yield_data := Some (if is_yield action
                                         then yield_currs sch (ma_tid action) nt [0..<nt] yd
                                         else yd)\<rparr>)
           })"


subsection \<open>Backtracking of thread choices\<close>

definition has_been_explored :: "node \<Rightarrow> thread_id \<Rightarrow> bool option" where
  "has_been_explored n tid =
     (if tid < length (explored_children n) then Some (explored_children n ! tid) else None)"

definition backtrack_empty :: "node \<Rightarrow> bool" where
  "backtrack_empty n \<longleftrightarrow> numBacktracks n = 0"

definition explore :: "thread_id \<Rightarrow> node \<Rightarrow> node option" where
  "explore i n = do {
     ASSERT (i < length (backtrack n));
     let n = (if backtrack n ! i
              then n\<lparr>backtrack := (backtrack n)[i := False], numBacktracks := numBacktracks n - 1\<rparr>
              else n);
     Some (n\<lparr>explored_children := (explored_children n)[i := True]\<rparr>)
   }"

text \<open>
  \<open>explore_child\<close> copies \<open>num_threads\<close> entries of the scheduler's array; an array that is shorter
  is read out of bounds.
\<close>

definition explore_child :: "thread_id \<Rightarrow> enabled_type list option \<Rightarrow> node \<Rightarrow> node option" where
  "explore_child tid en n = do {
     arr \<leftarrow> (case en of
               Some e \<Rightarrow> if nd_num_threads n \<le> length e then Some (take (nd_num_threads n) e) else None
             | None \<Rightarrow> Some (replicate (nd_num_threads n) THREAD_DISABLED));
     explore tid (n\<lparr>nd_enabled_array := Some arr\<rparr>)
   }"

definition set_backtrack :: "thread_id \<Rightarrow> node \<Rightarrow> (bool \<times> node) option" where
  "set_backtrack i n = do {
     ASSERT (i < length (backtrack n));
     Some (if backtrack n ! i then (False, n)
           else (True, n\<lparr>backtrack := (backtrack n)[i := True], numBacktracks := numBacktracks n + 1\<rparr>))
   }"

fun first_marked :: "bool list \<Rightarrow> nat \<Rightarrow> nat" where
  "first_marked [] i = i"
| "first_marked (b # bs) i = (if b then i else first_marked bs (i + 1))"

definition get_next_backtrack :: "node \<Rightarrow> (thread_id \<times> node) option" where
  "get_next_backtrack n = do {
     let i = first_marked (backtrack n) 0;
     ASSERT (i \<noteq> length (backtrack n));
     Some (i, n\<lparr>backtrack := (backtrack n)[i := False], numBacktracks := numBacktracks n - 1\<rparr>)
   }"

definition clear_backtracking :: "node \<Rightarrow> node" where
  "clear_backtracking n = n\<lparr>backtrack := replicate (length (backtrack n)) False,
     explored_children := replicate (length (explored_children n)) False, numBacktracks := 0\<rparr>"

subsection \<open>Promises to resolve, miscellaneous choices\<close>

definition set_promise :: "nat \<Rightarrow> node \<Rightarrow> node" where
  "set_promise i n =
     (let rp = (if i \<ge> length (resolve_promise n) then vec_grow (i + 1) False (resolve_promise n)
                else resolve_promise n)
      in n\<lparr>resolve_promise := rp[i := True]\<rparr>)"

definition get_promise :: "node \<Rightarrow> nat \<Rightarrow> bool" where
  "get_promise n i \<longleftrightarrow> i < length (resolve_promise n) \<and> int i = resolve_promise_idx n"

text \<open>The next set flag at or after an index, or the length of the vector.\<close>

function next_promise :: "bool list \<Rightarrow> nat \<Rightarrow> nat" where
  "next_promise rp i = (if i < length rp then if rp ! i then i else next_promise rp (i + 1) else i)"
  by auto
termination by (relation "measure (\<lambda>(rp, i). length rp - i)") auto

declare next_promise.simps [simp del]

definition increment_promise :: "node \<Rightarrow> bool \<times> node" where
  "increment_promise n =
     (if resolve_promise n = [] then (False, n)
      else let i = next_promise (resolve_promise n) (nat (resolve_promise_idx n + 1))
           in if i < length (resolve_promise n) then (True, n\<lparr>resolve_promise_idx := int i\<rparr>)
              else (False, n))"

definition promise_empty :: "node \<Rightarrow> bool" where
  "promise_empty n \<longleftrightarrow>
     \<not> (\<exists>i \<in> set [nat (resolve_promise_idx n + 1)..<length (resolve_promise n)]. resolve_promise n ! i)"

definition clear_promise_resolutions :: "node \<Rightarrow> node" where
  "clear_promise_resolutions n = n\<lparr>resolve_promise := [], resolve_promise_idx := -1\<rparr>"

definition set_misc_max :: "int \<Rightarrow> node \<Rightarrow> node" where
  "set_misc_max i n = n\<lparr>misc_max := i\<rparr>"

definition increment_misc :: "node \<Rightarrow> bool \<times> node" where
  "increment_misc n =
     (if misc_index n < misc_max n
      then (misc_index n + 1 < misc_max n, n\<lparr>misc_index := misc_index n + 1\<rparr>)
      else (False, n))"

definition misc_empty :: "node \<Rightarrow> bool" where
  "misc_empty n \<longleftrightarrow> misc_index n + 1 \<ge> misc_max n"

subsection \<open>Stores, promises and future values to read from\<close>

definition add_read_from_past :: "act_ptr \<Rightarrow> node \<Rightarrow> node" where
  "add_read_from_past a n = n\<lparr>read_from_past := read_from_past n @ [a]\<rparr>"

definition get_read_from_past :: "node \<Rightarrow> act_ptr option" where
  "get_read_from_past n =
     (if read_from_past_idx n < length (read_from_past n)
      then Some (read_from_past n ! read_from_past_idx n) else None)"

definition read_from_past_empty :: "node \<Rightarrow> bool" where
  "read_from_past_empty n \<longleftrightarrow> read_from_past_idx n + 1 \<ge> length (read_from_past n)"

definition increment_read_from_past :: "node \<Rightarrow> bool \<times> node" where
  "increment_read_from_past n =
     (if read_from_past_idx n < length (read_from_past n)
      then (read_from_past_idx n + 1 < length (read_from_past n),
            n\<lparr>read_from_past_idx := read_from_past_idx n + 1\<rparr>)
      else (False, n))"

definition add_read_from_promise :: "act_ptr \<Rightarrow> node \<Rightarrow> node" where
  "add_read_from_promise reader n = n\<lparr>read_from_promises := read_from_promises n @ [reader]\<rparr>"

definition get_read_from_promise :: "(act_ptr \<Rightarrow> model_action) \<Rightarrow> node \<Rightarrow> promise_ptr option option" where
  "get_read_from_promise acts n = do {
     ASSERT (0 \<le> read_from_promise_idx n \<and> read_from_promise_idx n < int (length (read_from_promises n)));
     Some (ma_reads_from_promise (acts (read_from_promises n ! nat (read_from_promise_idx n))))
   }"

definition read_from_promise_empty :: "node \<Rightarrow> bool" where
  "read_from_promise_empty n \<longleftrightarrow> read_from_promise_idx n + 1 \<ge> int (length (read_from_promises n))"

definition increment_read_from_promise :: "node \<Rightarrow> bool \<times> node" where
  "increment_read_from_promise n =
     (if read_from_promise_idx n < int (length (read_from_promises n))
      then (read_from_promise_idx n + 1 < int (length (read_from_promises n)),
            n\<lparr>read_from_promise_idx := read_from_promise_idx n + 1\<rparr>)
      else (False, n))"

text \<open>
  The search of \<open>add_future_value\<close>: \<open>None\<close> when an entry of the same value and thread already has
  an expiration that is not smaller, otherwise the highest index of such an entry, or -1.
\<close>

fun find_future :: "future_value list \<Rightarrow> future_value \<Rightarrow> int \<Rightarrow> int \<Rightarrow> int option" where
  "find_future [] v i idx = Some idx"
| "find_future (e # es) v i idx =
     (if fv_value e = fv_value v \<and> fv_tid e = fv_tid v
      then if fv_expiration v \<le> fv_expiration e then None else find_future es v (i + 1) i
      else find_future es v (i + 1) idx)"

definition add_future_value :: "model_params \<Rightarrow> future_value \<Rightarrow> node \<Rightarrow> bool \<times> node" where
  "add_future_value params v n =
     (case find_future (future_values n) v 0 (-1) of
        None \<Rightarrow> (False, n)
      | Some idx \<Rightarrow>
          if idx > future_index n
          then (True, n\<lparr>future_values := (future_values n)[nat idx :=
                   (future_values n ! nat idx)\<lparr>fv_expiration := fv_expiration v\<rparr>]\<rparr>)
          else if idx \<ge> 0 \<and>
              fv_expiration v \<le> fv_expiration (future_values n ! nat idx) + expireslop params
          then (False, n)
          else if maxfuturevalues params > 0 \<and> int (length (future_values n)) \<ge> maxfuturevalues params
          then (False, n)
          else (True, n\<lparr>future_values := future_values n @ [v]\<rparr>))"

definition get_future_value :: "node \<Rightarrow> future_value option" where
  "get_future_value n = do {
     ASSERT (0 \<le> future_index n \<and> future_index n < int (length (future_values n)));
     Some (future_values n ! nat (future_index n))
   }"

definition future_value_empty :: "node \<Rightarrow> bool" where
  "future_value_empty n \<longleftrightarrow> future_index n + 1 \<ge> int (length (future_values n))"

definition increment_future_value :: "node \<Rightarrow> bool \<times> node" where
  "increment_future_value n =
     (if future_index n < int (length (future_values n))
      then (future_index n + 1 < int (length (future_values n)), n\<lparr>future_index := future_index n + 1\<rparr>)
      else (False, n))"

definition increment_read_from :: "node \<Rightarrow> bool \<times> node" where
  "increment_read_from n =
     (let (b, n) = increment_read_from_past (clear_promise_resolutions n)
      in if b then (True, n\<lparr>read_from_status := READ_FROM_PAST\<rparr>)
         else let (b, n) = increment_read_from_promise n
         in if b then (True, n\<lparr>read_from_status := READ_FROM_PROMISE\<rparr>)
         else let (b, n) = increment_future_value n
         in if b then (True, n\<lparr>read_from_status := READ_FROM_FUTURE\<rparr>)
         else (False, n\<lparr>read_from_status := READ_FROM_NONE\<rparr>))"

definition get_read_from_status :: "node \<Rightarrow> read_from_type \<times> node" where
  "get_read_from_status n =
     (let n = (if read_from_status n = READ_FROM_PAST \<and> read_from_past n = []
               then snd (increment_read_from n) else n)
      in (read_from_status n, n))"

definition read_from_empty :: "node \<Rightarrow> bool" where
  "read_from_empty n \<longleftrightarrow> read_from_past_empty n \<and> read_from_promise_empty n \<and> future_value_empty n"

definition read_from_size :: "node \<Rightarrow> nat" where
  "read_from_size n =
     length (read_from_past n) + length (read_from_promises n) + length (future_values n)"

subsection \<open>Release sequences and the choice of a new behaviour\<close>

definition add_relseq_break :: "act_ptr option \<Rightarrow> node \<Rightarrow> node" where
  "add_relseq_break w n = n\<lparr>relseq_break_writes := relseq_break_writes n @ [w]\<rparr>"

definition get_relseq_break :: "node \<Rightarrow> act_ptr option" where
  "get_relseq_break n =
     (if relseq_break_index n < int (length (relseq_break_writes n))
      then relseq_break_writes n ! nat (relseq_break_index n) else None)"

definition increment_relseq_break :: "node \<Rightarrow> bool \<times> node" where
  "increment_relseq_break n =
     (if relseq_break_index n < int (length (relseq_break_writes n))
      then (relseq_break_index n + 1 < int (length (relseq_break_writes n)),
            n\<lparr>relseq_break_index := relseq_break_index n + 1\<rparr>)
      else (False, n))"

definition relseq_break_empty :: "node \<Rightarrow> bool" where
  "relseq_break_empty n \<longleftrightarrow> relseq_break_index n + 1 \<ge> int (length (relseq_break_writes n))"

definition increment_behaviors :: "node \<Rightarrow> bool \<times> node" where
  "increment_behaviors n =
     (let (b, n) = increment_misc n
      in if b then (True, n)
         else let (b, n) = increment_promise n
         in if b then (True, n)
         else let (b, n) = increment_read_from n
         in if b then (True, n)
         else increment_relseq_break n)"

subsection \<open>Invariant and steps\<close>

text \<open>
  The representation invariant of a node: the vectors over threads have the same length, the
  counter counts the marked threads, and every index stays between its start and its end.
\<close>

definition node_inv :: "node \<Rightarrow> bool" where
  "node_inv n \<longleftrightarrow>
     length (backtrack n) = nd_num_threads n \<and> length (explored_children n) = nd_num_threads n \<and>
     length (fairness n) = nd_num_threads n \<and>
     (\<forall>en. nd_enabled_array n = Some en \<longrightarrow> length en = nd_num_threads n) \<and>
     numBacktracks n = int (count_list (backtrack n) True) \<and>
     read_from_past_idx n \<le> length (read_from_past n) \<and>
     -1 \<le> read_from_promise_idx n \<and> read_from_promise_idx n \<le> int (length (read_from_promises n)) \<and>
     -1 \<le> future_index n \<and> future_index n \<le> int (length (future_values n)) \<and>
     -1 \<le> resolve_promise_idx n \<and> 0 \<le> relseq_break_index n"

text \<open>The state-changing operations of a node, as one step each.\<close>

inductive node_step :: "model_params \<Rightarrow> node \<Rightarrow> node \<Rightarrow> bool" for params where
  step_explore: "explore_child t en n = Some n' \<Longrightarrow> node_step params n n'"
| step_set_backtrack: "set_backtrack t n = Some (b, n') \<Longrightarrow> node_step params n n'"
| step_next_backtrack: "get_next_backtrack n = Some (t, n') \<Longrightarrow> node_step params n n'"
| step_clear: "node_step params n (clear_backtracking n)"
| step_set_promise: "node_step params n (set_promise i n)"
| step_misc_max: "node_step params n (set_misc_max k n)"
| step_past: "node_step params n (add_read_from_past a n)"
| step_promise: "node_step params n (add_read_from_promise a n)"
| step_future: "node_step params n (snd (add_future_value params v n))"
| step_relseq: "node_step params n (add_relseq_break w n)"
| step_status: "node_step params n (snd (get_read_from_status n))"
| step_behaviors: "node_step params n (snd (increment_behaviors n))"
| step_yield: "update_yield sch act p n = Some n' \<Longrightarrow> node_step params n n'"

inductive_cases node_step_elim: "node_step params n n'"

inductive node_reach :: "model_params \<Rightarrow> node \<Rightarrow> bool" for params where
  reach_new: "new_node params act t parent nt prev = Some n \<Longrightarrow> node_reach params n"
| reach_step: "node_reach params n \<Longrightarrow> node_step params n n' \<Longrightarrow> node_reach params n'"

lemma length_fair_loop: "fair_loop params t p prev is = Some fis \<Longrightarrow> length fis = length is"
  by (induction "is" arbitrary: fis) (auto simp: bind_eq_Some_conv)

lemma new_node_inv: "new_node params act t parent nt prev = Some n \<Longrightarrow> node_inv n"
  by (auto simp: new_node_def node_inv_def bind_eq_Some_conv count_list_replicate
      dest!: length_fair_loop split: if_splits)

lemma new_node_fields:
  "new_node params act t parent nt prev = Some n \<Longrightarrow> nd_action n = act \<and> nd_num_threads n = nt"
  by (auto simp: new_node_def bind_eq_Some_conv)

lemma explore_child_inv: "explore_child t en n = Some n' \<Longrightarrow> node_inv n \<Longrightarrow> node_inv n'"
  by (auto simp: explore_child_def explore_def Let_def node_inv_def bind_eq_Some_conv
      count_list_True_update split: option.splits if_splits)

lemma set_backtrack_inv: "set_backtrack t n = Some (b, n') \<Longrightarrow> node_inv n \<Longrightarrow> node_inv n'"
  by (auto simp: set_backtrack_def node_inv_def count_list_True_update split: if_splits)

lemma first_marked_takeWhile: "first_marked bs i = i + length (takeWhile Not bs)"
  by (induction bs i rule: first_marked.induct) auto

lemma first_marked_0:
  "first_marked bs 0 \<le> length bs"
  "j < first_marked bs 0 \<Longrightarrow> \<not> bs ! j"
  "first_marked bs 0 < length bs \<Longrightarrow> bs ! first_marked bs 0"
proof -
  show "first_marked bs 0 \<le> length bs" by (simp add: first_marked_takeWhile length_takeWhile_le)
  show "\<not> bs ! j" if "j < first_marked bs 0"
  proof -
    have j: "j < length (takeWhile Not bs)" using that by (simp add: first_marked_takeWhile)
    then have "takeWhile Not bs ! j \<in> set (takeWhile Not bs)" by (rule nth_mem)
    then have "\<not> takeWhile Not bs ! j" by (rule set_takeWhileD [THEN conjunct2])
    with j show ?thesis by (simp add: takeWhile_nth)
  qed
  show "bs ! first_marked bs 0" if "first_marked bs 0 < length bs"
    using that nth_length_takeWhile [of Not bs] by (simp add: first_marked_takeWhile)
qed

lemma get_next_backtrack_inv: "get_next_backtrack n = Some (t, n') \<Longrightarrow> node_inv n \<Longrightarrow> node_inv n'"
  using first_marked_0(1,3) [of "backtrack n"]
  by (auto simp: get_next_backtrack_def Let_def node_inv_def count_list_True_update)

lemma clear_backtracking_inv: "node_inv n \<Longrightarrow> node_inv (clear_backtracking n)"
  by (simp add: clear_backtracking_def node_inv_def count_list_replicate)

lemma find_future_bounds:
  "find_future es v i idx = Some r \<Longrightarrow> 0 \<le> i \<Longrightarrow> r = idx \<or> i \<le> r \<and> r < i + int (length es)"
  by (induction es v i idx rule: find_future.induct) (fastforce split: if_splits)+

lemma add_future_value_inv: "node_inv n \<Longrightarrow> node_inv (snd (add_future_value params v n))"
  by (auto simp: add_future_value_def node_inv_def split: option.splits)

lemma increment_inv:
  assumes "node_inv n"
  shows "node_inv (snd (increment_misc n))" "node_inv (snd (increment_promise n))"
    "node_inv (clear_promise_resolutions n)" "node_inv (snd (increment_read_from_past n))"
    "node_inv (snd (increment_read_from_promise n))" "node_inv (snd (increment_future_value n))"
    "node_inv (snd (increment_relseq_break n))" "node_inv (n\<lparr>read_from_status := st\<rparr>)"
  using assms
  by (auto simp: increment_misc_def increment_promise_def clear_promise_resolutions_def
      increment_read_from_past_def increment_read_from_promise_def increment_future_value_def
      increment_relseq_break_def Let_def node_inv_def)

lemma increment_read_from_inv: "node_inv n \<Longrightarrow> node_inv (snd (increment_read_from n))"
  unfolding increment_read_from_def Let_def split_beta by (simp add: increment_inv)

lemma increment_behaviors_inv: "node_inv n \<Longrightarrow> node_inv (snd (increment_behaviors n))"
  unfolding increment_behaviors_def Let_def split_beta by (simp add: increment_inv increment_read_from_inv)

lemma get_read_from_status_inv: "node_inv n \<Longrightarrow> node_inv (snd (get_read_from_status n))"
  by (simp add: get_read_from_status_def Let_def increment_read_from_inv)

lemma add_inv:
  assumes "node_inv n"
  shows "node_inv (set_promise i n)" "node_inv (set_misc_max k n)" "node_inv (add_read_from_past a n)"
    "node_inv (add_read_from_promise a n)" "node_inv (add_relseq_break w n)"
  using assms by (simp_all add: set_promise_def set_misc_max_def add_read_from_past_def
      add_read_from_promise_def add_relseq_break_def node_inv_def)

lemma update_yield_inv: "update_yield sch act p n = Some n' \<Longrightarrow> node_inv n \<Longrightarrow> node_inv n'"
  by (auto simp: update_yield_def Let_def node_inv_def bind_eq_Some_conv split: option.splits)

lemma node_step_inv: "node_step params n n' \<Longrightarrow> node_inv n \<Longrightarrow> node_inv n'"
proof (induction rule: node_step.induct)
  case (step_explore t en n n')
  then show ?case using explore_child_inv by blast
next
  case (step_set_backtrack t n b n')
  then show ?case using set_backtrack_inv by blast
next
  case (step_next_backtrack n t n')
  then show ?case using get_next_backtrack_inv by blast
next
  case (step_yield sch act p n n')
  then show ?case using update_yield_inv by blast
qed (simp_all add: clear_backtracking_inv add_future_value_inv get_read_from_status_inv
    increment_behaviors_inv add_inv)

lemma node_reach_inv: "node_reach params n \<Longrightarrow> node_inv n"
  by (induction rule: node_reach.induct) (auto intro: new_node_inv node_step_inv)

subsection \<open>The iteration over behaviours\<close>

lemma next_promise_spec:
  "i \<le> next_promise rp i \<and>
   (next_promise rp i < length rp \<longrightarrow> rp ! next_promise rp i) \<and>
   (next_promise rp i < length rp \<longleftrightarrow> (\<exists>j. i \<le> j \<and> j < length rp \<and> rp ! j))"
proof (induction rp i rule: next_promise.induct)
  case (1 rp i)
  show ?case
  proof (cases "i < length rp \<and> \<not> rp ! i")
    case True
    then have step: "next_promise rp i = next_promise rp (i + 1)" by (subst next_promise.simps) simp
    have "i \<le> j \<and> j < length rp \<and> rp ! j \<longleftrightarrow> i + 1 \<le> j \<and> j < length rp \<and> rp ! j" for j
      using True by (cases "j = i") auto
    with step "1.IH" True show ?thesis by auto
  next
    case False
    then have "next_promise rp i = i" by (subst next_promise.simps) auto
    with False show ?thesis by auto
  qed
qed

lemma fst_increment_promise: "node_inv n \<Longrightarrow> fst (increment_promise n) \<longleftrightarrow> \<not> promise_empty n"
  using next_promise_spec [of "nat (resolve_promise_idx n + 1)" "resolve_promise n"]
  by (auto simp: increment_promise_def promise_empty_def Let_def)

lemma fst_increment_misc: "fst (increment_misc n) \<longleftrightarrow> \<not> misc_empty n"
  by (auto simp add: increment_misc_def misc_empty_def)

lemma fst_increment_reads:
  "fst (increment_read_from_past n) \<longleftrightarrow> \<not> read_from_past_empty n"
  "fst (increment_read_from_promise n) \<longleftrightarrow> \<not> read_from_promise_empty n"
  "fst (increment_future_value n) \<longleftrightarrow> \<not> future_value_empty n"
  "fst (increment_relseq_break n) \<longleftrightarrow> \<not> relseq_break_empty n"
  by (auto simp: increment_read_from_past_def read_from_past_empty_def
      increment_read_from_promise_def read_from_promise_empty_def increment_future_value_def
      future_value_empty_def increment_relseq_break_def relseq_break_empty_def)

text \<open>Each increment changes only its own index.\<close>

lemma increment_frames [simp]:
  "promise_empty (snd (increment_misc n)) = promise_empty n"
  "read_from_past_empty (snd (increment_misc n)) = read_from_past_empty n"
  "read_from_promise_empty (snd (increment_misc n)) = read_from_promise_empty n"
  "future_value_empty (snd (increment_misc n)) = future_value_empty n"
  "relseq_break_empty (snd (increment_misc n)) = relseq_break_empty n"
  "read_from_past_empty (snd (increment_promise n)) = read_from_past_empty n"
  "read_from_promise_empty (snd (increment_promise n)) = read_from_promise_empty n"
  "future_value_empty (snd (increment_promise n)) = future_value_empty n"
  "relseq_break_empty (snd (increment_promise n)) = relseq_break_empty n"
  "read_from_past_empty (clear_promise_resolutions n) = read_from_past_empty n"
  "read_from_promise_empty (clear_promise_resolutions n) = read_from_promise_empty n"
  "future_value_empty (clear_promise_resolutions n) = future_value_empty n"
  "relseq_break_empty (clear_promise_resolutions n) = relseq_break_empty n"
  "read_from_promise_empty (snd (increment_read_from_past n)) = read_from_promise_empty n"
  "future_value_empty (snd (increment_read_from_past n)) = future_value_empty n"
  "relseq_break_empty (snd (increment_read_from_past n)) = relseq_break_empty n"
  "future_value_empty (snd (increment_read_from_promise n)) = future_value_empty n"
  "relseq_break_empty (snd (increment_read_from_promise n)) = relseq_break_empty n"
  "relseq_break_empty (snd (increment_future_value n)) = relseq_break_empty n"
  "relseq_break_empty (n\<lparr>read_from_status := st\<rparr>) = relseq_break_empty n"
  by (simp_all add: increment_misc_def increment_promise_def clear_promise_resolutions_def
      increment_read_from_past_def increment_read_from_promise_def increment_future_value_def
      promise_empty_def read_from_past_empty_def read_from_promise_empty_def
      future_value_empty_def relseq_break_empty_def Let_def)

lemma fst_increment_read_from: "fst (increment_read_from n) \<longleftrightarrow> \<not> read_from_empty n"
  unfolding increment_read_from_def Let_def split_beta
  by (simp add: fst_increment_reads read_from_empty_def)

lemma increment_read_from_relseq [simp]:
  "relseq_break_empty (snd (increment_read_from n)) = relseq_break_empty n"
  unfolding increment_read_from_def Let_def split_beta by simp

lemma read_from_empty_frames [simp]:
  "read_from_empty (snd (increment_misc n)) = read_from_empty n"
  "read_from_empty (snd (increment_promise n)) = read_from_empty n"
  by (simp_all add: read_from_empty_def)

text \<open>How many behaviours are left; the choices of one kind never come back.\<close>

definition room :: "int \<Rightarrow> int \<Rightarrow> nat" where
  "room i s = nat (s - i)"

definition behaviors_left :: "node \<Rightarrow> nat" where
  "behaviors_left n = room (misc_index n) (misc_max n) +
     room (resolve_promise_idx n + 1) (int (length (resolve_promise n))) +
     room (int (read_from_past_idx n)) (int (length (read_from_past n))) +
     room (read_from_promise_idx n) (int (length (read_from_promises n))) +
     room (future_index n) (int (length (future_values n))) +
     room (relseq_break_index n) (int (length (relseq_break_writes n)))"

lemma room_step: "i < j \<Longrightarrow> i < s \<Longrightarrow> room j s < room i s"
  by (simp add: room_def)

lemma room_Suc: "i < s \<Longrightarrow> room (i + 1) s < room i s" "i < s \<Longrightarrow> room (1 + i) s < room i s"
  by (simp_all add: room_def)

text \<open>
  C11: \<open>increment_behaviors\<close> is the complete search over an action's choices: it finds a new
  behaviour exactly when one of the emptiness tests says that there is one.
\<close>

theorem increment_behaviors_complete:
  assumes "node_reach params n"
  shows "fst (increment_behaviors n) \<longleftrightarrow>
    \<not> (misc_empty n \<and> promise_empty n \<and> read_from_empty n \<and> relseq_break_empty n)"
proof -
  have inv: "node_inv (snd (increment_misc n))"
    using node_reach_inv [OF assms] by (rule increment_inv)
  show ?thesis
    unfolding increment_behaviors_def Let_def split_beta
    by (simp add: fst_increment_misc fst_increment_promise [OF inv] fst_increment_read_from
        fst_increment_reads)
qed

text \<open>The node of a read by thread 1, with two threads and no parent.\<close>

definition sample_params :: model_params where
  "sample_params = \<lparr>maxreads = 0, maxfuturedelay = 6, yieldon = False, yieldblock = False,
     fairwindow = 0, enabledcount = 1, mp_bound = 0, uninitvalue = 0, maxexecutions = 0,
     maxfuturevalues = 0, expireslop = 4, verbose = 1\<rparr>"

definition sample_node :: node where
  "sample_node = the (new_node sample_params 5 1 None 2 None)"

lemma sample_node: "new_node sample_params 5 1 None 2 None = Some sample_node"
  by (simp add: sample_node_def new_node_def sample_params_def)

lemma sample_node_reach: "node_reach sample_params sample_node"
  using sample_node by (rule reach_new)

theorem increment_behaviors_complete_witness:
  "fst (increment_behaviors (add_read_from_past 8 (add_read_from_past 7 sample_node)))"
proof -
  have "node_reach sample_params (add_read_from_past 8 (add_read_from_past 7 sample_node))"
    by (intro reach_step [OF _ step_past] sample_node_reach)
  moreover have "\<not> read_from_empty (add_read_from_past 8 (add_read_from_past 7 sample_node))"
    by code_simp
  ultimately show ?thesis by (simp add: increment_behaviors_complete)
qed

text \<open>An iteration step that never adds behaviours, and removes one when it succeeds.\<close>

definition consumes :: "(node \<Rightarrow> bool \<times> node) \<Rightarrow> node \<Rightarrow> bool" where
  "consumes f n \<longleftrightarrow> behaviors_left (snd (f n)) \<le> behaviors_left n \<and>
     (fst (f n) \<longrightarrow> behaviors_left (snd (f n)) < behaviors_left n)"

lemma consumes_increments:
  assumes "node_inv n"
  shows "consumes increment_misc n" "consumes increment_promise n"
    "consumes increment_read_from_past n" "consumes increment_read_from_promise n"
    "consumes increment_future_value n" "consumes increment_relseq_break n"
proof -
  let ?j = "next_promise (resolve_promise n) (nat (resolve_promise_idx n + 1))"
  have "-1 \<le> resolve_promise_idx n" using assms by (simp add: node_inv_def)
  then have j: "resolve_promise_idx n + 1 < int ?j + 1"
    using next_promise_spec [of "nat (resolve_promise_idx n + 1)" "resolve_promise n"] by linarith
  have "room (int ?j + 1) (int (length (resolve_promise n)))
      < room (resolve_promise_idx n + 1) (int (length (resolve_promise n)))"
    if "?j < length (resolve_promise n)" using that j by (intro room_step) linarith+
  then show "consumes increment_promise n"
    by (simp add: consumes_def behaviors_left_def increment_promise_def Let_def less_imp_le)
qed (simp_all add: consumes_def behaviors_left_def increment_misc_def increment_read_from_past_def
    increment_read_from_promise_def increment_future_value_def increment_relseq_break_def
    room_Suc less_imp_le)

lemma behaviors_left_clear: "behaviors_left (clear_promise_resolutions n) \<le> behaviors_left n"
  by (simp add: behaviors_left_def clear_promise_resolutions_def) (simp add: room_def)

lemma behaviors_left_status [simp]: "behaviors_left (n\<lparr>read_from_status := st\<rparr>) = behaviors_left n"
  by (simp add: behaviors_left_def)

lemma consumes_read_from:
  assumes inv: "node_inv n"
  shows "consumes increment_read_from n"
proof -
  define n0 where "n0 = clear_promise_resolutions n"
  define n1 where "n1 = snd (increment_read_from_past n0)"
  define n2 where "n2 = snd (increment_read_from_promise n1)"
  have inv': "node_inv n0" "node_inv n1" "node_inv n2"
    using inv by (simp_all add: n0_def n1_def n2_def increment_inv)
  show ?thesis
    using behaviors_left_clear [of n] consumes_increments(3) [OF inv'(1)]
      consumes_increments(4) [OF inv'(2)] consumes_increments(5) [OF inv'(3)]
    unfolding consumes_def increment_read_from_def Let_def split_beta
    unfolding n0_def [symmetric] n1_def [symmetric] n2_def [symmetric] by auto
qed

lemma consumes_behaviors:
  assumes inv: "node_inv n"
  shows "consumes increment_behaviors n"
proof -
  define n1 where "n1 = snd (increment_misc n)"
  define n2 where "n2 = snd (increment_promise n1)"
  define n3 where "n3 = snd (increment_read_from n2)"
  have inv': "node_inv n1" "node_inv n2" "node_inv n3"
    using inv by (simp_all add: n1_def n2_def n3_def increment_inv increment_read_from_inv)
  show ?thesis
    using consumes_increments(1) [OF inv] consumes_increments(2) [OF inv'(1)]
      consumes_read_from [OF inv'(2)] consumes_increments(6) [OF inv'(3)]
    unfolding consumes_def increment_behaviors_def Let_def split_beta
    unfolding n1_def [symmetric] n2_def [symmetric] n3_def [symmetric] by auto
qed

fun iterate_behaviors :: "nat \<Rightarrow> node \<Rightarrow> nat \<times> node" where
  "iterate_behaviors 0 n = (0, n)"
| "iterate_behaviors (Suc k) n =
     (let (b, n') = increment_behaviors n
      in if b then let (c, n'') = iterate_behaviors k n' in (c + 1, n'') else (0, n'))"

lemma iterate_behaviors_bound:
  "node_inv n \<Longrightarrow> fst (iterate_behaviors k n) + behaviors_left (snd (iterate_behaviors k n)) \<le> behaviors_left n"
proof (induction k arbitrary: n)
  case 0
  then show ?case by simp
next
  case (Suc k)
  have "node_inv (snd (increment_behaviors n))" using Suc.prems by (rule increment_behaviors_inv)
  from Suc.IH [OF this] consumes_behaviors [OF Suc.prems] show ?case
    by (auto simp: consumes_def split_beta Let_def)
qed

text \<open>
  the search over the choices of one action ends: however often \<open>increment_behaviors\<close> is
  called, it succeeds at most \<open>behaviors_left\<close> times.
\<close>

theorem increment_behaviors_terminates:
  assumes "node_reach params n"
  shows "fst (iterate_behaviors k n) \<le> behaviors_left n"
  using iterate_behaviors_bound [OF node_reach_inv [OF assms], of k] by simp

theorem increment_behaviors_terminates_witness:
  "fst (iterate_behaviors 100 sample_node) \<le> behaviors_left sample_node"
  by (rule increment_behaviors_terminates [OF sample_node_reach])

subsection \<open>The iteration over what a read may read from\<close>

datatype read_choice = FromPast act_ptr | FromPromise act_ptr | FromFuture future_value

text \<open>The current choice, as the execution looks it up, and the choices still to come.\<close>

definition current_read :: "node \<Rightarrow> read_choice" where
  "current_read n = (case read_from_status n of
     READ_FROM_PROMISE \<Rightarrow> FromPromise (read_from_promises n ! nat (read_from_promise_idx n))
   | READ_FROM_FUTURE \<Rightarrow> FromFuture (future_values n ! nat (future_index n))
   | _ \<Rightarrow> FromPast (read_from_past n ! read_from_past_idx n))"

fun read_choices :: "nat \<Rightarrow> node \<Rightarrow> read_choice list" where
  "read_choices 0 n = []"
| "read_choices (Suc k) n =
     (let (b, n') = increment_read_from n in if b then current_read n' # read_choices k n' else [])"

definition pending_reads :: "node \<Rightarrow> read_choice list" where
  "pending_reads n =
     map FromPast (drop (read_from_past_idx n + 1) (read_from_past n)) @
     map FromPromise (drop (nat (read_from_promise_idx n + 1)) (read_from_promises n)) @
     map FromFuture (drop (nat (future_index n + 1)) (future_values n))"

lemma drop_Suc_nth: "k < length xs \<Longrightarrow> drop k xs = xs ! k # drop (k + 1) xs"
  by (simp add: Cons_nth_drop_Suc)

lemma read_from_empty_pending: "node_inv n \<Longrightarrow> read_from_empty n \<longleftrightarrow> pending_reads n = []"
  by (auto simp: read_from_empty_def read_from_past_empty_def read_from_promise_empty_def
      future_value_empty_def pending_reads_def node_inv_def)

lemma increment_read_from_pending:
  assumes inv: "node_inv n" and inc: "fst (increment_read_from n)"
  shows "pending_reads n = current_read (snd (increment_read_from n)) # pending_reads (snd (increment_read_from n))"
proof -
  consider "\<not> read_from_past_empty n" | "read_from_past_empty n" "\<not> read_from_promise_empty n"
    | "read_from_past_empty n" "read_from_promise_empty n" "\<not> future_value_empty n"
    using inc by (auto simp: fst_increment_read_from read_from_empty_def)
  then show ?thesis
  proof cases
    case 1
    then have "read_from_past_idx n + 1 < length (read_from_past n)" by (simp add: read_from_past_empty_def)
    then show ?thesis
      by (simp add: increment_read_from_def increment_read_from_past_def clear_promise_resolutions_def
          pending_reads_def current_read_def drop_Suc_nth)
  next
    case 2
    then have p: "read_from_promise_idx n + 1 < int (length (read_from_promises n))"
      "length (read_from_past n) \<le> read_from_past_idx n + 1"
      by (simp_all add: read_from_promise_empty_def read_from_past_empty_def)
    have "-1 \<le> read_from_promise_idx n" using inv by (simp add: node_inv_def)
    with p show ?thesis
      by (auto simp: increment_read_from_def increment_read_from_past_def clear_promise_resolutions_def
          increment_read_from_promise_def pending_reads_def current_read_def drop_Suc_nth nat_add_distrib)
  next
    case 3
    then have p: "future_index n + 1 < int (length (future_values n))"
      "length (read_from_past n) \<le> read_from_past_idx n + 1"
      "int (length (read_from_promises n)) \<le> read_from_promise_idx n + 1"
      by (simp_all add: read_from_promise_empty_def read_from_past_empty_def future_value_empty_def)
    have "-1 \<le> future_index n" using inv by (simp add: node_inv_def)
    with p show ?thesis
      by (auto simp: increment_read_from_def increment_read_from_past_def clear_promise_resolutions_def
          increment_read_from_promise_def increment_future_value_def pending_reads_def
          current_read_def drop_Suc_nth nat_add_distrib)
  qed
qed

lemma read_choices_pending:
  "node_inv n \<Longrightarrow> length (pending_reads n) \<le> k \<Longrightarrow> read_choices k n = pending_reads n"
proof (induction k arbitrary: n)
  case 0
  then show ?case by simp
next
  case (Suc k)
  show ?case
  proof (cases "fst (increment_read_from n)")
    case True
    note p = increment_read_from_pending [OF Suc.prems(1) True]
    have "length (pending_reads (snd (increment_read_from n))) \<le> k"
      using Suc.prems(2) unfolding p by simp
    from Suc.IH [OF increment_read_from_inv [OF Suc.prems(1)] this] True p show ?thesis
      by (simp add: split_beta Let_def)
  next
    case False
    then have "pending_reads n = []"
      using Suc.prems(1) by (simp add: fst_increment_read_from read_from_empty_pending)
    with False show ?thesis by (simp add: split_beta Let_def)
  qed
qed

lemma length_pending_reads: "node_inv n \<Longrightarrow> length (pending_reads n) \<le> read_from_size n"
  by (auto simp: pending_reads_def read_from_size_def node_inv_def)

text \<open>
  C12: iterating \<open>increment_read_from\<close> visits every store, promise and future value that is still to
  be read exactly once and in order (stores first, then promises, then future values) and
  then reports the end.
\<close>

theorem increment_read_from_enumerates:
  assumes "node_reach params n" "read_from_size n \<le> k"
  shows "read_choices k n =
     map FromPast (drop (read_from_past_idx n + 1) (read_from_past n)) @
     map FromPromise (drop (nat (read_from_promise_idx n + 1)) (read_from_promises n)) @
     map FromFuture (drop (nat (future_index n + 1)) (future_values n))"
  using read_choices_pending [of n k] length_pending_reads [of n] node_reach_inv [OF assms(1)] assms(2)
  by (simp add: pending_reads_def)

theorem increment_read_from_enumerates_witness:
  "read_choices 3 (add_read_from_promise 9 (add_read_from_past 8 (add_read_from_past 7 sample_node))) =
     [FromPast 8, FromPromise 9]"
proof -
  let ?n = "add_read_from_promise 9 (add_read_from_past 8 (add_read_from_past 7 sample_node))"
  have "node_reach sample_params ?n"
    by (intro reach_step [OF _ step_past] reach_step [OF _ step_promise] sample_node_reach)
  moreover have "read_from_size ?n \<le> 3" by code_simp
  ultimately have "read_choices 3 ?n =
     map FromPast (drop (read_from_past_idx ?n + 1) (read_from_past ?n)) @
     map FromPromise (drop (nat (read_from_promise_idx ?n + 1)) (read_from_promises ?n)) @
     map FromFuture (drop (nat (future_index ?n + 1)) (future_values ?n))"
    by (rule increment_read_from_enumerates)
  also have "\<dots> = [FromPast 8, FromPromise 9]" by code_simp
  finally show ?thesis .
qed

subsection \<open>The backtracking set\<close>

lemma backtrack_empty_iff:
  "node_inv n \<Longrightarrow> backtrack_empty n \<longleftrightarrow> (\<forall>t < nd_num_threads n. \<not> backtrack n ! t)"
  by (auto simp: node_inv_def backtrack_empty_def count_list_eq_0_iff)

text \<open>
  the counter of a node never drifts from its backtracking set: the set is empty exactly when
  no thread is marked, \<open>get_next_backtrack\<close> fails its assertion only then, and otherwise it hands
  out the lowest marked thread and unmarks exactly this one.
\<close>

theorem get_next_backtrack_spec:
  assumes "node_reach params n"
  shows "(backtrack_empty n \<longleftrightarrow> (\<forall>t < nd_num_threads n. \<not> backtrack n ! t)) \<and>
    (case get_next_backtrack n of
       None \<Rightarrow> backtrack_empty n
     | Some (t, n') \<Rightarrow> t < nd_num_threads n \<and> backtrack n ! t \<and> (\<forall>u < t. \<not> backtrack n ! u) \<and>
         backtrack n' = (backtrack n)[t := False] \<and> node_inv n')"
proof -
  have inv: "node_inv n" by (rule node_reach_inv [OF assms])
  note empty = backtrack_empty_iff [OF inv]
  have len: "length (backtrack n) = nd_num_threads n" using inv by (simp add: node_inv_def)
  show ?thesis
  proof (cases "get_next_backtrack n")
    case None
    then have "first_marked (backtrack n) 0 = length (backtrack n)"
      by (auto simp: get_next_backtrack_def Let_def ASSERT_def split: if_splits)
    with first_marked_0(2) [of _ "backtrack n"] len None empty show ?thesis by simp
  next
    case (Some tn)
    then obtain t n' where tn: "get_next_backtrack n = Some (t, n')" by (cases tn) auto
    from get_next_backtrack_inv [OF tn inv] tn empty first_marked_0(1) [of "backtrack n"] first_marked_0(2) [of _ "backtrack n"]
      first_marked_0(3) [of "backtrack n"] len show ?thesis
      by (auto simp: get_next_backtrack_def Let_def)
  qed
qed

theorem get_next_backtrack_spec_witness:
  "\<exists>n n'. set_backtrack 1 sample_node = Some (True, n) \<and> get_next_backtrack n = Some (1, n') \<and> node_inv n'"
proof -
  obtain n where n: "set_backtrack 1 sample_node = Some (True, n)"
    by (simp add: set_backtrack_def sample_node_def new_node_def sample_params_def numeral_2_eq_2)
  have r: "node_reach sample_params n"
    using sample_node_reach n by (blast intro: reach_step step_set_backtrack)
  have "fst (the (get_next_backtrack (snd (the (set_backtrack 1 sample_node))))) = 1 \<and>
      get_next_backtrack (snd (the (set_backtrack 1 sample_node))) \<noteq> None" by code_simp
  with n obtain n' where "get_next_backtrack n = Some (1, n')" by auto
  with get_next_backtrack_spec [OF r] n show ?thesis by auto
qed

subsection \<open>Future values\<close>

lemma find_future_None:
  "find_future es v i idx = None \<longleftrightarrow>
     (\<exists>e \<in> set es. fv_value e = fv_value v \<and> fv_tid e = fv_tid v \<and> fv_expiration v \<le> fv_expiration e)"
  by (induction es v i idx rule: find_future.induct) auto

lemma find_future_match:
  "find_future es v i idx = Some r \<Longrightarrow> 0 \<le> i \<Longrightarrow> idx < i \<Longrightarrow> r \<noteq> idx \<Longrightarrow>
   i \<le> r \<and> r < i + int (length es) \<and>
   fv_value (es ! nat (r - i)) = fv_value v \<and> fv_tid (es ! nat (r - i)) = fv_tid v"
proof (induction es v i idx rule: find_future.induct)
  case (1 v i idx)
  then show ?case by simp
next
  case (2 e es v i idx)
  let ?m = "fv_value e = fv_value v \<and> fv_tid e = fv_tid v"
  from "2.prems"(1) have rest: "find_future es v (i + 1) (if ?m then i else idx) = Some r"
    by (auto split: if_splits)
  show ?case
  proof (cases "r = (if ?m then i else idx)")
    case True
    with "2.prems" show ?thesis by (auto split: if_splits)
  next
    case False
    have "i + 1 \<le> r \<and> r < i + 1 + int (length es) \<and>
        fv_value (es ! nat (r - (i + 1))) = fv_value v \<and> fv_tid (es ! nat (r - (i + 1))) = fv_tid v"
      using 2 rest False by (auto split: if_splits)
    moreover from this have "nat (r - i) = Suc (nat (r - (i + 1)))" by linarith
    ultimately show ?thesis by simp
  qed
qed

text \<open>
  a future value that \<open>add_future_value\<close> accepts before the iteration has run past the end
  will be explored: it is stored with its
  expiration at a position the iteration has not passed. A value it refuses is covered by an
  entry of the same value and thread with a later expiration (up to the slop when that entry was
  explored already), or the limit of future values is reached.
\<close>

theorem add_future_value_spec:
  assumes "node_reach params n" "add_future_value params v n = (added, n')"
    and "future_index n < int (length (future_values n))"
  shows "if added
    then \<exists>i. future_index n' < int i \<and> i < length (future_values n') \<and> future_values n' ! i = v
    else n' = n \<and>
      ((\<exists>e \<in> set (future_values n). fv_value e = fv_value v \<and> fv_tid e = fv_tid v \<and>
          (fv_expiration v \<le> fv_expiration e \<or> fv_expiration v \<le> fv_expiration e + expireslop params)) \<or>
       (maxfuturevalues params > 0 \<and> int (length (future_values n)) \<ge> maxfuturevalues params))"
proof (cases "find_future (future_values n) v 0 (-1)")
  case None
  then have "\<exists>e \<in> set (future_values n). fv_value e = fv_value v \<and> fv_tid e = fv_tid v \<and>
      fv_expiration v \<le> fv_expiration e" by (simp add: find_future_None)
  with None assms(2) show ?thesis by (auto simp: add_future_value_def)
next
  case (Some idx)
  let ?e = "future_values n ! nat idx"
  from find_future_bounds [OF Some] find_future_match [OF Some]
  have match: "0 \<le> idx \<and> idx < int (length (future_values n)) \<and> fv_value ?e = fv_value v \<and> fv_tid ?e = fv_tid v"
    if "idx \<noteq> -1" using that by simp
  have start: "-1 \<le> future_index n" using node_reach_inv [OF assms(1)] by (simp add: node_inv_def)
  show ?thesis
  proof (cases "idx > future_index n")
    case True
    with match start have m: "0 \<le> idx" "idx < int (length (future_values n))"
      "fv_value ?e = fv_value v" "fv_tid ?e = fv_tid v" by auto
    have "?e\<lparr>fv_expiration := fv_expiration v\<rparr> = v" using m(3,4) by simp
    with True Some m assms(2) show ?thesis
      by (auto simp: add_future_value_def intro!: exI [of _ "nat idx"])
  next
    case False
    show ?thesis
    proof (cases "idx \<ge> 0 \<and> fv_expiration v \<le> fv_expiration ?e + expireslop params")
      case True
      with match have "?e \<in> set (future_values n)" by (simp add: nth_mem nat_less_iff)
      with True match False Some assms(2) show ?thesis by (auto simp: add_future_value_def)
    next
      case slop: False
      show ?thesis
      proof (cases "maxfuturevalues params > 0 \<and> int (length (future_values n)) \<ge> maxfuturevalues params")
        case True
        with slop False Some assms(2) show ?thesis by (auto simp: add_future_value_def)
      next
        case max: False
        with slop False Some assms(2)
        have "added" "n' = n\<lparr>future_values := future_values n @ [v]\<rparr>"
          by (auto simp: add_future_value_def split: if_splits)
        with assms(3) show ?thesis
          by (auto intro!: exI [of _ "length (future_values n)"])
      qed
    qed
  qed
qed

theorem add_future_value_spec_witness:
  "\<exists>i. future_index (snd (add_future_value sample_params \<lparr>fv_value = 5, fv_expiration = 9, fv_tid = 2\<rparr> sample_node)) < int i \<and>
     future_values (snd (add_future_value sample_params \<lparr>fv_value = 5, fv_expiration = 9, fv_tid = 2\<rparr> sample_node)) ! i
       = \<lparr>fv_value = 5, fv_expiration = 9, fv_tid = 2\<rparr>"
proof -
  let ?v = "\<lparr>fv_value = 5, fv_expiration = 9, fv_tid = 2\<rparr>"
  have add: "add_future_value sample_params ?v sample_node =
      (True, snd (add_future_value sample_params ?v sample_node))" by code_simp
  have "future_index sample_node < int (length (future_values sample_node))" by code_simp
  from add_future_value_spec [OF sample_node_reach add this] show ?thesis by auto
qed

end
