(* ===== verification/Node_Stack.thy ===== *)
theory Node_Stack
  imports Node
begin

text \<open>
  The stack of nodes the search backtracks over (class \<open>NodeStack\<close> of \<open>nodestack.h\<close>,
  \<open>nodestack.cc\<close>). The parent pointer of a node is the node below it, which is the head when the
  node is created. \<open>execution->get_num_threads()\<close> is an argument of \<open>explore_action\<close>. The
  methods of an action that the stack calls (\<open>set_node\<close>, \<open>get_tid\<close>, \<open>get_type\<close>) act on the
  store of actions.
\<close>

record nodestack =
  node_list :: "node list"
  head_idx :: int
  total_nodes :: int

subsection \<open>Operations\<close>

definition new_nodestack :: nodestack where
  "new_nodestack = \<lparr>node_list = [], head_idx = -1, total_nodes = 1\<rparr>"

definition get_head :: "nodestack \<Rightarrow> node option" where
  "get_head s = (if node_list s = [] \<or> head_idx s < 0 then None
                 else Some (node_list s ! nat (head_idx s)))"

definition get_next :: "nodestack \<Rightarrow> node option" where
  "get_next s =
     (if node_list s = [] then None
      else let it = nat (head_idx s + 1)
           in if it = length (node_list s) then None else Some (node_list s ! it))"

definition reset_execution :: "nodestack \<Rightarrow> nodestack" where
  "reset_execution s = s\<lparr>head_idx := -1\<rparr>"

definition full_reset :: "nodestack \<Rightarrow> nodestack" where
  "full_reset s = (reset_execution (s\<lparr>node_list := []\<rparr>))\<lparr>total_nodes := 1\<rparr>"

text \<open>
  \<open>node_list[head_idx - fairwindow]\<close>, an unsigned index, with its action's thread and its parent.
\<close>

definition fairness_node ::
  "model_params \<Rightarrow> (act_ptr \<Rightarrow> model_action) \<Rightarrow> node list \<Rightarrow> int \<Rightarrow> (thread_id \<times> node option) option option" where
  "fairness_node params acts ns h =
     (if fairwindow params \<noteq> 0 \<and> h > sint (fairwindow params)
      then let k = unat (word_of_int h - fairwindow params :: 32 word)
           in if k < length ns
              then Some (Some (ma_tid (acts (nd_action (ns ! k))),
                               if k = 0 then None else Some (ns ! (k - 1))))
              else None
      else Some None)"

definition explore_action ::
  "model_params \<Rightarrow> nat \<Rightarrow> act_ptr \<Rightarrow> enabled_type list option \<Rightarrow>
   (act_ptr \<Rightarrow> model_action) \<times> nodestack \<Rightarrow>
   (act_ptr option \<times> (act_ptr \<Rightarrow> model_action) \<times> nodestack) option" where
  "explore_action params num_threads act en st =
     (let (acts, s) = st
      in if head_idx s + 1 < int (length (node_list s))
         then Some (Some (nd_action (node_list s ! nat (head_idx s + 1))), acts,
                    s\<lparr>head_idx := head_idx s + 1\<rparr>)
         else do {
           (ns, parent, prev) \<leftarrow>
             (case get_head s of
                None \<Rightarrow> Some (node_list s, None, None)
              | Some head \<Rightarrow> do {
                  head \<leftarrow> explore_child (ma_tid (acts act)) en head;
                  let ns = (node_list s)[nat (head_idx s) := head];
                  prev \<leftarrow> fairness_node params acts ns (head_idx s);
                  Some (ns, Some head, prev)
                });
           let next_threads = (if ma_type (acts act) = THREAD_CREATE then num_threads + 1 else num_threads);
           n \<leftarrow> new_node params act (ma_tid (acts act)) parent next_threads prev;
           Some (None, acts(act := (acts act)\<lparr>ma_node := Some (length ns)\<rparr>),
                 s\<lparr>node_list := ns @ [n], total_nodes := total_nodes s + 1, head_idx := head_idx s + 1\<rparr>)
         })"

text \<open>
  \<open>resize\<close> to more than the present size would fill the stack with null nodes, and \<open>back\<close> of an
  empty stack is undefined: both are \<open>None\<close>.
\<close>

definition pop_restofstack :: "int \<Rightarrow> nodestack \<Rightarrow> nodestack option" where
  "pop_restofstack numAhead s =
     (let it = head_idx s + numAhead
      in if 0 < it \<and> it \<le> int (length (node_list s))
         then let ns = take (nat it) (node_list s)
              in Some (s\<lparr>node_list := ns[nat it - 1 := clear_backtracking (ns ! (nat it - 1))]\<rparr>)
         else None)"

subsection \<open>Lemmas\<close>

definition stack_inv :: "nodestack \<Rightarrow> bool" where
  "stack_inv s \<longleftrightarrow> -1 \<le> head_idx s \<and> head_idx s < int (length (node_list s)) \<and>
     (\<forall>n \<in> set (node_list s). node_inv n)"

lemma new_nodestack_inv: "stack_inv new_nodestack"
  by (simp add: stack_inv_def new_nodestack_def)

lemma reset_execution_inv: "stack_inv s \<Longrightarrow> stack_inv (reset_execution s)"
  by (simp add: stack_inv_def reset_execution_def)

lemma full_reset_new: "full_reset s = new_nodestack"
  by (simp add: full_reset_def reset_execution_def new_nodestack_def)

lemma get_head_Some:
  "stack_inv s \<Longrightarrow> get_head s = Some n \<longleftrightarrow>
     0 \<le> head_idx s \<and> n = node_list s ! nat (head_idx s)"
  by (auto simp: get_head_def stack_inv_def)

lemma pop_restofstack_inv: "stack_inv s \<Longrightarrow> 0 < k \<Longrightarrow> pop_restofstack k s = Some s' \<Longrightarrow> stack_inv s'"
  by (auto simp: stack_inv_def pop_restofstack_def Let_def clear_backtracking_inv
      dest!: in_set_takeD set_update_subset_insert [THEN subsetD] split: if_splits)

lemma explore_child_fields:
  assumes "explore_child t en n = Some n'"
  shows "nd_action n' = nd_action n" "nd_num_threads n' = nd_num_threads n" "fairness n' = fairness n"
    "t < length (backtrack n)" "explored_children n' = (explored_children n)[t := True]"
    "backtrack n' = (backtrack n)[t := False]"
  using assms
  by (cases "backtrack n ! t"; auto simp: explore_child_def explore_def Let_def bind_eq_Some_conv)+

text \<open>The two cases of \<open>explore_action\<close>: replay of the recorded node, or extension of the stack.\<close>

lemma explore_action_replay:
  "head_idx s + 1 < int (length (node_list s)) \<Longrightarrow>
   explore_action params nt act en (acts, s) =
     Some (Some (nd_action (node_list s ! nat (head_idx s + 1))), acts, s\<lparr>head_idx := head_idx s + 1\<rparr>)"
  by (simp add: explore_action_def)

lemma explore_action_extend:
  assumes "explore_action params nt act en (acts, s) = Some (None, acts', s')"
  shows "head_idx s + 1 \<ge> int (length (node_list s)) \<and>
    (\<exists>ns parent prev n.
      (get_head s = None \<and> ns = node_list s \<and> parent = None \<and> prev = None \<or>
       (\<exists>h h'. get_head s = Some h \<and> explore_child (ma_tid (acts act)) en h = Some h' \<and>
          ns = (node_list s)[nat (head_idx s) := h'] \<and> parent = Some h' \<and>
          fairness_node params acts ns (head_idx s) = Some prev)) \<and>
      new_node params act (ma_tid (acts act)) parent
        (if ma_type (acts act) = THREAD_CREATE then nt + 1 else nt) prev = Some n \<and>
      acts' = acts(act := (acts act)\<lparr>ma_node := Some (length ns)\<rparr>) \<and>
      node_list s' = ns @ [n] \<and> head_idx s' = head_idx s + 1)"
proof (cases "head_idx s + 1 < int (length (node_list s))")
  case True
  with assms show ?thesis by (simp add: explore_action_replay)
next
  case False
  show ?thesis
  proof (cases "get_head s")
    case None
    with False assms show ?thesis
      by (auto simp: explore_action_def bind_eq_Some_conv Let_def simp del: fun_upd_apply)
  next
    case (Some h)
    with False assms show ?thesis
      by (auto simp: explore_action_def bind_eq_Some_conv Let_def simp del: fun_upd_apply)
  qed
qed

lemma explore_action_inv:
  assumes inv: "stack_inv s" and exp: "explore_action params nt act en (acts, s) = Some (r, acts', s')"
  shows "stack_inv s'"
proof (cases r)
  case (Some a)
  with exp have "head_idx s + 1 < int (length (node_list s))" "s' = s\<lparr>head_idx := head_idx s + 1\<rparr>"
    by (auto simp: explore_action_def bind_eq_Some_conv split: if_splits)
  with inv show ?thesis by (simp add: stack_inv_def)
next
  case None
  from explore_action_extend [OF exp [unfolded None]] inv show ?thesis
    by (auto simp: stack_inv_def get_head_def
        dest!: new_node_inv explore_child_inv set_update_subset_insert [THEN subsetD] split: if_splits)
qed

subsection \<open>Replay\<close>

text \<open>A sequence of explorations: each step gives the thread count, the action and the enabled array.\<close>

type_synonym explore_step = "nat \<times> act_ptr \<times> enabled_type list option"

fun explore_run ::
  "model_params \<Rightarrow> explore_step list \<Rightarrow> (act_ptr \<Rightarrow> model_action) \<times> nodestack \<Rightarrow>
   (act_ptr option list \<times> (act_ptr \<Rightarrow> model_action) \<times> nodestack) option" where
  "explore_run params [] st = Some ([], st)"
| "explore_run params ((nt, act, en) # steps) st = do {
     (r, st) \<leftarrow> explore_action params nt act en st;
     (rs, st) \<leftarrow> explore_run params steps st;
     Some (r # rs, st)
   }"

lemma explore_run_replay:
  "-1 \<le> head_idx s \<Longrightarrow> head_idx s + int (length steps) < int (length (node_list s)) \<Longrightarrow>
   explore_run params steps (acts, s) =
     Some (map (\<lambda>n. Some (nd_action n)) (take (length steps) (drop (nat (head_idx s + 1)) (node_list s))),
           acts, s\<lparr>head_idx := head_idx s + int (length steps)\<rparr>)"
proof (induction steps arbitrary: s)
  case Nil
  then show ?case by simp
next
  case (Cons st steps)
  obtain nt act en where st: "st = (nt, act, en)" by (cases st) auto
  define k where "k = nat (head_idx s + 1)"
  have k: "head_idx s = int k - 1" "k + length steps < length (node_list s)"
    using Cons.prems by (simp_all add: k_def)
  let ?s = "s\<lparr>head_idx := int k\<rparr>"
  have h: "head_idx s + 1 < int (length (node_list s))" using k by simp
  have d: "drop k (node_list s) = node_list s ! k # drop (k + 1) (node_list s)"
    using k(2) by (simp add: Cons_nth_drop_Suc)
  have "explore_run params steps (acts, ?s) =
     Some (map (\<lambda>n. Some (nd_action n)) (take (length steps) (drop (k + 1) (node_list s))), acts,
           s\<lparr>head_idx := int k + int (length steps)\<rparr>)"
    using Cons.IH [of ?s] k(2) by (simp add: nat_add_distrib)
  moreover have "explore_action params nt act en (acts, s) = Some (Some (nd_action (node_list s ! k)), acts, ?s)"
    using explore_action_replay [OF h] k(1) by simp
  ultimately show ?case by (simp add: st d k(1))
qed

text \<open>
  Replay: after \<open>reset_execution\<close>, exploring any actions returns the recorded actions of the
  stack in order, whatever the new actions are, and changes neither the nodes nor the actions,
  as long as the run does not go beyond the recorded nodes.
\<close>

theorem replay_returns_recorded:
  assumes "length steps \<le> length (node_list s)"
  shows "explore_run params steps (acts, reset_execution s) =
     Some (map (\<lambda>n. Some (nd_action n)) (take (length steps) (node_list s)), acts,
           s\<lparr>head_idx := int (length steps) - 1\<rparr>)"
  using explore_run_replay [of "reset_execution s" steps params acts] assms
  by (simp add: reset_execution_def)

theorem replay_returns_recorded_witness:
  "fst (the (explore_run sample_params [(2, 9, None)]
     (\<lambda>_. sample_action ATOMIC_READ 1 1, reset_execution \<lparr>node_list = [sample_node], head_idx = 0, total_nodes = 2\<rparr>)))
   = [Some 5]"
proof -
  have "nd_action sample_node = 5" by code_simp
  with replay_returns_recorded [of "[(2, 9, None)]" "\<lparr>node_list = [sample_node], head_idx = 0, total_nodes = 2\<rparr>"]
  show ?thesis by simp
qed

subsection \<open>The fairness window\<close>

text \<open>
  The nodes whose actions the turn counters of node \<open>j\<close> count for a window of \<open>w\<close> steps: the
  last \<open>w + 1\<close> nodes, and the very first node, which is never taken out again.
\<close>

definition window :: "nat \<Rightarrow> nat \<Rightarrow> nat set" where
  "window w j = {k. k \<le> j \<and> (k = 0 \<or> j \<le> k + w)}"

definition turns_in :: "(nat \<Rightarrow> thread_id) \<Rightarrow> nat \<Rightarrow> nat \<Rightarrow> thread_id \<Rightarrow> nat" where
  "turns_in tid w j i = card {k \<in> window w j. tid k = i}"

lemma finite_window [simp]: "finite (window w j)"
  by (rule finite_subset [of _ "{..j}"]) (auto simp: window_def)

lemma turns_in_0: "turns_in tid w 0 i = (if tid 0 = i then 1 else 0)"
proof -
  have "{k \<in> window w 0. tid k = i} = (if tid 0 = i then {0} else {})" by (auto simp: window_def)
  then show ?thesis by (simp add: turns_in_def)
qed

lemma turns_in_Suc:
  "turns_in tid w (Suc j) i + (if w < j \<and> tid (j - w) = i then 1 else 0) =
   turns_in tid w j i + (if tid (Suc j) = i then 1 else 0)"
proof -
  let ?A = "{k \<in> window w j. tid k = i}" and ?B = "{k \<in> window w (Suc j). tid k = i}"
  let ?new = "{k. k = Suc j \<and> tid k = i}" and ?old = "{k. k = j - w \<and> w < j \<and> tid k = i}"
  have "?B \<union> ?old = ?A \<union> ?new" by (auto simp: window_def)
  moreover have "?B \<inter> ?old = {}" "?A \<inter> ?new = {}" by (auto simp: window_def)
  moreover have "finite ?A" "finite ?B" "finite ?old" "finite ?new" by simp_all
  ultimately have "card ?B + card ?old = card ?A + card ?new"
    using card_Un_disjoint [of ?B ?old] card_Un_disjoint [of ?A ?new] by simp
  moreover have "card ?old = (if w < j \<and> tid (j - w) = i then 1 else 0)"
  proof -
    have "?old = (if w < j \<and> tid (j - w) = i then {j - w} else {})" by auto
    then show ?thesis by simp
  qed
  moreover have "card ?new = (if tid (Suc j) = i then 1 else 0)"
  proof -
    have "?new = (if tid (Suc j) = i then {Suc j} else {})" by auto
    then show ?thesis by simp
  qed
  ultimately show ?thesis by (simp add: turns_in_def)
qed

lemma fair_loop_nth:
  "fair_loop params t p prev is = Some fis \<Longrightarrow> k < length is \<Longrightarrow> fair_step params t p prev (is ! k) = Some (fis ! k)"
  by (induction "is" arbitrary: fis k) (auto simp: bind_eq_Some_conv nth_Cons split: nat.splits)

lemma fair_enter_reads:
  "turns (fair_enter en acting fi) = turns fi + (if acting then 1 else 0)"
  "priority (fair_enter en acting fi) = (priority fi \<and> \<not> acting)"
  by (simp_all add: fair_enter_def Let_def)

lemma fair_leave_reads:
  "turns (fair_leave params en acting fi) = turns fi - (if acting then 1 else 0)"
  "priority (fair_leave params en acting fi) \<Longrightarrow>
     priority fi \<or> turns (fair_leave params en acting fi) = 0"
  by (auto simp: fair_leave_def Let_def split: if_splits)

lemma fair_step_reads:
  assumes "fair_step params t parent prev i = Some fi"
  shows "turns fi = turns (base_fairness parent i) + (if i = t then 1 else 0)
            - (case prev of Some (pt, _) \<Rightarrow> if i = pt then 1 else 0 | None \<Rightarrow> 0) \<and>
         (priority fi \<longrightarrow> priority (base_fairness parent i) \<and> i \<noteq> t \<or> turns fi = 0)"
proof (cases prev)
  case None
  with assms show ?thesis by (auto simp: fair_step_def bind_eq_Some_conv fair_enter_reads)
next
  case (Some pv)
  obtain pt pp where pv: "pv = (pt, pp)" by (cases pv)
  from assms Some pv obtain en pen where fi:
      "fi = fair_leave params pen (i = pt) (fair_enter en (i = t) (base_fairness parent i))"
    by (auto simp: fair_step_def bind_eq_Some_conv)
  show ?thesis
  proof
    show "turns fi = turns (base_fairness parent i) + (if i = t then 1 else 0)
            - (case prev of Some (pt, _) \<Rightarrow> if i = pt then 1 else 0 | None \<Rightarrow> 0)"
      by (simp only: fi fair_leave_reads fair_enter_reads Some pv option.case prod.case)
    show "priority fi \<longrightarrow> priority (base_fairness parent i) \<and> i \<noteq> t \<or> turns fi = 0"
      using fair_leave_reads(2) [of params pen "i = pt" "fair_enter en (i = t) (base_fairness parent i)"]
      unfolding fi by (simp only: fair_enter_reads) blast
  qed
qed

lemma new_node_fairness:
  assumes "new_node params act t parent nt prev = Some n" "fairwindow params \<noteq> 0" "i < nt"
  shows "fair_step params t parent prev i = Some (fairness n ! i)"
  using assms fair_loop_nth [of params t parent prev "[0..<nt]" "fairness n" i]
  by (auto simp: new_node_def bind_eq_Some_conv)

text \<open>
  The invariant of a stack that only grows: threads act only once they exist, their number does
  not shrink, the turn counters count the window, and the first thread has no priority.
\<close>

definition fair_inv :: "model_params \<Rightarrow> (act_ptr \<Rightarrow> thread_id) \<Rightarrow> node list \<Rightarrow> bool" where
  "fair_inv params tid ns \<longleftrightarrow>
     (\<forall>j < length ns. tid (nd_action (ns ! j)) < nd_num_threads (ns ! j)) \<and>
     (\<forall>j k. k \<le> j \<and> j < length ns \<longrightarrow> nd_num_threads (ns ! k) \<le> nd_num_threads (ns ! j)) \<and>
     (\<forall>j < length ns. \<forall>i < nd_num_threads (ns ! j).
        turns (fairness (ns ! j) ! i) =
          of_nat (turns_in (\<lambda>k. tid (nd_action (ns ! k))) (unat (fairwindow params)) j i) \<and>
        (i = tid (nd_action (ns ! 0)) \<longrightarrow> \<not> priority (fairness (ns ! j) ! i)))"

lemma turns_in_cong:
  "(\<And>k. k \<le> j \<Longrightarrow> tid k = tid' k) \<Longrightarrow> turns_in tid w j i = turns_in tid' w j i"
  unfolding turns_in_def by (intro arg_cong [where f = card]) (auto simp: window_def)

lemma fair_inv_fields:
  assumes "map nd_action ns' = map nd_action ns" "map nd_num_threads ns' = map nd_num_threads ns"
    "map fairness ns' = map fairness ns"
  shows "fair_inv params tid ns' = fair_inv params tid ns"
proof -
  have len: "length ns' = length ns" using assms(1) by (metis length_map)
  have f: "nd_action (ns' ! k) = nd_action (ns ! k)" "nd_num_threads (ns' ! k) = nd_num_threads (ns ! k)"
    "fairness (ns' ! k) = fairness (ns ! k)" if "k < length ns" for k
    using assms that len by (metis nth_map)+
  have t: "turns_in (\<lambda>k. tid (nd_action (ns' ! k))) w j i = turns_in (\<lambda>k. tid (nd_action (ns ! k))) w j i"
    if "j < length ns" for w j i
    using that by (intro turns_in_cong) (simp add: f)
  show ?thesis
  proof (cases "ns = []")
    case True
    with len show ?thesis by (simp add: fair_inv_def)
  next
    case False
    then have z: "nd_action (ns' ! 0) = nd_action (ns ! 0)" by (intro f(1)) simp
    have "0 < length ns" using False by simp
    show ?thesis
      unfolding fair_inv_def len
      by (intro conj_cong refl all_cong1 imp_cong) (use z in \<open>auto simp: f t le_less_trans\<close>)
  qed
qed

lemma turns_in_none: "(\<And>k. k \<le> j \<Longrightarrow> tid k \<noteq> i) \<Longrightarrow> turns_in tid w j i = 0"
  unfolding turns_in_def by (auto simp: window_def)

lemma turns_in_first: "0 < turns_in tid w j (tid 0)" "turns_in tid w j i \<le> w + 2"
proof -
  have "0 \<in> {k \<in> window w j. tid k = tid 0}" by (simp add: window_def)
  then show "0 < turns_in tid w j (tid 0)"
    unfolding turns_in_def by (subst card_gt_0_iff) auto
  have "window w j \<subseteq> insert 0 {j - w..j}" by (auto simp: window_def)
  then have "{k \<in> window w j. tid k = i} \<subseteq> insert 0 {j - w..j}" by auto
  then have "turns_in tid w j i \<le> card (insert 0 {j - w..j})"
    unfolding turns_in_def by (intro card_mono) auto
  also have "\<dots> \<le> card {j - w..j} + 1" by (simp add: card_insert_if)
  also have "\<dots> \<le> w + 2" by simp
  finally show "turns_in tid w j i \<le> w + 2" .
qed

lemma fairness_node_prev:
  assumes "fairness_node params acts ns (int h) = Some prev" "fairwindow params \<noteq> 0"
    "unat (fairwindow params) < 2 ^ 31" "h < 2 ^ 31"
  shows "if unat (fairwindow params) < h
    then \<exists>p. prev = Some (ma_tid (acts (nd_action (ns ! (h - unat (fairwindow params))))), p)
    else prev = None"
proof -
  let ?w = "unat (fairwindow params)"
  have s: "sint (fairwindow params) = int ?w"
  proof -
    have "int (unat (fairwindow params)) < int (2 ^ 31)" using assms(3) by (simp only: of_nat_less_iff)
    then have "uint (fairwindow params) < 2 ^ 31" by simp
    then show ?thesis
    proof -
      have "- (2 ^ 31) \<le> uint (fairwindow params)" by (rule order_trans [OF _ uint_ge_0]) simp
      with \<open>uint (fairwindow params) < 2 ^ 31\<close>
      have "signed_take_bit 31 (uint (fairwindow params)) = uint (fairwindow params)"
        by (rule signed_take_bit_int_eq_self [rotated])
      then show ?thesis by (simp add: sint_uint)
    qed
  qed
  have k: "unat (word_of_int (int h) - fairwindow params :: 32 word) = h - ?w" if "?w < h"
  proof -
    have "(word_of_int (int h) :: 32 word) = of_nat h" by simp
    moreover have "unat (of_nat h :: 32 word) = h" using assms(4) by (simp add: unat_of_nat)
    ultimately show ?thesis using that by (simp add: unat_sub word_le_nat_alt)
  qed
  show ?thesis
  proof -
    have cmp: "sint (fairwindow params) < int h \<longleftrightarrow> ?w < h" unfolding s by (simp only: of_nat_less_iff)
    show ?thesis
      using assms(1,2) k unfolding fairness_node_def cmp Let_def
      by (cases "?w < h") (auto split: if_splits)
  qed
qed


text \<open>One extension of the stack.\<close>

lemma fair_inv_extend:
  assumes inv: "fair_inv params tid ns" and ne: "ns \<noteq> []" and len: "length ns \<le> 2 ^ 31"
    and prev: "fairness_node params acts ns (int (length ns) - 1) = Some prev"
    and tid: "tid = (\<lambda>a. ma_tid (acts a))"
    and new: "new_node params act (tid act) (Some (last ns)) nt prev = Some n"
    and w: "fairwindow params \<noteq> 0" "unat (fairwindow params) < 2 ^ 31"
    and ok: "tid act < nt" "nd_num_threads (last ns) \<le> nt"
    and fl: "length (fairness (last ns)) = nd_num_threads (last ns)"
  shows "fair_inv params tid (ns @ [n])"
proof -
  let ?w = "unat (fairwindow params)"
  obtain h where h: "length ns = Suc h" using ne by (cases ns) auto
  have last: "last ns = ns ! h" using ne h by (simp add: last_conv_nth)
  have n: "nd_action n = act" "nd_num_threads n = nt" using new_node_fields [OF new] by auto
  define t where "t k = tid (nd_action ((ns @ [n]) ! k))" for k
  have t_old: "t k = tid (nd_action (ns ! k))" if "k \<le> h" for k
    using that h by (simp add: t_def nth_append)
  have t_new: "t (Suc h) = tid act" using h n by (simp add: t_def nth_append)
  have old: "turns (fairness (ns ! j) ! i) = of_nat (turns_in t ?w j i)"
    "i = t 0 \<Longrightarrow> \<not> priority (fairness (ns ! j) ! i)"
    if "j \<le> h" "i < nd_num_threads (ns ! j)" for i j
  proof -
    have "turns_in t ?w j i = turns_in (\<lambda>k. tid (nd_action (ns ! k))) ?w j i"
      by (rule turns_in_cong) (use that t_old in simp)
    with inv that h t_old [of 0] show "turns (fairness (ns ! j) ! i) = of_nat (turns_in t ?w j i)"
      "i = t 0 \<Longrightarrow> \<not> priority (fairness (ns ! j) ! i)"
      by (auto simp: fair_inv_def)
  qed
  have base: "turns (base_fairness (Some (last ns)) i) = of_nat (turns_in t ?w h i) \<and>
      (i = t 0 \<longrightarrow> \<not> priority (base_fairness (Some (last ns)) i))" for i
  proof (cases "i < nd_num_threads (last ns)")
    case True
    then show ?thesis using old [of h i] by (simp add: base_fairness_def last)
  next
    case False
    have "t k \<noteq> i" if "k \<le> h" for k
    proof -
      have "tid (nd_action (ns ! k)) < nd_num_threads (ns ! k)"
        "nd_num_threads (ns ! k) \<le> nd_num_threads (ns ! h)"
        using inv that h by (auto simp: fair_inv_def)
      with False that t_old show ?thesis by (simp add: last)
    qed
    then have "turns_in t ?w h i = 0" by (rule turns_in_none)
    with False show ?thesis by (simp add: base_fairness_def no_fairness_def)
  qed
  have pv: "(case prev of Some (pt, _) \<Rightarrow> if i = pt then 1 else 0 | None \<Rightarrow> 0) =
      (of_nat (if ?w < h \<and> t (h - ?w) = i then 1 else 0) :: 32 word)" for i
  proof -
    have "fairness_node params acts ns (int h) = Some prev" using prev h by simp
    from fairness_node_prev [OF this w] len h
    have "if ?w < h then \<exists>p. prev = Some (t (h - ?w), p) else prev = None"
      by (simp add: t_old tid)
    then show ?thesis by (auto split: if_splits)
  qed
  have new_turns: "turns (fairness n ! i) = of_nat (turns_in t ?w (Suc h) i) \<and>
      (i = t 0 \<longrightarrow> \<not> priority (fairness n ! i))" if i: "i < nt" for i
  proof -
    from fair_step_reads [OF new_node_fairness [OF new w(1) i]] base [of i]
    have f: "turns (fairness n ! i) = of_nat (turns_in t ?w h i) + (if i = tid act then 1 else 0)
          - of_nat (if ?w < h \<and> t (h - ?w) = i then 1 else 0)"
      and p: "i = t 0 \<Longrightarrow> priority (fairness n ! i) \<Longrightarrow> turns (fairness n ! i) = 0"
      unfolding pv by auto
    have "of_nat (turns_in t ?w h i + (if t (Suc h) = i then 1 else 0)) =
        (of_nat (turns_in t ?w (Suc h) i + (if ?w < h \<and> t (h - ?w) = i then 1 else 0)) :: 32 word)"
      using turns_in_Suc [of t ?w h i] by simp
    then have turns: "turns (fairness n ! i) = of_nat (turns_in t ?w (Suc h) i)"
      unfolding f t_new by (cases "i = tid act") (auto simp: algebra_simps)
    moreover have "(of_nat (turns_in t ?w (Suc h) i) :: 32 word) \<noteq> 0" if "i = t 0"
    proof -
      have "0 < turns_in t ?w (Suc h) i" "turns_in t ?w (Suc h) i \<le> ?w + 2"
        using turns_in_first that by auto
      with w(2) have "unat (of_nat (turns_in t ?w (Suc h) i) :: 32 word) = turns_in t ?w (Suc h) i"
        by (simp add: unat_of_nat)
      with \<open>0 < turns_in t ?w (Suc h) i\<close> show ?thesis by force
    qed
    ultimately show ?thesis using p by auto
  qed
  show ?thesis
    unfolding fair_inv_def t_def [symmetric]
  proof (intro conjI allI impI)
    fix j assume j: "j < length (ns @ [n])"
    show "t j < nd_num_threads ((ns @ [n]) ! j)"
      using inv ok(1) t_old t_new n h j by (cases "j \<le> h") (auto simp: fair_inv_def nth_append less_Suc_eq_le le_Suc_eq)
  next
    fix j k assume "k \<le> j \<and> j < length (ns @ [n])"
    moreover have "nd_num_threads (ns ! k) \<le> nt" if "k \<le> h"
    proof -
      have "nd_num_threads (ns ! k) \<le> nd_num_threads (ns ! h)"
        using inv that h by (simp add: fair_inv_def)
      with ok(2) last show ?thesis by simp
    qed
    ultimately show "nd_num_threads ((ns @ [n]) ! k) \<le> nd_num_threads ((ns @ [n]) ! j)"
      using inv n h
      by (cases "j \<le> h"; cases "k \<le> h") (auto simp: fair_inv_def nth_append less_Suc_eq_le)
  next
    fix j i assume j: "j < length (ns @ [n])" and i: "i < nd_num_threads ((ns @ [n]) ! j)"
    show "turns (fairness ((ns @ [n]) ! j) ! i) = of_nat (turns_in t ?w j i)"
      using old(1) [of j i] new_turns [of i] i j h n by (cases "j \<le> h") (auto simp: nth_append le_Suc_eq less_Suc_eq_le)
    show "\<not> priority (fairness ((ns @ [n]) ! j) ! i)" if "i = t 0"
      using old(2) [of j i] new_turns [of i] i j h n that
      by (cases "j \<le> h") (auto simp: nth_append le_Suc_eq less_Suc_eq_le)
  qed
qed


text \<open>
  What a caller guarantees of its steps: the acting thread exists, and threads are only created.
\<close>

fun steps_ok :: "(act_ptr \<Rightarrow> model_action) \<Rightarrow> nat \<Rightarrow> explore_step list \<Rightarrow> bool" where
  "steps_ok acts m [] \<longleftrightarrow> True"
| "steps_ok acts m ((nt, act, en) # steps) \<longleftrightarrow>
     (let n = (if ma_type (acts act) = THREAD_CREATE then nt + 1 else nt)
      in ma_tid (acts act) < n \<and> m \<le> n \<and> steps_ok acts n steps)"

lemma steps_ok_cong:
  "(\<And>a. ma_type (acts' a) = ma_type (acts a) \<and> ma_tid (acts' a) = ma_tid (acts a)) \<Longrightarrow>
   steps_ok acts' m steps = steps_ok acts m steps"
  by (induction acts m steps rule: steps_ok.induct) (simp_all add: Let_def)

text \<open>A stack at its top, its nodes in the order of the window invariant.\<close>

definition grown :: "model_params \<Rightarrow> (act_ptr \<Rightarrow> model_action) \<Rightarrow> nat \<Rightarrow> nodestack \<Rightarrow> bool" where
  "grown params acts m s \<longleftrightarrow> stack_inv s \<and> head_idx s = int (length (node_list s)) - 1 \<and>
     fair_inv params (\<lambda>a. ma_tid (acts a)) (node_list s) \<and>
     (node_list s \<noteq> [] \<longrightarrow> nd_num_threads (last (node_list s)) = m)"

lemma fair_inv_single:
  assumes new: "new_node params act t None nt None = Some n" and w: "fairwindow params \<noteq> 0"
    and t: "t = tid act" "t < nt"
  shows "fair_inv params tid [n]"
proof -
  have n: "nd_action n = act" "nd_num_threads n = nt" using new_node_fields [OF new] by auto
  have "turns (fairness n ! i) = of_nat (if i = t then 1 else 0) \<and> (i = t \<longrightarrow> \<not> priority (fairness n ! i))"
    if "i < nt" for i
    using fair_step_reads [OF new_node_fairness [OF new w that]]
    by (auto simp: base_fairness_def no_fairness_def)
  then show ?thesis using n t by (auto simp: fair_inv_def turns_in_0)
qed

lemma grown_extend:
  assumes g: "grown params acts m s" and w: "fairwindow params \<noteq> 0" "unat (fairwindow params) < 2 ^ 31"
    and len: "length (node_list s) < 2 ^ 31"
    and exp: "explore_action params nt act en (acts, s) = Some (r, acts', s')"
    and m': "m' = (if ma_type (acts act) = THREAD_CREATE then nt + 1 else nt)"
    and ok: "ma_tid (acts act) < m'" "m \<le> m'"
  shows "r = None \<and> grown params acts' m' s' \<and>
    map nd_action (node_list s') = map nd_action (node_list s) @ [act] \<and>
    (\<forall>a. ma_type (acts' a) = ma_type (acts a) \<and> ma_tid (acts' a) = ma_tid (acts a))"
proof -
  have inv: "stack_inv s" and h: "head_idx s = int (length (node_list s)) - 1"
    using g by (simp_all add: grown_def)
  have r: "r = None" using exp h by (auto simp: explore_action_def Let_def bind_eq_Some_conv)
  from explore_action_extend [OF exp [unfolded r]] obtain ns parent prev n where
    cases: "get_head s = None \<and> ns = node_list s \<and> parent = None \<and> prev = None \<or>
       (\<exists>h h'. get_head s = Some h \<and> explore_child (ma_tid (acts act)) en h = Some h' \<and>
          ns = (node_list s)[nat (head_idx s) := h'] \<and> parent = Some h' \<and>
          fairness_node params acts ns (head_idx s) = Some prev)"
    and new: "new_node params act (ma_tid (acts act)) parent m' prev = Some n"
    and s': "acts' = acts(act := (acts act)\<lparr>ma_node := Some (length ns)\<rparr>)"
      "node_list s' = ns @ [n]" "head_idx s' = head_idx s + 1"
    unfolding m' by blast
  have same: "ma_type (acts' a) = ma_type (acts a)" "ma_tid (acts' a) = ma_tid (acts a)" for a
    by (simp_all add: s')
  have fields: "nd_action n = act" "nd_num_threads n = m'" using new_node_fields [OF new] by auto
  have "fair_inv params (\<lambda>a. ma_tid (acts a)) (ns @ [n]) \<and> length ns = length (node_list s) \<and>
      map nd_action ns = map nd_action (node_list s)"
    using cases
  proof
    assume c: "get_head s = None \<and> ns = node_list s \<and> parent = None \<and> prev = None"
    then have "node_list s = []" using h by (auto simp: get_head_def split: if_splits)
    with c fair_inv_single [of params act "ma_tid (acts act)" m' n] new w ok show ?thesis by simp
  next
    assume "\<exists>h h'. get_head s = Some h \<and> explore_child (ma_tid (acts act)) en h = Some h' \<and>
          ns = (node_list s)[nat (head_idx s) := h'] \<and> parent = Some h' \<and>
          fairness_node params acts ns (head_idx s) = Some prev"
    then obtain hn hn' where c: "get_head s = Some hn" "explore_child (ma_tid (acts act)) en hn = Some hn'"
      "ns = (node_list s)[nat (head_idx s) := hn']" "parent = Some hn'"
      "fairness_node params acts ns (head_idx s) = Some prev" by blast
    have ne: "node_list s \<noteq> []" using c(1) by (auto simp: get_head_def split: if_splits)
    have k: "nat (head_idx s) = length (node_list s) - 1" using h ne by (cases "node_list s") auto
    have hn: "hn = last (node_list s)"
      using c(1) k ne by (auto simp: get_head_def last_conv_nth split: if_splits)
    have upd: "map f ns = map f (node_list s)" if "f hn' = f hn" for f :: "node \<Rightarrow> 'b"
    proof -
      let ?k = "length (node_list s) - 1"
      have "f hn' = map f (node_list s) ! ?k" using that hn ne by (simp add: last_conv_nth)
      then have "map f ns = (map f (node_list s))[?k := map f (node_list s) ! ?k]"
        by (simp only: c(3) k map_update)
      then show ?thesis by (simp only: list_update_id)
    qed
    note f = explore_child_fields [OF c(2)]
    have len_ns: "length ns = length (node_list s)" by (simp add: c(3))
    have ne': "ns \<noteq> []" using len_ns ne by (metis length_0_conv)
    have last: "last ns = hn'" using ne by (simp add: c(3) k last_list_update)
    have "fair_inv params (\<lambda>a. ma_tid (acts a)) (node_list s)" using g by (simp add: grown_def)
    then have fi: "fair_inv params (\<lambda>a. ma_tid (acts a)) ns"
      by (subst fair_inv_fields [OF upd upd upd]) (simp_all add: f)
    have "node_inv hn" using inv hn ne by (simp add: stack_inv_def)
    then have "length (fairness hn') = nd_num_threads hn'" by (simp add: f node_inv_def)
    moreover have "nd_num_threads hn' \<le> m'" using g ne ok(2) hn by (simp add: grown_def f)
    ultimately have "fair_inv params (\<lambda>a. ma_tid (acts a)) (ns @ [n])"
      using fair_inv_extend [where acts = acts and prev = prev and act = act and nt = m' and n = n, OF fi ne' _ _ refl] c(4,5) len len_ns h new w ok(1) last
      by simp
    with len_ns upd [of nd_action] f show ?thesis by simp
  qed
  then show ?thesis
    using r same explore_action_inv [OF inv exp] s' h fields by (simp add: grown_def)
qed

lemma explore_run_inv:
  "explore_run params steps (acts, s) = Some (rs, acts', s') \<Longrightarrow> stack_inv s \<Longrightarrow> stack_inv s'"
proof (induction steps arbitrary: acts s rs)
  case Nil
  then show ?case by simp
next
  case (Cons st steps)
  then show ?case
    by (cases st) (auto simp: bind_eq_Some_conv dest: explore_action_inv)
qed

lemma grown_run:
  assumes "grown params acts m s" "fairwindow params \<noteq> 0" "unat (fairwindow params) < 2 ^ 31"
    and "length (node_list s) + length steps < 2 ^ 31" "steps_ok acts m steps"
    and "explore_run params steps (acts, s) = Some (rs, acts', s')"
  shows "fair_inv params (\<lambda>a. ma_tid (acts a)) (node_list s') \<and>
    map nd_action (node_list s') = map nd_action (node_list s) @ map (\<lambda>st. fst (snd st)) steps"
  using assms
proof (induction steps arbitrary: acts m s rs)
  case Nil
  then show ?case by (simp add: grown_def)
next
  case (Cons st steps)
  obtain nt act en where st: "st = (nt, act, en)" by (cases st) auto
  from Cons.prems(6) st obtain r acts1 s1 rs1 where
    e: "explore_action params nt act en (acts, s) = Some (r, acts1, s1)"
    and run: "explore_run params steps (acts1, s1) = Some (rs1, acts', s')"
    by (auto simp: bind_eq_Some_conv)
  let ?m = "if ma_type (acts act) = THREAD_CREATE then nt + 1 else nt"
  have ok: "ma_tid (acts act) < ?m" "m \<le> ?m" "steps_ok acts ?m steps"
    using Cons.prems(5) by (simp_all add: st Let_def)
  have "length (node_list s) < 2 ^ 31" using Cons.prems(4) by simp
  from grown_extend [OF Cons.prems(1-3) this e refl ok(1,2)]
  have g: "grown params acts1 ?m s1"
    and nodes: "map nd_action (node_list s1) = map nd_action (node_list s) @ [act]"
    and same: "\<And>a. ma_type (acts1 a) = ma_type (acts a) \<and> ma_tid (acts1 a) = ma_tid (acts a)" by auto
  have len: "length (node_list s1) = length (node_list s) + 1"
    using nodes by (metis length_append_singleton length_map Suc_eq_plus1)
  have ok': "steps_ok acts1 ?m steps" using ok(3) steps_ok_cong [of acts1 acts, OF same] by blast
  have "length (node_list s1) + length steps < 2 ^ 31" using len Cons.prems(4) by simp
  from Cons.IH [OF g Cons.prems(2,3) this ok' run] same nodes st show ?case by simp
qed


lemma new_nodestack_grown: "grown params acts 0 new_nodestack"
  by (simp add: grown_def new_nodestack_def stack_inv_def fair_inv_def)

text \<open>
  The fairness window: on every stack grown from empty, the turn counter of thread \<open>i\<close> at node
  \<open>j\<close> is the number of its actions among the last \<open>fairwindow + 1\<close> nodes, plus one if it performed
  the very first action, which the window never drops.
\<close>

theorem turns_count_window:
  assumes "explore_run params steps (acts, new_nodestack) = Some (rs, acts', s)"
    and "steps_ok acts 0 steps" "length steps < 2 ^ 31"
    and "fairwindow params \<noteq> 0" "unat (fairwindow params) < 2 ^ 31"
    and "j < length steps" "i < nd_num_threads (node_list s ! j)"
  shows "turns (fairness (node_list s ! j) ! i) = of_nat (card {k. k \<le> j \<and>
     (k = 0 \<or> j \<le> k + unat (fairwindow params)) \<and> ma_tid (acts (fst (snd (steps ! k)))) = i})"
proof -
  from grown_run [OF new_nodestack_grown assms(4,5) _ assms(2,1)] assms(3)
  have inv: "fair_inv params (\<lambda>a. ma_tid (acts a)) (node_list s)"
    and nodes: "map nd_action (node_list s) = map (\<lambda>st. fst (snd st)) steps"
    by (simp_all add: new_nodestack_def)
  have len: "length (node_list s) = length steps" using nodes by (metis length_map)
  have act: "nd_action (node_list s ! k) = fst (snd (steps ! k))" if "k < length steps" for k
    using nodes that len by (metis nth_map)
  have "turns (fairness (node_list s ! j) ! i) =
      of_nat (turns_in (\<lambda>k. ma_tid (acts (nd_action (node_list s ! k)))) (unat (fairwindow params)) j i)"
    using inv assms(6,7) len by (simp add: fair_inv_def)
  also have "turns_in (\<lambda>k. ma_tid (acts (nd_action (node_list s ! k)))) (unat (fairwindow params)) j i =
      turns_in (\<lambda>k. ma_tid (acts (fst (snd (steps ! k))))) (unat (fairwindow params)) j i"
    by (rule turns_in_cong) (use assms(6) act in simp)
  finally show ?thesis by (simp add: turns_in_def window_def conj_assoc)
qed

text \<open>One action of thread 1, then three of thread 0 while thread 1 stays enabled; a window of one step.\<close>

definition fair_sample_params :: model_params where
  "fair_sample_params = sample_params\<lparr>fairwindow := 1\<rparr>"

definition fair_sample_steps :: "explore_step list" where
  "fair_sample_steps = [(2, 7, None), (2, 8, Some [THREAD_ENABLED, THREAD_ENABLED]),
     (2, 9, Some [THREAD_ENABLED, THREAD_ENABLED]), (2, 10, Some [THREAD_ENABLED, THREAD_ENABLED])]"

definition fair_sample_actions :: "act_ptr \<Rightarrow> model_action" where
  "fair_sample_actions a = sample_action ATOMIC_WRITE (if a = 7 then 1 else 0) 1"

definition fair_sample_stack :: nodestack where
  "fair_sample_stack = snd (snd (the (explore_run fair_sample_params fair_sample_steps
     (fair_sample_actions, new_nodestack))))"

lemma fair_sample_run:
  "\<exists>rs acts'. explore_run fair_sample_params fair_sample_steps (fair_sample_actions, new_nodestack) =
     Some (rs, acts', fair_sample_stack)"
proof -
  have "explore_run fair_sample_params fair_sample_steps (fair_sample_actions, new_nodestack) \<noteq> None"
    by code_simp
  then obtain r where "explore_run fair_sample_params fair_sample_steps (fair_sample_actions, new_nodestack) = Some r"
    by blast
  then show ?thesis by (cases r) (simp add: fair_sample_stack_def)
qed

lemma fair_sample_ok:
  "steps_ok fair_sample_actions 0 fair_sample_steps" "length fair_sample_steps = 4"
  "fairwindow fair_sample_params = 1" "nd_num_threads (node_list fair_sample_stack ! 3) = 2"
  by code_simp+

theorem turns_count_window_witness:
  "turns (fairness (node_list fair_sample_stack ! 3) ! 1) = of_nat (card {k. k \<le> 3 \<and>
     (k = 0 \<or> 3 \<le> k + unat (fairwindow fair_sample_params)) \<and>
     ma_tid (fair_sample_actions (fst (snd (fair_sample_steps ! k)))) = (1::nat)})"
proof -
  obtain rs acts' where "explore_run fair_sample_params fair_sample_steps (fair_sample_actions, new_nodestack) =
     Some (rs, acts', fair_sample_stack)" using fair_sample_run by blast
  from turns_count_window [OF this] fair_sample_ok show ?thesis by simp
qed

text \<open>
  the thread of the first action never gets priority, however long it stays enabled without
  being run: its first turn is never taken out of the window, so its counter never returns to 0.
\<close>

theorem first_thread_never_gets_priority:
  assumes "explore_run params steps (acts, new_nodestack) = Some (rs, acts', s)"
    and "steps_ok acts 0 steps" "length steps < 2 ^ 31"
    and "fairwindow params \<noteq> 0" "unat (fairwindow params) < 2 ^ 31"
    and "j < length steps"
  shows "has_priority (node_list s ! j) (ma_tid (acts (fst (snd (steps ! 0))))) = Some False"
proof -
  let ?t = "ma_tid (acts (fst (snd (steps ! 0))))"
  from grown_run [OF new_nodestack_grown assms(4,5) _ assms(2,1)] assms(3)
  have inv: "fair_inv params (\<lambda>a. ma_tid (acts a)) (node_list s)"
    and nodes: "map nd_action (node_list s) = map (\<lambda>st. fst (snd st)) steps"
    by (simp_all add: new_nodestack_def)
  have len: "length (node_list s) = length steps" using nodes by (metis length_map)
  have "nd_action (node_list s ! 0) = fst (snd (steps ! 0))"
    using nodes assms(6) len by (metis gr_implies_not_zero nth_map neq0_conv)
  moreover have "0 < length (node_list s)" using assms(6) len by linarith
  ultimately have "?t < nd_num_threads (node_list s ! 0)"
    and np: "?t < nd_num_threads (node_list s ! j) \<Longrightarrow> \<not> priority (fairness (node_list s ! j) ! ?t)"
    using inv assms(6) len unfolding fair_inv_def by (metis, auto)
  moreover have "nd_num_threads (node_list s ! 0) \<le> nd_num_threads (node_list s ! j)"
    using inv assms(6) len by (simp add: fair_inv_def)
  ultimately have t: "?t < nd_num_threads (node_list s ! j)" by simp
  have "stack_inv s" using explore_run_inv [OF assms(1) new_nodestack_inv] .
  then have "length (fairness (node_list s ! j)) = nd_num_threads (node_list s ! j)"
    using assms(6) len by (auto simp: stack_inv_def node_inv_def)
  with t np show ?thesis by (simp add: has_priority_def)
qed

theorem first_thread_never_gets_priority_witness:
  "has_priority (node_list fair_sample_stack ! 3) 1 = Some False"
proof -
  obtain rs acts' where r: "explore_run fair_sample_params fair_sample_steps (fair_sample_actions, new_nodestack) =
     Some (rs, acts', fair_sample_stack)" using fair_sample_run by blast
  have "ma_tid (fair_sample_actions (fst (snd (fair_sample_steps ! 0)))) = 1" by code_simp
  with first_thread_never_gets_priority [OF r, of 3] fair_sample_ok show ?thesis by simp
qed

end
