(* ===== verification/Thread_Selection.thy ===== *)
theory Thread_Selection
  imports Node_Stack
begin

text \<open>
  The choice of the next thread to run (\<open>Scheduler::select_next_thread\<close> of \<open>schedule.cc\<close>): a
  round-robin over the threads, restricted by the fairness priorities of the current node
  (\<open>params.fairwindow\<close>) and by the yield relation (\<open>params.yieldon\<close>). The node's priorities and
  yield data are read through \<open>has_priority\<close> and \<open>has_priority_over\<close>, which are undefined for
  threads the node does not know; then the selection is undefined as well.
\<close>

subsection \<open>Operations\<close>

text \<open>The first loop: is there an enabled thread that has priority?\<close>

fun priority_loop :: "node \<Rightarrow> enabled_type list \<Rightarrow> nat \<Rightarrow> bool \<Rightarrow> bool option" where
  "priority_loop n [] i found = Some found"
| "priority_loop n (e # es) i found = do {
     p \<leftarrow> has_priority n i;
     priority_loop n es (i + 1) (if p \<and> e \<noteq> THREAD_DISABLED then True else found)
   }"

text \<open>The inner loop: is the candidate barred because it has yielded to an enabled thread?\<close>

fun yield_loop :: "node \<Rightarrow> thread_id \<Rightarrow> enabled_type list \<Rightarrow> nat \<Rightarrow> bool option" where
  "yield_loop n t [] j = Some False"
| "yield_loop n t (e # es) j =
     (if e \<noteq> THREAD_DISABLED
      then do { over \<leftarrow> has_priority_over n t j; if over then Some True else yield_loop n t es (j + 1) }
      else yield_loop n t es (j + 1))"

definition may_run :: "model_params \<Rightarrow> node \<Rightarrow> enabled_type list \<Rightarrow> bool \<Rightarrow> thread_id \<Rightarrow> bool option" where
  "may_run params n en have_priority t = do {
     bad \<leftarrow> (if yieldon params then yield_loop n t en 0 else Some False);
     if bad then Some False
     else if en ! t = THREAD_ENABLED
     then if \<not> have_priority then Some True else has_priority n t
     else Some False
   }"

text \<open>
  The round-robin loop over the remaining offsets, carrying \<open>curr_thread_index\<close>; it returns the
  chosen thread, if any, and the index it stopped at.
\<close>

fun robin_loop ::
  "model_params \<Rightarrow> node \<Rightarrow> enabled_type list \<Rightarrow> bool \<Rightarrow> nat \<Rightarrow> nat list \<Rightarrow> nat \<Rightarrow>
   (thread_id option \<times> nat) option" where
  "robin_loop params n en hp old [] idx = Some (None, idx)"
| "robin_loop params n en hp old (i # is) idx =
     (let c = (old + i + 1) mod length en
      in do {
        ok \<leftarrow> may_run params n en hp c;
        if ok then Some (Some c, c) else robin_loop params n en hp old is c
      })"

definition select_next_thread ::
  "model_params \<Rightarrow> node \<Rightarrow> scheduler \<Rightarrow> (thread_id option \<times> scheduler) option" where
  "select_next_thread params n s = do {
     let en = sc_enabled s;
     hp \<leftarrow> (if fairwindow params \<noteq> 0 then priority_loop n en 0 False else Some False);
     (t, idx) \<leftarrow> robin_loop params n en hp (curr_thread_index s) [0..<length en] (curr_thread_index s);
     Some (t, s\<lparr>curr_thread_index := idx\<rparr>)
   }"

subsection \<open>Lemmas\<close>

lemma priority_loop_Some:
  "priority_loop n es i found = Some r \<Longrightarrow>
   r \<longleftrightarrow> found \<or> (\<exists>k < length es. es ! k \<noteq> THREAD_DISABLED \<and> has_priority n (i + k) = Some True)"
proof (induction n es i found arbitrary: r rule: priority_loop.induct)
  case (1 n i found)
  then show ?case by simp
next
  case (2 n e es i found)
  from "2.prems" obtain p where p: "has_priority n i = Some p"
    and rest: "priority_loop n es (i + 1) (if p \<and> e \<noteq> THREAD_DISABLED then True else found) = Some r"
    by (auto simp: bind_eq_Some_conv)
  from "2.IH" [OF p rest] p show ?case
    by (auto simp: Ex_less_Suc2 split: if_splits)
qed

lemma yield_loop_Some:
  "yield_loop n t es j = Some r \<Longrightarrow>
   r \<longleftrightarrow> (\<exists>k < length es. es ! k \<noteq> THREAD_DISABLED \<and> has_priority_over n t (j + k) = Some True)"
proof (induction n t es j arbitrary: r rule: yield_loop.induct)
  case (1 n t j)
  then show ?case by simp
next
  case (2 n t e es j)
  show ?case
  proof (cases "e = THREAD_DISABLED")
    case True
    with "2.prems" "2.IH"(2) [of r] show ?thesis by (auto simp: Ex_less_Suc2)
  next
    case False
    with "2.prems" obtain over where over: "has_priority_over n t j = Some over"
      and rest: "(if over then Some True else yield_loop n t es (j + 1)) = Some r"
      by (auto simp: bind_eq_Some_conv)
    show ?thesis
    proof (cases over)
      case True
      with False over rest show ?thesis by (auto intro!: exI [of _ 0])
    next
      case False
      with \<open>e \<noteq> THREAD_DISABLED\<close> over rest "2.IH"(1) [of over r] show ?thesis
        by (auto simp: Ex_less_Suc2)
    qed
  qed
qed

text \<open>When a thread may be chosen, in terms of the state alone.\<close>

definition eligible :: "model_params \<Rightarrow> node \<Rightarrow> scheduler \<Rightarrow> thread_id \<Rightarrow> bool" where
  "eligible params n s t \<longleftrightarrow>
     status s t = THREAD_ENABLED \<and>
     (yieldon params \<longrightarrow> \<not> (\<exists>u. is_enabled s u \<and> has_priority_over n t u = Some True)) \<and>
     (fairwindow params \<noteq> 0 \<longrightarrow> (\<exists>u. is_enabled s u \<and> has_priority n u = Some True) \<longrightarrow>
        has_priority n t = Some True)"

lemma enabled_less: "is_enabled s u \<Longrightarrow> u < length (sc_enabled s)"
  by (simp add: is_enabled_def split: if_splits)

lemma is_enabled_nth: "u < length (sc_enabled s) \<Longrightarrow> is_enabled s u \<longleftrightarrow> sc_enabled s ! u \<noteq> THREAD_DISABLED"
  by (simp add: is_enabled_def)

lemma may_run_eligible:
  assumes t: "t < length (sc_enabled s)"
    and hp: "(if fairwindow params \<noteq> 0 then priority_loop n (sc_enabled s) 0 False else Some False) = Some hp"
    and run: "may_run params n (sc_enabled s) hp t = Some ok"
  shows "ok \<longleftrightarrow> eligible params n s t"
proof -
  have hp': "hp \<longleftrightarrow> fairwindow params \<noteq> 0 \<and> (\<exists>u. is_enabled s u \<and> has_priority n u = Some True)"
  proof (cases "fairwindow params = 0")
    case True
    with hp show ?thesis by simp
  next
    case False
    with hp have "hp \<longleftrightarrow> (\<exists>k < length (sc_enabled s). sc_enabled s ! k \<noteq> THREAD_DISABLED \<and> has_priority n k = Some True)"
      using priority_loop_Some [of n "sc_enabled s" 0 False hp] by simp
    with False show ?thesis using is_enabled_nth enabled_less by blast
  qed
  from run obtain bad where bad: "(if yieldon params then yield_loop n t (sc_enabled s) 0 else Some False) = Some bad"
    and ok: "(if bad then Some False else if sc_enabled s ! t = THREAD_ENABLED
       then if \<not> hp then Some True else has_priority n t else Some False) = Some ok"
    by (auto simp: may_run_def bind_eq_Some_conv)
  have bad': "bad \<longleftrightarrow> yieldon params \<and> (\<exists>u. is_enabled s u \<and> has_priority_over n t u = Some True)"
  proof (cases "yieldon params")
    case True
    with bad have "bad \<longleftrightarrow> (\<exists>k < length (sc_enabled s). sc_enabled s ! k \<noteq> THREAD_DISABLED \<and> has_priority_over n t k = Some True)"
      using yield_loop_Some [of n t "sc_enabled s" 0 bad] by simp
    with True show ?thesis using is_enabled_nth enabled_less by blast
  next
    case False
    with bad show ?thesis by simp
  qed
  show ?thesis
    using ok t unfolding eligible_def hp' bad' by (auto simp: status_def vec_get_def split: if_splits)
qed

lemma robin_loop_Some:
  assumes hp: "(if fairwindow params \<noteq> 0 then priority_loop n (sc_enabled s) 0 False else Some False) = Some hp"
    and en: "sc_enabled s \<noteq> []"
  shows "robin_loop params n (sc_enabled s) hp old is idx = Some (r, idx') \<Longrightarrow>
    (case r of
       None \<Rightarrow> \<forall>i \<in> set is. \<not> eligible params n s ((old + i + 1) mod length (sc_enabled s))
     | Some t \<Rightarrow> idx' = t \<and> t < length (sc_enabled s) \<and> eligible params n s t \<and>
         (\<exists>k < length is. t = (old + is ! k + 1) mod length (sc_enabled s) \<and>
            (\<forall>m < k. \<not> eligible params n s ((old + is ! m + 1) mod length (sc_enabled s)))))"
proof (induction "is" arbitrary: idx)
  case Nil
  then show ?case by simp
next
  case (Cons i "is")
  let ?c = "(old + i + 1) mod length (sc_enabled s)"
  have c: "?c < length (sc_enabled s)" using en by simp
  from Cons.prems obtain ok where ok: "may_run params n (sc_enabled s) hp ?c = Some ok"
    and rest: "(if ok then Some (Some ?c, ?c) else robin_loop params n (sc_enabled s) hp old is ?c) = Some (r, idx')"
    unfolding robin_loop.simps Let_def bind_eq_Some_conv by blast
  note el = may_run_eligible [OF c hp ok]
  show ?case
  proof (cases ok)
    case True
    with rest c el show ?thesis by (auto intro!: exI [of _ 0])
  next
    case False
    with rest have "robin_loop params n (sc_enabled s) hp old is ?c = Some (r, idx')" by simp
    note IH = Cons.IH [OF this]
    show ?thesis
    proof (cases r)
      case None
      with IH False el show ?thesis by simp
    next
      case (Some t)
      with IH obtain k where "k < length is" "t = (old + is ! k + 1) mod length (sc_enabled s)"
        "\<forall>m < k. \<not> eligible params n s ((old + is ! m + 1) mod length (sc_enabled s))" by auto
      with False el have "\<exists>k < length (i # is). t = (old + (i # is) ! k + 1) mod length (sc_enabled s) \<and>
          (\<forall>m < k. \<not> eligible params n s ((old + (i # is) ! m + 1) mod length (sc_enabled s)))"
        by (intro exI [of _ "Suc k"]) (simp add: All_less_Suc2)
      with IH Some show ?thesis by simp
    qed
  qed
qed

lemma robin_covers:
  assumes "0 < (n::nat)" "t < n"
  shows "\<exists>i < n. t = (old + i + 1) mod n"
proof -
  define m where "m = (old + 1) mod n"
  define i where "i = (t + n - m) mod n"
  have m: "m < n" using assms(1) by (simp add: m_def)
  have "(old + i + 1) mod n = (m + i) mod n" unfolding m_def by (simp add: mod_simps ac_simps)
  also have "\<dots> = (m + (t + n - m)) mod n" unfolding i_def by (simp add: mod_simps)
  also have "m + (t + n - m) = t + n" using m by simp
  also have "(t + n) mod n = t" using assms(2) by simp
  finally have "t = (old + i + 1) mod n" by simp
  moreover have "i < n" using assms(1) by (simp add: i_def)
  ultimately show ?thesis by blast
qed

lemma select_next_thread_Some:
  assumes "select_next_thread params n s = Some (r, s')"
  obtains hp idx where
    "(if fairwindow params \<noteq> 0 then priority_loop n (sc_enabled s) 0 False else Some False) = Some hp"
    "robin_loop params n (sc_enabled s) hp (curr_thread_index s) [0..<length (sc_enabled s)] (curr_thread_index s) = Some (r, idx)"
    "s' = s\<lparr>curr_thread_index := idx\<rparr>"
  using assms unfolding select_next_thread_def Let_def bind_eq_Some_conv by auto

subsection \<open>Properties\<close>

text \<open>
  C10: the scheduler never runs a thread it must not run and never stalls: the selected thread is
  enabled, has not yielded to an enabled thread, and has priority if some enabled thread has;
  no thread is selected only if no thread satisfies this; and the statuses are unchanged.
\<close>

theorem select_next_thread_sound_complete:
  assumes "select_next_thread params n s = Some (r, s')"
  shows "sc_enabled s' = sc_enabled s \<and> sc_current s' = sc_current s \<and>
    (case r of
       Some t \<Rightarrow> eligible params n s t \<and> curr_thread_index s' = t
     | None \<Rightarrow> \<forall>t. \<not> eligible params n s t)"
proof -
  from assms obtain hp idx where
    hp: "(if fairwindow params \<noteq> 0 then priority_loop n (sc_enabled s) 0 False else Some False) = Some hp"
    and robin: "robin_loop params n (sc_enabled s) hp (curr_thread_index s) [0..<length (sc_enabled s)] (curr_thread_index s) = Some (r, idx)"
    and s': "s' = s\<lparr>curr_thread_index := idx\<rparr>" by (rule select_next_thread_Some)
  have none: "\<not> eligible params n s t" if "\<not> t < length (sc_enabled s)" for t
    using that by (auto simp: eligible_def status_def vec_get_def)
  show ?thesis
  proof (cases "sc_enabled s = []")
    case True
    with robin s' none show ?thesis by auto
  next
    case False
    note found = robin_loop_Some [OF hp False robin]
    show ?thesis
    proof (cases r)
      case (Some t)
      with found s' show ?thesis by simp
    next
      case None
      have "\<not> eligible params n s t" for t
      proof (cases "t < length (sc_enabled s)")
        case True
        from robin_covers [OF _ True, of "curr_thread_index s"] False obtain i where
          "i < length (sc_enabled s)" "t = (curr_thread_index s + i + 1) mod length (sc_enabled s)" by auto
        with found None show ?thesis by simp
      next
        case False
        then show ?thesis by (rule none)
      qed
      with None s' show ?thesis by simp
    qed
  qed
qed

text \<open>Two enabled threads, and a node that knows them and has no fairness window.\<close>

definition sample_scheduler :: scheduler where
  "sample_scheduler = \<lparr>sc_enabled = [THREAD_ENABLED, THREAD_ENABLED], curr_thread_index = 1, sc_current = None\<rparr>"

theorem select_next_thread_sound_complete_witness:
  "select_next_thread sample_params sample_node sample_scheduler = Some (Some 0, sample_scheduler\<lparr>curr_thread_index := 0\<rparr>) \<and>
   eligible sample_params sample_node sample_scheduler 0"
proof -
  have s: "select_next_thread sample_params sample_node sample_scheduler =
      Some (Some 0, sample_scheduler\<lparr>curr_thread_index := 0\<rparr>)" by code_simp
  with select_next_thread_sound_complete [OF s] show ?thesis by simp
qed

text \<open>
  round-robin: the selected thread is the first one, in cyclic order after the thread selected
  last, that may run; every thread that may run is at most \<open>enabled_len\<close> positions away.
\<close>

theorem select_next_thread_round_robin:
  assumes "select_next_thread params n s = Some (Some t, s')"
  shows "\<exists>k < length (sc_enabled s). t = (curr_thread_index s + k + 1) mod length (sc_enabled s) \<and>
    (\<forall>m < k. \<not> eligible params n s ((curr_thread_index s + m + 1) mod length (sc_enabled s)))"
proof -
  from assms obtain hp idx where
    hp: "(if fairwindow params \<noteq> 0 then priority_loop n (sc_enabled s) 0 False else Some False) = Some hp"
    and robin: "robin_loop params n (sc_enabled s) hp (curr_thread_index s) [0..<length (sc_enabled s)] (curr_thread_index s) = Some (Some t, idx)"
    by (rule select_next_thread_Some)
  have "sc_enabled s \<noteq> []" using robin by auto
  from robin_loop_Some [OF hp this robin] show ?thesis by auto
qed

theorem select_next_thread_round_robin_witness:
  "\<exists>k < length (sc_enabled sample_scheduler).
     0 = (curr_thread_index sample_scheduler + k + 1) mod length (sc_enabled sample_scheduler)"
proof -
  have s: "select_next_thread sample_params sample_node sample_scheduler =
      Some (Some 0, sample_scheduler\<lparr>curr_thread_index := 0\<rparr>)" by code_simp
  from select_next_thread_round_robin [OF s] show ?thesis by blast
qed

subsection \<open>Repeated selection\<close>

text \<open>The selections of several calls in a row, with the statuses and the node unchanged.\<close>

fun selections :: "model_params \<Rightarrow> node \<Rightarrow> nat \<Rightarrow> scheduler \<Rightarrow> (thread_id option list \<times> scheduler) option" where
  "selections params n 0 s = Some ([], s)"
| "selections params n (Suc k) s = do {
     (t, s) \<leftarrow> select_next_thread params n s;
     (ts, s) \<leftarrow> selections params n k s;
     Some (t # ts, s)
   }"

text \<open>The node has the data on every thread of the scheduler that the parameters ask for.\<close>

definition node_knows :: "model_params \<Rightarrow> node \<Rightarrow> scheduler \<Rightarrow> bool" where
  "node_knows params n s \<longleftrightarrow> list_all (\<lambda>t. (fairwindow params = 0 \<or> has_priority n t \<noteq> None) \<and>
     list_all (\<lambda>u. \<not> yieldon params \<or> has_priority_over n t u \<noteq> None) [0..<length (sc_enabled s)])
     [0..<length (sc_enabled s)]"

lemma priority_loop_total:
  "(\<And>j. j < length es \<Longrightarrow> has_priority n (i + j) \<noteq> None) \<Longrightarrow> priority_loop n es i found \<noteq> None"
proof (induction n es i found rule: priority_loop.induct)
  case (1 n i found)
  then show ?case by simp
next
  case (2 n e es i found)
  obtain p where p: "has_priority n i = Some p" using "2.prems" [of 0] by auto
  have "priority_loop n es (i + 1) (if p \<and> e \<noteq> THREAD_DISABLED then True else found) \<noteq> None"
  proof (rule "2.IH" [OF p])
    fix j assume "j < length es"
    then show "has_priority n (i + 1 + j) \<noteq> None" using "2.prems" [of "Suc j"] by simp
  qed
  with p show ?case by simp
qed

lemma yield_loop_total:
  "(\<And>k. k < length es \<Longrightarrow> has_priority_over n t (j + k) \<noteq> None) \<Longrightarrow> yield_loop n t es j \<noteq> None"
proof (induction es arbitrary: j)
  case Nil
  then show ?case by simp
next
  case (Cons e es)
  obtain p where p: "has_priority_over n t j = Some p" using Cons.prems [of 0] by auto
  have "yield_loop n t es (j + 1) \<noteq> None"
  proof (rule Cons.IH)
    fix k assume "k < length es"
    then show "has_priority_over n t (j + 1 + k) \<noteq> None" using Cons.prems [of "Suc k"] by simp
  qed
  with p show ?case by (cases p) auto
qed

lemma may_run_total:
  assumes "node_knows params n s" "t < length (sc_enabled s)" "hp \<Longrightarrow> fairwindow params \<noteq> 0"
  shows "may_run params n (sc_enabled s) hp t \<noteq> None"
proof -
  have "yieldon params \<Longrightarrow> yield_loop n t (sc_enabled s) 0 \<noteq> None"
    by (rule yield_loop_total) (use assms in \<open>auto simp: node_knows_def list_all_iff\<close>)
  moreover have "hp \<Longrightarrow> has_priority n t \<noteq> None" using assms by (auto simp: node_knows_def list_all_iff)
  moreover obtain bad where "(if yieldon params then yield_loop n t (sc_enabled s) 0 else Some False) = Some bad"
    using calculation by (cases "yieldon params") auto
  ultimately show ?thesis by (cases bad) (auto simp: may_run_def)
qed

lemma robin_loop_total:
  assumes "node_knows params n s" "sc_enabled s \<noteq> []" "hp \<Longrightarrow> fairwindow params \<noteq> 0"
  shows "robin_loop params n (sc_enabled s) hp old is idx \<noteq> None"
proof (induction "is" arbitrary: idx)
  case Nil
  then show ?case by simp
next
  case (Cons i "is")
  have "may_run params n (sc_enabled s) hp ((old + i + 1) mod length (sc_enabled s)) \<noteq> None"
    using assms by (intro may_run_total) auto
  with Cons show ?case by (auto simp: Let_def)
qed

lemma select_total:
  assumes "node_knows params n s"
  shows "select_next_thread params n s \<noteq> None"
proof -
  have "fairwindow params \<noteq> 0 \<Longrightarrow> priority_loop n (sc_enabled s) 0 False \<noteq> None"
    by (rule priority_loop_total) (use assms in \<open>auto simp: node_knows_def list_all_iff\<close>)
  then obtain y where y: "(if fairwindow params \<noteq> 0 then priority_loop n (sc_enabled s) 0 False else Some False) = Some y"
    by (cases "fairwindow params = 0") auto
  moreover have "robin_loop params n (sc_enabled s) y (curr_thread_index s) [0..<length (sc_enabled s)] (curr_thread_index s) \<noteq> None"
  proof (cases "sc_enabled s = []")
    case False
    show ?thesis by (rule robin_loop_total [OF assms False]) (use y in \<open>auto split: if_splits\<close>)
  qed simp
  ultimately show ?thesis by (auto simp: select_next_thread_def Let_def)
qed

lemma select_keeps:
  assumes "select_next_thread params n s = Some (r, s')"
  shows "sc_enabled s' = sc_enabled s"
  using assms by (rule select_next_thread_Some) simp

lemma eligible_cong:
  "sc_enabled s' = sc_enabled s \<Longrightarrow> eligible params n s' t = eligible params n s t"
  by (simp add: eligible_def status_def is_enabled_def)

lemma select_advances:
  assumes sel: "select_next_thread params n s = Some (r, s')" and el: "eligible params n s t"
    and t: "t = (curr_thread_index s + k + 1) mod length (sc_enabled s)" "k < length (sc_enabled s)"
  shows "sc_enabled s' = sc_enabled s \<and> (r = Some t \<or>
    (\<exists>j < k. t = (curr_thread_index s' + (k - Suc j) + 1) mod length (sc_enabled s)))"
proof -
  let ?N = "length (sc_enabled s)"
  from sel obtain hp idx where
    hp: "(if fairwindow params \<noteq> 0 then priority_loop n (sc_enabled s) 0 False else Some False) = Some hp"
    and robin: "robin_loop params n (sc_enabled s) hp (curr_thread_index s) [0..<?N] (curr_thread_index s) = Some (r, idx)"
    and s': "s' = s\<lparr>curr_thread_index := idx\<rparr>" by (rule select_next_thread_Some)
  have en: "sc_enabled s \<noteq> []" using t(2) by auto
  note found = robin_loop_Some [OF hp en robin]
  show ?thesis
  proof (cases r)
    case None
    with found t el show ?thesis by auto
  next
    case (Some u)
    with found obtain j where j: "j < ?N" "u = (curr_thread_index s + j + 1) mod ?N" "idx = u"
      "\<forall>m < j. \<not> eligible params n s ((curr_thread_index s + m + 1) mod ?N)" by auto
    have "j \<le> k" using j(4) t el by (meson not_le)
    show ?thesis
    proof (cases "j = k")
      case True
      with j t Some s' show ?thesis by simp
    next
      case False
      with \<open>j \<le> k\<close> have "j < k" by simp
      then have "curr_thread_index s + k + 1 = (curr_thread_index s + j + 1) + (k - Suc j) + 1" by simp
      then have "t = (((curr_thread_index s + j + 1) mod ?N) + (k - Suc j) + 1) mod ?N"
        unfolding t(1) by (metis mod_add_left_eq add.assoc)
      with \<open>j < k\<close> j s' show ?thesis by auto
    qed
  qed
qed

lemma node_knows_cong: "sc_enabled s' = sc_enabled s \<Longrightarrow> node_knows params n s' = node_knows params n s"
  by (simp add: node_knows_def)

lemma selections_total:
  "node_knows params n s \<Longrightarrow> selections params n m s \<noteq> None"
proof (induction m arbitrary: s)
  case 0
  then show ?case by simp
next
  case (Suc m)
  obtain r s' where sel: "select_next_thread params n s = Some (r, s')" using select_total [OF Suc.prems] by auto
  have "node_knows params n s'" using Suc.prems node_knows_cong [OF select_keeps [OF sel]] by simp
  from Suc.IH [OF this] sel show ?case by auto
qed

lemma selections_reach:
  assumes "node_knows params n s" "eligible params n s t"
    "t = (curr_thread_index s + k + 1) mod length (sc_enabled s)" "k < length (sc_enabled s)" "k < m"
  shows "\<exists>ts s'. selections params n m s = Some (ts, s') \<and> Some t \<in> set ts"
  using assms
proof (induction m arbitrary: k s)
  case 0
  then show ?case by simp
next
  case (Suc m)
  obtain r s1 where sel: "select_next_thread params n s = Some (r, s1)"
    using select_total [OF Suc.prems(1)] by auto
  note keep = select_keeps [OF sel]
  have knows: "node_knows params n s1" using Suc.prems(1) node_knows_cong [OF keep] by simp
  obtain ts s' where rest: "selections params n m s1 = Some (ts, s')"
    using selections_total [OF knows, of m] by auto
  from select_advances [OF sel Suc.prems(2-4)] consider "r = Some t"
    | j where "j < k" "t = (curr_thread_index s1 + (k - Suc j) + 1) mod length (sc_enabled s)" by blast
  then show ?case
  proof cases
    case 1
    with sel rest show ?thesis by simp
  next
    case 2
    have "eligible params n s1 t" using Suc.prems(2) eligible_cong [OF keep] by simp
    moreover have "k - Suc j < length (sc_enabled s1)" "k - Suc j < m" using 2(1) Suc.prems(4,5) keep by auto
    ultimately obtain ts s' where "selections params n m s1 = Some (ts, s')" "Some t \<in> set ts"
      using Suc.IH [OF knows, of "k - Suc j"] 2(2) keep by auto
    with sel show ?thesis by auto
  qed
qed

text \<open>
  C16: no starvation: as long as the statuses and the node do not change, a thread that may run is
  selected within as many calls of the scheduler as there are threads, and none of the calls fails.
\<close>

theorem eligible_thread_selected:
  assumes "node_knows params n s" and "eligible params n s t"
  shows "\<exists>ts s'. selections params n (length (sc_enabled s)) s = Some (ts, s') \<and> Some t \<in> set ts"
proof -
  have t: "t < length (sc_enabled s)"
    using assms(2) by (auto simp: eligible_def status_def vec_get_def split: if_splits)
  then have "0 < length (sc_enabled s)" by linarith
  from robin_covers [OF this t, of "curr_thread_index s"] obtain k where "k < length (sc_enabled s)"
    "t = (curr_thread_index s + k + 1) mod length (sc_enabled s)" by blast
  with selections_reach [OF assms] show ?thesis by blast
qed

theorem eligible_thread_selected_witness:
  "\<exists>ts s'. selections sample_params sample_node 2 sample_scheduler = Some (ts, s') \<and> Some 1 \<in> set ts"
proof -
  have k: "node_knows sample_params sample_node sample_scheduler" by code_simp
  have "status sample_scheduler 1 = THREAD_ENABLED" by code_simp
  then have "eligible sample_params sample_node sample_scheduler 1"
    by (simp add: eligible_def sample_params_def)
  moreover have "length (sc_enabled sample_scheduler) = 2" by (simp add: sample_scheduler_def)
  ultimately show ?thesis using eligible_thread_selected [OF k, of 1] by simp
qed

end
