(* ===== verification/Race_Records.thy ===== *)
theory Race_Records
  imports Clock_Vector
begin

text \<open>
  The shadow memory of the data-race detector (\<open>datarace.h\<close>, \<open>datarace.cc\<close>): what is recorded
  about the accesses to one address, and the tables that find the record of an address.

  A shadow word is either a short record packed into 64 bits (lowest bit set, or the word 0 for no
  access yet) or a pointer to a \<open>RaceRecord\<close>; this tagged union is the datatype \<open>shadow\<close>. The
  arrays of a \<open>RaceRecord\<close> are lists of the allocated length; an access beyond it is undefined and
  gives \<open>None\<close>. Fresh memory of \<open>snapshot_malloc\<close> reads as zero here; the code writes every entry
  before it reads it. The checks themselves, which need the execution, follow in \<open>Data_Race\<close>.
\<close>

subsection \<open>Short records\<close>

definition MASK16BIT :: u64 where "MASK16BIT = 0xffff"
definition THREADMASK :: u64 where "THREADMASK = 0xff"
definition READMASK :: u64 where "READMASK = 0x07fffff"
definition WRITEMASK :: u64 where "WRITEMASK = READMASK"
definition INITCAPACITY :: nat where "INITCAPACITY = 4"
definition MAXTHREADID :: nat where "MAXTHREADID = 0xff - 1"
definition MAXREADVECTOR :: modelclock where "MAXREADVECTOR = 0x07fffff - 1"
definition MAXWRITEVECTOR :: modelclock where "MAXWRITEVECTOR = 0x07fffff - 1"

definition ISSHORTRECORD :: "u64 \<Rightarrow> bool" where
  "ISSHORTRECORD x \<longleftrightarrow> x AND 1 \<noteq> 0"

definition RDTHREADID :: "u64 \<Rightarrow> thread_id" where
  "RDTHREADID x = unat (drop_bit 1 x AND THREADMASK)"

definition READVECTOR :: "u64 \<Rightarrow> modelclock" where
  "READVECTOR x = ucast (drop_bit 9 x AND READMASK)"

definition WRTHREADID :: "u64 \<Rightarrow> thread_id" where
  "WRTHREADID x = unat (drop_bit 32 x AND THREADMASK)"

definition WRITEVECTOR :: "u64 \<Rightarrow> modelclock" where
  "WRITEVECTOR x = ucast (drop_bit 40 x AND WRITEMASK)"

text \<open>
  The read thread is an \<open>int\<close> and the read time a \<open>modelclock_t\<close>: both are shifted at 32 bits and
  widened afterwards; the write half is widened first.
\<close>

definition ENCODEOP :: "thread_id \<Rightarrow> modelclock \<Rightarrow> thread_id \<Rightarrow> modelclock \<Rightarrow> u64" where
  "ENCODEOP rdthread rdtime wrthread wrtime =
     1 OR scast (push_bit 1 (word_of_nat rdthread :: 32 word)) OR ucast (push_bit 9 rdtime)
       OR push_bit 32 (scast (word_of_nat wrthread :: 32 word)) OR push_bit 40 (ucast wrtime)"

subsection \<open>Full records\<close>

record race_record =
  rr_readClock :: "modelclock list"
  rr_thread :: "thread_id list"
  rr_capacity :: nat
  rr_numReads :: nat
  rr_writeThread :: thread_id
  rr_writeClock :: modelclock

datatype shadow = Short u64 | Full race_record

record data_race =
  oldthread :: thread_id
  oldclock :: modelclock
  isoldwrite :: bool
  newaction :: act_ptr
  isnewwrite :: bool
  race_address :: loc

definition clock_may_race :: "clock_vector \<Rightarrow> thread_id \<Rightarrow> modelclock \<Rightarrow> thread_id \<Rightarrow> bool" where
  "clock_may_race clock1 tid1 clock2 tid2 \<longleftrightarrow>
     tid1 \<noteq> tid2 \<and> clock2 \<noteq> 0 \<and> getClock clock1 tid2 \<le> clock2"

definition expandRecord :: "u64 \<Rightarrow> race_record" where
  "expandRecord shadowval =
     (let readClock = READVECTOR shadowval; readThread = RDTHREADID shadowval;
          rec = \<lparr>rr_readClock = [], rr_thread = [], rr_capacity = 0, rr_numReads = 0,
                 rr_writeThread = WRTHREADID shadowval, rr_writeClock = WRITEVECTOR shadowval\<rparr>
      in if readClock \<noteq> 0
         then rec\<lparr>rr_capacity := INITCAPACITY, rr_numReads := 1,
                  rr_thread := (replicate INITCAPACITY 0)[0 := readThread],
                  rr_readClock := (replicate INITCAPACITY 0)[0 := readClock]\<rparr>
         else rec)"

text \<open>
  The second half of \<open>fullRaceCheckRead\<close>: the loop over the recorded reads that keeps those the new
  read does not subsume, moving them to the front; the growth of the arrays; the new entry.
\<close>

definition keep_read ::
  "clock_vector \<Rightarrow> thread_id \<Rightarrow> nat \<Rightarrow> nat \<times> race_record \<Rightarrow> (nat \<times> race_record) option" where
  "keep_read currClock thread i st =
     (let (copytoindex, rec) = st
      in if i < length (rr_readClock rec) \<and> i < length (rr_thread rec)
         then if clock_may_race currClock thread (rr_readClock rec ! i) (rr_thread rec ! i)
              then Some (copytoindex + 1,
                     if copytoindex \<noteq> i
                     then rec\<lparr>rr_readClock := (rr_readClock rec)[copytoindex := rr_readClock rec ! i],
                              rr_thread := (rr_thread rec)[copytoindex := rr_thread rec ! i]\<rparr>
                     else rec)
              else Some (copytoindex, rec)
         else None)"

definition grow_record :: "nat \<Rightarrow> race_record \<Rightarrow> race_record" where
  "grow_record copytoindex rec =
     (if copytoindex \<ge> rr_capacity rec
      then let newCapacity = rr_capacity rec * 2
           in rec\<lparr>rr_readClock := vec_grow newCapacity 0 (rr_readClock rec),
                  rr_thread := vec_grow newCapacity 0 (rr_thread rec), rr_capacity := newCapacity\<rparr>
      else rec)"

definition record_read :: "clock_vector \<Rightarrow> thread_id \<Rightarrow> race_record \<Rightarrow> race_record option" where
  "record_read currClock thread rec = do {
     (copytoindex, rec) \<leftarrow> for_each (keep_read currClock thread) [0..<rr_numReads rec] (0, rec);
     let rec = grow_record copytoindex rec;
     if copytoindex < length (rr_thread rec) \<and> copytoindex < length (rr_readClock rec)
     then Some (rec\<lparr>rr_thread := (rr_thread rec)[copytoindex := thread],
                    rr_readClock := (rr_readClock rec)[copytoindex := getClock currClock thread],
                    rr_numReads := copytoindex + 1\<rparr>)
     else None
   }"

text \<open>The last part of \<open>fullRaceCheckWrite\<close>: a write subsumes everything recorded.\<close>

definition record_write :: "clock_vector \<Rightarrow> thread_id \<Rightarrow> race_record \<Rightarrow> race_record" where
  "record_write currClock thread rec =
     rec\<lparr>rr_numReads := 0, rr_writeThread := thread, rr_writeClock := getClock currClock thread\<rparr>"

subsection \<open>The shadow tables\<close>

text \<open>
  Three levels of tables, each allocated (zeroed) at its first use; the configuration is the one of
  a 64-bit target, where an address contributes its low 48 bits.
\<close>

type_synonym shadow_base_table = "u64 \<Rightarrow> shadow"
type_synonym shadow_table = "u64 \<Rightarrow> shadow_base_table option"
type_synonym shadow_root = "u64 \<Rightarrow> shadow_table option"

definition top_index :: "loc \<Rightarrow> u64" where "top_index a = drop_bit 32 a AND MASK16BIT"
definition mid_index :: "loc \<Rightarrow> u64" where "mid_index a = drop_bit 16 a AND MASK16BIT"
definition low_index :: "loc \<Rightarrow> u64" where "low_index a = a AND MASK16BIT"

definition initRaceDetector :: shadow_root where
  "initRaceDetector = (\<lambda>_. None)"

definition lookupAddressEntry :: "loc \<Rightarrow> shadow_root \<Rightarrow> shadow_root \<times> shadow" where
  "lookupAddressEntry a root =
     (let currtable = (case root (top_index a) of None \<Rightarrow> (\<lambda>_. None) | Some t \<Rightarrow> t);
          basetable = (case currtable (mid_index a) of None \<Rightarrow> (\<lambda>_. Short 0) | Some b \<Rightarrow> b)
      in (root(top_index a \<mapsto> currtable(mid_index a \<mapsto> basetable)), basetable (low_index a)))"

text \<open>The assignment \<open>*shadow = v\<close> through the pointer that the lookup returned.\<close>

definition set_shadow :: "loc \<Rightarrow> shadow \<Rightarrow> shadow_root \<Rightarrow> shadow_root option" where
  "set_shadow a v root = do {
     t \<leftarrow> root (top_index a);
     b \<leftarrow> t (mid_index a);
     Some (root(top_index a \<mapsto> t(mid_index a \<mapsto> b(low_index a := v))))
   }"

subsection \<open>Lemmas: short records\<close>

lemma nat_bit_high: "m < (2::nat) ^ k \<Longrightarrow> k \<le> n \<Longrightarrow> \<not> bit m n"
  by (metis bit_iff_odd div_less even_zero order_less_le_trans power_increasing one_le_numeral)

lemma mask_bits: "THREADMASK = Bit_Operations.mask 8" "READMASK = Bit_Operations.mask 23" "WRITEMASK = Bit_Operations.mask 23" "MASK16BIT = Bit_Operations.mask 16"
  by (simp_all add: THREADMASK_def READMASK_def WRITEMASK_def MASK16BIT_def mask_numeral)

lemma scast_small: assumes "n < 2 ^ 31" shows "(scast (word_of_nat n :: 32 word) :: u64) = word_of_nat n"
proof -
  have "sint (word_of_nat n :: 32 word) = int n"
    using assms by (simp add: signed_of_nat signed_take_bit_int_eq_self)
  then show ?thesis by (metis of_int_of_nat_eq of_int_sint)
qed

lemma push_word_of_nat: "push_bit k (word_of_nat n :: 'a::len word) = word_of_nat (push_bit k n)"
  by (simp add: push_bit_eq_mult)

lemma ENCODEOP_nat:
  assumes "rt < 256" "wt < 256" "unat rc < 2 ^ 23"
  shows "ENCODEOP rt rc wt wc = word_of_nat (1 OR push_bit 1 rt OR push_bit 9 (unat rc) OR push_bit 32 wt OR push_bit 40 (unat wc))"
proof -
  have a: "(scast (push_bit 1 (word_of_nat rt :: 32 word)) :: u64) = word_of_nat (push_bit 1 rt)"
    using assms unfolding push_word_of_nat by (intro scast_small) (simp add: push_bit_eq_mult)
  have b: "(scast (word_of_nat wt :: 32 word) :: u64) = word_of_nat wt"
    using assms by (intro scast_small) simp
  have "unat (push_bit 9 rc) = push_bit 9 (unat rc)"
    using assms by (subst unsigned_push_bit_eq) (simp add: take_bit_nat_eq_self_iff push_bit_nat_def)
  then have c: "(ucast (push_bit 9 rc) :: u64) = word_of_nat (push_bit 9 (unat rc))"
    by (metis of_nat_unat)
  have d: "(ucast wc :: u64) = word_of_nat (unat wc)" by simp
  show ?thesis unfolding ENCODEOP_def a b c d
    by (simp only: push_word_of_nat of_nat_or_eq of_nat_1)
qed


lemma ENCODEOP_decode:
  assumes "rt < 256" "wt < 256" "unat rc < 2 ^ 23" "unat wc < 2 ^ 23"
  defines "N \<equiv> 1 OR push_bit 1 rt OR push_bit 9 (unat rc) OR push_bit 32 wt OR push_bit 40 (unat (wc::32 word))"
  shows "N < 2 ^ 64" "odd N" "take_bit 8 (drop_bit 1 N) = rt" "take_bit 23 (drop_bit 9 N) = unat rc"
   "take_bit 8 (drop_bit 32 N) = wt" "take_bit 23 (drop_bit 40 N) = unat wc"
proof -
  have b: "bit rt n \<Longrightarrow> n < 8" "bit wt n \<Longrightarrow> n < 8" "bit (unat rc) n \<Longrightarrow> n < 23" "bit (unat wc) n \<Longrightarrow> n < 23" for n
    using assms nat_bit_high [of rt 8 n] nat_bit_high [of wt 8 n] nat_bit_high [of "unat rc" 23 n] nat_bit_high [of "unat wc" 23 n]
    by (auto simp: not_le [symmetric])
  have N: "bit N n \<longleftrightarrow> n = 0 \<or> (1 \<le> n \<and> bit rt (n - 1)) \<or> (9 \<le> n \<and> bit (unat rc) (n - 9)) \<or> (32 \<le> n \<and> bit wt (n - 32)) \<or> (40 \<le> n \<and> bit (unat wc) (n - 40))" for n
    unfolding N_def by (simp only: bit_or_iff bit_push_bit_iff bit_1_iff possible_bit_nat) simp
  show "N < 2 ^ 64" 
  proof -
    have "bit N n \<Longrightarrow> n < 63" for n unfolding N using b(1) [of "n-1"] b(2) [of "n-32"] b(3) [of "n-9"] b(4) [of "n-40"] by linarith
    then have "take_bit 63 N = N" by (intro bit_eqI) (auto simp: bit_take_bit_iff)
    moreover have "take_bit 63 N < 2 ^ 63" by (rule take_bit_nat_less_exp)
    ultimately show ?thesis by simp
  qed
  show "odd N" using N [of 0] by (simp add: bit_0)
  show "take_bit 8 (drop_bit 1 N) = rt"
  proof (rule bit_eqI)
    fix n show "bit (take_bit 8 (drop_bit 1 N)) n \<longleftrightarrow> bit rt n"
      using b(1) [of n] by (simp add: bit_take_bit_iff bit_drop_bit_eq N) linarith
  qed
  show "take_bit 23 (drop_bit 9 N) = unat rc"
  proof (rule bit_eqI)
    fix n show "bit (take_bit 23 (drop_bit 9 N)) n \<longleftrightarrow> bit (unat rc) n"
      using b(3) [of n] b(1) [of "8+n"] by (auto simp add: bit_take_bit_iff bit_drop_bit_eq N) 
  qed
  show "take_bit 8 (drop_bit 32 N) = wt"
  proof (rule bit_eqI)
    fix n show "bit (take_bit 8 (drop_bit 32 N)) n \<longleftrightarrow> bit wt n"
      using b(2) [of n] b(1) [of "31+n"] b(3) [of "23+n"] by (auto simp add: bit_take_bit_iff bit_drop_bit_eq N) 
  qed
  show "take_bit 23 (drop_bit 40 N) = unat wc"
  proof (rule bit_eqI)
    fix n show "bit (take_bit 23 (drop_bit 40 N)) n \<longleftrightarrow> bit (unat wc) n"
      using b(4) [of n] b(1) [of "39+n"] b(3) [of "31+n"]  b(2) [of "8+n"] by (auto simp add: bit_take_bit_iff bit_drop_bit_eq N) 
  qed
qed


lemma short_record_decode:
  assumes "rt < 256" "wt < 256" "unat rc < 2 ^ 23" "unat wc < 2 ^ 23"
  shows "ISSHORTRECORD (ENCODEOP rt rc wt wc) \<and>
     RDTHREADID (ENCODEOP rt rc wt wc) = rt \<and> READVECTOR (ENCODEOP rt rc wt wc) = rc \<and>
     WRTHREADID (ENCODEOP rt rc wt wc) = wt \<and> WRITEVECTOR (ENCODEOP rt rc wt wc) = wc"
proof -
  note d = ENCODEOP_decode [OF assms]
  define w where "w = ENCODEOP rt rc wt wc"
  have u: "unat w = 1 OR push_bit 1 rt OR push_bit 9 (unat rc) OR push_bit 32 wt OR push_bit 40 (unat wc)"
    unfolding w_def ENCODEOP_nat [OF assms(1-3)] using d(1) by (simp add: unat_of_nat take_bit_nat_eq_self)
  have f: "unat (drop_bit k w AND Bit_Operations.mask m) = take_bit m (drop_bit k (unat w))" for k m
    by (simp add: take_bit_eq_mask [symmetric] unsigned_take_bit_eq unat_drop_bit_eq)
  have s: "ISSHORTRECORD w" 
  proof -
    have "bit (unat w) 0" using d(2) unfolding u by (simp add: bit_0)
    then have "bit w 0" by (simp only: bit_unsigned_iff)
    then have "odd w" by (simp add: bit_0)
    then show ?thesis unfolding ISSHORTRECORD_def by (simp add: and_one_eq mod_2_eq_odd)
  qed
  have v: "(ucast x :: 32 word) = y" if "unat (x::u64) = unat y" for x y
    by (metis that of_nat_unat ucast_id)
  show ?thesis
    unfolding w_def [symmetric] RDTHREADID_def WRTHREADID_def READVECTOR_def WRITEVECTOR_def mask_bits
    using s d(3-6) unfolding u [symmetric] by (intro conjI v) (simp_all only: f)
qed

text \<open>
  The packed form of a shadow word loses nothing: as long as thread ids fit into 8 bits and clocks
  into 23 bits (the checks expand the record beyond that), the encoded word is a short record and
  its four fields read back as they were written.
\<close>

theorem short_record_roundtrip:
  assumes "rt < 256" "wt < 256" "unat rc < 2 ^ 23" "unat wc < 2 ^ 23"
  shows "ISSHORTRECORD (ENCODEOP rt rc wt wc) \<and>
     RDTHREADID (ENCODEOP rt rc wt wc) = rt \<and> READVECTOR (ENCODEOP rt rc wt wc) = rc \<and>
     WRTHREADID (ENCODEOP rt rc wt wc) = wt \<and> WRITEVECTOR (ENCODEOP rt rc wt wc) = wc"
  by (rule short_record_decode [OF assms])

theorem short_record_roundtrip_witness:
  "WRITEVECTOR (ENCODEOP 3 17 MAXTHREADID MAXWRITEVECTOR) = MAXWRITEVECTOR \<and>
   RDTHREADID (ENCODEOP 3 17 MAXTHREADID MAXWRITEVECTOR) = 3"
  using short_record_roundtrip [of 3 MAXTHREADID 17 MAXWRITEVECTOR]
  by (simp add: MAXTHREADID_def MAXWRITEVECTOR_def)

subsection \<open>Full records: the loop over the reads\<close>

definition entries :: "race_record \<Rightarrow> (thread_id \<times> modelclock) list" where
  "entries r = zip (rr_thread r) (rr_readClock r)"

definition recorded_reads :: "race_record \<Rightarrow> (thread_id \<times> modelclock) list" where
  "recorded_reads r = take (rr_numReads r) (entries r)"

definition race_inv :: "race_record \<Rightarrow> bool" where
  "race_inv r \<longleftrightarrow> length (rr_readClock r) = rr_capacity r \<and> length (rr_thread r) = rr_capacity r \<and>
     rr_numReads r \<le> rr_capacity r"

abbreviation frame_eq :: "race_record \<Rightarrow> race_record \<Rightarrow> bool" where
  "frame_eq r r' \<equiv> rr_capacity r' = rr_capacity r \<and> rr_numReads r' = rr_numReads r \<and>
     rr_writeThread r' = rr_writeThread r \<and> rr_writeClock r' = rr_writeClock r \<and>
     length (rr_readClock r') = length (rr_readClock r) \<and> length (rr_thread r') = length (rr_thread r)"

lemma keep_reads_loop:
  assumes "c \<le> k" "k \<le> n" "n \<le> length (rr_thread r)" "length (rr_readClock r) = length (rr_thread r)"
  shows "\<exists>c' r'. for_each (keep_read cv t) [k..<n] (c, r) = Some (c', r') \<and> c' \<le> n \<and> frame_eq r r' \<and>
     take c' (entries r') = take c (entries r) @
       filter (\<lambda>(u, s). clock_may_race cv t s u) (drop k (take n (entries r)))"
  using assms
proof (induction "n - k" arbitrary: k c r)
  case 0
  then show ?case by simp
next
  case (Suc d)
  from Suc.hyps(2) have kn: "k < n" and upt: "[k..<n] = k # [Suc k..<n]" by (simp_all add: upt_conv_Cons)
  define race where "race = clock_may_race cv t (rr_readClock r ! k) (rr_thread r ! k)"
  define r1 where "r1 = (if race \<and> c \<noteq> k then r\<lparr>rr_readClock := (rr_readClock r)[c := rr_readClock r ! k],
                              rr_thread := (rr_thread r)[c := rr_thread r ! k]\<rparr> else r)"
  define c1 where "c1 = (if race then c + 1 else c)"
  have step: "keep_read cv t k (c, r) = Some (c1, r1)"
    using kn Suc.prems by (simp add: keep_read_def r1_def c1_def race_def)
  have len: "length (entries r) = length (rr_thread r)" using Suc.prems by (simp add: entries_def)
  have ek: "entries r ! k = (rr_thread r ! k, rr_readClock r ! k)"
    using kn Suc.prems by (simp add: entries_def)
  have e1: "entries r1 = (if race then (entries r)[c := entries r ! k] else entries r)"
    using Suc.prems kn by (auto simp: r1_def entries_def update_zip)
  have fr: "frame_eq r r1" by (simp add: r1_def)
  from fr Suc.prems kn Suc.hyps(2) have "d = n - Suc k" "c1 \<le> Suc k" "Suc k \<le> n" "n \<le> length (rr_thread r1)"
      "length (rr_readClock r1) = length (rr_thread r1)" by (auto simp: c1_def)
  from Suc.hyps(1) [OF this] obtain c' r' where IH: "for_each (keep_read cv t) [Suc k..<n] (c1, r1) = Some (c', r')"
     "c' \<le> n" "frame_eq r1 r'" "take c' (entries r') = take c1 (entries r1) @
       filter (\<lambda>(u, s). clock_may_race cv t s u) (drop (Suc k) (take n (entries r1)))" by blast
  have dr: "drop (Suc k) (take n (entries r1)) = drop (Suc k) (take n (entries r))"
    using Suc.prems unfolding e1 by (simp add: take_update_swap)
  have tk: "take c1 (entries r1) = take c (entries r) @ (if race then [entries r ! k] else [])"
    using Suc.prems kn len unfolding e1 c1_def by (simp add: take_Suc_conv_app_nth)
  have dk: "drop k (take n (entries r)) = entries r ! k # drop (Suc k) (take n (entries r))"
    using Suc.prems kn len by (metis Cons_nth_drop_Suc length_take min.absorb2 nth_take)
  have "filter (\<lambda>(u, s). clock_may_race cv t s u) (drop k (take n (entries r))) =
     (if race then [entries r ! k] else []) @ filter (\<lambda>(u, s). clock_may_race cv t s u) (drop (Suc k) (take n (entries r)))"
    unfolding dk by (simp add: ek race_def)
  with IH step fr show ?case by (auto simp: upt dr tk)
qed


definition kept_reads :: "clock_vector \<Rightarrow> thread_id \<Rightarrow> race_record \<Rightarrow> (thread_id \<times> modelclock) list" where
  "kept_reads cv t r = filter (\<lambda>(u, s). clock_may_race cv t s u) (recorded_reads r)"

lemma record_read_cases:
  assumes inv: "race_inv r"
  shows "if rr_capacity r = 0 then record_read cv t r = None
    else \<exists>r'. record_read cv t r = Some r' \<and> race_inv r' \<and>
           recorded_reads r' = kept_reads cv t r @ [(t, getClock cv t)] \<and>
           rr_writeThread r' = rr_writeThread r \<and> rr_writeClock r' = rr_writeClock r \<and>
           (rr_capacity r' = rr_capacity r \<or> rr_capacity r' = 2 * rr_capacity r)"
proof -
  let ?n = "rr_numReads r"
  from inv have l: "?n \<le> length (rr_thread r)" "length (rr_readClock r) = length (rr_thread r)"
    by (simp_all add: race_inv_def)
  obtain c r1 where loop: "for_each (keep_read cv t) [0..<?n] (0, r) = Some (c, r1)" "c \<le> ?n" "frame_eq r r1"
    and pre: "take c (entries r1) = kept_reads cv t r"
    using keep_reads_loop [OF le0 le0 l, of cv t] by (auto simp: kept_reads_def recorded_reads_def)
  have len1: "length (rr_thread r1) = rr_capacity r" "length (rr_readClock r1) = rr_capacity r" "rr_capacity r1 = rr_capacity r"
    using loop(3) inv by (simp_all add: race_inv_def)
  have c: "c \<le> rr_capacity r" using loop(2) inv by (simp add: race_inv_def)
  show ?thesis
  proof (cases "rr_capacity r = 0")
    case True
    with c len1 loop(1) show ?thesis by (simp add: record_read_def grow_record_def)
  next
    case False
    define r2 where "r2 = grow_record c r1"
    have r2: "length (rr_thread r2) = rr_capacity r2" "length (rr_readClock r2) = rr_capacity r2" "c < rr_capacity r2"
        "rr_capacity r2 = rr_capacity r \<or> rr_capacity r2 = 2 * rr_capacity r"
        "rr_writeThread r2 = rr_writeThread r1" "rr_writeClock r2 = rr_writeClock r1"
      using False c len1 by (auto simp: r2_def grow_record_def Let_def)
    have "take c (rr_thread r2) = take c (rr_thread r1)" "take c (rr_readClock r2) = take c (rr_readClock r1)"
      using c len1 by (simp_all add: r2_def grow_record_def Let_def vec_grow_def)
    then have pre2: "take c (entries r2) = kept_reads cv t r"
      unfolding pre [symmetric] by (simp add: entries_def take_zip)
    define r3 where "r3 = r2\<lparr>rr_thread := (rr_thread r2)[c := t], rr_readClock := (rr_readClock r2)[c := getClock cv t], rr_numReads := c + 1\<rparr>"
    have "record_read cv t r = Some r3"
      using r2 by (simp add: record_read_def loop(1) r2_def [symmetric] r3_def)
    moreover have "entries r3 = (entries r2)[c := (t, getClock cv t)]"
      by (simp add: entries_def r3_def update_zip)
    then have "recorded_reads r3 = kept_reads cv t r @ [(t, getClock cv t)]"
      using r2(1-3) pre2 by (simp add: recorded_reads_def r3_def take_Suc_conv_app_nth entries_def)
    moreover have "race_inv r3" using r2 by (simp add: race_inv_def r3_def)
    ultimately show ?thesis using False r2(4-6) loop(3) by (simp add: r3_def)
  qed
qed

text \<open>
  The capacity is 0 after the expansion of a word without a read: a first read by a thread with a
  large id, or at a large clock value, writes out of bounds.
\<close>

lemma expandRecord_inv: "race_inv (expandRecord w)"
  by (simp add: race_inv_def expandRecord_def Let_def INITCAPACITY_def)

theorem read_of_expanded_record:
  "record_read cv t (expandRecord w) = None \<longleftrightarrow> READVECTOR w = 0"
proof -
  have "rr_capacity (expandRecord w) = 0 \<longleftrightarrow> READVECTOR w = 0"
    by (simp add: expandRecord_def Let_def INITCAPACITY_def)
  with record_read_cases [OF expandRecord_inv, of w cv t] show ?thesis
    by (auto split: if_splits)
qed

text \<open>
  C39: recording a read in a full record stays within its arrays exactly when the record has a
  non-empty capacity: then the entries that the read does not subsume are kept in order, the read
  is added behind them, the last write is unchanged and the arrays at most double. With capacity 0
  doubling leaves the arrays empty and the store is out of bounds.
\<close>

theorem record_read_within_arrays:
  assumes inv: "race_inv r"
  shows "if rr_capacity r = 0 then record_read cv t r = None
    else \<exists>r'. record_read cv t r = Some r' \<and> race_inv r' \<and>
           recorded_reads r' = kept_reads cv t r @ [(t, getClock cv t)] \<and>
           rr_writeThread r' = rr_writeThread r \<and> rr_writeClock r' = rr_writeClock r \<and>
           (rr_capacity r' = rr_capacity r \<or> rr_capacity r' = 2 * rr_capacity r)"
  by (rule record_read_cases [OF inv])

theorem record_read_within_arrays_witness:
  "\<exists>r'. record_read [5, 1] 1 (expandRecord (ENCODEOP 0 7 0 2)) = Some r' \<and>
     recorded_reads r' = [(0, 7), (1, 1)] \<and> rr_capacity r' \<in> {4, 8}"
proof -
  let ?r = "expandRecord (ENCODEOP 0 7 0 2)"
  have "rr_capacity ?r = 4" "kept_reads [5, 1] 1 ?r = [(0, 7)]" "getClock [5, 1] 1 = 1"
    by code_simp+
  then show ?thesis
    using record_read_within_arrays [OF expandRecord_inv, of "ENCODEOP 0 7 0 2" "[5, 1]" 1] by auto
qed

subsection \<open>Shadow tables\<close>

definition shadow_of :: "shadow_root \<Rightarrow> loc \<Rightarrow> shadow" where
  "shadow_of root a = snd (lookupAddressEntry a root)"

lemma shadow_of_init [simp]: "shadow_of initRaceDetector a = Short 0"
  by (simp add: shadow_of_def lookupAddressEntry_def initRaceDetector_def)

lemma shadow_of_lookup: "shadow_of (fst (lookupAddressEntry b root)) a = shadow_of root a"
  by (auto simp: shadow_of_def lookupAddressEntry_def Let_def split: option.splits)

lemma take_bit_word_eq_iff:
  "take_bit m (x :: 'a::len word) = take_bit m y \<longleftrightarrow> (\<forall>n < m. bit x n = bit y n)"
proof
  assume e: "take_bit m x = take_bit m y"
  show "\<forall>n < m. bit x n = bit y n"
  proof (intro allI impI)
    fix n assume "n < m"
    then show "bit x n = bit y n" using arg_cong [OF e, of "\<lambda>z. bit z n"] by (simp add: bit_take_bit_iff)
  qed
next
  assume "\<forall>n < m. bit x n = bit y n"
  then show "take_bit m x = take_bit m y" by (intro bit_eqI) (auto simp: bit_take_bit_iff)
qed

lemma indices_eq_iff:
  "top_index a = top_index b \<and> mid_index a = mid_index b \<and> low_index a = low_index b \<longleftrightarrow>
   take_bit 48 a = take_bit 48 b"
proof -
  have m: "x AND MASK16BIT = take_bit 16 x" for x :: u64
    by (simp add: mask_bits take_bit_eq_mask)
  have eq: "take_bit 16 (drop_bit k a) = take_bit 16 (drop_bit k b) \<longleftrightarrow> (\<forall>n. k \<le> n \<and> n < k + 16 \<longrightarrow> bit a n = bit b n)" for k
    unfolding take_bit_word_eq_iff bit_drop_bit_eq comp_apply
    by (metis add_less_cancel_left le_add1 le_add_diff_inverse)
  have s: "(\<forall>n < 48. Q n) \<longleftrightarrow> (\<forall>n. 32 \<le> n \<and> n < 32 + 16 \<longrightarrow> Q n) \<and> (\<forall>n. 16 \<le> n \<and> n < 16 + 16 \<longrightarrow> Q n)
      \<and> (\<forall>n. 0 \<le> n \<and> n < 0 + 16 \<longrightarrow> Q n)" for Q :: "nat \<Rightarrow> bool"
  proof (intro iffI conjI allI impI; (elim conjE)?)
    fix n :: nat
    assume n: "n < 48" and a: "\<forall>n. 32 \<le> n \<and> n < 32 + 16 \<longrightarrow> Q n" "\<forall>n. 16 \<le> n \<and> n < 16 + 16 \<longrightarrow> Q n"
      "\<forall>n. 0 \<le> n \<and> n < 0 + 16 \<longrightarrow> Q n"
    consider "32 \<le> n" | "16 \<le> n" "n < 32" | "n < 16" by linarith
    then show "Q n" using a n by cases auto
  qed auto
  show ?thesis
    unfolding top_index_def mid_index_def low_index_def m take_bit_word_eq_iff [of 48] s
    using eq [of 32] eq [of 16] eq [of 0] by simp
qed

definition entry3 :: "shadow_root \<Rightarrow> u64 \<Rightarrow> u64 \<Rightarrow> u64 \<Rightarrow> shadow" where
  "entry3 root i j k = (case root i of None \<Rightarrow> Short 0
     | Some t \<Rightarrow> (case t j of None \<Rightarrow> Short 0 | Some b \<Rightarrow> b k))"

lemma shadow_of_entry3: "shadow_of root a = entry3 root (top_index a) (mid_index a) (low_index a)"
  by (auto simp: shadow_of_def lookupAddressEntry_def entry3_def split: option.splits)

lemma entry3_upd:
  "root i = Some t \<Longrightarrow> t j = Some b \<Longrightarrow>
   entry3 (root(i \<mapsto> t(j \<mapsto> b(k := v)))) i' j' k' =
     (if i' = i \<and> j' = j \<and> k' = k then v else entry3 root i' j' k')"
  by (cases "i' = i"; cases "j' = j") (auto simp: entry3_def split: option.splits)

lemma lookup_allocates:
  "\<exists>t b. fst (lookupAddressEntry a root) (top_index a) = Some t \<and> t (mid_index a) = Some b"
  by (simp add: lookupAddressEntry_def Let_def)

text \<open>
  The three-level shadow table is a map on 48-bit addresses: after a lookup, which allocates the
  missing tables, the store through the returned pointer succeeds and changes the entries of
  exactly the addresses with the same low 48 bits.
\<close>

theorem set_shadow_lookup:
  "\<exists>root'. set_shadow a v (fst (lookupAddressEntry a root)) = Some root' \<and>
     (\<forall>b. shadow_of root' b = (if take_bit 48 b = take_bit 48 a then v else shadow_of root b))"
proof -
  let ?r = "fst (lookupAddressEntry a root)"
  obtain t b where t: "?r (top_index a) = Some t" "t (mid_index a) = Some b"
    using lookup_allocates by blast
  have "shadow_of (?r(top_index a \<mapsto> t(mid_index a \<mapsto> b(low_index a := v)))) c =
      (if take_bit 48 c = take_bit 48 a then v else shadow_of root c)" for c
    unfolding shadow_of_entry3 entry3_upd [of ?r "top_index a" t "mid_index a" b, OF t] indices_eq_iff
    unfolding shadow_of_entry3 [symmetric] shadow_of_lookup ..
  with t show ?thesis by (simp add: set_shadow_def)
qed

end
