(* ===== verification/Execution_State.thy ===== *)
theory Execution_State
  imports Cycle_Graph Thread_Selection Race_Records
begin

text \<open>
  The state of one execution of the checked program (class \<open>ModelExecution\<close> and
  \<open>model_snapshot_members\<close> of \<open>execution.h\<close>, \<open>execution.cc\<close>), its look-ups, its feasibility
  tests and the lists an action is added to.

  Actions and promises are objects of a store (\<open>ex_acts\<close>, \<open>ex_proms\<close>) with the next free pointer;
  threads live in \<open>thread_map\<close>; a node of the stack is named by its index. The hash tables
  \<open>obj_map\<close>, \<open>condvar_waiters_map\<close> and \<open>obj_thrd_map\<close> are maps from locations (that the code's table
  is such a map is shown in \<open>Hash_Table\<close>). Memory of the checked program that the checker reads is
  part of the state: the mutex states, and which thread a \<open>Thread\<close> or \<open>thrd_t\<close> object stands for.
  The static variables of \<open>datarace.cc\<close> are the last two fields.

  A function returns \<open>None\<close> where the code fails an assertion or follows a null pointer or an
  iterator past the end.
\<close>

subsection \<open>Data\<close>

definition INITIAL_THREAD_ID :: thread_id where "INITIAL_THREAD_ID = 0"

record release_seq =
  rs_acquire :: act_ptr
  rs_read :: act_ptr
  rs_rf :: "act_ptr option"
  rs_release :: "act_ptr option"
  rs_writes :: "act_ptr list"

record pending_future_value =
  pfv_writer :: act_ptr
  pfv_reader :: act_ptr

text \<open>A bug message, by its format string and the values formatted into it.\<close>

datatype bug_message =
  Bug_Text string
| Bug_Deadlock thread_id
| Bug_Uninitialized modelclock thread_id loc string string
| Bug_Race loc bool thread_id modelclock bool thread_id modelclock

record execution =
  ex_params :: model_params
  ex_sched :: scheduler
  ex_stack :: nodestack
  ex_acts :: "act_ptr \<Rightarrow> model_action"
  ex_next_act :: act_ptr
  ex_proms :: "promise_ptr \<Rightarrow> promise"
  ex_next_prom :: promise_ptr
  ex_mutexes :: "loc \<Rightarrow> mutex_state"
  ex_thread_at :: "loc \<Rightarrow> thread_id option"
  ex_priv_of :: "loc \<Rightarrow> thread_id option"
  action_trace :: "act_ptr list"
  thread_map :: "thread option list"
  obj_map :: "loc \<Rightarrow> act_ptr list option"
  condvar_waiters_map :: "loc \<Rightarrow> act_ptr list option"
  obj_thrd_map :: "loc \<Rightarrow> act_ptr list list option"
  promises :: "promise_ptr list"
  futurevalues :: "pending_future_value list"
  pending_rel_seqs :: "release_seq list"
  thrd_last_action :: "act_ptr option list"
  thrd_last_fence_release :: "act_ptr option list"
  mo_graph :: cycle_graph
  next_thread_id :: nat
  used_sequence_numbers :: modelclock
  next_backtrack :: "act_ptr option"
  bugs :: "bug_message list"
  failed_promise :: bool
  hard_failed_promise :: bool
  too_many_reads :: bool
  no_valid_reads :: bool
  bad_synchronization :: bool
  bad_sc_read :: bool
  asserted :: bool
  unrealizedraces :: "data_race list"
  ex_shadow :: shadow_root

definition upd_act :: "act_ptr \<Rightarrow> (model_action \<Rightarrow> model_action) \<Rightarrow> execution \<Rightarrow> execution" where
  "upd_act a f s = s\<lparr>ex_acts := (ex_acts s)(a := f (ex_acts s a))\<rparr>"

definition upd_prom :: "promise_ptr \<Rightarrow> promise \<Rightarrow> execution \<Rightarrow> execution" where
  "upd_prom p pr s = s\<lparr>ex_proms := (ex_proms s)(p := pr)\<rparr>"

text \<open>\<open>operator <\<close> on actions.\<close>

definition act_less :: "execution \<Rightarrow> act_ptr \<Rightarrow> act_ptr \<Rightarrow> bool" where
  "act_less s a b \<longleftrightarrow> ma_seq_number (ex_acts s a) < ma_seq_number (ex_acts s b)"

subsection \<open>Threads\<close>

definition get_next_id :: "execution \<Rightarrow> thread_id \<times> execution" where
  "get_next_id s = (next_thread_id s, s\<lparr>next_thread_id := next_thread_id s + 1\<rparr>)"

definition get_num_threads :: "execution \<Rightarrow> nat" where
  "get_num_threads s = next_thread_id s"

definition get_next_seq_num :: "execution \<Rightarrow> modelclock \<times> execution" where
  "get_next_seq_num s =
     (let s = s\<lparr>used_sequence_numbers := used_sequence_numbers s + 1\<rparr> in (used_sequence_numbers s, s))"

definition get_thread :: "execution \<Rightarrow> thread_id \<Rightarrow> thread option" where
  "get_thread s tid = (if tid < length (thread_map s) then thread_map s ! tid else None)"

definition get_thread_of :: "execution \<Rightarrow> act_ptr \<Rightarrow> thread option" where
  "get_thread_of s a = get_thread s (ma_tid (ex_acts s a))"

definition add_thread_ex :: "thread \<Rightarrow> execution \<Rightarrow> execution option" where
  "add_thread_ex t s =
     (let i = th_id t;
          m = (if i \<ge> length (thread_map s) then vec_resize (i + 1) None (thread_map s) else thread_map s);
          s = s\<lparr>thread_map := m[i := Some t]\<rparr>
      in if \<not> th_model_thread t
         then do { sc \<leftarrow> sched_add_thread t (ex_sched s); Some (s\<lparr>ex_sched := sc\<rparr>) }
         else Some s)"

text \<open>Assignment through a \<open>Thread\<close> pointer.\<close>

definition put_thread :: "thread \<Rightarrow> execution \<Rightarrow> execution" where
  "put_thread t s = s\<lparr>thread_map := (thread_map s)[th_id t := Some t]\<rparr>"

definition thread_env_of :: "execution \<Rightarrow> thread_env" where
  "thread_env_of s =
     \<lparr>te_threads = (\<lambda>t. case get_thread s t of Some th \<Rightarrow> th | None \<Rightarrow> new_thread t None),
      te_actions = ex_acts s, te_mutexes = ex_mutexes s, thread_at = ex_thread_at s,
      priv_of = ex_priv_of s\<rparr>"

subsection \<open>The constructor\<close>

text \<open>
  The scheduler and the node stack are given, with the store of actions of the node stack and the
  memory of the checked program.
\<close>

definition new_execution ::
  "model_params \<Rightarrow> scheduler \<Rightarrow> nodestack \<Rightarrow> (act_ptr \<Rightarrow> model_action) \<Rightarrow> act_ptr \<Rightarrow>
   (loc \<Rightarrow> mutex_state) \<Rightarrow> (loc \<Rightarrow> thread_id option) \<Rightarrow> execution option" where
  "new_execution params sched stack acts next_act mutexes thrd_at =
     (let s = \<lparr>ex_params = params, ex_sched = sched, ex_stack = stack, ex_acts = acts,
               ex_next_act = next_act, ex_proms = (\<lambda>_. new_promise 0 0 \<lparr>fv_value = 0, fv_expiration = 0, fv_tid = 0\<rparr>),
               ex_next_prom = 0, ex_mutexes = mutexes, ex_thread_at = thrd_at, ex_priv_of = (\<lambda>_. None),
               action_trace = [], thread_map = replicate 2 None, obj_map = (\<lambda>_. None),
               condvar_waiters_map = (\<lambda>_. None), obj_thrd_map = (\<lambda>_. None), promises = [],
               futurevalues = [], pending_rel_seqs = [], thrd_last_action = replicate 1 None,
               thrd_last_fence_release = [], mo_graph = new_cycle_graph,
               next_thread_id = INITIAL_THREAD_ID, used_sequence_numbers = 0, next_backtrack = None,
               bugs = [], failed_promise = False, hard_failed_promise = False,
               too_many_reads = False, no_valid_reads = False, bad_synchronization = False,
               bad_sc_read = False, asserted = False, unrealizedraces = [],
               ex_shadow = initRaceDetector\<rparr>;
          (tid, s) = get_next_id s
      in add_thread_ex (new_model_thread tid) s)"

subsection \<open>Nodes\<close>

text \<open>\<open>get_node\<close> followed by a use of the node; \<open>get_parent\<close> is the node below it, if any.\<close>

definition node_of :: "execution \<Rightarrow> act_ptr \<Rightarrow> (nat \<times> node) option" where
  "node_of s a = (case ma_node (ex_acts s a) of
     None \<Rightarrow> None
   | Some i \<Rightarrow> if i < length (node_list (ex_stack s)) then Some (i, node_list (ex_stack s) ! i) else None)"

definition parent_of :: "execution \<Rightarrow> nat \<Rightarrow> node option" where
  "parent_of s i = (if i = 0 then None else Some (node_list (ex_stack s) ! (i - 1)))"

definition put_node :: "nat \<Rightarrow> node \<Rightarrow> execution \<Rightarrow> execution" where
  "put_node i n s =
     s\<lparr>ex_stack := (ex_stack s)\<lparr>node_list := (node_list (ex_stack s))[i := n]\<rparr>\<rparr>"

subsection \<open>Look-ups\<close>

definition get_actions_on_obj :: "execution \<Rightarrow> loc \<Rightarrow> thread_id \<Rightarrow> act_ptr list option" where
  "get_actions_on_obj s obj tid = (case obj_thrd_map s obj of
     None \<Rightarrow> None
   | Some wrv \<Rightarrow> if tid < length wrv then Some (wrv ! tid) else None)"

definition get_last_action :: "execution \<Rightarrow> thread_id \<Rightarrow> act_ptr option" where
  "get_last_action s tid = (if tid < length (thrd_last_action s) then thrd_last_action s ! tid else None)"

definition get_last_fence_release :: "execution \<Rightarrow> thread_id \<Rightarrow> act_ptr option" where
  "get_last_fence_release s tid =
     (if tid < length (thrd_last_fence_release s) then thrd_last_fence_release s ! tid else None)"

definition get_last_seq_cst_write :: "execution \<Rightarrow> act_ptr \<Rightarrow> act_ptr option option" where
  "get_last_seq_cst_write s cur = do {
     list \<leftarrow> obj_map s (ma_location (ex_acts s cur));
     let rit = dropWhile (\<lambda>a. a \<noteq> cur) (rev list);
     ASSERT (rit \<noteq> []);
     Some (find (\<lambda>a. is_write (ex_acts s a) \<and> is_seqcst (ex_acts s a)) (tl rit))
   }"

definition get_last_seq_cst_fence ::
  "execution \<Rightarrow> thread_id \<Rightarrow> act_ptr option \<Rightarrow> act_ptr option option" where
  "get_last_seq_cst_fence s tid before_fence = (case obj_map s FENCE_LOCATION of
     None \<Rightarrow> Some None
   | Some list \<Rightarrow> do {
       rit \<leftarrow> (case before_fence of
                 None \<Rightarrow> Some (rev list)
               | Some f \<Rightarrow> do {
                   let r = dropWhile (\<lambda>a. a \<noteq> f) (rev list);
                   ASSERT (r \<noteq> []);
                   Some (tl r)
                 });
       Some (find (\<lambda>a. is_fence (ex_acts s a) \<and> tid = ma_tid (ex_acts s a) \<and> is_seqcst (ex_acts s a)) rit)
     })"

definition get_last_unlock :: "execution \<Rightarrow> act_ptr \<Rightarrow> act_ptr option option" where
  "get_last_unlock s cur = do {
     list \<leftarrow> obj_map s (ma_location (ex_acts s cur));
     Some (find (\<lambda>a. is_unlock (ex_acts s a) \<or> is_wait (ex_acts s a)) (rev list))
   }"

definition get_parent_action :: "execution \<Rightarrow> thread_id \<Rightarrow> act_ptr option option" where
  "get_parent_action s tid = (case get_last_action s tid of
     Some a \<Rightarrow> Some (Some a)
   | None \<Rightarrow> do { t \<leftarrow> get_thread s tid; Some (th_creation t) })"

definition get_cv :: "execution \<Rightarrow> thread_id \<Rightarrow> clock_vector option" where
  "get_cv s tid = do { p \<leftarrow> get_parent_action s tid; a \<leftarrow> p; Some (ma_cv (ex_acts s a)) }"

fun index_from :: "'a list \<Rightarrow> 'a \<Rightarrow> int \<Rightarrow> int" where
  "index_from [] x i = -1"
| "index_from (y # ys) x i = (if y = x then i else index_from ys x (i + 1))"

definition get_promise_number :: "execution \<Rightarrow> promise_ptr \<Rightarrow> int" where
  "get_promise_number s p = index_from (promises s) p 0"

subsection \<open>Feasibility\<close>

definition promises_expired :: "execution \<Rightarrow> bool" where
  "promises_expired s \<longleftrightarrow>
     (\<exists>p \<in> set (promises s). fv_expiration (fv (ex_proms s p)) < used_sequence_numbers s)"

definition is_infeasible :: "execution \<Rightarrow> bool" where
  "is_infeasible s \<longleftrightarrow> checkForCycles (mo_graph s) \<or> no_valid_reads s \<or> too_many_reads s \<or>
     bad_synchronization s \<or> bad_sc_read s \<or> hard_failed_promise s \<or> promises_expired s"

definition is_feasible_prefix_ignore_relseq :: "execution \<Rightarrow> bool" where
  "is_feasible_prefix_ignore_relseq s \<longleftrightarrow>
     \<not> is_infeasible s \<and> length (promises s) = 0 \<and> \<not> failed_promise s"

definition isfeasibleprefix :: "execution \<Rightarrow> bool" where
  "isfeasibleprefix s \<longleftrightarrow> length (pending_rel_seqs s) = 0 \<and> is_feasible_prefix_ignore_relseq s"

text \<open>The tags \<open>print_infeasibility\<close> prints.\<close>

definition infeasibility_tags :: "execution \<Rightarrow> string list" where
  "infeasibility_tags s =
     (if checkForCycles (mo_graph s) then [''[mo cycle]''] else []) @
     (if failed_promise s \<or> hard_failed_promise s then [''[failed promise]''] else []) @
     (if too_many_reads s then [''[too many reads]''] else []) @
     (if no_valid_reads s then [''[no valid reads-from]''] else []) @
     (if bad_synchronization s then [''[bad sw ordering]''] else []) @
     (if bad_sc_read s then [''[bad sc read]''] else []) @
     (if promises_expired s then [''[promise expired]''] else []) @
     (if length (promises s) \<noteq> 0 then [''[unresolved promise]''] else [])"

definition set_bad_synchronization :: "execution \<Rightarrow> execution" where
  "set_bad_synchronization s = s\<lparr>bad_synchronization := True\<rparr>"

definition set_bad_sc_read :: "execution \<Rightarrow> execution" where
  "set_bad_sc_read s = s\<lparr>bad_sc_read := True\<rparr>"

definition set_assert :: "execution \<Rightarrow> execution" where
  "set_assert s = s\<lparr>asserted := True\<rparr>"

definition has_asserted :: "execution \<Rightarrow> bool" where
  "has_asserted s = asserted s"

definition assert_bug :: "bug_message \<Rightarrow> execution \<Rightarrow> bool \<times> execution" where
  "assert_bug msg s =
     (let s = s\<lparr>bugs := bugs s @ [msg]\<rparr>
      in if isfeasibleprefix s then (True, set_assert s) else (False, s))"

definition have_bug_reports :: "execution \<Rightarrow> bool" where
  "have_bug_reports s \<longleftrightarrow> length (bugs s) \<noteq> 0"

definition too_many_steps :: "execution \<Rightarrow> bool" where
  "too_many_steps s \<longleftrightarrow>
     mp_bound (ex_params s) \<noteq> 0 \<and> used_sequence_numbers s > mp_bound (ex_params s)"

subsection \<open>The end of an execution\<close>

fun deadlock_loop :: "execution \<Rightarrow> thread_id list \<Rightarrow> bool \<Rightarrow> bool option" where
  "deadlock_loop s [] blocking_threads = Some blocking_threads"
| "deadlock_loop s (tid # tids) blocking_threads =
     (if is_enabled (ex_sched s) tid then Some False
      else do {
        t \<leftarrow> get_thread s tid;
        deadlock_loop s tids
          (if \<not> th_model_thread t \<and> th_pending t \<noteq> None then True else blocking_threads)
      })"

definition is_deadlocked :: "execution \<Rightarrow> bool option" where
  "is_deadlocked s = deadlock_loop s [0..<get_num_threads s] False"

fun yieldblock_loop :: "execution \<Rightarrow> thread_id list \<Rightarrow> bool option" where
  "yieldblock_loop s [] = Some False"
| "yieldblock_loop s (tid # tids) = do {
     t \<leftarrow> get_thread s tid;
     (case th_pending t of
        Some a \<Rightarrow> if is_yield (ex_acts s a) then Some True else yieldblock_loop s tids
      | None \<Rightarrow> yieldblock_loop s tids)
   }"

definition is_yieldblocked :: "execution \<Rightarrow> bool option" where
  "is_yieldblocked s =
     (if \<not> yieldblock (ex_params s) then Some False else yieldblock_loop s [0..<get_num_threads s])"

definition is_complete_execution :: "execution \<Rightarrow> bool option" where
  "is_complete_execution s = do {
     y \<leftarrow> is_yieldblocked s;
     if y then Some False
     else Some (list_all (\<lambda>i. \<not> is_enabled (ex_sched s) i) [0..<get_num_threads s])
   }"

subsection \<open>The latest backtracking point\<close>

definition set_latest_backtrack :: "act_ptr \<Rightarrow> execution \<Rightarrow> bool \<times> execution" where
  "set_latest_backtrack a s =
     (if (case next_backtrack s of None \<Rightarrow> True | Some b \<Rightarrow> act_less s b a)
      then (True, s\<lparr>next_backtrack := Some a\<rparr>) else (False, s))"

definition take_next_backtrack :: "execution \<Rightarrow> act_ptr option \<times> execution" where
  "take_next_backtrack s = (next_backtrack s, s\<lparr>next_backtrack := None\<rparr>)"

definition check_curr_backtracking :: "act_ptr \<Rightarrow> execution \<Rightarrow> execution option" where
  "check_curr_backtracking cur s = do {
     (i, currnode) \<leftarrow> node_of s cur;
     if (case parent_of s i of Some parnode \<Rightarrow> \<not> backtrack_empty parnode | None \<Rightarrow> False) \<or>
        \<not> misc_empty currnode \<or> \<not> read_from_empty currnode \<or> \<not> promise_empty currnode \<or>
        \<not> relseq_break_empty currnode
     then Some (snd (set_latest_backtrack cur s))
     else Some s
   }"

definition action_select_next_thread :: "execution \<Rightarrow> act_ptr \<Rightarrow> thread_id option" where
  "action_select_next_thread s cur =
     (if is_rmwr (ex_acts s cur) then map_option th_id (get_thread_of s cur)
      else if ma_type (ex_acts s cur) = THREAD_CREATE
      then get_thread_operand (thread_env_of s) (ex_acts s cur)
      else None)"

subsection \<open>Adding an action to the lists\<close>

definition get_safe_ptr_action ::
  "(loc \<Rightarrow> act_ptr list option) \<Rightarrow> loc \<Rightarrow> act_ptr list \<times> (loc \<Rightarrow> act_ptr list option)" where
  "get_safe_ptr_action hash ptr =
     (case hash ptr of Some l \<Rightarrow> (l, hash) | None \<Rightarrow> ([], hash(ptr \<mapsto> [])))"

definition get_safe_ptr_vect_action ::
  "(loc \<Rightarrow> act_ptr list list option) \<Rightarrow> loc \<Rightarrow> act_ptr list list \<times> (loc \<Rightarrow> act_ptr list list option)" where
  "get_safe_ptr_vect_action hash ptr =
     (case hash ptr of Some l \<Rightarrow> (l, hash) | None \<Rightarrow> ([], hash(ptr \<mapsto> [])))"

text \<open>\<open>get_uninitialized_action\<close> changes the node and the store although its object is const.\<close>

definition get_uninitialized_action :: "act_ptr \<Rightarrow> execution \<Rightarrow> (act_ptr \<times> execution) option" where
  "get_uninitialized_action cur s = do {
     (i, n) \<leftarrow> node_of s cur;
     (u, s) \<leftarrow> (case nd_uninit_action n of
        Some u \<Rightarrow> Some (u, s)
      | None \<Rightarrow> do {
          a \<leftarrow> new_action ATOMIC_UNINIT memory_order_relaxed (ma_location (ex_acts s cur))
                 (ucast (uninitvalue (ex_params s))) (Some INITIAL_THREAD_ID) INITIAL_THREAD_ID;
          let u = ex_next_act s;
          Some (u, put_node i (n\<lparr>nd_uninit_action := Some u\<rparr>)
                     (s\<lparr>ex_acts := (ex_acts s)(u := a), ex_next_act := u + 1\<rparr>))
        });
     Some (u, upd_act u (create_cv None) s)
   }"

text \<open>\<open>push_back\<close> of the action on the vector of lists of an object, resized when it is too short.\<close>

definition push_thrd :: "nat \<Rightarrow> thread_id \<Rightarrow> act_ptr \<Rightarrow> act_ptr list list \<Rightarrow> act_ptr list list option" where
  "push_thrd next_tid tid a vec =
     (let vec = (if tid \<ge> length vec then vec_resize next_tid [] vec else vec)
      in if tid < length vec then Some (vec[tid := vec ! tid @ [a]]) else None)"

definition store_last :: "nat \<Rightarrow> thread_id \<Rightarrow> act_ptr \<Rightarrow> act_ptr option list \<Rightarrow> act_ptr option list option" where
  "store_last num_threads tid a v =
     (let v = (if length v \<le> tid then vec_resize num_threads None v else v)
      in if tid < length v then Some (v[tid := Some a]) else None)"

text \<open>
  The parts of \<open>add_action_to_lists\<close>: the uninitialized store of an object that is used for the first
  time, the lists of one object, the last actions and the last release fence.
\<close>

definition first_uninit :: "act_ptr \<Rightarrow> execution \<Rightarrow> (act_ptr option \<times> execution) option" where
  "first_uninit a s = do {
     let act = ex_acts s a;
     let (list, om) = get_safe_ptr_action (obj_map s) (ma_location act);
     let s = s\<lparr>obj_map := om\<rparr>;
     if list = [] \<and> is_atomic_var act
     then do { (u, s) \<leftarrow> get_uninitialized_action a s; Some (Some u, s) }
     else Some (None, s)
   }"

definition push_object :: "act_ptr option \<Rightarrow> act_ptr \<Rightarrow> loc \<Rightarrow> execution \<Rightarrow> execution option" where
  "push_object uninit a l s = do {
     let (list, om) = get_safe_ptr_action (obj_map s) l;
     let list = (case uninit of Some u \<Rightarrow> u # list | None \<Rightarrow> list) @ [a];
     let (vec, otm) = get_safe_ptr_vect_action (obj_thrd_map s) l;
     vec \<leftarrow> push_thrd (next_thread_id s) (ma_tid (ex_acts s a)) a vec;
     vec \<leftarrow> (case uninit of None \<Rightarrow> Some vec
              | Some u \<Rightarrow> let ut = ma_tid (ex_acts s u)
                          in if ut < length vec then Some (vec[ut := u # vec ! ut]) else None);
     Some (s\<lparr>obj_map := om(l \<mapsto> list), obj_thrd_map := otm(l \<mapsto> vec)\<rparr>)
   }"

definition push_last :: "act_ptr option \<Rightarrow> act_ptr \<Rightarrow> execution \<Rightarrow> execution option" where
  "push_last uninit a s = do {
     la \<leftarrow> store_last (get_num_threads s) (ma_tid (ex_acts s a)) a (thrd_last_action s);
     la \<leftarrow> (case uninit of None \<Rightarrow> Some la
             | Some u \<Rightarrow> let ut = ma_tid (ex_acts s u)
                         in if ut < length la then Some (la[ut := Some u]) else None);
     Some (s\<lparr>thrd_last_action := la\<rparr>)
   }"

definition push_fence :: "act_ptr \<Rightarrow> execution \<Rightarrow> execution option" where
  "push_fence a s = (let act = ex_acts s a in
     if is_fence act \<and> is_release act
     then do {
       l \<leftarrow> store_last (get_num_threads s) (ma_tid act) a (thrd_last_fence_release s);
       Some (s\<lparr>thrd_last_fence_release := l\<rparr>)
     } else Some s)"

definition add_action_to_lists :: "act_ptr \<Rightarrow> execution \<Rightarrow> execution option" where
  "add_action_to_lists a s = do {
     (uninit, s) \<leftarrow> first_uninit a s;
     s \<leftarrow> push_object uninit a (ma_location (ex_acts s a)) s;
     let s = s\<lparr>action_trace := (case uninit of Some u \<Rightarrow> [u] | None \<Rightarrow> []) @ action_trace s @ [a]\<rparr>;
     s \<leftarrow> push_last uninit a s;
     s \<leftarrow> push_fence a s;
     if is_wait (ex_acts s a) then push_object None a (ma_value (ex_acts s a)) s else Some s
   }"

subsection \<open>Lemmas\<close>

lemma upd_prom_acts [simp]: "ex_acts (upd_prom p pr s) = ex_acts s"
  by (simp add: upd_prom_def)

lemma assert_bug_frame [simp]:
  "ex_acts (snd (assert_bug m s)) = ex_acts s" "mo_graph (snd (assert_bug m s)) = mo_graph s"
  by (simp_all add: assert_bug_def Let_def set_assert_def)

lemma node_of_mo_graph [simp]: "node_of (s\<lparr>mo_graph := g\<rparr>) a = node_of s a"
  by (cases "ma_node (ex_acts s a)") (simp_all add: node_of_def)

lemma put_node_mo_graph: "put_node k n (s\<lparr>mo_graph := g\<rparr>) = (put_node k n s)\<lparr>mo_graph := g\<rparr>"
  by (simp add: put_node_def)

lemma seq_cst_fence_mo_graph [simp]:
  "get_last_seq_cst_fence (s\<lparr>mo_graph := g\<rparr>) t f = get_last_seq_cst_fence s t f"
  by (cases "obj_map s FENCE_LOCATION") (simp_all add: get_last_seq_cst_fence_def)

lemma infeasible_split:
  "is_infeasible (s\<lparr>mo_graph := g\<rparr>) \<longleftrightarrow>
     hasCycles g \<or> is_infeasible (s\<lparr>mo_graph := g\<lparr>hasCycles := False\<rparr>\<rparr>)"
  by (simp add: is_infeasible_def checkForCycles_def promises_expired_def)

text \<open>
  A small execution for concrete inputs: thread 1 has stored to location 16 and thread 2 reads it.
\<close>

definition sample_acts :: "act_ptr \<Rightarrow> model_action" where
  "sample_acts p = (if p = 0 then (sample_action ATOMIC_WRITE 1 1)\<lparr>ma_node := Some 0\<rparr>
                    else (sample_action ATOMIC_READ 2 2)\<lparr>ma_node := Some 1\<rparr>)"

definition sample_threads :: "thread option list" where
  "sample_threads = [Some (new_model_thread 0), Some ((new_thread 1 None)\<lparr>th_state := THREAD_READY\<rparr>),
     Some ((new_thread 2 (Some 1))\<lparr>th_state := THREAD_READY\<rparr>)]"

definition sample_execution :: execution where
  "sample_execution =
     \<lparr>ex_params = sample_params,
      ex_sched = \<lparr>sc_enabled = [THREAD_DISABLED, THREAD_ENABLED, THREAD_ENABLED],
                  curr_thread_index = 0, sc_current = None\<rparr>,
      ex_stack = \<lparr>node_list = [sample_node, sample_node], head_idx = 1, total_nodes = 3\<rparr>,
      ex_acts = sample_acts, ex_next_act = 2,
      ex_proms = (\<lambda>_. new_promise 0 0 \<lparr>fv_value = 0, fv_expiration = 0, fv_tid = 0\<rparr>),
      ex_next_prom = 0, ex_mutexes = (\<lambda>_. \<lparr>locked = None, alloc_tid = 0, alloc_clock = 0\<rparr>),
      ex_thread_at = (\<lambda>_. None), ex_priv_of = (\<lambda>_. None),
      action_trace = [0, 1], thread_map = sample_threads, obj_map = [16 \<mapsto> [0, 1]],
      condvar_waiters_map = Map.empty, obj_thrd_map = [16 \<mapsto> [[], [0], [1]]], promises = [],
      futurevalues = [], pending_rel_seqs = [], thrd_last_action = [None, Some 0, Some 1],
      thrd_last_fence_release = [], mo_graph = new_cycle_graph, next_thread_id = 3,
      used_sequence_numbers = 2, next_backtrack = None, bugs = [], failed_promise = False,
      hard_failed_promise = False, too_many_reads = False, no_valid_reads = False,
      bad_synchronization = False, bad_sc_read = False, asserted = False, unrealizedraces = [],
      ex_shadow = initRaceDetector\<rparr>"

end
