(* ===== verification/Execution_Promises.thy ===== *)
theory Execution_Promises
  imports Execution_State
begin

text \<open>
  Promises during an execution (\<open>execution.cc\<close>): the elimination of threads that can no longer
  perform a promised write, the promises a write may resolve, and the tests that keep future values
  from being sent where they could never be observed.
\<close>

subsection \<open>Eliminating threads\<close>

text \<open>\<open>promise->eliminate_thread(tid)\<close> through the pointer.\<close>

definition eliminate_ex :: "promise_ptr \<Rightarrow> thread_id \<Rightarrow> execution \<Rightarrow> bool \<times> execution" where
  "eliminate_ex p tid s = (let (failed, pr) = eliminate_thread tid (ex_proms s p) in (failed, upd_prom p pr s))"

definition check_promises ::
  "thread_id \<Rightarrow> clock_vector option \<Rightarrow> clock_vector \<Rightarrow> execution \<Rightarrow> execution option" where
  "check_promises tid old_cv merge_cv s = do {
     (left, s) \<leftarrow> for_until
       (\<lambda>p s. if \<not> thread_is_available (ex_proms s p) tid then Some (False, s)
              else for_until
                (\<lambda>r s. let act = ex_acts s r in
                   if (case old_cv of None \<Rightarrow> True
                         | Some cv \<Rightarrow> \<not> synchronized_since cv (ma_tid act) (ma_seq_number act)) \<and>
                      synchronized_since merge_cv (ma_tid act) (ma_seq_number act)
                   then let (failed, s) = eliminate_ex p tid s
                        in if failed then Some (True, s\<lparr>failed_promise := True\<rparr>) else Some (False, s)
                   else Some (False, s))
                (readers (ex_proms s p)) s)
       (promises s) s;
     Some s
   }"

definition check_promises_thread_disabled :: "execution \<Rightarrow> execution" where
  "check_promises_thread_disabled s =
     (if \<exists>p \<in> set (promises s). has_failed (ex_proms s p) then s\<lparr>failed_promise := True\<rparr> else s)"

text \<open>
  The loop over the readers of one promise: it goes on when the promise has failed, and returns from
  the whole function when an elimination leaves the promise alive.
\<close>

definition thread_blocking_check_promises :: "thread_id \<Rightarrow> thread_id \<Rightarrow> execution \<Rightarrow> execution option" where
  "thread_blocking_check_promises blocker waiting s = do {
     (left, s) \<leftarrow> for_until
       (\<lambda>p s. if \<not> thread_is_available (ex_proms s p) waiting then Some (False, s)
              else for_until
                (\<lambda>r s. if ma_tid (ex_acts s r) \<noteq> blocker then Some (False, s)
                       else let (failed, s) = eliminate_ex p waiting s
                            in if failed then Some (False, s\<lparr>failed_promise := True\<rparr>) else Some (True, s))
                (readers (ex_proms s p)) s)
       (promises s) s;
     Some s
   }"

text \<open>\<open>mo_graph->checkPromise(write, promise)\<close>, which eliminates threads of the promise.\<close>

definition checkPromise_ex :: "act_ptr \<Rightarrow> promise_ptr \<Rightarrow> execution \<Rightarrow> (bool \<times> execution) option" where
  "checkPromise_ex write p s = do {
     (r, pr) \<leftarrow> checkPromise (mo_graph s) (\<lambda>a. ma_tid (ex_acts s a)) write p (ex_proms s p);
     Some (r, upd_prom p pr s)
   }"

definition mo_check_promise :: "act_ptr \<Rightarrow> act_ptr option \<Rightarrow> promise_ptr \<Rightarrow> execution \<Rightarrow> (bool \<times> execution) option" where
  "mo_check_promise a write p s = do {
     w \<leftarrow> write;
     if \<not> same_location (ex_acts s) (ex_proms s p) (ex_acts s w) then Some (False, s)
     else do {
       (r, s) \<leftarrow> (if \<exists>pread \<in> set (readers (ex_proms s p)). happens_before (ex_acts s pread) (ex_acts s a)
                  then checkPromise_ex w p s else Some (False, s));
       if r then Some (True, s\<lparr>hard_failed_promise := True\<rparr>)
       else if \<not> thread_is_available (ex_proms s p) (ma_tid (ex_acts s a)) then Some (False, s)
       else do {
         reach \<leftarrow> checkReachable (mo_graph s) (PromObj p) (ActObj w);
         if reach
         then do {
           (r, s) \<leftarrow> checkPromise_ex w p s;
           Some (if r then (True, s\<lparr>hard_failed_promise := True\<rparr>) else (False, s))
         } else Some (False, s)
       }
     }
   }"

definition mo_check_promises :: "act_ptr \<Rightarrow> bool \<Rightarrow> execution \<Rightarrow> execution option" where
  "mo_check_promises a is_read_check s = do {
     let write = (if is_read_check then ma_reads_from (ex_acts s a) else Some a);
     (left, s) \<leftarrow> for_until (mo_check_promise a write) (promises s) s;
     Some s
   }"

subsection \<open>Resolving promises\<close>

definition promise_satisfiable :: "execution \<Rightarrow> act_ptr \<Rightarrow> promise_ptr \<Rightarrow> bool option" where
  "promise_satisfiable s cur p = do {
     let pr = ex_proms s p;
     let c = ex_acts s cur;
     if \<not> is_compatible (ex_acts s) pr c then Some False
     else do {
       same \<leftarrow> same_value pr c;
       Some (same \<and> \<not> (\<exists>r \<in> set (readers pr).
         happens_before (ex_acts s r) c \<or> could_synchronize_with (ex_acts s r) c))
     }
   }"

definition compute_promises :: "act_ptr \<Rightarrow> execution \<Rightarrow> execution option" where
  "compute_promises cur s =
     for_each (\<lambda>i s. do {
       satisfy \<leftarrow> promise_satisfiable s cur (promises s ! i);
       if satisfy
       then do { (k, n) \<leftarrow> node_of s cur; Some (put_node k (set_promise i n) s) }
       else Some s
     }) [0..<length (promises s)] s"

definition pop_promise_to_resolve :: "act_ptr \<Rightarrow> execution \<Rightarrow> (promise_ptr option \<times> execution) option" where
  "pop_promise_to_resolve cur s =
     (if promises s = [] then Some (None, s)
      else do {
        (k, n) \<leftarrow> node_of s cur;
        Some (case find (get_promise n) [0..<length (promises s)] of
                Some i \<Rightarrow> (Some (promises s ! i),
                           s\<lparr>promises := take i (promises s) @ drop (Suc i) (promises s)\<rparr>)
              | None \<Rightarrow> (None, s))
      })"

subsection \<open>May a future value be sent?\<close>

fun may_allow_loop :: "execution \<Rightarrow> act_ptr \<Rightarrow> act_ptr \<Rightarrow> promise_ptr list \<Rightarrow> bool option" where
  "may_allow_loop s writer reader [] = Some True"
| "may_allow_loop s writer reader (p # ps) = do {
     pr \<leftarrow> get_reader (ex_proms s p) 0;
     if act_less s pr reader then Some True
     else if act_less s pr writer then Some False
     else may_allow_loop s writer reader ps
   }"

definition promises_may_allow :: "execution \<Rightarrow> act_ptr \<Rightarrow> act_ptr \<Rightarrow> bool option" where
  "promises_may_allow s writer reader = may_allow_loop s writer reader (rev (promises s))"

text \<open>
  The latest write or read-from store of a thread that is ordered after the reader, by the backward
  walk over the thread's actions on the location.
\<close>

fun write_after_read :: "execution \<Rightarrow> act_ptr \<Rightarrow> act_ptr list \<Rightarrow> act_ptr option \<Rightarrow> act_ptr option" where
  "write_after_read s reader [] w = w"
| "write_after_read s reader (a # as) w =
     (if \<not> happens_before (ex_acts s reader) (ex_acts s a) \<or> reader = a then w
      else if is_write (ex_acts s a) then write_after_read s reader as (Some a)
      else if is_read (ex_acts s a) \<and> ma_reads_from (ex_acts s a) \<noteq> None
      then write_after_read s reader as (ma_reads_from (ex_acts s a))
      else write_after_read s reader as w)"

fun mo_allow_loop :: "execution \<Rightarrow> act_ptr \<Rightarrow> act_ptr \<Rightarrow> act_ptr list list \<Rightarrow> bool option" where
  "mo_allow_loop s writer reader [] = Some True"
| "mo_allow_loop s writer reader (l # ls) =
     (case write_after_read s reader (rev l) None of
        None \<Rightarrow> mo_allow_loop s writer reader ls
      | Some w \<Rightarrow>
          if w = writer then mo_allow_loop s writer reader ls
          else do {
            r \<leftarrow> checkReachable (mo_graph s) (ActObj w) (ActObj writer);
            if r then Some False else mo_allow_loop s writer reader ls
          })"

definition mo_may_allow :: "execution \<Rightarrow> act_ptr \<Rightarrow> act_ptr \<Rightarrow> bool option" where
  "mo_may_allow s writer reader = do {
     thrd_lists \<leftarrow> obj_thrd_map s (ma_location (ex_acts s reader));
     mo_allow_loop s writer reader thrd_lists
   }"

text \<open>The walk along the reads-from chain of RMWs; it returns when the chain ends.\<close>

partial_function (option) thin_air_loop :: "execution \<Rightarrow> act_ptr \<Rightarrow> act_ptr option \<Rightarrow> bool option" where
  "thin_air_loop s reader search =
     (if search = None then Some True
      else if the search = reader then Some False
      else if ma_tid (ex_acts s (the search)) = ma_tid (ex_acts s reader) \<and>
              happens_before (ex_acts s (the search)) (ex_acts s reader) then Some True
      else thin_air_loop s reader (ma_reads_from (ex_acts s (the search))))"

declare thin_air_loop.simps [code]

definition thin_air_constraint_may_allow :: "execution \<Rightarrow> act_ptr \<Rightarrow> act_ptr \<Rightarrow> bool option" where
  "thin_air_constraint_may_allow s writer reader =
     (if \<not> is_rmw (ex_acts s writer) then Some True
      else if \<not> is_rmw (ex_acts s reader) then Some True
      else thin_air_loop s reader (ma_reads_from (ex_acts s writer)))"

text \<open>
  The walk up the node stack from the read to the promise's reader: is there a read of the same
  thread on the way?
\<close>

partial_function (option) read_between :: "execution \<Rightarrow> act_ptr \<Rightarrow> model_action \<Rightarrow> act_ptr \<Rightarrow> bool option" where
  "read_between s prreader read tmp =
     (if tmp = prreader then Some False
      else Option.bind (node_of s tmp) (\<lambda>n. Option.bind (parent_of s (fst n)) (\<lambda>par.
        if is_read (ex_acts s (nd_action par)) \<and> same_thread (ex_acts s (nd_action par)) read
        then Some True
        else read_between s prreader read (nd_action par))))"

declare read_between.simps [code]

fun coherence_readers :: "execution \<Rightarrow> act_ptr \<Rightarrow> act_ptr \<Rightarrow> act_ptr list \<Rightarrow> bool option" where
  "coherence_readers s write read [] = Some True"
| "coherence_readers s write read (r # rs) =
     (if ma_tid (ex_acts s r) = ma_tid (ex_acts s write) \<and> act_less s r write
      then if act_less s r read
           then do {
             okay \<leftarrow> read_between s r (ex_acts s read) read;
             if okay then coherence_readers s write read rs else Some False
           } else Some False
      else coherence_readers s write read rs)"

fun coherence_loop :: "execution \<Rightarrow> act_ptr \<Rightarrow> act_ptr \<Rightarrow> promise_ptr list \<Rightarrow> bool option" where
  "coherence_loop s write read [] = Some True"
| "coherence_loop s write read (p # ps) = (let pr = ex_proms s p in
     if \<not> same_location (ex_acts s) pr (ex_acts s write) then coherence_loop s write read ps
     else if num_was_available_threads pr = 1 \<and> thread_was_available pr (ma_tid (ex_acts s read))
     then do {
       ok \<leftarrow> coherence_readers s write read (readers pr);
       if ok then coherence_loop s write read ps else Some False
     } else coherence_loop s write read ps)"

definition check_coherence_promise :: "execution \<Rightarrow> act_ptr \<Rightarrow> act_ptr \<Rightarrow> bool option" where
  "check_coherence_promise s write read = coherence_loop s write read (rev (promises s))"

text \<open>The nearest ancestor of the writing thread that the reader's node knows.\<close>

partial_function (option) ancestor_loop :: "execution \<Rightarrow> nat \<Rightarrow> thread \<Rightarrow> thread option" where
  "ancestor_loop s n t =
     (if th_id t \<ge> n
      then Option.bind (th_parent t) (\<lambda>p. Option.bind (get_thread s p) (ancestor_loop s n))
      else Some t)"

declare ancestor_loop.simps [code]

definition add_future_value_ex :: "act_ptr \<Rightarrow> act_ptr \<Rightarrow> execution \<Rightarrow> execution option" where
  "add_future_value_ex writer reader s = do {
     allow \<leftarrow> mo_may_allow s writer reader;
     if \<not> allow then Some s
     else do {
       (k, n) \<leftarrow> node_of s reader;
       t \<leftarrow> get_thread_of s writer;
       write_thread \<leftarrow> ancestor_loop s (nd_num_threads n) t;
       v \<leftarrow> get_write_value (ex_acts s writer);
       let (added, n) = add_future_value (ex_params s)
             \<lparr>fv_value = v,
              fv_expiration = ma_seq_number (ex_acts s writer) + word_of_int (maxfuturedelay (ex_params s)),
              fv_tid = th_id write_thread\<rparr> n;
       let s = put_node k n s;
       Some (if added then snd (set_latest_backtrack reader s) else s)
     }
   }"

subsection \<open>Threads that block\<close>

text \<open>
  \<open>scheduler->sleep\<close>, \<open>scheduler->wake\<close> and \<open>scheduler->remove_thread\<close> on a thread of the execution,
  with the callback of \<open>set_enabled\<close>.
\<close>

definition sched_sleep_ex :: "thread \<Rightarrow> execution \<Rightarrow> execution option" where
  "sched_sleep_ex t s = do {
     (chk, sc, t) \<leftarrow> sched_sleep t (ex_sched s);
     let s = put_thread t (s\<lparr>ex_sched := sc\<rparr>);
     Some (if chk then check_promises_thread_disabled s else s)
   }"

definition sched_wake_ex :: "thread \<Rightarrow> execution \<Rightarrow> execution option" where
  "sched_wake_ex t s = do {
     (sc, t) \<leftarrow> sched_wake t (ex_sched s);
     Some (put_thread t (s\<lparr>ex_sched := sc\<rparr>))
   }"

definition remove_thread_ex :: "thread_id \<Rightarrow> execution \<Rightarrow> execution" where
  "remove_thread_ex tid s =
     (let (chk, sc) = remove_thread tid (ex_sched s); s = s\<lparr>ex_sched := sc\<rparr>
      in if chk then check_promises_thread_disabled s else s)"

definition check_action_enabled :: "act_ptr \<Rightarrow> execution \<Rightarrow> (bool \<times> execution) option" where
  "check_action_enabled cur s = (let c = ex_acts s cur in
     if is_lock c
     then do { m \<leftarrow> get_mutex c; Some (locked (ex_mutexes s m) = None, s) }
     else if is_thread_join c
     then do {
       b \<leftarrow> get_thread_operand (thread_env_of s) c;
       blocking \<leftarrow> get_thread s b;
       if \<not> is_complete blocking
       then do {
         t \<leftarrow> get_thread_of s cur;
         s \<leftarrow> thread_blocking_check_promises (th_id blocking) (th_id t) s;
         Some (False, s)
       } else Some (True, s)
     }
     else if yieldblock (ex_params s) \<and> is_yield c then Some (False, s)
     else Some (True, s))"

subsection \<open>Lemmas\<close>

lemma eliminate_ex_acts [simp]: "ex_acts (snd (eliminate_ex p t s)) = ex_acts s"
  by (simp add: eliminate_ex_def split_def Let_def)

text \<open>The state changes in the promises and the flag of failed promises only.\<close>

definition only_promises :: "execution \<Rightarrow> execution \<Rightarrow> bool" where
  "only_promises s t \<longleftrightarrow> t = s\<lparr>ex_proms := ex_proms t, failed_promise := failed_promise t\<rparr>"

lemma only_promises_refl: "only_promises s s"
  by (simp add: only_promises_def)

lemma only_promises_trans: "only_promises s t \<Longrightarrow> only_promises t u \<Longrightarrow> only_promises s u"
  unfolding only_promises_def by (cases s; cases t; cases u) simp

lemma only_promises_eliminate: "only_promises s t \<Longrightarrow> only_promises s (snd (eliminate_ex p tid t))"
  unfolding only_promises_def by (cases s; cases t) (simp add: eliminate_ex_def split_def Let_def upd_prom_def)

lemma only_promises_failed: "only_promises s t \<Longrightarrow> only_promises s (t\<lparr>failed_promise := b\<rparr>)"
  unfolding only_promises_def by (cases s; cases t) simp

lemma only_promises_for_until:
  assumes "for_until f xs s = Some (b, s')" "only_promises u s"
    and "\<And>x s b s'. f x s = Some (b, s') \<Longrightarrow> only_promises u s \<Longrightarrow> only_promises u s'"
  shows "only_promises u s'"
  by (rule for_until_inv [where P = "only_promises u", OF assms(1,2)]) (rule assms(3))

lemma check_promises_only:
  assumes "check_promises tid old new s = Some s'"
  shows "only_promises s s'"
proof -
  from assms obtain b where "for_until
       (\<lambda>p s. if \<not> thread_is_available (ex_proms s p) tid then Some (False, s)
              else for_until
                (\<lambda>r s. let act = ex_acts s r in
                   if (case old of None \<Rightarrow> True
                         | Some cv \<Rightarrow> \<not> synchronized_since cv (ma_tid act) (ma_seq_number act)) \<and>
                      synchronized_since new (ma_tid act) (ma_seq_number act)
                   then let (failed, s) = eliminate_ex p tid s
                        in if failed then Some (True, s\<lparr>failed_promise := True\<rparr>) else Some (False, s)
                   else Some (False, s))
                (readers (ex_proms s p)) s)
       (promises s) s = Some (b, s')"
    by (auto simp: check_promises_def bind_eq_Some_conv)
  then show ?thesis
    by (rule only_promises_for_until [OF _ only_promises_refl])
      (auto simp: Let_def split_def only_promises_failed only_promises_eliminate
        elim!: only_promises_for_until split: if_splits)
qed

lemma thread_blocking_only:
  assumes "thread_blocking_check_promises blocker waiting s = Some s'"
  shows "only_promises s s'"
proof -
  from assms obtain b where "for_until
       (\<lambda>p s. if \<not> thread_is_available (ex_proms s p) waiting then Some (False, s)
              else for_until
                (\<lambda>r s. if ma_tid (ex_acts s r) \<noteq> blocker then Some (False, s)
                       else let (failed, s) = eliminate_ex p waiting s
                            in if failed then Some (False, s\<lparr>failed_promise := True\<rparr>) else Some (True, s))
                (readers (ex_proms s p)) s)
       (promises s) s = Some (b, s')"
    by (auto simp: thread_blocking_check_promises_def bind_eq_Some_conv)
  then show ?thesis
    by (rule only_promises_for_until [OF _ only_promises_refl])
      (auto simp: Let_def split_def only_promises_failed only_promises_eliminate
        elim!: only_promises_for_until split: if_splits)
qed

lemma disabled_only: "only_promises s (check_promises_thread_disabled s)"
  by (simp add: check_promises_thread_disabled_def only_promises_refl only_promises_failed)

lemma only_promises_simps:
  assumes "only_promises s t"
  shows "ex_acts t = ex_acts s" "ex_mutexes t = ex_mutexes s" "thread_map t = thread_map s" "promises t = promises s"
    "bugs t = bugs s" "mo_graph t = mo_graph s" "condvar_waiters_map t = condvar_waiters_map s"
  by (subst assms [unfolded only_promises_def], simp)+

lemma check_promises_acts: "check_promises tid old new s = Some s' \<Longrightarrow> ex_acts s' = ex_acts s"
  by (rule only_promises_simps(1) [OF check_promises_only])

subsection \<open>Blocking threads\<close>

lemma thread_blocking_first:
  assumes ps: "promises s = p # ps" and avail: "thread_is_available (ex_proms s p) waiting"
    and rd: "r \<in> set (readers (ex_proms s p))" "ma_tid (ex_acts s r) = blocker"
    and more: "num_available_threads (ex_proms s p) > 1"
  shows "thread_blocking_check_promises blocker waiting s = Some (snd (eliminate_ex p waiting s))"
proof -
  let ?f = "\<lambda>r s. if ma_tid (ex_acts s r) \<noteq> blocker then Some (False, s)
                       else let (failed, s) = eliminate_ex p waiting s
                            in if failed then Some (False, s\<lparr>failed_promise := True\<rparr>) else Some (True, s)"
  have alive: "\<not> fst (eliminate_ex p waiting s)"
    using avail more by (auto simp: eliminate_ex_def eliminate_thread_def has_failed_def Let_def split_def)
  have "for_until ?f rs s = Some (True, snd (eliminate_ex p waiting s))" if "r \<in> set rs" for rs
    using that
  proof (induction rs)
    case Nil
    then show ?case by simp
  next
    case (Cons x xs)
    then show ?case using rd(2) alive by (auto simp: split_def Let_def)
  qed
  from this [OF rd(1)] ps avail show ?thesis by (simp add: thread_blocking_check_promises_def)
qed

text \<open>
  a thread that blocks is eliminated from the first promise of the blocking thread only: when that
  promise stays alive the function returns, so every later promise keeps the blocked thread as one
  that may still fulfil it, whoever reads from it.
\<close>

theorem blocking_eliminates_first_only:
  assumes "promises s = p # ps" and "p \<notin> set ps" and "thread_is_available (ex_proms s p) waiting"
    and "r \<in> set (readers (ex_proms s p))" and "ma_tid (ex_acts s r) = blocker"
    and "num_available_threads (ex_proms s p) > 1"
  shows "\<exists>s'. thread_blocking_check_promises blocker waiting s = Some s' \<and>
    \<not> thread_is_available (ex_proms s' p) waiting \<and> (\<forall>q \<in> set ps. ex_proms s' q = ex_proms s q)"
proof -
  have "\<not> thread_is_available (ex_proms (snd (eliminate_ex p waiting s)) p) waiting"
    using assms(3) by (auto simp: eliminate_ex_def eliminate_thread_def upd_prom_def thread_is_available_def
      Let_def split_def)
  moreover have "\<forall>q \<in> set ps. ex_proms (snd (eliminate_ex p waiting s)) q = ex_proms s q"
    using assms(2) by (auto simp: eliminate_ex_def upd_prom_def Let_def split_def)
  ultimately show ?thesis using thread_blocking_first [OF assms(1,3-6)] by blast
qed

text \<open>Two promises that thread 2 reads from and the threads 0 and 1 may fulfil.\<close>

definition sample_promised :: execution where
  "sample_promised = sample_execution\<lparr>promises := [0, 1], ex_proms := (\<lambda>_. add_thread 1
     (new_promise 1 2 \<lparr>fv_value = 5, fv_expiration = 9, fv_tid = 0\<rparr>))\<rparr>"

theorem blocking_eliminates_first_only_witness:
  "\<exists>s'. thread_blocking_check_promises 2 1 sample_promised = Some s' \<and>
     \<not> thread_is_available (ex_proms s' 0) 1 \<and> thread_is_available (ex_proms s' 1) 1"
proof -
  have h: "promises sample_promised = 0 # [1]" "thread_is_available (ex_proms sample_promised 0) 1"
    "1 \<in> set (readers (ex_proms sample_promised 0))" "ma_tid (ex_acts sample_promised 1) = 2"
    "num_available_threads (ex_proms sample_promised 0) > 1" by code_simp+
  have "thread_is_available (ex_proms sample_promised 1) 1" by code_simp
  with blocking_eliminates_first_only [OF h(1) _ h(2-5)] show ?thesis by auto
qed

end
