(* ===== verification/Execution_Order.thy ===== *)
theory Execution_Order
  imports Execution_Promises
begin

text \<open>
  The constraints reads and writes put on the modification order (\<open>execution.cc\<close>): the edges added
  for the current read or write, the memory-liveness test on reads, and the initial set of stores
  and promises a new read may read from. The store or promise a read takes its value from (the
  template parameter of the code) is a \<open>mo_obj\<close>.
\<close>

subsection \<open>Adding an edge\<close>

text \<open>\<open>added = mo_graph->addEdge(from, to) || added\<close>.\<close>

definition add_edge_ex :: "mo_obj \<Rightarrow> mo_obj \<Rightarrow> bool \<times> execution \<Rightarrow> (bool \<times> execution) option" where
  "add_edge_ex from to st = do {
     (r, g) \<leftarrow> addEdge from to (mo_graph (snd st));
     Some (r \<or> fst st, (snd st)\<lparr>mo_graph := g\<rparr>)
   }"

definition before_fence :: "execution \<Rightarrow> act_ptr \<Rightarrow> act_ptr option \<Rightarrow> bool" where
  "before_fence s a fence = (case fence of None \<Rightarrow> False | Some f \<Rightarrow> act_less s a f)"

text \<open>
  \<open>All compatible, thread-exclusive promises\<close> come after the given store.
\<close>

definition order_before_exclusive :: "act_ptr \<Rightarrow> mo_obj \<Rightarrow> bool \<times> execution \<Rightarrow> (bool \<times> execution) option" where
  "order_before_exclusive cur rf st =
     for_each (\<lambda>p st. if is_compatible_exclusive (ex_acts (snd st)) (ex_proms (snd st) p) (ex_acts (snd st) cur)
                      then add_edge_ex rf (PromObj p) st else Some st)
       (promises (snd st)) st"

subsection \<open>Reads\<close>

text \<open>
  One action of a thread, visited backwards. The fences are the last seq-cst fence of the current
  thread, of the visited thread, and of the visited thread before the one of the current thread. The
  flag says to leave the thread.
\<close>

definition r_visit ::
  "act_ptr \<Rightarrow> mo_obj \<Rightarrow> act_ptr option \<Rightarrow> act_ptr option \<Rightarrow> act_ptr option \<Rightarrow> act_ptr \<Rightarrow>
   bool \<times> execution \<Rightarrow> (bool \<times> bool \<times> execution) option" where
  "r_visit cur rf fence_local fence_thread fence_before a st = (
     let s = snd st; c = ex_acts s cur; act = ex_acts s a
     in if a = cur then Some (False, st)
        else if ActObj a = rf then Some (happens_before act c, st)
        else if is_write act \<and>
               ((is_seqcst c \<and> before_fence s a fence_thread) \<or>
                (is_seqcst act \<and> before_fence s a fence_local) \<or>
                before_fence s a fence_before)
        then do { st \<leftarrow> add_edge_ex (ActObj a) rf st; Some (True, st) }
        else if happens_before act c
        then if is_write act then do { st \<leftarrow> add_edge_ex (ActObj a) rf st; Some (True, st) }
             else (case ma_reads_from act of
                 Some prevrf \<Rightarrow>
                   if ActObj prevrf \<noteq> rf
                   then do { st \<leftarrow> add_edge_ex (ActObj prevrf) rf st; Some (True, st) }
                   else Some (True, st)
               | None \<Rightarrow> do {
                   prevrf_promise \<leftarrow> ma_reads_from_promise act;
                   if PromObj prevrf_promise \<noteq> rf
                   then do { st \<leftarrow> add_edge_ex (PromObj prevrf_promise) rf st; Some (True, st) }
                   else Some (True, st)
                 })
        else Some (False, st))"

definition r_thread ::
  "act_ptr \<Rightarrow> mo_obj \<Rightarrow> act_ptr option \<Rightarrow> nat \<times> act_ptr list \<Rightarrow> bool \<times> execution \<Rightarrow> (bool \<times> execution) option" where
  "r_thread cur rf fence_local il st = (
     let (i, l) = il; s = snd st
     in do {
       fence_thread \<leftarrow> (if i \<noteq> ma_tid (ex_acts s cur) then get_last_seq_cst_fence s i None else Some None);
       fence_before \<leftarrow> (if fence_local \<noteq> None then get_last_seq_cst_fence s i fence_local else Some None);
       (left, st) \<leftarrow> for_until (r_visit cur rf fence_local fence_thread fence_before) (rev l) st;
       Some st
     })"

definition r_modification_order :: "act_ptr \<Rightarrow> mo_obj \<Rightarrow> execution \<Rightarrow> (bool \<times> execution) option" where
  "r_modification_order cur rf s = do {
     thrd_lists \<leftarrow> obj_thrd_map s (ma_location (ex_acts s cur));
     ASSERT (is_read (ex_acts s cur));
     fence_local \<leftarrow> get_last_seq_cst_fence s (ma_tid (ex_acts s cur)) None;
     _ \<leftarrow> (if is_seqcst (ex_acts s cur) then get_last_seq_cst_write s cur else Some None);
     st \<leftarrow> for_each (r_thread cur rf fence_local) (enumerate 0 thrd_lists) (False, s);
     order_before_exclusive cur rf st
   }"

subsection \<open>Writes\<close>

text \<open>
  \<open>send_fv\<close> is a vector the function extends, or null; the state of the loops is the flag \<open>added\<close>,
  the vector and the execution.
\<close>

type_synonym w_state = "act_ptr list option \<times> bool \<times> execution"

definition w_edge :: "mo_obj \<Rightarrow> mo_obj \<Rightarrow> w_state \<Rightarrow> (bool \<times> w_state) option" where
  "w_edge from to st = do { st' \<leftarrow> add_edge_ex from to (snd st); Some (True, fst st, st') }"

definition w_future ::
  "act_ptr \<Rightarrow> act_ptr \<Rightarrow> w_state \<Rightarrow> (bool \<times> w_state) option" where
  "w_future cur a st = (
     let (send_fv, added, s) = st; c = ex_acts s cur; act = ex_acts s a
     in case send_fv of
          None \<Rightarrow> Some (False, st)
        | Some fvs \<Rightarrow> do {
            thin \<leftarrow> thin_air_constraint_may_allow s cur a;
            coherent \<leftarrow> (if thin then check_coherence_promise s cur a else Some False);
            if coherent
            then if \<not> is_infeasible s then Some (False, Some (fvs @ [a]), added, s)
                 else if is_rmw c \<and> is_rmw act \<and> ma_reads_from c \<noteq> None \<and>
                         ma_reads_from c = ma_reads_from act
                 then do { s \<leftarrow> add_future_value_ex cur a s; Some (False, send_fv, added, s) }
                 else Some (False, st)
            else Some (False, st)
          })"

definition w_visit :: "act_ptr \<Rightarrow> act_ptr option \<Rightarrow> act_ptr \<Rightarrow> w_state \<Rightarrow> (bool \<times> w_state) option" where
  "w_visit cur fence_before a st = (
     let s = snd (snd st); c = ex_acts s cur; act = ex_acts s a
     in if a = cur then Some (is_rmw c \<and> ma_reads_from c \<noteq> None, st)
        else if is_write act \<and> before_fence s a fence_before then w_edge (ActObj a) (ActObj cur) st
        else if happens_before act c
        then if is_write act then w_edge (ActObj a) (ActObj cur) st
             else if is_read act
             then (case ma_reads_from act of
                 None \<Rightarrow> do { p \<leftarrow> ma_reads_from_promise act; w_edge (PromObj p) (ActObj cur) st }
               | Some w \<Rightarrow> w_edge (ActObj w) (ActObj cur) st)
             else Some (True, st)
        else if is_read act \<and> \<not> could_synchronize_with act c \<and> \<not> same_thread act c
        then w_future cur a st
        else Some (False, st))"

definition w_thread ::
  "act_ptr \<Rightarrow> act_ptr option \<Rightarrow> nat \<times> act_ptr list \<Rightarrow> w_state \<Rightarrow> w_state option" where
  "w_thread cur fence_local il st = (
     let (i, l) = il; s = snd (snd st)
     in do {
       fence_before \<leftarrow> (if fence_local \<noteq> None \<and> i \<noteq> ma_tid (ex_acts s cur)
                        then get_last_seq_cst_fence s i fence_local else Some None);
       (left, st) \<leftarrow> for_until (w_visit cur fence_before) (rev l) st;
       Some st
     })"

definition w_modification_order :: "act_ptr \<Rightarrow> act_ptr list option \<Rightarrow> execution \<Rightarrow> w_state option" where
  "w_modification_order cur send_fv s = do {
     thrd_lists \<leftarrow> obj_thrd_map s (ma_location (ex_acts s cur));
     ASSERT (is_write (ex_acts s cur));
     last_seq_cst \<leftarrow> (if is_seqcst (ex_acts s cur) then get_last_seq_cst_write s cur else Some None);
     st \<leftarrow> (case last_seq_cst of
              Some w \<Rightarrow> add_edge_ex (ActObj w) (ActObj cur) (False, s)
            | None \<Rightarrow> Some (False, s));
     fence_local \<leftarrow> get_last_seq_cst_fence (snd st) (ma_tid (ex_acts s cur)) None;
     (fvs, st) \<leftarrow> for_each (w_thread cur fence_local) (enumerate 0 thrd_lists) (send_fv, st);
     st \<leftarrow> order_before_exclusive cur (ActObj cur) st;
     Some (fvs, st)
   }"

subsection \<open>Memory liveness\<close>

text \<open>\<open>may_read_from\<close> of an action, for a store and for a promise.\<close>

definition may_read_from :: "execution \<Rightarrow> act_ptr \<Rightarrow> mo_obj \<Rightarrow> bool option" where
  "may_read_from s a x = do {
     (k, n) \<leftarrow> node_of s a;
     Some (case x of
             ActObj w \<Rightarrow> w \<in> set (read_from_past n)
           | PromObj p \<Rightarrow> Some p \<in> set (map (\<lambda>r. ma_reads_from_promise (ex_acts s r)) (read_from_promises n)))
   }"

fun reads_allow :: "execution \<Rightarrow> mo_obj \<Rightarrow> nat \<Rightarrow> act_ptr list \<Rightarrow> bool option" where
  "reads_allow s x 0 rit = Some True"
| "reads_allow s x (Suc k) [] = None"
| "reads_allow s x (Suc k) (a # rit) = do {
     m \<leftarrow> may_read_from s a x;
     if m then reads_allow s x k rit else Some False
   }"

definition reads_of_thread :: "execution \<Rightarrow> act_ptr \<Rightarrow> act_ptr list option" where
  "reads_of_thread s cur = do {
     thrd_lists \<leftarrow> obj_thrd_map s (ma_location (ex_acts s cur));
     ASSERT (ma_tid (ex_acts s cur) < length thrd_lists);
     let rit = rev (thrd_lists ! ma_tid (ex_acts s cur));
     ASSERT (rit \<noteq> [] \<and> hd rit = cur);
     Some (tl rit)
   }"

definition should_read_instead :: "execution \<Rightarrow> act_ptr \<Rightarrow> mo_obj \<Rightarrow> mo_obj \<Rightarrow> bool option" where
  "should_read_instead s cur rf other_rf =
     (if other_rf = rf then Some False
      else do {
        r \<leftarrow> checkReachable (mo_graph s) rf other_rf;
        if \<not> r then Some False
        else do {
          rit \<leftarrow> reads_of_thread s cur;
          reads_allow s other_rf (nat (maxreads (ex_params s))) rit
        }
      })"

text \<open>The first loop of \<open>check_recency\<close>: have the last reads all read from \<open>rf\<close>, with a choice?\<close>

fun same_reads :: "execution \<Rightarrow> mo_obj \<Rightarrow> nat \<Rightarrow> act_ptr list \<Rightarrow> bool option" where
  "same_reads s rf 0 rit = Some True"
| "same_reads s rf (Suc k) [] = Some False"
| "same_reads s rf (Suc k) (a # rit) = (let act = ex_acts s a in
     if \<not> is_read act then Some False
     else if (case ma_reads_from_promise act of Some p \<Rightarrow> PromObj p \<noteq> rf | None \<Rightarrow> False) then Some False
     else if (case ma_reads_from act of Some w \<Rightarrow> ActObj w \<noteq> rf | None \<Rightarrow> False) then Some False
     else do {
       (j, n) \<leftarrow> node_of s a;
       if length (read_from_past n) + length (read_from_promises n) \<le> 1 then Some False
       else same_reads s rf k rit
     })"

fun none_instead :: "execution \<Rightarrow> act_ptr \<Rightarrow> mo_obj \<Rightarrow> mo_obj option list \<Rightarrow> bool option" where
  "none_instead s cur rf [] = Some True"
| "none_instead s cur rf (x # xs) = do {
     other \<leftarrow> x;
     b \<leftarrow> should_read_instead s cur rf other;
     if b then Some False else none_instead s cur rf xs
   }"

definition check_recency :: "execution \<Rightarrow> act_ptr \<Rightarrow> mo_obj \<Rightarrow> bool option" where
  "check_recency s cur rf =
     (if maxreads (ex_params s) = 0 then Some True
      else do {
        (k, n) \<leftarrow> node_of s cur;
        if length (read_from_past n) + length (read_from_promises n) \<le> 1 then Some True
        else do {
          rit \<leftarrow> reads_of_thread s cur;
          enough \<leftarrow> same_reads s rf (nat (maxreads (ex_params s))) rit;
          if \<not> enough then Some True
          else none_instead s cur rf
            (map (\<lambda>w. Some (ActObj w)) (read_from_past n) @
             map (\<lambda>r. map_option PromObj (ma_reads_from_promise (ex_acts s r))) (read_from_promises n))
        }
      })"

subsection \<open>The initial set of stores to read from\<close>

partial_function (option) sleep_can_read_from :: "execution \<Rightarrow> act_ptr \<Rightarrow> act_ptr option \<Rightarrow> bool option" where
  "sleep_can_read_from s cur write =
     (if write = None then Some True
      else if is_uninitialized (ex_acts s (the write)) then Some True
      else Option.bind (node_of s (the write)) (\<lambda>n. Option.bind (parent_of s (fst n)) (\<lambda>prevnode.
        Option.bind (enabled_status prevnode (ma_tid (ex_acts s cur))) (\<lambda>e.
          if is_release (ex_acts s (the write)) \<and> e = THREAD_SLEEP_SET then Some True
          else if \<not> is_rmw (ex_acts s (the write)) then Some False
          else sleep_can_read_from s cur (ma_reads_from (ex_acts s (the write)))))))"

declare sleep_can_read_from.simps [code]

text \<open>
  One candidate store: a trial of the constraints in a transaction of the graph, rolled back in any
  case; the node learns the store when the trial leaves the execution feasible.
\<close>

definition try_read :: "act_ptr \<Rightarrow> mo_obj \<Rightarrow> (node \<Rightarrow> node) \<Rightarrow> execution \<Rightarrow> execution option" where
  "try_read cur rf add s = do {
     g \<leftarrow> startChanges (mo_graph s);
     (_, s) \<leftarrow> r_modification_order cur rf (s\<lparr>mo_graph := g\<rparr>);
     s \<leftarrow> (if \<not> is_infeasible s
            then do { (k, n) \<leftarrow> node_of s cur; Some (put_node k (add n) s) }
            else Some s);
     Some (s\<lparr>mo_graph := rollbackChanges (mo_graph s)\<rparr>)
   }"

definition candidate_visit :: "act_ptr \<Rightarrow> act_ptr option \<Rightarrow> act_ptr \<Rightarrow> execution \<Rightarrow> (bool \<times> execution) option" where
  "candidate_visit cur last_sc_write a s = (
     let c = ex_acts s cur; act = ex_acts s a
     in if \<not> is_write act \<or> a = cur then Some (False, s)
        else do {
          allow_read \<leftarrow>
            (if is_seqcst c \<and>
                (is_seqcst act \<or> (case last_sc_write of Some w \<Rightarrow> happens_before act (ex_acts s w) | None \<Rightarrow> False)) \<and>
                Some a \<noteq> last_sc_write then Some False
             else if ma_sleep_flag c \<and> \<not> is_seqcst c then sleep_can_read_from s cur (Some a)
             else Some True);
          s \<leftarrow> (if allow_read then try_read cur (ActObj a) (add_read_from_past a) s else Some s);
          Some (happens_before act c, s)
        })"

definition build_may_read_from :: "act_ptr \<Rightarrow> execution \<Rightarrow> execution option" where
  "build_may_read_from cur s = do {
     thrd_lists \<leftarrow> obj_thrd_map s (ma_location (ex_acts s cur));
     ASSERT (is_read (ex_acts s cur));
     last_sc_write \<leftarrow> (if is_seqcst (ex_acts s cur) then get_last_seq_cst_write s cur else Some None);
     s \<leftarrow> for_each (\<lambda>l s. do { (left, s) \<leftarrow> for_until (candidate_visit cur last_sc_write) (rev l) s; Some s })
            thrd_lists s;
     s \<leftarrow> for_each (\<lambda>p s. do {
              promise_read \<leftarrow> get_reader (ex_proms s p) 0;
              if same_var (ex_acts s promise_read) (ex_acts s cur)
              then try_read cur (PromObj p) (add_read_from_promise promise_read) s
              else Some s
            }) (promises s) s;
     (k, n) \<leftarrow> node_of s cur;
     Some (if read_from_size n = 0 then set_assert (s\<lparr>no_valid_reads := True\<rparr>) else s)
   }"

subsection \<open>The constraints of a read, declaratively\<close>

definition r_leaves ::
  "execution \<Rightarrow> act_ptr \<Rightarrow> mo_obj \<Rightarrow> act_ptr option \<Rightarrow> act_ptr option \<Rightarrow> act_ptr option \<Rightarrow> act_ptr \<Rightarrow> bool" where
  "r_leaves s cur rf fence_local fence_thread fence_before a \<longleftrightarrow> a \<noteq> cur \<and>
     (happens_before (ex_acts s a) (ex_acts s cur) \<or>
      ActObj a \<noteq> rf \<and> is_write (ex_acts s a) \<and>
      ((is_seqcst (ex_acts s cur) \<and> before_fence s a fence_thread) \<or>
       (is_seqcst (ex_acts s a) \<and> before_fence s a fence_local) \<or> before_fence s a fence_before))"

definition store_seen :: "execution \<Rightarrow> act_ptr \<Rightarrow> mo_obj option" where
  "store_seen s a =
     (if is_write (ex_acts s a) then Some (ActObj a)
      else case ma_reads_from (ex_acts s a) of
             Some w \<Rightarrow> Some (ActObj w)
           | None \<Rightarrow> map_option PromObj (ma_reads_from_promise (ex_acts s a)))"

definition read_edge :: "execution \<Rightarrow> mo_obj \<Rightarrow> act_ptr \<Rightarrow> (mo_obj \<times> mo_obj) list" where
  "read_edge s rf a =
     (if ActObj a = rf then []
      else case store_seen s a of Some x \<Rightarrow> if x = rf then [] else [(x, rf)] | None \<Rightarrow> [])"

definition thread_edge ::
  "execution \<Rightarrow> act_ptr \<Rightarrow> mo_obj \<Rightarrow> nat \<times> act_ptr list \<Rightarrow> (mo_obj \<times> mo_obj) list" where
  "thread_edge s cur rf il = (
     let i = fst il; t = ma_tid (ex_acts s cur);
         fence_local = the (get_last_seq_cst_fence s t None);
         fence_thread = (if i \<noteq> t then the (get_last_seq_cst_fence s i None) else None);
         fence_before = (if fence_local \<noteq> None then the (get_last_seq_cst_fence s i fence_local) else None)
     in case find (r_leaves s cur rf fence_local fence_thread fence_before) (rev (snd il)) of
          None \<Rightarrow> [] | Some a \<Rightarrow> read_edge s rf a)"

definition exclusive_edges :: "execution \<Rightarrow> act_ptr \<Rightarrow> mo_obj \<Rightarrow> (mo_obj \<times> mo_obj) list" where
  "exclusive_edges s cur rf = map (\<lambda>p. (rf, PromObj p))
     (filter (\<lambda>p. is_compatible_exclusive (ex_acts s) (ex_proms s p) (ex_acts s cur)) (promises s))"

definition r_constraints :: "execution \<Rightarrow> act_ptr \<Rightarrow> mo_obj \<Rightarrow> (mo_obj \<times> mo_obj) list" where
  "r_constraints s cur rf =
     concat (map (thread_edge s cur rf) (enumerate 0 (the (obj_thrd_map s (ma_location (ex_acts s cur))))))
     @ exclusive_edges s cur rf"

lemma add_edge_ex_Some:
  assumes "add_edge_ex x y (b, s\<lparr>mo_graph := g\<rparr>) = Some st"
  shows "\<exists>b' g'. st = (b', s\<lparr>mo_graph := g'\<rparr>) \<and> addEdges [(x, y)] g = Some g'"
  using assms by (auto simp: add_edge_ex_def bind_eq_Some_conv split_def)

lemma before_fence_graph [simp]: "before_fence (s\<lparr>mo_graph := g\<rparr>) a f = before_fence s a f"
  by (simp add: before_fence_def act_less_def split: option.splits)

lemma r_visit_Some:
  assumes "r_visit cur rf fl ft fb a (b, s\<lparr>mo_graph := g\<rparr>) = Some (lv, st)"
  shows "\<exists>b' g'. st = (b', s\<lparr>mo_graph := g'\<rparr>) \<and> lv = r_leaves s cur rf fl ft fb a \<and>
    addEdges (if r_leaves s cur rf fl ft fb a then read_edge s rf a else []) g = Some g'"
proof (cases "a = cur \<or> ActObj a = rf")
  case True
  with assms show ?thesis
    by (auto simp: r_visit_def r_leaves_def read_edge_def Let_def split: if_splits)
next
  case False
  show ?thesis
  proof (cases "r_leaves s cur rf fl ft fb a")
    case True
    have "\<exists>x. store_seen s a = Some x \<and> (lv, st) = (True, st) \<and>
       (if x = rf then st = (b, s\<lparr>mo_graph := g\<rparr>) else add_edge_ex x rf (b, s\<lparr>mo_graph := g\<rparr>) = Some st)"
      using assms False True unfolding r_visit_def Let_def r_leaves_def store_seen_def
      by (auto simp: bind_eq_Some_conv split: if_splits option.splits)
    then obtain x where x: "store_seen s a = Some x" "lv" and
      st: "if x = rf then st = (b, s\<lparr>mo_graph := g\<rparr>) else add_edge_ex x rf (b, s\<lparr>mo_graph := g\<rparr>) = Some st"
      by auto
    show ?thesis
    proof (cases "x = rf")
      case True
      with x st \<open>r_leaves s cur rf fl ft fb a\<close> show ?thesis by (auto simp: read_edge_def)
    next
      case ne: False
      with st have "add_edge_ex x rf (b, s\<lparr>mo_graph := g\<rparr>) = Some st" by simp
      from add_edge_ex_Some [OF this] x ne False True show ?thesis by (auto simp: read_edge_def)
    qed
  next
    case nl: False
    with assms False have "lv = False" "st = (b, s\<lparr>mo_graph := g\<rparr>)"
      unfolding r_visit_def Let_def r_leaves_def by (auto split: if_splits)
    with nl show ?thesis by auto
  qed
qed

lemma r_visits_Some:
  assumes "for_until (r_visit cur rf fl ft fb) xs (b, s\<lparr>mo_graph := g\<rparr>) = Some (lv, st)"
  shows "\<exists>b' g'. st = (b', s\<lparr>mo_graph := g'\<rparr>) \<and>
    addEdges (case find (r_leaves s cur rf fl ft fb) xs of None \<Rightarrow> [] | Some a \<Rightarrow> read_edge s rf a) g = Some g'"
  using assms
proof (induction xs arbitrary: b g)
  case Nil
  then show ?case by auto
next
  case (Cons a xs)
  from Cons.prems obtain l1 st1 where v: "r_visit cur rf fl ft fb a (b, s\<lparr>mo_graph := g\<rparr>) = Some (l1, st1)"
    and rest: "(if l1 then Some (True, st1) else for_until (r_visit cur rf fl ft fb) xs st1) = Some (lv, st)"
    by (auto simp: bind_eq_Some_conv)
  from r_visit_Some [OF v] obtain b1 g1 where st1: "st1 = (b1, s\<lparr>mo_graph := g1\<rparr>)"
    and l1: "l1 = r_leaves s cur rf fl ft fb a"
    and g1: "addEdges (if r_leaves s cur rf fl ft fb a then read_edge s rf a else []) g = Some g1" by blast
  show ?case
  proof (cases l1)
    case True
    with rest l1 g1 st1 show ?thesis by auto
  next
    case False
    with g1 l1 have "g1 = g" by simp
    with rest False st1 have "for_until (r_visit cur rf fl ft fb) xs (b1, s\<lparr>mo_graph := g\<rparr>) = Some (lv, st)" by simp
    from Cons.IH [OF this] False l1 show ?thesis by simp
  qed
qed

lemma r_thread_Some:
  assumes "r_thread cur rf (the (get_last_seq_cst_fence s (ma_tid (ex_acts s cur)) None)) il (b, s\<lparr>mo_graph := g\<rparr>) = Some st"
  shows "\<exists>b' g'. st = (b', s\<lparr>mo_graph := g'\<rparr>) \<and> addEdges (thread_edge s cur rf il) g = Some g'"
proof -
  obtain i l where il: "il = (i, l)" by (cases il)
  let ?fl = "the (get_last_seq_cst_fence s (ma_tid (ex_acts s cur)) None)"
  from assms obtain ft fb lv where ft: "(if i \<noteq> ma_tid (ex_acts s cur) then get_last_seq_cst_fence s i None else Some None) = Some ft"
    and fb: "(if ?fl \<noteq> None then get_last_seq_cst_fence s i ?fl else Some None) = Some fb"
    and v: "for_until (r_visit cur rf ?fl ft fb) (rev l) (b, s\<lparr>mo_graph := g\<rparr>) = Some (lv, st)"
    unfolding r_thread_def il Let_def prod.case snd_conv seq_cst_fence_mo_graph execution.simps by (auto simp: bind_eq_Some_conv)
  from ft fb have "ft = (if i \<noteq> ma_tid (ex_acts s cur) then the (get_last_seq_cst_fence s i None) else None)"
     "fb = (if ?fl \<noteq> None then the (get_last_seq_cst_fence s i ?fl) else None)"
    by (auto split: if_splits)
  with r_visits_Some [OF v] show ?thesis by (simp add: thread_edge_def il Let_def)
qed

lemma r_threads_Some:
  assumes "for_each (r_thread cur rf (the (get_last_seq_cst_fence s (ma_tid (ex_acts s cur)) None))) ils (b, s\<lparr>mo_graph := g\<rparr>) = Some st"
  shows "\<exists>b' g'. st = (b', s\<lparr>mo_graph := g'\<rparr>) \<and> addEdges (concat (map (thread_edge s cur rf) ils)) g = Some g'"
  using assms
proof (induction ils arbitrary: b g)
  case Nil
  then show ?case by auto
next
  case (Cons il ils)
  from Cons.prems obtain st1 where "r_thread cur rf (the (get_last_seq_cst_fence s (ma_tid (ex_acts s cur)) None)) il (b, s\<lparr>mo_graph := g\<rparr>) = Some st1"
    and rest: "for_each (r_thread cur rf (the (get_last_seq_cst_fence s (ma_tid (ex_acts s cur)) None))) ils st1 = Some st"
    by (auto simp: bind_eq_Some_conv)
  from r_thread_Some [OF this(1)] obtain b1 g1 where "st1 = (b1, s\<lparr>mo_graph := g1\<rparr>)" "addEdges (thread_edge s cur rf il) g = Some g1"
    by blast
  with Cons.IH [of b1 g1] rest show ?case by (auto simp: addEdges_append)
qed

lemma order_before_exclusive_Some:
  assumes "for_each (\<lambda>p st. if is_compatible_exclusive (ex_acts (snd st)) (ex_proms (snd st) p) (ex_acts (snd st) cur)
                      then add_edge_ex rf (PromObj p) st else Some st) ps (b, s\<lparr>mo_graph := g\<rparr>) = Some st"
  shows "\<exists>b' g'. st = (b', s\<lparr>mo_graph := g'\<rparr>) \<and> addEdges (map (\<lambda>p. (rf, PromObj p))
     (filter (\<lambda>p. is_compatible_exclusive (ex_acts s) (ex_proms s p) (ex_acts s cur)) ps)) g = Some g'"
  using assms
proof (induction ps arbitrary: b g)
  case Nil
  then show ?case by auto
next
  case (Cons p ps)
  show ?case
  proof (cases "is_compatible_exclusive (ex_acts s) (ex_proms s p) (ex_acts s cur)")
    case False
    with Cons show ?thesis by simp
  next
    case True
    with Cons.prems obtain st1 where a: "add_edge_ex rf (PromObj p) (b, s\<lparr>mo_graph := g\<rparr>) = Some st1"
      and rest: "for_each (\<lambda>p st. if is_compatible_exclusive (ex_acts (snd st)) (ex_proms (snd st) p) (ex_acts (snd st) cur)
                      then add_edge_ex rf (PromObj p) st else Some st) ps st1 = Some st"
      by (auto simp: bind_eq_Some_conv)
    from add_edge_ex_Some [OF a] obtain b1 g1 where g1: "st1 = (b1, s\<lparr>mo_graph := g1\<rparr>)" "addEdges [(rf, PromObj p)] g = Some g1" by blast
    from rest g1(1) have "for_each (\<lambda>p st. if is_compatible_exclusive (ex_acts (snd st)) (ex_proms (snd st) p) (ex_acts (snd st) cur)
                      then add_edge_ex rf (PromObj p) st else Some st) ps (b1, s\<lparr>mo_graph := g1\<rparr>) = Some st" by simp
    from Cons.IH [OF this] obtain b' g' where g': "st = (b', s\<lparr>mo_graph := g'\<rparr>)" "addEdges (map (\<lambda>p. (rf, PromObj p))
     (filter (\<lambda>p. is_compatible_exclusive (ex_acts s) (ex_proms s p) (ex_acts s cur)) ps)) g1 = Some g'" by blast
    have "addEdges ([(rf, PromObj p)] @ map (\<lambda>p. (rf, PromObj p))
     (filter (\<lambda>p. is_compatible_exclusive (ex_acts s) (ex_proms s p) (ex_acts s cur)) ps)) g = Some g'"
      unfolding addEdges_append g1(2) using g'(2) by simp
    with g'(1) True show ?thesis by auto
  qed
qed

lemma r_modification_order_Some:
  assumes "r_modification_order cur rf s = Some (b, s')"
  shows "\<exists>g'. s' = s\<lparr>mo_graph := g'\<rparr> \<and> addEdges (r_constraints s cur rf) (mo_graph s) = Some g'"
proof -
  from assms obtain tl fl st where tl: "obj_thrd_map s (ma_location (ex_acts s cur)) = Some tl"
    and fl: "get_last_seq_cst_fence s (ma_tid (ex_acts s cur)) None = Some fl"
    and loop: "for_each (r_thread cur rf fl) (enumerate 0 tl) (False, s) = Some st"
    and ex: "order_before_exclusive cur rf st = Some (b, s')"
    unfolding r_modification_order_def by (auto simp: bind_eq_Some_conv)
  have "for_each (r_thread cur rf (the (get_last_seq_cst_fence s (ma_tid (ex_acts s cur)) None))) (enumerate 0 tl)
     (False, s\<lparr>mo_graph := mo_graph s\<rparr>) = Some st"
    using loop fl by simp
  from r_threads_Some [OF this] obtain b1 g1 where st: "st = (b1, s\<lparr>mo_graph := g1\<rparr>)"
    and g1: "addEdges (concat (map (thread_edge s cur rf) (enumerate 0 tl))) (mo_graph s) = Some g1" by blast
  from ex have "\<exists>b' g'. (b, s') = (b', s\<lparr>mo_graph := g'\<rparr>) \<and> addEdges (exclusive_edges s cur rf) g1 = Some g'"
    unfolding exclusive_edges_def
    by (intro order_before_exclusive_Some) (simp add: order_before_exclusive_def st)
  with g1 tl show ?thesis by (auto simp: r_constraints_def addEdges_append)
qed


subsection \<open>Candidates to read from\<close>

lemma try_read_Some:
  assumes run: "try_read cur rf f s = Some s'" and ok: "graph_ok (mo_graph s)"
  shows "\<exists>g1. addEdges (r_constraints s cur rf) (mo_graph s) = Some g1 \<and>
     set (r_constraints s cur rf) \<union> mo_order (mo_graph s) \<subseteq> mo_order g1 \<and>
     (if acyclic (mo_order g1) \<and> \<not> is_infeasible (s\<lparr>mo_graph := g1\<lparr>hasCycles := False\<rparr>\<rparr>)
      then \<exists>k n. node_of s cur = Some (k, n) \<and> s' = (put_node k (f n) s)\<lparr>mo_graph := mo_graph s'\<rparr>
      else s' = s\<lparr>mo_graph := mo_graph s'\<rparr>) \<and>
     edges (mo_graph s') = edges (mo_graph s) \<and> hasCycles (mo_graph s') = hasCycles (mo_graph s)"
proof -
  from run obtain g b s1 s2 where g: "startChanges (mo_graph s) = Some g"
    and r: "r_modification_order cur rf (s\<lparr>mo_graph := g\<rparr>) = Some (b, s1)"
    and add: "(if \<not> is_infeasible s1 then do { (k, n) \<leftarrow> node_of s1 cur; Some (put_node k (f n) s1) } else Some s1) = Some s2"
    and s': "s' = s2\<lparr>mo_graph := rollbackChanges (mo_graph s2)\<rparr>"
    unfolding try_read_def by (auto simp: bind_eq_Some_conv)
  have geq: "g = mo_graph s" using g by (simp add: startChanges_Some)
  have good: "cg_good (mo_graph s)" and flag: "hasCycles (mo_graph s) \<longleftrightarrow> \<not> acyclic (mo_order (mo_graph s))"
    using ok by (simp_all add: graph_ok_def)
  from r geq have "r_modification_order cur rf s = Some (b, s1)" by simp
  from r_modification_order_Some [OF this] obtain g1 where s1: "s1 = s\<lparr>mo_graph := g1\<rparr>"
    and g1: "addEdges (r_constraints s cur rf) (mo_graph s) = Some g1" by blast
  from addEdges_spec [OF good flag, of "r_constraints s cur rf" "mo_graph s"] g1
  have sub: "set (r_constraints s cur rf) \<union> mo_order (mo_graph s) \<subseteq> mo_order g1"
    and cyc: "hasCycles g1 \<longleftrightarrow> \<not> acyclic (mo_order g1)" by auto
  have feas: "\<not> is_infeasible s1 \<longleftrightarrow> acyclic (mo_order g1) \<and> \<not> is_infeasible (s\<lparr>mo_graph := g1\<lparr>hasCycles := False\<rparr>\<rparr>)"
    unfolding s1 using infeasible_split [of g1 s] cyc by blast
  have nd: "node_of s1 cur = node_of s cur" by (simp add: s1)
  let ?feas = "acyclic (mo_order g1) \<and> \<not> is_infeasible (s\<lparr>mo_graph := g1\<lparr>hasCycles := False\<rparr>\<rparr>)"
  have s2: "if ?feas then \<exists>k n. node_of s cur = Some (k, n) \<and> s2 = (put_node k (f n) s)\<lparr>mo_graph := g1\<rparr>
      else s2 = s\<lparr>mo_graph := g1\<rparr>"
    unfolding feas [symmetric] using add nd by (auto simp: bind_eq_Some_conv s1 put_node_mo_graph split: if_splits)
  then have g2: "mo_graph s2 = g1" by (auto split: if_splits)
  have "if ?feas then \<exists>k n. node_of s cur = Some (k, n) \<and> s' = (put_node k (f n) s)\<lparr>mo_graph := mo_graph s'\<rparr>
      else s' = s\<lparr>mo_graph := mo_graph s'\<rparr>"
  proof (cases ?feas)
    case True
    with s2 obtain k n where kn: "node_of s cur = Some (k, n)" "s2 = (put_node k (f n) s)\<lparr>mo_graph := g1\<rparr>" by auto
    then have e: "s' = (put_node k (f n) s)\<lparr>mo_graph := rollbackChanges g1\<rparr>" using s' by simp
    have "s' = (put_node k (f n) s)\<lparr>mo_graph := mo_graph s'\<rparr>" unfolding e by simp
    with kn True show ?thesis by auto
  next
    case False
    with s2 have "s2 = s\<lparr>mo_graph := g1\<rparr>" by argo
    then have e: "s' = s\<lparr>mo_graph := rollbackChanges g1\<rparr>" using s' by simp
    have "s' = s\<lparr>mo_graph := mo_graph s'\<rparr>" unfolding e by simp
    with False show ?thesis by argo
  qed
  moreover from rollback_addEdges [OF good g flag, of "r_constraints s cur rf" g1] g1 geq
  have "edges (rollbackChanges g1) = edges (mo_graph s)" "hasCycles (rollbackChanges g1) = hasCycles (mo_graph s)" by auto
  ultimately show ?thesis using g1 sub s' g2 by simp
qed

subsection \<open>Properties\<close>

lemma new_cycle_graph_ok: "graph_ok new_cycle_graph"
proof -
  have "mo_order new_cycle_graph = {}" "hasCycles new_cycle_graph = False"
    using addEdges_new [of "[]"] by (auto simp: new_cycle_graph_def)
  then show ?thesis using new_cycle_graph_good by (simp add: graph_ok_def acyclic_def)
qed

text \<open>
  C3: the constraints of a read are those of the declarative list \<open>r_constraints\<close>: for every thread,
  the store seen by its latest action that happens before the read, or that the seq-cst fences
  order before it, precedes the store the read takes its value from, and the promises that only the
  reading thread can fulfil come after it. The function changes nothing but the graph, keeps it
  well-formed, and its cycle flag stays exact.
\<close>

theorem r_modification_order_constraints:
  assumes run: "r_modification_order cur rf s = Some (b, s')" and ok: "graph_ok (mo_graph s)"
  shows "addEdges (r_constraints s cur rf) (mo_graph s) = Some (mo_graph s') \<and>
    s' = s\<lparr>mo_graph := mo_graph s'\<rparr> \<and> graph_ok (mo_graph s') \<and>
    set (r_constraints s cur rf) \<union> mo_order (mo_graph s) \<subseteq> mo_order (mo_graph s')"
proof -
  obtain g' where g': "s' = s\<lparr>mo_graph := g'\<rparr>" "addEdges (r_constraints s cur rf) (mo_graph s) = Some g'"
    using r_modification_order_Some [OF run] by blast
  with addEdges_spec [of "mo_graph s" "r_constraints s cur rf" "mo_graph s"] ok
  have "graph_ok g'" "set (r_constraints s cur rf) \<union> mo_order (mo_graph s) \<subseteq> mo_order g'"
    by (auto simp: graph_ok_def)
  with g' show ?thesis by simp
qed

theorem r_modification_order_constraints_witness:
  "\<exists>s'. r_modification_order 1 (ActObj 0) sample_execution = Some (False, s') \<and> graph_ok (mo_graph s')"
proof -
  have "map_option fst (r_modification_order 1 (ActObj 0) sample_execution) = Some False"
    by code_simp
  then obtain s' where s': "r_modification_order 1 (ActObj 0) sample_execution = Some (False, s')"
    by auto
  have "graph_ok (mo_graph sample_execution)" by (simp add: sample_execution_def new_cycle_graph_ok)
  from r_modification_order_constraints [OF s' this] s' show ?thesis by blast
qed

text \<open>
  C2: a store or promise becomes a candidate of a new read exactly when the constraints of reading it
  are consistent, that is, acyclic with the modification order recorded so far, in an execution
  that is not doomed otherwise; the trial leaves the recorded order and its cycle flag as they were.
\<close>

theorem candidate_iff_consistent:
  assumes run: "try_read cur rf f s = Some s'" and ok: "graph_ok (mo_graph s)"
  shows "\<exists>g1. addEdges (r_constraints s cur rf) (mo_graph s) = Some g1 \<and>
     set (r_constraints s cur rf) \<union> mo_order (mo_graph s) \<subseteq> mo_order g1 \<and>
     (if acyclic (mo_order g1) \<and> \<not> is_infeasible (s\<lparr>mo_graph := g1\<lparr>hasCycles := False\<rparr>\<rparr>)
      then \<exists>k n. node_of s cur = Some (k, n) \<and> s' = (put_node k (f n) s)\<lparr>mo_graph := mo_graph s'\<rparr>
      else s' = s\<lparr>mo_graph := mo_graph s'\<rparr>) \<and>
     edges (mo_graph s') = edges (mo_graph s) \<and> hasCycles (mo_graph s') = hasCycles (mo_graph s)"
  by (rule try_read_Some [OF run ok])

theorem candidate_iff_consistent_witness:
  "\<exists>s'. try_read 1 (ActObj 0) (add_read_from_past 0) sample_execution = Some s' \<and>
     edges (mo_graph s') = edges new_cycle_graph"
proof -
  have "map_option (\<lambda>s. ()) (try_read 1 (ActObj 0) (add_read_from_past 0) sample_execution) = Some ()"
    by code_simp
  then obtain s' where s': "try_read 1 (ActObj 0) (add_read_from_past 0) sample_execution = Some s'"
    by auto
  have "graph_ok (mo_graph sample_execution)" by (simp add: sample_execution_def new_cycle_graph_ok)
  from candidate_iff_consistent [OF s' this] s' show ?thesis by (auto simp: sample_execution_def)
qed

end
