(* ===== verification/Data_Race.thy ===== *)
theory Data_Race
  imports Execution_State
begin

text \<open>
  The data-race checks (\<open>datarace.cc\<close>) on the state of an execution: the checks at a non-atomic
  read or write, the list of races not yet known to be realized, and its evaluation once the trace
  is a feasible prefix.

  A check that realizes a race leaves the running thread for good (\<open>switch_to_master(NULL)\<close>); the
  first component of a result says so, and nothing after that point is executed. The abstraction
  \<open>history\<close> of a shadow word is the set of reads and the set of the last write it stands for, in
  either representation; both checks are functions of the history.
\<close>

subsection \<open>Unrealized races\<close>

definition assert_race :: "data_race \<Rightarrow> execution \<Rightarrow> bool \<times> execution" where
  "assert_race race s =
     assert_bug (Bug_Race (race_address race) (isoldwrite race) (oldthread race) (oldclock race)
        (isnewwrite race) (ma_tid (ex_acts s (newaction race)))
        (ma_seq_number (ex_acts s (newaction race)))) s"

definition still_races :: "execution \<Rightarrow> data_race \<Rightarrow> bool" where
  "still_races s race \<longleftrightarrow>
     clock_may_race (ma_cv (ex_acts s (newaction race))) (ma_tid (ex_acts s (newaction race)))
       (oldclock race) (oldthread race)"

fun races_loop :: "data_race list \<Rightarrow> bool \<Rightarrow> execution \<Rightarrow> bool \<times> execution" where
  "races_loop [] race_asserted s = (race_asserted, s)"
| "races_loop (race # races) race_asserted s =
     (if still_races s race then races_loop races True (snd (assert_race race s))
      else races_loop races race_asserted s)"

definition checkDataRaces :: "execution \<Rightarrow> bool \<times> execution" where
  "checkDataRaces s =
     (if isfeasibleprefix s
      then let (race_asserted, s) = races_loop (unrealizedraces s) False s
           in (race_asserted, s\<lparr>unrealizedraces := []\<rparr>)
      else (False, s))"

definition haveUnrealizedRaces :: "execution \<Rightarrow> bool" where
  "haveUnrealizedRaces s \<longleftrightarrow> unrealizedraces s \<noteq> []"

definition reportDataRace ::
  "thread_id \<Rightarrow> modelclock \<Rightarrow> bool \<Rightarrow> act_ptr \<Rightarrow> bool \<Rightarrow> loc \<Rightarrow> execution \<Rightarrow> bool \<times> execution" where
  "reportDataRace oldth oldcl isoldwr newact isnewwr address s =
     checkDataRaces (s\<lparr>unrealizedraces := unrealizedraces s @
       [\<lparr>oldthread = oldth, oldclock = oldcl, isoldwrite = isoldwr, newaction = newact,
         isnewwrite = isnewwr, race_address = address\<rparr>]\<rparr>)"

subsection \<open>The checks\<close>

text \<open>One test of the checks, \<open>if (clock_may_race(...)) reportDataRace(...)\<close>.\<close>

definition check_race ::
  "clock_vector \<Rightarrow> thread_id \<Rightarrow> loc \<Rightarrow> bool \<Rightarrow> modelclock \<Rightarrow> thread_id \<Rightarrow> bool \<Rightarrow> execution \<Rightarrow>
   (bool \<times> execution) option" where
  "check_race currClock thread l isnewwr clock2 tid2 isoldwr s =
     (if clock_may_race currClock thread clock2 tid2
      then do {
        p \<leftarrow> get_parent_action s thread;
        newact \<leftarrow> p;
        Some (reportDataRace tid2 clock2 isoldwr newact isnewwr l s)
      } else Some (False, s))"

definition store_shadow :: "loc \<Rightarrow> shadow \<Rightarrow> execution \<Rightarrow> (bool \<times> execution) option" where
  "store_shadow l v s = do { sh \<leftarrow> set_shadow l v (ex_shadow s); Some (False, s\<lparr>ex_shadow := sh\<rparr>) }"

text \<open>Sequencing that ends with the thread.\<close>

definition unless_left ::
  "(bool \<times> execution) option \<Rightarrow> (execution \<Rightarrow> (bool \<times> execution) option) \<Rightarrow> (bool \<times> execution) option" where
  "unless_left m f = do { (left, s) \<leftarrow> m; if left then Some (True, s) else f s }"

definition fullRaceCheckWrite ::
  "thread_id \<Rightarrow> loc \<Rightarrow> race_record \<Rightarrow> clock_vector \<Rightarrow> execution \<Rightarrow> (bool \<times> execution) option" where
  "fullRaceCheckWrite thread l rec currClock s =
     unless_left
       (for_until (\<lambda>i s. if i < length (rr_readClock rec) \<and> i < length (rr_thread rec)
                         then check_race currClock thread l True (rr_readClock rec ! i) (rr_thread rec ! i) False s
                         else None) [0..<rr_numReads rec] s)
       (\<lambda>s. unless_left
          (check_race currClock thread l True (rr_writeClock rec) (rr_writeThread rec) True s)
          (store_shadow l (Full (record_write currClock thread rec))))"

definition raceCheckWrite :: "thread_id \<Rightarrow> loc \<Rightarrow> execution \<Rightarrow> (bool \<times> execution) option" where
  "raceCheckWrite thread l s =
     (let (root, shadowval) = lookupAddressEntry l (ex_shadow s); s = s\<lparr>ex_shadow := root\<rparr>
      in do {
        currClock \<leftarrow> get_cv s thread;
        (case shadowval of
           Full rec \<Rightarrow> fullRaceCheckWrite thread l rec currClock s
         | Short w \<Rightarrow>
             let ourClock = getClock currClock thread
             in if thread > MAXTHREADID \<or> ourClock > MAXWRITEVECTOR
                then unless_left (store_shadow l (Full (expandRecord w)) s)
                       (fullRaceCheckWrite thread l (expandRecord w) currClock)
                else unless_left (check_race currClock thread l True (READVECTOR w) (RDTHREADID w) False s)
                  (\<lambda>s. unless_left (check_race currClock thread l True (WRITEVECTOR w) (WRTHREADID w) True s)
                    (store_shadow l (Short (ENCODEOP 0 0 thread ourClock)))))
      })"

definition fullRaceCheckRead ::
  "thread_id \<Rightarrow> loc \<Rightarrow> race_record \<Rightarrow> clock_vector \<Rightarrow> execution \<Rightarrow> (bool \<times> execution) option" where
  "fullRaceCheckRead thread l rec currClock s =
     unless_left
       (check_race currClock thread l False (rr_writeClock rec) (rr_writeThread rec) True s)
       (\<lambda>s. do { rec \<leftarrow> record_read currClock thread rec; store_shadow l (Full rec) s })"

definition raceCheckRead :: "thread_id \<Rightarrow> loc \<Rightarrow> execution \<Rightarrow> (bool \<times> execution) option" where
  "raceCheckRead thread l s =
     (let (root, shadowval) = lookupAddressEntry l (ex_shadow s); s = s\<lparr>ex_shadow := root\<rparr>
      in do {
        currClock \<leftarrow> get_cv s thread;
        (case shadowval of
           Full rec \<Rightarrow> fullRaceCheckRead thread l rec currClock s
         | Short w \<Rightarrow>
             let ourClock = getClock currClock thread
             in if thread > MAXTHREADID \<or> ourClock > MAXWRITEVECTOR
                then unless_left (store_shadow l (Full (expandRecord w)) s)
                       (fullRaceCheckRead thread l (expandRecord w) currClock)
                else unless_left (check_race currClock thread l False (WRITEVECTOR w) (WRTHREADID w) True s)
                  (\<lambda>s. if clock_may_race currClock thread (READVECTOR w) (RDTHREADID w)
                       then unless_left (store_shadow l (Full (expandRecord w)) s)
                              (fullRaceCheckRead thread l (expandRecord w) currClock)
                       else store_shadow l (Short (ENCODEOP thread ourClock (WRTHREADID w) (WRITEVECTOR w))) s))
      })"

subsection \<open>The history behind a shadow word\<close>

type_synonym accesses = "(thread_id \<times> modelclock) set"

definition access :: "thread_id \<Rightarrow> modelclock \<Rightarrow> accesses" where
  "access t c = (if c = 0 then {} else {(t, c)})"

definition history :: "shadow \<Rightarrow> accesses \<times> accesses" where
  "history sh = (case sh of
     Short w \<Rightarrow> (access (RDTHREADID w) (READVECTOR w), access (WRTHREADID w) (WRITEVECTOR w))
   | Full r \<Rightarrow> ({(t, c) \<in> set (recorded_reads r). c \<noteq> 0}, access (rr_writeThread r) (rr_writeClock r)))"

definition racing :: "clock_vector \<Rightarrow> thread_id \<Rightarrow> accesses \<Rightarrow> accesses" where
  "racing cv t S = {(u, c) \<in> S. u \<noteq> t \<and> getClock cv u \<le> c}"

definition races_with :: "act_ptr \<Rightarrow> bool \<Rightarrow> loc \<Rightarrow> bool \<Rightarrow> accesses \<Rightarrow> data_race set" where
  "races_with a isnew l isold S = (\<lambda>(u, c). \<lparr>oldthread = u, oldclock = c, isoldwrite = isold, newaction = a,
     isnewwrite = isnew, race_address = l\<rparr>) ` S"

definition add_races :: "data_race list \<Rightarrow> execution \<Rightarrow> execution" where
  "add_races rs s = s\<lparr>unrealizedraces := unrealizedraces s @ rs\<rparr>"

definition set_entry :: "shadow_root \<Rightarrow> execution \<Rightarrow> execution" where
  "set_entry r s = s\<lparr>ex_shadow := r\<rparr>"

definition race_of :: "act_ptr \<Rightarrow> bool \<Rightarrow> loc \<Rightarrow> bool \<Rightarrow> clock_vector \<Rightarrow> thread_id \<Rightarrow> thread_id \<Rightarrow> modelclock \<Rightarrow> data_race list" where
  "race_of a isnew l isold cv t u c = (if clock_may_race cv t c u
     then [\<lparr>oldthread = u, oldclock = c, isoldwrite = isold, newaction = a, isnewwrite = isnew, race_address = l\<rparr>]
     else [])"

lemma add_races_simps [simp]:
  "add_races r2 (add_races r1 s) = add_races (r1 @ r2) s" "add_races [] s = s"
  "isfeasibleprefix (add_races rs s) = isfeasibleprefix s"
  "get_parent_action (add_races rs s) t = get_parent_action s t"
  "ex_shadow (add_races rs s) = ex_shadow s" "unrealizedraces (add_races rs s) = unrealizedraces s @ rs"
  "ex_acts (add_races rs s) = ex_acts s"
  by (auto simp: add_races_def isfeasibleprefix_def is_feasible_prefix_ignore_relseq_def is_infeasible_def
    promises_expired_def get_parent_action_def get_last_action_def get_thread_def cong: option.case_cong)

lemma set_entry_simps [simp]:
  "set_entry r2 (set_entry r1 s) = set_entry r2 s"
  "isfeasibleprefix (set_entry r s) = isfeasibleprefix s"
  "get_parent_action (set_entry r s) t = get_parent_action s t"
  "ex_shadow (set_entry r s) = r" "unrealizedraces (set_entry r s) = unrealizedraces s"
  "ex_acts (set_entry r s) = ex_acts s"
  "add_races rs (set_entry r s) = set_entry r (add_races rs s)"
  by (auto simp: set_entry_def add_races_def isfeasibleprefix_def is_feasible_prefix_ignore_relseq_def is_infeasible_def
    promises_expired_def get_parent_action_def get_last_action_def get_thread_def cong: option.case_cong)

subsection \<open>Realized races\<close>

definition race_bug :: "execution \<Rightarrow> data_race \<Rightarrow> bug_message" where
  "race_bug s race = Bug_Race (race_address race) (isoldwrite race) (oldthread race) (oldclock race)
     (isnewwrite race) (ma_tid (ex_acts s (newaction race))) (ma_seq_number (ex_acts s (newaction race)))"

lemma races_loop_spec:
  assumes "isfeasibleprefix s"
  shows "races_loop rs b s = (b \<or> filter (still_races s) rs \<noteq> [],
     s\<lparr>bugs := bugs s @ map (race_bug s) (filter (still_races s) rs),
       asserted := asserted s \<or> filter (still_races s) rs \<noteq> []\<rparr>)"
  using assms
proof (induction rs arbitrary: b s)
  case Nil
  show ?case by simp
next
  case (Cons r rs)
  show ?case
  proof (cases "still_races s r")
    case True
    let ?s = "s\<lparr>bugs := bugs s @ [race_bug s r], asserted := True\<rparr>"
    have "snd (assert_race r s) = ?s"
      using Cons.prems by (simp add: assert_race_def assert_bug_def race_bug_def set_assert_def isfeasibleprefix_def
        is_feasible_prefix_ignore_relseq_def is_infeasible_def promises_expired_def)
    moreover have "isfeasibleprefix ?s"
      using Cons.prems by (simp add: isfeasibleprefix_def
        is_feasible_prefix_ignore_relseq_def is_infeasible_def promises_expired_def)
    moreover have "still_races ?s = still_races s" "race_bug ?s = race_bug s"
      by (simp_all add: still_races_def race_bug_def fun_eq_iff)
    ultimately show ?thesis using Cons.IH [of ?s True] True by simp
  next
    case False
    with Cons show ?thesis by simp
  qed
qed

text \<open>
  The effect of a check that fires on a feasible prefix: the queued races that are real and the new
  race are reported as bugs, the queue is emptied, the execution stops and the thread is left.
\<close>

definition report_race :: "data_race \<Rightarrow> execution \<Rightarrow> execution" where
  "report_race r s = s\<lparr>bugs := bugs s @ map (race_bug s) (filter (still_races s) (unrealizedraces s) @ [r]),
     asserted := True, unrealizedraces := []\<rparr>"

definition report :: "data_race list \<Rightarrow> execution \<Rightarrow> bool \<times> execution" where
  "report rs s = (if rs \<noteq> [] \<and> isfeasibleprefix s then (True, report_race (hd rs) s) else (False, add_races rs s))"

text \<open>\<open>a\<close> is the last action of thread \<open>t\<close> and \<open>cv\<close> its clock vector.\<close>

definition own_action :: "execution \<Rightarrow> thread_id \<Rightarrow> act_ptr \<Rightarrow> clock_vector \<Rightarrow> bool" where
  "own_action s t a cv \<longleftrightarrow> get_parent_action s t = Some (Some a) \<and>
     ma_tid (ex_acts s a) = t \<and> ma_cv (ex_acts s a) = cv"

lemma own_action_simps [simp]:
  "own_action (add_races rs s) t a cv = own_action s t a cv"
  "own_action (set_entry r s) t a cv = own_action s t a cv"
  by (simp_all add: own_action_def)

lemma own_action_cv: "own_action s t a cv \<Longrightarrow> get_cv s t = Some cv"
  by (simp add: own_action_def get_cv_def)

lemma report_simps [simp]:
  "report [] s = (False, s)" "report_race r (set_entry root s) = set_entry root (report_race r s)"
  by (simp_all add: report_def report_race_def set_entry_def still_races_def [abs_def] race_bug_def [abs_def])

lemma report_append:
  "report (r1 @ r2) s = (if fst (report r1 s) then report r1 s else report r2 (snd (report r1 s)))"
  by (simp add: report_def)

lemma check_race_report:
  assumes "own_action s t a cv"
  shows "check_race cv t l isnew c u isold s = Some (report (race_of a isnew l isold cv t u c) s)"
proof (cases "clock_may_race cv t c u")
  case False
  then show ?thesis by (simp add: check_race_def race_of_def)
next
  case True
  let ?r = "\<lparr>oldthread = u, oldclock = c, isoldwrite = isold, newaction = a, isnewwrite = isnew, race_address = l\<rparr>"
  have st: "still_races (add_races [?r] s) = still_races s" "race_bug (add_races [?r] s) = race_bug s"
    by (simp_all add: still_races_def race_bug_def fun_eq_iff)
  have real: "still_races s ?r" using True assms by (simp add: still_races_def own_action_def)
  have "checkDataRaces (add_races [?r] s) =
      (if isfeasibleprefix s then (True, report_race ?r s) else (False, add_races [?r] s))"
    using real unfolding checkDataRaces_def by (simp add: races_loop_spec st) (simp add: add_races_def report_race_def)
  then show ?thesis using True assms
    by (simp add: check_race_def race_of_def reportDataRace_def own_action_def report_def add_races_def)
qed

lemma unless_left_report:
  "unless_left (Some (report rs s)) f =
     (if fst (report rs s) then Some (report rs s) else f (add_races rs s))"
  by (simp add: unless_left_def report_def)

lemma unless_left_then:
  assumes "check (add_races r1 s) = Some (report r2 (add_races r1 s))"
  shows "unless_left (Some (report r1 s)) (\<lambda>s. unless_left (check s) f) = unless_left (Some (report (r1 @ r2) s)) f"
proof (cases "fst (report r1 s)")
  case True
  then show ?thesis by (simp add: unless_left_report report_append)
next
  case False
  then have "snd (report r1 s) = add_races r1 s" by (auto simp: report_def)
  with False assms show ?thesis by (simp add: unless_left_report report_append)
qed

lemma store_shadow_entry:
  "store_shadow l v s = map_option (\<lambda>r. (False, set_entry r s)) (set_shadow l v (ex_shadow s))"
  by (cases "set_shadow l v (ex_shadow s)") (simp_all add: store_shadow_def set_entry_def)

lemma set_race_of:
  "set (race_of a isnew l isold cv t u c) = races_with a isnew l isold (racing cv t (access u c))"
  by (auto simp: race_of_def races_with_def racing_def access_def clock_may_race_def)

lemma racing_union [simp]: "racing cv t (A \<union> B) = racing cv t A \<union> racing cv t B"
  by (auto simp: racing_def)

lemma history_expand: "history (Full (expandRecord w)) = history (Short w)"
  by (auto simp: history_def expandRecord_def Let_def recorded_reads_def entries_def access_def INITCAPACITY_def
    numeral_eq_Suc)

lemma write_checks:
  assumes "own_action s t a cv" "\<forall>i \<in> set is. i < length (rr_readClock rec) \<and> i < length (rr_thread rec)"
  shows "\<exists>rs. for_until (\<lambda>i s. if i < length (rr_readClock rec) \<and> i < length (rr_thread rec)
                         then check_race cv t l True (rr_readClock rec ! i) (rr_thread rec ! i) False s
                         else None) is s = Some (report rs s) \<and>
     set rs = (\<Union>i \<in> set is. races_with a True l False (racing cv t (access (rr_thread rec ! i) (rr_readClock rec ! i))))"
  using assms
proof (induction "is" arbitrary: s)
  case Nil
  show ?case by (auto intro!: exI [of _ "[]"])
next
  case (Cons i "is")
  let ?r = "race_of a True l False cv t (rr_thread rec ! i) (rr_readClock rec ! i)"
  from Cons.IH [of "add_races ?r s"] Cons.prems obtain rs where "for_until (\<lambda>i s. if i < length (rr_readClock rec) \<and> i < length (rr_thread rec)
                         then check_race cv t l True (rr_readClock rec ! i) (rr_thread rec ! i) False s
                         else None) is (add_races ?r s) = Some (report rs (add_races ?r s))"
    "set rs = (\<Union>i \<in> set is. races_with a True l False (racing cv t (access (rr_thread rec ! i) (rr_readClock rec ! i))))"
    by auto
  with Cons.prems show ?case
    by (intro exI [of _ "?r @ rs"]) (auto simp: check_race_report [of s t a] set_race_of report_append report_def)
qed

lemma full_write:
  assumes own: "own_action s t a cv" and inv: "race_inv rec"
  defines "H \<equiv> history (Full rec)"
  shows "\<exists>rs. fullRaceCheckWrite t l rec cv s = (if fst (report rs s) then Some (report rs s) else
      map_option (\<lambda>r. (False, set_entry r (add_races rs s))) (set_shadow l (Full (record_write cv t rec)) (ex_shadow s))) \<and>
    set rs = races_with a True l False (racing cv t (fst H)) \<union> races_with a True l True (racing cv t (snd H))"
proof -
  let ?is = "[0..<rr_numReads rec]"
  have "\<forall>i \<in> set ?is. i < length (rr_readClock rec) \<and> i < length (rr_thread rec)"
    using inv by (auto simp: race_inv_def)
  from write_checks [OF own this, of l] obtain rs where
    rs: "for_until (\<lambda>i s. if i < length (rr_readClock rec) \<and> i < length (rr_thread rec)
                         then check_race cv t l True (rr_readClock rec ! i) (rr_thread rec ! i) False s
                         else None) ?is s = Some (report rs s)"
     "set rs = (\<Union>i \<in> set ?is. races_with a True l False (racing cv t (access (rr_thread rec ! i) (rr_readClock rec ! i))))"
    by blast
  have "recorded_reads rec = map (\<lambda>i. (rr_thread rec ! i, rr_readClock rec ! i)) ?is"
    using inv by (intro nth_equalityI) (simp_all add: recorded_reads_def entries_def race_inv_def)
  then have "fst H = (\<Union>i \<in> set ?is. access (rr_thread rec ! i) (rr_readClock rec ! i))"
    by (auto simp: H_def history_def access_def split: if_splits)
  then have set_rs: "set rs = races_with a True l False (racing cv t (fst H))"
    by (auto simp: rs(2) races_with_def racing_def)
  let ?r = "race_of a True l True cv t (rr_writeThread rec) (rr_writeClock rec)"
  have snd_H: "snd H = access (rr_writeThread rec) (rr_writeClock rec)" by (simp add: H_def history_def)
  have "fullRaceCheckWrite t l rec cv s = unless_left (Some (report rs s))
      (\<lambda>s. unless_left (check_race cv t l True (rr_writeClock rec) (rr_writeThread rec) True s)
        (store_shadow l (Full (record_write cv t rec))))"
    by (simp add: fullRaceCheckWrite_def rs(1))
  also have "\<dots> = (if fst (report (rs @ ?r) s) then Some (report (rs @ ?r) s) else
      map_option (\<lambda>r. (False, set_entry r (add_races (rs @ ?r) s))) (set_shadow l (Full (record_write cv t rec)) (ex_shadow s)))"
    using own by (subst unless_left_then [of _ rs s ?r])
      (simp_all add: check_race_report unless_left_report store_shadow_entry)
  finally show ?thesis using set_rs snd_H by (intro exI [of _ "rs @ ?r"]) (simp add: set_race_of)
qed

lemma record_write_history:
  "history (Full (record_write cv t rec)) = ({}, access t (getClock cv t))"
  by (simp add: history_def record_write_def recorded_reads_def)

lemma full_read:
  assumes own: "own_action s t a cv" and inv: "race_inv rec"
  defines "H \<equiv> history (Full rec)"
  shows "\<exists>rs. fullRaceCheckRead t l rec cv s = (if fst (report rs s) then Some (report rs s) else
      Option.bind (record_read cv t rec) (\<lambda>rec'.
        map_option (\<lambda>r. (False, set_entry r (add_races rs s))) (set_shadow l (Full rec') (ex_shadow s)))) \<and>
    set rs = races_with a False l True (racing cv t (snd H)) \<and>
    (record_read cv t rec = None \<longrightarrow> rr_capacity rec = 0) \<and>
    (\<forall>rec'. record_read cv t rec = Some rec' \<longrightarrow> race_inv rec' \<and>
       history (Full rec') = (racing cv t (fst H) \<union> access t (getClock cv t), snd H))"
proof -
  have h: "race_inv rec' \<and> history (Full rec') = (racing cv t (fst H) \<union> access t (getClock cv t), snd H)"
    if "record_read cv t rec = Some rec'" for rec'
  proof -
    have "race_inv rec'" "recorded_reads rec' = kept_reads cv t rec @ [(t, getClock cv t)]"
        "rr_writeThread rec' = rr_writeThread rec" "rr_writeClock rec' = rr_writeClock rec"
      using record_read_cases [OF inv, of cv t] that by (auto split: if_splits)
    then show ?thesis
      by (auto simp: H_def history_def kept_reads_def racing_def access_def clock_may_race_def split: if_splits)
  qed
  have none: "record_read cv t rec = None \<Longrightarrow> rr_capacity rec = 0"
    using record_read_cases [OF inv, of cv t] by (auto split: if_splits)
  let ?rs = "race_of a False l True cv t (rr_writeThread rec) (rr_writeClock rec)"
  have "fullRaceCheckRead t l rec cv s = (if fst (report ?rs s) then Some (report ?rs s) else
      Option.bind (record_read cv t rec) (\<lambda>rec'.
        map_option (\<lambda>r. (False, set_entry r (add_races ?rs s))) (set_shadow l (Full rec') (ex_shadow s))))"
    using own by (simp add: fullRaceCheckRead_def check_race_report unless_left_report store_shadow_entry)
  with h none show ?thesis
    by (intro exI [of _ ?rs]) (simp add: set_race_of H_def history_def)
qed

definition spec_read :: "clock_vector \<Rightarrow> thread_id \<Rightarrow> accesses \<times> accesses \<Rightarrow> accesses \<times> accesses" where
  "spec_read cv t H = (racing cv t (fst H) \<union> access t (getClock cv t), snd H)"

definition spec_write :: "clock_vector \<Rightarrow> thread_id \<Rightarrow> accesses \<times> accesses \<Rightarrow> accesses \<times> accesses" where
  "spec_write cv t H = ({}, access t (getClock cv t))"

definition shadow_ok :: "shadow \<Rightarrow> bool" where
  "shadow_ok sh = (case sh of Short w \<Rightarrow> True | Full r \<Rightarrow> race_inv r)"

definition same_entry :: "loc \<Rightarrow> loc \<Rightarrow> bool" where
  "same_entry a b \<longleftrightarrow> take_bit 48 a = take_bit 48 b"

lemma history_short:
  assumes "\<not> t > MAXTHREADID" "\<not> c > MAXWRITEVECTOR" "u < 256" "unat d < 2 ^ 23"
  shows "history (Short (ENCODEOP t c u d)) = (access t c, access u d)"
proof -
  have "t < 256" using assms(1) by (simp add: MAXTHREADID_def)
  moreover have "unat c < 2 ^ 23" using assms(2)
    by (simp add: MAXWRITEVECTOR_def not_less word_le_nat_alt)
  ultimately show ?thesis using short_record_decode [of t u c d] assms(3,4) by (simp add: history_def)
qed

lemma wr_bounds: "WRTHREADID w < 256" "unat (WRITEVECTOR w) < 2 ^ 23"
proof -
  have b: "unat (x AND Bit_Operations.mask k) < 2 ^ k" for x :: u64 and k
    by (simp only: take_bit_eq_mask [symmetric] unsigned_take_bit_eq take_bit_nat_less_exp)
  show "WRTHREADID w < 256" using b [of "drop_bit 32 w" 8] by (simp add: WRTHREADID_def mask_bits)
  have "unat (ucast x :: 32 word) \<le> unat x" for x :: u64
    by (simp add: unsigned_ucast_eq take_bit_nat_eq_self)
  then show "unat (WRITEVECTOR w) < 2 ^ 23"
    using b [of "drop_bit 40 w" 23] unfolding WRITEVECTOR_def mask_bits by (rule le_less_trans)
qed

lemma set_shadow_Some:
  assumes "set_shadow l v root = Some root'"
  shows "shadow_of root' k = (if same_entry k l then v else shadow_of root k)"
proof -
  from assms obtain t b where t: "root (top_index l) = Some t" "t (mid_index l) = Some b"
    and r: "root' = root(top_index l \<mapsto> t(mid_index l \<mapsto> b(low_index l := v)))"
    by (auto simp: set_shadow_def bind_eq_Some_conv)
  show ?thesis unfolding r same_entry_def
    unfolding shadow_of_entry3 entry3_upd [of root "top_index l" t "mid_index l" b, OF t] indices_eq_iff ..
qed

lemma same_entry_shadow: "same_entry k l \<Longrightarrow> shadow_of root k = shadow_of root l"
  unfolding same_entry_def indices_eq_iff [symmetric] shadow_of_entry3 by simp

text \<open>The tables of an address are allocated: a store through its entry succeeds.\<close>

definition entry_alloc :: "loc \<Rightarrow> shadow_root \<Rightarrow> bool" where
  "entry_alloc l root \<longleftrightarrow> (\<exists>t b. root (top_index l) = Some t \<and> t (mid_index l) = Some b)"

lemma entry_alloc_lookup [simp]: "entry_alloc l (fst (lookupAddressEntry l root))"
  using lookup_allocates by (simp add: entry_alloc_def)

lemma entry_alloc_set:
  assumes "entry_alloc l root"
  obtains r where "set_shadow l v root = Some r" "entry_alloc l r"
  using assms by (auto simp: entry_alloc_def set_shadow_def)

definition checked :: "execution \<Rightarrow> execution \<Rightarrow> loc \<Rightarrow> data_race set \<Rightarrow> accesses \<times> accesses \<Rightarrow> bool" where
  "checked s s' l R H \<longleftrightarrow> (\<exists>rs root. s' = set_entry root (add_races rs s) \<and> set rs = R \<and>
     history (shadow_of root l) = H \<and> shadow_ok (shadow_of root l) \<and>
     (\<forall>k. \<not> same_entry k l \<longrightarrow> shadow_of root k = shadow_of (ex_shadow s) k))"

definition reported :: "execution \<Rightarrow> execution \<Rightarrow> data_race set \<Rightarrow> bool" where
  "reported s s' R \<longleftrightarrow> (\<exists>r \<in> R. \<exists>root. s' = set_entry root (report_race r s) \<and>
     (\<forall>k. history (shadow_of root k) = history (shadow_of (ex_shadow s) k) \<and>
          (shadow_ok (shadow_of (ex_shadow s) k) \<longrightarrow> shadow_ok (shadow_of root k))))"

text \<open>
  What a check of address \<open>l\<close> does: \<open>R\<close> are the races of the access with the history of the address,
  \<open>H'\<close> the new history.
\<close>

definition race_outcome :: "execution \<Rightarrow> bool \<Rightarrow> execution \<Rightarrow> loc \<Rightarrow> data_race set \<Rightarrow> accesses \<times> accesses \<Rightarrow> bool" where
  "race_outcome s left s' l R H' \<longleftrightarrow>
     (if isfeasibleprefix s \<and> R \<noteq> {} then left \<and> reported s s' R else \<not> left \<and> checked s s' l R H')"

lemma outcome_left:
  assumes "fst (report rs s)" "set rs = R"
    and "\<forall>k. history (shadow_of root k) = history (shadow_of (ex_shadow s) k) \<and>
          (shadow_ok (shadow_of (ex_shadow s) k) \<longrightarrow> shadow_ok (shadow_of root k))"
  shows "race_outcome s True (set_entry root (snd (report rs s))) l R H'"
proof -
  have "rs \<noteq> []" "isfeasibleprefix s" "snd (report rs s) = report_race (hd rs) s"
    using assms(1) by (auto simp: report_def split: if_splits)
  with assms(2,3) show ?thesis
    by (auto simp: race_outcome_def reported_def intro!: bexI [of _ "hd rs"] exI [of _ root])
qed

lemma outcome_stays:
  assumes "\<not> fst (report rs s)" "set rs = R"
    and "history (shadow_of root l) = H'" "shadow_ok (shadow_of root l)"
    and "\<forall>k. \<not> same_entry k l \<longrightarrow> shadow_of root k = shadow_of (ex_shadow s) k"
  shows "race_outcome s False (set_entry root (add_races rs s)) l R H'"
  using assms by (auto simp: race_outcome_def checked_def report_def split: if_splits)

text \<open>
  A root that differs from the shadow memory at the checked address only, and there in the
  representation only.
\<close>

definition same_history :: "execution \<Rightarrow> loc \<Rightarrow> shadow_root \<Rightarrow> bool" where
  "same_history s l r \<longleftrightarrow> entry_alloc l r \<and>
     (\<forall>k. history (shadow_of r k) = history (shadow_of (ex_shadow s) k) \<and>
          (shadow_ok (shadow_of (ex_shadow s) k) \<longrightarrow> shadow_ok (shadow_of r k))) \<and>
     (\<forall>k. \<not> same_entry k l \<longrightarrow> shadow_of r k = shadow_of (ex_shadow s) k)"

lemma same_history_lookup: "same_history s l (fst (lookupAddressEntry l (ex_shadow s)))"
  by (simp add: same_history_def shadow_of_lookup)

lemma same_history_expand:
  assumes "same_history s l r" "shadow_of (ex_shadow s) l = Short w" "set_shadow l (Full (expandRecord w)) r = Some r'"
    "entry_alloc l r'"
  shows "same_history s l r'"
proof -
  have "shadow_of (ex_shadow s) k = Short w" if "same_entry k l" for k
    using same_entry_shadow [OF that] assms(2) by simp
  then show ?thesis
    using assms set_shadow_Some [OF assms(3)]
    by (auto simp: same_history_def history_expand shadow_ok_def expandRecord_inv)
qed

lemma outcome_full_write:
  assumes own: "own_action s t a cv" and inv: "race_inv rec" and r: "same_history s l r"
    and H: "history (Full rec) = H"
  defines "R \<equiv> races_with a True l False (racing cv t (fst H)) \<union> races_with a True l True (racing cv t (snd H))"
  shows "\<exists>left s'. fullRaceCheckWrite t l rec cv (set_entry r s) = Some (left, s') \<and>
    race_outcome s left s' l R (spec_write cv t H)"
proof -
  have "own_action (set_entry r s) t a cv" using own by simp
  from full_write [OF this inv, of l] obtain rs where
    rs: "fullRaceCheckWrite t l rec cv (set_entry r s) =
      (if fst (report rs (set_entry r s)) then Some (report rs (set_entry r s)) else
        map_option (\<lambda>r'. (False, set_entry r' (add_races rs (set_entry r s)))) (set_shadow l (Full (record_write cv t rec)) r))"
    "set rs = R" unfolding R_def H set_entry_simps(4) by blast
  have rep: "report rs (set_entry r s) = (fst (report rs s), set_entry r (snd (report rs s)))"
    by (simp add: report_def)
  have "entry_alloc l r" using r by (simp add: same_history_def)
  then obtain r' where r': "set_shadow l (Full (record_write cv t rec)) r = Some r'"
    by (rule entry_alloc_set)
  show ?thesis
  proof (cases "fst (report rs s)")
    case True
    from outcome_left [OF True rs(2), of r l "spec_write cv t H"] r rs(1) True show ?thesis
      by (auto simp: rep same_history_def)
  next
    case False
    have "race_inv (record_write cv t rec)" using inv by (simp add: record_write_def race_inv_def)
    then have "race_outcome s False (set_entry r' (add_races rs s)) l R (spec_write cv t H)"
      using set_shadow_Some [OF r'] r
      by (intro outcome_stays [OF False rs(2)])
        (auto simp: spec_write_def record_write_history shadow_ok_def same_entry_def same_history_def)
    with rs(1) False r' show ?thesis by (intro exI [of _ False] exI) (simp add: rep)
  qed
qed

lemma race_check_write_outcome:
  assumes own: "own_action s t a cv" and ok: "shadow_ok (shadow_of (ex_shadow s) l)"
  defines "H \<equiv> history (shadow_of (ex_shadow s) l)"
  defines "R \<equiv> races_with a True l False (racing cv t (fst H)) \<union> races_with a True l True (racing cv t (snd H))"
  shows "\<exists>left s'. raceCheckWrite t l s = Some (left, s') \<and> race_outcome s left s' l R (spec_write cv t H)"
proof -
  define root where "root = fst (lookupAddressEntry l (ex_shadow s))"
  define s1 where "s1 = set_entry root s"
  have sh: "same_history s l root" by (simp add: root_def same_history_lookup)
  then have al: "entry_alloc l root" by (simp add: same_history_def)
  have own1: "own_action s1 t a cv" using own by (simp add: s1_def)
  have run: "raceCheckWrite t l s = (case shadow_of (ex_shadow s) l of
           Full rec \<Rightarrow> fullRaceCheckWrite t l rec cv s1
         | Short w \<Rightarrow>
             if t > MAXTHREADID \<or> getClock cv t > MAXWRITEVECTOR
                then unless_left (store_shadow l (Full (expandRecord w)) s1)
                       (fullRaceCheckWrite t l (expandRecord w) cv)
                else unless_left (check_race cv t l True (READVECTOR w) (RDTHREADID w) False s1)
                  (\<lambda>s. unless_left (check_race cv t l True (WRITEVECTOR w) (WRTHREADID w) True s)
                    (store_shadow l (Short (ENCODEOP 0 0 t (getClock cv t))))))"
    using own_action_cv [OF own1]
    unfolding raceCheckWrite_def split_def Let_def root_def s1_def set_entry_def shadow_of_def by simp
  show ?thesis
  proof (cases "shadow_of (ex_shadow s) l")
    case (Full rec)
    have "race_inv rec" using ok Full by (simp add: shadow_ok_def)
    from outcome_full_write [OF own this sh, of H] run Full show ?thesis
      by (simp add: s1_def H_def R_def)
  next
    case (Short w)
    have ex: "history (Full (expandRecord w)) = H" by (simp add: H_def Short history_expand)
    show ?thesis
    proof (cases "t > MAXTHREADID \<or> getClock cv t > MAXWRITEVECTOR")
      case True
      obtain r where r: "set_shadow l (Full (expandRecord w)) root = Some r" "entry_alloc l r"
        using al by (rule entry_alloc_set)
      have "raceCheckWrite t l s = fullRaceCheckWrite t l (expandRecord w) cv (set_entry r s)"
        using True run r(1) by (simp add: Short unless_left_def store_shadow_entry s1_def)
      with outcome_full_write [OF own expandRecord_inv same_history_expand [OF sh Short r] ex]
      show ?thesis by (simp add: R_def)
    next
      case False
      define r1 where "r1 = race_of a True l False cv t (RDTHREADID w) (READVECTOR w)"
      define r2 where "r2 = race_of a True l True cv t (WRTHREADID w) (WRITEVECTOR w)"
      have R: "set (r1 @ r2) = R"
        by (simp add: R_def r1_def r2_def H_def Short history_def set_race_of)
      obtain r where r: "set_shadow l (Short (ENCODEOP 0 0 t (getClock cv t))) root = Some r"
        using al by (rule entry_alloc_set)
      have "raceCheckWrite t l s = unless_left (Some (report r1 s1)) (\<lambda>s.
          unless_left (check_race cv t l True (WRITEVECTOR w) (WRTHREADID w) True s)
            (store_shadow l (Short (ENCODEOP 0 0 t (getClock cv t)))))"
        using run False by (simp add: Short check_race_report [OF own1] r1_def)
      also have "\<dots> = unless_left (Some (report (r1 @ r2) s1)) (store_shadow l (Short (ENCODEOP 0 0 t (getClock cv t))))"
        unfolding r2_def using own1 by (intro unless_left_then check_race_report) simp
      finally have eq: "raceCheckWrite t l s = (if fst (report (r1 @ r2) s) then Some (True, set_entry root (snd (report (r1 @ r2) s)))
          else Some (False, set_entry r (add_races (r1 @ r2) s)))"
        using r by (simp add: unless_left_report store_shadow_entry s1_def) (simp add: report_def)
      show ?thesis
      proof (cases "fst (report (r1 @ r2) s)")
        case True
        from outcome_left [OF True R, of root l "spec_write cv t H"] sh eq True show ?thesis
          by (auto simp: same_history_def)
      next
        case stay: False
        have "t < 256" "unat (getClock cv t) < 2 ^ 23" using False
          by (simp_all add: MAXTHREADID_def MAXWRITEVECTOR_def not_less word_le_nat_alt)
        then have "history (Short (ENCODEOP 0 0 t (getClock cv t))) = ({}, access t (getClock cv t))"
          using history_short [of 0 0 t "getClock cv t"] by (simp add: access_def MAXTHREADID_def)
        then have "race_outcome s False (set_entry r (add_races (r1 @ r2) s)) l R (spec_write cv t H)"
          using set_shadow_Some [OF r] sh
          by (intro outcome_stays [OF stay R])
            (auto simp: spec_write_def shadow_ok_def same_entry_def same_history_def)
        with eq stay show ?thesis by (intro exI [of _ False] exI) simp
      qed
    qed
  qed
qed

text \<open>
  A read is written into the arrays of the record, which a record without a capacity does not
  have: a full record of an address that was not read yet.
\<close>

definition read_fits :: "shadow \<Rightarrow> thread_id \<Rightarrow> modelclock \<Rightarrow> bool" where
  "read_fits sh t c \<longleftrightarrow> (case sh of
     Full rec \<Rightarrow> rr_capacity rec \<noteq> 0
   | Short w \<Rightarrow> READVECTOR w \<noteq> 0 \<or> \<not> (t > MAXTHREADID \<or> c > MAXWRITEVECTOR))"

lemma expandRecord_capacity: "rr_capacity (expandRecord w) = 0 \<longleftrightarrow> READVECTOR w = 0"
  by (simp add: expandRecord_def Let_def INITCAPACITY_def)

lemma outcome_full_read:
  assumes own: "own_action s t a cv" and inv: "race_inv rec" and r: "same_history s l r"
    and H: "history (Full rec) = H"
  defines "R \<equiv> races_with a False l True (racing cv t (snd H))"
  shows "\<exists>rs. set rs = R \<and> fullRaceCheckRead t l rec cv (set_entry r s) =
      (if fst (report rs s) then Some (True, set_entry r (snd (report rs s))) else
       Option.bind (record_read cv t rec) (\<lambda>rec'.
         map_option (\<lambda>r'. (False, set_entry r' (add_races rs s))) (set_shadow l (Full rec') r)))"
    "record_read cv t rec = None \<Longrightarrow> rr_capacity rec = 0"
    "record_read cv t rec = Some rec' \<Longrightarrow> race_inv rec' \<and>
       history (Full rec') = (racing cv t (fst H) \<union> access t (getClock cv t), snd H)"
proof -
  have "own_action (set_entry r s) t a cv" using own by simp
  from full_read [OF this inv, of l] obtain rs where
    rs: "fullRaceCheckRead t l rec cv (set_entry r s) =
      (if fst (report rs (set_entry r s)) then Some (report rs (set_entry r s)) else
       Option.bind (record_read cv t rec) (\<lambda>rec'.
        map_option (\<lambda>r'. (False, set_entry r' (add_races rs (set_entry r s)))) (set_shadow l (Full rec') r)))"
    "set rs = races_with a False l True (racing cv t (snd H))" and n: "record_read cv t rec = None \<longrightarrow> rr_capacity rec = 0"
    and h: "\<forall>rec'. record_read cv t rec = Some rec' \<longrightarrow> race_inv rec' \<and>
       history (Full rec') = (racing cv t (fst H) \<union> access t (getClock cv t), snd H)"
    unfolding H set_entry_simps(4) by (elim exE conjE) (rule that)
  have rep: "report rs (set_entry r s) = (fst (report rs s), set_entry r (snd (report rs s)))"
    by (simp add: report_def)
  show "\<exists>rs. set rs = R \<and> fullRaceCheckRead t l rec cv (set_entry r s) =
      (if fst (report rs s) then Some (True, set_entry r (snd (report rs s))) else
       Option.bind (record_read cv t rec) (\<lambda>rec'.
         map_option (\<lambda>r'. (False, set_entry r' (add_races rs s))) (set_shadow l (Full rec') r)))"
    using rs unfolding rep R_def by (intro exI [of _ rs]) simp
  show "record_read cv t rec = None \<Longrightarrow> rr_capacity rec = 0"
    "record_read cv t rec = Some rec' \<Longrightarrow> race_inv rec' \<and>
       history (Full rec') = (racing cv t (fst H) \<union> access t (getClock cv t), snd H)"
    using n h by blast+
qed

text \<open>What a run of the check of a read in a full record gives, after races \<open>r1\<close> of the short record.\<close>

lemma outcome_read_run:
  assumes R: "set rs = R" and r: "same_history s l r"
    and hist: "\<And>rec'. rr = Some rec' \<Longrightarrow> race_inv rec' \<and> history (Full rec') = H'"
    and run: "(if fst (report rs s) then Some (True, set_entry r (snd (report rs s))) else
       Option.bind rr (\<lambda>rec'. map_option (\<lambda>r'. (False, set_entry r' (add_races rs s))) (set_shadow l (Full rec') r)))
       = res"
  shows "res = None \<Longrightarrow> rr = None" "res = Some (left, s') \<Longrightarrow> race_outcome s left s' l R H'"
proof -
  have al: "entry_alloc l r" using r by (simp add: same_history_def)
  show "rr = None" if "res = None"
  proof (cases rr)
    case (Some rec')
    obtain r' where "set_shadow l (Full rec') r = Some r'" using al by (rule entry_alloc_set)
    with run that Some show ?thesis by (auto split: if_splits)
  qed
  show "race_outcome s left s' l R H'" if res: "res = Some (left, s')"
  proof (cases "fst (report rs s)")
    case True
    from outcome_left [OF True R, of r l H'] r run res True show ?thesis by (auto simp: same_history_def)
  next
    case False
    with run res obtain rec' r' where r': "rr = Some rec'" "set_shadow l (Full rec') r = Some r'"
      "\<not> left" "s' = set_entry r' (add_races rs s)" by (auto simp: bind_eq_Some_conv)
    have "race_outcome s False (set_entry r' (add_races rs s)) l R H'"
      using set_shadow_Some [OF r'(2)] r hist [OF r'(1)]
      by (intro outcome_stays [OF False R]) (auto simp: shadow_ok_def same_entry_def same_history_def)
    with r' show ?thesis by simp
  qed
qed

lemma race_check_read_outcome:
  assumes own: "own_action s t a cv" and ok: "shadow_ok (shadow_of (ex_shadow s) l)"
  defines "H \<equiv> history (shadow_of (ex_shadow s) l)"
  defines "R \<equiv> races_with a False l True (racing cv t (snd H))"
  shows "raceCheckRead t l s = None \<Longrightarrow> \<not> read_fits (shadow_of (ex_shadow s) l) t (getClock cv t)"
    "raceCheckRead t l s = Some (left, s') \<Longrightarrow> race_outcome s left s' l R (spec_read cv t H)"
proof -
  define root where "root = fst (lookupAddressEntry l (ex_shadow s))"
  define s1 where "s1 = set_entry root s"
  have sh: "same_history s l root" by (simp add: root_def same_history_lookup)
  then have al: "entry_alloc l root" by (simp add: same_history_def)
  have own1: "own_action s1 t a cv" using own by (simp add: s1_def)
  have run: "raceCheckRead t l s = (case shadow_of (ex_shadow s) l of
           Full rec \<Rightarrow> fullRaceCheckRead t l rec cv s1
         | Short w \<Rightarrow>
             if t > MAXTHREADID \<or> getClock cv t > MAXWRITEVECTOR
                then unless_left (store_shadow l (Full (expandRecord w)) s1)
                       (fullRaceCheckRead t l (expandRecord w) cv)
                else unless_left (check_race cv t l False (WRITEVECTOR w) (WRTHREADID w) True s1)
                  (\<lambda>s. if clock_may_race cv t (READVECTOR w) (RDTHREADID w)
                       then unless_left (store_shadow l (Full (expandRecord w)) s)
                              (fullRaceCheckRead t l (expandRecord w) cv)
                       else store_shadow l (Short (ENCODEOP t (getClock cv t) (WRTHREADID w) (WRITEVECTOR w))) s))"
    using own_action_cv [OF own1]
    unfolding raceCheckRead_def split_def Let_def root_def s1_def set_entry_def shadow_of_def by simp
  have "(raceCheckRead t l s = None \<longrightarrow> \<not> read_fits (shadow_of (ex_shadow s) l) t (getClock cv t)) \<and>
    (\<forall>left s'. raceCheckRead t l s = Some (left, s') \<longrightarrow> race_outcome s left s' l R (spec_read cv t H))"
  proof (cases "shadow_of (ex_shadow s) l")
    case (Full rec)
    have inv: "race_inv rec" using ok Full by (simp add: shadow_ok_def)
    have ex: "history (Full rec) = H" by (simp add: H_def Full)
    note f = outcome_full_read [OF own inv sh ex, folded R_def]
    obtain rs where rs: "set rs = R" "fullRaceCheckRead t l rec cv s1 =
      (if fst (report rs s) then Some (True, set_entry root (snd (report rs s))) else
       Option.bind (record_read cv t rec) (\<lambda>rec'.
         map_option (\<lambda>r'. (False, set_entry r' (add_races rs s))) (set_shadow l (Full rec') root)))"
      using f(1) unfolding s1_def by blast
    have "raceCheckRead t l s = fullRaceCheckRead t l rec cv s1" using run Full by simp
    note o = outcome_read_run [OF rs(1) sh f(3) rs(2) [symmetric], folded this spec_read_def]
    show ?thesis using o f(2) Full by (auto simp: read_fits_def)
  next
    case (Short w)
    have ex: "history (Full (expandRecord w)) = H" by (simp add: H_def Short history_expand)
    obtain r where r: "set_shadow l (Full (expandRecord w)) root = Some r" "entry_alloc l r"
      using al by (rule entry_alloc_set)
    have shr: "same_history s l r" by (rule same_history_expand [OF sh Short r])
    note f = outcome_full_read [OF own expandRecord_inv shr ex, folded R_def]
    obtain rs where rs: "set rs = R" "fullRaceCheckRead t l (expandRecord w) cv (set_entry r s) =
      (if fst (report rs s) then Some (True, set_entry r (snd (report rs s))) else
       Option.bind (record_read cv t (expandRecord w)) (\<lambda>rec'.
         map_option (\<lambda>r'. (False, set_entry r' (add_races rs s))) (set_shadow l (Full rec') r)))"
      using f(1) by blast
    show ?thesis
    proof (cases "t > MAXTHREADID \<or> getClock cv t > MAXWRITEVECTOR")
      case True
      have "raceCheckRead t l s = fullRaceCheckRead t l (expandRecord w) cv (set_entry r s)"
        using True run r(1) by (simp add: Short unless_left_def store_shadow_entry s1_def)
      note o = outcome_read_run [OF rs(1) shr f(3) rs(2) [symmetric], folded this spec_read_def]
      show ?thesis using o f(2) Short True by (auto simp: read_fits_def expandRecord_capacity)
    next
      case False
      define r1 where "r1 = race_of a False l True cv t (WRTHREADID w) (WRITEVECTOR w)"
      have R1: "set r1 = R" by (simp add: r1_def set_race_of H_def R_def Short history_def)
      have step: "raceCheckRead t l s = (if fst (report r1 s) then Some (True, set_entry root (snd (report r1 s)))
          else if clock_may_race cv t (READVECTOR w) (RDTHREADID w)
               then fullRaceCheckRead t l (expandRecord w) cv (set_entry r (add_races r1 s))
               else store_shadow l (Short (ENCODEOP t (getClock cv t) (WRTHREADID w) (WRITEVECTOR w)))
                      (set_entry root (add_races r1 s)))"
        using run False r(1) check_race_report [OF own1, of l False "WRITEVECTOR w" "WRTHREADID w" True]
        by (simp add: Short r1_def [symmetric] unless_left_report store_shadow_entry s1_def)
          (simp add: report_def unless_left_def)
      show ?thesis
      proof (cases "fst (report r1 s)")
        case True
        from outcome_left [OF True R1, of root l "spec_read cv t H"] sh step True show ?thesis
          by (auto simp: same_history_def)
      next
        case stay: False
        show ?thesis
        proof (cases "clock_may_race cv t (READVECTOR w) (RDTHREADID w)")
          case True
          let ?s = "add_races r1 s"
          have sh2: "same_history ?s l r" using shr by (simp add: same_history_def)
          have own2: "own_action ?s t a cv" using own by simp
          obtain rs2 where rs2: "set rs2 = R" "fullRaceCheckRead t l (expandRecord w) cv (set_entry r ?s) =
            (if fst (report rs2 ?s) then Some (True, set_entry r (snd (report rs2 ?s))) else
             Option.bind (record_read cv t (expandRecord w)) (\<lambda>rec'.
               map_option (\<lambda>r'. (False, set_entry r' (add_races rs2 ?s))) (set_shadow l (Full rec') r)))"
            using outcome_full_read(1) [OF own2 expandRecord_inv sh2 ex, folded R_def] by blast
          have same: "fst (report (r1 @ rs2) s) = fst (report rs2 ?s)" "\<not> fst (report rs2 ?s)"
            using stay R1 rs2(1) by (auto simp: report_def split: if_splits)
          have "(if fst (report (r1 @ rs2) s) then Some (True, set_entry r (snd (report (r1 @ rs2) s))) else
             Option.bind (record_read cv t (expandRecord w)) (\<lambda>rec'.
               map_option (\<lambda>r'. (False, set_entry r' (add_races (r1 @ rs2) s))) (set_shadow l (Full rec') r)))
             = raceCheckRead t l s"
            using step stay True rs2(2) same by simp
          note o = outcome_read_run [OF _ shr f(3) this, folded spec_read_def]
          have "READVECTOR w \<noteq> 0" using True by (auto simp: clock_may_race_def)
          with o [of R] f(2) R1 rs2(1) Short show ?thesis by (auto simp: expandRecord_capacity)
        next
          case keep: False
          let ?v = "Short (ENCODEOP t (getClock cv t) (WRTHREADID w) (WRITEVECTOR w))"
          obtain r' where r': "set_shadow l ?v root = Some r'" using al by (rule entry_alloc_set)
          have "racing cv t (fst H) = {}"
            using keep by (auto simp: H_def Short history_def racing_def access_def clock_may_race_def)
          moreover have "history ?v = (access t (getClock cv t), snd H)"
            using history_short [OF _ _ wr_bounds] False by (simp add: H_def Short history_def)
          ultimately have "race_outcome s False (set_entry r' (add_races r1 s)) l R (spec_read cv t H)"
            using set_shadow_Some [OF r'] sh
            by (intro outcome_stays [OF stay R1])
              (auto simp: spec_read_def shadow_ok_def same_entry_def same_history_def)
          moreover have "raceCheckRead t l s = Some (False, set_entry r' (add_races r1 s))"
            using step stay keep r' by (simp add: store_shadow_entry)
          ultimately show ?thesis by auto
        qed
      qed
    qed
  qed
  then show "raceCheckRead t l s = None \<Longrightarrow> \<not> read_fits (shadow_of (ex_shadow s) l) t (getClock cv t)"
    "raceCheckRead t l s = Some (left, s') \<Longrightarrow> race_outcome s left s' l R (spec_read cv t H)"
    by blast+
qed

subsection \<open>Properties\<close>

text \<open>
  C6: the race checks of plain accesses work on the history of an address, whether it is packed into
  the shadow word or kept in a full record. The races of an access are those with the recorded
  reads (for a write) and the recorded write that the clock of the thread does not cover. If there
  is one and the execution is a feasible prefix, one of them is reported as a bug, after the queued
  races that are real, the queue is emptied, the execution stops, the thread is left and no
  history changes. Otherwise exactly these races are queued and the thread goes on: a write
  replaces the history, a read drops the reads it subsumes and joins the others; nothing else of
  the execution changes, and no other address. The check of a write always returns; that of a
  read does unless it has to enter a full record without arrays.
\<close>

theorem race_checks_refine_history:
  assumes "get_parent_action s t = Some (Some a)" "ma_tid (ex_acts s a) = t" "ma_cv (ex_acts s a) = cv"
    and "shadow_ok (shadow_of (ex_shadow s) l)"
  defines "H \<equiv> history (shadow_of (ex_shadow s) l)"
  shows "(\<exists>left s'. raceCheckWrite t l s = Some (left, s') \<and> race_outcome s left s' l
      (races_with a True l False (racing cv t (fst H)) \<union> races_with a True l True (racing cv t (snd H)))
      (spec_write cv t H)) \<and>
    (case raceCheckRead t l s of
       None \<Rightarrow> \<not> read_fits (shadow_of (ex_shadow s) l) t (getClock cv t)
     | Some (left, s') \<Rightarrow> race_outcome s left s' l
         (races_with a False l True (racing cv t (snd H))) (spec_read cv t H))"
proof -
  have own: "own_action s t a cv" using assms(1-3) by (simp add: own_action_def)
  from race_check_write_outcome [OF this assms(4)] race_check_read_outcome [OF this assms(4)]
  show ?thesis unfolding H_def by (simp split: option.split)
qed

definition sample_raced :: execution where
  "sample_raced = snd (the (raceCheckWrite 1 100 (sample_execution\<lparr>failed_promise := True\<rparr>)))"

text \<open>A read that races with a write, on a feasible prefix and before it is one.\<close>

theorem race_checks_refine_history_witness:
  "\<exists>s' s''. raceCheckRead 2 100 sample_raced = Some (False, s') \<and>
     checked sample_raced s' 100 (races_with 1 False 100 True {(1, 1)}) ({(2, 2)}, {(1, 1)}) \<and>
     raceCheckRead 2 100 (sample_raced\<lparr>failed_promise := False\<rparr>) = Some (True, s'') \<and>
     reported (sample_raced\<lparr>failed_promise := False\<rparr>) s'' (races_with 1 False 100 True {(1, 1)})"
proof -
  let ?f = "sample_raced\<lparr>failed_promise := False\<rparr>"
  have run: "map_option fst (raceCheckRead 2 100 sample_raced) = Some False"
    "map_option fst (raceCheckRead 2 100 ?f) = Some True" by code_simp+
  then obtain s' s'' where s': "raceCheckRead 2 100 sample_raced = Some (False, s')"
    "raceCheckRead 2 100 ?f = Some (True, s'')" by auto
  have h: "get_parent_action sample_raced 2 = Some (Some 1)" "ma_tid (ex_acts sample_raced 1) = 2"
    "ma_cv (ex_acts sample_raced 1) = new_clock_vector None 2 2" "shadow_ok (shadow_of (ex_shadow sample_raced) 100)"
    "get_parent_action ?f 2 = Some (Some 1)" "ma_tid (ex_acts ?f 1) = 2"
    "ma_cv (ex_acts ?f 1) = new_clock_vector None 2 2" "shadow_ok (shadow_of (ex_shadow ?f) 100)"
    by code_simp+
  have f: "isfeasibleprefix ?f" "\<not> isfeasibleprefix sample_raced" by code_simp+
  have c: "history (shadow_of (ex_shadow sample_raced) 100) = ({}, {(1, 1)})"
    "history (shadow_of (ex_shadow ?f) 100) = ({}, {(1, 1)})"
    "racing (new_clock_vector None 2 2) 2 {(1, 1)} = {(1, 1)}"
    "racing (new_clock_vector None 2 2) 2 {} = {}" "access 2 (getClock (new_clock_vector None 2 2) 2) = {(2, 2)}"
    by code_simp+
  have "races_with 1 False 100 True {(1, 1)} \<noteq> {}" by (simp add: races_with_def)
  with race_checks_refine_history [OF h(1-4)] race_checks_refine_history [OF h(5-8)] s' f c show ?thesis
    by (simp add: spec_read_def race_outcome_def)
qed

text \<open>
  C17: \<open>checkDataRaces\<close> decides the queued races only on a feasible prefix: it then reports as bugs, in
  order, exactly those that still race with the current clock vector of their second access, empties
  the queue, and stops the execution if there is one; otherwise it changes nothing.
\<close>

theorem checkDataRaces_realizes:
  "checkDataRaces s = (let rs = filter (still_races s) (unrealizedraces s) in
     if isfeasibleprefix s
     then (rs \<noteq> [], s\<lparr>bugs := bugs s @ map (race_bug s) rs, asserted := (if rs = [] then asserted s else True),
                       unrealizedraces := []\<rparr>)
     else (False, s))"
  by (auto simp: checkDataRaces_def races_loop_spec Let_def)


end

