(* ===== verification/Execution_Release.thy ===== *)
theory Execution_Release
  imports Execution_Order Data_Race
begin

text \<open>
  Synchronization (\<open>execution.cc\<close>, \<open>workqueue.h\<close>): joining clock vectors, release sequences and
  their lazy resolution, fixups at the end of an execution, and the resolution of promises. The
  entries of the work queue are the constructors of \<open>work_entry\<close>.
\<close>

datatype work_entry =
  CheckCurrWorkEntry act_ptr
| CheckRelSeqWorkEntry loc
| MOEdgeWorkEntry act_ptr

subsection \<open>Synchronizing two actions\<close>

definition synchronize :: "act_ptr \<Rightarrow> act_ptr \<Rightarrow> execution \<Rightarrow> (bool \<times> execution) option" where
  "synchronize first second s =
     (if act_less s second first then Some (False, set_bad_synchronization s)
      else do {
        s \<leftarrow> check_promises (ma_tid (ex_acts s first)) (Some (ma_cv (ex_acts s second)))
               (ma_cv (ex_acts s first)) s;
        let (ok, a) = synchronize_with (ex_acts s first) (ex_acts s second);
        Some (ok, s\<lparr>ex_acts := (ex_acts s)(second := a)\<rparr>)
      })"

text \<open>The loop over release heads; the number of successful synchronizations is counted.\<close>

fun synchronize_all :: "act_ptr list \<Rightarrow> act_ptr \<Rightarrow> execution \<Rightarrow> (nat \<times> execution) option" where
  "synchronize_all [] a s = Some (0, s)"
| "synchronize_all (h # hs) a s = do {
     (ok, s) \<leftarrow> synchronize h a s;
     (n, s) \<leftarrow> synchronize_all hs a s;
     Some (if ok then n + 1 else n, s)
   }"

subsection \<open>Heads of release sequences\<close>

text \<open>
  The walk along the chain of RMWs: did an acquire-release RMW end it, the store it stopped at (or
  none, when the chain reads from the future), and the heads found.
\<close>

partial_function (option) chain_loop ::
  "execution \<Rightarrow> act_ptr option \<Rightarrow> act_ptr list \<Rightarrow> (bool \<times> act_ptr option \<times> act_ptr list) option" where
  "chain_loop s rf heads =
     (if rf = None then Some (False, None, heads)
      else let r = ex_acts s (the rf);
               heads' = (if is_release r then heads @ [the rf]
                         else if ma_last_fence_release r \<noteq> None
                         then heads @ [the (ma_last_fence_release r)] else heads)
           in if \<not> is_write r then None
              else if \<not> is_rmw r then Some (False, rf, heads')
              else if is_acquire r \<and> is_release r then Some (True, rf, heads')
              else chain_loop s (ma_reads_from r) heads')"

text \<open>
  The writes of another thread: leave with the result complete, the flag \<open>future_ordered\<close>, the
  writes that may break the sequence, and whether the thread is certain so far.
\<close>

type_synonym seq_state = "bool \<times> bool \<times> act_ptr list \<times> bool"

fun seq_visits :: "execution \<Rightarrow> act_ptr \<Rightarrow> act_ptr \<Rightarrow> act_ptr list \<Rightarrow> seq_state \<Rightarrow> seq_state option" where
  "seq_visits s rf release [] st = Some st"
| "seq_visits s rf release (a # as) st = (
     let (ret, future_ordered, writes, certain) = st; act = ex_acts s a
     in if happens_before act (ex_acts s release) then Some st
        else if happens_before (ex_acts s rf) act
        then seq_visits s rf release as (ret, True, writes, certain)
        else if \<not> is_write act \<or> is_rmw act then seq_visits s rf release as st
        else do {
          after \<leftarrow> checkReachable (mo_graph s) (ActObj rf) (ActObj a);
          if after then seq_visits s rf release as (ret, True, writes, certain)
          else do {
            before \<leftarrow> checkReachable (mo_graph s) (ActObj a) (ActObj release);
            if before then Some st
            else do {
              m1 \<leftarrow> checkReachable (mo_graph s) (ActObj release) (ActObj a);
              m2 \<leftarrow> (if m1 then checkReachable (mo_graph s) (ActObj a) (ActObj rf) else Some False);
              if m2 then Some (True, future_ordered, writes, certain)
              else seq_visits s rf release as (ret, future_ordered, writes @ [a], False)
            }
          }
        })"

definition seq_thread ::
  "execution \<Rightarrow> act_ptr \<Rightarrow> act_ptr \<Rightarrow> nat \<times> act_ptr list \<Rightarrow> act_ptr list \<times> bool \<Rightarrow>
   (bool \<times> act_ptr list \<times> bool) option" where
  "seq_thread s rf release il st = (
     let (i, l) = il; (writes, certain) = st
     in if ma_tid (ex_acts s rf) = i then Some (False, st)
        else do {
          th \<leftarrow> get_thread s i;
          let future_ordered =
            ((case get_last_action s i of
                Some la \<Rightarrow> happens_before (ex_acts s rf) (ex_acts s la) | None \<Rightarrow> False) \<or>
             \<not> is_enabled (ex_sched s) (th_id th) \<or> is_complete th);
          ASSERT (\<not> th_model_thread th \<or> future_ordered);
          (ret, future_ordered, writes, certain) \<leftarrow>
            seq_visits s rf release (rev l) (False, future_ordered, writes, certain);
          Some (ret, writes, if ret then certain else certain \<and> future_ordered)
        })"

text \<open>
  The last release of the writing thread at or before \<open>rf\<close> in its list, unless its fence release
  is more recent.
\<close>

definition own_release :: "execution \<Rightarrow> act_ptr \<Rightarrow> act_ptr list \<Rightarrow> act_ptr option option" where
  "own_release s rf l = do {
     let fence_release = ma_last_fence_release (ex_acts s rf);
     let past = (\<lambda>a. case fence_release of Some f \<Rightarrow> act_less s a f | None \<Rightarrow> False);
     let rit = dropWhile (\<lambda>a. a \<noteq> rf) (rev l);
     ASSERT (rit \<noteq> []);
     let rit = dropWhile (\<lambda>a. \<not> past a \<and> \<not> is_release (ex_acts s a)) rit;
     Some (if rit = [] \<or> past (hd rit) then None else Some (hd rit))
   }"

definition release_seq_heads ::
  "execution \<Rightarrow> act_ptr option \<Rightarrow> release_seq \<Rightarrow> (bool \<times> act_ptr list \<times> release_seq) option" where
  "release_seq_heads s rf pending =
     (if checkForCycles (mo_graph s) then Some (False, [], pending)
      else do {
        (done, rf, heads) \<leftarrow> chain_loop s rf [];
        if done then Some (True, heads, pending)
        else (case rf of
          None \<Rightarrow> Some (False, heads, pending\<lparr>rs_rf := None\<rparr>)
        | Some rf \<Rightarrow>
            if is_release (ex_acts s rf) then Some (True, heads, pending)
            else do {
              let heads = (case ma_last_fence_release (ex_acts s rf) of
                             Some f \<Rightarrow> heads @ [f] | None \<Rightarrow> heads);
              thrd_lists \<leftarrow> obj_thrd_map s (ma_location (ex_acts s rf));
              ASSERT (ma_tid (ex_acts s rf) < length thrd_lists);
              own \<leftarrow> own_release s rf (thrd_lists ! ma_tid (ex_acts s rf));
              (case own of
                 None \<Rightarrow> Some (True, heads, pending)
               | Some release \<Rightarrow> do {
                   ASSERT (same_thread (ex_acts s rf) (ex_acts s release));
                   (ret, writes, certain) \<leftarrow>
                     for_until (seq_thread s rf release) (enumerate 0 thrd_lists) ([], True);
                   Some (if ret then (True, heads, pending\<lparr>rs_writes := writes\<rparr>)
                         else if certain then (True, heads @ [release], pending\<lparr>rs_writes := []\<rparr>)
                         else (False, heads,
                           pending\<lparr>rs_writes := writes, rs_release := Some release, rs_rf := Some rf\<rparr>))
                 })
            })
      })"

definition get_release_seq_heads ::
  "act_ptr \<Rightarrow> act_ptr \<Rightarrow> execution \<Rightarrow> (act_ptr list \<times> execution) option" where
  "get_release_seq_heads acquire read s = do {
     (complete, heads, pending) \<leftarrow> release_seq_heads s (ma_reads_from (ex_acts s read))
        \<lparr>rs_acquire = acquire, rs_read = read, rs_rf = None, rs_release = None, rs_writes = []\<rparr>;
     Some (heads, if complete then s else s\<lparr>pending_rel_seqs := pending_rel_seqs s @ [pending]\<rparr>)
   }"

subsection \<open>Reading from a store\<close>

text \<open>\<open>act->set_read_from(rf)\<close> on the execution, with its bug report.\<close>

definition set_read_from_ex :: "act_ptr \<Rightarrow> act_ptr \<Rightarrow> execution \<Rightarrow> execution" where
  "set_read_from_ex a rf s =
     (let (act, uninit) = set_read_from rf (ex_acts s rf) (ex_acts s a);
          s = s\<lparr>ex_acts := (ex_acts s)(a := act)\<rparr>
      in if uninit
         then snd (assert_bug (Bug_Uninitialized (ma_seq_number act) (ma_tid act) (ma_location act)
                     (get_type_str act) (get_mo_str act)) s)
         else s)"

definition read_from :: "act_ptr \<Rightarrow> act_ptr \<Rightarrow> execution \<Rightarrow> (bool \<times> execution) option" where
  "read_from a rf s = do {
     ASSERT (is_write (ex_acts s rf));
     let s = set_read_from_ex a rf s;
     if is_acquire (ex_acts s a)
     then do {
       (heads, s) \<leftarrow> get_release_seq_heads a a s;
       (num_heads, s) \<leftarrow> synchronize_all heads a s;
       Some (num_heads > 0, s)
     } else Some (False, s)
   }"

subsection \<open>Propagation\<close>

definition propagate_clockvector ::
  "act_ptr \<Rightarrow> work_entry list \<times> execution \<Rightarrow> (work_entry list \<times> execution) option" where
  "propagate_clockvector acquire st = (
     let (work, s) = st
     in do {
       ASSERT (acquire \<in> set (action_trace s));
       for_each (\<lambda>p (work, s).
           if happens_before (ex_acts s acquire) (ex_acts s p)
           then do {
             (ok, s) \<leftarrow> synchronize acquire p s;
             Some (work @ [MOEdgeWorkEntry p], s)
           } else Some (work, s))
         (takeWhile (\<lambda>a. a \<noteq> acquire) (rev (action_trace s)))
         (work @ [CheckRelSeqWorkEntry 0, MOEdgeWorkEntry acquire], s)
     })"

text \<open>
  One pending sequence of \<open>resolve_release_sequences\<close>: whether it is complete, the flag \<open>updated\<close>
  (which stays set for the later sequences), and the sequence as the search left it.
\<close>

fun unsynchronized_heads :: "act_ptr list \<Rightarrow> act_ptr \<Rightarrow> bool \<times> execution \<Rightarrow> (bool \<times> execution) option" where
  "unsynchronized_heads [] acquire st = Some st"
| "unsynchronized_heads (h # hs) acquire (updated, s) =
     (if has_synchronized_with (ex_acts s acquire) (ex_acts s h)
      then unsynchronized_heads hs acquire (updated, s)
      else do {
        (ok, s) \<leftarrow> synchronize h acquire s;
        unsynchronized_heads hs acquire (if ok then True else updated, s)
      })"

fun resolve_loop ::
  "loc \<Rightarrow> release_seq list \<Rightarrow> release_seq list \<Rightarrow> bool \<times> work_entry list \<times> execution \<Rightarrow>
   (bool \<times> work_entry list \<times> execution) option" where
  "resolve_loop l visited [] (updated, work, s) = Some (updated, work, s)"
| "resolve_loop l visited (pending # rest) (updated, work, s) =
     (if l \<noteq> 0 \<and> ma_location (ex_acts s (rs_read pending)) \<noteq> l
      then resolve_loop l (visited @ [pending]) rest (updated, work, s)
      else do {
        (complete, heads, pending) \<leftarrow>
          release_seq_heads s (ma_reads_from (ex_acts s (rs_read pending))) pending;
        let s = s\<lparr>pending_rel_seqs := visited @ pending # rest\<rparr>;
        (updated, s) \<leftarrow> unsynchronized_heads heads (rs_acquire pending) (updated, s);
        (work, s) \<leftarrow> (if updated then propagate_clockvector (rs_acquire pending) (work, s)
                      else Some (work, s));
        if complete
        then resolve_loop l visited rest (updated, work, s\<lparr>pending_rel_seqs := visited @ rest\<rparr>)
        else resolve_loop l (visited @ [pending]) rest (updated, work, s)
      })"

definition resolve_release_sequences ::
  "loc \<Rightarrow> work_entry list \<times> execution \<Rightarrow> (bool \<times> work_entry list \<times> execution) option" where
  "resolve_release_sequences l st = do {
     (updated, work, s) \<leftarrow> resolve_loop l [] (pending_rel_seqs (snd st)) (False, st);
     Some (updated, work, snd (checkDataRaces s))
   }"

subsection \<open>Fixup of pending release sequences\<close>

definition compute_relseq_breakwrites :: "act_ptr \<Rightarrow> execution \<Rightarrow> execution option" where
  "compute_relseq_breakwrites cur s =
     (if pending_rel_seqs s = [] then Some s
      else do {
        (k, n) \<leftarrow> node_of s cur;
        let n = fold (\<lambda>w. add_relseq_break (Some w)) (rs_writes (last (pending_rel_seqs s))) n;
        Some (put_node k (add_relseq_break None n) s)
      })"

definition process_relseq_fixup ::
  "act_ptr \<Rightarrow> work_entry list \<times> execution \<Rightarrow> (work_entry list \<times> execution) option" where
  "process_relseq_fixup cur st = (
     let (work, s) = st
     in do {
       (k, n) \<leftarrow> node_of s cur;
       ASSERT (pending_rel_seqs s \<noteq> []);
       let sequence = last (pending_rel_seqs s);
       let s = s\<lparr>pending_rel_seqs := butlast (pending_rel_seqs s)\<rparr>;
       release \<leftarrow> rs_release sequence;
       rf \<leftarrow> rs_rf sequence;
       ASSERT (same_thread (ex_acts s release) (ex_acts s rf));
       (case get_relseq_break n of
          None \<Rightarrow> do {
            (ok, s) \<leftarrow> synchronize release (rs_acquire sequence) s;
            if \<not> ok then Some (work, s)
            else do {
              (work, s) \<leftarrow> propagate_clockvector (rs_acquire sequence) (work, s);
              Some (work, snd (checkDataRaces s))
            }
          }
        | Some write \<Rightarrow> do {
            (_, s) \<leftarrow> add_edge_ex (ActObj release) (ActObj write) (False, s);
            (_, s) \<leftarrow> add_edge_ex (ActObj write) (ActObj rf) (False, s);
            Some (work, snd (checkDataRaces s))
          })
     })"

subsection \<open>Resolving a promise\<close>

definition resolve_reader ::
  "act_ptr \<Rightarrow> act_ptr \<Rightarrow> work_entry list \<times> execution \<Rightarrow> (work_entry list \<times> execution) option" where
  "resolve_reader write read st = do {
     (sync, s) \<leftarrow> read_from read write (snd st);
     if sync then propagate_clockvector read (fst st, s) else Some (fst st, s)
   }"

definition resolve_promise_ex ::
  "act_ptr \<Rightarrow> promise_ptr \<Rightarrow> work_entry list \<times> execution \<Rightarrow> (bool \<times> work_entry list \<times> execution) option" where
  "resolve_promise_ex write p st = do {
     let rs = readers (ex_proms (snd st) p);
     (work, s) \<leftarrow> for_each (resolve_reader write) rs st;
     ASSERT (is_compatible (ex_acts s) (ex_proms s p) (ex_acts s write));
     same \<leftarrow> same_value (ex_proms s p) (ex_acts s write);
     ASSERT same;
     (ok, g) \<leftarrow> cg_resolvePromise
        (\<lambda>q a. is_compatible (ex_acts s) (ex_proms s q) (ex_acts s a))
        (\<lambda>q a. same_value (ex_proms s q) (ex_acts s a)) p write (mo_graph s);
     let s = s\<lparr>mo_graph := g, hard_failed_promise := hard_failed_promise s \<or> \<not> ok\<rparr>;
     s \<leftarrow> for_each (\<lambda>r. mo_check_promises r True) rs s;
     Some (True, work, s)
   }"

subsection \<open>Lemmas: synchronization\<close>

lemma synchronize_acts:
  assumes "synchronize h a s = Some (ok, s')"
  shows "ok \<longleftrightarrow> \<not> act_less s a h"
    "ex_acts s' = (if ok then (ex_acts s)(a := snd (synchronize_with (ex_acts s h) (ex_acts s a))) else ex_acts s)"
  using assms
  by (auto simp: synchronize_def set_bad_synchronization_def bind_eq_Some_conv split_def act_less_def
      synchronize_with_def check_promises_acts split: if_splits)

lemma synchronize_hb:
  assumes "synchronize h a s = Some (ok, s')" "x \<noteq> a" "0 < ma_seq_number (ex_acts s x)"
  shows "ex_acts s' x = ex_acts s x" "ma_seq_number (ex_acts s' a) = ma_seq_number (ex_acts s a)"
    "happens_before (ex_acts s x) (ex_acts s a) \<Longrightarrow> happens_before (ex_acts s' x) (ex_acts s' a)"
    "x = h \<Longrightarrow> ok \<Longrightarrow> happens_before (ex_acts s h) (ex_acts s h) \<Longrightarrow> happens_before (ex_acts s' h) (ex_acts s' a)"
proof -
  note a = synchronize_acts [OF assms(1)]
  show "ex_acts s' x = ex_acts s x" using a(2) assms(2) by simp
  let ?r = "synchronize_with (ex_acts s h) (ex_acts s a)"
  have ok: "?r = (True, snd ?r)" if ok
    using that a(1) by (simp add: synchronize_with_def act_less_def)
  show "ma_seq_number (ex_acts s' a) = ma_seq_number (ex_acts s a)"
    using a(2) synchronize_with_fields [of "ex_acts s h" "ex_acts s a" "fst ?r" "snd ?r"] by simp
  show "happens_before (ex_acts s' x) (ex_acts s' a)" if "happens_before (ex_acts s x) (ex_acts s a)"
    using that a(2) assms(2) happens_before_synchronize_with [OF ok assms(3)] by auto
  show "happens_before (ex_acts s' h) (ex_acts s' a)"
    if "x = h" ok "happens_before (ex_acts s h) (ex_acts s h)"
    using that a(2) assms(2) happens_before_synchronize_with [OF ok, of "ex_acts s h"] assms(3) by auto
qed

lemma synchronize_all_hb:
  assumes "synchronize_all hs a s = Some (n, s')" "x \<noteq> a" "0 < ma_seq_number (ex_acts s x)"
    "happens_before (ex_acts s x) (ex_acts s a) \<or>
     (x \<in> set hs \<and> happens_before (ex_acts s x) (ex_acts s x) \<and> \<not> act_less s a x)"
  shows "ex_acts s' x = ex_acts s x \<and> happens_before (ex_acts s' x) (ex_acts s' a) \<and>
    (x \<in> set hs \<and> \<not> act_less s a x \<longrightarrow> 0 < n)"
  using assms
proof (induction hs arbitrary: s n)
  case Nil
  then show ?case by simp
next
  case (Cons h hs)
  from Cons.prems(1) obtain ok s1 m where s1: "synchronize h a s = Some (ok, s1)"
    and rest: "synchronize_all hs a s1 = Some (m, s')" and n: "n = (if ok then m + 1 else m)"
    by (auto simp: bind_eq_Some_conv)
  note hb = synchronize_hb [OF s1 Cons.prems(2,3)]
  have less: "act_less s1 a x = act_less s a x" using hb(1,2) by (simp add: act_less_def)
  show ?case
  proof (cases "x = h \<and> \<not> act_less s a h")
    case True
    with synchronize_acts(1) [OF s1] have ok: "ok" by simp
    have "happens_before (ex_acts s1 x) (ex_acts s1 a)"
      using Cons.prems(4) hb(3) hb(4) ok True by metis
    then have "ex_acts s' x = ex_acts s1 x \<and> happens_before (ex_acts s' x) (ex_acts s' a)"
      using Cons.IH [OF rest Cons.prems(2)] Cons.prems(3) hb(1) by auto
    then show ?thesis using n ok hb(1) by auto
  next
    case False
    have "happens_before (ex_acts s1 x) (ex_acts s1 a) \<or>
     (x \<in> set hs \<and> happens_before (ex_acts s1 x) (ex_acts s1 x) \<and> \<not> act_less s1 a x)"
      using Cons.prems(4) False hb(1,3) less by auto
    then have "ex_acts s' x = ex_acts s1 x \<and> happens_before (ex_acts s' x) (ex_acts s' a) \<and>
       (x \<in> set hs \<and> \<not> act_less s1 a x \<longrightarrow> 0 < m)"
      using Cons.IH [OF rest Cons.prems(2)] Cons.prems(3) hb(1) by auto
    then show ?thesis using n hb(1) less False by auto
  qed
qed

text \<open>The stores on the chain of RMWs that a read from \<open>rf\<close> continues, down to an acquire-release RMW.\<close>

inductive on_chain :: "execution \<Rightarrow> act_ptr \<Rightarrow> act_ptr \<Rightarrow> bool" for s where
  chain_start: "on_chain s rf rf"
| chain_step: "is_rmw (ex_acts s rf) \<Longrightarrow> \<not> (is_acquire (ex_acts s rf) \<and> is_release (ex_acts s rf)) \<Longrightarrow>
    ma_reads_from (ex_acts s rf) = Some y \<Longrightarrow> on_chain s y x \<Longrightarrow> on_chain s rf x"

inductive_cases on_chain_elim: "on_chain s rf x"

lemma chain_loop_heads:
  "chain_loop s rf heads = Some (d, r, heads') \<Longrightarrow>
   set heads \<subseteq> set heads' \<and>
   (\<forall>y x. rf = Some y \<and> on_chain s y x \<and> is_release (ex_acts s x) \<longrightarrow> x \<in> set heads')"
proof (induction s rf heads "(d, r, heads')" arbitrary: d r heads' rule: chain_loop.raw_induct [rotated, consumes 1, case_names step])
  case (step loop s rf heads)
  note loop = step(2)
  note IH = step(1)
  show ?case
  proof (cases rf)
    case None
    with loop show ?thesis by (simp split: if_splits)
  next
    case (Some y)
    let ?r = "ex_acts s y"
    define hs where "hs = (if is_release ?r then heads @ [y]
                         else if ma_last_fence_release ?r \<noteq> None
                         then heads @ [the (ma_last_fence_release ?r)] else heads)"
    have sub: "set heads \<subseteq> set hs" "is_release ?r \<Longrightarrow> y \<in> set hs" by (auto simp: hs_def)
    show ?thesis
    proof (cases "is_rmw ?r \<and> \<not> (is_acquire ?r \<and> is_release ?r)")
      case True
      with loop Some have "loop s (ma_reads_from ?r) hs = Some (d, r, heads')"
        by (auto simp: hs_def Let_def split: if_splits)
      note IH' = IH [OF this]
      have "x \<in> set heads'" if "on_chain s y x" "is_release (ex_acts s x)" for x
        using that(1) by cases (use that(2) IH' sub in auto)
      with IH' sub show ?thesis unfolding Some by auto
    next
      case False
      with loop Some have "heads' = hs" by (auto simp: hs_def Let_def split: if_splits)
      have "x \<in> set heads'" if "on_chain s y x" "is_release (ex_acts s x)" for x
        using that(1) by cases (use that(2) False sub \<open>heads' = hs\<close> in auto)
      with sub \<open>heads' = hs\<close> show ?thesis unfolding Some by auto
    qed
  qed
qed


lemma release_seq_heads_chain:
  assumes "release_seq_heads s (Some rf) pending = Some (c, heads, pending')"
    "\<not> checkForCycles (mo_graph s)" "on_chain s rf x" "is_release (ex_acts s x)"
  shows "x \<in> set heads"
proof -
  from assms(1,2) obtain q where q: "chain_loop s (Some rf) [] = Some q"
    by (cases "chain_loop s (Some rf) []") (simp_all add: release_seq_heads_def)
  obtain d r hs where q': "q = (d, r, hs)" by (cases q)
  note loop = q [unfolded q']
  have sub: "set hs \<subseteq> set heads"
  proof (cases "d \<or> r = None")
    case True
    with assms(1,2) show ?thesis by (auto simp: release_seq_heads_def loop split: if_splits)
  next
    case False
    then obtain w where w: "\<not> d" "r = Some w" by auto
    show ?thesis
    proof (cases "is_release (ex_acts s w)")
      case True
      with assms(1,2) w show ?thesis by (simp add: release_seq_heads_def loop)
    next
      case False
      with assms(1,2) w show ?thesis
        unfolding release_seq_heads_def loop Let_def
        by (simp add: bind_eq_Some_conv split: option.splits) (auto split: if_splits)
    qed
  qed
  from chain_loop_heads [OF loop] assms(3,4) sub show ?thesis by blast
qed




lemma set_read_from_ex_frame [simp]:
  "ex_acts (set_read_from_ex a rf s) =
     (ex_acts s)(a := (ex_acts s a)\<lparr>ma_reads_from := Some rf, ma_reads_from_promise := None\<rparr>)"
  "mo_graph (set_read_from_ex a rf s) = mo_graph s"
  by (simp_all add: set_read_from_ex_def set_read_from_def split_def Let_def)

lemma on_chain_cong:
  assumes "on_chain s rf x" "\<And>y. on_chain s rf y \<Longrightarrow> ex_acts t y = ex_acts s y"
  shows "on_chain t rf x"
  using assms
proof (induction rule: on_chain.induct)
  case (chain_start rf)
  show ?case by (rule on_chain.chain_start)
next
  case (chain_step rf y x)
  have "ex_acts t rf = ex_acts s rf" by (rule chain_step.prems [OF on_chain.chain_start])
  moreover have "on_chain t y x"
    by (rule chain_step.IH) (rule chain_step.prems, rule on_chain.chain_step [OF chain_step.hyps(1-3)])
  ultimately show ?case using chain_step.hyps(1-3) on_chain.chain_step by metis
qed

declare chain_loop.simps [code]

subsection \<open>Properties\<close>

text \<open>
  C4: an acquire read synchronizes with every release store of the chain of RMWs it reads from: when
  the modification order is consistent and the store is not newer than the read, \<open>read_from\<close> reports
  synchronization and the store happens before the read afterwards.
\<close>

theorem read_from_synchronizes:
  assumes read: "read_from a rf s = Some (b, s')" and acq: "is_acquire (ex_acts s a)"
    and nocyc: "\<not> checkForCycles (mo_graph s)"
    and chain: "on_chain s rf x" "\<not> on_chain s rf a" and rel: "is_release (ex_acts s x)"
    and clock: "happens_before (ex_acts s x) (ex_acts s x)" "0 < ma_seq_number (ex_acts s x)" "\<not> act_less s a x"
  shows "b \<and> ex_acts s' x = ex_acts s x \<and> happens_before (ex_acts s' x) (ex_acts s' a)"
proof -
  let ?s1 = "set_read_from_ex a rf s"
  have ne: "x \<noteq> a" using chain by auto
  have acq1: "is_acquire (ex_acts ?s1 a)" using acq by (simp add: is_acquire_def)
  from read acq1 obtain heads s2 n where g: "get_release_seq_heads a a ?s1 = Some (heads, s2)"
    and sy: "synchronize_all heads a s2 = Some (n, s')" and b: "b \<longleftrightarrow> n > 0"
    unfolding read_from_def by (auto simp: bind_eq_Some_conv Let_def simp del: set_read_from_ex_frame)
  from g obtain c p p' where h: "release_seq_heads ?s1 (Some rf) p = Some (c, heads, p')" and s2: "ex_acts s2 = ex_acts ?s1"
    unfolding get_release_seq_heads_def by (auto simp: bind_eq_Some_conv)
  have ch: "on_chain ?s1 rf x"
    by (rule on_chain_cong [OF chain(1)]) (use chain(2) in auto)
  have "is_release (ex_acts ?s1 x)" using rel ne by simp
  from release_seq_heads_chain [OF h _ ch this] nocyc have x: "x \<in> set heads" by simp
  have "\<not> act_less s2 a x" using clock(3) ne unfolding act_less_def s2 by simp
  with synchronize_all_hb [OF sy ne] x clock(1,2) ne show ?thesis
    unfolding s2 b by auto
qed

theorem read_from_synchronizes_witness:
  "\<exists>s'. read_from 1 0 sample_execution = Some (True, s') \<and>
     happens_before (ex_acts s' 0) (ex_acts s' 1)"
proof -
  let ?s = sample_execution
  have "map_option fst (read_from 1 0 ?s) = Some True"
    by code_simp
  then obtain s' where s': "read_from 1 0 ?s = Some (True, s')" by auto
  have acq: "is_acquire (ex_acts ?s 1)" and cyc: "\<not> checkForCycles (mo_graph ?s)"
    and rel: "is_release (ex_acts ?s 0)" and hb: "happens_before (ex_acts ?s 0) (ex_acts ?s 0)"
    and seq: "0 < ma_seq_number (ex_acts ?s 0)" and less: "\<not> act_less ?s 1 0"
    and rmw: "\<not> is_rmw (ex_acts ?s 0)"
    by code_simp+
  have "\<not> on_chain ?s 0 1" using rmw by (auto elim: on_chain_elim)
  from read_from_synchronizes [OF s' acq cyc chain_start this rel hb seq less] s' show ?thesis by blast
qed

end
