(* ===== verification/Execution_Conflicts.thy ===== *)
theory Execution_Conflicts
  imports Execution_State
begin

text \<open>
  Where the search has to branch (\<open>execution.cc\<close>): the last action that conflicts with the current
  one, the threads to try in its place (dynamic partial-order reduction with fairness), and which
  sleeping threads the current action wakes up.
\<close>

subsection \<open>Waking sleeping threads\<close>

definition should_wake_up :: "execution \<Rightarrow> act_ptr \<Rightarrow> thread \<Rightarrow> bool option" where
  "should_wake_up s cur thread = (let c = ex_acts s cur in
     if is_rmwr c then Some False
     else do {
       asleep \<leftarrow> th_pending thread;
       let p = ex_acts s asleep;
       if could_synchronize_with p c then Some True
       else if is_fence p \<and> is_acquire p \<and> is_release c then Some True
       else if is_read p \<and> is_acquire p \<and> same_var c p \<and> is_write c
       then (case get_last_fence_release s (ma_tid c) of
               None \<Rightarrow> Some False
             | Some fence_release \<Rightarrow> do {
                 l \<leftarrow> get_last_action s (th_id thread);
                 Some (act_less s l fence_release)
               })
       else Some False
     })"

definition wake_up_sleeping_actions :: "act_ptr \<Rightarrow> execution \<Rightarrow> execution option" where
  "wake_up_sleeping_actions cur s =
     for_each (\<lambda>i s. do {
       thr \<leftarrow> get_thread s i;
       sleeping \<leftarrow> is_sleep_set (ex_sched s) (th_id thr);
       if sleeping
       then do {
         w \<leftarrow> should_wake_up s cur thr;
         Some (if w then s\<lparr>ex_sched := remove_sleep (th_id thr) (ex_sched s)\<rparr> else s)
       } else Some s
     }) [0..<get_num_threads s] s"

subsection \<open>The last conflicting action\<close>

text \<open>
  The backward search for a load-acquire, or a load before an acquire fence: the vectors
  \<open>acquire_fences\<close> and \<open>prior_loads\<close> and the flag \<open>found_acquire_fences\<close>. The result \<open>None\<close> in the
  first component of the result is the early return.
\<close>

type_synonym fence_search = "act_ptr option list \<times> act_ptr option list \<times> bool"

definition fence_visit ::
  "execution \<Rightarrow> model_action \<Rightarrow> act_ptr \<Rightarrow> fence_search \<Rightarrow> (bool \<times> fence_search) option" where
  "fence_visit s act prev st =
     (let (fences, loads, found) = st; p = ex_acts s prev; tid = ma_tid p
      in if same_thread act p then Some (False, st)
         else if is_read p \<and> same_var act p \<and> is_acquire p \<and> \<not> found then Some (True, st)
         else if (is_read p \<and> same_var act p \<and> \<not> is_acquire p \<and> length loads \<le> tid) \<or>
                 (is_acquire p \<and> is_fence p \<and> length fences \<le> tid) then None
         else
           let loads = (if is_read p \<and> same_var act p \<and> \<not> is_acquire p
                        then loads[tid := Some prev] else loads)
           in if is_acquire p \<and> is_fence p \<and> fences ! tid = None
              then Some (False, fences[tid := Some prev], loads, True)
              else Some (False, fences, loads, found))"

fun latest_fence :: "execution \<Rightarrow> (act_ptr option \<times> act_ptr option) list \<Rightarrow> act_ptr option \<Rightarrow> act_ptr option" where
  "latest_fence s [] latest_backtrack = latest_backtrack"
| "latest_fence s ((f, l) # rest) latest_backtrack =
     (case f of
        Some fence \<Rightarrow>
          if l \<noteq> None \<and> (case latest_backtrack of None \<Rightarrow> True | Some b \<Rightarrow> act_less s b fence)
          then latest_fence s rest (Some fence)
          else latest_fence s rest latest_backtrack
      | None \<Rightarrow> latest_fence s rest latest_backtrack)"

definition get_last_fence_conflict :: "execution \<Rightarrow> act_ptr \<Rightarrow> act_ptr option option" where
  "get_last_fence_conflict s a = (let act = ex_acts s a in
     if \<not> is_write act then Some None
     else case (if is_release act then Some a else get_last_fence_release s (ma_tid act)) of
       None \<Rightarrow> Some None
     | Some last_release \<Rightarrow> do {
         let rit = dropWhile (\<lambda>x. x \<noteq> last_release) (rev (action_trace s));
         ASSERT (rit \<noteq> []);
         let n = get_num_threads s;
         (left, fences, loads, found) \<leftarrow>
           for_until (fence_visit s act) rit (replicate n None, replicate n None, False);
         Some (if left then None else latest_fence s (zip fences loads) None)
       })"

definition get_last_conflict :: "execution \<Rightarrow> act_ptr \<Rightarrow> act_ptr option option" where
  "get_last_conflict s a = (
     let act = ex_acts s a; ty = ma_type act;
         search = (\<lambda>P. do { list \<leftarrow> obj_map s (ma_location act);
                            Some (find (\<lambda>x. P x (ex_acts s x)) (rev list)) })
     in if (ty = ATOMIC_FENCE \<and> is_seqcst act) \<or> ty = ATOMIC_READ \<or> ty = ATOMIC_WRITE \<or> ty = ATOMIC_RMW
        then do {
          ret \<leftarrow> search (\<lambda>x prev. x \<noteq> a \<and> could_synchronize_with prev act);
          ret2 \<leftarrow> get_last_fence_conflict s a;
          Some (case ret2 of
                  None \<Rightarrow> ret
                | Some r2 \<Rightarrow> (case ret of None \<Rightarrow> ret2 | Some r \<Rightarrow> if act_less s r r2 then ret2 else ret))
        }
        else if ty = ATOMIC_LOCK \<or> ty = ATOMIC_TRYLOCK
        then search (\<lambda>x prev. is_conflicting_lock act prev)
        else if ty = ATOMIC_UNLOCK
        then search (\<lambda>x prev. \<not> same_thread act prev \<and> is_failed_trylock prev)
        else if ty = ATOMIC_WAIT
        then search (\<lambda>x prev. \<not> same_thread act prev \<and> (is_failed_trylock prev \<or> is_notify prev))
        else if ty = ATOMIC_NOTIFY_ALL \<or> ty = ATOMIC_NOTIFY_ONE
        then search (\<lambda>x prev. \<not> same_thread act prev \<and> is_wait prev)
        else Some None)"

subsection \<open>Backtracking points\<close>

text \<open>Is there an enabled thread among \<open>ts\<close> that the given test prefers?\<close>

fun preferred_loop :: "node \<Rightarrow> (thread_id \<Rightarrow> bool option) \<Rightarrow> thread_id list \<Rightarrow> bool option" where
  "preferred_loop n pref [] = Some False"
| "preferred_loop n pref (t # ts) = do {
     en \<leftarrow> node_is_enabled n t;
     p \<leftarrow> (if en then pref t else Some False);
     if p then Some True else preferred_loop n pref ts
   }"

definition fairness_refuses :: "model_params \<Rightarrow> node \<Rightarrow> thread_id \<Rightarrow> bool option" where
  "fairness_refuses params n tid =
     (if fairwindow params \<noteq> 0
      then do {
        p \<leftarrow> has_priority n tid;
        if p then Some False else preferred_loop n (has_priority n) [0..<nd_num_threads n]
      } else Some False)"

definition yield_refuses :: "model_params \<Rightarrow> node \<Rightarrow> thread_id \<Rightarrow> bool option" where
  "yield_refuses params n tid =
     (if yieldon params then preferred_loop n (has_priority_over n tid) [0..<nd_num_threads n]
      else Some False)"

text \<open>
  One round of the loop for thread \<open>i\<close> at the node with index \<open>k\<close>; the flag says to leave the loop.
\<close>

definition backtrack_visit :: "act_ptr \<Rightarrow> nat \<Rightarrow> thread_id \<Rightarrow> execution \<Rightarrow> (bool \<times> execution) option" where
  "backtrack_visit prev k i s = (let n = node_list (ex_stack s) ! k in
     if i \<ge> nd_num_threads n then Some (True, s)
     else do {
       e \<leftarrow> enabled_status n i;
       if e \<noteq> THREAD_ENABLED then Some (False, s)
       else do {
         explored \<leftarrow> has_been_explored n i;
         if explored then Some (False, s)
         else do {
           f \<leftarrow> fairness_refuses (ex_params s) n i;
           if f then Some (False, s)
           else do {
             y \<leftarrow> yield_refuses (ex_params s) n i;
             if y then Some (False, s)
             else do {
               let s = snd (set_latest_backtrack prev s);
               (marked, n) \<leftarrow> set_backtrack i n;
               Some (False, put_node k n s)
             }
           }
         }
       }
     })"

definition set_backtracking :: "act_ptr \<Rightarrow> execution \<Rightarrow> execution option" where
  "set_backtracking a s = do {
     t \<leftarrow> get_thread_of s a;
     p \<leftarrow> get_last_conflict s a;
     (case p of
        None \<Rightarrow> Some s
      | Some prev \<Rightarrow> do {
          (i, pn) \<leftarrow> node_of s prev;
          n \<leftarrow> parent_of s i;
          e \<leftarrow> enabled_status n (th_id t);
          let tids = (if e = THREAD_ENABLED then [ma_tid (ex_acts s a)] else [0..<get_num_threads s]);
          (left, s) \<leftarrow> for_until (backtrack_visit prev (i - 1)) tids s;
          Some s
        })
   }"

subsection \<open>Lemmas: the marks\<close>

text \<open>
  A thread to try at node \<open>n\<close>: it is enabled and unexplored there, no enabled thread with priority
  is passed over for one without, and no enabled thread is to be preferred after a yield.
\<close>

definition backtrack_candidate :: "model_params \<Rightarrow> node \<Rightarrow> thread_id \<Rightarrow> bool" where
  "backtrack_candidate params n t \<longleftrightarrow> t < nd_num_threads n \<and>
     enabled_status n t = Some THREAD_ENABLED \<and> has_been_explored n t = Some False \<and>
     \<not> (fairwindow params \<noteq> 0 \<and> has_priority n t = Some False \<and>
        (\<exists>u < nd_num_threads n. node_is_enabled n u = Some True \<and> has_priority n u = Some True)) \<and>
     \<not> (yieldon params \<and>
        (\<exists>u < nd_num_threads n. node_is_enabled n u = Some True \<and> has_priority_over n t u = Some True))"

definition node_full :: "model_params \<Rightarrow> node \<Rightarrow> bool" where
  "node_full params n \<longleftrightarrow> node_inv n \<and> nd_enabled_array n \<noteq> None \<and> (yieldon params \<longrightarrow> yield_data n \<noteq> None)"

lemma preferred_loop_spec:
  "\<forall>t \<in> set ts. node_is_enabled n t \<noteq> None \<and> pref t \<noteq> None \<Longrightarrow>
   preferred_loop n pref ts = Some (\<exists>t \<in> set ts. node_is_enabled n t = Some True \<and> pref t = Some True)"
  by (induction ts) auto

lemma node_full_reads:
  assumes "node_full params n" "t < nd_num_threads n"
  shows "node_is_enabled n t \<noteq> None" "enabled_status n t \<noteq> None" "has_been_explored n t \<noteq> None"
    "has_priority n t \<noteq> None" "yieldon params \<Longrightarrow> u < nd_num_threads n \<Longrightarrow> has_priority_over n t u \<noteq> None"
  using assms by (auto simp: node_full_def node_inv_def node_is_enabled_def enabled_status_def
      has_been_explored_def has_priority_def has_priority_over_def get_yield_data_def)

lemma fairness_refuses_spec:
  assumes "node_full params n" "t < nd_num_threads n"
  shows "fairness_refuses params n t = Some (fairwindow params \<noteq> 0 \<and> has_priority n t = Some False \<and>
      (\<exists>u < nd_num_threads n. node_is_enabled n u = Some True \<and> has_priority n u = Some True))"
proof -
  have "preferred_loop n (has_priority n) [0..<nd_num_threads n] =
      Some (\<exists>u < nd_num_threads n. node_is_enabled n u = Some True \<and> has_priority n u = Some True)"
    using node_full_reads [OF assms(1)] by (subst preferred_loop_spec) (auto simp: atLeast0LessThan)
  with node_full_reads(4) [OF assms] show ?thesis by (auto simp: fairness_refuses_def)
qed

lemma yield_refuses_spec:
  assumes "node_full params n" "t < nd_num_threads n"
  shows "yield_refuses params n t = Some (yieldon params \<and>
      (\<exists>u < nd_num_threads n. node_is_enabled n u = Some True \<and> has_priority_over n t u = Some True))"
proof (cases "yieldon params")
  case True
  have "preferred_loop n (has_priority_over n t) [0..<nd_num_threads n] =
      Some (\<exists>u < nd_num_threads n. node_is_enabled n u = Some True \<and> has_priority_over n t u = Some True)"
    using node_full_reads [OF assms(1)] node_full_reads(5) [OF assms True]
    by (subst preferred_loop_spec) (auto simp: atLeast0LessThan)
  with True show ?thesis by (simp add: yield_refuses_def)
qed (simp add: yield_refuses_def)

definition later_of :: "execution \<Rightarrow> act_ptr \<Rightarrow> act_ptr option \<Rightarrow> act_ptr option" where
  "later_of s a b = (case b of None \<Rightarrow> Some a | Some c \<Rightarrow> if act_less s c a then Some a else Some c)"

lemma set_latest_backtrack_later: "snd (set_latest_backtrack a s) = s\<lparr>next_backtrack := later_of s a (next_backtrack s)\<rparr>"
  by (cases "next_backtrack s") (auto simp: set_latest_backtrack_def later_of_def)

lemma later_of_idem [simp]: "later_of s a (later_of s a b) = later_of s a b"
  by (auto simp: later_of_def act_less_def split: option.splits)

text \<open>
  The state after the visits of some threads: the marks are those of \<open>S\<close>, the rest of the node and
  of the execution is unchanged but for the latest backtracking point.
\<close>

definition marks_added :: "thread_id set \<Rightarrow> node \<Rightarrow> node \<Rightarrow> bool" where
  "marks_added S n n' \<longleftrightarrow>
     n' = n\<lparr>backtrack := backtrack n', numBacktracks := int (count_list (backtrack n') True)\<rparr> \<and>
     length (backtrack n') = length (backtrack n) \<and>
     (\<forall>u < length (backtrack n). backtrack n' ! u \<longleftrightarrow> backtrack n ! u \<or> u \<in> S)"

lemma marks_added_same:
  assumes "marks_added S n n'"
  shows "node_full params n \<Longrightarrow> node_full params n'"
    "backtrack_candidate params n' u = backtrack_candidate params n u" "nd_num_threads n' = nd_num_threads n"
proof -
  obtain bt k where n': "n' = n\<lparr>backtrack := bt, numBacktracks := k\<rparr>"
    and bt: "length bt = length (backtrack n)" "k = int (count_list bt True)"
    using assms unfolding marks_added_def by metis
  have reads: "enabled_status n' t = enabled_status n t" "has_been_explored n' t = has_been_explored n t"
    "has_priority n' t = has_priority n t" "node_is_enabled n' t = node_is_enabled n t"
    "has_priority_over n' t u = has_priority_over n t u" "nd_num_threads n' = nd_num_threads n" for t u
    by (simp_all add: n' enabled_status_def has_been_explored_def has_priority_def node_is_enabled_def
        has_priority_over_def get_yield_data_def)
  show "backtrack_candidate params n' u = backtrack_candidate params n u" "nd_num_threads n' = nd_num_threads n"
    by (simp_all add: backtrack_candidate_def reads)
  show "node_full params n \<Longrightarrow> node_full params n'"
    using bt by (simp add: node_full_def node_inv_def n')
qed

lemma marks_added_trans:
  "marks_added S n n1 \<Longrightarrow> marks_added T n1 n2 \<Longrightarrow> marks_added (S \<union> T) n n2"
  unfolding marks_added_def by (cases n; cases n1; cases n2) auto

lemma marks_added_none: "node_full params n \<Longrightarrow> marks_added {} n n"
  by (simp add: marks_added_def node_full_def node_inv_def)

lemma backtrack_visit_spec:
  assumes n: "n = node_list (ex_stack s) ! k" and full: "node_full (ex_params s) n"
  shows "if backtrack_candidate (ex_params s) n i
    then \<exists>n1. marks_added {i} n n1 \<and> backtrack_visit prev k i s =
           Some (False, put_node k n1 (s\<lparr>next_backtrack := later_of s prev (next_backtrack s)\<rparr>))
    else backtrack_visit prev k i s = Some (nd_num_threads n \<le> i, s)"
proof (cases "i < nd_num_threads n")
  case False
  then show ?thesis by (simp add: backtrack_visit_def backtrack_candidate_def n [symmetric])
next
  case True
  note r = node_full_reads [OF full True]
  note f = fairness_refuses_spec [OF full True] yield_refuses_spec [OF full True]
  show ?thesis
  proof (cases "backtrack_candidate (ex_params s) n i")
    case cand: True
    have b: "i < length (backtrack n)" using full True by (simp add: node_full_def node_inv_def)
    have "set_backtrack i n \<noteq> None" using b by (simp add: set_backtrack_def)
    then obtain marked n1 where n1: "set_backtrack i n = Some (marked, n1)" by auto
    have "marks_added {i} n n1"
      using n1 b full count_list_True_update [OF b, of True]
      by (auto simp: set_backtrack_def marks_added_def node_full_def node_inv_def nth_list_update split: if_splits)
    moreover have "backtrack_visit prev k i s =
        Some (False, put_node k n1 (s\<lparr>next_backtrack := later_of s prev (next_backtrack s)\<rparr>))"
    proof -
      have "fairness_refuses (ex_params s) n i = Some False" "yield_refuses (ex_params s) n i = Some False"
        unfolding f using cand by (auto simp: backtrack_candidate_def)
      moreover have "enabled_status n i = Some THREAD_ENABLED" "has_been_explored n i = Some False"
        using cand by (auto simp: backtrack_candidate_def)
      ultimately show ?thesis
        using n1 True by (simp add: backtrack_visit_def n [symmetric] set_latest_backtrack_later)
    qed
    ultimately show ?thesis using cand by auto
  next
    case no: False
    then have "backtrack_visit prev k i s = Some (False, s)"
      using True r f by (auto simp: backtrack_visit_def n [symmetric] backtrack_candidate_def)
    with no True show ?thesis by simp
  qed
qed

lemma put_node_twice [simp]:
  "put_node k n2 ((put_node k n1 s)\<lparr>next_backtrack := b\<rparr>) = put_node k n2 (s\<lparr>next_backtrack := b\<rparr>)"
  by (simp add: put_node_def)

lemma backtrack_visits_spec:
  "sorted ts \<Longrightarrow> k < length (node_list (ex_stack s)) \<Longrightarrow> node_full (ex_params s) (node_list (ex_stack s) ! k) \<Longrightarrow>
   \<exists>left n'. for_until (backtrack_visit prev k) ts s = Some (left, put_node k n' (s\<lparr>next_backtrack :=
       if \<exists>u \<in> set ts. backtrack_candidate (ex_params s) (node_list (ex_stack s) ! k) u
       then later_of s prev (next_backtrack s) else next_backtrack s\<rparr>)) \<and>
     marks_added {u \<in> set ts. backtrack_candidate (ex_params s) (node_list (ex_stack s) ! k) u}
       (node_list (ex_stack s) ! k) n'"
proof (induction ts arbitrary: s)
  case Nil
  have "put_node k (node_list (ex_stack s) ! k) (s\<lparr>next_backtrack := next_backtrack s\<rparr>) = s"
    by (simp add: put_node_def)
  with marks_added_none [OF Nil(3)] show ?case
    by (intro exI [of _ False] exI [of _ "node_list (ex_stack s) ! k"]) simp
next
  case (Cons i ts)
  let ?n = "node_list (ex_stack s) ! k"
  let ?C = "backtrack_candidate (ex_params s) ?n"
  show ?case
  proof (cases "?C i")
    case True
    from backtrack_visit_spec [OF refl Cons.prems(3), of i prev] True obtain n1 where
      n1: "marks_added {i} ?n n1" "backtrack_visit prev k i s =
           Some (False, put_node k n1 (s\<lparr>next_backtrack := later_of s prev (next_backtrack s)\<rparr>))" by auto
    define s1 where "s1 = put_node k n1 (s\<lparr>next_backtrack := later_of s prev (next_backtrack s)\<rparr>)"
    have s1: "node_list (ex_stack s1) ! k = n1" "k < length (node_list (ex_stack s1))" "ex_params s1 = ex_params s"
      "next_backtrack s1 = later_of s prev (next_backtrack s)" "act_less s1 = act_less s"
      using Cons.prems(2) by (simp_all add: s1_def put_node_def act_less_def fun_eq_iff)
    from s1(5) have later: "later_of s1 = later_of s" by (simp only: later_of_def [abs_def])
    note same = marks_added_same [OF n1(1)]
    have "node_full (ex_params s1) (node_list (ex_stack s1) ! k)" using same(1) Cons.prems(3) s1 by simp
    from Cons.IH [OF _ s1(2) this] Cons.prems(1) obtain left n' where
      run: "for_until (backtrack_visit prev k) ts s1 = Some (left, put_node k n' (s1\<lparr>next_backtrack :=
         later_of s prev (next_backtrack s)\<rparr>))" and m: "marks_added {u \<in> set ts. ?C u} n1 n'"
      unfolding s1 same(2) later by (auto split: if_splits)
    have "put_node k n' (s1\<lparr>next_backtrack := later_of s prev (next_backtrack s)\<rparr>) =
        put_node k n' (s\<lparr>next_backtrack := later_of s prev (next_backtrack s)\<rparr>)" by (simp add: s1_def put_node_def)
    moreover have "{i} \<union> {u \<in> set ts. ?C u} = {u \<in> set (i # ts). ?C u}" using True by auto
    ultimately show ?thesis
      using marks_added_trans [OF n1(1) m] run n1(2) True by (intro exI [of _ left] exI [of _ n']) (simp add: s1_def)
  next
    case False
    with backtrack_visit_spec [OF refl Cons.prems(3), of i prev]
    have v: "backtrack_visit prev k i s = Some (nd_num_threads ?n \<le> i, s)" by simp
    have set_eq: "{u \<in> set (i # ts). ?C u} = {u \<in> set ts. ?C u}"
      "(\<exists>u \<in> set (i # ts). ?C u) = (\<exists>u \<in> set ts. ?C u)" using False by auto
    show ?thesis
    proof (cases "nd_num_threads ?n \<le> i")
      case True
      then have none: "\<not> ?C u" if "u \<in> set ts" for u
        using Cons.prems(1) that by (auto simp: backtrack_candidate_def)
      have "put_node k ?n (s\<lparr>next_backtrack := next_backtrack s\<rparr>) = s" by (simp add: put_node_def)
      moreover have "{u \<in> set ts. ?C u} = {}" "\<not> (\<exists>u \<in> set ts. ?C u)" using none by auto
      moreover from this(1) have "marks_added {u \<in> set ts. ?C u} ?n ?n"
        using marks_added_none [OF Cons.prems(3)] by (simp only:)
      ultimately show ?thesis
        unfolding set_eq using v True
        by (intro exI [of _ True] exI [of _ ?n]) simp
    next
      case cont: False
      with Cons.IH [OF _ Cons.prems(2,3)] Cons.prems(1) v show ?thesis unfolding set_eq by simp
    qed
  qed
qed

subsection \<open>Properties\<close>

text \<open>
  C8: when the current action conflicts with an earlier one, \<open>set_backtracking\<close> records every way to
  reorder them that the search may still take: in the node before the earlier action it marks exactly
  the threads to try there (the thread of the current action if it is enabled at that point,
  otherwise every thread) that are enabled, unexplored and not refused by fairness or yields; the
  marks already there stay and are counted. If there is such a thread the latest backtracking
  point becomes the earlier action, unless a later one was recorded; nothing else changes.
\<close>

theorem set_backtracking_marks:
  assumes "get_thread_of s a = Some t" "get_last_conflict s a = Some (Some prev)"
    and "node_of s prev = Some (Suc k, pn)" "n = node_list (ex_stack s) ! k" "node_full (ex_params s) n"
  defines "B \<equiv> {u. backtrack_candidate (ex_params s) n u \<and>
    (if enabled_status n (th_id t) = Some THREAD_ENABLED then u = ma_tid (ex_acts s a) else u < get_num_threads s)}"
  shows "\<exists>n'. set_backtracking a s = Some (put_node k n' (s\<lparr>next_backtrack :=
       if B = {} then next_backtrack s
       else if (case next_backtrack s of None \<Rightarrow> False | Some b \<Rightarrow> \<not> act_less s b prev) then next_backtrack s
       else Some prev\<rparr>)) \<and>
    n' = n\<lparr>backtrack := backtrack n', numBacktracks := int (count_list (backtrack n') True)\<rparr> \<and>
    length (backtrack n') = length (backtrack n) \<and>
    (\<forall>u < length (backtrack n). backtrack n' ! u \<longleftrightarrow> backtrack n ! u \<or> u \<in> B)"
proof -
  define ts where "ts = (if enabled_status n (th_id t) = Some THREAD_ENABLED then [ma_tid (ex_acts s a)]
    else [0..<get_num_threads s])"
  have en: "enabled_status n (th_id t) \<noteq> None"
    using node_full_reads(2) [OF assms(5), of "th_id t"] by (cases "th_id t < nd_num_threads n") (auto simp: enabled_status_def)
  have k: "k < length (node_list (ex_stack s))" using assms(3) by (auto simp: node_of_def split: option.splits if_splits)
  have B: "B = {u \<in> set ts. backtrack_candidate (ex_params s) n u}" by (auto simp: B_def ts_def)
  have Bne: "(\<exists>u \<in> set ts. backtrack_candidate (ex_params s) n u) = (B \<noteq> {})" by (auto simp: B)
  have "sorted ts" by (simp add: ts_def)
  from backtrack_visits_spec [OF this k, of prev] assms(4,5) obtain left n' where
    run: "for_until (backtrack_visit prev k) ts s = Some (left, put_node k n' (s\<lparr>next_backtrack :=
       if B \<noteq> {} then later_of s prev (next_backtrack s) else next_backtrack s\<rparr>))" and m: "marks_added B n n'"
    unfolding assms(4) [symmetric] Bne B [symmetric] by blast
  have "set_backtracking a s = Some (put_node k n' (s\<lparr>next_backtrack :=
       if B \<noteq> {} then later_of s prev (next_backtrack s) else next_backtrack s\<rparr>))"
    using assms(1-3) en run
    by (auto simp: set_backtracking_def parent_of_def assms(4) [symmetric] ts_def split: if_splits)
  also have "(if B \<noteq> {} then later_of s prev (next_backtrack s) else next_backtrack s) =
      (if B = {} then next_backtrack s
       else if (case next_backtrack s of None \<Rightarrow> False | Some b \<Rightarrow> \<not> act_less s b prev) then next_backtrack s
       else Some prev)"
    by (auto simp: later_of_def split: option.splits)
  finally show ?thesis using m unfolding marks_added_def by (intro exI [of _ n']) simp
qed

text \<open>Thread 2 reads what thread 1 stored: at the node before the store thread 2 is to be tried.\<close>

definition sample_conflict :: execution where
  "sample_conflict = (let n = (the (new_node sample_params 5 1 None 3 None))
       \<lparr>nd_enabled_array := Some [THREAD_DISABLED, THREAD_ENABLED, THREAD_ENABLED],
        explored_children := [False, True, False]\<rparr>
     in sample_execution\<lparr>ex_stack := \<lparr>node_list = [n, n, n], head_idx = 2, total_nodes = 4\<rparr>,
       ex_acts := (\<lambda>p. (ex_acts sample_execution p)\<lparr>ma_node := Some (p + 1)\<rparr>)\<rparr>)"

theorem set_backtracking_marks_witness:
  "\<exists>n'. map_option (\<lambda>s. (next_backtrack s, node_list (ex_stack s) ! 0)) (set_backtracking 1 sample_conflict) =
       Some (Some 0, n') \<and> backtrack n' = [False, False, True] \<and> numBacktracks n' = 1"
proof -
  let ?s = sample_conflict
  define n where "n = node_list (ex_stack ?s) ! 0"
  have t0: "map_option th_id (get_thread_of ?s 1) = Some 2" by code_simp
  then obtain t where t: "get_thread_of ?s 1 = Some t" "th_id t = 2" by auto
  have p: "get_last_conflict ?s 1 = Some (Some 0)" by code_simp
  have "map_option fst (node_of ?s 0) = Some (Suc 0)" by code_simp
  then obtain pn where pn: "node_of ?s 0 = Some (Suc 0, pn)" by auto
  have full: "node_full (ex_params ?s) n"
    by (simp add: n_def node_full_def node_inv_def sample_conflict_def new_node_def sample_params_def
        sample_execution_def Let_def numeral_3_eq_3)
  have r: "enabled_status n 2 = Some THREAD_ENABLED" "ma_tid (ex_acts ?s 1) = 2"
    "backtrack_candidate (ex_params ?s) n 2" "next_backtrack ?s = None" "backtrack n = [False, False, False]"
    "length (node_list (ex_stack ?s)) = 3"
    unfolding n_def by code_simp+
  have B: "{u. backtrack_candidate (ex_params ?s) n u \<and>
    (if enabled_status n (th_id t) = Some THREAD_ENABLED then u = ma_tid (ex_acts ?s 1) else u < get_num_threads ?s)} = {2}"
    using r t by auto
  from set_backtracking_marks [OF t(1) p pn n_def full, unfolded B r(4)] obtain n' where
    a: "set_backtracking 1 ?s = Some (put_node 0 n' (?s\<lparr>next_backtrack :=
       if {2 :: thread_id} = {} then None else if (case None of None \<Rightarrow> False | Some b \<Rightarrow> \<not> act_less ?s b 0) then None
       else Some 0\<rparr>))"
    and b: "n' = n\<lparr>backtrack := backtrack n', numBacktracks := int (count_list (backtrack n') True)\<rparr>"
    and c: "length (backtrack n') = length (backtrack n)"
      "\<forall>u < length (backtrack n). backtrack n' ! u \<longleftrightarrow> backtrack n ! u \<or> u \<in> {2}" by blast
  have n': "set_backtracking 1 ?s = Some (put_node 0 n' (?s\<lparr>next_backtrack := Some 0\<rparr>))" using a by simp
  have num: "numBacktracks n' = int (count_list (backtrack n') True)"
    using arg_cong [OF b, of numBacktracks] by simp
  have "backtrack n' = [False, False, True]"
    using c unfolding r(5) by (intro nth_equalityI) (auto simp: less_Suc_eq)
  with n' num r(6) show ?thesis by (simp add: put_node_def)
qed

end
