(* ===== verification/Execution_Step.thy ===== *)
theory Execution_Step
  imports Execution_Release Execution_Conflicts
begin

text \<open>
  One step of an execution (\<open>execution.cc\<close>): the initialization of the current action, the
  processing of reads, writes, fences, mutex operations and thread operations, the work queue of
  \<open>check_current_action\<close>, and \<open>take_step\<close>.

  The loop over the work queue, the retries of a read and the fixup loop are \<open>partial_function\<close>s:
  not returning is \<open>None\<close>.
\<close>

subsection \<open>Reads\<close>

definition promise_value :: "execution \<Rightarrow> promise_ptr \<Rightarrow> u64" where
  "promise_value s p = fv_value (fv (ex_proms s p))"

text \<open>\<open>get_thread(curr)->set_return_value(v)\<close>.\<close>

definition set_return_ex :: "act_ptr \<Rightarrow> u64 \<Rightarrow> execution \<Rightarrow> execution option" where
  "set_return_ex cur v s = do {
     t \<leftarrow> get_thread_of s cur;
     Some (put_thread (set_return_value v t) s)
   }"

definition start_ex :: "execution \<Rightarrow> execution option" where
  "start_ex s = do { g \<leftarrow> startChanges (mo_graph s); Some (s\<lparr>mo_graph := g\<rparr>) }"

definition commit_ex :: "execution \<Rightarrow> execution" where
  "commit_ex s = s\<lparr>mo_graph := commitChanges (mo_graph s)\<rparr>"

definition rollback_ex :: "execution \<Rightarrow> execution" where
  "rollback_ex s = s\<lparr>mo_graph := rollbackChanges (mo_graph s)\<rparr>"

text \<open>
  The cases of the read loop. The first component of a result says to try again with the next choice
  of the node, the second is \<open>updated\<close>.
\<close>

definition read_past :: "act_ptr \<Rightarrow> execution \<Rightarrow> (bool \<times> bool \<times> execution) option" where
  "read_past cur s = do {
     (k, n) \<leftarrow> node_of s cur;
     rf \<leftarrow> get_read_from_past n;
     s \<leftarrow> start_ex s;
     ASSERT (\<not> is_infeasible s);
     recent \<leftarrow> check_recency s cur (ActObj rf);
     let (again, n) = (if recent then (False, n) else increment_read_from n);
     let s = put_node k n s;
     if again then Some (True, False, rollback_ex s)
     else do {
       let s = (if recent then s else s\<lparr>too_many_reads := True\<rparr>);
       (updated, s) \<leftarrow> r_modification_order cur (ActObj rf) s;
       (_, s) \<leftarrow> read_from cur rf s;
       s \<leftarrow> mo_check_promises cur True (commit_ex s);
       Some (False, updated, s)
     }
   }"

definition read_promise :: "act_ptr \<Rightarrow> execution \<Rightarrow> (bool \<times> bool \<times> execution) option" where
  "read_promise cur s = do {
     (k, n) \<leftarrow> node_of s cur;
     q \<leftarrow> get_read_from_promise (ex_acts s) n;
     p \<leftarrow> q;
     let (failed, pr) = add_reader cur (ma_tid (ex_acts s cur)) (ex_proms s p);
     let s = upd_prom p pr s;
     let s = (if failed then s\<lparr>failed_promise := True\<rparr> else s);
     act \<leftarrow> set_read_from_promise p (ex_acts s cur);
     s \<leftarrow> start_ex (s\<lparr>ex_acts := (ex_acts s)(cur := act)\<rparr>);
     recent \<leftarrow> check_recency s cur (PromObj p);
     let s = (if recent then s else s\<lparr>too_many_reads := True\<rparr>);
     (updated, s) \<leftarrow> r_modification_order cur (PromObj p) s;
     Some (False, updated, commit_ex s)
   }"

definition read_future :: "act_ptr \<Rightarrow> execution \<Rightarrow> (bool \<times> bool \<times> execution) option" where
  "read_future cur s = do {
     (k, n) \<leftarrow> node_of s cur;
     f \<leftarrow> get_future_value n;
     let p = ex_next_prom s;
     let s = upd_prom p (new_promise cur (ma_tid (ex_acts s cur)) f) (s\<lparr>ex_next_prom := p + 1\<rparr>);
     act \<leftarrow> set_read_from_promise p (ex_acts s cur);
     let s = s\<lparr>ex_acts := (ex_acts s)(cur := act), promises := promises s @ [p]\<rparr>;
     s \<leftarrow> start_ex s;
     (updated, s) \<leftarrow> r_modification_order cur (PromObj p) s;
     Some (False, updated, commit_ex s)
   }"

definition read_choice :: "act_ptr \<Rightarrow> execution \<Rightarrow> (bool \<times> bool \<times> execution) option" where
  "read_choice cur s = do {
     (k, n) \<leftarrow> node_of s cur;
     let (st, n) = get_read_from_status n;
     let s = put_node k n s;
     (case st of
        READ_FROM_PAST \<Rightarrow> read_past cur s
      | READ_FROM_PROMISE \<Rightarrow> read_promise cur s
      | READ_FROM_FUTURE \<Rightarrow> read_future cur s
      | READ_FROM_NONE \<Rightarrow> None)
   }"

partial_function (option) read_loop :: "act_ptr \<Rightarrow> execution \<Rightarrow> (bool \<times> execution) option" where
  "read_loop cur s = Option.bind (read_choice cur s)
     (\<lambda>r. if fst r then read_loop cur (snd (snd r)) else Some (snd r))"

declare read_loop.simps [code]

definition process_read :: "act_ptr \<Rightarrow> execution \<Rightarrow> (bool \<times> execution) option" where
  "process_read cur s = do {
     (updated, s) \<leftarrow> read_loop cur s;
     v \<leftarrow> get_return_value (ex_acts s) (promise_value s) (ex_acts s cur);
     s \<leftarrow> set_return_ex cur v s;
     Some (updated, s)
   }"

subsection \<open>Writes\<close>

definition send_future :: "act_ptr \<Rightarrow> act_ptr option \<Rightarrow> act_ptr \<Rightarrow> execution \<Rightarrow> execution option" where
  "send_future cur earliest_promise_reader read s =
     (if (case earliest_promise_reader of None \<Rightarrow> True | Some r \<Rightarrow> act_less s read r)
      then do {
        allow \<leftarrow> promises_may_allow s cur read;
        if allow then add_future_value_ex cur read s
        else Some (s\<lparr>futurevalues := futurevalues s @ [\<lparr>pfv_writer = cur, pfv_reader = read\<rparr>]\<rparr>)
      } else Some s)"

text \<open>The pending future values, from the last to the first; the index is the one erased.\<close>

definition retry_future :: "nat \<Rightarrow> execution \<Rightarrow> execution option" where
  "retry_future i s = do {
     let v = futurevalues s ! i;
     allow \<leftarrow> promises_may_allow s (pfv_writer v) (pfv_reader v);
     if allow
     then do {
       s \<leftarrow> add_future_value_ex (pfv_writer v) (pfv_reader v) s;
       Some (s\<lparr>futurevalues := take i (futurevalues s) @ drop (Suc i) (futurevalues s)\<rparr>)
     } else Some s
   }"

definition process_write ::
  "act_ptr \<Rightarrow> work_entry list \<times> execution \<Rightarrow> (bool \<times> work_entry list \<times> execution) option" where
  "process_write cur st = do {
     let (work, s) = st;
     (send_fv, updated_mod_order, s) \<leftarrow> w_modification_order cur (Some []) s;
     (promise, s) \<leftarrow> pop_promise_to_resolve cur s;
     (earliest, updated_promises, work, s) \<leftarrow>
       (case promise of
          Some p \<Rightarrow> do {
            let earliest = get_reader (ex_proms s p) 0;
            (r, work, s) \<leftarrow> resolve_promise_ex cur p (work, s);
            Some (earliest, r, work, s)
          }
        | None \<Rightarrow> Some (None, False, work, s));
     s \<leftarrow> for_each (send_future cur earliest) (case send_fv of Some fvs \<Rightarrow> fvs | None \<Rightarrow> []) s;
     s \<leftarrow> for_each retry_future (rev [0..<length (futurevalues s)]) s;
     s \<leftarrow> mo_check_promises cur False (commit_ex s);
     s \<leftarrow> set_return_ex cur VALUE_NONE s;
     Some (updated_mod_order \<or> updated_promises, work, s)
   }"

subsection \<open>Fences\<close>

definition fence_read :: "act_ptr \<Rightarrow> act_ptr \<Rightarrow> bool \<times> execution \<Rightarrow> (bool \<times> bool \<times> execution) option" where
  "fence_read cur a st = (
     let (updated, s) = st; act = ex_acts s a
     in if a = cur then Some (False, st)
        else if ma_tid act \<noteq> ma_tid (ex_acts s cur) then Some (False, st)
        else if is_thread_start act then Some (True, st)
        else if is_fence act \<and> is_acquire act then Some (True, st)
        else if \<not> is_read act then Some (False, st)
        else if is_acquire act then Some (False, st)
        else do {
          (heads, s) \<leftarrow> get_release_seq_heads cur a s;
          (n, s) \<leftarrow> synchronize_all heads cur s;
          Some (False, updated \<or> length heads \<noteq> 0, s)
        })"

definition process_fence :: "act_ptr \<Rightarrow> execution \<Rightarrow> (bool \<times> execution) option" where
  "process_fence cur s =
     (if is_acquire (ex_acts s cur)
      then do {
        (left, st) \<leftarrow> for_until (fence_read cur) (rev (action_trace s)) (False, s);
        Some st
      } else Some (False, s))"

subsection \<open>Mutexes and condition variables\<close>

definition set_locked :: "loc \<Rightarrow> thread_id option \<Rightarrow> execution \<Rightarrow> execution" where
  "set_locked m t s = s\<lparr>ex_mutexes := (ex_mutexes s)(m := (ex_mutexes s m)\<lparr>locked := t\<rparr>)\<rparr>"

definition process_lock :: "act_ptr \<Rightarrow> loc \<Rightarrow> execution \<Rightarrow> (bool \<times> execution) option" where
  "process_lock cur m s = do {
     let state = ex_mutexes s m;
     let s = (if getClock (ma_cv (ex_acts s cur)) (alloc_tid state) \<le> alloc_clock state
              then snd (assert_bug (Bug_Text ''Lock access before initialization'') s) else s);
     t \<leftarrow> get_thread_of s cur;
     let s = set_locked m (Some (th_id t)) s;
     unlock \<leftarrow> get_last_unlock s cur;
     (case unlock of
        Some u \<Rightarrow> do { (ok, s) \<leftarrow> synchronize u cur s; Some (True, s) }
      | None \<Rightarrow> Some (False, s))
   }"

text \<open>Wakes the threads whose next action is a lock that waits for thread \<open>t\<close>.\<close>

definition wake_lockers :: "thread_id \<Rightarrow> execution \<Rightarrow> execution option" where
  "wake_lockers ct s =
     for_each (\<lambda>i s. do {
       t \<leftarrow> get_thread s i;
       if waiting_on (thread_env_of s) i = Some ct \<and>
          (case th_pending t of Some a \<Rightarrow> is_lock (ex_acts s a) | None \<Rightarrow> False)
       then sched_wake_ex t s else Some s
     }) [0..<get_num_threads s] s"

definition waiters_of :: "execution \<Rightarrow> loc \<Rightarrow> act_ptr list" where
  "waiters_of s l = fst (get_safe_ptr_action (condvar_waiters_map s) l)"

definition process_mutex :: "act_ptr \<Rightarrow> execution \<Rightarrow> (bool \<times> execution) option" where
  "process_mutex cur s = (
     let c = ex_acts s cur; l = ma_location c
     in case ma_type c of
          ATOMIC_TRYLOCK \<Rightarrow> do {
            m \<leftarrow> get_mutex c;
            let success = (locked (ex_mutexes s m) = None);
            let s = upd_act cur (set_try_lock success) s;
            if \<not> success then do { s \<leftarrow> set_return_ex cur 0 s; Some (False, s) }
            else do { s \<leftarrow> set_return_ex cur 1 s; process_lock cur m s }
          }
        | ATOMIC_LOCK \<Rightarrow> do { m \<leftarrow> get_mutex c; process_lock cur m s }
        | ATOMIC_UNLOCK \<Rightarrow> do {
            m \<leftarrow> get_mutex c;
            t \<leftarrow> get_thread_of s cur;
            s \<leftarrow> wake_lockers (th_id t) s;
            Some (False, set_locked m None s)
          }
        | ATOMIC_WAIT \<Rightarrow> do {
            m \<leftarrow> get_mutex c;
            t \<leftarrow> get_thread_of s cur;
            s \<leftarrow> wake_lockers (th_id t) s;
            let s = set_locked m None s;
            (k, n) \<leftarrow> node_of s cur;
            if misc_index n = 0
            then do {
              let s = s\<lparr>condvar_waiters_map := (condvar_waiters_map s)(l \<mapsto> waiters_of s l @ [cur])\<rparr>;
              t \<leftarrow> get_thread_of s cur;
              s \<leftarrow> sched_sleep_ex t s;
              Some (False, s)
            } else Some (False, s)
          }
        | ATOMIC_NOTIFY_ALL \<Rightarrow> do {
            s \<leftarrow> for_each (\<lambda>a s. do { t \<leftarrow> get_thread_of s a; sched_wake_ex t s }) (waiters_of s l) s;
            Some (False, s\<lparr>condvar_waiters_map := (condvar_waiters_map s)(l \<mapsto> [])\<rparr>)
          }
        | ATOMIC_NOTIFY_ONE \<Rightarrow> do {
            let waiters = waiters_of s l;
            (k, n) \<leftarrow> node_of s cur;
            let i = nat (misc_index n);
            ASSERT (i < length waiters);
            t \<leftarrow> get_thread_of s (waiters ! i);
            s \<leftarrow> sched_wake_ex t s;
            Some (False, s\<lparr>condvar_waiters_map :=
              (condvar_waiters_map s)(l \<mapsto> take i waiters @ drop (Suc i) waiters)\<rparr>)
          }
        | _ \<Rightarrow> None)"

subsection \<open>Thread operations\<close>

definition create_thread :: "act_ptr \<Rightarrow> execution \<Rightarrow> execution option" where
  "create_thread cur s = do {
     let (tid, s) = get_next_id s;
     let th = set_creation cur (new_thread tid (map_option th_id (get_thread_of s cur)));
     s \<leftarrow> add_thread_ex th (s\<lparr>ex_priv_of := (ex_priv_of s)(ma_location (ex_acts s cur) \<mapsto> tid)\<rparr>);
     Some (fold (\<lambda>p s. if thread_is_available (ex_proms s p) (ma_tid (ex_acts s cur))
                       then upd_prom p (add_thread tid (ex_proms s p)) s else s) (promises s) s)
   }"

definition wake_joiners :: "thread_id \<Rightarrow> execution \<Rightarrow> execution option" where
  "wake_joiners tid s =
     for_each (\<lambda>i s. do {
       waiting \<leftarrow> get_thread s i;
       if waiting_on (thread_env_of s) i = Some tid \<and>
          (case th_pending waiting of Some a \<Rightarrow> is_thread_join (ex_acts s a) | None \<Rightarrow> False)
       then sched_wake_ex waiting s else Some s
     }) [0..<get_num_threads s] s"

definition finish_thread :: "act_ptr \<Rightarrow> execution \<Rightarrow> execution option" where
  "finish_thread cur s = do {
     th \<leftarrow> get_thread_of s cur;
     s \<leftarrow> wake_joiners (th_id th) s;
     th \<leftarrow> get_thread_of s cur;
     th \<leftarrow> complete th;
     Some (fold (\<lambda>p s. if thread_is_available (ex_proms s p) (th_id th)
                       then let (failed, s) = eliminate_ex p (th_id th) s
                            in if failed then s\<lparr>failed_promise := True\<rparr> else s
                       else s) (promises s) (put_thread th s))
   }"

definition process_thread_action :: "act_ptr \<Rightarrow> execution \<Rightarrow> (bool \<times> execution) option" where
  "process_thread_action cur s = (
     let c = ex_acts s cur
     in case ma_type c of
          THREAD_CREATE \<Rightarrow> do { s \<leftarrow> create_thread cur s; Some (False, s) }
        | THREAD_JOIN \<Rightarrow> do {
            blocking \<leftarrow> get_thread_operand (thread_env_of s) c;
            a \<leftarrow> get_last_action s blocking;
            (ok, s) \<leftarrow> synchronize a cur s;
            Some (True, s)
          }
        | THREAD_FINISH \<Rightarrow> do { s \<leftarrow> finish_thread cur s; Some (True, s) }
        | THREAD_START \<Rightarrow> do { s \<leftarrow> check_promises (ma_tid c) None (ma_cv c) s; Some (False, s) }
        | _ \<Rightarrow> Some (False, s))"

subsection \<open>Initializing the current action\<close>

definition process_rmw_ex :: "act_ptr \<Rightarrow> execution \<Rightarrow> (act_ptr \<times> execution) option" where
  "process_rmw_ex a s = do {
     lastread \<leftarrow> get_last_action s (ma_tid (ex_acts s a));
     let s = upd_act lastread (process_rmw (ex_acts s a)) s;
     if is_rmw (ex_acts s a)
     then do {
       from \<leftarrow> (case ma_reads_from (ex_acts s lastread) of
                  Some w \<Rightarrow> Some (ActObj w)
                | None \<Rightarrow> map_option PromObj (ma_reads_from_promise (ex_acts s lastread)));
       g \<leftarrow> addRMWEdge from lastread (mo_graph s);
       Some (lastread, commit_ex (s\<lparr>mo_graph := g\<rparr>))
     } else Some (lastread, s)
   }"

definition compute_cv :: "act_ptr \<Rightarrow> execution \<Rightarrow> execution option" where
  "compute_cv a s = do {
     p \<leftarrow> get_parent_action s (ma_tid (ex_acts s a));
     Some (upd_act a (create_cv (map_option (ex_acts s) p)) s)
   }"

text \<open>The one-time actions for a new action on the node stack.\<close>

definition new_choices :: "act_ptr \<Rightarrow> execution \<Rightarrow> execution option" where
  "new_choices a s = (
     let act = ex_acts s a
     in if is_write act then compute_promises a s
        else if is_relseq_fixup act then compute_relseq_breakwrites a s
        else if is_wait act then do { (k, n) \<leftarrow> node_of s a; Some (put_node k (set_misc_max 2 n) s) }
        else if is_notify_one act
        then do {
          (k, n) \<leftarrow> node_of s a;
          let (ws, m) = get_safe_ptr_action (condvar_waiters_map s) (ma_location act);
          Some (put_node k (set_misc_max (int (length ws)) n) (s\<lparr>condvar_waiters_map := m\<rparr>))
        }
        else Some s)"

definition initialize_curr_action :: "act_ptr \<Rightarrow> execution \<Rightarrow> (bool \<times> act_ptr \<times> execution) option" where
  "initialize_curr_action cur s =
     (if is_rmwc (ex_acts s cur) \<or> is_rmw (ex_acts s cur)
      then do {
        (newcurr, s) \<leftarrow> process_rmw_ex cur s;
        s \<leftarrow> (if is_rmw (ex_acts s newcurr) then compute_promises newcurr s else Some s);
        Some (False, newcurr, s)
      }
      else do {
        let (num, s) = get_next_seq_num s;
        c \<leftarrow> set_seq_number num (ex_acts s cur);
        let s = s\<lparr>ex_acts := (ex_acts s)(cur := c)\<rparr>;
        let en = sc_enabled (ex_sched s);
        (found, acts, stack) \<leftarrow> explore_action (ex_params s) (get_num_threads s) cur
            (if en = [] then None else Some en) (ex_acts s, ex_stack s);
        let s = s\<lparr>ex_acts := acts, ex_stack := stack\<rparr>;
        (case found of
           Some newcurr \<Rightarrow> do {
             let s = (if is_rmwr (ex_acts s cur) then upd_act newcurr (copy_typeandorder (ex_acts s cur)) s
                      else s);
             ASSERT (ma_location (ex_acts s cur) = ma_location (ex_acts s newcurr));
             let s = upd_act newcurr (\<lambda>n. copy_from_new n (ex_acts s cur)) s;
             s \<leftarrow> compute_cv newcurr s;
             Some (False, newcurr, s)
           }
         | None \<Rightarrow> do {
             s \<leftarrow> compute_cv cur s;
             let s = upd_act cur (\<lambda>a. a\<lparr>ma_last_fence_release := get_last_fence_release s (ma_tid a)\<rparr>) s;
             s \<leftarrow> new_choices cur s;
             Some (True, cur, s)
           })
      })"

subsection \<open>The work queue\<close>

definition work_check_curr ::
  "bool \<Rightarrow> act_ptr \<Rightarrow> work_entry list \<times> execution \<Rightarrow> (work_entry list \<times> execution) option" where
  "work_check_curr second_part_of_rmw cur st = do {
     let (work, s) = st;
     (update_all, s) \<leftarrow> process_thread_action cur s;
     (update, s) \<leftarrow> (if is_read (ex_acts s cur) \<and> \<not> second_part_of_rmw
                     then process_read cur s else Some (False, s));
     (upd_w, work, s) \<leftarrow> (if is_write (ex_acts s cur) then process_write cur (work, s)
                         else Some (False, work, s));
     (upd_f, s) \<leftarrow> (if is_fence (ex_acts s cur) then process_fence cur s else Some (False, s));
     (upd_m, s) \<leftarrow> (if is_mutex_op (ex_acts s cur) then process_mutex cur s else Some (False, s));
     (work, s) \<leftarrow> (if is_relseq_fixup (ex_acts s cur) then process_relseq_fixup cur (work, s)
                   else Some (work, s));
     Some (if update_all \<or> upd_f \<or> upd_m then work @ [CheckRelSeqWorkEntry 0]
           else if update \<or> upd_w then work @ [CheckRelSeqWorkEntry (ma_location (ex_acts s cur))]
           else work, s)
   }"

definition work_mo_edges ::
  "act_ptr \<Rightarrow> work_entry list \<times> execution \<Rightarrow> (work_entry list \<times> execution) option" where
  "work_mo_edges a st = do {
     let (work, s) = st;
     (updated, s) \<leftarrow>
       (if is_read (ex_acts s a)
        then (case ma_reads_from (ex_acts s a) of
            Some rf \<Rightarrow> do {
              (u, s) \<leftarrow> r_modification_order a (ActObj rf) s;
              last_sc_write \<leftarrow> (if is_seqcst (ex_acts s a) then get_last_seq_cst_write s a else Some None);
              Some (u, case last_sc_write of
                         Some w \<Rightarrow> if happens_before (ex_acts s rf) (ex_acts s w)
                                   then set_bad_sc_read s else s
                       | None \<Rightarrow> s)
            }
          | None \<Rightarrow> (case ma_reads_from_promise (ex_acts s a) of
                Some p \<Rightarrow> r_modification_order a (PromObj p) s
              | None \<Rightarrow> Some (False, s)))
        else Some (False, s));
     (u, s) \<leftarrow> (if is_write (ex_acts s a)
               then do { (fvs, u, s) \<leftarrow> w_modification_order a None s; Some (u, s) }
               else Some (False, s));
     let s = commit_ex s;
     Some (if updated \<or> u then work @ [CheckRelSeqWorkEntry (ma_location (ex_acts s a))] else work, s)
   }"

fun work_step ::
  "bool \<Rightarrow> work_entry \<Rightarrow> work_entry list \<times> execution \<Rightarrow> (work_entry list \<times> execution) option" where
  "work_step second (CheckCurrWorkEntry a) st = work_check_curr second a st"
| "work_step second (CheckRelSeqWorkEntry l) st = do {
     (updated, st) \<leftarrow> resolve_release_sequences l st;
     Some st
   }"
| "work_step second (MOEdgeWorkEntry a) st = work_mo_edges a st"

partial_function (option) work_loop :: "bool \<Rightarrow> work_entry list \<times> execution \<Rightarrow> execution option" where
  "work_loop second st =
     (if fst st = [] \<or> has_asserted (snd st) then Some (snd st)
      else Option.bind (work_step second (hd (fst st)) (tl (fst st), snd st)) (work_loop second))"

declare work_loop.simps [code]

definition update_yield_ex :: "act_ptr \<Rightarrow> execution \<Rightarrow> execution option" where
  "update_yield_ex cur s =
     (if yieldon (ex_params s)
      then do {
        (k, n) \<leftarrow> node_of s cur;
        n \<leftarrow> update_yield (ex_sched s) (ex_acts s (nd_action n)) (parent_of s k) n;
        Some (put_node k n s)
      } else Some s)"

definition check_current_action :: "act_ptr \<Rightarrow> execution \<Rightarrow> (act_ptr \<times> execution) option" where
  "check_current_action cur s = do {
     let second_part_of_rmw = (is_rmwc (ex_acts s cur) \<or> is_rmw (ex_acts s cur));
     (newly_explored, cur, s) \<leftarrow> initialize_curr_action cur s;
     s \<leftarrow> wake_up_sleeping_actions cur s;
     s \<leftarrow> update_yield_ex cur s;
     s \<leftarrow> (if \<not> second_part_of_rmw then add_action_to_lists cur s else Some s);
     s \<leftarrow> (if newly_explored \<and> is_read (ex_acts s cur) then build_may_read_from cur s else Some s);
     s \<leftarrow> work_loop second_part_of_rmw ([CheckCurrWorkEntry cur], s);
     s \<leftarrow> check_curr_backtracking cur s;
     s \<leftarrow> set_backtracking cur s;
     Some (cur, s)
   }"

subsection \<open>Steps\<close>

definition take_step :: "act_ptr \<Rightarrow> execution \<Rightarrow> (thread_id option \<times> execution) option" where
  "take_step cur s = do {
     curr_thrd \<leftarrow> get_thread_of s cur;
     ASSERT (th_state curr_thrd = THREAD_READY);
     (enabled, s) \<leftarrow> check_action_enabled cur s;
     ASSERT enabled;
     (cur, s) \<leftarrow> check_current_action cur s;
     curr_thrd \<leftarrow> get_thread s (th_id curr_thrd);
     let s = (if is_blocked curr_thrd \<or> is_complete curr_thrd then remove_thread_ex (th_id curr_thrd) s
              else s);
     Some (action_select_next_thread s cur, s)
   }"

partial_function (option) fixup_release_sequences :: "execution \<Rightarrow> execution option" where
  "fixup_release_sequences s =
     (if pending_rel_seqs s \<noteq> [] \<and> is_feasible_prefix_ignore_relseq s \<and> haveUnrealizedRaces s
      then Option.bind
        (new_action MODEL_FIXUP_RELSEQ memory_order_seq_cst 0 VALUE_NONE (Some INITIAL_THREAD_ID)
           INITIAL_THREAD_ID)
        (\<lambda>a. Option.bind
           (take_step (ex_next_act s)
              (s\<lparr>ex_acts := (ex_acts s)(ex_next_act s := a), ex_next_act := ex_next_act s + 1\<rparr>))
           (\<lambda>r. fixup_release_sequences (snd r)))
      else Some s)"

declare fixup_release_sequences.simps [code]

subsection \<open>Lemmas: mutexes\<close>

lemma set_return_mutexes: "set_return_ex cur v s = Some s' \<Longrightarrow> ex_mutexes s' = ex_mutexes s"
  by (auto simp: set_return_ex_def put_thread_def bind_eq_Some_conv)

lemma sched_wake_mutexes: "sched_wake_ex t s = Some s' \<Longrightarrow> ex_mutexes s' = ex_mutexes s"
  by (auto simp: sched_wake_ex_def put_thread_def bind_eq_Some_conv)

lemma sched_sleep_mutexes: "sched_sleep_ex t s = Some s' \<Longrightarrow> ex_mutexes s' = ex_mutexes s"
  by (auto simp: sched_sleep_ex_def put_thread_def check_promises_thread_disabled_def Let_def bind_eq_Some_conv)

lemma synchronize_mutexes: "synchronize a b s = Some (ok, s') \<Longrightarrow> ex_mutexes s' = ex_mutexes s"
  by (auto simp: synchronize_def set_bad_synchronization_def split_def Let_def bind_eq_Some_conv
    dest!: check_promises_only only_promises_simps(2) split: if_splits)

lemma wake_lockers_mutexes: 
  assumes "wake_lockers t s = Some s'" shows "ex_mutexes s' = ex_mutexes s"
  using assms unfolding wake_lockers_def
  by (rule for_each_inv [where P = "\<lambda>t. ex_mutexes t = ex_mutexes s"])
    (auto simp: bind_eq_Some_conv dest: sched_wake_mutexes split: if_splits)

lemma process_lock_mutexes:
  assumes "process_lock cur m s = Some (u, s')"
  shows "\<exists>t. get_thread_of s cur = Some t \<and>
    ex_mutexes s' = (ex_mutexes s)(m := (ex_mutexes s m)\<lparr>locked := Some (th_id t)\<rparr>)"
proof -
  define s1 where "s1 = (if getClock (ma_cv (ex_acts s cur)) (alloc_tid (ex_mutexes s m)) \<le> alloc_clock (ex_mutexes s m)
              then snd (assert_bug (Bug_Text ''Lock access before initialization'') s) else s)"
  have s1: "ex_mutexes s1 = ex_mutexes s" "get_thread_of s1 cur = get_thread_of s cur"
    by (auto simp: s1_def assert_bug_def set_assert_def Let_def get_thread_of_def get_thread_def)
  from assms obtain t unlock where t: "get_thread_of s cur = Some t"
    and r: "(case unlock of
        Some u \<Rightarrow> do { (ok, s) \<leftarrow> synchronize u cur (set_locked m (Some (th_id t)) s1); Some (True, s) }
      | None \<Rightarrow> Some (False, set_locked m (Some (th_id t)) s1)) = Some (u, s')"
    unfolding process_lock_def Let_def s1_def [symmetric] by (auto simp: bind_eq_Some_conv s1)
  have "ex_mutexes s' = ex_mutexes (set_locked m (Some (th_id t)) s1)"
    using r by (auto simp: bind_eq_Some_conv dest: synchronize_mutexes split: option.splits)
  with t s1 show ?thesis by (simp add: set_locked_def)
qed

lemma notify_all_mutexes:
  assumes "for_each (\<lambda>a s. do { t \<leftarrow> get_thread_of s a; sched_wake_ex t s }) ws s = Some s'"
  shows "ex_mutexes s' = ex_mutexes s"
  using assms by (rule for_each_inv [where P = "\<lambda>t. ex_mutexes t = ex_mutexes s"])
    (auto simp: bind_eq_Some_conv dest: sched_wake_mutexes)

lemma process_mutex_locks:
  assumes run: "process_mutex cur s = Some (u, s')"
    and th: "get_thread_of s cur = Some t" "th_id t = ma_tid (ex_acts s cur)"
  defines "c \<equiv> ex_acts s cur" and "m \<equiv> the (get_mutex (ex_acts s cur))"
  shows "ex_mutexes s' =
    (if is_lock c \<or> is_trylock c \<and> locked (ex_mutexes s m) = None
     then (ex_mutexes s)(m := (ex_mutexes s m)\<lparr>locked := Some (ma_tid c)\<rparr>)
     else if is_unlock c \<or> is_wait c then (ex_mutexes s)(m := (ex_mutexes s m)\<lparr>locked := None\<rparr>)
     else ex_mutexes s)"
proof (cases "ma_type (ex_acts s cur)")
  case ATOMIC_TRYLOCK
  then have m: "get_mutex (ex_acts s cur) = Some m" by (simp add: m_def get_mutex_def action_class_defs)
  show ?thesis
  proof (cases "locked (ex_mutexes s m) = None")
    case True
    with run ATOMIC_TRYLOCK m obtain s1 where s1: "set_return_ex cur 1 (upd_act cur (set_try_lock True) s) = Some s1"
      "process_lock cur m s1 = Some (u, s')"
      by (auto simp: process_mutex_def Let_def bind_eq_Some_conv)
    have "get_thread_of (upd_act cur (set_try_lock True) s) cur = Some t"
      using th by (auto simp: get_thread_of_def get_thread_def upd_act_def set_try_lock_def split: if_splits)
    with s1(1) have s1': "s1 = put_thread (set_return_value 1 t) (upd_act cur (set_try_lock True) s)"
      by (simp add: set_return_ex_def)
    have "get_thread_of s1 cur = Some (set_return_value 1 t)"
      using th by (cases "ma_tid (ex_acts s cur) < length (thread_map s)")
        (simp_all add: s1' get_thread_of_def get_thread_def put_thread_def upd_act_def set_try_lock_def
          set_return_value_def)
    with process_lock_mutexes [OF s1(2)] th True ATOMIC_TRYLOCK show ?thesis
      by (simp add: c_def action_class_defs s1' put_thread_def upd_act_def set_return_value_def)
  next
    case False
    with run ATOMIC_TRYLOCK m show ?thesis
      by (auto simp: process_mutex_def Let_def bind_eq_Some_conv c_def action_class_defs upd_act_def dest!: set_return_mutexes)
  qed
next
  case ATOMIC_LOCK
  with run have "process_lock cur m s = Some (u, s')"
    by (auto simp: process_mutex_def Let_def m_def get_mutex_def action_class_defs)
  from process_lock_mutexes [OF this] ATOMIC_LOCK th show ?thesis by (simp add: c_def action_class_defs)
next
  case ATOMIC_UNLOCK
  with run show ?thesis
    by (auto simp: process_mutex_def Let_def m_def get_mutex_def action_class_defs c_def set_locked_def bind_eq_Some_conv
      dest!: wake_lockers_mutexes)
next
  case ATOMIC_WAIT
  with run show ?thesis
    by (auto simp: process_mutex_def Let_def m_def get_mutex_def action_class_defs c_def set_locked_def bind_eq_Some_conv
      dest!: wake_lockers_mutexes sched_sleep_mutexes split: if_splits)
next
  case ATOMIC_NOTIFY_ALL
  with run show ?thesis
    by (auto simp: process_mutex_def Let_def action_class_defs c_def bind_eq_Some_conv dest!: notify_all_mutexes)
next
  case ATOMIC_NOTIFY_ONE
  with run show ?thesis
    by (auto simp: process_mutex_def Let_def action_class_defs c_def bind_eq_Some_conv dest!: sched_wake_mutexes split: if_splits)
qed (use run in \<open>simp_all add: process_mutex_def Let_def c_def action_class_defs\<close>)

text \<open>
  C18: the mutex operations are a lock: a \<open>lock\<close>, and a \<open>trylock\<close> of a free mutex, give the mutex to the
  calling thread; a \<open>trylock\<close> of a taken mutex and the notifications change no mutex; an unlock and a
  wait free the mutex. With it, a \<open>lock\<close> is enabled exactly while its mutex is free, so no thread
  ever takes a mutex from another one.
\<close>

theorem mutex_operations_lock:
  assumes "process_mutex cur s = Some (u, s')"
    and "get_thread_of s cur = Some t" and "th_id t = ma_tid (ex_acts s cur)"
  defines "c \<equiv> ex_acts s cur" and "m \<equiv> the (get_mutex (ex_acts s cur))"
  shows "ex_mutexes s' =
      (if is_lock c \<or> is_trylock c \<and> locked (ex_mutexes s m) = None
       then (ex_mutexes s)(m := (ex_mutexes s m)\<lparr>locked := Some (ma_tid c)\<rparr>)
       else if is_unlock c \<or> is_wait c then (ex_mutexes s)(m := (ex_mutexes s m)\<lparr>locked := None\<rparr>)
       else ex_mutexes s) \<and>
    (is_lock c \<longrightarrow> check_action_enabled cur s = Some (locked (ex_mutexes s m) = None, s))"
proof -
  have "is_lock c \<longrightarrow> check_action_enabled cur s = Some (locked (ex_mutexes s m) = None, s)"
    by (auto simp: check_action_enabled_def Let_def c_def m_def get_mutex_def)
  then show ?thesis using process_mutex_locks [OF assms(1-3)] by (simp add: c_def m_def)
qed

text \<open>Thread 2 tries to lock the mutex at 16, which is free.\<close>

definition sample_trylock :: execution where
  "sample_trylock = upd_act 1 (\<lambda>a. a\<lparr>ma_type := ATOMIC_TRYLOCK\<rparr>) sample_execution"

theorem mutex_operations_lock_witness:
  "\<exists>s'. process_mutex 1 sample_trylock = Some (False, s') \<and> locked (ex_mutexes s' 16) = Some 2"
proof -
  have "map_option fst (process_mutex 1 sample_trylock) = Some False" by code_simp
  then obtain s' where s': "process_mutex 1 sample_trylock = Some (False, s')" by auto
  obtain t where t: "get_thread_of sample_trylock 1 = Some t" "th_id t = ma_tid (ex_acts sample_trylock 1)"
  proof -
    have "map_option th_id (get_thread_of sample_trylock 1) = Some (ma_tid (ex_acts sample_trylock 1))" by code_simp
    then show ?thesis using that by auto
  qed
  have "get_mutex (ex_acts sample_trylock 1) = Some 16" "is_trylock (ex_acts sample_trylock 1)"
    "locked (ex_mutexes sample_trylock 16) = None" "ma_tid (ex_acts sample_trylock 1) = 2" by code_simp+
  with mutex_operations_lock [OF s' t] s' show ?thesis by simp
qed

text \<open>
  \<open>notify_one\<close> on a condition variable that nobody waits on fails: the choice of the waiter is 0,
  and the code follows the end iterator of the empty list. \<open>notify_all\<close> has no such precondition.
\<close>

theorem notify_one_without_waiters:
  assumes "waiters_of s (ma_location (ex_acts s cur)) = []"
  shows "(is_notify_one (ex_acts s cur) \<longrightarrow> process_mutex cur s = None) \<and>
    (is_notify (ex_acts s cur) \<and> \<not> is_notify_one (ex_acts s cur) \<longrightarrow> process_mutex cur s \<noteq> None)"
  using assms by (auto simp: process_mutex_def Let_def action_class_defs Let_def split_def bind_eq_None_conv
    split: Option.bind_split)

theorem notify_one_without_waiters_witness:
  "process_mutex 1 (upd_act 1 (\<lambda>a. a\<lparr>ma_type := ATOMIC_NOTIFY_ONE\<rparr>) sample_execution) = None"
proof -
  let ?s = "upd_act 1 (\<lambda>a. a\<lparr>ma_type := ATOMIC_NOTIFY_ONE\<rparr>) sample_execution"
  have "waiters_of ?s (ma_location (ex_acts ?s 1)) = []" "is_notify_one (ex_acts ?s 1)" by code_simp+
  with notify_one_without_waiters [of ?s 1] show ?thesis by simp
qed

end
