(* ===== verification/Model_Checker.thy ===== *)
theory Model_Checker
  imports Execution_Step
begin

text \<open>
  The model checker (class \<open>ModelChecker\<close> of \<open>model.h\<close>, \<open>model.cc\<close>): the replay of a prefix and the
  choice at the point of divergence, the run loop over steps and over executions, and the
  statistics. No trace analysis and no inspection plugin is installed; printing is left out.

  The checked program is a parameter: \<open>user t s\<close> runs thread \<open>t\<close> until it calls \<open>switch_to_master\<close>,
  and returns the action of that call (none when the thread leaves on a bug) and the state. The
  state of an execution is memory that \<open>snapshot_backtrack_before(0)\<close> restores, except the node
  stack and the actions, which are allocated outside the snapshot.
\<close>

record execution_stats =
  num_total :: int
  num_infeasible :: int
  num_buggy_executions :: int
  num_complete :: int
  num_redundant :: int

record checker =
  mc_execution :: execution
  mc_snapshot :: execution
  restart_flag :: bool
  exit_flag :: bool
  execution_number :: int
  diverge :: "act_ptr option"
  earliest_diverge :: "act_ptr option"
  mc_stats :: execution_stats

type_synonym user_program = "thread_id \<Rightarrow> execution \<Rightarrow> (act_ptr option \<times> execution) option"

definition no_stats :: execution_stats where
  "no_stats = \<lparr>num_total = 0, num_infeasible = 0, num_buggy_executions = 0, num_complete = 0,
     num_redundant = 0\<rparr>"

definition new_checker :: "execution \<Rightarrow> checker" where
  "new_checker s = \<lparr>mc_execution = s, mc_snapshot = s, restart_flag = False, exit_flag = False,
     execution_number = 1, diverge = None, earliest_diverge = None, mc_stats = no_stats\<rparr>"

definition upd_ex :: "execution \<Rightarrow> checker \<Rightarrow> checker" where
  "upd_ex s m = m\<lparr>mc_execution := s\<rparr>"

subsection \<open>Restarting executions\<close>

definition snapshot_backtrack :: "execution \<Rightarrow> execution \<Rightarrow> execution" where
  "snapshot_backtrack snap s =
     snap\<lparr>ex_acts := ex_acts s, ex_next_act := ex_next_act s, ex_stack := ex_stack s\<rparr>"

definition reset_to_initial_state :: "checker \<Rightarrow> checker" where
  "reset_to_initial_state m =
     (let s = mc_execution m; s = s\<lparr>ex_stack := reset_execution (ex_stack s)\<rparr>
      in upd_ex (snapshot_backtrack (mc_snapshot m) s) m)"

definition do_restart :: "checker \<Rightarrow> checker" where
  "do_restart m =
     (let m = reset_to_initial_state (m\<lparr>restart_flag := False, diverge := None, earliest_diverge := None\<rparr>);
          s = mc_execution m
      in (upd_ex (s\<lparr>ex_stack := full_reset (ex_stack s)\<rparr>) m)\<lparr>mc_stats := no_stats, execution_number := 1\<rparr>)"

subsection \<open>The choice of the next thread\<close>

definition execute_sleep_set :: "execution \<Rightarrow> execution option" where
  "execute_sleep_set s =
     for_each (\<lambda>i s. do {
       thr \<leftarrow> get_thread s i;
       sleeping \<leftarrow> is_sleep_set (ex_sched s) (th_id thr);
       Some (case th_pending thr of
               Some a \<Rightarrow> if sleeping then upd_act a (\<lambda>a. a\<lparr>ma_sleep_flag := True\<rparr>) s else s
             | None \<Rightarrow> s)
     }) [0..<get_num_threads s] s"

text \<open>
  At the point of divergence: the next action's node takes a new behaviour, or a thread marked for
  backtracking in its parent runs instead.
\<close>

definition at_divergence :: "act_ptr \<Rightarrow> checker \<Rightarrow> (thread_id \<times> checker) option" where
  "at_divergence nxt m = do {
     let s = mc_execution m;
     let m = (if (case earliest_diverge m of None \<Rightarrow> True | Some e \<Rightarrow> act_less s nxt e)
              then m\<lparr>earliest_diverge := Some nxt\<rparr> else m);
     (k, nextnode) \<leftarrow> node_of s nxt;
     prevnode \<leftarrow> parent_of s k;
     en \<leftarrow> nd_enabled_array prevnode;
     sc \<leftarrow> update_sleep_set en (ex_sched s);
     let s = s\<lparr>ex_sched := sc\<rparr>;
     let (more, nextnode) = increment_behaviors nextnode;
     let s = put_node k nextnode s;
     (tid, m, s) \<leftarrow>
       (if more
        then do {
          st \<leftarrow> pop_restofstack 2 (ex_stack s);
          Some (ma_tid (ex_acts s nxt), m, s\<lparr>ex_stack := st\<rparr>)
        }
        else do {
          t \<leftarrow> get_thread_of s nxt;
          let s = s\<lparr>ex_sched := add_sleep (th_id t) (ex_sched s)\<rparr>;
          (tid, prevnode) \<leftarrow> get_next_backtrack prevnode;
          let s = put_node (k - 1) prevnode s;
          st \<leftarrow> pop_restofstack 1 (ex_stack s);
          Some (tid,
                (if diverge m = earliest_diverge m
                 then m\<lparr>earliest_diverge := Some (nd_action prevnode)\<rparr> else m),
                s\<lparr>ex_stack := st\<rparr>)
        });
     s \<leftarrow> execute_sleep_set (s\<lparr>ex_sched := set_scheduler_thread tid (ex_sched s)\<rparr>);
     Some (tid, upd_ex s (m\<lparr>diverge := None\<rparr>))
   }"

definition get_next_thread :: "checker \<Rightarrow> (thread_id option \<times> checker) option" where
  "get_next_thread m = (let s = mc_execution m in case diverge m of
     None \<Rightarrow> do {
       n \<leftarrow> get_head (ex_stack s);
       (t, sc) \<leftarrow> select_next_thread (ex_params s) n (ex_sched s);
       Some (t, upd_ex (s\<lparr>ex_sched := sc\<rparr>) m)
     }
   | Some d \<Rightarrow> do {
       n \<leftarrow> get_next (ex_stack s);
       let nxt = nd_action n;
       (tid, m) \<leftarrow> (if nxt = d then at_divergence nxt m else Some (ma_tid (ex_acts s nxt), m));
       Some (map_option th_id (get_thread (mc_execution m) tid), m)
     })"

subsection \<open>The end of an execution\<close>

definition record_stats :: "execution \<Rightarrow> execution_stats \<Rightarrow> execution_stats option" where
  "record_stats s st = do {
     let st = st\<lparr>num_total := num_total st + 1\<rparr>;
     if \<not> isfeasibleprefix s then Some (st\<lparr>num_infeasible := num_infeasible st + 1\<rparr>)
     else if have_bug_reports s then Some (st\<lparr>num_buggy_executions := num_buggy_executions st + 1\<rparr>)
     else do {
       c \<leftarrow> is_complete_execution s;
       Some (if c then st\<lparr>num_complete := num_complete st + 1\<rparr>
             else st\<lparr>num_redundant := num_redundant st + 1\<rparr>)
     }
   }"

definition final_checks :: "execution \<Rightarrow> execution option" where
  "final_checks s = do {
     d \<leftarrow> is_deadlocked s;
     let s = (if d then snd (assert_bug (Bug_Text ''Deadlock detected'') s) else s);
     Some (snd (checkDataRaces s))
   }"

definition worth_checking :: "execution \<Rightarrow> bool option" where
  "worth_checking s =
     (if isfeasibleprefix s
      then do { c \<leftarrow> is_complete_execution s; Some (c \<or> have_bug_reports s) }
      else Some False)"

definition next_execution :: "checker \<Rightarrow> (bool \<times> checker) option" where
  "next_execution m = do {
     complete \<leftarrow> worth_checking (mc_execution m);
     s \<leftarrow> (if complete then final_checks (mc_execution m) else Some (mc_execution m));
     st \<leftarrow> record_stats s (mc_stats m);
     let m = (upd_ex s m)\<lparr>mc_stats := st\<rparr>;
     let m = (if complete then m\<lparr>earliest_diverge := None\<rparr> else m);
     if restart_flag m then Some (True, do_restart m)
     else if exit_flag m then Some (False, m)
     else
       let (d, s) = take_next_backtrack (mc_execution m); m = (upd_ex s m)\<lparr>diverge := d\<rparr>
       in if d = None then Some (False, m)
          else
            let m = m\<lparr>execution_number := execution_number m + 1\<rparr>
            in if maxexecutions (ex_params s) \<noteq> 0 \<and>
                  num_complete (mc_stats m) \<ge> maxexecutions (ex_params s)
               then Some (False, m)
               else Some (True, reset_to_initial_state m)
   }"

definition should_terminate_execution :: "execution \<Rightarrow> bool \<times> execution" where
  "should_terminate_execution s =
     (if is_infeasible s then (True, s)
      else if isfeasibleprefix s \<and> have_bug_reports s then (True, set_assert s)
      else (too_many_steps s, s))"

subsection \<open>The run loop\<close>

text \<open>
  \<open>switch_from_master\<close> up to the return of control by \<open>switch_to_master\<close> in the user thread.
\<close>

definition switch_from_master :: "user_program \<Rightarrow> thread_id \<Rightarrow> execution \<Rightarrow> execution option" where
  "switch_from_master user tid s = do {
     t \<leftarrow> get_thread s tid;
     sc \<leftarrow> set_current_thread (Some t) (ex_sched s);
     t \<leftarrow> swap_in t;
     (act, s) \<leftarrow> user tid (put_thread t (s\<lparr>ex_sched := sc\<rparr>));
     old \<leftarrow> get_thread s tid;
     sc \<leftarrow> set_current_thread None (ex_sched s);
     ASSERT (th_pending old = None);
     old \<leftarrow> swap_out (set_pending act old);
     Some (put_thread old (s\<lparr>ex_sched := sc\<rparr>))
   }"

definition stash_action :: "user_program \<Rightarrow> thread_id \<Rightarrow> execution \<Rightarrow> execution option" where
  "stash_action user i s = do {
     thr \<leftarrow> get_thread s i;
     if \<not> th_model_thread thr \<and> \<not> is_complete thr \<and> th_pending thr = None
     then do {
       s \<leftarrow> switch_from_master user i s;
       w \<leftarrow> is_waiting_on (thread_env_of s) i i;
       Some (if w then snd (assert_bug (Bug_Deadlock i) s) else s)
     } else Some s
   }"

definition disable_thread :: "thread_id \<Rightarrow> execution \<Rightarrow> execution option" where
  "disable_thread i s = do {
     th \<leftarrow> get_thread s i;
     (case th_pending th of
        None \<Rightarrow> Some s
      | Some a \<Rightarrow>
          if is_enabled (ex_sched s) (th_id th)
          then do {
            (en, s) \<leftarrow> check_action_enabled a s;
            if \<not> en then sched_sleep_ex th s else Some s
          } else Some s)
   }"

text \<open>
  One round of the inner loop with the thread chosen so far: whether to leave the loop, the thread
  for the next round.
\<close>

definition run_round :: "user_program \<Rightarrow> thread_id option \<Rightarrow> checker \<Rightarrow> (bool \<times> thread_id option \<times> checker) option" where
  "run_round user t m = do {
     s \<leftarrow> for_each (stash_action user) [0..<get_num_threads (mc_execution m)] (mc_execution m);
     s \<leftarrow> for_each disable_thread [0..<get_num_threads s] s;
     let m = upd_ex s m;
     if has_asserted s then Some (True, None, m)
     else do {
       (t, m) \<leftarrow> (case t of Some t \<Rightarrow> Some (Some t, m) | None \<Rightarrow> get_next_thread m);
       let s = mc_execution m;
       (case t of
          None \<Rightarrow> Some (True, None, m)
        | Some tid \<Rightarrow> do {
            th \<leftarrow> get_thread s tid;
            if th_model_thread th then Some (True, None, m)
            else do {
              cur \<leftarrow> th_pending th;
              (t, s) \<leftarrow> take_step cur (put_thread (set_pending None th) s);
              let (stop, s) = should_terminate_execution s;
              Some (stop, t, upd_ex s m)
            }
          })
     }
   }"

partial_function (option) run_execution :: "user_program \<Rightarrow> thread_id option \<Rightarrow> checker \<Rightarrow> checker option" where
  "run_execution user t m = Option.bind (run_round user t m)
     (\<lambda>r. if fst r then Some (snd (snd r)) else run_execution user (fst (snd r)) (snd (snd r)))"

declare run_execution.simps [code]

definition start_execution :: "checker \<Rightarrow> (thread_id \<times> checker) option" where
  "start_execution m = do {
     let (tid, s) = get_next_id (mc_execution m);
     s \<leftarrow> add_thread_ex (new_thread tid None) s;
     Some (tid, upd_ex s m)
   }"

partial_function (option) run_all :: "user_program \<Rightarrow> checker \<Rightarrow> checker option" where
  "run_all user m = Option.bind (start_execution m)
     (\<lambda>st. Option.bind (run_execution user (Some (fst st)) (snd st))
       (\<lambda>m. Option.bind (next_execution m)
         (\<lambda>r. if fst r then run_all user (snd r) else Some (snd r))))"

declare run_all.simps [code]

definition run :: "user_program \<Rightarrow> checker \<Rightarrow> checker option" where
  "run user m = do {
     m \<leftarrow> run_all user m;
     s \<leftarrow> fixup_release_sequences (mc_execution m);
     Some (upd_ex s m)
   }"

subsection \<open>Statistics and the end of the search\<close>

definition stats_ok :: "execution_stats \<Rightarrow> bool" where
  "stats_ok st \<longleftrightarrow> 0 \<le> num_infeasible st \<and> 0 \<le> num_buggy_executions st \<and> 0 \<le> num_complete st \<and> 0 \<le> num_redundant st \<and>
     num_total st = num_infeasible st + num_buggy_executions st + num_complete st + num_redundant st"

lemma record_stats_ok:
  "record_stats s st = Some st' \<Longrightarrow> stats_ok st \<Longrightarrow> stats_ok st' \<and> num_total st' = num_total st + 1"
  by (auto simp: record_stats_def stats_ok_def Let_def bind_eq_Some_conv split: if_splits)

text \<open>The fields of the checker that an execution leaves alone.\<close>

definition same_search :: "checker \<Rightarrow> checker \<Rightarrow> bool" where
  "same_search m m' \<longleftrightarrow> mc_stats m' = mc_stats m \<and> restart_flag m' = restart_flag m \<and> exit_flag m' = exit_flag m \<and>
     execution_number m' = execution_number m \<and> mc_snapshot m' = mc_snapshot m"

lemma same_search_simps [simp]:
  "same_search m m" "same_search m (upd_ex s m') = same_search m m'"
  "same_search m (m'\<lparr>diverge := d\<rparr>) = same_search m m'"
  "same_search m (m'\<lparr>earliest_diverge := d\<rparr>) = same_search m m'"
  by (simp_all add: same_search_def upd_ex_def)

lemma at_divergence_same: "at_divergence nxt m = Some (t, m') \<Longrightarrow> same_search m m'"
  by (auto simp: at_divergence_def Let_def bind_eq_Some_conv split_def split: if_splits)

lemma get_next_thread_same: "get_next_thread m = Some (t, m') \<Longrightarrow> same_search m m'"
  by (auto simp: get_next_thread_def Let_def bind_eq_Some_conv split: option.splits if_splits dest: at_divergence_same)

lemma choose_same:
  "(case t of Some t \<Rightarrow> Some (Some t, m) | None \<Rightarrow> get_next_thread m) = Some (t1, m1) \<Longrightarrow> same_search m m1"
  by (cases t) (auto dest: get_next_thread_same)

lemma step_chosen_same:
  assumes "(case t of None \<Rightarrow> Some (True, None, m)
     | Some tid \<Rightarrow> do {
         th \<leftarrow> get_thread (mc_execution m) tid;
         if th_model_thread th then Some (True, None, m)
         else do {
           cur \<leftarrow> th_pending th;
           (t, s) \<leftarrow> take_step cur (put_thread (set_pending None th) (mc_execution m));
           let (stop, s) = should_terminate_execution s;
           Some (stop, t, upd_ex s m)
         }
       }) = Some (b, t', m')"
  shows "same_search m m'"
  using assms by (cases t) (auto simp: bind_eq_Some_conv Let_def split_def split: if_splits)

lemma run_round_same:
  assumes "run_round user t m = Some (b, t', m')"
  shows "same_search m m'"
proof -
  define K where "K = (\<lambda>(t :: thread_id option, m). case t of None \<Rightarrow> Some (True, None :: thread_id option, m)
     | Some tid \<Rightarrow> do {
         th \<leftarrow> get_thread (mc_execution m) tid;
         if th_model_thread th then Some (True, None, m)
         else do {
           cur \<leftarrow> th_pending th;
           (t, s) \<leftarrow> take_step cur (put_thread (set_pending None th) (mc_execution m));
           let (stop, s) = should_terminate_execution s;
           Some (stop, t, upd_ex s m)
         }
       })"
  from assms obtain s where s: "(if has_asserted s then Some (True, None, upd_ex s m)
      else Option.bind (case t of Some t \<Rightarrow> Some (Some t, upd_ex s m) | None \<Rightarrow> get_next_thread (upd_ex s m)) K) = Some (b, t', m')"
    unfolding K_def run_round_def Let_def [of "upd_ex _ _"] Let_def [of "mc_execution _"] by (auto simp only: bind_eq_Some_conv [of "for_each _ _ _"])
  show ?thesis
  proof (cases "has_asserted s")
    case False
    with s obtain t1 m1 where c: "(case t of Some t \<Rightarrow> Some (Some t, upd_ex s m) | None \<Rightarrow> get_next_thread (upd_ex s m)) = Some (t1, m1)"
      and r: "K (t1, m1) = Some (b, t', m')" by (auto simp: bind_eq_Some_conv)
    from r have "same_search m1 m'" unfolding K_def prod.case by (rule step_chosen_same)
    with choose_same [OF c] show ?thesis by (simp add: same_search_def upd_ex_def)
  qed (use s in auto)
qed

lemma run_execution_same:
  "run_execution user t m = Some m' \<Longrightarrow> same_search m m'"
proof (induction rule: run_execution.raw_induct [rotated, consumes 1, case_names step])
  case (step rec user t m m')
  then obtain r where r: "run_round user t m = Some r" "(if fst r then Some (snd (snd r)) else rec user (fst (snd r)) (snd (snd r))) = Some m'"
    by (auto simp: bind_eq_Some_conv)
  have "same_search m (snd (snd r))" using run_round_same [of user t m "fst r" "fst (snd r)" "snd (snd r)"] r(1) by simp
  moreover have "same_search (snd (snd r)) m'" using r(2) step.IH by (auto split: if_splits)
  ultimately show ?case by (simp add: same_search_def)
qed

definition limit_reached :: "checker \<Rightarrow> bool" where
  "limit_reached m \<longleftrightarrow> maxexecutions (ex_params (mc_execution m)) \<noteq> 0 \<and>
     num_complete (mc_stats m) \<ge> maxexecutions (ex_params (mc_execution m))"

lemma next_execution_Some:
  assumes run: "next_execution m = Some (again, m')" and ok: "stats_ok (mc_stats m)" "\<not> restart_flag m"
  shows "stats_ok (mc_stats m') \<and> \<not> restart_flag m' \<and> exit_flag m' = exit_flag m \<and>
    num_total (mc_stats m') = num_total (mc_stats m) + 1 \<and>
    (if again then \<not> exit_flag m' \<and> diverge m' \<noteq> None \<and> execution_number m' = execution_number m + 1
     else if exit_flag m' \<or> diverge m' = None then execution_number m' = execution_number m
     else limit_reached m' \<and> execution_number m' = execution_number m + 1)"
proof -
  from run obtain complete s st where
    st: "record_stats s (mc_stats m) = Some st" and
    r: "(let m = (upd_ex s m)\<lparr>mc_stats := st\<rparr>;
             m = (if complete then m\<lparr>earliest_diverge := None\<rparr> else m)
     in if restart_flag m then Some (True, do_restart m)
     else if exit_flag m then Some (False, m)
     else
       let (d, s) = take_next_backtrack (mc_execution m); m = (upd_ex s m)\<lparr>diverge := d\<rparr>
       in if d = None then Some (False, m)
          else
            let m = m\<lparr>execution_number := execution_number m + 1\<rparr>
            in if maxexecutions (ex_params s) \<noteq> 0 \<and>
                  num_complete (mc_stats m) \<ge> maxexecutions (ex_params s)
               then Some (False, m)
               else Some (True, reset_to_initial_state m)) = Some (again, m')"
    unfolding next_execution_def bind_eq_Some_conv Let_def by blast
  from record_stats_ok [OF st ok(1)] r ok(2) show ?thesis
    by (auto simp: Let_def split_def upd_ex_def take_next_backtrack_def reset_to_initial_state_def limit_reached_def
      split: if_splits)
qed

lemma start_execution_same: "start_execution m = Some (t, m') \<Longrightarrow> same_search m m'"
  by (auto simp: start_execution_def Let_def bind_eq_Some_conv split_def)

lemma run_all_Some:
  "run_all user m = Some m' \<Longrightarrow>
   (stats_ok (mc_stats m) \<and> \<not> restart_flag m \<and> num_total (mc_stats m) + 1 = execution_number m \<longrightarrow>
   stats_ok (mc_stats m') \<and> exit_flag m' = exit_flag m \<and>
   (if exit_flag m' \<or> diverge m' = None then num_total (mc_stats m') = execution_number m'
    else limit_reached m' \<and> num_total (mc_stats m') + 1 = execution_number m'))"
proof (induction rule: run_all.raw_induct [rotated, consumes 1, case_names step])
  case (step rec user m m')
  then obtain t m1 m2 r where r: "start_execution m = Some (t, m1)" "run_execution user (Some t) m1 = Some m2"
    "next_execution m2 = Some r" "(if fst r then rec user (snd r) else Some (snd r)) = Some m'"
    by (auto simp: bind_eq_Some_conv)
  have same: "same_search m m2"
    using start_execution_same [OF r(1)] run_execution_same [OF r(2)] by (simp add: same_search_def)
  show ?case
  proof (intro impI)
    assume pre: "stats_ok (mc_stats m) \<and> \<not> restart_flag m \<and> num_total (mc_stats m) + 1 = execution_number m"
    with same next_execution_Some [of m2 "fst r" "snd r"] r(3)
    have nx: "stats_ok (mc_stats (snd r)) \<and> \<not> restart_flag (snd r) \<and> exit_flag (snd r) = exit_flag m \<and>
      num_total (mc_stats (snd r)) = execution_number m \<and>
      (if fst r then \<not> exit_flag (snd r) \<and> diverge (snd r) \<noteq> None \<and> execution_number (snd r) = execution_number m + 1
       else if exit_flag (snd r) \<or> diverge (snd r) = None then execution_number (snd r) = execution_number m
       else limit_reached (snd r) \<and> execution_number (snd r) = execution_number m + 1)"
      by (auto simp: same_search_def split: if_splits)
    show "stats_ok (mc_stats m') \<and> exit_flag m' = exit_flag m \<and>
     (if exit_flag m' \<or> diverge m' = None then num_total (mc_stats m') = execution_number m'
      else limit_reached m' \<and> num_total (mc_stats m') + 1 = execution_number m')"
    proof (cases "fst r")
      case True
      with r(4) have "rec user (snd r) = Some m'" by simp
      from step.IH [OF this] nx True show ?thesis by simp
    next
      case False
      with r(4) nx show ?thesis by (auto split: if_splits)
    qed
  qed
qed


text \<open>
  when the loop over executions returns for a fresh checker every execution has been counted, in
  exactly one class: infeasible, buggy, complete or redundant. The last number was given to an
  execution that did not start if the bound on complete executions ended the loop.
\<close>

theorem search_counts_executions:
  assumes "run_all user (new_checker s) = Some m"
  shows "stats_ok (mc_stats m) \<and>
    (if diverge m = None then num_total (mc_stats m) = execution_number m
     else limit_reached m \<and> num_total (mc_stats m) + 1 = execution_number m)"
  using run_all_Some [OF assms] by (simp add: new_checker_def stats_ok_def no_stats_def split: if_splits)

text \<open>
  A user program given by the actions of its threads; the next action of a thread is found by counting
  those it has taken.
\<close>

definition scripted_program :: "(thread_id \<Rightarrow> (action_type \<times> loc) list) \<Rightarrow> user_program" where
  "scripted_program script t s = (
     let k = length (filter (\<lambda>a. ma_tid (ex_acts s a) = t) (action_trace s))
     in if k < length (script t)
        then do {
          a \<leftarrow> new_action (fst (script t ! k)) memory_order_seq_cst (snd (script t ! k)) 0 (Some t) t;
          let p = ex_next_act s;
          Some (Some p, s\<lparr>ex_acts := (ex_acts s)(p := a), ex_next_act := p + 1\<rparr>)
        } else None)"

definition first_execution :: execution where
  "first_execution = the (new_execution sample_params new_scheduler new_nodestack
     (\<lambda>_. sample_action MODEL_FIXUP_RELSEQ 0 0) 0 (\<lambda>_. \<lparr>locked = None, alloc_tid = 0, alloc_clock = 0\<rparr>)
     (\<lambda>_. None))"

theorem search_counts_executions_witness:
  "\<exists>m. run_all (scripted_program (\<lambda>t. [(THREAD_START, 8), (THREAD_FINISH, 8)])) (new_checker first_execution) = Some m \<and>
     num_complete (mc_stats m) = 1 \<and> execution_number m = 1 \<and> num_total (mc_stats m) = 1"
proof -
  have "map_option (\<lambda>m. (num_complete (mc_stats m), execution_number m, diverge m))
      (run_all (scripted_program (\<lambda>t. [(THREAD_START, 8), (THREAD_FINISH, 8)])) (new_checker first_execution)) =
      Some (1, 1, None)"
    by code_simp
  then obtain m where m: "run_all (scripted_program (\<lambda>t. [(THREAD_START, 8), (THREAD_FINISH, 8)]))
      (new_checker first_execution) = Some m" "num_complete (mc_stats m) = 1" "execution_number m = 1" "diverge m = None"
    by auto
  from search_counts_executions [OF m(1)] m show ?thesis by simp
qed

end
