(* ===== verification/Execution_Lists.thy ===== *)
theory Execution_Lists
  imports Execution_State
begin

text \<open>
  The lists of an execution (\<open>add_action_to_lists\<close> of \<open>execution.cc\<close>): the trace, the actions of an
  object, the actions of an object by thread and the last action of a thread. The abstraction is
  the trace alone: every list is the trace filtered by object and thread, and adding an action keeps
  it so. An action of a wait belongs to its condition variable and to its mutex; the store of the
  uninitialized value goes to the front, where the model thread's actions come first.
\<close>

subsection \<open>The parts\<close>

lemma push_thrd_Some:
  assumes "push_thrd n t a v = Some v'" "t < n"
  shows "vec_get [] v' u = vec_get [] v u @ (if u = t then [a] else [])" "t < length v'" "length v \<le> length v'"
  using assms by (auto simp: push_thrd_def Let_def vec_get_update vec_resize_grow vec_get_def nth_vec_grow split: if_splits)

lemma store_last_Some:
  assumes "store_last n t a v = Some v'" "t < n"
  shows "vec_get None v' u = (if u = t then Some a else vec_get None v u)" "length v \<le> length v'"
  using assms by (auto simp: store_last_def Let_def vec_get_update vec_resize_grow vec_get_def nth_vec_grow split: if_splits)

lemma get_last_action_vec: "get_last_action s t = vec_get None (thrd_last_action s) t"
  by (simp add: get_last_action_def vec_get_def)

definition obj_list :: "execution \<Rightarrow> loc \<Rightarrow> act_ptr list" where
  "obj_list s l = (case obj_map s l of Some xs \<Rightarrow> xs | None \<Rightarrow> [])"

definition thrd_list :: "execution \<Rightarrow> loc \<Rightarrow> thread_id \<Rightarrow> act_ptr list" where
  "thrd_list s l t = vec_get [] (case obj_thrd_map s l of Some v \<Rightarrow> v | None \<Rightarrow> []) t"

definition touches :: "model_action \<Rightarrow> loc \<Rightarrow> bool" where
  "touches a l \<longleftrightarrow> ma_location a = l \<or> (is_wait a \<and> ma_value a = l)"

definition last_of :: "'a list \<Rightarrow> 'a option" where
  "last_of xs = (if xs = [] then None else Some (last xs))"

lemma push_object_Some:
  assumes "push_object uninit a l s = Some s'" "ma_tid (ex_acts s a) < next_thread_id s"
  shows "ex_acts s' = ex_acts s" "action_trace s' = action_trace s" "ex_next_act s' = ex_next_act s"
    "thrd_last_action s' = thrd_last_action s" "next_thread_id s' = next_thread_id s"
    "obj_list s' k = (if k = l then (case uninit of Some u \<Rightarrow> [u] | None \<Rightarrow> []) @ obj_list s l @ [a] else obj_list s k)"
    "thrd_list s' k t = (if k = l
       then (case uninit of Some u \<Rightarrow> if t = ma_tid (ex_acts s u) then [u] else [] | None \<Rightarrow> []) @
            thrd_list s l t @ (if t = ma_tid (ex_acts s a) then [a] else []) else thrd_list s k t)"
proof -
  let ?tid = "ma_tid (ex_acts s a)"
  define list where "list = fst (get_safe_ptr_action (obj_map s) l)"
  define vec where "vec = fst (get_safe_ptr_vect_action (obj_thrd_map s) l)"
  from assms obtain v1 v2 where v1: "push_thrd (next_thread_id s) ?tid a vec = Some v1"
    and v2: "(case uninit of None \<Rightarrow> Some v1
              | Some u \<Rightarrow> let ut = ma_tid (ex_acts s u)
                          in if ut < length v1 then Some (v1[ut := u # v1 ! ut]) else None) = Some v2"
    and s': "s' = s\<lparr>obj_map := (snd (get_safe_ptr_action (obj_map s) l))(l \<mapsto> (case uninit of Some u \<Rightarrow> u # list | None \<Rightarrow> list) @ [a]),
      obj_thrd_map := (snd (get_safe_ptr_vect_action (obj_thrd_map s) l))(l \<mapsto> v2)\<rparr>"
    unfolding push_object_def Let_def split_def list_def vec_def by (auto simp: bind_eq_Some_conv)
  have lists: "list = obj_list s l" "k \<noteq> l \<Longrightarrow> snd (get_safe_ptr_action (obj_map s) l) k = obj_map s k"
    "k \<noteq> l \<Longrightarrow> snd (get_safe_ptr_vect_action (obj_thrd_map s) l) k = obj_thrd_map s k"
    "vec_get [] vec t = thrd_list s l t"
    by (auto simp: list_def vec_def obj_list_def thrd_list_def get_safe_ptr_action_def
      get_safe_ptr_vect_action_def split: option.splits)
  show "ex_acts s' = ex_acts s" "action_trace s' = action_trace s" "ex_next_act s' = ex_next_act s"
    "thrd_last_action s' = thrd_last_action s" "next_thread_id s' = next_thread_id s"
    by (simp_all add: s')
  show "obj_list s' k = (if k = l then (case uninit of Some u \<Rightarrow> [u] | None \<Rightarrow> []) @ obj_list s l @ [a] else obj_list s k)"
    using lists by (auto simp: s' obj_list_def split: option.splits)
  have "vec_get [] v1 t = thrd_list s l t @ (if t = ?tid then [a] else [])"
    using push_thrd_Some(1) [OF v1 assms(2)] lists by simp
  moreover have "vec_get [] v2 t = (case uninit of Some u \<Rightarrow> if t = ma_tid (ex_acts s u) then [u] else [] | None \<Rightarrow> []) @ vec_get [] v1 t"
    using v2 by (auto simp: Let_def vec_get_update vec_get_def split: option.splits if_splits)
  ultimately show "thrd_list s' k t = (if k = l
       then (case uninit of Some u \<Rightarrow> if t = ma_tid (ex_acts s u) then [u] else [] | None \<Rightarrow> []) @
            thrd_list s l t @ (if t = ma_tid (ex_acts s a) then [a] else []) else thrd_list s k t)"
    using lists by (auto simp: s' thrd_list_def)
qed

lemma push_last_Some:
  assumes "push_last uninit a s = Some s'" "ma_tid (ex_acts s a) < next_thread_id s"
  shows "ex_acts s' = ex_acts s" "action_trace s' = action_trace s" "ex_next_act s' = ex_next_act s"
    "next_thread_id s' = next_thread_id s" "obj_map s' = obj_map s" "obj_thrd_map s' = obj_thrd_map s"
    "get_last_action s' t = (case uninit of Some u \<Rightarrow> if t = ma_tid (ex_acts s u) then Some u
        else if t = ma_tid (ex_acts s a) then Some a else get_last_action s t
      | None \<Rightarrow> if t = ma_tid (ex_acts s a) then Some a else get_last_action s t)"
proof -
  from assms obtain la la' where "store_last (next_thread_id s) (ma_tid (ex_acts s a)) a (thrd_last_action s) = Some la"
    and la': "(case uninit of None \<Rightarrow> Some la
             | Some u \<Rightarrow> let ut = ma_tid (ex_acts s u)
                         in if ut < length la then Some (la[ut := Some u]) else None) = Some la'"
    and s': "s' = s\<lparr>thrd_last_action := la'\<rparr>"
    unfolding push_last_def get_num_threads_def by (auto simp: bind_eq_Some_conv)
  with store_last_Some(1) [OF this(1) assms(2), of t]
  show "get_last_action s' t = (case uninit of Some u \<Rightarrow> if t = ma_tid (ex_acts s u) then Some u
        else if t = ma_tid (ex_acts s a) then Some a else get_last_action s t
      | None \<Rightarrow> if t = ma_tid (ex_acts s a) then Some a else get_last_action s t)"
    by (auto simp: get_last_action_vec Let_def vec_get_update split: option.splits if_splits)
  from s' show "ex_acts s' = ex_acts s" "action_trace s' = action_trace s" "ex_next_act s' = ex_next_act s"
    "next_thread_id s' = next_thread_id s" "obj_map s' = obj_map s" "obj_thrd_map s' = obj_thrd_map s"
    by simp_all
qed

lemma push_fence_frame:
  assumes "push_fence a s = Some s'"
  shows "ex_acts s' = ex_acts s" "action_trace s' = action_trace s" "ex_next_act s' = ex_next_act s"
    "next_thread_id s' = next_thread_id s" "obj_map s' = obj_map s" "obj_thrd_map s' = obj_thrd_map s"
    "thrd_last_action s' = thrd_last_action s"
  using assms by (auto simp: push_fence_def Let_def bind_eq_Some_conv split: if_splits)

text \<open>The uninitialized store kept in the node of an action is one of its object.\<close>

definition uninit_ok :: "execution \<Rightarrow> act_ptr \<Rightarrow> bool" where
  "uninit_ok s a = (case node_of s a of
     None \<Rightarrow> True
   | Some (i, n) \<Rightarrow> (case nd_uninit_action n of
       None \<Rightarrow> True
     | Some u \<Rightarrow> is_uninitialized (ex_acts s u) \<and> ma_location (ex_acts s u) = ma_location (ex_acts s a) \<and>
                 ma_tid (ex_acts s u) = INITIAL_THREAD_ID \<and> u < ex_next_act s))"

text \<open>What the lists depend on in an action.\<close>

definition same_lists :: "model_action \<Rightarrow> model_action \<Rightarrow> bool" where
  "same_lists a b \<longleftrightarrow> touches a = touches b \<and> ma_tid a = ma_tid b \<and> ma_location a = ma_location b \<and>
     is_wait a = is_wait b \<and> ma_value a = ma_value b"

lemma same_lists_refl [simp]: "same_lists a a"
  by (simp add: same_lists_def)

lemma same_lists_create_cv [simp]: "same_lists (create_cv p b) c = same_lists b c"
  by (simp add: same_lists_def touches_def create_cv_def is_wait_def fun_eq_iff)

lemma get_uninitialized_action_Some:
  assumes run: "get_uninitialized_action a s = Some (u, s')" and ok: "uninit_ok s a"
  shows "obj_map s' = obj_map s" "obj_thrd_map s' = obj_thrd_map s" "action_trace s' = action_trace s"
    "next_thread_id s' = next_thread_id s" "thrd_last_action s' = thrd_last_action s"
    "ex_next_act s \<le> ex_next_act s'" "u < ex_next_act s'"
    "ma_tid (ex_acts s' u) = INITIAL_THREAD_ID" "is_uninitialized (ex_acts s' u)"
    "ma_location (ex_acts s' u) = ma_location (ex_acts s a)"
    "b < ex_next_act s \<Longrightarrow> same_lists (ex_acts s' b) (ex_acts s b)"
proof -
  from run obtain i n where n: "node_of s a = Some (i, n)"
    by (auto simp: get_uninitialized_action_def bind_eq_Some_conv)
  have "obj_map s' = obj_map s \<and> obj_thrd_map s' = obj_thrd_map s \<and> action_trace s' = action_trace s \<and>
    next_thread_id s' = next_thread_id s \<and> thrd_last_action s' = thrd_last_action s \<and>
    ex_next_act s \<le> ex_next_act s' \<and> u < ex_next_act s' \<and>
    ma_tid (ex_acts s' u) = INITIAL_THREAD_ID \<and> is_uninitialized (ex_acts s' u) \<and>
    ma_location (ex_acts s' u) = ma_location (ex_acts s a) \<and>
    (b < ex_next_act s \<longrightarrow> same_lists (ex_acts s' b) (ex_acts s b))"
  proof (cases "nd_uninit_action n")
    case None
    with n run show ?thesis
      by (auto simp: get_uninitialized_action_def upd_act_def put_node_def new_action_def
        Let_def create_cv_def is_uninitialized_def bind_eq_Some_conv split: if_splits)
  next
    case (Some v)
    with n run ok show ?thesis
      by (auto simp: get_uninitialized_action_def uninit_ok_def upd_act_def create_cv_def is_uninitialized_def)
        (simp add: same_lists_def touches_def is_wait_def fun_eq_iff)
  qed
  then show "obj_map s' = obj_map s" "obj_thrd_map s' = obj_thrd_map s" "action_trace s' = action_trace s"
    "next_thread_id s' = next_thread_id s" "thrd_last_action s' = thrd_last_action s"
    "ex_next_act s \<le> ex_next_act s'" "u < ex_next_act s'"
    "ma_tid (ex_acts s' u) = INITIAL_THREAD_ID" "is_uninitialized (ex_acts s' u)"
    "ma_location (ex_acts s' u) = ma_location (ex_acts s a)"
    "b < ex_next_act s \<Longrightarrow> same_lists (ex_acts s' b) (ex_acts s b)" by blast+
qed

lemma uninit_ok_obj_map [simp]: "uninit_ok (s\<lparr>obj_map := m\<rparr>) a = uninit_ok s a"
  by (simp add: uninit_ok_def node_of_def split: option.splits)

lemma first_uninit_Some:
  assumes run: "first_uninit a s = Some (uninit, s')" and ok: "uninit_ok s a"
  shows "action_trace s' = action_trace s" "next_thread_id s' = next_thread_id s" "ex_next_act s \<le> ex_next_act s'"
    "thrd_last_action s' = thrd_last_action s" "obj_list s' = obj_list s" "obj_thrd_map s' = obj_thrd_map s"
    "b < ex_next_act s \<Longrightarrow> same_lists (ex_acts s' b) (ex_acts s b)"
    "uninit = Some u \<Longrightarrow> obj_list s (ma_location (ex_acts s a)) = [] \<and> ma_tid (ex_acts s' u) = INITIAL_THREAD_ID \<and>
       touches (ex_acts s' u) = (\<lambda>l. l = ma_location (ex_acts s a)) \<and> u < ex_next_act s'"
proof -
  define l where "l = ma_location (ex_acts s a)"
  define om where "om = snd (get_safe_ptr_action (obj_map s) l)"
  have list: "fst (get_safe_ptr_action (obj_map s) l) = obj_list s l" "obj_list (s\<lparr>obj_map := om\<rparr>) = obj_list s"
    by (auto simp: om_def obj_list_def get_safe_ptr_action_def fun_eq_iff split: option.splits)
  have ok': "uninit_ok (s\<lparr>obj_map := om\<rparr>) a" using ok by simp
  have run': "(if obj_list s l = [] \<and> is_atomic_var (ex_acts s a)
     then Option.bind (get_uninitialized_action a (s\<lparr>obj_map := om\<rparr>)) (\<lambda>p. Some (Some (fst p), snd p))
     else Some (None, s\<lparr>obj_map := om\<rparr>)) = Some (uninit, s')"
    using run list unfolding first_uninit_def l_def om_def Let_def case_prod_unfold by simp
  have "action_trace s' = action_trace s \<and> next_thread_id s' = next_thread_id s \<and> ex_next_act s \<le> ex_next_act s' \<and>
    thrd_last_action s' = thrd_last_action s \<and> obj_list s' = obj_list s \<and> obj_thrd_map s' = obj_thrd_map s \<and>
    (b < ex_next_act s \<longrightarrow> same_lists (ex_acts s' b) (ex_acts s b)) \<and>
    (uninit = Some u \<longrightarrow> obj_list s l = [] \<and> ma_tid (ex_acts s' u) = INITIAL_THREAD_ID \<and>
       touches (ex_acts s' u) = (\<lambda>k. k = l) \<and> u < ex_next_act s')"
  proof (cases uninit)
    case None
    with run' list show ?thesis by (auto split: if_splits option.splits simp: bind_eq_Some_conv)
  next
    case (Some v)
    with run' have u: "get_uninitialized_action a (s\<lparr>obj_map := om\<rparr>) = Some (v, s')" and "obj_list s l = []"
      by (auto simp: bind_eq_Some_conv split: if_splits)
    note g = get_uninitialized_action_Some [OF u ok']
    from g(9,10) have "touches (ex_acts s' v) = (\<lambda>k. k = l)"
      by (auto simp: touches_def is_wait_def is_uninitialized_def l_def fun_eq_iff)
    moreover have "obj_list s' = obj_list s" using g(1) list(2) by (simp add: obj_list_def fun_eq_iff)
    ultimately show ?thesis using Some g \<open>obj_list s l = []\<close> by auto
  qed
  then show "action_trace s' = action_trace s" "next_thread_id s' = next_thread_id s" "ex_next_act s \<le> ex_next_act s'"
    "thrd_last_action s' = thrd_last_action s" "obj_list s' = obj_list s" "obj_thrd_map s' = obj_thrd_map s"
    "b < ex_next_act s \<Longrightarrow> same_lists (ex_acts s' b) (ex_acts s b)"
    "uninit = Some u \<Longrightarrow> obj_list s (ma_location (ex_acts s a)) = [] \<and> ma_tid (ex_acts s' u) = INITIAL_THREAD_ID \<and>
       touches (ex_acts s' u) = (\<lambda>l. l = ma_location (ex_acts s a)) \<and> u < ex_next_act s'"
    by (auto simp: l_def)
qed

text \<open>The lists are the trace, restricted to an object, a thread, or both.\<close>

definition lists_agree :: "execution \<Rightarrow> bool" where
  "lists_agree s \<longleftrightarrow>
     (\<forall>l. obj_list s l = filter (\<lambda>a. touches (ex_acts s a) l) (action_trace s)) \<and>
     (\<forall>l t. thrd_list s l t =
        filter (\<lambda>a. ma_tid (ex_acts s a) = t \<and> touches (ex_acts s a) l) (action_trace s)) \<and>
     (\<forall>t. t \<noteq> INITIAL_THREAD_ID \<longrightarrow>
        get_last_action s t = last_of (filter (\<lambda>a. ma_tid (ex_acts s a) = t) (action_trace s))) \<and>
     (\<forall>a \<in> set (action_trace s). a < ex_next_act s)"

text \<open>The parts together.\<close>

lemma add_action_lists:
  assumes run: "add_action_to_lists a s = Some s'" and ok: "lists_agree s" "uninit_ok s a"
    and a: "a < ex_next_act s" "ma_tid (ex_acts s a) < next_thread_id s"
    and w: "is_wait (ex_acts s a) \<Longrightarrow> ma_value (ex_acts s a) \<noteq> ma_location (ex_acts s a)"
  shows "lists_agree s' \<and> (\<exists>us. action_trace s' = us @ action_trace s @ [a])"
proof -
  from run obtain uninit s1 s2 s3 s4 where
    s1: "first_uninit a s = Some (uninit, s1)" and
    s2: "push_object uninit a (ma_location (ex_acts s1 a)) s1 = Some s2" and
    s3: "push_last uninit a (s2\<lparr>action_trace := (case uninit of Some u \<Rightarrow> [u] | None \<Rightarrow> []) @ action_trace s2 @ [a]\<rparr>) = Some s3"
    and s4: "push_fence a s3 = Some s4" and
    s': "(if is_wait (ex_acts s4 a) then push_object None a (ma_value (ex_acts s4 a)) s4 else Some s4) = Some s'"
    by (auto simp: add_action_to_lists_def bind_eq_Some_conv Let_def)
  define us where "us = (case uninit of Some u \<Rightarrow> [u] | None \<Rightarrow> [])"
  note f1 = first_uninit_Some [OF s1 ok(2)]
  have act: "same_lists (ex_acts s1 a) (ex_acts s a)" using f1(7) [OF a(1)] .
  then have t1: "ma_tid (ex_acts s1 a) < next_thread_id s1" using a(2) f1(2) by (simp add: same_lists_def)
  note f2 = push_object_Some [OF s2 t1]
  have t2: "ma_tid (ex_acts (s2\<lparr>action_trace := us @ action_trace s2 @ [a]\<rparr>) a)
      < next_thread_id (s2\<lparr>action_trace := us @ action_trace s2 @ [a]\<rparr>)"
    using t1 f2 by simp
  note f3 = push_last_Some [OF s3 [folded us_def] t2, unfolded execution.simps]
  note f4 = push_fence_frame [OF s4]
  let ?A = "ex_acts s1" and ?l = "ma_location (ex_acts s1 a)" and ?t = "ma_tid (ex_acts s1 a)"
  have s'': "ex_acts s' = ?A" "action_trace s' = us @ action_trace s @ [a]" "ex_next_act s' = ex_next_act s1"
    "thrd_last_action s' = thrd_last_action s3"
    "obj_list s' l = (if l = ?l then us @ obj_list s1 l @ [a] else obj_list s1 l) @
       (if is_wait (?A a) \<and> l = ma_value (?A a) then [a] else [])"
    "thrd_list s' l t = (if l = ?l then filter (\<lambda>u. ma_tid (?A u) = t) us @ thrd_list s1 l t @
       (if t = ?t then [a] else []) else thrd_list s1 l t) @
       (if is_wait (?A a) \<and> l = ma_value (?A a) \<and> t = ?t then [a] else [])" for l t
  proof -
    have t4: "ma_tid (ex_acts s4 a) < next_thread_id s4" using t1 f2 f3 f4 by simp
    have lists: "obj_list s4 l = (if l = ?l then us @ obj_list s1 l @ [a] else obj_list s1 l)"
      "thrd_list s4 l t = (if l = ?l then filter (\<lambda>u. ma_tid (?A u) = t) us @ thrd_list s1 l t @
         (if t = ?t then [a] else []) else thrd_list s1 l t)" for l t
      using f2(6) [of l] f2(7) [of l t] f3(5,6) f4(5,6)
      by (auto simp: obj_list_def thrd_list_def us_def split: option.splits)
    show "ex_acts s' = ?A" "action_trace s' = us @ action_trace s @ [a]" "ex_next_act s' = ex_next_act s1"
      "thrd_last_action s' = thrd_last_action s3"
      "obj_list s' l = (if l = ?l then us @ obj_list s1 l @ [a] else obj_list s1 l) @
         (if is_wait (?A a) \<and> l = ma_value (?A a) then [a] else [])"
      "thrd_list s' l t = (if l = ?l then filter (\<lambda>u. ma_tid (?A u) = t) us @ thrd_list s1 l t @
         (if t = ?t then [a] else []) else thrd_list s1 l t) @
         (if is_wait (?A a) \<and> l = ma_value (?A a) \<and> t = ?t then [a] else [])"
      using s' f1 f2 f3 f4 lists push_object_Some [of None a "ma_value (ex_acts s4 a)" s4 s', OF _ t4]
      by (auto simp: us_def split: if_splits)
  qed
  have old: "touches (?A b) = touches (ex_acts s b)" "ma_tid (?A b) = ma_tid (ex_acts s b)"
    if "b \<in> set (action_trace s)" for b
    using f1(7) [of b] ok(1) that by (auto simp: lists_agree_def same_lists_def)
  have new: "touches (?A a) l \<longleftrightarrow> l = ?l \<or> (is_wait (?A a) \<and> l = ma_value (?A a))" for l
    by (auto simp: touches_def)
  have w': "\<not> (is_wait (?A a) \<and> ma_value (?A a) = ?l)" using w act by (auto simp: same_lists_def)
  have uninit: "set us \<subseteq> {u. ma_tid (?A u) = INITIAL_THREAD_ID \<and> touches (?A u) = (\<lambda>l. l = ?l) \<and> u < ex_next_act s1}"
    using f1(8) act by (auto simp: us_def same_lists_def split: option.splits)
  have us0: "filter (\<lambda>u. touches (?A u) l) us = filter (\<lambda>u. l = ?l) us"
    "filter (\<lambda>u. ma_tid (?A u) = t \<and> touches (?A u) l) us = filter (\<lambda>u. ma_tid (?A u) = t \<and> l = ?l) us" for l t
    by (rule filter_cong, use uninit in auto)+
  have us: "filter (\<lambda>u. touches (?A u) l) us = (if l = ?l then us else [])"
    "filter (\<lambda>u. ma_tid (?A u) = t \<and> touches (?A u) l) us = (if l = ?l then filter (\<lambda>u. ma_tid (?A u) = t) us else [])"
    "t \<noteq> INITIAL_THREAD_ID \<Longrightarrow> filter (\<lambda>u. ma_tid (?A u) = t) us = []" for l t
    using uninit by (auto simp: us0 filter_empty_conv)
  have "lists_agree s'"
    unfolding lists_agree_def s''
  proof (intro conjI allI impI ballI)
    fix l
    show "(if l = ?l then us @ obj_list s1 l @ [a] else obj_list s1 l) @
         (if is_wait (?A a) \<and> l = ma_value (?A a) then [a] else []) =
        filter (\<lambda>b. touches (?A b) l) (us @ action_trace s @ [a])"
      using ok(1) w' old by (auto simp: lists_agree_def us new f1(5) cong: filter_cong)
  next
    fix l t
    show "(if l = ?l then filter (\<lambda>u. ma_tid (?A u) = t) us @ thrd_list s1 l t @
         (if t = ?t then [a] else []) else thrd_list s1 l t) @
         (if is_wait (?A a) \<and> l = ma_value (?A a) \<and> t = ?t then [a] else []) =
      filter (\<lambda>b. ma_tid (?A b) = t \<and> touches (?A b) l) (us @ action_trace s @ [a])"
    proof -
      have "thrd_list s1 l t = thrd_list s l t" by (simp add: thrd_list_def f1(6))
      then show ?thesis
        using ok(1) w' old by (auto simp: lists_agree_def us new cong: filter_cong)
    qed
  next
    fix t :: thread_id assume t: "t \<noteq> INITIAL_THREAD_ID"
    have "get_last_action s1 t = get_last_action s t" by (simp add: get_last_action_vec f1(4))
    moreover have "filter (\<lambda>b. ma_tid (?A b) = t) (action_trace s) = filter (\<lambda>b. ma_tid (ex_acts s b) = t) (action_trace s)"
      using old by (auto cong: filter_cong)
    ultimately show "get_last_action s' t = last_of (filter (\<lambda>b. ma_tid (?A b) = t) (us @ action_trace s @ [a]))"
      using ok(1) t f1(8) f2(1,4) us(3) [OF t] f3(7) [of t]
      by (auto simp: lists_agree_def last_of_def get_last_action_vec s''(4) split: option.splits)
  next
    fix b assume "b \<in> set (us @ action_trace s @ [a])"
    then show "b < ex_next_act s1"
      using uninit ok(1) a(1) f1(3) by (auto simp: lists_agree_def)
  qed
  with s'' show ?thesis by blast
qed

subsection \<open>The invariant\<close>

text \<open>
  C5: \<open>add_action_to_lists\<close> keeps all lists of an execution in agreement with the trace. The list of
  an object is the trace restricted to the actions on it (a wait counts for its mutex as well), the
  list of a thread on an object is that list restricted to the thread, and the last action of a user
  thread is the last one of the trace; the trace itself is only extended, at the end by the action
  and at the front by the uninitialized store of a new object.
\<close>

theorem action_lists_agree:
  assumes "add_action_to_lists a s = Some s'" and "lists_agree s" and "uninit_ok s a"
    and "a < ex_next_act s" and "ma_tid (ex_acts s a) < next_thread_id s"
    and "is_wait (ex_acts s a) \<Longrightarrow> ma_value (ex_acts s a) \<noteq> ma_location (ex_acts s a)"
  shows "lists_agree s' \<and> (\<exists>us. action_trace s' = us @ action_trace s @ [a])"
  by (rule add_action_lists [OF assms])

definition sample_new_object :: execution where
  "sample_new_object = sample_execution
     \<lparr>ex_acts := sample_acts(2 := (sample_action ATOMIC_WRITE 2 3)\<lparr>ma_location := 32, ma_node := Some 1\<rparr>),
      ex_next_act := 3\<rparr>"

lemma sample_lists_agree: "lists_agree sample_new_object"
proof -
  have "vec_get [] [[], [0], [Suc 0]] t = (if t = 1 then [0] else if t = 2 then [Suc 0] else [])" for t :: nat
    by (auto simp: vec_get_def less_Suc_eq nth_Cons split: nat.splits)
  then show ?thesis
    by (auto simp: lists_agree_def sample_new_object_def sample_execution_def sample_acts_def sample_action_def
      obj_list_def thrd_list_def touches_def is_wait_def get_last_action_vec vec_get_def last_of_def
      INITIAL_THREAD_ID_def less_Suc_eq nth_Cons split: nat.splits)
qed

theorem action_lists_agree_witness:
  "\<exists>s'. add_action_to_lists 2 sample_new_object = Some s' \<and> lists_agree s' \<and> action_trace s' = [3, 0, 1, 2]"
proof -
  have "map_option action_trace (add_action_to_lists 2 sample_new_object) = Some [3, 0, 1, 2]"
    by code_simp
  then obtain s' where s': "add_action_to_lists 2 sample_new_object = Some s'" "action_trace s' = [3, 0, 1, 2]"
    by auto
  have u: "uninit_ok sample_new_object 2" "2 < ex_next_act sample_new_object"
    "ma_tid (ex_acts sample_new_object 2) < next_thread_id sample_new_object" by code_simp+
  have w: "\<not> is_wait (ex_acts sample_new_object 2)" by code_simp
  from action_lists_agree [OF s'(1) sample_lists_agree u] w s' show ?thesis by blast
qed

end
