(* ===== verification/Atomics.thy ===== *)
theory Atomics
  imports Model_Action
begin

text \<open>
  The C/C++ atomics the checked program calls (\<open>include/impatomic.h\<close>, \<open>include/cmodelint.h\<close>,
  \<open>cmodelint.cc\<close>, \<open>impatomic.cc\<close>). Every operation turns into actions handed to the checker by
  \<open>switch_to_master\<close>, which answers with a 64-bit value. An operation is therefore modelled as
  an interaction: \<open>Ret\<close> ends it, \<open>Act\<close> hands out a request and continues with the answer. What
  the answers are is up to the checker; \<open>run_sc\<close> is the sequentially consistent one.

  A C type is described by its conversions to and from \<open>uint64_t\<close>: a cast to \<open>uint64_t\<close> extends
  (by sign for signed types), a cast back cuts. The values are words of the width of the type,
  for the x86 and x86-64 Linux targets of the tool (\<open>char\<close> and \<open>wchar_t\<close> are signed, \<open>long\<close> and
  pointers have 64 bits); the arithmetic of the modifying operations wraps.
\<close>

subsection \<open>Requests to the checker\<close>

record mreq =
  rq_type :: action_type
  rq_order :: memory_order
  rq_loc :: loc
  rq_value :: u64

datatype 'a prog = Ret 'a | Act mreq "u64 \<Rightarrow> 'a prog"

primrec then_prog :: "'a prog \<Rightarrow> ('a \<Rightarrow> 'b prog) \<Rightarrow> 'b prog" where
  "then_prog (Ret a) f = f a"
| "then_prog (Act r k) f = Act r (\<lambda>v. then_prog (k v) f)"

definition request :: "action_type \<Rightarrow> memory_order \<Rightarrow> loc \<Rightarrow> u64 \<Rightarrow> u64 prog" where
  "request ty ord l v = Act \<lparr>rq_type = ty, rq_order = ord, rq_loc = l, rq_value = v\<rparr> Ret"

definition model_read_action :: "loc \<Rightarrow> memory_order \<Rightarrow> u64 prog" where
  "model_read_action obj ord = request ATOMIC_READ ord obj VALUE_NONE"

definition model_write_action :: "loc \<Rightarrow> memory_order \<Rightarrow> u64 \<Rightarrow> unit prog" where
  "model_write_action obj ord val = then_prog (request ATOMIC_WRITE ord obj val) (\<lambda>_. Ret ())"

definition model_init_action :: "loc \<Rightarrow> u64 \<Rightarrow> unit prog" where
  "model_init_action obj val =
     then_prog (request ATOMIC_INIT memory_order_relaxed obj val) (\<lambda>_. Ret ())"

definition model_rmwr_action :: "loc \<Rightarrow> memory_order \<Rightarrow> u64 prog" where
  "model_rmwr_action obj ord = request ATOMIC_RMWR ord obj VALUE_NONE"

definition model_rmw_action :: "loc \<Rightarrow> memory_order \<Rightarrow> u64 \<Rightarrow> unit prog" where
  "model_rmw_action obj ord val = then_prog (request ATOMIC_RMW ord obj val) (\<lambda>_. Ret ())"

definition model_rmwc_action :: "loc \<Rightarrow> memory_order \<Rightarrow> unit prog" where
  "model_rmwc_action obj ord = then_prog (request ATOMIC_RMWC ord obj VALUE_NONE) (\<lambda>_. Ret ())"

definition model_fence_action :: "memory_order \<Rightarrow> unit prog" where
  "model_fence_action ord =
     then_prog (request ATOMIC_FENCE ord FENCE_LOCATION VALUE_NONE) (\<lambda>_. Ret ())"

subsection \<open>C types\<close>

record 'v ctype =
  to_u64 :: "'v \<Rightarrow> u64"
  of_u64 :: "u64 \<Rightarrow> 'v"

definition unsigned_type :: "('w::len) word ctype" where
  "unsigned_type = \<lparr>to_u64 = ucast, of_u64 = ucast\<rparr>"

definition signed_type :: "('w::len) word ctype" where
  "signed_type = \<lparr>to_u64 = scast, of_u64 = ucast\<rparr>"

definition ct_bool :: "bool ctype" where "ct_bool = \<lparr>to_u64 = of_bool, of_u64 = (\<lambda>v. v \<noteq> 0)\<rparr>"
definition ct_address :: "64 word ctype" where "ct_address = unsigned_type"
definition ct_char :: "8 word ctype" where "ct_char = signed_type"
definition ct_schar :: "8 word ctype" where "ct_schar = signed_type"
definition ct_uchar :: "8 word ctype" where "ct_uchar = unsigned_type"
definition ct_short :: "16 word ctype" where "ct_short = signed_type"
definition ct_ushort :: "16 word ctype" where "ct_ushort = unsigned_type"
definition ct_int :: "32 word ctype" where "ct_int = signed_type"
definition ct_uint :: "32 word ctype" where "ct_uint = unsigned_type"
definition ct_long :: "64 word ctype" where "ct_long = signed_type"
definition ct_ulong :: "64 word ctype" where "ct_ulong = unsigned_type"
definition ct_llong :: "64 word ctype" where "ct_llong = signed_type"
definition ct_ullong :: "64 word ctype" where "ct_ullong = unsigned_type"
definition ct_wchar_t :: "32 word ctype" where "ct_wchar_t = signed_type"

lemmas ctype_defs = ct_bool_def ct_address_def ct_char_def ct_schar_def ct_uchar_def ct_short_def
  ct_ushort_def ct_int_def ct_uint_def ct_long_def ct_ulong_def ct_llong_def ct_ullong_def
  ct_wchar_t_def

subsection \<open>The macros\<close>

definition ATOMIC_LOAD :: "'v ctype \<Rightarrow> loc \<Rightarrow> memory_order \<Rightarrow> 'v prog" where
  "ATOMIC_LOAD ct a x = then_prog (model_read_action a x) (\<lambda>r. Ret (of_u64 ct r))"

definition ATOMIC_STORE :: "'v ctype \<Rightarrow> loc \<Rightarrow> 'v \<Rightarrow> memory_order \<Rightarrow> unit prog" where
  "ATOMIC_STORE ct a m x = model_write_action a x (to_u64 ct m)"

definition ATOMIC_INIT_MACRO :: "'v ctype \<Rightarrow> loc \<Rightarrow> 'v \<Rightarrow> unit prog" where
  "ATOMIC_INIT_MACRO ct a m = model_init_action a (to_u64 ct m)"

text \<open>\<open>copy o v\<close>, an assignment operator such as \<open>+=\<close>, is the function from the old value and \<open>v\<close>.\<close>

definition ATOMIC_MODIFY ::
  "'v ctype \<Rightarrow> loc \<Rightarrow> ('v \<Rightarrow> 'v \<Rightarrow> 'v) \<Rightarrow> 'v \<Rightarrow> memory_order \<Rightarrow> 'v prog" where
  "ATOMIC_MODIFY ct a assign m x =
     then_prog (model_rmwr_action a x) (\<lambda>r.
       let old = of_u64 ct r; copy = assign old m
       in then_prog (model_rmw_action a x (to_u64 ct copy)) (\<lambda>_. Ret old))"

text \<open>
  The compare-and-swap macro; \<open>e\<close> is the value behind the pointer \<open>__e__\<close>, and the result is the
  boolean together with that value afterwards.
\<close>

definition ATOMIC_CMPSWP ::
  "'v ctype \<Rightarrow> loc \<Rightarrow> 'v \<Rightarrow> 'v \<Rightarrow> memory_order \<Rightarrow> (bool \<times> 'v) prog" where
  "ATOMIC_CMPSWP ct a e m x =
     then_prog (model_rmwr_action a x) (\<lambda>r.
       let t = of_u64 ct r
       in if t = e then then_prog (model_rmw_action a x (to_u64 ct m)) (\<lambda>_. Ret (True, e))
          else then_prog (model_rmwc_action a x) (\<lambda>_. Ret (False, t)))"

definition ATOMIC_CMPSWP_WEAK ::
  "'v ctype \<Rightarrow> loc \<Rightarrow> 'v \<Rightarrow> 'v \<Rightarrow> memory_order \<Rightarrow> (bool \<times> 'v) prog" where
  "ATOMIC_CMPSWP_WEAK = ATOMIC_CMPSWP"

definition ATOMIC_FENCE_MACRO :: "memory_order \<Rightarrow> unit prog" where
  "ATOMIC_FENCE_MACRO x = model_fence_action x"

definition atomic_thread_fence :: "memory_order \<Rightarrow> unit prog" where
  "atomic_thread_fence ord = ATOMIC_FENCE_MACRO ord"

definition atomic_signal_fence :: "memory_order \<Rightarrow> unit prog" where
  "atomic_signal_fence ord = Ret ()"

subsection \<open>Calls and their results\<close>

datatype 'v result = RUnit | RBool bool | RVal 'v | RCas bool 'v

definition ret_unit :: "unit prog \<Rightarrow> 'v result prog" where
  "ret_unit p = then_prog p (\<lambda>_. Ret RUnit)"
definition ret_val :: "'v prog \<Rightarrow> 'v result prog" where
  "ret_val p = then_prog p (\<lambda>v. Ret (RVal v))"
definition ret_cas :: "(bool \<times> 'v) prog \<Rightarrow> 'v result prog" where
  "ret_cas p = then_prog p (\<lambda>(b, e). Ret (RCas b e))"

text \<open>The free functions every atomic type has.\<close>

datatype 'v free_call =
    Is_lock_free
  | Load_explicit memory_order
  | Load
  | Init 'v
  | Store_explicit 'v memory_order
  | Store 'v
  | Exchange_explicit 'v memory_order
  | Exchange 'v
  | Compare_exchange_weak_explicit 'v 'v memory_order memory_order
  | Compare_exchange_strong_explicit 'v 'v memory_order memory_order
  | Compare_exchange_weak 'v 'v
  | Compare_exchange_strong 'v 'v

definition atomic_load_explicit :: "'v ctype \<Rightarrow> loc \<Rightarrow> memory_order \<Rightarrow> 'v prog" where
  "atomic_load_explicit ct a x = ATOMIC_LOAD ct a x"
definition atomic_load :: "'v ctype \<Rightarrow> loc \<Rightarrow> 'v prog" where
  "atomic_load ct a = atomic_load_explicit ct a memory_order_seq_cst"
definition atomic_init :: "'v ctype \<Rightarrow> loc \<Rightarrow> 'v \<Rightarrow> unit prog" where
  "atomic_init ct a m = ATOMIC_INIT_MACRO ct a m"
definition atomic_store_explicit :: "'v ctype \<Rightarrow> loc \<Rightarrow> 'v \<Rightarrow> memory_order \<Rightarrow> unit prog" where
  "atomic_store_explicit ct a m x = ATOMIC_STORE ct a m x"
definition atomic_store :: "'v ctype \<Rightarrow> loc \<Rightarrow> 'v \<Rightarrow> unit prog" where
  "atomic_store ct a m = atomic_store_explicit ct a m memory_order_seq_cst"
definition atomic_exchange_explicit :: "'v ctype \<Rightarrow> loc \<Rightarrow> 'v \<Rightarrow> memory_order \<Rightarrow> 'v prog" where
  "atomic_exchange_explicit ct a m x = ATOMIC_MODIFY ct a (\<lambda>old v. v) m x"
definition atomic_exchange :: "'v ctype \<Rightarrow> loc \<Rightarrow> 'v \<Rightarrow> 'v prog" where
  "atomic_exchange ct a m = atomic_exchange_explicit ct a m memory_order_seq_cst"
definition atomic_compare_exchange_weak_explicit ::
  "'v ctype \<Rightarrow> loc \<Rightarrow> 'v \<Rightarrow> 'v \<Rightarrow> memory_order \<Rightarrow> memory_order \<Rightarrow> (bool \<times> 'v) prog" where
  "atomic_compare_exchange_weak_explicit ct a e m x y = ATOMIC_CMPSWP_WEAK ct a e m x"
definition atomic_compare_exchange_strong_explicit ::
  "'v ctype \<Rightarrow> loc \<Rightarrow> 'v \<Rightarrow> 'v \<Rightarrow> memory_order \<Rightarrow> memory_order \<Rightarrow> (bool \<times> 'v) prog" where
  "atomic_compare_exchange_strong_explicit ct a e m x y = ATOMIC_CMPSWP ct a e m x"
definition atomic_compare_exchange_weak :: "'v ctype \<Rightarrow> loc \<Rightarrow> 'v \<Rightarrow> 'v \<Rightarrow> (bool \<times> 'v) prog" where
  "atomic_compare_exchange_weak ct a e m =
     atomic_compare_exchange_weak_explicit ct a e m memory_order_seq_cst memory_order_seq_cst"
definition atomic_compare_exchange_strong :: "'v ctype \<Rightarrow> loc \<Rightarrow> 'v \<Rightarrow> 'v \<Rightarrow> (bool \<times> 'v) prog" where
  "atomic_compare_exchange_strong ct a e m =
     atomic_compare_exchange_strong_explicit ct a e m memory_order_seq_cst memory_order_seq_cst"

lemmas free_defs = atomic_load_explicit_def atomic_load_def atomic_init_def
  atomic_store_explicit_def atomic_store_def atomic_exchange_explicit_def atomic_exchange_def
  atomic_compare_exchange_weak_explicit_def atomic_compare_exchange_strong_explicit_def
  atomic_compare_exchange_weak_def atomic_compare_exchange_strong_def ATOMIC_CMPSWP_WEAK_def

fun run_free :: "'v ctype \<Rightarrow> loc \<Rightarrow> 'v free_call \<Rightarrow> 'v result prog" where
  "run_free ct a Is_lock_free = Ret (RBool False)"
| "run_free ct a (Load_explicit x) = ret_val (atomic_load_explicit ct a x)"
| "run_free ct a Load = ret_val (atomic_load ct a)"
| "run_free ct a (Init m) = ret_unit (atomic_init ct a m)"
| "run_free ct a (Store_explicit m x) = ret_unit (atomic_store_explicit ct a m x)"
| "run_free ct a (Store m) = ret_unit (atomic_store ct a m)"
| "run_free ct a (Exchange_explicit m x) = ret_val (atomic_exchange_explicit ct a m x)"
| "run_free ct a (Exchange m) = ret_val (atomic_exchange ct a m)"
| "run_free ct a (Compare_exchange_weak_explicit e m x y) =
     ret_cas (atomic_compare_exchange_weak_explicit ct a e m x y)"
| "run_free ct a (Compare_exchange_strong_explicit e m x y) =
     ret_cas (atomic_compare_exchange_strong_explicit ct a e m x y)"
| "run_free ct a (Compare_exchange_weak e m) = ret_cas (atomic_compare_exchange_weak ct a e m)"
| "run_free ct a (Compare_exchange_strong e m) = ret_cas (atomic_compare_exchange_strong ct a e m)"

text \<open>The member functions; a compare-exchange with one order derives the order of failure.\<close>

datatype 'v member_call =
    M_is_lock_free
  | M_store 'v memory_order
  | M_load memory_order
  | M_exchange 'v memory_order
  | M_compare_exchange_weak2 'v 'v memory_order memory_order
  | M_compare_exchange_strong2 'v 'v memory_order memory_order
  | M_compare_exchange_weak 'v 'v memory_order
  | M_compare_exchange_strong 'v 'v memory_order

definition failure_order :: "memory_order \<Rightarrow> memory_order" where
  "failure_order x =
     (if x = memory_order_acq_rel then memory_order_acquire
      else if x = memory_order_release then memory_order_relaxed else x)"

fun run_member :: "'v ctype \<Rightarrow> loc \<Rightarrow> 'v member_call \<Rightarrow> 'v result prog" where
  "run_member ct a M_is_lock_free = Ret (RBool False)"
| "run_member ct a (M_store m x) = run_free ct a (Store_explicit m x)"
| "run_member ct a (M_load x) = run_free ct a (Load_explicit x)"
| "run_member ct a (M_exchange m x) = run_free ct a (Exchange_explicit m x)"
| "run_member ct a (M_compare_exchange_weak2 e m x y) =
     run_free ct a (Compare_exchange_weak_explicit e m x y)"
| "run_member ct a (M_compare_exchange_strong2 e m x y) =
     run_free ct a (Compare_exchange_strong_explicit e m x y)"
| "run_member ct a (M_compare_exchange_weak e m x) =
     run_free ct a (Compare_exchange_weak_explicit e m x (failure_order x))"
| "run_member ct a (M_compare_exchange_strong e m x) =
     run_free ct a (Compare_exchange_strong_explicit e m x (failure_order x))"

text \<open>Fetch-and-modify: the free functions and the members of the integral types.\<close>

datatype 'v fetch_call =
    Fetch_add_explicit 'v memory_order | Fetch_add 'v
  | Fetch_sub_explicit 'v memory_order | Fetch_sub 'v
  | Fetch_and_explicit 'v memory_order | Fetch_and 'v
  | Fetch_or_explicit 'v memory_order | Fetch_or 'v
  | Fetch_xor_explicit 'v memory_order | Fetch_xor 'v

definition atomic_fetch_add_explicit :: "('w::len) word ctype \<Rightarrow> loc \<Rightarrow> 'w word \<Rightarrow> memory_order \<Rightarrow> 'w word prog" where
  "atomic_fetch_add_explicit ct a m x = ATOMIC_MODIFY ct a (+) m x"
definition atomic_fetch_add :: "('w::len) word ctype \<Rightarrow> loc \<Rightarrow> 'w word \<Rightarrow> 'w word prog" where
  "atomic_fetch_add ct a m = atomic_fetch_add_explicit ct a m memory_order_seq_cst"
definition atomic_fetch_sub_explicit :: "('w::len) word ctype \<Rightarrow> loc \<Rightarrow> 'w word \<Rightarrow> memory_order \<Rightarrow> 'w word prog" where
  "atomic_fetch_sub_explicit ct a m x = ATOMIC_MODIFY ct a (-) m x"
definition atomic_fetch_sub :: "('w::len) word ctype \<Rightarrow> loc \<Rightarrow> 'w word \<Rightarrow> 'w word prog" where
  "atomic_fetch_sub ct a m = atomic_fetch_sub_explicit ct a m memory_order_seq_cst"
definition atomic_fetch_and_explicit :: "('w::len) word ctype \<Rightarrow> loc \<Rightarrow> 'w word \<Rightarrow> memory_order \<Rightarrow> 'w word prog" where
  "atomic_fetch_and_explicit ct a m x = ATOMIC_MODIFY ct a (AND) m x"
definition atomic_fetch_and :: "('w::len) word ctype \<Rightarrow> loc \<Rightarrow> 'w word \<Rightarrow> 'w word prog" where
  "atomic_fetch_and ct a m = atomic_fetch_and_explicit ct a m memory_order_seq_cst"
definition atomic_fetch_or_explicit :: "('w::len) word ctype \<Rightarrow> loc \<Rightarrow> 'w word \<Rightarrow> memory_order \<Rightarrow> 'w word prog" where
  "atomic_fetch_or_explicit ct a m x = ATOMIC_MODIFY ct a (OR) m x"
definition atomic_fetch_or :: "('w::len) word ctype \<Rightarrow> loc \<Rightarrow> 'w word \<Rightarrow> 'w word prog" where
  "atomic_fetch_or ct a m = atomic_fetch_or_explicit ct a m memory_order_seq_cst"
definition atomic_fetch_xor_explicit :: "('w::len) word ctype \<Rightarrow> loc \<Rightarrow> 'w word \<Rightarrow> memory_order \<Rightarrow> 'w word prog" where
  "atomic_fetch_xor_explicit ct a m x = ATOMIC_MODIFY ct a (XOR) m x"
definition atomic_fetch_xor :: "('w::len) word ctype \<Rightarrow> loc \<Rightarrow> 'w word \<Rightarrow> 'w word prog" where
  "atomic_fetch_xor ct a m = atomic_fetch_xor_explicit ct a m memory_order_seq_cst"

lemmas fetch_defs = atomic_fetch_add_explicit_def atomic_fetch_add_def
  atomic_fetch_sub_explicit_def atomic_fetch_sub_def
  atomic_fetch_and_explicit_def atomic_fetch_and_def
  atomic_fetch_or_explicit_def atomic_fetch_or_def
  atomic_fetch_xor_explicit_def atomic_fetch_xor_def

fun run_fetch :: "('w::len) word ctype \<Rightarrow> loc \<Rightarrow> 'w word fetch_call \<Rightarrow> 'w word result prog" where
  "run_fetch ct a (Fetch_add_explicit m x) = ret_val (atomic_fetch_add_explicit ct a m x)"
| "run_fetch ct a (Fetch_add m) = ret_val (atomic_fetch_add ct a m)"
| "run_fetch ct a (Fetch_sub_explicit m x) = ret_val (atomic_fetch_sub_explicit ct a m x)"
| "run_fetch ct a (Fetch_sub m) = ret_val (atomic_fetch_sub ct a m)"
| "run_fetch ct a (Fetch_and_explicit m x) = ret_val (atomic_fetch_and_explicit ct a m x)"
| "run_fetch ct a (Fetch_and m) = ret_val (atomic_fetch_and ct a m)"
| "run_fetch ct a (Fetch_or_explicit m x) = ret_val (atomic_fetch_or_explicit ct a m x)"
| "run_fetch ct a (Fetch_or m) = ret_val (atomic_fetch_or ct a m)"
| "run_fetch ct a (Fetch_xor_explicit m x) = ret_val (atomic_fetch_xor_explicit ct a m x)"
| "run_fetch ct a (Fetch_xor m) = ret_val (atomic_fetch_xor ct a m)"

datatype 'v fetch_member =
    M_fetch_add 'v memory_order | M_fetch_sub 'v memory_order | M_fetch_and 'v memory_order
  | M_fetch_or 'v memory_order | M_fetch_xor 'v memory_order

fun run_fetch_member ::
  "('w::len) word ctype \<Rightarrow> loc \<Rightarrow> 'w word fetch_member \<Rightarrow> 'w word result prog" where
  "run_fetch_member ct a (M_fetch_add m x) = run_fetch ct a (Fetch_add_explicit m x)"
| "run_fetch_member ct a (M_fetch_sub m x) = run_fetch ct a (Fetch_sub_explicit m x)"
| "run_fetch_member ct a (M_fetch_and m x) = run_fetch ct a (Fetch_and_explicit m x)"
| "run_fetch_member ct a (M_fetch_or m x) = run_fetch ct a (Fetch_or_explicit m x)"
| "run_fetch_member ct a (M_fetch_xor m x) = run_fetch ct a (Fetch_xor_explicit m x)"

text \<open>The operators the struct of an integral type defines, with the default order.\<close>

datatype 'v operator_call =
    Op_assign 'v | Op_post_inc | Op_post_dec | Op_pre_inc | Op_pre_dec
  | Op_add_assign 'v | Op_sub_assign 'v | Op_and_assign 'v | Op_or_assign 'v | Op_xor_assign 'v

definition map_val :: "('v \<Rightarrow> 'v) \<Rightarrow> 'v result prog \<Rightarrow> 'v result prog" where
  "map_val f p = then_prog p (\<lambda>r. Ret (case r of RVal v \<Rightarrow> RVal (f v) | _ \<Rightarrow> r))"

fun run_operator ::
  "('w::len) word ctype \<Rightarrow> loc \<Rightarrow> 'w word operator_call \<Rightarrow> 'w word result prog" where
  "run_operator ct a (Op_assign v) =
     then_prog (run_member ct a (M_store v memory_order_seq_cst)) (\<lambda>_. Ret (RVal v))"
| "run_operator ct a Op_post_inc = run_fetch_member ct a (M_fetch_add 1 memory_order_seq_cst)"
| "run_operator ct a Op_post_dec = run_fetch_member ct a (M_fetch_sub 1 memory_order_seq_cst)"
| "run_operator ct a Op_pre_inc =
     map_val (\<lambda>r. r + 1) (run_fetch_member ct a (M_fetch_add 1 memory_order_seq_cst))"
| "run_operator ct a Op_pre_dec =
     map_val (\<lambda>r. r - 1) (run_fetch_member ct a (M_fetch_sub 1 memory_order_seq_cst))"
| "run_operator ct a (Op_add_assign v) =
     map_val (\<lambda>r. r + v) (run_fetch_member ct a (M_fetch_add v memory_order_seq_cst))"
| "run_operator ct a (Op_sub_assign v) =
     map_val (\<lambda>r. r - v) (run_fetch_member ct a (M_fetch_sub v memory_order_seq_cst))"
| "run_operator ct a (Op_and_assign v) =
     map_val (\<lambda>r. r AND v) (run_fetch_member ct a (M_fetch_and v memory_order_seq_cst))"
| "run_operator ct a (Op_or_assign v) =
     map_val (\<lambda>r. r OR v) (run_fetch_member ct a (M_fetch_or v memory_order_seq_cst))"
| "run_operator ct a (Op_xor_assign v) =
     map_val (\<lambda>r. r XOR v) (run_fetch_member ct a (M_fetch_xor v memory_order_seq_cst))"

text \<open>
  The struct \<open>atomic_address\<close>: assignment and the compound assignments, which return what
  \<open>fetch_add\<close> and \<open>fetch_sub\<close> return; and its fetch functions, which add bytes.
\<close>

datatype address_fetch =
    A_fetch_add_explicit "64 word" memory_order | A_fetch_add "64 word"
  | A_fetch_sub_explicit "64 word" memory_order | A_fetch_sub "64 word"

definition atomic_address_fetch_explicit ::
  "(64 word \<Rightarrow> 64 word \<Rightarrow> 64 word) \<Rightarrow> loc \<Rightarrow> 64 word \<Rightarrow> memory_order \<Rightarrow> 64 word prog" where
  "atomic_address_fetch_explicit bytes a m x =
     then_prog (model_rmwr_action a x) (\<lambda>r.
       let old = of_u64 ct_address r; copy = bytes old m
       in then_prog (model_rmw_action a x (to_u64 ct_address copy)) (\<lambda>_. Ret old))"

fun atomic_address_fetch :: "loc \<Rightarrow> address_fetch \<Rightarrow> 64 word result prog" where
  "atomic_address_fetch a (A_fetch_add_explicit m x) = ret_val (atomic_address_fetch_explicit (+) a m x)"
| "atomic_address_fetch a (A_fetch_add m) =
     ret_val (atomic_address_fetch_explicit (+) a m memory_order_seq_cst)"
| "atomic_address_fetch a (A_fetch_sub_explicit m x) = ret_val (atomic_address_fetch_explicit (-) a m x)"
| "atomic_address_fetch a (A_fetch_sub m) =
     ret_val (atomic_address_fetch_explicit (-) a m memory_order_seq_cst)"

datatype address_fetch_member =
    A_member_fetch_add "64 word" memory_order | A_member_fetch_sub "64 word" memory_order

fun atomic_address_fetch_member :: "loc \<Rightarrow> address_fetch_member \<Rightarrow> 64 word result prog" where
  "atomic_address_fetch_member a (A_member_fetch_add m x) = atomic_address_fetch a (A_fetch_add_explicit m x)"
| "atomic_address_fetch_member a (A_member_fetch_sub m x) = atomic_address_fetch a (A_fetch_sub_explicit m x)"

datatype address_operator = A_assign "64 word" | A_add_assign "64 word" | A_sub_assign "64 word"

fun atomic_address_operator :: "loc \<Rightarrow> address_operator \<Rightarrow> 64 word result prog" where
  "atomic_address_operator a (A_assign v) =
     then_prog (run_member ct_address a (M_store v memory_order_seq_cst)) (\<lambda>_. Ret (RVal v))"
| "atomic_address_operator a (A_add_assign v) =
     atomic_address_fetch_member a (A_member_fetch_add v memory_order_seq_cst)"
| "atomic_address_operator a (A_sub_assign v) =
     atomic_address_fetch_member a (A_member_fetch_sub v memory_order_seq_cst)"

text \<open>The struct \<open>atomic_bool\<close> only has the assignment.\<close>

definition atomic_bool_assign :: "loc \<Rightarrow> bool \<Rightarrow> bool result prog" where
  "atomic_bool_assign a v =
     then_prog (run_member ct_bool a (M_store v memory_order_seq_cst)) (\<lambda>_. Ret (RVal v))"

end
