(* ===== verification/Atomic_Types.thy ===== *)
theory Atomic_Types
  imports Atomics
begin

text \<open>
  The atomic types of \<open>impatomic.h\<close>, one by one: for every type the operators of its struct, its
  free functions, its members and (but for \<open>atomic_bool\<close>) its fetch functions, as the operations
  of \<open>Atomics\<close> at the C type of the field \<open>__f__\<close>; the class templates \<open>atomic<T>\<close> and
  \<open>atomic<T*>\<close>; the macros that stand for the functions in C; and \<open>atomic_flag\<close>
  (\<open>impatomic.cc\<close>). The properties compare the operations with their specification under
  sequential consistency and check the protocol of read-modify-write actions.
\<close>

subsection \<open>The types\<close>

definition atomic_bool_free :: "loc \<Rightarrow> (bool) free_call \<Rightarrow> (bool) result prog" where
  "atomic_bool_free = run_free ct_bool"
definition atomic_bool_member :: "loc \<Rightarrow> (bool) member_call \<Rightarrow> (bool) result prog" where
  "atomic_bool_member = run_member ct_bool"

definition atomic_address_free :: "loc \<Rightarrow> (64 word) free_call \<Rightarrow> (64 word) result prog" where
  "atomic_address_free = run_free ct_address"
definition atomic_address_member :: "loc \<Rightarrow> (64 word) member_call \<Rightarrow> (64 word) result prog" where
  "atomic_address_member = run_member ct_address"

definition atomic_char_free :: "loc \<Rightarrow> (8 word) free_call \<Rightarrow> (8 word) result prog" where
  "atomic_char_free = run_free ct_char"
definition atomic_char_member :: "loc \<Rightarrow> (8 word) member_call \<Rightarrow> (8 word) result prog" where
  "atomic_char_member = run_member ct_char"
definition atomic_char_operator :: "loc \<Rightarrow> (8 word) operator_call \<Rightarrow> (8 word) result prog" where
  "atomic_char_operator = run_operator ct_char"
definition atomic_char_fetch :: "loc \<Rightarrow> (8 word) fetch_call \<Rightarrow> (8 word) result prog" where
  "atomic_char_fetch = run_fetch ct_char"
definition atomic_char_fetch_member :: "loc \<Rightarrow> (8 word) fetch_member \<Rightarrow> (8 word) result prog" where
  "atomic_char_fetch_member = run_fetch_member ct_char"

definition atomic_schar_free :: "loc \<Rightarrow> (8 word) free_call \<Rightarrow> (8 word) result prog" where
  "atomic_schar_free = run_free ct_schar"
definition atomic_schar_member :: "loc \<Rightarrow> (8 word) member_call \<Rightarrow> (8 word) result prog" where
  "atomic_schar_member = run_member ct_schar"
definition atomic_schar_operator :: "loc \<Rightarrow> (8 word) operator_call \<Rightarrow> (8 word) result prog" where
  "atomic_schar_operator = run_operator ct_schar"
definition atomic_schar_fetch :: "loc \<Rightarrow> (8 word) fetch_call \<Rightarrow> (8 word) result prog" where
  "atomic_schar_fetch = run_fetch ct_schar"
definition atomic_schar_fetch_member :: "loc \<Rightarrow> (8 word) fetch_member \<Rightarrow> (8 word) result prog" where
  "atomic_schar_fetch_member = run_fetch_member ct_schar"

definition atomic_uchar_free :: "loc \<Rightarrow> (8 word) free_call \<Rightarrow> (8 word) result prog" where
  "atomic_uchar_free = run_free ct_uchar"
definition atomic_uchar_member :: "loc \<Rightarrow> (8 word) member_call \<Rightarrow> (8 word) result prog" where
  "atomic_uchar_member = run_member ct_uchar"
definition atomic_uchar_operator :: "loc \<Rightarrow> (8 word) operator_call \<Rightarrow> (8 word) result prog" where
  "atomic_uchar_operator = run_operator ct_uchar"
definition atomic_uchar_fetch :: "loc \<Rightarrow> (8 word) fetch_call \<Rightarrow> (8 word) result prog" where
  "atomic_uchar_fetch = run_fetch ct_uchar"
definition atomic_uchar_fetch_member :: "loc \<Rightarrow> (8 word) fetch_member \<Rightarrow> (8 word) result prog" where
  "atomic_uchar_fetch_member = run_fetch_member ct_uchar"

definition atomic_short_free :: "loc \<Rightarrow> (16 word) free_call \<Rightarrow> (16 word) result prog" where
  "atomic_short_free = run_free ct_short"
definition atomic_short_member :: "loc \<Rightarrow> (16 word) member_call \<Rightarrow> (16 word) result prog" where
  "atomic_short_member = run_member ct_short"
definition atomic_short_operator :: "loc \<Rightarrow> (16 word) operator_call \<Rightarrow> (16 word) result prog" where
  "atomic_short_operator = run_operator ct_short"
definition atomic_short_fetch :: "loc \<Rightarrow> (16 word) fetch_call \<Rightarrow> (16 word) result prog" where
  "atomic_short_fetch = run_fetch ct_short"
definition atomic_short_fetch_member :: "loc \<Rightarrow> (16 word) fetch_member \<Rightarrow> (16 word) result prog" where
  "atomic_short_fetch_member = run_fetch_member ct_short"

definition atomic_ushort_free :: "loc \<Rightarrow> (16 word) free_call \<Rightarrow> (16 word) result prog" where
  "atomic_ushort_free = run_free ct_ushort"
definition atomic_ushort_member :: "loc \<Rightarrow> (16 word) member_call \<Rightarrow> (16 word) result prog" where
  "atomic_ushort_member = run_member ct_ushort"
definition atomic_ushort_operator :: "loc \<Rightarrow> (16 word) operator_call \<Rightarrow> (16 word) result prog" where
  "atomic_ushort_operator = run_operator ct_ushort"
definition atomic_ushort_fetch :: "loc \<Rightarrow> (16 word) fetch_call \<Rightarrow> (16 word) result prog" where
  "atomic_ushort_fetch = run_fetch ct_ushort"
definition atomic_ushort_fetch_member :: "loc \<Rightarrow> (16 word) fetch_member \<Rightarrow> (16 word) result prog" where
  "atomic_ushort_fetch_member = run_fetch_member ct_ushort"

definition atomic_int_free :: "loc \<Rightarrow> (32 word) free_call \<Rightarrow> (32 word) result prog" where
  "atomic_int_free = run_free ct_int"
definition atomic_int_member :: "loc \<Rightarrow> (32 word) member_call \<Rightarrow> (32 word) result prog" where
  "atomic_int_member = run_member ct_int"
definition atomic_int_operator :: "loc \<Rightarrow> (32 word) operator_call \<Rightarrow> (32 word) result prog" where
  "atomic_int_operator = run_operator ct_int"
definition atomic_int_fetch :: "loc \<Rightarrow> (32 word) fetch_call \<Rightarrow> (32 word) result prog" where
  "atomic_int_fetch = run_fetch ct_int"
definition atomic_int_fetch_member :: "loc \<Rightarrow> (32 word) fetch_member \<Rightarrow> (32 word) result prog" where
  "atomic_int_fetch_member = run_fetch_member ct_int"

definition atomic_uint_free :: "loc \<Rightarrow> (32 word) free_call \<Rightarrow> (32 word) result prog" where
  "atomic_uint_free = run_free ct_uint"
definition atomic_uint_member :: "loc \<Rightarrow> (32 word) member_call \<Rightarrow> (32 word) result prog" where
  "atomic_uint_member = run_member ct_uint"
definition atomic_uint_operator :: "loc \<Rightarrow> (32 word) operator_call \<Rightarrow> (32 word) result prog" where
  "atomic_uint_operator = run_operator ct_uint"
definition atomic_uint_fetch :: "loc \<Rightarrow> (32 word) fetch_call \<Rightarrow> (32 word) result prog" where
  "atomic_uint_fetch = run_fetch ct_uint"
definition atomic_uint_fetch_member :: "loc \<Rightarrow> (32 word) fetch_member \<Rightarrow> (32 word) result prog" where
  "atomic_uint_fetch_member = run_fetch_member ct_uint"

definition atomic_long_free :: "loc \<Rightarrow> (64 word) free_call \<Rightarrow> (64 word) result prog" where
  "atomic_long_free = run_free ct_long"
definition atomic_long_member :: "loc \<Rightarrow> (64 word) member_call \<Rightarrow> (64 word) result prog" where
  "atomic_long_member = run_member ct_long"
definition atomic_long_operator :: "loc \<Rightarrow> (64 word) operator_call \<Rightarrow> (64 word) result prog" where
  "atomic_long_operator = run_operator ct_long"
definition atomic_long_fetch :: "loc \<Rightarrow> (64 word) fetch_call \<Rightarrow> (64 word) result prog" where
  "atomic_long_fetch = run_fetch ct_long"
definition atomic_long_fetch_member :: "loc \<Rightarrow> (64 word) fetch_member \<Rightarrow> (64 word) result prog" where
  "atomic_long_fetch_member = run_fetch_member ct_long"

definition atomic_ulong_free :: "loc \<Rightarrow> (64 word) free_call \<Rightarrow> (64 word) result prog" where
  "atomic_ulong_free = run_free ct_ulong"
definition atomic_ulong_member :: "loc \<Rightarrow> (64 word) member_call \<Rightarrow> (64 word) result prog" where
  "atomic_ulong_member = run_member ct_ulong"
definition atomic_ulong_operator :: "loc \<Rightarrow> (64 word) operator_call \<Rightarrow> (64 word) result prog" where
  "atomic_ulong_operator = run_operator ct_ulong"
definition atomic_ulong_fetch :: "loc \<Rightarrow> (64 word) fetch_call \<Rightarrow> (64 word) result prog" where
  "atomic_ulong_fetch = run_fetch ct_ulong"
definition atomic_ulong_fetch_member :: "loc \<Rightarrow> (64 word) fetch_member \<Rightarrow> (64 word) result prog" where
  "atomic_ulong_fetch_member = run_fetch_member ct_ulong"

definition atomic_llong_free :: "loc \<Rightarrow> (64 word) free_call \<Rightarrow> (64 word) result prog" where
  "atomic_llong_free = run_free ct_llong"
definition atomic_llong_member :: "loc \<Rightarrow> (64 word) member_call \<Rightarrow> (64 word) result prog" where
  "atomic_llong_member = run_member ct_llong"
definition atomic_llong_operator :: "loc \<Rightarrow> (64 word) operator_call \<Rightarrow> (64 word) result prog" where
  "atomic_llong_operator = run_operator ct_llong"
definition atomic_llong_fetch :: "loc \<Rightarrow> (64 word) fetch_call \<Rightarrow> (64 word) result prog" where
  "atomic_llong_fetch = run_fetch ct_llong"
definition atomic_llong_fetch_member :: "loc \<Rightarrow> (64 word) fetch_member \<Rightarrow> (64 word) result prog" where
  "atomic_llong_fetch_member = run_fetch_member ct_llong"

definition atomic_ullong_free :: "loc \<Rightarrow> (64 word) free_call \<Rightarrow> (64 word) result prog" where
  "atomic_ullong_free = run_free ct_ullong"
definition atomic_ullong_member :: "loc \<Rightarrow> (64 word) member_call \<Rightarrow> (64 word) result prog" where
  "atomic_ullong_member = run_member ct_ullong"
definition atomic_ullong_operator :: "loc \<Rightarrow> (64 word) operator_call \<Rightarrow> (64 word) result prog" where
  "atomic_ullong_operator = run_operator ct_ullong"
definition atomic_ullong_fetch :: "loc \<Rightarrow> (64 word) fetch_call \<Rightarrow> (64 word) result prog" where
  "atomic_ullong_fetch = run_fetch ct_ullong"
definition atomic_ullong_fetch_member :: "loc \<Rightarrow> (64 word) fetch_member \<Rightarrow> (64 word) result prog" where
  "atomic_ullong_fetch_member = run_fetch_member ct_ullong"

definition atomic_wchar_t_free :: "loc \<Rightarrow> (32 word) free_call \<Rightarrow> (32 word) result prog" where
  "atomic_wchar_t_free = run_free ct_wchar_t"
definition atomic_wchar_t_member :: "loc \<Rightarrow> (32 word) member_call \<Rightarrow> (32 word) result prog" where
  "atomic_wchar_t_member = run_member ct_wchar_t"
definition atomic_wchar_t_operator :: "loc \<Rightarrow> (32 word) operator_call \<Rightarrow> (32 word) result prog" where
  "atomic_wchar_t_operator = run_operator ct_wchar_t"
definition atomic_wchar_t_fetch :: "loc \<Rightarrow> (32 word) fetch_call \<Rightarrow> (32 word) result prog" where
  "atomic_wchar_t_fetch = run_fetch ct_wchar_t"
definition atomic_wchar_t_fetch_member :: "loc \<Rightarrow> (32 word) fetch_member \<Rightarrow> (32 word) result prog" where
  "atomic_wchar_t_fetch_member = run_fetch_member ct_wchar_t"

subsection \<open>The class templates and the C macros\<close>

text \<open>The members of \<open>atomic<T>\<close> expand the macros; \<open>operator =\<close> stores.\<close>

definition template_compare_exchange_weak ::
  "'v ctype \<Rightarrow> loc \<Rightarrow> 'v \<Rightarrow> 'v \<Rightarrow> memory_order \<Rightarrow> memory_order \<Rightarrow> 'v result prog" where
  "template_compare_exchange_weak ct a r v x y = ret_cas (ATOMIC_CMPSWP_WEAK ct a r v x)"

definition template_compare_exchange_strong ::
  "'v ctype \<Rightarrow> loc \<Rightarrow> 'v \<Rightarrow> 'v \<Rightarrow> memory_order \<Rightarrow> memory_order \<Rightarrow> 'v result prog" where
  "template_compare_exchange_strong ct a r v x y = ret_cas (ATOMIC_CMPSWP ct a r v x)"

fun run_template :: "'v ctype \<Rightarrow> loc \<Rightarrow> 'v member_call \<Rightarrow> 'v result prog" where
  "run_template ct a M_is_lock_free = Ret (RBool False)"
| "run_template ct a (M_store v x) = ret_unit (ATOMIC_STORE ct a v x)"
| "run_template ct a (M_load x) = ret_val (ATOMIC_LOAD ct a x)"
| "run_template ct a (M_exchange v x) = ret_val (ATOMIC_MODIFY ct a (\<lambda>old v. v) v x)"
| "run_template ct a (M_compare_exchange_weak2 r v x y) = template_compare_exchange_weak ct a r v x y"
| "run_template ct a (M_compare_exchange_strong2 r v x y) = template_compare_exchange_strong ct a r v x y"
| "run_template ct a (M_compare_exchange_weak r v x) =
     template_compare_exchange_weak ct a r v x (failure_order x)"
| "run_template ct a (M_compare_exchange_strong r v x) =
     template_compare_exchange_strong ct a r v x (failure_order x)"

definition template_assign :: "'v ctype \<Rightarrow> loc \<Rightarrow> 'v \<Rightarrow> 'v result prog" where
  "template_assign ct a v =
     then_prog (run_template ct a (M_store v memory_order_seq_cst)) (\<lambda>_. Ret (RVal v))"

text \<open>
  The specialisations \<open>atomic<bool>\<close>, \<open>atomic<int>\<close>, ... inherit everything from the struct of
  their type and redefine the assignment with the same body.
\<close>

definition specialised_assign :: "'v ctype \<Rightarrow> loc \<Rightarrow> 'v \<Rightarrow> 'v result prog" where
  "specialised_assign ct a v =
     then_prog (run_member ct a (M_store v memory_order_seq_cst)) (\<lambda>_. Ret (RVal v))"

text \<open>
  \<open>atomic<T*>\<close> over \<open>atomic_address\<close>, for a \<open>T\<close> of \<open>sz\<close> bytes: offsets count elements. Its
  \<open>operator +=\<close> and \<open>operator -=\<close> take a pointer where an offset is needed; they do not compile
  when used and are left out.
\<close>

datatype pointer_call =
    P_load memory_order | P_exchange "64 word" memory_order
  | P_compare_exchange_weak2 "64 word" "64 word" memory_order memory_order
  | P_compare_exchange_strong2 "64 word" "64 word" memory_order memory_order
  | P_compare_exchange_weak "64 word" "64 word" memory_order
  | P_compare_exchange_strong "64 word" "64 word" memory_order
  | P_fetch_add "64 word" memory_order | P_fetch_sub "64 word" memory_order

fun run_pointer :: "64 word \<Rightarrow> loc \<Rightarrow> pointer_call \<Rightarrow> 64 word result prog" where
  "run_pointer sz a (P_load x) = atomic_address_member a (M_load x)"
| "run_pointer sz a (P_exchange v x) = atomic_address_member a (M_exchange v x)"
| "run_pointer sz a (P_compare_exchange_weak2 r v x y) =
     atomic_address_member a (M_compare_exchange_weak2 r v x y)"
| "run_pointer sz a (P_compare_exchange_strong2 r v x y) =
     atomic_address_member a (M_compare_exchange_strong2 r v x y)"
| "run_pointer sz a (P_compare_exchange_weak r v x) =
     atomic_address_member a (M_compare_exchange_weak2 r v x (failure_order x))"
| "run_pointer sz a (P_compare_exchange_strong r v x) =
     atomic_address_member a (M_compare_exchange_strong2 r v x (failure_order x))"
| "run_pointer sz a (P_fetch_add v x) = atomic_address_fetch a (A_fetch_add_explicit (sz * v) x)"
| "run_pointer sz a (P_fetch_sub v x) = atomic_address_fetch a (A_fetch_sub_explicit (sz * v) x)"

datatype pointer_operator =
  P_assign "64 word" | P_post_inc | P_post_dec | P_pre_inc | P_pre_dec

fun run_pointer_operator :: "64 word \<Rightarrow> loc \<Rightarrow> pointer_operator \<Rightarrow> 64 word result prog" where
  "run_pointer_operator sz a (P_assign v) =
     then_prog (atomic_address_member a (M_store v memory_order_seq_cst)) (\<lambda>_. Ret (RVal v))"
| "run_pointer_operator sz a P_post_inc = run_pointer sz a (P_fetch_add 1 memory_order_seq_cst)"
| "run_pointer_operator sz a P_post_dec = run_pointer sz a (P_fetch_sub 1 memory_order_seq_cst)"
| "run_pointer_operator sz a P_pre_inc =
     map_val (\<lambda>r. r + sz) (run_pointer sz a (P_fetch_add 1 memory_order_seq_cst))"
| "run_pointer_operator sz a P_pre_dec =
     map_val (\<lambda>r. r - sz) (run_pointer sz a (P_fetch_sub 1 memory_order_seq_cst))"

text \<open>In C the functions are macros.\<close>

fun run_c_macro :: "'v ctype \<Rightarrow> loc \<Rightarrow> 'v free_call \<Rightarrow> 'v result prog" where
  "run_c_macro ct a Is_lock_free = Ret (RBool False)"
| "run_c_macro ct a Load = ret_val (ATOMIC_LOAD ct a memory_order_seq_cst)"
| "run_c_macro ct a (Load_explicit x) = ret_val (ATOMIC_LOAD ct a x)"
| "run_c_macro ct a (Init m) = ret_unit (ATOMIC_INIT_MACRO ct a m)"
| "run_c_macro ct a (Store m) = ret_unit (ATOMIC_STORE ct a m memory_order_seq_cst)"
| "run_c_macro ct a (Store_explicit m x) = ret_unit (ATOMIC_STORE ct a m x)"
| "run_c_macro ct a (Exchange m) = ret_val (ATOMIC_MODIFY ct a (\<lambda>old v. v) m memory_order_seq_cst)"
| "run_c_macro ct a (Exchange_explicit m x) = ret_val (ATOMIC_MODIFY ct a (\<lambda>old v. v) m x)"
| "run_c_macro ct a (Compare_exchange_weak e m) = ret_cas (ATOMIC_CMPSWP_WEAK ct a e m memory_order_seq_cst)"
| "run_c_macro ct a (Compare_exchange_strong e m) = ret_cas (ATOMIC_CMPSWP ct a e m memory_order_seq_cst)"
| "run_c_macro ct a (Compare_exchange_weak_explicit e m x y) = ret_cas (ATOMIC_CMPSWP_WEAK ct a e m x)"
| "run_c_macro ct a (Compare_exchange_strong_explicit e m x y) = ret_cas (ATOMIC_CMPSWP ct a e m x)"

fun run_c_fetch_macro :: "('w::len) word ctype \<Rightarrow> loc \<Rightarrow> 'w word fetch_call \<Rightarrow> 'w word result prog" where
  "run_c_fetch_macro ct a (Fetch_add_explicit m x) = ret_val (ATOMIC_MODIFY ct a (+) m x)"
| "run_c_fetch_macro ct a (Fetch_add m) = ret_val (ATOMIC_MODIFY ct a (+) m memory_order_seq_cst)"
| "run_c_fetch_macro ct a (Fetch_sub_explicit m x) = ret_val (ATOMIC_MODIFY ct a (-) m x)"
| "run_c_fetch_macro ct a (Fetch_sub m) = ret_val (ATOMIC_MODIFY ct a (-) m memory_order_seq_cst)"
| "run_c_fetch_macro ct a (Fetch_and_explicit m x) = ret_val (ATOMIC_MODIFY ct a (AND) m x)"
| "run_c_fetch_macro ct a (Fetch_and m) = ret_val (ATOMIC_MODIFY ct a (AND) m memory_order_seq_cst)"
| "run_c_fetch_macro ct a (Fetch_or_explicit m x) = ret_val (ATOMIC_MODIFY ct a (OR) m x)"
| "run_c_fetch_macro ct a (Fetch_or m) = ret_val (ATOMIC_MODIFY ct a (OR) m memory_order_seq_cst)"
| "run_c_fetch_macro ct a (Fetch_xor_explicit m x) = ret_val (ATOMIC_MODIFY ct a (XOR) m x)"
| "run_c_fetch_macro ct a (Fetch_xor m) = ret_val (ATOMIC_MODIFY ct a (XOR) m memory_order_seq_cst)"

subsection \<open>The flag\<close>

definition atomic_flag_test_and_set_explicit :: "loc \<Rightarrow> memory_order \<Rightarrow> bool prog" where
  "atomic_flag_test_and_set_explicit a x =
     then_prog (model_rmwr_action a x) (\<lambda>r.
       then_prog (model_rmw_action a x 1) (\<lambda>_. Ret (r \<noteq> 0)))"

definition atomic_flag_test_and_set :: "loc \<Rightarrow> bool prog" where
  "atomic_flag_test_and_set a = atomic_flag_test_and_set_explicit a memory_order_seq_cst"

definition atomic_flag_clear_explicit :: "loc \<Rightarrow> memory_order \<Rightarrow> unit prog" where
  "atomic_flag_clear_explicit a x = model_write_action a x 0"

definition atomic_flag_clear :: "loc \<Rightarrow> unit prog" where
  "atomic_flag_clear a = atomic_flag_clear_explicit a memory_order_seq_cst"

text \<open>The waiting loops, for at most \<open>n\<close> rounds; \<open>None\<close> when the flag was never found clear.\<close>

fun atomic_flag_wait_explicit :: "nat \<Rightarrow> loc \<Rightarrow> memory_order \<Rightarrow> unit option prog" where
  "atomic_flag_wait_explicit 0 a x = Ret None"
| "atomic_flag_wait_explicit (Suc n) a x =
     then_prog (atomic_flag_test_and_set_explicit a x) (\<lambda>b.
       if b then atomic_flag_wait_explicit n a x else Ret (Some ()))"

definition atomic_flag_wait :: "nat \<Rightarrow> loc \<Rightarrow> unit option prog" where
  "atomic_flag_wait n a = atomic_flag_wait_explicit n a memory_order_seq_cst"

subsection \<open>The protocol of read-modify-write actions\<close>

text \<open>
  The checker requires that the read part of a read-modify-write is followed directly by its
  write part, or by the action that closes it without a write, at the same location and with
  the same order, whatever value was read.
\<close>

primrec protocol :: "'a prog \<Rightarrow> (loc \<times> memory_order) option \<Rightarrow> bool" where
  "protocol (Ret a) pend \<longleftrightarrow> pend = None"
| "protocol (Act r k) pend \<longleftrightarrow>
     (case pend of
        None \<Rightarrow> rq_type r \<noteq> ATOMIC_RMW \<and> rq_type r \<noteq> ATOMIC_RMWC \<and>
          (\<forall>v. protocol (k v) (if rq_type r = ATOMIC_RMWR then Some (rq_loc r, rq_order r) else None))
      | Some (l, x) \<Rightarrow> (rq_type r = ATOMIC_RMW \<or> rq_type r = ATOMIC_RMWC) \<and> rq_loc r = l \<and>
          rq_order r = x \<and> (\<forall>v. protocol (k v) None))"

lemma protocol_then:
  "protocol p pend \<Longrightarrow> (\<And>a. protocol (f a) None) \<Longrightarrow> protocol (then_prog p f) pend"
  by (induction p arbitrary: pend) (auto split: option.splits)

lemmas action_defs = request_def model_read_action_def model_write_action_def model_init_action_def
  model_rmwr_action_def model_rmw_action_def model_rmwc_action_def model_fence_action_def

lemmas macro_defs = ATOMIC_LOAD_def ATOMIC_STORE_def ATOMIC_INIT_MACRO_def ATOMIC_MODIFY_def
  ATOMIC_CMPSWP_def ATOMIC_CMPSWP_WEAK_def ATOMIC_FENCE_MACRO_def

lemma protocol_macros:
  "protocol (ATOMIC_LOAD ct a x) None" "protocol (ATOMIC_STORE ct a m x) None"
  "protocol (ATOMIC_INIT_MACRO ct a m) None" "protocol (ATOMIC_MODIFY ct a f m x) None"
  "protocol (ATOMIC_CMPSWP ct a e m x) None" "protocol (ATOMIC_FENCE_MACRO x) None"
  "protocol (atomic_address_fetch_explicit g a w x) None"
  "protocol (atomic_flag_test_and_set_explicit a x) None"
  "protocol (atomic_flag_clear_explicit a x) None"
  by (simp_all add: macro_defs action_defs Let_def atomic_address_fetch_explicit_def
      atomic_flag_test_and_set_explicit_def atomic_flag_clear_explicit_def)

lemma protocol_results:
  "protocol p None \<Longrightarrow> protocol (ret_unit p) None"
  "protocol q None \<Longrightarrow> protocol (ret_val q) None"
  "protocol r None \<Longrightarrow> protocol (ret_cas r) None"
  "protocol s None \<Longrightarrow> protocol (map_val f s) None"
  unfolding ret_unit_def ret_val_def ret_cas_def map_val_def
  by (auto intro!: protocol_then split: prod.splits)

lemma protocol_free: "protocol (run_free ct a c) None"
  by (cases c) (simp_all add: free_defs protocol_macros protocol_results)

lemma protocol_member: "protocol (run_member ct a c) None"
  by (cases c) (simp_all add: protocol_free del: run_free.simps)

lemma protocol_fetch: "protocol (run_fetch ct a c) None"
  by (cases c) (simp_all add: fetch_defs protocol_macros protocol_results)

lemma protocol_fetch_member: "protocol (run_fetch_member ct a c) None"
  by (cases c) (simp_all add: protocol_fetch del: run_fetch.simps)

lemma protocol_operator: "protocol (run_operator ct a c) None"
  by (cases c) (auto simp: protocol_fetch_member protocol_member
      intro!: protocol_results protocol_then simp del: run_fetch_member.simps run_member.simps)

lemma protocol_address: "protocol (atomic_address_fetch a c) None"
  by (cases c) (simp_all add: protocol_macros protocol_results)

lemma protocol_flag_wait: "protocol (atomic_flag_wait_explicit n a x) None"
  by (induction n) (auto intro!: protocol_then protocol_macros)

text \<open>
  C38: every operation of the atomics interface keeps the checker's protocol: whatever the checker
  answers, each read part of a read-modify-write is closed by the very next action, at the same
  location and with the same memory order, and no closing action comes unopened.
\<close>

theorem atomics_keep_rmw_protocol:
  "protocol (run_free ct a c) None \<and> protocol (run_member ct a d) None \<and>
   protocol (run_fetch wt a e) None \<and> protocol (run_operator wt a f) None \<and>
   protocol (atomic_address_fetch a g) None \<and> protocol (atomic_flag_wait_explicit n a x) None"
  by (intro conjI protocol_free protocol_member protocol_fetch protocol_operator protocol_address
      protocol_flag_wait)

text \<open>
  the three front ends agree: the C macros and the members of \<open>atomic<T>\<close> hand out the same
  actions and return the same results as the C++ functions and members of the named types, so in
  particular a compare-exchange never looks at its failure order.
\<close>

theorem front_ends_agree:
  "run_c_macro ct a c = run_free ct a c \<and> run_c_fetch_macro wt a f = run_fetch wt a f \<and>
   run_template ct a d = run_member ct a d \<and> template_assign ct a v = specialised_assign ct a v \<and>
   run_free ct a (Compare_exchange_strong_explicit e m x y) =
     run_free ct a (Compare_exchange_strong_explicit e m x z)"
proof (intro conjI)
  show "run_c_macro ct a c = run_free ct a c" by (cases c) (simp_all add: free_defs)
  show "run_c_fetch_macro wt a f = run_fetch wt a f" by (cases f) (simp_all add: fetch_defs)
  show "run_template ct a d = run_member ct a d"
    by (cases d) (simp_all add: free_defs template_compare_exchange_weak_def template_compare_exchange_strong_def)
  show "template_assign ct a v = specialised_assign ct a v"
    by (simp add: template_assign_def specialised_assign_def free_defs)
qed (simp add: free_defs)

subsection \<open>Sequentially consistent execution\<close>

definition sc_step :: "mreq \<Rightarrow> (loc \<Rightarrow> u64) \<Rightarrow> u64 \<times> (loc \<Rightarrow> u64)" where
  "sc_step r m =
     (if rq_type r = ATOMIC_READ \<or> rq_type r = ATOMIC_RMWR then (m (rq_loc r), m)
      else if rq_type r = ATOMIC_WRITE \<or> rq_type r = ATOMIC_INIT \<or> rq_type r = ATOMIC_RMW
      then (0, m(rq_loc r := rq_value r)) else (0, m))"

primrec run_sc :: "'a prog \<Rightarrow> (loc \<Rightarrow> u64) \<Rightarrow> 'a \<times> (loc \<Rightarrow> u64)" where
  "run_sc (Ret a) = (\<lambda>m. (a, m))"
| "run_sc (Act r k) = (\<lambda>m. let (v, m') = sc_step r m in run_sc (k v) m')"

lemma run_sc_then: "run_sc (then_prog p f) m = (let (a, m') = run_sc p m in run_sc (f a) m')"
  by (induction p arbitrary: m) (auto simp: Let_def split: prod.splits)

text \<open>A type's values survive the way through \<open>uint64_t\<close>.\<close>

definition ctype_ok :: "'v ctype \<Rightarrow> bool" where
  "ctype_ok ct \<longleftrightarrow> (\<forall>v. of_u64 ct (to_u64 ct v) = v)"

lemma ctype_okD: "ctype_ok ct \<Longrightarrow> of_u64 ct (to_u64 ct v) = v"
  by (simp add: ctype_ok_def)

lemma ctype_ok_unsigned: "LENGTH('w) \<le> 64 \<Longrightarrow> ctype_ok (unsigned_type :: ('w::len) word ctype)"
  by (auto simp: ctype_ok_def unsigned_type_def intro!: bit_word_eqI simp: bit_simps)

lemma ctype_ok_signed: "LENGTH('w) \<le> 64 \<Longrightarrow> ctype_ok (signed_type :: ('w::len) word ctype)"
  by (auto simp: ctype_ok_def signed_type_def intro!: bit_word_eqI simp: bit_simps)

text \<open>
  no value of any of the 14 atomic types is lost in the 64 bits that the checker keeps: casting
  it to \<open>uint64_t\<close> and back returns it, for signed and unsigned types of every width.
\<close>

theorem all_types_roundtrip:
  "ctype_ok ct_bool \<and> ctype_ok ct_address \<and> ctype_ok ct_char \<and> ctype_ok ct_schar \<and> ctype_ok ct_uchar \<and>
   ctype_ok ct_short \<and> ctype_ok ct_ushort \<and> ctype_ok ct_int \<and> ctype_ok ct_uint \<and> ctype_ok ct_long \<and>
   ctype_ok ct_ulong \<and> ctype_ok ct_llong \<and> ctype_ok ct_ullong \<and> ctype_ok ct_wchar_t"
proof -
  have "ctype_ok ct_bool" by (simp add: ctype_ok_def ct_bool_def)
  then show ?thesis
    by (simp add: ct_address_def ct_char_def ct_schar_def ct_uchar_def ct_short_def ct_ushort_def
        ct_int_def ct_uint_def ct_long_def ct_ulong_def ct_llong_def ct_ullong_def ct_wchar_t_def
        ctype_ok_unsigned ctype_ok_signed)
qed

text \<open>What an operation returns and leaves behind, on the value of the object alone.\<close>

definition cas_spec :: "'v \<Rightarrow> 'v \<Rightarrow> 'v \<Rightarrow> 'v result \<times> 'v" where
  "cas_spec e v old = (if old = e then (RCas True e, v) else (RCas False old, old))"

fun free_spec :: "'v free_call \<Rightarrow> 'v \<Rightarrow> 'v result \<times> 'v" where
  "free_spec Is_lock_free old = (RBool False, old)"
| "free_spec (Load_explicit x) old = (RVal old, old)"
| "free_spec Load old = (RVal old, old)"
| "free_spec (Init v) old = (RUnit, v)"
| "free_spec (Store_explicit v x) old = (RUnit, v)"
| "free_spec (Store v) old = (RUnit, v)"
| "free_spec (Exchange_explicit v x) old = (RVal old, v)"
| "free_spec (Exchange v) old = (RVal old, v)"
| "free_spec (Compare_exchange_weak_explicit e v x y) old = cas_spec e v old"
| "free_spec (Compare_exchange_strong_explicit e v x y) old = cas_spec e v old"
| "free_spec (Compare_exchange_weak e v) old = cas_spec e v old"
| "free_spec (Compare_exchange_strong e v) old = cas_spec e v old"

fun member_spec :: "'v member_call \<Rightarrow> 'v \<Rightarrow> 'v result \<times> 'v" where
  "member_spec M_is_lock_free old = (RBool False, old)"
| "member_spec (M_store v x) old = (RUnit, v)"
| "member_spec (M_load x) old = (RVal old, old)"
| "member_spec (M_exchange v x) old = (RVal old, v)"
| "member_spec (M_compare_exchange_weak2 e v x y) old = cas_spec e v old"
| "member_spec (M_compare_exchange_strong2 e v x y) old = cas_spec e v old"
| "member_spec (M_compare_exchange_weak e v x) old = cas_spec e v old"
| "member_spec (M_compare_exchange_strong e v x) old = cas_spec e v old"

fun fetch_spec :: "('w::len) word fetch_call \<Rightarrow> 'w word \<Rightarrow> 'w word result \<times> 'w word" where
  "fetch_spec (Fetch_add_explicit v x) old = (RVal old, old + v)"
| "fetch_spec (Fetch_add v) old = (RVal old, old + v)"
| "fetch_spec (Fetch_sub_explicit v x) old = (RVal old, old - v)"
| "fetch_spec (Fetch_sub v) old = (RVal old, old - v)"
| "fetch_spec (Fetch_and_explicit v x) old = (RVal old, old AND v)"
| "fetch_spec (Fetch_and v) old = (RVal old, old AND v)"
| "fetch_spec (Fetch_or_explicit v x) old = (RVal old, old OR v)"
| "fetch_spec (Fetch_or v) old = (RVal old, old OR v)"
| "fetch_spec (Fetch_xor_explicit v x) old = (RVal old, old XOR v)"
| "fetch_spec (Fetch_xor v) old = (RVal old, old XOR v)"

fun fetch_member_spec :: "('w::len) word fetch_member \<Rightarrow> 'w word \<Rightarrow> 'w word result \<times> 'w word" where
  "fetch_member_spec (M_fetch_add v x) old = (RVal old, old + v)"
| "fetch_member_spec (M_fetch_sub v x) old = (RVal old, old - v)"
| "fetch_member_spec (M_fetch_and v x) old = (RVal old, old AND v)"
| "fetch_member_spec (M_fetch_or v x) old = (RVal old, old OR v)"
| "fetch_member_spec (M_fetch_xor v x) old = (RVal old, old XOR v)"

text \<open>Addresses: the compound assignments return the value before the assignment.\<close>

fun address_fetch_spec :: "address_fetch \<Rightarrow> 64 word \<Rightarrow> 64 word result \<times> 64 word" where
  "address_fetch_spec (A_fetch_add_explicit v x) old = (RVal old, old + v)"
| "address_fetch_spec (A_fetch_add v) old = (RVal old, old + v)"
| "address_fetch_spec (A_fetch_sub_explicit v x) old = (RVal old, old - v)"
| "address_fetch_spec (A_fetch_sub v) old = (RVal old, old - v)"

fun address_fetch_member_spec :: "address_fetch_member \<Rightarrow> 64 word \<Rightarrow> 64 word result \<times> 64 word" where
  "address_fetch_member_spec (A_member_fetch_add v x) old = (RVal old, old + v)"
| "address_fetch_member_spec (A_member_fetch_sub v x) old = (RVal old, old - v)"

fun address_operator_spec :: "address_operator \<Rightarrow> 64 word \<Rightarrow> 64 word result \<times> 64 word" where
  "address_operator_spec (A_assign v) old = (RVal v, v)"
| "address_operator_spec (A_add_assign v) old = (RVal old, old + v)"
| "address_operator_spec (A_sub_assign v) old = (RVal old, old - v)"

text \<open>Pointers to objects of \<open>sz\<close> bytes.\<close>

fun pointer_spec :: "64 word \<Rightarrow> pointer_call \<Rightarrow> 64 word \<Rightarrow> 64 word result \<times> 64 word" where
  "pointer_spec sz (P_load x) old = (RVal old, old)"
| "pointer_spec sz (P_exchange v x) old = (RVal old, v)"
| "pointer_spec sz (P_compare_exchange_weak2 e v x y) old = cas_spec e v old"
| "pointer_spec sz (P_compare_exchange_strong2 e v x y) old = cas_spec e v old"
| "pointer_spec sz (P_compare_exchange_weak e v x) old = cas_spec e v old"
| "pointer_spec sz (P_compare_exchange_strong e v x) old = cas_spec e v old"
| "pointer_spec sz (P_fetch_add v x) old = (RVal old, old + sz * v)"
| "pointer_spec sz (P_fetch_sub v x) old = (RVal old, old - sz * v)"

fun pointer_operator_spec :: "64 word \<Rightarrow> pointer_operator \<Rightarrow> 64 word \<Rightarrow> 64 word result \<times> 64 word" where
  "pointer_operator_spec sz (P_assign v) old = (RVal v, v)"
| "pointer_operator_spec sz P_post_inc old = (RVal old, old + sz)"
| "pointer_operator_spec sz P_post_dec old = (RVal old, old - sz)"
| "pointer_operator_spec sz P_pre_inc old = (RVal (old + sz), old + sz)"
| "pointer_operator_spec sz P_pre_dec old = (RVal (old - sz), old - sz)"

fun operator_spec :: "('w::len) word operator_call \<Rightarrow> 'w word \<Rightarrow> 'w word result \<times> 'w word" where
  "operator_spec (Op_assign v) old = (RVal v, v)"
| "operator_spec Op_post_inc old = (RVal old, old + 1)"
| "operator_spec Op_post_dec old = (RVal old, old - 1)"
| "operator_spec Op_pre_inc old = (RVal (old + 1), old + 1)"
| "operator_spec Op_pre_dec old = (RVal (old - 1), old - 1)"
| "operator_spec (Op_add_assign v) old = (RVal (old + v), old + v)"
| "operator_spec (Op_sub_assign v) old = (RVal (old - v), old - v)"
| "operator_spec (Op_and_assign v) old = (RVal (old AND v), old AND v)"
| "operator_spec (Op_or_assign v) old = (RVal (old OR v), old OR v)"
| "operator_spec (Op_xor_assign v) old = (RVal (old XOR v), old XOR v)"

text \<open>A run meets a specification at an object: result, new value, and all other objects kept.\<close>

definition meets :: "'v ctype \<Rightarrow> loc \<Rightarrow> 'v result prog \<Rightarrow> ('v \<Rightarrow> 'v result \<times> 'v) \<Rightarrow> bool" where
  "meets ct a p spec \<longleftrightarrow>
     (\<forall>m r m'. run_sc p m = (r, m') \<longrightarrow>
        r = fst (spec (of_u64 ct (m a))) \<and> of_u64 ct (m' a) = snd (spec (of_u64 ct (m a))) \<and>
        (\<forall>b. b \<noteq> a \<longrightarrow> m' b = m b))"

lemmas sc_simps = macro_defs action_defs run_sc_then sc_step_def Let_def ret_unit_def ret_val_def
  ret_cas_def map_val_def

lemma run_sc_macros:
  "run_sc (ATOMIC_LOAD ct a x) m = (of_u64 ct (m a), m)"
  "run_sc (ATOMIC_STORE ct a v x) m = ((), m(a := to_u64 ct v))"
  "run_sc (ATOMIC_INIT_MACRO ct a v) m = ((), m(a := to_u64 ct v))"
  "run_sc (ATOMIC_MODIFY ct a f v x) m = (of_u64 ct (m a), m(a := to_u64 ct (f (of_u64 ct (m a)) v)))"
  "run_sc (ATOMIC_CMPSWP ct a e v x) m =
     (if of_u64 ct (m a) = e then ((True, e), m(a := to_u64 ct v)) else ((False, of_u64 ct (m a)), m))"
  "run_sc (atomic_address_fetch_explicit g a w x) m = (m a, m(a := g (m a) w))"
  by (simp_all add: sc_simps atomic_address_fetch_explicit_def ct_address_def unsigned_type_def)

lemma run_sc_results:
  "run_sc (ret_unit p) m = (RUnit, snd (run_sc p m))"
  "run_sc (ret_val q) m = (RVal (fst (run_sc q m)), snd (run_sc q m))"
  "run_sc (ret_cas s) m = (RCas (fst (fst (run_sc s m))) (snd (fst (run_sc s m))), snd (run_sc s m))"
  by (simp_all add: ret_unit_def ret_val_def ret_cas_def run_sc_then split_beta Let_def)

lemma meets_free: "ctype_ok ct \<Longrightarrow> meets ct a (run_free ct a c) (free_spec c)"
  by (cases c) (auto simp: meets_def free_defs run_sc_results run_sc_macros cas_spec_def ctype_okD
      split: if_splits)

lemma run_sc_operator:
  "run_sc (map_val f (ret_val q)) m = (RVal (f (fst (run_sc q m))), snd (run_sc q m))"
  by (simp add: map_val_def ret_val_def run_sc_then split_beta Let_def)

lemma meets_operator: "ctype_ok ct \<Longrightarrow> meets ct a (run_operator ct a c) (operator_spec c)"
  by (cases c) (auto simp: meets_def fetch_defs free_defs run_sc_results run_sc_operator run_sc_macros
      run_sc_then ctype_okD)

lemma meets_member: "ctype_ok ct \<Longrightarrow> meets ct a (run_member ct a c) (member_spec c)"
  by (cases c) (auto simp: meets_def free_defs run_sc_results run_sc_macros cas_spec_def ctype_okD
      split: if_splits)

lemma meets_fetch: "ctype_ok ct \<Longrightarrow> meets ct a (run_fetch ct a c) (fetch_spec c)"
  by (cases c) (auto simp: meets_def fetch_defs run_sc_results run_sc_macros ctype_okD)

lemma meets_fetch_member: "ctype_ok ct \<Longrightarrow> meets ct a (run_fetch_member ct a c) (fetch_member_spec c)"
  by (cases c) (auto simp: meets_def fetch_defs run_sc_results run_sc_macros ctype_okD)

lemma of_u64_address [simp]: "of_u64 ct_address v = v" "to_u64 ct_address v = v"
  by (simp_all add: ct_address_def unsigned_type_def)

lemma meets_address:
  "meets ct_address a (atomic_address_fetch a c) (address_fetch_spec c)"
  "meets ct_address a (atomic_address_fetch_member a d) (address_fetch_member_spec d)"
  "meets ct_address a (atomic_address_operator a p) (address_operator_spec p)"
proof -
  show "meets ct_address a (atomic_address_fetch a c) (address_fetch_spec c)"
    by (cases c) (auto simp: meets_def run_sc_results run_sc_macros)
  show "meets ct_address a (atomic_address_fetch_member a d) (address_fetch_member_spec d)"
    by (cases d) (auto simp: meets_def run_sc_results run_sc_macros)
  show "meets ct_address a (atomic_address_operator a p) (address_operator_spec p)"
    by (cases p) (auto simp: meets_def free_defs run_sc_results run_sc_macros run_sc_then)
qed

lemma meets_pointer:
  "meets ct_address a (run_pointer sz a c) (pointer_spec sz c)"
  "meets ct_address a (run_pointer_operator sz a p) (pointer_operator_spec sz p)"
proof -
  show "meets ct_address a (run_pointer sz a c) (pointer_spec sz c)"
    by (cases c) (auto simp: meets_def atomic_address_member_def free_defs run_sc_results run_sc_macros
        cas_spec_def split: if_splits)
  show "meets ct_address a (run_pointer_operator sz a p) (pointer_operator_spec sz p)"
    by (cases p) (auto simp: meets_def atomic_address_member_def free_defs run_sc_results run_sc_macros
        run_sc_operator run_sc_then)
qed

lemma run_sc_flag:
  "run_sc (atomic_flag_test_and_set_explicit a x) m = (m a \<noteq> 0, m(a := 1))"
  "run_sc (atomic_flag_clear_explicit a x) m = ((), m(a := 0))"
  by (simp_all add: atomic_flag_test_and_set_explicit_def atomic_flag_clear_explicit_def sc_simps)

text \<open>
  C26: under sequential consistency the atomics return the specified result, leave the specified
  value and touch no other object. For every type whose values survive the cast: the free
  functions and the members; for the integral types also the fetch functions, the fetch members
  and the operators, whose compound assignments return the new value, modulo the width;
  \<open>atomic_bool\<close>'s assignment; for \<open>atomic_address\<close> its fetch functions and members and its operators,
  whose compound assignments return the old value; \<open>atomic<T*>\<close>, which counts in objects; and
  \<open>test_and_set\<close> and \<open>clear\<close> of the flag, with any memory order. A compare-exchange succeeds exactly
  when the value equals the expected one and otherwise stores the value read into the latter.
\<close>

theorem atomics_meet_specification:
  assumes "ctype_ok ct" "ctype_ok wt"
  shows "meets ct a (run_free ct a c) (free_spec c) \<and> meets ct a (run_member ct a d) (member_spec d) \<and>
    meets wt a (run_fetch wt a e) (fetch_spec e) \<and> meets wt a (run_fetch_member wt a f) (fetch_member_spec f) \<and>
    meets wt a (run_operator wt a g) (operator_spec g) \<and>
    meets ct_bool a (atomic_bool_assign a v) (\<lambda>old. (RVal v, v)) \<and>
    meets ct_address a (atomic_address_fetch a h) (address_fetch_spec h) \<and>
    meets ct_address a (atomic_address_fetch_member a i) (address_fetch_member_spec i) \<and>
    meets ct_address a (atomic_address_operator a j) (address_operator_spec j) \<and>
    meets ct_address a (run_pointer sz a k) (pointer_spec sz k) \<and>
    meets ct_address a (run_pointer_operator sz a l) (pointer_operator_spec sz l) \<and>
    run_sc (atomic_flag_test_and_set_explicit a x) m = (m a \<noteq> 0, m(a := 1)) \<and>
    run_sc (atomic_flag_clear_explicit a x) m = ((), m(a := 0))"
proof -
  have "meets ct_bool a (atomic_bool_assign a v) (\<lambda>old. (RVal v, v))"
    by (auto simp: meets_def atomic_bool_assign_def free_defs run_sc_then run_sc_results run_sc_macros ct_bool_def)
  with assms show ?thesis
    by (simp add: meets_free meets_member meets_fetch meets_fetch_member meets_operator meets_address
        meets_pointer run_sc_flag)
qed

theorem atomics_meet_specification_witness:
  "meets ct_bool 8 (atomic_bool_free 8 (Exchange True)) (free_spec (Exchange True)) \<and>
   meets ct_int 8 (atomic_int_operator 8 (Op_add_assign 5)) (operator_spec (Op_add_assign 5)) \<and>
   meets ct_int 8 (atomic_int_fetch 8 (Fetch_sub 5)) (fetch_spec (Fetch_sub 5))"
proof -
  have "ctype_ok ct_bool" by (simp add: ctype_ok_def ct_bool_def)
  moreover have "ctype_ok ct_int" by (simp add: ct_int_def ctype_ok_signed)
  ultimately show ?thesis
    unfolding atomic_bool_free_def atomic_int_operator_def atomic_int_fetch_def
    using atomics_meet_specification by blast
qed

text \<open>
  unlike the operators of every integral type, the compound assignments of \<open>atomic_address\<close>
  return the value before the assignment.
\<close>

theorem address_compound_assignment_returns_old:
  "run_sc (atomic_address_operator a (A_add_assign v)) m = (RVal (m a), m(a := m a + v)) \<and>
   run_sc (atomic_address_operator a (A_sub_assign v)) m = (RVal (m a), m(a := m a - v)) \<and>
   run_sc (atomic_ulong_operator a (Op_add_assign v)) m = (RVal (m a + v), m(a := m a + v))"
  by (simp add: run_sc_results run_sc_macros atomic_ulong_operator_def fetch_defs run_sc_operator
      ct_ulong_def unsigned_type_def)

text \<open>
  the flag is a lock under sequential consistency: \<open>test_and_set\<close> returns whether the flag was set
  and sets it, a cleared flag is obtained in the first round of the waiting loop, and a set flag
  is never obtained without a \<open>clear\<close>.
\<close>

theorem flag_is_a_lock:
  "run_sc (atomic_flag_test_and_set a) m = (m a \<noteq> 0, m(a := 1)) \<and>
   run_sc (atomic_flag_wait (Suc n) a) (snd (run_sc (atomic_flag_clear a) m)) = (Some (), m(a := 1)) \<and>
   fst (run_sc (atomic_flag_wait n a) (m(a := 1))) = None"
proof -
  have tas: "run_sc (atomic_flag_test_and_set_explicit a x) m = (m a \<noteq> 0, m(a := 1))" for m x
    by (simp add: atomic_flag_test_and_set_explicit_def sc_simps)
  have "run_sc (atomic_flag_wait_explicit n a x) (m(a := 1)) = (None, m(a := 1))" for x
    by (induction n) (simp_all add: run_sc_then tas fun_upd_same del: fun_upd_apply)
  then show ?thesis
    by (simp add: atomic_flag_test_and_set_def atomic_flag_wait_def atomic_flag_clear_def
        atomic_flag_clear_explicit_def run_sc_then tas) (simp add: sc_simps)
qed

end
