(* ===== verification/SC_Analysis.thy ===== *)
theory SC_Analysis
  imports Execution_State "HOL-Library.Multiset"
begin

text \<open>
  The analysis of finished executions for sequential consistency (class \<open>SCAnalysis\<close> of
  \<open>scanalysis.h\<close>, \<open>scanalysis.cc\<close>): clock vectors of a candidate total order, the generation of the
  order with one backtracking point, and the check of the reads against it.

  A clock vector of the analysis is named by its action (\<open>cvmap\<close>); the code passes a vector only
  together with the action it belongs to. The loops \<open>while (changed)\<close> and \<open>while (true)\<close> are
  \<open>partial_function\<close>s. Timing and printing are left out.
\<close>

subsection \<open>State\<close>

record sc_statistics =
  sccount :: nat
  nonsccount :: nat
  sc_actions :: nat

record sc_analysis =
  maxthreads :: nat
  cvmap :: "act_ptr \<Rightarrow> clock_vector option"
  cyclic :: bool
  badrfset :: "act_ptr \<Rightarrow> act_ptr option option"
  lastwrmap :: "loc \<Rightarrow> act_ptr option"
  threadlists :: "act_ptr list list"
  sc_stats :: sc_statistics

definition new_sc_analysis :: sc_analysis where
  "new_sc_analysis = \<lparr>maxthreads = 0, cvmap = Map.empty, cyclic = False, badrfset = Map.empty,
     lastwrmap = Map.empty, threadlists = [[]], sc_stats = \<lparr>sccount = 0, nonsccount = 0, sc_actions = 0\<rparr>\<rparr>"

definition cv_since :: "execution \<Rightarrow> clock_vector \<Rightarrow> act_ptr \<Rightarrow> bool" where
  "cv_since s cv a = synchronized_since cv (ma_tid (ex_acts s a)) (ma_seq_number (ex_acts s a))"

subsection \<open>The threads' remaining actions\<close>

definition push_thread_list ::
  "execution \<Rightarrow> act_ptr \<Rightarrow> nat \<times> act_ptr list list \<Rightarrow> (nat \<times> act_ptr list list) option" where
  "push_thread_list s a mls = (
     let (maxthread, threadlist) = mls; t = ma_tid (ex_acts s a);
         maxthread' = (if t > maxthread then t else maxthread);
         threadlist' = (if t > maxthread then vec_resize (t + 1) [] threadlist else threadlist)
     in if t < length threadlist'
        then Some (maxthread', threadlist'[t := threadlist' ! t @ [a]]) else None)"

definition buildVectors ::
  "execution \<Rightarrow> act_ptr list \<Rightarrow> 'a sc_analysis_scheme \<Rightarrow> (nat \<times> 'a sc_analysis_scheme) option" where
  "buildVectors s list st = do {
     (m, ls) \<leftarrow> for_each (push_thread_list s) list (0, threadlists st);
     Some (length list, st\<lparr>maxthreads := m, threadlists := ls\<rparr>)
   }"

definition reset_analysis :: "act_ptr list \<Rightarrow> 'a sc_analysis_scheme \<Rightarrow> 'a sc_analysis_scheme" where
  "reset_analysis list st =
     st\<lparr>threadlists := replicate (maxthreads st + 1) [] @ drop (maxthreads st + 1) (threadlists st),
        cvmap := (\<lambda>a. if a \<in> set list then None else cvmap st a), cyclic := False\<rparr>"

subsection \<open>Clock vectors\<close>

definition merge_cv :: "execution \<Rightarrow> act_ptr \<Rightarrow> act_ptr \<Rightarrow> sc_analysis \<Rightarrow> (bool \<times> sc_analysis) option" where
  "merge_cv s act act2 st = (case cvmap st act2 of
     None \<Rightarrow> Some (True, st)
   | Some cv2 \<Rightarrow>
       if getClock cv2 (ma_tid (ex_acts s act)) \<ge> ma_seq_number (ex_acts s act) \<and>
          ma_seq_number (ex_acts s act) \<noteq> 0
       then Some (False, st\<lparr>cyclic := True\<rparr>)
       else do {
         cv \<leftarrow> cvmap st act;
         let (changed, cv) = cv_merge cv cv2;
         Some (changed, st\<lparr>cvmap := (cvmap st)(act \<mapsto> cv)\<rparr>)
       })"

text \<open>
  One action of another thread on the location of a read, visited backwards; \<open>no_writecv\<close> says that
  the store had no vector when \<open>processRead\<close> began.
\<close>

definition read_visit ::
  "execution \<Rightarrow> act_ptr \<Rightarrow> act_ptr \<Rightarrow> bool \<Rightarrow> act_ptr \<Rightarrow> bool \<times> sc_analysis \<Rightarrow>
   (bool \<times> bool \<times> sc_analysis) option" where
  "read_visit s read write no_writecv write2 cst = (
     let (changed, st) = cst
     in if \<not> is_write (ex_acts s write2) then Some (False, cst)
        else case cvmap st write2 of
          None \<Rightarrow> Some (False, cst)
        | Some write2cv \<Rightarrow> do {
            (changed, st) \<leftarrow>
              (if cv_since s write2cv write
               then do { (c, st) \<leftarrow> merge_cv s write2 read st; Some (changed \<or> c, st) }
               else Some (changed, st));
            cv \<leftarrow> cvmap st read;
            if cv_since s cv write2
            then if no_writecv then Some (True, True, st)
                 else do { (c, st) \<leftarrow> merge_cv s write write2 st; Some (True, changed \<or> c, st) }
            else Some (False, changed, st)
          })"

definition read_thread ::
  "execution \<Rightarrow> act_ptr \<Rightarrow> act_ptr \<Rightarrow> bool \<Rightarrow> thread_id \<Rightarrow> bool \<times> sc_analysis \<Rightarrow> (bool \<times> sc_analysis) option" where
  "read_thread s read write no_writecv tid cst = (
     if tid = ma_tid (ex_acts s read) \<or> tid = ma_tid (ex_acts s write) then Some cst
     else (case get_actions_on_obj s (ma_location (ex_acts s read)) tid of
         None \<Rightarrow> Some cst
       | Some list \<Rightarrow> do {
           (left, cst) \<leftarrow> for_until (read_visit s read write no_writecv) (rev list) cst;
           Some cst
         }))"

definition processRead :: "execution \<Rightarrow> act_ptr \<Rightarrow> sc_analysis \<Rightarrow> (bool \<times> sc_analysis) option" where
  "processRead s read st = do {
     write \<leftarrow> ma_reads_from (ex_acts s read);
     let no_writecv = (cvmap st write = None);
     (c, st) \<leftarrow> merge_cv s read write st;
     for_each (read_thread s read write no_writecv) [0..<maxthreads st + 1] (c \<and> act_less s read write, st)
   }"

text \<open>
  One action of a pass over the trace: its vector is created when missing, then joined with the one of
  the action before it in its thread (the creation for the start of a thread), with that of the last
  action of the thread it joins, and, for a read, with those that its store demands.
\<close>

definition previous_action :: "execution \<Rightarrow> act_ptr option list \<Rightarrow> act_ptr \<Rightarrow> act_ptr option option" where
  "previous_action s last_act a =
     (if is_thread_start (ex_acts s a) then map_option th_creation (get_thread_of s a)
      else Some (last_act ! ma_tid (ex_acts s a)))"

definition ensure_cv :: "execution \<Rightarrow> act_ptr \<Rightarrow> sc_analysis \<Rightarrow> sc_analysis" where
  "ensure_cv s a st =
     (if cvmap st a = None
      then st\<lparr>cvmap := (cvmap st)(a \<mapsto> new_clock_vector None (ma_tid (ex_acts s a)) (ma_seq_number (ex_acts s a)))\<rparr>
      else st)"

definition merge_previous :: "execution \<Rightarrow> act_ptr \<Rightarrow> act_ptr option \<Rightarrow> sc_analysis \<Rightarrow> (bool \<times> sc_analysis) option" where
  "merge_previous s a previous st =
     (case previous of Some l \<Rightarrow> merge_cv s a l st | None \<Rightarrow> Some (False, st))"

definition merge_joined :: "execution \<Rightarrow> act_ptr \<Rightarrow> sc_analysis \<Rightarrow> (bool \<times> sc_analysis) option" where
  "merge_joined s a st =
     (if is_thread_join (ex_acts s a)
      then do {
        joined \<leftarrow> get_thread_operand (thread_env_of s) (ex_acts s a);
        finish \<leftarrow> get_last_action s joined;
        merge_cv s a finish st
      } else Some (False, st))"

definition cv_visit ::
  "execution \<Rightarrow> act_ptr \<Rightarrow> act_ptr option list \<times> bool \<times> sc_analysis \<Rightarrow>
   (act_ptr option list \<times> bool \<times> sc_analysis) option" where
  "cv_visit s a lst = (
     let (last_act, changed, st) = lst
     in do {
       ASSERT (ma_tid (ex_acts s a) < length last_act);
       previous \<leftarrow> previous_action s last_act a;
       (c, st) \<leftarrow> merge_previous s a previous (ensure_cv s a st);
       (c1, st) \<leftarrow> merge_joined s a st;
       (c2, st) \<leftarrow> (if is_read (ex_acts s a) then processRead s a st else Some (False, st));
       Some (last_act[ma_tid (ex_acts s a) := Some a], changed \<or> c1 \<or> c2, st)
     })"

text \<open>The vector \<open>last_act\<close> is cleared only when the pass changed something.\<close>

partial_function (option) cv_loop ::
  "execution \<Rightarrow> act_ptr list \<Rightarrow> bool \<Rightarrow> bool \<Rightarrow> act_ptr option list \<Rightarrow> sc_analysis \<Rightarrow> sc_analysis option" where
  "cv_loop s list changed firsttime last_act st =
     (if \<not> changed then Some st
      else Option.bind (for_each (cv_visit s) list (last_act, firsttime, st))
        (\<lambda>r. cv_loop s list (fst (snd r)) False
               (if fst (snd r) then replicate (length last_act) None else fst r) (snd (snd r))))"

declare cv_loop.simps [code]

definition computeCV :: "execution \<Rightarrow> act_ptr list \<Rightarrow> sc_analysis \<Rightarrow> sc_analysis option" where
  "computeCV s list st = cv_loop s list True True (replicate (maxthreads st + 1) None) st"

subsection \<open>The choice of the next action\<close>

text \<open>The fronts of the non-empty lists, with their threads.\<close>

definition fronts :: "'a sc_analysis_scheme \<Rightarrow> (thread_id \<times> act_ptr) list option" where
  "fronts st = (if maxthreads st < length (threadlists st)
     then Some (concat (map (\<lambda>t. case threadlists st ! t of [] \<Rightarrow> [] | a # _ \<Rightarrow> [(t, a)]) [0..<maxthreads st + 1]))
     else None)"

fun is_earliest :: "execution \<Rightarrow> clock_vector option \<Rightarrow> thread_id \<Rightarrow> (thread_id \<times> act_ptr) list \<Rightarrow> bool option" where
  "is_earliest s cv t [] = Some True"
| "is_earliest s cv t ((i, first) # rest) =
     (if i = t then is_earliest s cv t rest
      else do {
        v \<leftarrow> cv;
        if cv_since s v first then Some False else is_earliest s cv t rest
      })"

fun earliest_loop ::
  "execution \<Rightarrow> (act_ptr \<Rightarrow> clock_vector option) \<Rightarrow> (thread_id \<times> act_ptr) list \<Rightarrow> (thread_id \<times> act_ptr) list \<Rightarrow>
   act_ptr list option" where
  "earliest_loop s cv_of fs [] = Some []"
| "earliest_loop s cv_of fs ((t, a) # rest) = do {
     e \<leftarrow> is_earliest s (cv_of a) t fs;
     xs \<leftarrow> earliest_loop s cv_of fs rest;
     Some (if e then a # xs else xs)
   }"

definition getNextActions :: "execution \<Rightarrow> 'a sc_analysis_scheme \<Rightarrow> act_ptr list option" where
  "getNextActions s st = do {
     fs \<leftarrow> fronts st;
     array \<leftarrow> earliest_loop s (cvmap st) fs fs;
     if array \<noteq> [] then Some array
     else do {
       array \<leftarrow> earliest_loop s (\<lambda>a. Some (ma_cv (ex_acts s a))) fs fs;
       ASSERT (array = [] \<or> cyclic st);
       Some array
     }
   }"

text \<open>The first of the actions with the least sequence number.\<close>

fun least_seq :: "execution \<Rightarrow> act_ptr option \<Rightarrow> act_ptr list \<Rightarrow> act_ptr option" where
  "least_seq s best [] = best"
| "least_seq s best (a # as) =
     least_seq s (if best = None \<or> ma_seq_number (ex_acts s (the best)) > ma_seq_number (ex_acts s a)
                  then Some a else best) as"

text \<open>
  The walk over the remaining writes of a thread up to the first that comes after \<open>act\<close> anyway:
  is there a write to the same location?
\<close>

fun write_before :: "execution \<Rightarrow> 'a sc_analysis_scheme \<Rightarrow> act_ptr \<Rightarrow> act_ptr list \<Rightarrow> act_ptr option option" where
  "write_before s st a [] = Some None"
| "write_before s st a (w # ws) =
     (if \<not> is_write (ex_acts s w) then write_before s st a ws
      else do {
        writecv \<leftarrow> cvmap st w;
        if cv_since s writecv a then Some None
        else if ma_location (ex_acts s w) = ma_location (ex_acts s a) then Some (Some w)
        else write_before s st a ws
      })"

fun conflict_free :: "execution \<Rightarrow> 'a sc_analysis_scheme \<Rightarrow> act_ptr \<Rightarrow> thread_id list \<Rightarrow> bool option" where
  "conflict_free s st a [] = Some True"
| "conflict_free s st a (t # ts) =
     (if t = ma_tid (ex_acts s a) then conflict_free s st a ts
      else do {
        ASSERT (t < length (threadlists st));
        w \<leftarrow> write_before s st a (threadlists st ! t);
        if w \<noteq> None then Some False else conflict_free s st a ts
      })"

fun conflict_free_all :: "execution \<Rightarrow> 'a sc_analysis_scheme \<Rightarrow> act_ptr list \<Rightarrow> act_ptr list option" where
  "conflict_free_all s st [] = Some []"
| "conflict_free_all s st (a # as) = do {
     c \<leftarrow> conflict_free s st a [0..<maxthreads st + 1];
     xs \<leftarrow> conflict_free_all s st as;
     Some (if c then a # xs else xs)
   }"

definition pruneArray :: "execution \<Rightarrow> 'a sc_analysis_scheme \<Rightarrow> act_ptr list \<Rightarrow> act_ptr option option" where
  "pruneArray s st array =
     (if length array = 1 then Some (Some (hd array))
      else case least_seq s None (filter (\<lambda>a. \<not> is_write (ex_acts s a)) array) of
        Some nonwrite \<Rightarrow> Some (Some nonwrite)
      | None \<Rightarrow> do { xs \<leftarrow> conflict_free_all s st array; Some (least_seq s None xs) })"

subsection \<open>Generating the order\<close>

text \<open>
  The class \<open>SCGenerator\<close> of the fence plugin has the same loop with another computation of vectors
  (\<open>compute\<close>) and other merges, so these are arguments of the definitions both use, and the state may have
  more fields.
\<close>

definition updateConstraints ::
  "(act_ptr \<Rightarrow> act_ptr \<Rightarrow> 'a sc_analysis_scheme \<Rightarrow> (bool \<times> 'a sc_analysis_scheme) option) \<Rightarrow> execution \<Rightarrow> act_ptr \<Rightarrow> 'a sc_analysis_scheme \<Rightarrow>
   (bool \<times> 'a sc_analysis_scheme) option" where
  "updateConstraints merge s a st =
     for_each (\<lambda>t cst.
         if t = ma_tid (ex_acts s a) then Some cst
         else do {
           ASSERT (t < length (threadlists (snd cst)));
           w \<leftarrow> write_before s (snd cst) a (threadlists (snd cst) ! t);
           (case w of
              None \<Rightarrow> Some cst
            | Some write \<Rightarrow> do { (c, st) \<leftarrow> merge write a (snd cst); Some (True, st) })
         })
       [0..<maxthreads st + 1] (False, st)"

text \<open>The choices made so far, and the last one with another option.\<close>

record sc_choices =
  choices :: "nat list"
  endchoice :: nat
  currchoice :: nat
  lastchoice :: "nat option"

definition choose_action ::
  "execution \<Rightarrow> 'a sc_analysis_scheme \<Rightarrow> act_ptr list \<Rightarrow> sc_choices \<Rightarrow> (act_ptr \<times> sc_choices) option" where
  "choose_action s st array c = do {
     pruned \<leftarrow> pruneArray s st array;
     (case pruned of
        Some a \<Rightarrow> Some (a, c)
      | None \<Rightarrow> do {
          ASSERT (currchoice c < length (choices c));
          let k = choices c ! currchoice c;
          if currchoice c < endchoice c
          then do {
            ASSERT (k < length array);
            Some (array ! k,
                  c\<lparr>lastchoice := (if k + 1 < length array then Some (currchoice c) else lastchoice c),
                    currchoice := currchoice c + 1\<rparr>)
          }
          else do {
            ASSERT (array \<noteq> []);
            Some (array ! 0,
                  c\<lparr>choices := (choices c)[currchoice c := 0],
                    lastchoice := (if length array > 1 then Some (currchoice c) else lastchoice c),
                    currchoice := currchoice c + 1\<rparr>)
          }
        })
   }"

definition pop_action :: "execution \<Rightarrow> act_ptr \<Rightarrow> 'a sc_analysis_scheme \<Rightarrow> 'a sc_analysis_scheme option" where
  "pop_action s a st = (let t = ma_tid (ex_acts s a) in
     if t < length (threadlists st) \<and> threadlists st ! t \<noteq> []
     then Some (st\<lparr>threadlists := (threadlists st)[t := tl (threadlists st ! t)]\<rparr>) else None)"

definition restart_choice ::
  "(act_ptr list \<Rightarrow> 'a sc_analysis_scheme \<Rightarrow> 'a sc_analysis_scheme option) \<Rightarrow> execution \<Rightarrow> act_ptr list \<Rightarrow> nat \<Rightarrow> sc_choices \<Rightarrow> 'a sc_analysis_scheme \<Rightarrow> (sc_choices \<times> 'a sc_analysis_scheme) option" where
  "restart_choice compute s list k c st = do {
     ASSERT (k < length (choices c));
     let c = \<lparr>choices = (choices c)[k := choices c ! k + 1], endchoice = k + 1, currchoice = 0, lastchoice = None\<rparr>;
     (n, st) \<leftarrow> buildVectors s list (reset_analysis list st);
     st \<leftarrow> compute list st;
     Some (c, st)
   }"

text \<open>
  The end of a round: after new constraints the vectors are computed again, and when they became
  cyclic the order is started anew from the last choice that has another option.
\<close>

definition end_round ::
  "(act_ptr list \<Rightarrow> 'a sc_analysis_scheme \<Rightarrow> 'a sc_analysis_scheme option) \<Rightarrow> execution \<Rightarrow> act_ptr list \<Rightarrow> sc_choices \<Rightarrow> act_ptr list \<Rightarrow> bool \<Rightarrow> 'a sc_analysis_scheme \<Rightarrow>
   (sc_choices \<times> act_ptr list \<times> 'a sc_analysis_scheme) option" where
  "end_round compute s list c sclist updated st =
     (if updated
      then do {
        let prevc = cyclic st;
        st \<leftarrow> compute list st;
        (case (if \<not> prevc \<and> cyclic st then lastchoice c else None) of
           Some k \<Rightarrow> do { (c, st) \<leftarrow> restart_choice compute s list k c st; Some (c, [], st) }
         | None \<Rightarrow> Some (c, sclist, st))
      }
      else Some (c, sclist, st))"

text \<open>One round of the loop with a non-empty array of next actions.\<close>

definition sc_round ::
  "(act_ptr list \<Rightarrow> 'a sc_analysis_scheme \<Rightarrow> 'a sc_analysis_scheme option) \<Rightarrow>
   (act_ptr \<Rightarrow> 'a sc_analysis_scheme \<Rightarrow> (bool \<times> 'a sc_analysis_scheme) option) \<Rightarrow> execution \<Rightarrow> act_ptr list \<Rightarrow> act_ptr list \<Rightarrow> sc_choices \<times> act_ptr list \<times> 'a sc_analysis_scheme \<Rightarrow>
   (sc_choices \<times> act_ptr list \<times> 'a sc_analysis_scheme) option" where
  "sc_round compute upd s list array cst = (
     let (c, sclist, st) = cst
     in do {
       (a, c) \<leftarrow> choose_action s st array c;
       st \<leftarrow> pop_action s a st;
       (updated, st) \<leftarrow> upd a st;
       end_round compute s list c (sclist @ [a]) updated st
     })"

partial_function (option) sc_loop ::
  "(act_ptr list \<Rightarrow> 'a sc_analysis_scheme \<Rightarrow> 'a sc_analysis_scheme option) \<Rightarrow>
   (act_ptr \<Rightarrow> 'a sc_analysis_scheme \<Rightarrow> (bool \<times> 'a sc_analysis_scheme) option) \<Rightarrow> execution \<Rightarrow> act_ptr list \<Rightarrow> sc_choices \<times> act_ptr list \<times> 'a sc_analysis_scheme \<Rightarrow> (act_ptr list \<times> 'a sc_analysis_scheme) option" where
  "sc_loop compute upd s list cst = Option.bind (getNextActions s (snd (snd cst)))
     (\<lambda>array. if array = [] then Some (snd cst)
              else Option.bind (sc_round compute upd s list array cst) (sc_loop compute upd s list))"

declare sc_loop.simps [code]

definition generateSC :: "execution \<Rightarrow> act_ptr list \<Rightarrow> sc_analysis \<Rightarrow> (act_ptr list \<times> sc_analysis) option" where
  "generateSC s list st = do {
     (numactions, st) \<leftarrow> buildVectors s list st;
     let st = st\<lparr>sc_stats := (sc_stats st)\<lparr>sc_actions := sc_actions (sc_stats st) + numactions\<rparr>\<rparr>;
     st \<leftarrow> computeCV s list st;
     sc_loop (computeCV s) (updateConstraints (merge_cv s) s) s list (\<lparr>choices = replicate numactions 0, endchoice = 0, currchoice = 0, lastchoice = None\<rparr>, [], st)
   }"

subsection \<open>The check of the reads\<close>

definition check_action :: "execution \<Rightarrow> act_ptr \<Rightarrow> sc_analysis \<Rightarrow> sc_analysis" where
  "check_action s a st = (
     let act = ex_acts s a; l = ma_location act;
         st = (if is_read act \<and> ma_reads_from act \<noteq> lastwrmap st l
               then st\<lparr>badrfset := (badrfset st)(a \<mapsto> lastwrmap st l)\<rparr> else st)
     in if is_write act then st\<lparr>lastwrmap := (lastwrmap st)(l \<mapsto> a)\<rparr> else st)"

definition check_rf :: "execution \<Rightarrow> act_ptr list \<Rightarrow> sc_analysis \<Rightarrow> sc_analysis" where
  "check_rf s list st = fold (check_action s) list st"

definition update_stats :: "'a sc_analysis_scheme \<Rightarrow> 'a sc_analysis_scheme" where
  "update_stats st = st\<lparr>sc_stats :=
     (if cyclic st then (sc_stats st)\<lparr>nonsccount := nonsccount (sc_stats st) + 1\<rparr>
      else (sc_stats st)\<lparr>sccount := sccount (sc_stats st) + 1\<rparr>)\<rparr>"

definition analyze :: "execution \<Rightarrow> act_ptr list \<Rightarrow> sc_analysis \<Rightarrow> (act_ptr list \<times> sc_analysis) option" where
  "analyze s actions st = do {
     (list, st) \<leftarrow> generateSC s actions st;
     Some (list, update_stats (check_rf s list st))
   }"

text \<open>The actions per execution that \<open>finish\<close> prints: a division.\<close>

definition finish_analysis :: "sc_statistics \<Rightarrow> nat option" where
  "finish_analysis st =
     (if sccount st + nonsccount st = 0 then None
      else Some (sc_actions st div (sccount st + nonsccount st)))"

end
