(* ===== verification/SC_Order.thy ===== *)
theory SC_Order
  imports SC_Analysis
begin

text \<open>
  What the analysis for sequential consistency guarantees: the order it generates is a complete
  interleaving of the threads, and the check of the reads decides whether the order is
  sequentially consistent.
\<close>

subsection \<open>Frames\<close>

definition same_lists_sc :: "'a sc_analysis_scheme \<Rightarrow> 'a sc_analysis_scheme \<Rightarrow> bool" where
  "same_lists_sc st st' \<longleftrightarrow> threadlists st' = threadlists st \<and> maxthreads st' = maxthreads st"

lemma same_lists_sc_refl [simp]: "same_lists_sc st st"
  by (simp add: same_lists_sc_def)

lemma same_lists_sc_trans: "same_lists_sc a b \<Longrightarrow> same_lists_sc b c \<Longrightarrow> same_lists_sc a c"
  by (simp add: same_lists_sc_def)

lemma merge_cv_same: "merge_cv s a b st = Some (c, st') \<Longrightarrow> same_lists_sc st st'"
  by (auto simp: merge_cv_def same_lists_sc_def bind_eq_Some_conv split_def Let_def split: option.splits if_splits)

lemma read_visit_same:
  "read_visit s r w n w2 (ch, st) = Some (b, ch', st') \<Longrightarrow> same_lists_sc st st'"
  by (auto simp: read_visit_def bind_eq_Some_conv split_def Let_def split: option.splits if_splits
    dest!: merge_cv_same intro: same_lists_sc_trans)

lemma read_thread_same:
  assumes "read_thread s r w n tid cst = Some cst'"
  shows "same_lists_sc (snd cst) (snd cst')"
proof (cases "tid = ma_tid (ex_acts s r) \<or> tid = ma_tid (ex_acts s w)")
  case True
  with assms show ?thesis by (simp add: read_thread_def)
next
  case False
  show ?thesis
  proof (cases "get_actions_on_obj s (ma_location (ex_acts s r)) tid")
    case None
    with assms False show ?thesis by (simp add: read_thread_def)
  next
    case (Some list)
    with assms False obtain b where "for_until (read_visit s r w n) (rev list) cst = Some (b, cst')"
      by (auto simp: read_thread_def bind_eq_Some_conv)
    then show ?thesis
      by (rule for_until_inv [where P = "\<lambda>x. same_lists_sc (snd cst) (snd x)"])
        (force intro: same_lists_sc_trans dest: read_visit_same)+
  qed
qed

lemma processRead_same:
  assumes "processRead s r st = Some (ch, st')"
  shows "same_lists_sc st st'"
proof -
  from assms obtain w c st1 where 1: "merge_cv s r w st = Some (c, st1)" and
    2: "for_each (read_thread s r w (cvmap st w = None)) [0..<maxthreads st1 + 1] (c \<and> act_less s r w, st1) = Some (ch, st')"
    unfolding processRead_def Let_def by (auto simp: bind_eq_Some_conv)
  have "same_lists_sc st (snd (ch, st'))"
    using 2
    by (rule for_each_inv [where P = "\<lambda>cst. same_lists_sc st (snd cst)"])
      (use merge_cv_same [OF 1] in \<open>auto intro: same_lists_sc_trans dest: read_thread_same\<close>)
  then show ?thesis by simp
qed

lemma ensure_cv_same: "same_lists_sc st (ensure_cv s a st)"
  by (simp add: ensure_cv_def same_lists_sc_def)

lemma merge_previous_same: "merge_previous s a p st = Some (c, st') \<Longrightarrow> same_lists_sc st st'"
  by (auto simp: merge_previous_def split: option.splits dest: merge_cv_same)

lemma merge_joined_same: "merge_joined s a st = Some (c, st') \<Longrightarrow> same_lists_sc st st'"
  by (auto simp: merge_joined_def bind_eq_Some_conv split: if_splits dest: merge_cv_same)

lemma cv_visit_same:
  assumes "cv_visit s a x = Some x'"
  shows "same_lists_sc (snd (snd x)) (snd (snd x'))"
proof -
  obtain la ch st la' ch' st' where x: "x = (la, ch, st)" "x' = (la', ch', st')"
    by (cases x; cases x'; auto)
  from assms obtain p c st1 c1 st2 c2 where
    1: "merge_previous s a p (ensure_cv s a st) = Some (c, st1)" and
    2: "merge_joined s a st1 = Some (c1, st2)" and
    3: "(if is_read (ex_acts s a) then processRead s a st2 else Some (False, st2)) = Some (c2, st')"
    unfolding cv_visit_def Let_def x by (clarsimp simp: bind_eq_Some_conv)
  have "same_lists_sc st2 st'" using 3 by (auto split: if_splits dest: processRead_same)
  with merge_previous_same [OF 1] merge_joined_same [OF 2] ensure_cv_same [of st s a]
  show ?thesis unfolding x by (simp add: same_lists_sc_def)
qed

lemma cv_loop_same:
  "cv_loop s list ch ft la st = Some st' \<Longrightarrow> same_lists_sc st st'"
proof (induction rule: cv_loop.raw_induct [rotated, consumes 1, case_names step])
  case (step rec s list ch ft la st st')
  show ?case
  proof (cases ch)
    case False
    with step(2) have "st' = st" by auto
    then show ?thesis by simp
  next
    case True
    with step(2) obtain x where v: "for_each (cv_visit s) list (la, ft, st) = Some x"
      and r: "rec s list (fst (snd x)) False (if fst (snd x) then replicate (length la) None else fst x)
        (snd (snd x)) = Some st'"
      using that by (cases "for_each (cv_visit s) list (la, ft, st)") simp_all
    have "same_lists_sc st (snd (snd x))" using v
      by (rule for_each_inv [where P = "\<lambda>x. same_lists_sc st (snd (snd x))"])
        (auto intro: same_lists_sc_trans dest: cv_visit_same)
    then show ?thesis using step(1) [OF r] by (rule same_lists_sc_trans)
  qed
qed

lemma computeCV_same: "computeCV s list st = Some st' \<Longrightarrow> same_lists_sc st st'"
  unfolding computeCV_def by (rule cv_loop_same)

lemma updateConstraints_same:
  assumes "updateConstraints merge s a st = Some (c, st')"
    and "\<And>a b st c st'. merge a b st = Some (c, st') \<Longrightarrow> same_lists_sc st st'"
  shows "same_lists_sc st st'"
proof -
  have "same_lists_sc st (snd (c, st'))" using assms(1) unfolding updateConstraints_def
    by (rule for_each_inv [where P = "\<lambda>x. same_lists_sc st (snd x)"])
      (auto simp: bind_eq_Some_conv split: if_splits option.splits dest!: assms(2) intro: same_lists_sc_trans)
  then show ?thesis by simp
qed

subsection \<open>The order contains every action\<close>

text \<open>What is left of thread \<open>t\<close>, and the state while an order is generated.\<close>

definition remaining :: "'a sc_analysis_scheme \<Rightarrow> thread_id \<Rightarrow> act_ptr list" where
  "remaining st t = (if t < length (threadlists st) then threadlists st ! t else [])"

abbreviation of_thread :: "execution \<Rightarrow> thread_id \<Rightarrow> act_ptr list \<Rightarrow> act_ptr list" where
  "of_thread s t xs \<equiv> filter (\<lambda>a. ma_tid (ex_acts s a) = t) xs"

definition lists_bounded :: "'a sc_analysis_scheme \<Rightarrow> bool" where
  "lists_bounded st \<longleftrightarrow> maxthreads st < length (threadlists st) \<and> (\<forall>t>maxthreads st. remaining st t = [])"

definition splits_list :: "execution \<Rightarrow> act_ptr list \<Rightarrow> act_ptr list \<Rightarrow> 'a sc_analysis_scheme \<Rightarrow> bool" where
  "splits_list s list sclist st \<longleftrightarrow> lists_bounded st \<and>
     (\<forall>t. of_thread s t sclist @ remaining st t = of_thread s t list)"

lemma remaining_same: "same_lists_sc st st' \<Longrightarrow> remaining st' = remaining st"
  by (auto simp: same_lists_sc_def remaining_def)

lemma splits_list_same:
  assumes "same_lists_sc st st'" "splits_list s list sclist st"
  shows "splits_list s list sclist st'"
  using assms(2) assms(1) [unfolded same_lists_sc_def] remaining_same [OF assms(1)]
  by (simp add: splits_list_def lists_bounded_def)

lemma remaining_beyond: "lists_bounded st \<Longrightarrow> maxthreads st < t \<Longrightarrow> remaining st t = []"
  by (simp add: lists_bounded_def)

definition list_of :: "act_ptr list list \<Rightarrow> thread_id \<Rightarrow> act_ptr list" where
  "list_of ls t = (if t < length ls then ls ! t else [])"

lemma push_thread_list_lists:
  assumes "push_thread_list s a (m, ls) = Some (m', ls')" "m < length ls" "\<forall>t>m. list_of ls t = []"
  shows "m' < length ls' \<and> (\<forall>t>m'. list_of ls' t = []) \<and>
    (\<forall>t. list_of ls' t = list_of ls t @ (if ma_tid (ex_acts s a) = t then [a] else []))"
proof -
  let ?t = "ma_tid (ex_acts s a)"
  define l where "l = (if ?t > m then vec_resize (?t + 1) [] ls else ls)"
  have l: "list_of l t = list_of ls t" for t
  proof (cases "t \<le> ?t")
    case True
    then show ?thesis by (auto simp: l_def list_of_def nth_vec_resize)
  next
    case False
    show ?thesis
    proof (cases "?t > m")
      case True
      with False assms(3) have "list_of ls t = []" by simp
      with True False show ?thesis by (simp add: l_def) (simp add: list_of_def)
    qed (simp add: l_def)
  qed
  have m': "m' = max m ?t" and ls': "ls' = l[?t := l ! ?t @ [a]]" and t: "?t < length l"
    using assms(1) by (auto simp: push_thread_list_def Let_def l_def split: if_splits)
  have "list_of ls' t = list_of l t @ (if ?t = t then [a] else [])" for t
    using t by (auto simp: ls' list_of_def)
  moreover have "m' < length ls'" using assms(2) t by (auto simp: m' ls' l_def max_def split: if_splits)
  ultimately show ?thesis using assms(3) by (auto simp: l m')
qed

lemma push_actions_lists:
  "for_each (push_thread_list s) xs (m, ls) = Some (m', ls') \<Longrightarrow> m < length ls \<Longrightarrow>
   \<forall>t>m. list_of ls t = [] \<Longrightarrow>
   m' < length ls' \<and> (\<forall>t>m'. list_of ls' t = []) \<and> (\<forall>t. list_of ls' t = list_of ls t @ of_thread s t xs)"
proof (induction xs arbitrary: m ls)
  case (Cons a xs)
  from Cons.prems(1) obtain m1 lists1 where 1: "push_thread_list s a (m, ls) = Some (m1, lists1)"
    and 2: "for_each (push_thread_list s) xs (m1, lists1) = Some (m', ls')"
    by (auto simp: bind_eq_Some_conv)
  note first = push_thread_list_lists [OF 1 Cons.prems(2,3)]
  with Cons.IH [OF 2] have "m' < length ls'" "\<forall>t>m'. list_of ls' t = []"
    "\<forall>t. list_of ls' t = list_of lists1 t @ of_thread s t xs" by blast+
  with first show ?case by simp
qed simp

definition lists_empty :: "'a sc_analysis_scheme \<Rightarrow> bool" where
  "lists_empty st \<longleftrightarrow> threadlists st \<noteq> [] \<and> (\<forall>t. remaining st t = [])"

lemma buildVectors_splits:
  assumes "buildVectors s list st = Some (n, st')" "lists_empty st"
  shows "n = length list \<and> splits_list s list [] st'"
proof -
  from assms(1) obtain m ls where f: "for_each (push_thread_list s) list (0, threadlists st) = Some (m, ls)"
    and n: "n = length list" and st': "st' = st\<lparr>maxthreads := m, threadlists := ls\<rparr>"
    by (auto simp: buildVectors_def bind_eq_Some_conv)
  have "0 < length (threadlists st)" "\<forall>t. list_of (threadlists st) t = []"
    using assms(2) by (auto simp: lists_empty_def remaining_def list_of_def)
  with push_actions_lists [OF f] have l: "m < length ls" "\<forall>t>m. list_of ls t = []"
    "\<forall>t. list_of ls t = of_thread s t list" by auto
  have rem: "remaining st' = list_of ls" by (simp add: st' remaining_def list_of_def fun_eq_iff)
  show ?thesis using l by (simp add: n splits_list_def lists_bounded_def rem) (simp add: st')
qed

lemma reset_analysis_empty:
  assumes "lists_bounded st"
  shows "lists_empty (reset_analysis list st)"
proof -
  have "remaining (reset_analysis list st) t = (if t \<le> maxthreads st then [] else remaining st t)" for t
  proof -
    have "Suc (length (threadlists st) - Suc 0) = length (threadlists st)"
      using assms unfolding lists_bounded_def by linarith
    then show ?thesis using assms
      by (auto simp: lists_bounded_def reset_analysis_def remaining_def nth_append simp del: replicate_Suc)
        (metis not_le_imp_less)
  qed
  with assms show ?thesis by (auto simp: lists_empty_def lists_bounded_def reset_analysis_def)
qed

lemma new_sc_analysis_empty: "lists_empty new_sc_analysis"
  by (simp add: lists_empty_def new_sc_analysis_def remaining_def)

subsection \<open>The next actions\<close>

lemma front_iff:
  "x \<in> set (case xs of [] \<Rightarrow> [] | a # _ \<Rightarrow> [(t, a)]) \<longleftrightarrow> fst x = t \<and> (\<exists>as. xs = snd x # as)"
  by (cases xs; cases x) auto

lemma fronts_iff:
  "fronts st = Some fs \<Longrightarrow> (t, a) \<in> set fs \<longleftrightarrow> t \<le> maxthreads st \<and> (\<exists>as. remaining st t = a # as)"
  by (auto simp: fronts_def remaining_def front_iff simp del: upt_Suc split: if_splits) metis

lemma earliest_loop_subset: "earliest_loop s cv_of fs rest = Some xs \<Longrightarrow> set xs \<subseteq> snd ` set rest"
  by (induction s cv_of fs rest arbitrary: xs rule: earliest_loop.induct) (fastforce simp: bind_eq_Some_conv split: if_splits)+

lemma is_earliest_False:
  "is_earliest s cv t fs = Some False \<Longrightarrow> \<exists>i first v. (i, first) \<in> set fs \<and> i \<noteq> t \<and> cv = Some v \<and> cv_since s v first"
  by (induction s cv t fs rule: is_earliest.induct) (fastforce simp: bind_eq_Some_conv split: if_splits)+

lemma earliest_loop_empty:
  "earliest_loop s cv_of fs rest = Some [] \<Longrightarrow> (t, a) \<in> set rest \<Longrightarrow> is_earliest s (cv_of a) t fs = Some False"
  by (induction s cv_of fs rest rule: earliest_loop.induct) (auto simp: bind_eq_Some_conv split: if_splits)

definition hb_respects_order :: "execution \<Rightarrow> act_ptr list \<Rightarrow> bool" where
  "hb_respects_order s list \<longleftrightarrow> (\<forall>a\<in>set list. \<forall>b\<in>set list.
     ma_tid (ex_acts s a) \<noteq> ma_tid (ex_acts s b) \<longrightarrow> cv_since s (ma_cv (ex_acts s a)) b \<longrightarrow>
     ma_seq_number (ex_acts s b) < ma_seq_number (ex_acts s a))"

lemma getNextActions_subset:
  assumes "getNextActions s st = Some array" "a \<in> set array"
  shows "\<exists>t as. t \<le> maxthreads st \<and> remaining st t = a # as"
proof -
  from assms(1) obtain fs where fs: "fronts st = Some fs" and "set array \<subseteq> snd ` set fs"
    by (auto simp: getNextActions_def bind_eq_Some_conv split: if_splits dest!: earliest_loop_subset)
  with assms(2) obtain t where "(t, a) \<in> set fs" by auto
  with fronts_iff [OF fs] show ?thesis by auto
qed

lemma remaining_in_list:
  assumes "splits_list s list sclist st" "a \<in> set (remaining st t)"
  shows "ma_tid (ex_acts s a) = t \<and> a \<in> set list"
proof -
  have "a \<in> set (of_thread s t sclist @ remaining st t)" using assms(2) by simp
  then have "a \<in> set (of_thread s t list)" using assms(1) unfolding splits_list_def by metis
  then show ?thesis by simp
qed

lemma getNextActions_empty:
  assumes "getNextActions s st = Some []" "splits_list s list sclist st" "hb_respects_order s list"
  shows "remaining st t = []"
proof (rule ccontr)
  assume ne: "remaining st t \<noteq> []"
  from assms(1) obtain fs where fs: "fronts st = Some fs" and
    e: "earliest_loop s (\<lambda>a. Some (ma_cv (ex_acts s a))) fs fs = Some []"
    by (auto simp: getNextActions_def bind_eq_Some_conv split: if_splits)
  let ?seq = "\<lambda>(t, a). ma_seq_number (ex_acts s a)"
  have "t \<le> maxthreads st" using ne assms(2) by (force simp: splits_list_def lists_bounded_def not_less [symmetric])
  with ne have "fs \<noteq> []" using fronts_iff [OF fs] by (cases "remaining st t") force+
  then obtain u a where ua: "(u, a) \<in> set fs" and least: "\<forall>p\<in>set fs. ma_seq_number (ex_acts s a) \<le> ?seq p"
    using ex_min_if_finite [of "?seq ` set fs"] by (force simp: not_less)
  from is_earliest_False [OF earliest_loop_empty [OF e ua]] obtain i b where
    ib: "(i, b) \<in> set fs" "i \<noteq> u" "cv_since s (ma_cv (ex_acts s a)) b" by auto
  have "ma_tid (ex_acts s a) = u \<and> a \<in> set list" "ma_tid (ex_acts s b) = i \<and> b \<in> set list"
    using ua ib(1) fronts_iff [OF fs] by (auto intro!: remaining_in_list [OF assms(2)])
  with ib assms(3) have "ma_seq_number (ex_acts s b) < ma_seq_number (ex_acts s a)"
    by (auto simp: hb_respects_order_def)
  with least ib(1) show False by force
qed

lemma least_seq_in: "least_seq s best as = Some a \<Longrightarrow> best = Some a \<or> a \<in> set as"
  by (induction s best as rule: least_seq.induct) (auto split: if_splits)

lemma conflict_free_all_subset: "conflict_free_all s st as = Some xs \<Longrightarrow> set xs \<subseteq> set as"
  by (induction s st as arbitrary: xs rule: conflict_free_all.induct) (fastforce simp: bind_eq_Some_conv split: if_splits)+

lemma pruneArray_in: "pruneArray s st array = Some (Some a) \<Longrightarrow> a \<in> set array"
  by (auto simp: pruneArray_def bind_eq_Some_conv length_Suc_conv split: if_splits option.splits
    dest!: least_seq_in conflict_free_all_subset)

lemma choose_action_in: "choose_action s st array c = Some (a, c') \<Longrightarrow> a \<in> set array"
  by (auto simp: choose_action_def bind_eq_Some_conv Let_def split: if_splits option.splits dest: pruneArray_in)

lemma pop_action_splits:
  assumes "pop_action s a st = Some st'" "splits_list s list sclist st"
    and "remaining st (ma_tid (ex_acts s a)) = a # as"
  shows "splits_list s list (sclist @ [a]) st'"
proof -
  let ?t = "ma_tid (ex_acts s a)"
  have bounded: "lists_bounded st" and split: "of_thread s t sclist @ remaining st t = of_thread s t list" for t
    using assms(2) by (auto simp: splits_list_def)
  have rem: "remaining st' t = (if t = ?t then as else remaining st t)" for t
    using assms(1,3) by (auto simp: pop_action_def remaining_def Let_def split: if_splits)
  have "of_thread s t (sclist @ [a]) @ remaining st' t = of_thread s t list" for t
    using split [of t] assms(3) by (cases "t = ?t") (auto simp: rem)
  moreover have "lists_bounded st'"
    using assms(1,3) bounded by (auto simp: pop_action_def lists_bounded_def rem Let_def split: if_splits)
  ultimately show ?thesis by (simp add: splits_list_def)
qed

subsection \<open>The loop\<close>

text \<open>
  The search keeps its lists whatever the computation of the vectors and the update of the
  constraints do, as long as these two leave the lists alone.
\<close>

locale sc_search =
  fixes compute :: "act_ptr list \<Rightarrow> 'a sc_analysis_scheme \<Rightarrow> 'a sc_analysis_scheme option"
    and upd :: "act_ptr \<Rightarrow> 'a sc_analysis_scheme \<Rightarrow> (bool \<times> 'a sc_analysis_scheme) option"
  assumes comp_same: "compute list st = Some st' \<Longrightarrow> same_lists_sc st st'"
    and upd_same: "upd a st = Some (c, st') \<Longrightarrow> same_lists_sc st st'"
begin

lemma restart_choice_splits:
  assumes "restart_choice compute s list k c st = Some (c', st')" "lists_bounded st"
  shows "splits_list s list [] st'"
proof -
  from assms(1) obtain n st1 where b: "buildVectors s list (reset_analysis list st) = Some (n, st1)"
    and c: "compute list st1 = Some st'"
    by (auto simp: restart_choice_def Let_def bind_eq_Some_conv split: if_splits)
  from buildVectors_splits [OF b reset_analysis_empty [OF assms(2)]]
  show ?thesis using splits_list_same [OF comp_same [OF c]] by blast
qed

lemma end_round_splits:
  assumes "end_round compute s list c sclist updated st = Some (c', sclist', st')" "splits_list s list sclist st"
  shows "splits_list s list sclist' st'"
proof (cases updated)
  case False
  with assms show ?thesis by (simp add: end_round_def)
next
  case True
  with assms(1) obtain st1 where cv: "compute list st = Some st1" and
    k: "(case (if \<not> cyclic st \<and> cyclic st1 then lastchoice c else None) of
          Some k \<Rightarrow> do { (c, st) \<leftarrow> restart_choice compute s list k c st1; Some (c, [], st) }
        | None \<Rightarrow> Some (c, sclist, st1)) = Some (c', sclist', st')"
    unfolding end_round_def Let_def by (cases "compute list st") simp_all
  have 1: "splits_list s list sclist st1" by (rule splits_list_same [OF comp_same [OF cv] assms(2)])
  then have "lists_bounded st1" by (simp add: splits_list_def)
  with k 1 show ?thesis
    by (cases "if \<not> cyclic st \<and> cyclic st1 then lastchoice c else None")
      (auto simp: bind_eq_Some_conv dest: restart_choice_splits)
qed

lemma sc_round_splits:
  assumes "sc_round compute upd s list array (c, sclist, st) = Some (c', sclist', st')"
    and "getNextActions s st = Some array" "splits_list s list sclist st"
  shows "splits_list s list sclist' st'"
proof -
  from assms(1) obtain a c1 st1 updated st2 where
    ch: "choose_action s st array c = Some (a, c1)" and pop: "pop_action s a st = Some st1" and
    up: "upd a st1 = Some (updated, st2)" and
    rest: "end_round compute s list c1 (sclist @ [a]) updated st2 = Some (c', sclist', st')"
    by (auto simp: sc_round_def bind_eq_Some_conv)
  from getNextActions_subset [OF assms(2) choose_action_in [OF ch]] obtain t as where
    t: "remaining st t = a # as" by blast
  with remaining_in_list [OF assms(3), of a t] have "remaining st (ma_tid (ex_acts s a)) = a # as" by simp
  from pop_action_splits [OF pop assms(3) this] have "splits_list s list (sclist @ [a]) st2"
    by (rule splits_list_same [OF upd_same [OF up]])
  with rest show ?thesis by (rule end_round_splits)
qed

end

lemma sc_loop_splits:
  assumes "sc_loop compute upd s list cst = Some r"
  shows "sc_search compute upd \<Longrightarrow> splits_list s list (fst (snd cst)) (snd (snd cst)) \<Longrightarrow> hb_respects_order s list \<Longrightarrow>
    splits_list s list (fst r) (snd r) \<and> (\<forall>t. remaining (snd r) t = [])"
  using assms
proof (induction rule: sc_loop.raw_induct [rotated, consumes 1, case_names step])
  case (step rec compute upd s list cst r)
  obtain c sclist st where cst: "cst = (c, sclist, st)" by (cases cst)
  from step(2) obtain array where n: "getNextActions s st = Some array" and
    r: "(if array = [] then Some (snd cst) else Option.bind (sc_round compute upd s list array cst) (rec compute upd s list)) = Some r"
    unfolding cst by (cases "getNextActions s st") simp_all
  show ?case
  proof (cases "array = []")
    case True
    with r step(4,5) getNextActions_empty [OF n [unfolded True]] show ?thesis by (auto simp: cst)
  next
    case False
    with r obtain cst' where d: "sc_round compute upd s list array cst = Some cst'" and l: "rec compute upd s list cst' = Some r"
      by (auto simp: bind_eq_Some_conv)
    from d obtain c' sclist' st' where "cst' = (c', sclist', st')" by (cases cst')
    with sc_search.sc_round_splits [OF step(3) d [unfolded cst this] n] step(4,5) step(1) [OF l step(3)] show ?thesis
      by (simp add: cst)
  qed
qed

interpretation analysis: sc_search "computeCV s" "updateConstraints (merge_cv s) s" for s
  by unfold_locales (auto intro: computeCV_same updateConstraints_same merge_cv_same)

lemma generateSC_splits:
  assumes "generateSC s list new_sc_analysis = Some (order, st)" "hb_respects_order s list"
  shows "of_thread s t order = of_thread s t list"
proof -
  from assms(1) obtain n st1 st2 c where
    b: "buildVectors s list new_sc_analysis = Some (n, st1)" and
    cv: "computeCV s list (st1\<lparr>sc_stats := (sc_stats st1)\<lparr>sc_actions := sc_actions (sc_stats st1) + n\<rparr>\<rparr>) = Some st2" and
    l: "sc_loop (computeCV s) (updateConstraints (merge_cv s) s) s list (c, [], st2) = Some (order, st)"
    by (auto simp: generateSC_def Let_def bind_eq_Some_conv)
  have "splits_list s list [] st1" using buildVectors_splits [OF b new_sc_analysis_empty] by simp
  then have "splits_list s list [] (st1\<lparr>sc_stats := (sc_stats st1)\<lparr>sc_actions := sc_actions (sc_stats st1) + n\<rparr>\<rparr>)"
    by (rule splits_list_same [rotated]) (simp add: same_lists_sc_def)
  from splits_list_same [OF computeCV_same [OF cv] this]
  have "splits_list s list order st \<and> (\<forall>t. remaining st t = [])"
    using sc_loop_splits [OF l analysis.sc_search_axioms] assms(2) by simp
  then show ?thesis unfolding splits_list_def by (metis append_Nil2)
qed

lemma same_threads_mset:
  assumes "\<And>t. of_thread s t xs = of_thread s t ys"
  shows "mset xs = mset ys"
proof (rule multiset_eqI)
  fix a
  have "count (mset zs) a = count (mset (of_thread s (ma_tid (ex_acts s a)) zs)) a" for zs
    by (induction zs) auto
  then show "count (mset xs) a = count (mset ys) a" by (metis assms)
qed

subsection \<open>The check of the reads\<close>

definition latest_write :: "execution \<Rightarrow> loc \<Rightarrow> act_ptr list \<Rightarrow> act_ptr option" where
  "latest_write s l xs = (let ws = filter (\<lambda>a. is_write (ex_acts s a) \<and> ma_location (ex_acts s a) = l) xs in
     if ws = [] then None else Some (List.last ws))"

definition sequentially_consistent :: "execution \<Rightarrow> act_ptr list \<Rightarrow> bool" where
  "sequentially_consistent s xs \<longleftrightarrow> (\<forall>i<length xs. is_read (ex_acts s (xs ! i)) \<longrightarrow>
     ma_reads_from (ex_acts s (xs ! i)) = latest_write s (ma_location (ex_acts s (xs ! i))) (take i xs))"

lemma latest_write_snoc:
  "latest_write s l (xs @ [a]) =
     (if is_write (ex_acts s a) \<and> ma_location (ex_acts s a) = l then Some a else latest_write s l xs)"
  by (simp add: latest_write_def Let_def)

lemma sequentially_consistent_snoc:
  "sequentially_consistent s (xs @ [a]) \<longleftrightarrow> sequentially_consistent s xs \<and>
     (is_read (ex_acts s a) \<longrightarrow> ma_reads_from (ex_acts s a) = latest_write s (ma_location (ex_acts s a)) xs)"
  by (auto simp: sequentially_consistent_def nth_append less_Suc_eq)

lemma check_rf_snoc: "check_rf s (xs @ [a]) st = check_action s a (check_rf s xs st)"
  by (simp add: check_rf_def)

lemma check_rf_lastwr:
  "lastwrmap (check_rf s xs new_sc_analysis) l = latest_write s l xs"
  by (induction xs rule: rev_induct)
    (auto simp: check_rf_snoc latest_write_snoc check_action_def Let_def check_rf_def new_sc_analysis_def latest_write_def [of s l "[]"])

lemma check_rf_bad:
  "badrfset (check_rf s xs new_sc_analysis) = Map.empty \<longleftrightarrow> sequentially_consistent s xs"
proof (induction xs rule: rev_induct)
  case Nil
  show ?case by (simp add: check_rf_def new_sc_analysis_def sequentially_consistent_def)
next
  case (snoc a xs)
  have "badrfset (check_action s a st) = (if is_read (ex_acts s a) \<and> ma_reads_from (ex_acts s a) \<noteq> lastwrmap st (ma_location (ex_acts s a))
    then (badrfset st)(a \<mapsto> lastwrmap st (ma_location (ex_acts s a))) else badrfset st)" for st
    by (simp add: check_action_def Let_def)
  with snoc show ?case by (auto simp: check_rf_snoc sequentially_consistent_snoc check_rf_lastwr)
qed

subsection \<open>Properties\<close>

text \<open>
  C21: The order that the analysis generates is complete: whatever constraints and choices led to it,
  it contains every action of the trace exactly once and the actions of each thread in the order of
  the trace, however often the search restarted. The vectors of the execution are assumed to
  respect the sequence numbers between threads; this is what makes the second pass of
  \<open>getNextActions\<close> find an action.
\<close>

theorem generated_order_complete:
  assumes "analyze s list new_sc_analysis = Some (order, st)" and "hb_respects_order s list"
  shows "mset order = mset list \<and> of_thread s t order = of_thread s t list"
proof -
  from assms(1) obtain st1 where "generateSC s list new_sc_analysis = Some (order, st1)"
    by (auto simp: analyze_def bind_eq_Some_conv)
  from generateSC_splits [OF this assms(2)] show ?thesis by (auto intro: same_threads_mset)
qed

text \<open>A read of thread 1 that is performed after the store of thread 2 but reads the older store.\<close>

definition stale_read :: execution where
  "stale_read = sample_execution
     \<lparr>ex_acts := (\<lambda>p. if p = 0 then sample_action ATOMIC_WRITE 1 1
                     else if p = 1 then sample_action ATOMIC_WRITE 2 2
                     else (sample_action ATOMIC_READ 1 3)\<lparr>ma_reads_from := Some 0\<rparr>),
      ex_next_act := 3, action_trace := [0, 1, 2], obj_map := [16 \<mapsto> [0, 1, 2]],
      obj_thrd_map := [16 \<mapsto> [[], [0, 2], [1]]]\<rparr>"

theorem generated_order_complete_witness:
  "\<exists>st. analyze stale_read [0, 1, 2] new_sc_analysis = Some ([0, 2, 1], st) \<and>
     mset [0, 2, 1] = mset [0, 1, 2 :: act_ptr] \<and> of_thread stale_read 1 [0, 2, 1] = of_thread stale_read 1 [0, 1, 2]"
proof -
  have "map_option fst (analyze stale_read [0, 1, 2] new_sc_analysis) = Some [0, 2, 1]" by code_simp
  then obtain st where st: "analyze stale_read [0, 1, 2] new_sc_analysis = Some ([0, 2, 1], st)" by auto
  have "hb_respects_order stale_read [0, 1, 2]" by code_simp
  from generated_order_complete [OF st this] st show ?thesis by blast
qed

text \<open>
  \<open>check_rf\<close> decides sequential consistency of an order: the table of bad reads stays empty exactly
  when every read of the order reads the latest store to its location before it, and in the run on a
  fresh analysis the table of last stores holds the latest store of every location.
\<close>

theorem check_rf_decides_sc:
  "(badrfset (check_rf s xs new_sc_analysis) = Map.empty \<longleftrightarrow> sequentially_consistent s xs) \<and>
   lastwrmap (check_rf s xs new_sc_analysis) l = latest_write s l xs"
  using check_rf_bad check_rf_lastwr by blast

end
