(* ===== verification/SC_Generator.thy ===== *)
theory SC_Generator
  imports SC_Order
begin

text \<open>
  The generator of the fence plugin (class \<open>SCGenerator\<close> of \<open>scfence/scgen.h\<close>, \<open>scfence/scgen.cc\<close>,
  \<open>scfence/sc_annotation.h\<close>): the search of \<open>SC_Analysis\<close> with vectors that start from happens-before,
  a second, slower computation for executions whose vectors become cyclic, and reads the program has
  annotated to be left out. Printing, timing and the unused \<open>check_rf1\<close> are left out.
\<close>

subsection \<open>State\<close>

record sc_generator = sc_analysis +
  fastVersion :: bool
  allowNonSC :: bool
  hasBadRF :: bool
  dup_threadlists :: "act_ptr list list"
  annotatedReadSet :: "act_ptr \<Rightarrow> bool"
  annotatedReadSetSize :: nat
  annotationMode :: bool
  annotationError :: bool

text \<open>The constructor leaves \<open>allowNonSC\<close> and \<open>annotationError\<close> as they are found in memory.\<close>

definition new_sc_generator :: "bool \<Rightarrow> bool \<Rightarrow> sc_generator" where
  "new_sc_generator allow err =
     \<lparr>maxthreads = 0, cvmap = Map.empty, cyclic = False, badrfset = Map.empty, lastwrmap = Map.empty,
      threadlists = [[]], sc_stats = \<lparr>sccount = 0, nonsccount = 0, sc_actions = 0\<rparr>, fastVersion = False,
      allowNonSC = allow, hasBadRF = False, dup_threadlists = [[]], annotatedReadSet = (\<lambda>_. False),
      annotatedReadSetSize = 0, annotationMode = False, annotationError = err\<rparr>"

definition getCyclic :: "sc_generator \<Rightarrow> bool" where
  "getCyclic g \<longleftrightarrow> cyclic g \<or> hasBadRF g"

subsection \<open>Merging vectors\<close>

definition gen_merge :: "execution \<Rightarrow> act_ptr \<Rightarrow> act_ptr \<Rightarrow> sc_generator \<Rightarrow> (bool \<times> sc_generator) option" where
  "gen_merge s act act2 g = (case cvmap g act2 of
     None \<Rightarrow> Some (True, g)
   | Some cv2 \<Rightarrow>
       if getClock cv2 (ma_tid (ex_acts s act)) \<ge> ma_seq_number (ex_acts s act) \<and>
          ma_seq_number (ex_acts s act) \<noteq> 0
       then Some (False, g\<lparr>cyclic := True\<rparr>)
       else if \<not> fastVersion g \<and> \<not> allowNonSC g \<and>
          \<not> (happens_before (ex_acts s act2) (ex_acts s act) \<or>
             is_seqcst (ex_acts s act) \<and> is_seqcst (ex_acts s act2) \<and> act_less s act2 act)
       then Some (False, g)
       else do {
         cv \<leftarrow> cvmap g act;
         let (merged, cv) = cv_merge cv cv2;
         let g = g\<lparr>cvmap := (cvmap g)(act \<mapsto> cv)\<rparr>;
         Some (merged, if \<not> fastVersion g \<and> allowNonSC g \<and> merged then g\<lparr>allowNonSC := False\<rparr> else g)
       })"

subsection \<open>Reads\<close>

text \<open>One store on the location of the read, visited backwards, in the fast computation.\<close>

definition fast_visit ::
  "execution \<Rightarrow> act_ptr \<Rightarrow> act_ptr \<Rightarrow> bool \<Rightarrow> act_ptr \<Rightarrow> bool \<times> sc_generator \<Rightarrow> (bool \<times> bool \<times> sc_generator) option" where
  "fast_visit s read write no_writecv write2 cst = (
     let (changed, g) = cst
     in if \<not> is_write (ex_acts s write2) \<or> write2 = write \<or> write2 = read then Some (False, cst)
        else case cvmap g write2 of
          None \<Rightarrow> Some (False, cst)
        | Some write2cv \<Rightarrow> do {
            (c, g) \<leftarrow> (if cv_since s write2cv write then gen_merge s write2 read g else Some (False, g));
            let changed = (changed \<or> c);
            cv \<leftarrow> cvmap g read;
            if cv_since s cv write2
            then if no_writecv then Some (True, True, g)
                 else do { (c, g) \<leftarrow> gen_merge s write write2 g; Some (True, changed \<or> c, g) }
            else Some (False, changed, g)
          })"

definition over_thread ::
  "execution \<Rightarrow> loc \<Rightarrow> (act_ptr \<Rightarrow> 'b \<Rightarrow> (bool \<times> 'b) option) \<Rightarrow> thread_id \<Rightarrow> 'b \<Rightarrow> 'b option" where
  "over_thread s l visit tid st = (case get_actions_on_obj s l tid of
     None \<Rightarrow> Some st
   | Some list \<Rightarrow> do { (left, st) \<leftarrow> for_until visit (rev list) st; Some st })"

text \<open>A read without store reads from a promise and is skipped.\<close>

definition processReadFast :: "execution \<Rightarrow> act_ptr \<Rightarrow> sc_generator \<Rightarrow> (bool \<times> sc_generator) option" where
  "processReadFast s read g = (case ma_reads_from (ex_acts s read) of
     None \<Rightarrow> Some (False, g)
   | Some write \<Rightarrow> do {
       let no_writecv = (cvmap g write = None);
       (c, g) \<leftarrow> gen_merge s read write g;
       for_each (over_thread s (ma_location (ex_acts s read)) (fast_visit s read write no_writecv))
         [0..<maxthreads g + 1] (c \<and> act_less s read write, g)
     })"

text \<open>
  The slow computation postpones merges against the order of the trace: \<open>future\<close> says that one has
  been made in this pass, and then no other one is.
\<close>

definition slow_store ::
  "execution \<Rightarrow> act_ptr \<Rightarrow> act_ptr \<Rightarrow> bool \<times> bool \<times> sc_generator \<Rightarrow> (bool \<times> bool \<times> sc_generator) option" where
  "slow_store s read write st = (
     let (changed, future, g) = st
     in if act_less s write read \<or> \<not> future
        then do {
          (c, g) \<leftarrow> gen_merge s read write g;
          let status = (c \<and> act_less s read write);
          Some (changed \<or> status, status, g)
        }
        else Some st)"

definition slow_after ::
  "execution \<Rightarrow> act_ptr \<Rightarrow> act_ptr \<Rightarrow> bool \<times> bool \<times> sc_generator \<Rightarrow> (bool \<times> bool \<times> sc_generator) option" where
  "slow_after s read write2 st = (
     let (changed, future, g) = st
     in if act_less s read write2 \<or> \<not> future
        then do {
          (status, g) \<leftarrow> gen_merge s write2 read g;
          Some (changed \<or> status, future \<or> status \<and> act_less s write2 read, g)
        }
        else Some st)"

definition slow_before ::
  "execution \<Rightarrow> act_ptr \<Rightarrow> bool \<Rightarrow> act_ptr \<Rightarrow> bool \<times> bool \<times> sc_generator \<Rightarrow> (bool \<times> bool \<times> sc_generator) option" where
  "slow_before s write no_writecv write2 st = (
     let (changed, future, g) = st
     in if act_less s write2 write \<or> \<not> future
        then do {
          (status, g) \<leftarrow> (if no_writecv then Some (True, g) else gen_merge s write write2 g);
          Some (changed \<or> status, future \<or> status \<and> act_less s write write2, g)
        }
        else Some st)"

definition slow_visit ::
  "execution \<Rightarrow> act_ptr \<Rightarrow> act_ptr \<Rightarrow> bool \<Rightarrow> act_ptr \<Rightarrow> bool \<times> bool \<times> sc_generator \<Rightarrow>
   (bool \<times> bool \<times> bool \<times> sc_generator) option" where
  "slow_visit s read write no_writecv write2 st =
     (if \<not> is_write (ex_acts s write2) \<or> write2 = write \<or> write2 = read then Some (False, st)
      else case cvmap (snd (snd st)) write2 of
        None \<Rightarrow> Some (False, st)
      | Some write2cv \<Rightarrow> do {
          st \<leftarrow> (if cv_since s write2cv write then slow_after s read write2 st else Some st);
          cv \<leftarrow> cvmap (snd (snd st)) read;
          if cv_since s cv write2
          then do { st \<leftarrow> slow_before s write no_writecv write2 st; Some (True, st) }
          else Some (False, st)
        })"

definition processReadSlow ::
  "execution \<Rightarrow> act_ptr \<Rightarrow> bool \<times> sc_generator \<Rightarrow> (bool \<times> bool \<times> sc_generator) option" where
  "processReadSlow s read fg = (
     let (future, g) = fg
     in do {
       write \<leftarrow> ma_reads_from (ex_acts s read);
       let no_writecv = (cvmap g write = None);
       st \<leftarrow> slow_store s read write (False, future, g);
       for_each (over_thread s (ma_location (ex_acts s read)) (slow_visit s read write no_writecv))
         [0..<maxthreads g + 1] st
     })"

definition processAnnotatedReadSlow ::
  "execution \<Rightarrow> act_ptr \<Rightarrow> bool \<times> sc_generator \<Rightarrow> (bool \<times> bool \<times> sc_generator) option" where
  "processAnnotatedReadSlow s read fg = (
     let (future, g) = fg
     in do {
       write \<leftarrow> ma_reads_from (ex_acts s read);
       slow_store s read write (False, future, g)
     })"

subsection \<open>Computing the vectors\<close>

definition gen_ensure_cv :: "execution \<Rightarrow> act_ptr \<Rightarrow> sc_generator \<Rightarrow> sc_generator" where
  "gen_ensure_cv s a g =
     (if cvmap g a = None
      then g\<lparr>cvmap := (cvmap g)(a \<mapsto> new_clock_vector (Some (ma_cv (ex_acts s a))) (ma_tid (ex_acts s a)) (ma_seq_number (ex_acts s a)))\<rparr>
      else g)"

definition gen_merge_previous :: "execution \<Rightarrow> act_ptr \<Rightarrow> act_ptr option \<Rightarrow> sc_generator \<Rightarrow> sc_generator option" where
  "gen_merge_previous s a previous g =
     (case previous of Some l \<Rightarrow> map_option snd (gen_merge s a l g) | None \<Rightarrow> Some g)"

definition gen_merge_joined :: "execution \<Rightarrow> act_ptr \<Rightarrow> sc_generator \<Rightarrow> (bool \<times> sc_generator) option" where
  "gen_merge_joined s a g =
     (if is_thread_join (ex_acts s a)
      then do {
        joined \<leftarrow> get_thread_operand (thread_env_of s) (ex_acts s a);
        finish \<leftarrow> get_last_action s joined;
        gen_merge s a finish g
      } else Some (False, g))"

definition gen_read :: "execution \<Rightarrow> act_ptr \<Rightarrow> bool \<times> sc_generator \<Rightarrow> (bool \<times> bool \<times> sc_generator) option" where
  "gen_read s a fg = (
     let (future, g) = fg
     in if \<not> is_read (ex_acts s a) then Some (False, fg)
        else if fastVersion g then do { (c, g) \<leftarrow> processReadFast s a g; Some (c, future, g) }
        else if annotatedReadSet g a then processAnnotatedReadSlow s a fg
        else processReadSlow s a fg)"

definition gen_cv_visit ::
  "execution \<Rightarrow> act_ptr \<Rightarrow> act_ptr option list \<times> bool \<times> bool \<times> sc_generator \<Rightarrow>
   (act_ptr option list \<times> bool \<times> bool \<times> sc_generator) option" where
  "gen_cv_visit s a lst = (
     let (last_act, changed, future, g) = lst
     in do {
       ASSERT (ma_tid (ex_acts s a) < length last_act);
       previous \<leftarrow> previous_action s last_act a;
       g \<leftarrow> gen_merge_previous s a previous (gen_ensure_cv s a g);
       (c1, g) \<leftarrow> gen_merge_joined s a g;
       (c2, future, g) \<leftarrow> gen_read s a (future, g);
       Some (last_act[ma_tid (ex_acts s a) := Some a], changed \<or> c1 \<or> c2, future, g)
     })"

text \<open>A slow pass without change is followed by one that may make a single merge against the order.\<close>

partial_function (option) gen_cv_loop ::
  "execution \<Rightarrow> act_ptr list \<Rightarrow> bool \<Rightarrow> act_ptr option list \<Rightarrow> sc_generator \<Rightarrow> sc_generator option" where
  "gen_cv_loop s list firsttime last_act g =
     Option.bind (for_each (gen_cv_visit s) list (last_act, firsttime, False, g))
       (\<lambda>r. let g = snd (snd (snd r)) in
            if fst (snd r) then gen_cv_loop s list False (replicate (length last_act) None) g
            else if \<not> fastVersion g \<and> \<not> allowNonSC g then gen_cv_loop s list False (fst r) (g\<lparr>allowNonSC := True\<rparr>)
            else Some g)"

declare gen_cv_loop.simps [code]

definition gen_computeCV :: "execution \<Rightarrow> act_ptr list \<Rightarrow> sc_generator \<Rightarrow> sc_generator option" where
  "gen_computeCV s list g = gen_cv_loop s list True (replicate (maxthreads g + 1) None) g"

subsection \<open>Annotated reads\<close>

definition IS_SC_ANNO :: "model_action \<Rightarrow> bool" where
  "IS_SC_ANNO a \<longleftrightarrow> is_annotation a \<and> ma_value a = 2"

definition IS_ANNO_BEGIN :: "model_action \<Rightarrow> bool" where
  "IS_ANNO_BEGIN a \<longleftrightarrow> ma_location a = 1"

definition IS_ANNO_END :: "model_action \<Rightarrow> bool" where
  "IS_ANNO_END a \<longleftrightarrow> ma_location a = 2"

definition IS_ANNO_KEEP :: "model_action \<Rightarrow> bool" where
  "IS_ANNO_KEEP a \<longleftrightarrow> ma_location a = 3"

text \<open>
  The loop over an annotated section, behind its first action \<open>a\<close>: the result is the rest of the list
  behind the END, and how often \<open>a\<close> was annotated. The variable is never advanced to the next action,
  so no other action is annotated. Running off the list dereferences its end.
\<close>

fun anno_section :: "execution \<Rightarrow> act_ptr list \<Rightarrow> nat \<Rightarrow> (act_ptr list \<times> nat) option" where
  "anno_section s [] n = None"
| "anno_section s (nextAct # rest) n =
     (if \<not> IS_ANNO_KEEP (ex_acts s nextAct)
      then if IS_ANNO_END (ex_acts s nextAct) then Some (rest, n + 1) else anno_section s rest (n + 1)
      else anno_section s rest n)"

lemma anno_section_shorter: "anno_section s xs n = Some (rest, m) \<Longrightarrow> length rest < length xs"
  by (induction s xs n rule: anno_section.induct) (auto split: if_splits)

definition annotate :: "act_ptr \<Rightarrow> nat \<Rightarrow> sc_generator \<Rightarrow> sc_generator" where
  "annotate a n g = (if n = 0 then g
     else g\<lparr>annotatedReadSet := (annotatedReadSet g)(a := True), annotatedReadSetSize := annotatedReadSetSize g + n\<rparr>)"

text \<open>One thread's list; the result says whether an error was found.\<close>

function collect_list :: "execution \<Rightarrow> act_ptr list \<Rightarrow> sc_generator \<Rightarrow> (bool \<times> sc_generator) option" where
  "collect_list s [] g = Some (False, g)"
| "collect_list s (a # rest) g =
     (if \<not> IS_SC_ANNO (ex_acts s a) then collect_list s rest g
      else if \<not> IS_ANNO_BEGIN (ex_acts s a) then Some (True, g\<lparr>annotationError := True\<rparr>)
      else case rest of
        [] \<Rightarrow> None
      | act # rest \<Rightarrow>
          if IS_ANNO_END (ex_acts s act) then collect_list s rest g
          else case anno_section s rest 0 of
            None \<Rightarrow> None
          | Some (rest', n) \<Rightarrow> collect_list s rest' (annotate act n g))"
  by pat_completeness auto
termination
  by (relation "measure (\<lambda>(s, xs, g). length xs)") (auto dest: anno_section_shorter)

definition collectAnnotatedReads :: "execution \<Rightarrow> sc_generator \<Rightarrow> sc_generator option" where
  "collectAnnotatedReads s g = map_option snd (for_until (collect_list s) (tl (threadlists g)) g)"

subsection \<open>The order\<close>

definition gen_generateSC :: "execution \<Rightarrow> act_ptr list \<Rightarrow> sc_generator \<Rightarrow> (act_ptr list option \<times> sc_generator) option" where
  "gen_generateSC s list g = do {
     (numactions, g) \<leftarrow> buildVectors s list g;
     let g = g\<lparr>sc_stats := (sc_stats g)\<lparr>sc_actions := sc_actions (sc_stats g) + numactions\<rparr>\<rparr>;
     g \<leftarrow> (if annotationMode g then collectAnnotatedReads s g else Some g);
     if annotationMode g \<and> annotationError g then Some (None, g)
     else do {
       g \<leftarrow> gen_computeCV s list g;
       (sclist, g) \<leftarrow> sc_loop (gen_computeCV s) (updateConstraints (gen_merge s) s) s list
         (\<lparr>choices = replicate numactions 0, endchoice = 0, currchoice = 0, lastchoice = None\<rparr>, [], g);
       Some (Some sclist, g)
     }
   }"

definition gen_check_action :: "execution \<Rightarrow> act_ptr \<Rightarrow> sc_generator \<Rightarrow> sc_generator" where
  "gen_check_action s a g = (
     let act = ex_acts s a; l = ma_location act;
         g = (if is_read act \<and> ma_reads_from act \<noteq> None \<and> ma_reads_from act \<noteq> lastwrmap g l
              then g\<lparr>badrfset := (badrfset g)(a \<mapsto> lastwrmap g l), hasBadRF := True\<rparr> else g)
     in if is_write act then g\<lparr>lastwrmap := (lastwrmap g)(l \<mapsto> a)\<rparr> else g)"

definition gen_check_rf :: "execution \<Rightarrow> act_ptr list \<Rightarrow> sc_generator \<Rightarrow> sc_generator option" where
  "gen_check_rf s list g = do {
     let g = fold (gen_check_action s) list (g\<lparr>hasBadRF := False\<rparr>);
     ASSERT (annotationMode g \<or> cyclic g = hasBadRF g);
     Some g
   }"

text \<open>The slow computation is used when the fast one found a cycle.\<close>

definition getSCList :: "execution \<Rightarrow> act_ptr list \<Rightarrow> sc_generator \<Rightarrow> (act_ptr list \<times> sc_generator) option" where
  "getSCList s actions g = do {
     (n, dup) \<leftarrow> for_each (push_thread_list s) actions (0, dup_threadlists g);
     (list, g) \<leftarrow> gen_generateSC s actions (g\<lparr>dup_threadlists := dup, fastVersion := True\<rparr>);
     (list, g) \<leftarrow> (if cyclic g
        then gen_generateSC s actions ((reset_analysis actions g)\<lparr>fastVersion := False\<rparr>)
        else Some (list, g));
     list \<leftarrow> list;
     g \<leftarrow> gen_check_rf s list g;
     Some (list, update_stats g)
   }"

end
