(* ===== verification/SC_Generator_Order.thy ===== *)
theory SC_Generator_Order
  imports SC_Generator
begin

text \<open>
  The guarantees of the generator of the fence plugin: its order is a complete interleaving of the
  threads, and what its annotations cover.
\<close>

subsection \<open>Frames\<close>

lemma gen_merge_same:
  assumes "gen_merge s a b g = Some (c, g')"
  shows "same_lists_sc g g'"
proof (cases "cvmap g b")
  case None
  with assms show ?thesis by (simp add: gen_merge_def)
next
  case (Some cv2)
  obtain changed joined where "\<And>cv. cvmap g a = Some cv \<Longrightarrow> cv_merge cv cv2 = (changed, joined)"
    by (cases "cvmap g a"; cases "cv_merge (the (cvmap g a)) cv2") auto
  with assms Some show ?thesis
    by (cases "cvmap g a") (simp_all add: gen_merge_def same_lists_sc_def Let_def split: if_splits, auto)
qed

lemma lists_empty_cong: "threadlists g = threadlists g' \<Longrightarrow> lists_empty g = lists_empty g'"
  by (simp only: lists_empty_def remaining_def)

lemma fast_visit_same:
  "fast_visit s r w n w2 (ch, g) = Some (b, ch', g') \<Longrightarrow> same_lists_sc g g'"
  by (auto simp: fast_visit_def bind_eq_Some_conv split_def Let_def split: option.splits if_splits
    dest!: gen_merge_same intro: same_lists_sc_trans)

lemma over_thread_inv:
  assumes "over_thread s l visit tid st = Some st'" "P st"
    and "\<And>a st b st'. visit a st = Some (b, st') \<Longrightarrow> P st \<Longrightarrow> P st'"
  shows "P st'"
proof (cases "get_actions_on_obj s l tid")
  case None
  with assms show ?thesis by (simp add: over_thread_def)
next
  case (Some list)
  with assms(1) obtain b where "for_until visit (rev list) st = Some (b, st')"
    by (auto simp: over_thread_def bind_eq_Some_conv)
  then show ?thesis by (rule for_until_inv [where P = P]) (use assms(2,3) in auto)
qed

lemma over_threads_inv:
  assumes "for_each (over_thread s l visit) ts st = Some st'" "P st"
    and "\<And>a st b st'. visit a st = Some (b, st') \<Longrightarrow> P st \<Longrightarrow> P st'"
  shows "P st'"
  using assms(1,2) by (rule for_each_inv) (rule over_thread_inv [OF _ _ assms(3)])

lemma processReadFast_same:
  assumes "processReadFast s r g = Some (ch, g')"
  shows "same_lists_sc g g'"
proof (cases "ma_reads_from (ex_acts s r)")
  case None
  with assms show ?thesis by (simp add: processReadFast_def)
next
  case (Some w)
  with assms obtain c g1 where 1: "gen_merge s r w g = Some (c, g1)" and
    2: "for_each (over_thread s (ma_location (ex_acts s r)) (fast_visit s r w (cvmap g w = None)))
      [0..<maxthreads g1 + 1] (c \<and> act_less s r w, g1) = Some (ch, g')"
    by (auto simp: processReadFast_def Let_def bind_eq_Some_conv)
  have "same_lists_sc g (snd (ch, g'))"
    using 2 by (rule over_threads_inv [where P = "\<lambda>x. same_lists_sc g (snd x)"])
      (use gen_merge_same [OF 1] in \<open>force intro: same_lists_sc_trans dest: fast_visit_same\<close>)+
  then show ?thesis by simp
qed

abbreviation gen_same :: "sc_generator \<Rightarrow> 'a \<times> 'b \<times> sc_generator \<Rightarrow> bool" where
  "gen_same g x \<equiv> same_lists_sc g (snd (snd x))"

lemma slow_store_same: "slow_store s r w st = Some st' \<Longrightarrow> gen_same g st \<Longrightarrow> gen_same g st'"
  by (auto simp: slow_store_def bind_eq_Some_conv split_def Let_def split: if_splits
    dest!: gen_merge_same intro: same_lists_sc_trans)

lemma slow_after_same: "slow_after s r w st = Some st' \<Longrightarrow> gen_same g st \<Longrightarrow> gen_same g st'"
  by (auto simp: slow_after_def bind_eq_Some_conv split_def Let_def split: if_splits
    dest!: gen_merge_same intro: same_lists_sc_trans)

lemma slow_before_same: "slow_before s w n w2 st = Some st' \<Longrightarrow> gen_same g st \<Longrightarrow> gen_same g st'"
  by (auto simp: slow_before_def bind_eq_Some_conv split_def Let_def split: if_splits
    dest!: gen_merge_same intro: same_lists_sc_trans)

lemma slow_visit_same: "slow_visit s r w n w2 st = Some (b, st') \<Longrightarrow> gen_same g st \<Longrightarrow> gen_same g st'"
  by (auto simp: slow_visit_def bind_eq_Some_conv split: if_splits option.splits
    dest!: slow_after_same [where g = g] slow_before_same [where g = g])

lemma processReadSlow_same:
  assumes "processReadSlow s r (f, g) = Some (ch, f', g')"
  shows "same_lists_sc g g'"
proof -
  from assms obtain w st where 1: "slow_store s r w (False, f, g) = Some st" and
    2: "for_each (over_thread s (ma_location (ex_acts s r)) (slow_visit s r w (cvmap g w = None)))
      [0..<maxthreads g + 1] st = Some (ch, f', g')"
    unfolding processReadSlow_def Let_def split_conv by (auto simp: bind_eq_Some_conv)
  have "gen_same g st" by (rule slow_store_same [OF 1]) simp
  with 2 have "gen_same g (ch, f', g')"
    by (rule over_threads_inv [where P = "gen_same g"]) (rule slow_visit_same)
  then show ?thesis by simp
qed

lemma gen_read_same:
  assumes "gen_read s a (f, g) = Some (ch, f', g')"
  shows "same_lists_sc g g'"
proof -
  have "gen_same g (ch, f', g')" if "processAnnotatedReadSlow s a (f, g) = Some (ch, f', g')"
    using that by (auto simp: processAnnotatedReadSlow_def bind_eq_Some_conv dest: slow_store_same [where g = g])
  with assms show ?thesis
    by (auto simp: gen_read_def bind_eq_Some_conv split: if_splits dest: processReadFast_same processReadSlow_same)
qed

lemma gen_cv_visit_same:
  assumes "gen_cv_visit s a x = Some x'"
  shows "same_lists_sc (snd (snd (snd x))) (snd (snd (snd x')))"
proof -
  obtain la ch f g la' ch' f' g' where x: "x = (la, ch, f, g)" "x' = (la', ch', f', g')"
    by (cases x; cases x'; auto)
  from assms obtain p g1 c1 g2 c2 where
    1: "gen_merge_previous s a p (gen_ensure_cv s a g) = Some g1" and
    2: "gen_merge_joined s a g1 = Some (c1, g2)" and
    3: "gen_read s a (f, g2) = Some (c2, f', g')"
    unfolding gen_cv_visit_def Let_def x by (clarsimp simp: bind_eq_Some_conv)
  have "same_lists_sc g (gen_ensure_cv s a g)" by (simp add: gen_ensure_cv_def same_lists_sc_def)
  moreover have "same_lists_sc (gen_ensure_cv s a g) g1"
    using 1 by (auto simp: gen_merge_previous_def split: option.splits dest: gen_merge_same)
  moreover have "same_lists_sc g1 g2"
    using 2 by (auto simp: gen_merge_joined_def bind_eq_Some_conv split: if_splits dest: gen_merge_same)
  ultimately show ?thesis using gen_read_same [OF 3] unfolding x by (simp add: same_lists_sc_def)
qed

lemma gen_cv_loop_same:
  "gen_cv_loop s list ft la g = Some g' \<Longrightarrow> same_lists_sc g g'"
proof (induction rule: gen_cv_loop.raw_induct [rotated, consumes 1, case_names step])
  case (step rec s list ft la g g')
  from step(2) obtain x where v: "for_each (gen_cv_visit s) list (la, ft, False, g) = Some x"
    and r: "(let g = snd (snd (snd x)) in
            if fst (snd x) then rec s list False (replicate (length la) None) g
            else if \<not> fastVersion g \<and> \<not> allowNonSC g then rec s list False (fst x) (g\<lparr>allowNonSC := True\<rparr>)
            else Some g) = Some g'"
    by (cases "for_each (gen_cv_visit s) list (la, ft, False, g)") simp_all
  have pass: "same_lists_sc g (snd (snd (snd x)))" using v
    by (rule for_each_inv [where P = "\<lambda>x. same_lists_sc g (snd (snd (snd x)))"])
      (auto intro: same_lists_sc_trans dest: gen_cv_visit_same)
  have allow: "same_lists_sc h (h\<lparr>allowNonSC := b\<rparr>)" for h :: sc_generator and b by (simp add: same_lists_sc_def)
  obtain h where h: "snd (snd (snd x)) = h" by simp
  from r have "(\<exists>ft la. rec s list ft la h = Some g') \<or> (\<exists>ft la. rec s list ft la (h\<lparr>allowNonSC := True\<rparr>) = Some g') \<or> g' = h"
    unfolding Let_def h by (metis option.inject)
  then show ?case using step(1) pass [unfolded h] allow same_lists_sc_trans by metis
qed

lemma gen_computeCV_same: "gen_computeCV s list g = Some g' \<Longrightarrow> same_lists_sc g g'"
  unfolding gen_computeCV_def by (rule gen_cv_loop_same)

interpretation generator: sc_search "gen_computeCV s" "updateConstraints (gen_merge s) s" for s
  by unfold_locales (auto intro: gen_computeCV_same updateConstraints_same gen_merge_same)

subsection \<open>Annotations\<close>

lemma annotate_same: "same_lists_sc g (annotate a n g)"
  by (simp add: annotate_def same_lists_sc_def)

lemma collect_list_same: "collect_list s xs g = Some (b, g') \<Longrightarrow> same_lists_sc g g'"
proof (induction s xs g rule: collect_list.induct)
  case (2 s a rest g)
  show ?case
  proof (cases "IS_SC_ANNO (ex_acts s a) \<and> IS_ANNO_BEGIN (ex_acts s a)")
    case False
    with 2 show ?thesis by (auto split: if_splits simp: same_lists_sc_def)
  next
    case True
    with "2.prems" obtain act rest' where rest: "rest = act # rest'" by (cases rest) auto
    show ?thesis
    proof (cases "IS_ANNO_END (ex_acts s act)")
      case True
      with 2 \<open>IS_SC_ANNO (ex_acts s a) \<and> IS_ANNO_BEGIN (ex_acts s a)\<close> rest show ?thesis by simp
    next
      case False
      with "2.prems" True rest obtain r n where a: "anno_section s rest' 0 = Some (r, n)"
        and c: "collect_list s r (annotate act n g) = Some (b, g')"
        by (auto split: option.splits)
      have "same_lists_sc (annotate act n g) g'" using "2.IH"(3) True False rest a c by simp
      with annotate_same show ?thesis by (rule same_lists_sc_trans)
    qed
  qed
qed simp

lemma collectAnnotatedReads_same:
  assumes "collectAnnotatedReads s g = Some g'"
  shows "same_lists_sc g g'"
proof -
  from assms obtain b where "for_until (collect_list s) (tl (threadlists g)) g = Some (b, g')"
    by (auto simp: collectAnnotatedReads_def)
  then show ?thesis
    by (rule for_until_inv) (auto intro: same_lists_sc_trans dest: collect_list_same)
qed

subsection \<open>The order\<close>

lemma gen_generateSC_splits:
  assumes "gen_generateSC s list g = Some (r, g')" "lists_empty g" "hb_respects_order s list"
  shows "lists_bounded g' \<and> (case r of None \<Rightarrow> True | Some order \<Rightarrow> \<forall>t. of_thread s t order = of_thread s t list)"
proof -
  from assms(1) obtain n g1 g2 where
    b: "buildVectors s list g = Some (n, g1)" and
    an: "(if annotationMode g1 then collectAnnotatedReads s (g1\<lparr>sc_stats := (sc_stats g1)\<lparr>sc_actions := sc_actions (sc_stats g1) + n\<rparr>\<rparr>)
      else Some (g1\<lparr>sc_stats := (sc_stats g1)\<lparr>sc_actions := sc_actions (sc_stats g1) + n\<rparr>\<rparr>)) = Some g2" and
    rest: "(if annotationMode g2 \<and> annotationError g2 then Some (None, g2)
     else do {
       g \<leftarrow> gen_computeCV s list g2;
       (sclist, g) \<leftarrow> sc_loop (gen_computeCV s) (updateConstraints (gen_merge s) s) s list
         (\<lparr>choices = replicate n 0, endchoice = 0, currchoice = 0, lastchoice = None\<rparr>, [], g);
       Some (Some sclist, g)
     }) = Some (r, g')"
    unfolding gen_generateSC_def Let_def by (auto simp only: bind_eq_Some_conv split: prod.splits) auto
  have "splits_list s list [] g1" using buildVectors_splits [OF b assms(2)] by simp
  then have "splits_list s list [] (g1\<lparr>sc_stats := (sc_stats g1)\<lparr>sc_actions := sc_actions (sc_stats g1) + n\<rparr>\<rparr>)"
    by (rule splits_list_same [rotated]) (simp add: same_lists_sc_def)
  with an have 2: "splits_list s list [] g2"
    by (auto split: if_splits dest: collectAnnotatedReads_same intro: splits_list_same)
  show ?thesis
  proof (cases "annotationMode g2 \<and> annotationError g2")
    case True
    with rest 2 show ?thesis by (auto simp: splits_list_def)
  next
    case False
    with rest obtain g3 c order where cv: "gen_computeCV s list g2 = Some g3" and r: "r = Some order" and
      l: "sc_loop (gen_computeCV s) (updateConstraints (gen_merge s) s) s list (c, [], g3) = Some (order, g')"
      by (auto simp: bind_eq_Some_conv)
    have "splits_list s list [] g3" by (rule splits_list_same [OF gen_computeCV_same [OF cv] 2])
    then have "splits_list s list order g' \<and> (\<forall>t. remaining g' t = [])"
      using sc_loop_splits [OF l generator.sc_search_axioms] assms(3) by simp
    then show ?thesis unfolding splits_list_def r by (simp, metis append_Nil2)
  qed
qed

lemma fold_check_frame: "cyclic (fold (gen_check_action s) xs g) = cyclic g"
  by (induction xs arbitrary: g) (simp_all add: gen_check_action_def Let_def)

lemma getSCList_complete:
  assumes "getSCList s actions g = Some (order, g')" "lists_empty g" "hb_respects_order s actions"
  shows "of_thread s t order = of_thread s t actions"
proof -
  from assms(1) obtain n dup r1 g1 r2 g2 where
    1: "gen_generateSC s actions (g\<lparr>dup_threadlists := dup, fastVersion := True\<rparr>) = Some (r1, g1)" and
    2: "(if cyclic g1 then gen_generateSC s actions ((reset_analysis actions g1)\<lparr>fastVersion := False\<rparr>)
        else Some (r1, g1)) = Some (r2, g2)" and
    3: "r2 = Some order"
    unfolding getSCList_def by (auto simp: bind_eq_Some_conv)
  have "lists_empty (g\<lparr>dup_threadlists := dup, fastVersion := True\<rparr>)"
    using assms(2) lists_empty_cong [of "g\<lparr>dup_threadlists := dup, fastVersion := True\<rparr>" g] by simp
  from gen_generateSC_splits [OF 1 this assms(3)] have s1: "lists_bounded g1"
    "case r1 of None \<Rightarrow> True | Some order \<Rightarrow> \<forall>t. of_thread s t order = of_thread s t actions" by auto
  show ?thesis
  proof (cases "cyclic g1")
    case False
    with 2 3 s1 show ?thesis by simp
  next
    case True
    have "lists_empty ((reset_analysis actions g1)\<lparr>fastVersion := False\<rparr>)"
      using reset_analysis_empty [OF s1(1), of actions]
        lists_empty_cong [of "(reset_analysis actions g1)\<lparr>fastVersion := False\<rparr>" "reset_analysis actions g1"] by simp
    moreover from True 2 have "gen_generateSC s actions ((reset_analysis actions g1)\<lparr>fastVersion := False\<rparr>) = Some (r2, g2)"
      by simp
    ultimately show ?thesis using gen_generateSC_splits assms(3) 3 by fastforce
  qed
qed

subsection \<open>Properties\<close>

text \<open>
  C22: The order the generator of the fence plugin hands out, from the fast computation or from the slow
  one after a cycle, contains every action of the trace exactly once and keeps the order of each
  thread, with or without annotations.
\<close>

theorem getSCList_order_complete:
  assumes "getSCList s actions g = Some (order, g')" "lists_empty g" "hb_respects_order s actions"
  shows "mset order = mset actions \<and> of_thread s t order = of_thread s t actions"
  using getSCList_complete [OF assms] by (auto intro: same_threads_mset)

theorem getSCList_order_complete_witness:
  "\<exists>g'. getSCList stale_read [0, 1, 2] (new_sc_generator False False) = Some ([0, 2, 1], g') \<and>
     mset [0, 2, 1] = mset [0, 1, 2 :: act_ptr]"
proof -
  have "map_option fst (getSCList stale_read [0, 1, 2] (new_sc_generator False False)) = Some [0, 2, 1]" by code_simp
  then obtain g' where g': "getSCList stale_read [0, 1, 2] (new_sc_generator False False) = Some ([0, 2, 1], g')" by auto
  have "hb_respects_order stale_read [0, 1, 2]" by code_simp
  moreover have "lists_empty (new_sc_generator False False)"
    by (simp add: lists_empty_def remaining_def new_sc_generator_def)
  ultimately show ?thesis using getSCList_order_complete [OF g'] g' by blast
qed

lemma anno_section_run:
  "list_all (\<lambda>a. \<not> IS_ANNO_END (ex_acts s a)) xs \<Longrightarrow> IS_ANNO_END (ex_acts s e) \<Longrightarrow>
   \<exists>m. anno_section s (xs @ e # rest) n = Some (rest, Suc m)"
  by (induction xs arbitrary: n) (auto simp: IS_ANNO_END_def IS_ANNO_KEEP_def)

text \<open>
  Of an annotated section only the first action is ever annotated: whatever follows it up to the
  END stays unannotated, and the first one is annotated even when a KEEP follows it.
\<close>

theorem annotation_marks_first_only:
  assumes "IS_SC_ANNO (ex_acts s b)" "IS_ANNO_BEGIN (ex_acts s b)" "IS_ANNO_END (ex_acts s e)"
    and "list_all (\<lambda>a. \<not> IS_ANNO_END (ex_acts s a)) (a # xs)"
  shows "\<exists>g'. collect_list s (b # a # xs @ [e]) g = Some (False, g') \<and>
    annotatedReadSet g' = (annotatedReadSet g)(a := True)"
proof -
  from assms obtain m where "anno_section s (xs @ [e]) 0 = Some ([], Suc m)"
    using anno_section_run [of s xs e "[]" 0] by auto
  with assms show ?thesis by (simp add: annotate_def)
qed

text \<open>Two loads between BEGIN and END.\<close>

definition annotated_loads :: execution where
  "annotated_loads = sample_execution
     \<lparr>ex_acts := (\<lambda>p. if p = 0 then (sample_action ATOMIC_ANNOTATION 1 1)\<lparr>ma_location := 1, ma_value := 2\<rparr>
                     else if p = 3 then (sample_action ATOMIC_ANNOTATION 1 4)\<lparr>ma_location := 2, ma_value := 2\<rparr>
                     else sample_action ATOMIC_READ 1 (of_nat p + 1))\<rparr>"

theorem annotation_marks_first_only_witness:
  "\<exists>g'. collect_list annotated_loads [0, 1, 2, 3] (new_sc_generator False False) = Some (False, g') \<and>
    annotatedReadSet g' 1 \<and> \<not> annotatedReadSet g' 2"
proof -
  have "IS_SC_ANNO (ex_acts annotated_loads 0)" "IS_ANNO_BEGIN (ex_acts annotated_loads 0)"
    "IS_ANNO_END (ex_acts annotated_loads 3)"
    "list_all (\<lambda>a. \<not> IS_ANNO_END (ex_acts annotated_loads a)) (1 # [2])"
    by code_simp+
  from annotation_marks_first_only [OF this] obtain g' where
    "collect_list annotated_loads (0 # 1 # [2] @ [3]) (new_sc_generator False False) = Some (False, g')"
    "annotatedReadSet g' = (annotatedReadSet (new_sc_generator False False))(1 := True)" by blast
  then show ?thesis by (simp add: new_sc_generator_def)
qed

end
