(* ===== verification/Fence_Paths.thy ===== *)
theory Fence_Paths
  imports Execution_State
begin

text \<open>
  The paths of reads-from and sequenced-before edges between two actions (\<open>get_rf_sb_paths\<close> of
  \<open>scfence/scfence.cc\<close>). A path is the list of its reads; each read is sequenced before the store
  that the next read reads from. The search keeps a stack of partial paths that grow at the front.
  The lists of the threads are a copy of the trace by thread.
\<close>

type_synonym thread_lists = "act_ptr list list"

abbreviation seq_of :: "execution \<Rightarrow> act_ptr \<Rightarrow> modelclock" where
  "seq_of s a \<equiv> ma_seq_number (ex_acts s a)"

abbreviation tid_of :: "execution \<Rightarrow> act_ptr \<Rightarrow> thread_id" where
  "tid_of s a \<equiv> ma_tid (ex_acts s a)"

text \<open>The reads of a list before the first action with a greater sequence number.\<close>

definition reads_up_to :: "execution \<Rightarrow> modelclock \<Rightarrow> act_ptr list \<Rightarrow> act_ptr list" where
  "reads_up_to s n list = filter (\<lambda>a. is_read (ex_acts s a)) (takeWhile (\<lambda>a. \<not> seq_of s a > n) list)"

text \<open>Does the store lie at or after a read of the path in its own thread?\<close>

definition has_loop :: "execution \<Rightarrow> act_ptr \<Rightarrow> act_ptr list \<Rightarrow> bool" where
  "has_loop s write path \<longleftrightarrow> (\<exists>r\<in>set path. tid_of s write = tid_of s r \<and> seq_of s write \<ge> seq_of s r)"

text \<open>
  What becomes of the path popped from the stack: it is dropped, it reaches the first action, or it
  is extended at the front by the reads before its first store. A read without store ends the run.
\<close>

datatype path_step = Drop | Found | Extend "act_ptr list list"

definition path_step :: "execution \<Rightarrow> thread_lists \<Rightarrow> act_ptr \<Rightarrow> act_ptr list \<Rightarrow> path_step option" where
  "path_step s dup act1 path = do {
     ASSERT (path \<noteq> []);
     write \<leftarrow> ma_reads_from (ex_acts s (hd path));
     if seq_of s write = 0 then Some Drop
     else if has_loop s write path then Some Drop
     else if tid_of s write = tid_of s act1 \<and> seq_of s write \<ge> seq_of s act1 then Some Found
     else do {
       ASSERT (tid_of s write < length dup);
       Some (Extend (map (\<lambda>a. a # path) (reads_up_to s (seq_of s write) (dup ! tid_of s write))))
     }
   }"

text \<open>The head of the list is the back of the stack.\<close>

partial_function (option) paths_loop ::
  "execution \<Rightarrow> thread_lists \<Rightarrow> act_ptr \<Rightarrow> act_ptr list list \<Rightarrow> act_ptr list list \<Rightarrow> act_ptr list list option" where
  "paths_loop s dup act1 stack paths =
     (if stack = [] then Some paths
      else Option.bind (path_step s dup act1 (hd stack))
        (\<lambda>r. paths_loop s dup act1
               (case r of Extend new \<Rightarrow> rev new @ tl stack | _ \<Rightarrow> tl stack)
               (if r = Found then paths @ [hd stack] else paths)))"

declare paths_loop.simps [code]

definition get_rf_sb_paths :: "execution \<Rightarrow> thread_lists \<Rightarrow> act_ptr \<Rightarrow> act_ptr \<Rightarrow> act_ptr list list option" where
  "get_rf_sb_paths s dup act1 act2 = do {
     ASSERT (tid_of s act1 < length dup \<and> tid_of s act2 < length dup);
     if dup ! tid_of s act1 = [] \<or> dup ! tid_of s act2 = [] then Some []
     else paths_loop s dup act1
       (rev (map (\<lambda>a. [a]) (reads_up_to s (seq_of s act2) (dup ! tid_of s act2)))) []
   }"

subsection \<open>What a path is\<close>

text \<open>
  The reads that may precede a store in its thread; a path starts at the second action and may go on
  past a read whose store is no loop and has not reached the first action.
\<close>

definition store_of :: "execution \<Rightarrow> act_ptr \<Rightarrow> act_ptr" where
  "store_of s r = the (ma_reads_from (ex_acts s r))"

definition alive :: "execution \<Rightarrow> act_ptr list \<Rightarrow> bool" where
  "alive s p \<longleftrightarrow> seq_of s (store_of s (hd p)) \<noteq> 0 \<and> \<not> has_loop s (store_of s (hd p)) p"

definition reaches :: "execution \<Rightarrow> act_ptr \<Rightarrow> act_ptr \<Rightarrow> bool" where
  "reaches s act1 r \<longleftrightarrow> tid_of s (store_of s r) = tid_of s act1 \<and> seq_of s (store_of s r) \<ge> seq_of s act1"

inductive partial_path :: "execution \<Rightarrow> thread_lists \<Rightarrow> act_ptr \<Rightarrow> act_ptr \<Rightarrow> act_ptr list \<Rightarrow> bool"
  for s dup act1 act2 where
  start: "a \<in> set (reads_up_to s (seq_of s act2) (dup ! tid_of s act2)) \<Longrightarrow> partial_path s dup act1 act2 [a]"
| extend: "partial_path s dup act1 act2 p \<Longrightarrow> alive s p \<Longrightarrow> \<not> reaches s act1 (hd p) \<Longrightarrow>
    a \<in> set (reads_up_to s (seq_of s (store_of s (hd p))) (dup ! tid_of s (store_of s (hd p)))) \<Longrightarrow>
    partial_path s dup act1 act2 (a # p)"

text \<open>The lists hold the actions of their threads, and every read of them reads a store of some thread.\<close>

definition thread_lists_ok :: "execution \<Rightarrow> thread_lists \<Rightarrow> bool" where
  "thread_lists_ok s dup \<longleftrightarrow> (\<forall>t<length dup. \<forall>a\<in>set (dup ! t). tid_of s a = t \<and>
     (is_read (ex_acts s a) \<longrightarrow> (case ma_reads_from (ex_acts s a) of None \<Rightarrow> False | Some w \<Rightarrow> tid_of s w < length dup)))"

lemma reads_up_to_in: "a \<in> set (reads_up_to s n list) \<Longrightarrow> a \<in> set list \<and> is_read (ex_acts s a) \<and> seq_of s a \<le> n"
  by (auto simp: reads_up_to_def not_less dest: set_takeWhileD)

subsection \<open>Termination\<close>

text \<open>No read occurs twice in a partial path, so the paths are bounded by the number of actions.\<close>

lemma listed:
  assumes ok: "thread_lists_ok s dup"
    and asm: "a \<in> set (reads_up_to s n (dup ! t))" "t < length dup"
  shows "tid_of s a = t" "a \<in> set (concat dup)" "ma_reads_from (ex_acts s a) = Some (store_of s a)"
    "tid_of s (store_of s a) < length dup"
proof -
  have a: "a \<in> set (dup ! t)" "is_read (ex_acts s a)" using reads_up_to_in [OF asm(1)] by auto
  with ok asm(2) have r: "tid_of s a = t \<and> (case ma_reads_from (ex_acts s a) of None \<Rightarrow> False | Some w \<Rightarrow> tid_of s w < length dup)"
    unfolding thread_lists_ok_def by blast
  then show "tid_of s a = t" by simp
  from r show "ma_reads_from (ex_acts s a) = Some (store_of s a)" "tid_of s (store_of s a) < length dup"
    by (auto simp: store_of_def split: option.splits)
  show "a \<in> set (concat dup)" using a asm(2) by (auto simp: set_conv_nth [of dup])
qed

definition path_ok :: "execution \<Rightarrow> thread_lists \<Rightarrow> act_ptr list \<Rightarrow> bool" where
  "path_ok s dup p \<longleftrightarrow> p \<noteq> [] \<and> distinct p \<and> set p \<subseteq> set (concat dup) \<and>
     ma_reads_from (ex_acts s (hd p)) = Some (store_of s (hd p)) \<and> tid_of s (store_of s (hd p)) < length dup"

definition children :: "execution \<Rightarrow> thread_lists \<Rightarrow> act_ptr \<Rightarrow> act_ptr list \<Rightarrow> act_ptr list list" where
  "children s dup act1 p = (if alive s p \<and> \<not> reaches s act1 (hd p)
     then map (\<lambda>a. a # p) (reads_up_to s (seq_of s (store_of s (hd p))) (dup ! tid_of s (store_of s (hd p)))) else [])"

lemma children_ok:
  assumes "thread_lists_ok s dup" "path_ok s dup p" "q \<in> set (children s dup act1 p)"
  shows "path_ok s dup q \<and> length q = Suc (length p)"
proof -
  let ?w = "store_of s (hd p)"
  from assms(3) obtain a where q: "q = a # p" and a: "a \<in> set (reads_up_to s (seq_of s ?w) (dup ! tid_of s ?w))"
    and alive: "alive s p"
    by (auto simp: children_def split: if_splits)
  have t: "tid_of s ?w < length dup" using assms(2) by (simp add: path_ok_def)
  note l = listed [OF assms(1) a t]
  have "a \<notin> set p" using alive l(1) reads_up_to_in [OF a] by (auto simp: alive_def has_loop_def)
  with assms(2) l show ?thesis by (simp add: path_ok_def q)
qed

lemma path_step_children:
  assumes "path_ok s dup p"
  shows "path_step s dup act1 p = Some (if \<not> alive s p then Drop
    else if reaches s act1 (hd p) then Found else Extend (children s dup act1 p))"
  using assms by (auto simp: path_step_def path_ok_def alive_def reaches_def children_def)

definition weight :: "thread_lists \<Rightarrow> act_ptr list \<Rightarrow> nat" where
  "weight dup p = Suc (length (concat dup)) ^ (Suc (length (concat dup)) - length p)"

lemma children_weight:
  assumes ok: "thread_lists_ok s dup" and asm: "path_ok s dup p"
  shows "sum_list (map (weight dup) (children s dup act1 p)) < weight dup p"
proof -
  let ?M = "length (concat dup)" and ?t = "tid_of s (store_of s (hd p))"
  have p: "length p \<le> ?M"
  proof -
    have "length p = card (set p)" using asm by (simp add: path_ok_def distinct_card)
    also have "\<dots> \<le> card (set (concat dup))" using asm by (intro card_mono) (auto simp: path_ok_def)
    also have "\<dots> \<le> ?M" by (rule card_length)
    finally show ?thesis .
  qed
  have "length (children s dup act1 p) \<le> ?M"
  proof -
    have "length (takeWhile Q xs) \<le> length xs" for Q and xs :: "act_ptr list" by (rule length_takeWhile_le)
    then have "length (reads_up_to s n xs) \<le> length xs" for n and xs :: "act_ptr list"
      unfolding reads_up_to_def using length_filter_le le_trans by blast
    moreover have "length (dup ! ?t) \<le> ?M" using asm
      by (auto simp: path_ok_def length_concat intro!: member_le_sum_list)
    ultimately show ?thesis by (auto simp: children_def intro: le_trans)
  qed
  moreover have "weight dup q = Suc ?M ^ (?M - length p)" if "q \<in> set (children s dup act1 p)" for q
    using children_ok [OF ok asm that] p by (simp add: weight_def)
  then have "sum_list (map (weight dup) (children s dup act1 p)) = length (children s dup act1 p) * Suc ?M ^ (?M - length p)"
    by (induction "children s dup act1 p" rule: list.induct) (simp_all add: sum_list_triv cong: map_cong)
  ultimately have "sum_list (map (weight dup) (children s dup act1 p)) \<le> ?M * Suc ?M ^ (?M - length p)" by simp
  also have "\<dots> < Suc ?M * Suc ?M ^ (?M - length p)" by simp
  also have "\<dots> = weight dup p" using p by (simp add: weight_def Suc_diff_le)
  finally show ?thesis .
qed

definition complete_from :: "execution \<Rightarrow> thread_lists \<Rightarrow> act_ptr \<Rightarrow> act_ptr list \<Rightarrow> act_ptr list set" where
  "complete_from s dup act1 p = {q. (\<lambda>x y. y \<in> set (children s dup act1 x))\<^sup>*\<^sup>* p q \<and> alive s q \<and> reaches s act1 (hd q)}"

lemma complete_from_unfold:
  "complete_from s dup act1 p = (if alive s p \<and> reaches s act1 (hd p) then {p} else {}) \<union> (\<Union>c\<in>set (children s dup act1 p). complete_from s dup act1 c)"
proof -
  have "(\<lambda>x y. y \<in> set (children s dup act1 x))\<^sup>*\<^sup>* p q \<longleftrightarrow> q = p \<or> (\<exists>c\<in>set (children s dup act1 p). (\<lambda>x y. y \<in> set (children s dup act1 x))\<^sup>*\<^sup>* c q)" for q
    by (auto elim: converse_rtranclpE intro: converse_rtranclp_into_rtranclp)
  then show ?thesis unfolding complete_from_def by auto
qed

lemma paths_loop_total:
  assumes ok: "thread_lists_ok s dup"
  shows "\<forall>p\<in>set stack. path_ok s dup p \<Longrightarrow>
   \<exists>r. paths_loop s dup act1 stack paths = Some r \<and> set r = set paths \<union> (\<Union>p\<in>set stack. complete_from s dup act1 p)"
proof (induction "sum_list (map (weight dup) stack)" arbitrary: stack paths rule: less_induct)
  case less
  show ?case
  proof (cases stack)
    case Nil
    then show ?thesis by (simp add: paths_loop.simps)
  next
    case (Cons p rest)
    let ?new = "rev (children s dup act1 p) @ rest" let ?paths = "if alive s p \<and> reaches s act1 (hd p) then paths @ [p] else paths"
    have p: "path_ok s dup p" using less.prems Cons by simp
    have step: "paths_loop s dup act1 stack paths = paths_loop s dup act1 ?new ?paths"
      by (subst paths_loop.simps) (auto simp: Cons path_step_children [OF p] children_def)
    have "sum_list (map (weight dup) ?new) < sum_list (map (weight dup) stack)"
      using children_weight [OF ok p] by (simp add: Cons rev_map [symmetric] sum_list_rev)
    moreover have "\<forall>q\<in>set ?new. path_ok s dup q" using less.prems children_ok [OF ok p] Cons by auto
    ultimately obtain r where "paths_loop s dup act1 ?new ?paths = Some r"
      "set r = set ?paths \<union> (\<Union>q\<in>set ?new. complete_from s dup act1 q)"
      using less.hyps by blast
    then show ?thesis unfolding step by (auto simp: Cons complete_from_unfold [of s dup act1 p])
  qed
qed

lemma partial_path_iff:
  "partial_path s dup act1 act2 q \<longleftrightarrow>
     (\<exists>a\<in>set (reads_up_to s (seq_of s act2) (dup ! tid_of s act2)). (\<lambda>x y. y \<in> set (children s dup act1 x))\<^sup>*\<^sup>* [a] q)"
proof
  assume "partial_path s dup act1 act2 q"
  then show "\<exists>a\<in>set (reads_up_to s (seq_of s act2) (dup ! tid_of s act2)). (\<lambda>x y. y \<in> set (children s dup act1 x))\<^sup>*\<^sup>* [a] q"
  proof induction
    case (extend p a)
    then have "a # p \<in> set (children s dup act1 p)" by (simp add: children_def)
    with extend.IH show ?case by (meson rtranclp.rtrancl_into_rtrancl)
  qed auto
next
  assume "\<exists>a\<in>set (reads_up_to s (seq_of s act2) (dup ! tid_of s act2)). (\<lambda>x y. y \<in> set (children s dup act1 x))\<^sup>*\<^sup>* [a] q"
  then obtain a where "a \<in> set (reads_up_to s (seq_of s act2) (dup ! tid_of s act2))"
    "(\<lambda>x y. y \<in> set (children s dup act1 x))\<^sup>*\<^sup>* [a] q" by blast
  from this(2,1) show "partial_path s dup act1 act2 q"
    by induction (auto simp: children_def intro: partial_path.intros split: if_splits)
qed

lemma get_rf_sb_paths_total:
  assumes ok: "thread_lists_ok s dup" and "tid_of s act1 < length dup" "tid_of s act2 < length dup" "dup ! tid_of s act1 \<noteq> []"
  shows "\<exists>r. get_rf_sb_paths s dup act1 act2 = Some r \<and>
    set r = {p. partial_path s dup act1 act2 p \<and> alive s p \<and> reaches s act1 (hd p)}"
proof -
  let ?start = "reads_up_to s (seq_of s act2) (dup ! tid_of s act2)"
  let ?stack = "rev (map (\<lambda>a. [a]) ?start)"
  have "\<forall>p\<in>set ?stack. path_ok s dup p" using listed [OF ok _ assms(3)] by (auto simp: path_ok_def)
  from paths_loop_total [OF ok this, where paths = "[]" and ?act1.0 = act1] obtain r where
    r: "paths_loop s dup act1 ?stack [] = Some r" "set r = (\<Union>p\<in>set ?stack. complete_from s dup act1 p)" by auto
  have set_r: "set r = {p. partial_path s dup act1 act2 p \<and> alive s p \<and> reaches s act1 (hd p)}"
    unfolding r(2) complete_from_def partial_path_iff by auto
  show ?thesis
  proof (cases "dup ! tid_of s act2 = []")
    case True
    then have "?start = []" by (simp add: reads_up_to_def)
    then have "{p. partial_path s dup act1 act2 p \<and> alive s p \<and> reaches s act1 (hd p)} = {}"
      by (simp add: partial_path_iff)
    then show ?thesis using assms True by (simp add: get_rf_sb_paths_def)
  next
    case False
    then show ?thesis using assms r(1) set_r by (simp add: get_rf_sb_paths_def)
  qed
qed

text \<open>
  C24: The search for reads-from and sequenced-before paths terminates and returns exactly the paths:
  every returned list of reads ends before the second action, each read is sequenced before the store
  of the next one, the first store lies at or after the first action in its thread, and no store
  follows a read of the path in its own thread; and every such list is returned.
\<close>

theorem get_rf_sb_paths_exact:
  assumes "thread_lists_ok s dup" "tid_of s act1 < length dup" "tid_of s act2 < length dup"
    and "dup ! tid_of s act1 \<noteq> []"
  shows "\<exists>paths. get_rf_sb_paths s dup act1 act2 = Some paths \<and>
    set paths = {p. partial_path s dup act1 act2 p \<and> alive s p \<and> reaches s act1 (hd p)}"
  by (rule get_rf_sb_paths_total [OF assms])

text \<open>Message passing: thread 1 stores data and flag, thread 2 reads flag and data.\<close>

definition message_passing :: execution where
  "message_passing = sample_execution
     \<lparr>ex_acts := (\<lambda>p. if p = 0 then sample_action ATOMIC_WRITE 1 1
                     else if p = 1 then (sample_action ATOMIC_WRITE 1 2)\<lparr>ma_location := 24\<rparr>
                     else if p = 2 then (sample_action ATOMIC_READ 2 3)\<lparr>ma_location := 24, ma_reads_from := Some 1\<rparr>
                     else (sample_action ATOMIC_READ 2 4)\<lparr>ma_reads_from := Some 0\<rparr>),
      ex_next_act := 4, action_trace := [0, 1, 2, 3]\<rparr>"

theorem get_rf_sb_paths_exact_witness:
  "get_rf_sb_paths message_passing [[], [0, 1], [2, 3]] 0 3 = Some [[3], [2]] \<and>
   partial_path message_passing [[], [0, 1], [2, 3]] 0 3 [2] \<and> alive message_passing [2]"
proof -
  have v: "get_rf_sb_paths message_passing [[], [0, 1], [2, 3]] 0 3 = Some [[3], [2]]" by code_simp
  have "thread_lists_ok message_passing [[], [0, 1], [2, 3]]" by code_simp
  moreover have "tid_of message_passing 0 < length [[], [0, 1], [2, 3 :: act_ptr]]" by code_simp
  moreover have "tid_of message_passing 3 < length [[], [0, 1], [2, 3 :: act_ptr]]" by code_simp
  moreover have "[[], [0, 1], [2, 3]] ! tid_of message_passing 0 \<noteq> ([] :: act_ptr list)" by code_simp
  ultimately have "\<exists>paths. get_rf_sb_paths message_passing [[], [0, 1], [2, 3]] 0 3 = Some paths \<and>
      set paths = {p. partial_path message_passing [[], [0, 1], [2, 3]] 0 3 p \<and>
        alive message_passing p \<and> reaches message_passing 0 (hd p)}"
    by (rule get_rf_sb_paths_exact)
  then have "set [[3], [2]] = {p. partial_path message_passing [[], [0, 1], [2, 3]] 0 3 p \<and>
      alive message_passing p \<and> reaches message_passing 0 (hd p)}"
    unfolding v by (elim exE conjE) (simp only: option.inject)
  then have "[2] \<in> {p. partial_path message_passing [[], [0, 1], [2, 3]] 0 3 p \<and>
      alive message_passing p \<and> reaches message_passing 0 (hd p)}" by (metis list.set_intros)
  with v show ?thesis by simp
qed

end
