(* ===== verification/Inference.thy ===== *)
theory Inference
  imports Model_Action
begin

text \<open>
  The inferences of the fence plugin (\<open>scfence/inference.h\<close>, \<open>scfence/inference.cc\<close>,
  \<open>include/wildcard.h\<close>): an assignment of memory orders to the wildcards of a checked program.

  The plugin stores values that are no memory orders in the type \<open>memory_order\<close>: a wildcard
  \<open>0x1000 + x\<close>, the order \<open>0x2000\<close> of a plain access, and \<open>-1\<close> for a wildcard that has not been met
  yet. \<open>mo_code\<close> gives the number of each, as the comparisons of the code see it (the enumeration is
  unsigned).
\<close>

subsection \<open>Parameters\<close>

datatype mo_param = WILDCARD_NONEXIST | Order memory_order | memory_order_normal | Wildcard nat

definition MAX_WILDCARD_NUM :: nat where
  "MAX_WILDCARD_NUM = 50"

fun mo_value :: "memory_order \<Rightarrow> int" where
  "mo_value memory_order_relaxed = 0"
| "mo_value memory_order_acquire = 1"
| "mo_value memory_order_release = 2"
| "mo_value memory_order_acq_rel = 3"
| "mo_value memory_order_seq_cst = 4"

fun mo_code :: "mo_param \<Rightarrow> int" where
  "mo_code WILDCARD_NONEXIST = 4294967295"
| "mo_code (Order m) = mo_value m"
| "mo_code memory_order_normal = 8192"
| "mo_code (Wildcard x) = 4096 + int x"

definition is_normal_mo :: "mo_param \<Rightarrow> bool" where
  "is_normal_mo x \<longleftrightarrow> (case x of Order m \<Rightarrow> True | memory_order_normal \<Rightarrow> True | _ \<Rightarrow> False)"

definition is_normal_mo_infer :: "mo_param \<Rightarrow> bool" where
  "is_normal_mo_infer x \<longleftrightarrow> is_normal_mo x \<or> x = WILDCARD_NONEXIST"

definition is_wildcard :: "mo_param \<Rightarrow> bool" where
  "is_wildcard x \<longleftrightarrow> (case x of Order m \<Rightarrow> False | memory_order_normal \<Rightarrow> False | _ \<Rightarrow> True)"

text \<open>\<open>(int) (x - 0x1000)\<close>: the difference wraps for \<open>-1\<close>, but stays negative as an \<open>int\<close>.\<close>

definition get_wildcard_id :: "mo_param \<Rightarrow> int" where
  "get_wildcard_id x = (if x = WILDCARD_NONEXIST then - 4097 else mo_code x - 4096)"

definition get_wildcard_id_zero :: "mo_param \<Rightarrow> nat" where
  "get_wildcard_id_zero x = (if get_wildcard_id x > 0 then nat (get_wildcard_id x) else 0)"

abbreviation "relaxed \<equiv> Order memory_order_relaxed"
abbreviation "acquire \<equiv> Order memory_order_acquire"
abbreviation "release \<equiv> Order memory_order_release"
abbreviation "acqrel \<equiv> Order memory_order_acq_rel"
abbreviation "seqcst \<equiv> Order memory_order_seq_cst"

subsection \<open>The comparison of orders\<close>

text \<open>\<open>0\<close>: equal, \<open>1\<close>: the first is stronger, \<open>-1\<close>: it is weaker, \<open>2\<close>: incomparable.\<close>

definition compareMemoryOrder :: "mo_param \<Rightarrow> mo_param \<Rightarrow> int" where
  "compareMemoryOrder mo1 mo2 = (
     let mo1 = (if mo1 = WILDCARD_NONEXIST then relaxed else mo1);
         mo2 = (if mo2 = WILDCARD_NONEXIST then relaxed else mo2)
     in if mo1 = mo2 then 0
        else if mo1 = relaxed then - 1
        else if mo1 = acquire then (if mo2 = relaxed then 1 else if mo2 = release then 2 else - 1)
        else if mo1 = release then (if mo2 = relaxed then 1 else if mo2 = acquire then 2 else - 1)
        else if mo1 = acqrel then (if mo2 = seqcst then - 1 else 1)
        else 1)"

definition nextWeakOrder :: "mo_param \<Rightarrow> mo_param \<Rightarrow> mo_param" where
  "nextWeakOrder mo1 mo2 = (
     let res = (if mo1 = seqcst then acqrel else if mo1 = acqrel then acquire else relaxed);
         compVal = compareMemoryOrder res mo2
     in if compVal = 2 \<or> compVal = - 1 then mo2 else res)"

subsection \<open>An inference\<close>

text \<open>The list \<open>orders\<close> has \<open>size + 1\<close> entries; inferences are shared by pointer.\<close>

type_synonym infer_ptr = nat

record inference =
  orders :: "mo_param list"
  initialInfer :: infer_ptr
  buggy :: bool
  explored :: bool
  leaf :: bool
  hasFixes :: bool
  shouldFix :: bool

definition inf_size :: "inference \<Rightarrow> nat" where
  "inf_size i = length (orders i) - 1"

text \<open>The constructors: a fresh inference is its own initial one.\<close>

definition new_inference :: "infer_ptr \<Rightarrow> inference" where
  "new_inference self = \<lparr>orders = replicate 5 WILDCARD_NONEXIST, initialInfer = self, buggy = False,
     explored = False, leaf = False, hasFixes = False, shouldFix = True\<rparr>"

definition copy_inference :: "inference \<Rightarrow> inference option" where
  "copy_inference i = do {
     ASSERT (inf_size i > 0 \<and> inf_size i \<le> MAX_WILDCARD_NUM);
     Some \<lparr>orders = orders i, initialInfer = initialInfer i, buggy = False, explored = False,
       leaf = False, hasFixes = False, shouldFix = True\<rparr>
   }"

definition resize_orders :: "nat \<Rightarrow> inference \<Rightarrow> inference option" where
  "resize_orders newsize i = do {
     ASSERT (newsize > inf_size i \<and> newsize \<le> MAX_WILDCARD_NUM);
     Some (i\<lparr>orders := vec_grow (newsize + 1) WILDCARD_NONEXIST (orders i)\<rparr>)
   }"

text \<open>
  \<open>operator[]\<close> with an index in range gives the entry, and otherwise grows the vector, also when the
  entry is only read.
\<close>

definition order_at :: "nat \<Rightarrow> inference \<Rightarrow> (mo_param \<times> inference) option" where
  "order_at idx i =
     (if idx > 0 \<and> idx \<le> inf_size i then Some (orders i ! idx, i)
      else do {
        i \<leftarrow> resize_orders idx i;
        Some (WILDCARD_NONEXIST, i\<lparr>orders := (orders i)[idx := WILDCARD_NONEXIST]\<rparr>)
      })"

definition set_order_at :: "nat \<Rightarrow> mo_param \<Rightarrow> inference \<Rightarrow> inference option" where
  "set_order_at idx mo i = do {
     (old, i) \<leftarrow> order_at idx i;
     Some (i\<lparr>orders := (orders i)[idx := mo]\<rparr>)
   }"

text \<open>The order a wildcard gets, \<open>None\<close> when the present one is at least as strong.\<close>

definition stronger_order :: "mo_param \<Rightarrow> mo_param \<Rightarrow> mo_param option" where
  "stronger_order cur mo =
     (if cur = seqcst then None
      else if cur = relaxed then (if mo = relaxed then None else Some mo)
      else if cur = acquire then
        (if mo = acquire \<or> mo = relaxed then None
         else if mo = release then Some acqrel
         else if mo = acqrel \<or> mo = seqcst then Some mo else Some cur)
      else if cur = release then
        (if mo = release \<or> mo = relaxed then None
         else if mo = acquire then Some acqrel else Some mo)
      else if cur = acqrel then (if mo = seqcst then Some mo else None)
      else Some mo)"

definition strengthen :: "mo_param \<Rightarrow> mo_param \<Rightarrow> inference \<Rightarrow> (int \<times> inference) option" where
  "strengthen original mo i = (
     let w = get_wildcard_id_zero original
     in if \<not> is_wildcard original then Some (- 1, i)
        else do {
          i \<leftarrow> (if w > inf_size i then resize_orders w i else Some i);
          ASSERT (is_normal_mo mo);
          ASSERT (is_normal_mo_infer (orders i ! w));
          (case stronger_order (orders i ! w) mo of
             None \<Rightarrow> Some (0, i)
           | Some m \<Rightarrow> Some (1, i\<lparr>orders := (orders i)[w := m]\<rparr>))
        })"

subsection \<open>The comparison of inferences\<close>

definition compare_entry :: "mo_param \<Rightarrow> mo_param \<Rightarrow> int" where
  "compare_entry mo1 mo2 =
     (if mo1 = WILDCARD_NONEXIST \<and> mo2 \<noteq> WILDCARD_NONEXIST \<or>
         mo1 = WILDCARD_NONEXIST \<and> mo2 = relaxed \<or> mo1 = relaxed \<and> mo2 = WILDCARD_NONEXIST then 1
      else if mo1 \<noteq> WILDCARD_NONEXIST \<and> mo2 = WILDCARD_NONEXIST then - 1
      else if mo_code mo1 > mo_code mo2 then 1 else if mo1 = mo2 then 0 else - 1)"

fun compare_loop :: "int \<Rightarrow> (mo_param \<times> mo_param) list \<Rightarrow> int" where
  "compare_loop result [] = result"
| "compare_loop result ((mo1, mo2) # rest) =
     (if mo1 = acquire \<and> mo2 = release \<or> mo1 = release \<and> mo2 = acquire then - 2
      else let subResult = compare_entry mo1 mo2
        in if subResult > 0 \<and> result < 0 \<or> subResult < 0 \<and> result > 0 then - 2
           else compare_loop (if subResult \<noteq> 0 then subResult else result) rest)"

definition compareTo :: "inference \<Rightarrow> inference \<Rightarrow> int" where
  "compareTo i j =
     compare_loop (if inf_size i = inf_size j then 0 else if inf_size i > inf_size j then 1 else - 1)
       (zip (orders i) (orders j))"

text \<open>The hash: 64-bit arithmetic that wraps.\<close>

definition getHash :: "inference \<Rightarrow> u64" where
  "getHash i = fold (\<lambda>mo hash. hash * 37 +
     of_int (mo_code (if mo = WILDCARD_NONEXIST then relaxed else mo) + 4096)) (tl (orders i)) 0"

subsection \<open>The lattice of memory orders\<close>

text \<open>What an order guarantees; a stronger order guarantees more.\<close>

datatype guarantee = Acquires | Releases | Total

fun guarantees :: "mo_param \<Rightarrow> guarantee set" where
  "guarantees (Order memory_order_acquire) = {Acquires}"
| "guarantees (Order memory_order_release) = {Releases}"
| "guarantees (Order memory_order_acq_rel) = {Acquires, Releases}"
| "guarantees (Order memory_order_seq_cst) = {Acquires, Releases, Total}"
| "guarantees _ = {}"

definition met :: "mo_param \<Rightarrow> bool" where
  "met x \<longleftrightarrow> (\<exists>m. x = Order m)"

lemma met_simps [simp]:
  "met (Order m)" "\<not> met WILDCARD_NONEXIST" "\<not> met memory_order_normal" "\<not> met (Wildcard n)"
  by (auto simp: met_def)

lemma met_cases [consumes 1, case_names relaxed acquire release acqrel seqcst]:
  assumes "met x"
  obtains "x = relaxed" | "x = acquire" | "x = release" | "x = acqrel" | "x = seqcst"
  using assms unfolding met_def by (metis memory_order.exhaust)

lemma met_normal: "met x \<Longrightarrow> is_normal_mo x \<and> is_normal_mo_infer x \<and> \<not> is_wildcard x"
  by (auto simp: met_def is_normal_mo_def is_normal_mo_infer_def is_wildcard_def)

lemma guarantees_inject: "met x \<Longrightarrow> met y \<Longrightarrow> guarantees x = guarantees y \<longleftrightarrow> x = y"
  by (elim met_cases) auto

definition lattice_compare :: "mo_param \<Rightarrow> mo_param \<Rightarrow> int" where
  "lattice_compare x y =
    (if guarantees x = guarantees y then 0 else if guarantees y \<subset> guarantees x then 1
     else if guarantees x \<subset> guarantees y then - 1 else 2)"

lemma guarantees_code:
  "guarantees (Order a) = guarantees (Order b) \<longleftrightarrow> a = b"
  "guarantees (Order a) \<subset> guarantees (Order b) \<longleftrightarrow>
     (a, b) \<in> {(memory_order_relaxed, memory_order_acquire), (memory_order_relaxed, memory_order_release),
       (memory_order_relaxed, memory_order_acq_rel), (memory_order_relaxed, memory_order_seq_cst),
       (memory_order_acquire, memory_order_acq_rel), (memory_order_acquire, memory_order_seq_cst),
       (memory_order_release, memory_order_acq_rel), (memory_order_release, memory_order_seq_cst),
       (memory_order_acq_rel, memory_order_seq_cst)}"
  by (cases a; cases b; auto)+

lemma compareMemoryOrder_met: "compareMemoryOrder (Order a) (Order b) = lattice_compare (Order a) (Order b)"
  unfolding lattice_compare_def guarantees_code by (cases a; cases b) (simp_all add: compareMemoryOrder_def)

lemma compareMemoryOrder_lattice:
  assumes "met x \<or> x = WILDCARD_NONEXIST" "met y \<or> y = WILDCARD_NONEXIST"
  shows "compareMemoryOrder x y = lattice_compare x y"
proof -
  define n where "n z = (if z = WILDCARD_NONEXIST then relaxed else z)" for z
  obtain a b where ab: "n x = Order a" "n y = Order b" using assms by (auto simp: n_def met_def)
  have "compareMemoryOrder x y = compareMemoryOrder (n x) (n y)"
    by (simp add: compareMemoryOrder_def n_def)
  also have "\<dots> = lattice_compare (n x) (n y)" by (simp add: ab compareMemoryOrder_met)
  also have "\<dots> = lattice_compare x y"
  proof -
    have "guarantees (n z) = guarantees z" for z by (simp add: n_def)
    then show ?thesis by (simp add: lattice_compare_def)
  qed
  finally show ?thesis .
qed

lemma stronger_order_join:
  assumes "met cur \<or> cur = WILDCARD_NONEXIST" "met mo"
  shows "case stronger_order cur mo of
     None \<Rightarrow> met cur \<and> guarantees mo \<subseteq> guarantees cur
   | Some m \<Rightarrow> met m \<and> guarantees m = guarantees cur \<union> guarantees mo \<and> m \<noteq> cur"
proof -
  from assms(2) obtain b where b: "mo = Order b" by (auto simp: met_def)
  show ?thesis
  proof (cases cur)
    case (Order a)
    then show ?thesis unfolding b by (cases a; cases b) (auto simp: stronger_order_def)
  qed (use assms(1) b in \<open>auto simp: stronger_order_def\<close>)
qed

definition orders_ok :: "inference \<Rightarrow> bool" where
  "orders_ok i \<longleftrightarrow> orders i \<noteq> [] \<and> (\<forall>x\<in>set (orders i). met x \<or> x = WILDCARD_NONEXIST)"

subsection \<open>Strengthening\<close>

abbreviation order_of :: "inference \<Rightarrow> nat \<Rightarrow> mo_param" where
  "order_of i w \<equiv> vec_get WILDCARD_NONEXIST (orders i) w"

lemma order_of_ok: "orders_ok i \<Longrightarrow> met (order_of i w) \<or> order_of i w = WILDCARD_NONEXIST"
  by (auto simp: orders_ok_def vec_get_def)

lemma wildcard_id_Wildcard [simp]: "get_wildcard_id (Wildcard w) = int w" "get_wildcard_id_zero (Wildcard w) = w"
  by (auto simp: get_wildcard_id_zero_def get_wildcard_id_def)

lemma is_wildcard_Wildcard [simp]: "is_wildcard (Wildcard w)" "is_wildcard (Order m) = False"
  by (simp_all add: is_wildcard_def)

text \<open>Growing an inference up to a wildcard keeps its orders.\<close>

lemma grown_inference:
  assumes "orders_ok i" "w \<le> MAX_WILDCARD_NUM"
  obtains i1 where "(if w > inf_size i then resize_orders w i else Some i) = Some i1"
    and "orders_ok i1" "w < length (orders i1)" "\<And>v. order_of i1 v = order_of i v"
    and "i1 = i\<lparr>orders := orders i1\<rparr>"
proof (cases "w > inf_size i")
  case True
  let ?i1 = "i\<lparr>orders := vec_grow (w + 1) WILDCARD_NONEXIST (orders i)\<rparr>"
  from True assms have "resize_orders w i = Some ?i1" by (simp add: resize_orders_def)
  with True assms(1) show thesis
  proof (intro that [of ?i1])
    show "order_of ?i1 v = order_of i v" for v by (simp del: One_nat_def)
  qed (auto simp: orders_ok_def vec_grow_def)
next
  case False
  with assms(1) show thesis
    by (intro that [of i]) (auto simp: orders_ok_def inf_size_def not_less Suc_le_eq [symmetric] le_diff_conv2 neq_Nil_conv)
qed

text \<open>
  C23: \<open>strengthen\<close> computes the join in the lattice of memory orders: for every wildcard within the
  bound it returns, the order of the wildcard then guarantees what it and the requested order
  guaranteed, the other orders stay, and the result is 1 exactly when the order changed.
\<close>

theorem strengthen_joins:
  assumes "orders_ok i" "w \<le> MAX_WILDCARD_NUM" "met mo"
  shows "\<exists>r i'. strengthen (Wildcard w) mo i = Some (r, i') \<and> orders_ok i' \<and> met (order_of i' w) \<and>
    guarantees (order_of i' w) = guarantees (order_of i w) \<union> guarantees mo \<and>
    (\<forall>v. v \<noteq> w \<longrightarrow> order_of i' v = order_of i v) \<and>
    r = (if order_of i' w = order_of i w then 0 else 1)"
proof -
  from grown_inference [OF assms(1,2)] obtain i1 where
    grow: "(if w > inf_size i then resize_orders w i else Some i) = Some i1" and
    ok: "orders_ok i1" and w: "w < length (orders i1)" and same: "\<And>v. order_of i1 v = order_of i v"
    by metis
  have cur: "orders i1 ! w = order_of i w" using same [of w] w by (simp add: vec_get_def)
  have good: "is_normal_mo mo" "is_normal_mo_infer (orders i1 ! w)"
    using met_normal [OF assms(3)] order_of_ok [OF assms(1), of w]
    by (auto simp: cur is_normal_mo_infer_def dest: met_normal)
  have str: "strengthen (Wildcard w) mo i = (case stronger_order (order_of i w) mo of
      None \<Rightarrow> Some (0, i1) | Some m \<Rightarrow> Some (1, i1\<lparr>orders := (orders i1)[w := m]\<rparr>))"
    using good by (simp add: strengthen_def Let_def grow cur)
  note join = stronger_order_join [OF order_of_ok [OF assms(1), of w] assms(3)]
  show ?thesis
  proof (cases "stronger_order (order_of i w) mo")
    case None
    with str join same ok show ?thesis by (auto simp: Un_absorb2)
  next
    case (Some m)
    let ?i' = "i1\<lparr>orders := (orders i1)[w := m]\<rparr>"
    from Some join have m: "met m" "guarantees m = guarantees (order_of i w) \<union> guarantees mo" "m \<noteq> order_of i w"
      by auto
    have "order_of ?i' v = (if v = w then m else order_of i v)" for v
      using w same [of v] by (auto simp: vec_get_def)
    moreover have "orders_ok ?i'" using ok m(1)
      by (auto simp: orders_ok_def dest!: set_update_subset_insert [THEN subsetD])
    ultimately show ?thesis using str Some m by auto
  qed
qed

theorem strengthen_joins_witness:
  "\<exists>r i'. strengthen (Wildcard 7) acquire
      ((new_inference 0)\<lparr>orders := [WILDCARD_NONEXIST, seqcst, relaxed]\<rparr>) = Some (r, i') \<and>
    order_of i' 1 = seqcst \<and> guarantees (order_of i' 7) = {Acquires}"
proof -
  let ?i = "(new_inference 0)\<lparr>orders := [WILDCARD_NONEXIST, seqcst, relaxed]\<rparr>"
  have "orders_ok ?i" "7 \<le> MAX_WILDCARD_NUM" "met acquire"
    by (simp_all add: orders_ok_def MAX_WILDCARD_NUM_def)
  moreover have "order_of ?i 1 = seqcst" "guarantees (order_of ?i 7) = {}" by (simp_all add: vec_get_def)
  ultimately show ?thesis using strengthen_joins [of ?i 7 acquire] by fastforce
qed

subsection \<open>The order of inferences\<close>

lemma compare_entry_met:
  assumes "met x \<and> met y \<or> x = WILDCARD_NONEXIST \<and> y = WILDCARD_NONEXIST"
  shows "lattice_compare x y = 2 \<longleftrightarrow> x = acquire \<and> y = release \<or> x = release \<and> y = acquire"
    and "lattice_compare x y \<noteq> 2 \<Longrightarrow> compare_entry x y = lattice_compare x y"
proof -
  have "(lattice_compare (Order a) (Order b) = 2 \<longleftrightarrow>
      Order a = acquire \<and> Order b = release \<or> Order a = release \<and> Order b = acquire) \<and>
    (lattice_compare (Order a) (Order b) \<noteq> 2 \<longrightarrow> compare_entry (Order a) (Order b) = lattice_compare (Order a) (Order b))"
    for a b unfolding lattice_compare_def guarantees_code
    by (cases a; cases b) (simp_all add: compare_entry_def)
  moreover have "lattice_compare WILDCARD_NONEXIST WILDCARD_NONEXIST = 0"
    "compare_entry WILDCARD_NONEXIST WILDCARD_NONEXIST = 0"
    by (simp_all add: lattice_compare_def compare_entry_def)
  ultimately show "lattice_compare x y = 2 \<longleftrightarrow> x = acquire \<and> y = release \<or> x = release \<and> y = acquire"
    and "lattice_compare x y \<noteq> 2 \<Longrightarrow> compare_entry x y = lattice_compare x y"
    using assms unfolding met_def by (elim disjE conjE exE; simp)+
qed

definition pairs_ge :: "(mo_param \<times> mo_param) list \<Rightarrow> bool" where
  "pairs_ge ps \<longleftrightarrow> (\<forall>(x, y)\<in>set ps. guarantees y \<subseteq> guarantees x)"

definition pairs_le :: "(mo_param \<times> mo_param) list \<Rightarrow> bool" where
  "pairs_le ps \<longleftrightarrow> (\<forall>(x, y)\<in>set ps. guarantees x \<subseteq> guarantees y)"

lemma pairs_Cons [simp]:
  "pairs_ge ((x, y) # ps) \<longleftrightarrow> guarantees y \<subseteq> guarantees x \<and> pairs_ge ps"
  "pairs_le ((x, y) # ps) \<longleftrightarrow> guarantees x \<subseteq> guarantees y \<and> pairs_le ps"
  "pairs_ge []" "pairs_le []"
  by (auto simp: pairs_ge_def pairs_le_def)

definition order_verdict :: "bool \<Rightarrow> bool \<Rightarrow> int" where
  "order_verdict ge le = (if ge then (if le then 0 else 1) else if le then - 1 else - 2)"

lemma compare_loop_pairs:
  assumes "\<forall>(x, y)\<in>set ps. met x \<and> met y \<or> x = WILDCARD_NONEXIST \<and> y = WILDCARD_NONEXIST"
    and "r \<in> {0, 1, - 1}"
  shows "compare_loop r ps = order_verdict (r \<ge> 0 \<and> pairs_ge ps) (r \<le> 0 \<and> pairs_le ps)"
  using assms
proof (induction ps arbitrary: r)
  case Nil
  then show ?case by (auto simp: order_verdict_def)
next
  case (Cons p ps)
  obtain x y where p: "p = (x, y)" by (cases p)
  from Cons.prems(1) have e: "met x \<and> met y \<or> x = WILDCARD_NONEXIST \<and> y = WILDCARD_NONEXIST" by (simp add: p)
  have IH: "s \<in> {0, 1, - 1} \<Longrightarrow> compare_loop s ps = order_verdict (s \<ge> 0 \<and> pairs_ge ps) (s \<le> 0 \<and> pairs_le ps)" for s
    using Cons.IH Cons.prems(1) by simp
  show ?case
  proof (cases "lattice_compare x y = 2")
    case True
    with compare_entry_met(1) [OF e] show ?thesis
      by (auto simp: p order_verdict_def lattice_compare_def)
  next
    case False
    with compare_entry_met [OF e] have c: "compare_entry x y = lattice_compare x y"
      and n: "\<not> (x = acquire \<and> y = release \<or> x = release \<and> y = acquire)" by auto
    have unfold: "compare_loop r (p # ps) =
      (if compare_entry x y > 0 \<and> r < 0 \<or> compare_entry x y < 0 \<and> r > 0 then - 2
       else compare_loop (if compare_entry x y \<noteq> 0 then compare_entry x y else r) ps)"
      unfolding p compare_loop.simps Let_def if_not_P [OF n] ..
    consider "lattice_compare x y = 0" "guarantees x = guarantees y"
      | "lattice_compare x y = 1" "guarantees y \<subset> guarantees x"
      | "lattice_compare x y = - 1" "guarantees x \<subset> guarantees y"
      using False by (auto simp: lattice_compare_def split: if_splits)
    then show ?thesis
      using Cons.prems(2) unfolding unfold c by cases (auto simp: p IH order_verdict_def)
  qed
qed

text \<open>
  On inferences that have met the same wildcards, \<open>compareTo\<close> decides the product order of the
  lattice: 0 for equal guarantees, 1 when the first is stronger at every wildcard, -1 when it is
  weaker, and -2 when they are incomparable.
\<close>

theorem compareTo_product_order:
  assumes "length (orders i) = length (orders j)"
    and "orders_ok i" "orders_ok j" "\<And>w. met (order_of i w) = met (order_of j w)"
  shows "compareTo i j = order_verdict (\<forall>w. guarantees (order_of j w) \<subseteq> guarantees (order_of i w))
    (\<forall>w. guarantees (order_of i w) \<subseteq> guarantees (order_of j w))"
proof -
  define ps where "ps = zip (orders i) (orders j)"
  have pairs: "(x, y) \<in> set ps \<longleftrightarrow> (\<exists>w<length (orders i). x = order_of i w \<and> y = order_of j w)" for x y
    using assms(1) by (auto simp: ps_def in_set_zip vec_get_def)
  have beyond: "guarantees (order_of i w) = guarantees (order_of j w)" if "\<not> w < length (orders i)" for w
    using that assms(1) by (simp add: vec_get_def)
  have all: "(\<forall>(x, y)\<in>set ps. R x y) \<longleftrightarrow> (\<forall>w<length (orders i). R (order_of i w) (order_of j w))" for R
  proof -
    have "(\<forall>(x, y)\<in>set ps. R x y) \<longleftrightarrow> (\<forall>x y. (x, y) \<in> set ps \<longrightarrow> R x y)" by auto
    then show ?thesis unfolding pairs by blast
  qed
  have "\<forall>(x, y)\<in>set ps. met x \<and> met y \<or> x = WILDCARD_NONEXIST \<and> y = WILDCARD_NONEXIST"
  proof (clarify)
    fix x y assume "(x, y) \<in> set ps" and n: "\<not> (x = WILDCARD_NONEXIST \<and> y = WILDCARD_NONEXIST)"
    then obtain w where "x = order_of i w" "y = order_of j w" by (auto simp: pairs)
    with n order_of_ok [OF assms(2), of w] order_of_ok [OF assms(3), of w] assms(4) [of w]
    show "met x \<and> met y" by metis
  qed
  then have "compareTo i j = order_verdict (pairs_ge ps) (pairs_le ps)"
    using assms(1) by (simp add: compareTo_def inf_size_def ps_def [symmetric] compare_loop_pairs)
  moreover have "pairs_ge ps \<longleftrightarrow> (\<forall>w. guarantees (order_of j w) \<subseteq> guarantees (order_of i w))"
    unfolding pairs_ge_def all using beyond by blast
  moreover have "pairs_le ps \<longleftrightarrow> (\<forall>w. guarantees (order_of i w) \<subseteq> guarantees (order_of j w))"
    unfolding pairs_le_def all using beyond by blast
  ultimately show ?thesis by simp
qed

theorem compareTo_product_order_witness:
  "compareTo ((new_inference 0)\<lparr>orders := [WILDCARD_NONEXIST, acqrel, relaxed]\<rparr>)
     ((new_inference 1)\<lparr>orders := [WILDCARD_NONEXIST, acquire, relaxed]\<rparr>) = order_verdict True False"
proof -
  let ?i = "(new_inference 0)\<lparr>orders := [WILDCARD_NONEXIST, acqrel, relaxed]\<rparr>"
  let ?j = "(new_inference 1)\<lparr>orders := [WILDCARD_NONEXIST, acquire, relaxed]\<rparr>"
  have i: "order_of ?i w = (if w = 1 then acqrel else if w = 2 then relaxed else WILDCARD_NONEXIST)" for w
    by (auto simp: vec_get_def less_Suc_eq nth_Cons split: nat.splits)
  have j: "order_of ?j w = (if w = 1 then acquire else if w = 2 then relaxed else WILDCARD_NONEXIST)" for w
    by (auto simp: vec_get_def less_Suc_eq nth_Cons split: nat.splits)
  have met: "met (order_of ?i w) = met (order_of ?j w)" for w unfolding i j by simp
  have "compareTo ?i ?j = order_verdict (\<forall>w. guarantees (order_of ?j w) \<subseteq> guarantees (order_of ?i w))
    (\<forall>w. guarantees (order_of ?i w) \<subseteq> guarantees (order_of ?j w))"
    by (rule compareTo_product_order [OF _ _ _ met]) (simp_all add: orders_ok_def)
  moreover have "(\<forall>w. guarantees (order_of ?j w) \<subseteq> guarantees (order_of ?i w)) = True"
    "(\<forall>w. guarantees (order_of ?i w) \<subseteq> guarantees (order_of ?j w)) = False"
    unfolding i j by (auto intro: exI [of _ 1])
  ultimately show ?thesis by (simp only:)
qed

text \<open>
  An unmet wildcard behaves as relaxed in the program, but the two are each stronger than the other
  for \<open>compareTo\<close>.
\<close>

lemma compareTo_unmet_not_antisymmetric:
  "compareTo (i\<lparr>orders := [WILDCARD_NONEXIST, relaxed]\<rparr>) (j\<lparr>orders := [WILDCARD_NONEXIST, WILDCARD_NONEXIST]\<rparr>) = 1 \<and>
   compareTo (j\<lparr>orders := [WILDCARD_NONEXIST, WILDCARD_NONEXIST]\<rparr>) (i\<lparr>orders := [WILDCARD_NONEXIST, relaxed]\<rparr>) = 1"
  by (simp add: compareTo_def inf_size_def compare_entry_def)

end
