(* ===== verification/Inference_Set.thy ===== *)
theory Inference_Set
  imports Inference
begin

text \<open>
  Patches, lists of inferences and the set of inferences to explore (\<open>scfence/patch.cc\<close>,
  \<open>scfence/inferlist.cc\<close>, \<open>scfence/inferset.cc\<close>).

  The lists that the patches produce hold inferences nobody else points to; they are lists of values
  here. The set shares its inferences between the discovered ones, the candidates and the results,
  so it holds pointers into a store. The wildcard an action was written with is a function
  \<open>orig\<close> of the action. Printing and the release of memory are left out.
\<close>

subsection \<open>Patches\<close>

type_synonym patch = "(act_ptr \<times> mo_param) list"

definition isApplicable :: "(act_ptr \<Rightarrow> mo_param) \<Rightarrow> patch \<Rightarrow> bool" where
  "isApplicable orig p \<longleftrightarrow> list_all (\<lambda>(a, mo). is_wildcard (orig a) \<or>
     \<not> (compareMemoryOrder (orig a) mo = 2 \<or> compareMemoryOrder (orig a) mo = - 1)) p"

text \<open>The units of a patch until one cannot be imposed; the result says whether an order changed.\<close>

fun apply_units :: "(act_ptr \<Rightarrow> mo_param) \<Rightarrow> patch \<Rightarrow> bool \<Rightarrow> inference \<Rightarrow> (bool \<times> inference) option" where
  "apply_units orig [] updateState i = Some (updateState, i)"
| "apply_units orig ((a, mo) # units) updateState i = do {
     (r, i) \<leftarrow> strengthen (orig a) mo i;
     if r = - 1 then Some (updateState, i)
     else apply_units orig units (updateState \<or> r = 1) i
   }"

definition apply_patch_to :: "(act_ptr \<Rightarrow> mo_param) \<Rightarrow> inference \<Rightarrow> patch \<Rightarrow> inference list \<Rightarrow> inference list option" where
  "apply_patch_to orig old p newList = do {
     i \<leftarrow> copy_inference old;
     (updated, i) \<leftarrow> apply_units orig p False i;
     Some (if updated then newList @ [i] else newList)
   }"

subsection \<open>Lists of inferences\<close>

text \<open>Every patch is tried on every inference of the list, or on the current one when the list is empty.\<close>

definition applyPatch :: "(act_ptr \<Rightarrow> mo_param) \<Rightarrow> inference \<Rightarrow> patch list \<Rightarrow> inference list \<Rightarrow> inference list option" where
  "applyPatch orig curInfer patches list =
     (if list = [] then for_each (apply_patch_to orig curInfer) patches []
      else for_each (\<lambda>old. for_each (apply_patch_to orig old) patches) list [])"

definition drop_stronger :: "inference \<Rightarrow> inference list \<Rightarrow> inference list" where
  "drop_stronger cand list = filter (\<lambda>i. \<not> (compareTo i cand = 0 \<or> compareTo i cand = 1)) list"

fun prune_loop :: "inference \<Rightarrow> inference list \<Rightarrow> inference list \<Rightarrow> inference list" where
  "prune_loop curInfer newCandidates [] = newCandidates"
| "prune_loop curInfer newCandidates (cand # cands) =
     (if compareTo cand curInfer = 0 then prune_loop curInfer newCandidates cands
      else prune_loop curInfer (drop_stronger cand newCandidates @ [cand]) cands)"

definition pruneCandidates :: "inference \<Rightarrow> inference list \<Rightarrow> inference list" where
  "pruneCandidates curInfer list = prune_loop curInfer [] list"

subsection \<open>The set of inferences\<close>

record inference_set =
  infers :: "infer_ptr \<Rightarrow> inference"
  next_infer :: infer_ptr
  discoveredSet :: "infer_ptr list"
  results :: "infer_ptr list"
  candidates :: "infer_ptr list"
  notAddedAtFirstPlace :: nat

definition upd_infer :: "infer_ptr \<Rightarrow> (inference \<Rightarrow> inference) \<Rightarrow> inference_set \<Rightarrow> inference_set" where
  "upd_infer p f st = st\<lparr>infers := (infers st)(p := f (infers st p))\<rparr>"

definition addResult :: "infer_ptr \<Rightarrow> inference_set \<Rightarrow> inference_set" where
  "addResult p st = st\<lparr>results := filter (\<lambda>q.
     \<not> (compareTo (infers st q) (infers st p) = 0 \<or> compareTo (infers st q) (infers st p) = 1)) (results st) @ [p]\<rparr>"

definition commitInference :: "infer_ptr \<Rightarrow> bool \<Rightarrow> inference_set \<Rightarrow> inference_set" where
  "commitInference p feasible st =
     (let st = upd_infer p (\<lambda>i. i\<lparr>explored := True\<rparr>) st
      in if feasible then addResult p st else st)"

definition hasBeenDiscovered :: "inference_set \<Rightarrow> inference \<Rightarrow> bool" where
  "hasBeenDiscovered st i \<longleftrightarrow> (\<exists>q\<in>set (discoveredSet st).
     compareTo (infers st q) i = 0 \<or>
     compareTo (infers st q) i = - 1 \<and> leaf (infers st q) \<and> explored (infers st q))"

definition hasBeenExplored :: "inference_set \<Rightarrow> inference \<Rightarrow> bool" where
  "hasBeenExplored st i \<longleftrightarrow> (\<exists>q\<in>set (discoveredSet st). explored (infers st q) \<and>
     (compareTo (infers st q) i = 0 \<or> compareTo (infers st q) i = - 1))"

definition addInference :: "inference \<Rightarrow> inference_set \<Rightarrow> bool \<times> inference_set" where
  "addInference i st =
     (if \<not> hasBeenDiscovered st i
      then (True, st\<lparr>infers := (infers st)(next_infer st := i\<lparr>leaf := True\<rparr>), next_infer := next_infer st + 1,
              candidates := candidates st @ [next_infer st], discoveredSet := discoveredSet st @ [next_infer st]\<rparr>)
      else (False, st\<lparr>notAddedAtFirstPlace := notAddedAtFirstPlace st + 1\<rparr>))"

definition addCurInference :: "infer_ptr \<Rightarrow> inference_set \<Rightarrow> inference_set" where
  "addCurInference p st = (let st = upd_infer p (\<lambda>i. i\<lparr>leaf := False\<rparr>) st in st\<lparr>candidates := candidates st @ [p]\<rparr>)"

fun add_candidate :: "infer_ptr \<Rightarrow> inference \<Rightarrow> bool \<times> inference_set \<Rightarrow> bool \<times> inference_set" where
  "add_candidate initial cand (added, st) =
     (let (tmpAdded, st) = addInference (cand\<lparr>initialInfer := initial\<rparr>) st in (added \<or> tmpAdded, st))"

definition addCandidates :: "infer_ptr \<Rightarrow> inference list \<Rightarrow> inference_set \<Rightarrow> bool \<times> inference_set" where
  "addCandidates cur inferList st =
     fold (add_candidate (initialInfer (infers st cur))) (pruneCandidates (infers st cur) inferList)
       (False, addCurInference cur st)"

text \<open>The candidates are popped from the back; the argument is the reversed list.\<close>

fun next_loop :: "infer_ptr list \<Rightarrow> inference_set \<Rightarrow> infer_ptr option \<times> inference_set" where
  "next_loop [] st = (None, st\<lparr>candidates := []\<rparr>)"
| "next_loop (p # stack) st =
     (if \<not> leaf (infers st p) then next_loop stack (commitInference p False st)
      else if shouldFix (infers st p) \<and> hasBeenExplored st (infers st p) then next_loop stack st
      else (Some p, st\<lparr>candidates := rev stack\<rparr>))"

definition getNextInference :: "inference_set \<Rightarrow> infer_ptr option \<times> inference_set" where
  "getNextInference st = next_loop (rev (candidates st)) st"

subsection \<open>Weakening a result\<close>

text \<open>
  The wildcards whose order is stronger than in the initial inference. Reading an order of the
  initial inference may grow it. Any other outcome of the comparison fails an assertion.
\<close>

definition find_strengthened ::
  "infer_ptr \<Rightarrow> nat \<Rightarrow> nat list \<times> inference_set \<Rightarrow> (nat list \<times> inference_set) option" where
  "find_strengthened cur w ws_st = (
     let (ws, st) = ws_st; initial = initialInfer (infers st cur)
     in do {
       (mo1, i) \<leftarrow> order_at w (infers st cur);
       let st = upd_infer cur (\<lambda>_. i) st;
       (mo2, i) \<leftarrow> order_at w (infers st initial);
       let st = upd_infer initial (\<lambda>_. i) st;
       ASSERT (compareMemoryOrder mo1 mo2 = 0 \<or> compareMemoryOrder mo1 mo2 = 1);
       Some (if compareMemoryOrder mo1 mo2 = 0 then ws else ws @ [w], st)
     })"

text \<open>The orders tried for a wildcard; the last is the present one when no weaker one is left.\<close>

definition weaker_orders :: "mo_param \<Rightarrow> mo_param \<Rightarrow> mo_param list" where
  "weaker_orders mo1 mo2 =
     (if mo1 = acqrel
      then (if mo2 = acquire then [acquire] else if mo2 = release then [release] else [acquire, release])
      else if mo2 \<noteq> nextWeakOrder mo1 mo2 then [nextWeakOrder mo1 mo2] else [mo1])"

definition add_weaker :: "infer_ptr \<Rightarrow> nat \<Rightarrow> mo_param \<Rightarrow> inference_set \<Rightarrow> inference_set option" where
  "add_weaker cur w mo st = do {
     weaker \<leftarrow> copy_inference (infers st cur);
     weaker \<leftarrow> set_order_at w mo weaker;
     let weaker = weaker\<lparr>shouldFix := False, leaf := True\<rparr>;
     Some (if \<exists>q\<in>set (discoveredSet st). compareTo (infers st q) weaker = 0 \<and> \<not> leaf (infers st q)
           then st else snd (addInference weaker st))
   }"

definition weaken_wildcard :: "infer_ptr \<Rightarrow> nat \<Rightarrow> inference_set \<Rightarrow> inference_set option" where
  "weaken_wildcard cur w st = do {
     (mo1, i1) \<leftarrow> order_at w (infers st cur);
     (mo2, i2) \<leftarrow> order_at w (infers st (initialInfer (infers st cur)));
     for_each (add_weaker cur w) (weaker_orders mo1 mo2) st
   }"

definition addWeakerInference :: "infer_ptr \<Rightarrow> inference_set \<Rightarrow> inference_set option" where
  "addWeakerInference cur st = do {
     (ws, st) \<leftarrow> for_each (find_strengthened cur) [1..<inf_size (infers st cur) + 1] ([], st);
     for_each (weaken_wildcard cur) ws st
   }"

end
