(* ===== verification/Inference_Search.thy ===== *)
theory Inference_Search
  imports Inference_Set
begin

text \<open>
  The guarantees of the set of inferences: its invariant under every operation, the order in which it
  hands out candidates, and the effect of patches.
\<close>

subsection \<open>Pruning\<close>

text \<open>\<open>covers i j\<close>: the comparison finds \<open>i\<close> equal to \<open>j\<close> or stronger.\<close>

definition covers :: "inference \<Rightarrow> inference \<Rightarrow> bool" where
  "covers i j \<longleftrightarrow> compareTo i j = 0 \<or> compareTo i j = 1"

lemma compareTo_orders: "orders i = orders i' \<Longrightarrow> orders j = orders j' \<Longrightarrow> compareTo i j = compareTo i' j'"
  by (simp only: compareTo_def inf_size_def)

lemma covers_orders: "orders i = orders i' \<Longrightarrow> orders j = orders j' \<Longrightarrow> covers i j = covers i' j'"
  unfolding covers_def using compareTo_orders [of i i' j j'] by simp

lemma prune_loop_minimal:
  "sorted_wrt (\<lambda>i j. \<not> covers i j) acc \<Longrightarrow> \<forall>i\<in>set acc. compareTo i cur \<noteq> 0 \<Longrightarrow>
   sorted_wrt (\<lambda>i j. \<not> covers i j) (prune_loop cur acc cands) \<and>
   (\<forall>i\<in>set (prune_loop cur acc cands). (i \<in> set acc \<or> i \<in> set cands) \<and> compareTo i cur \<noteq> 0)"
proof (induction cands arbitrary: acc)
  case (Cons c cands)
  show ?case
  proof (cases "compareTo c cur = 0")
    case True
    with Cons.IH [OF Cons.prems] show ?thesis by auto
  next
    case False
    have "sorted_wrt (\<lambda>i j. \<not> covers i j) (drop_stronger c acc @ [c])"
      using Cons.prems(1) by (auto simp: sorted_wrt_append drop_stronger_def covers_def sorted_wrt_filter)
    moreover have "\<forall>i\<in>set (drop_stronger c acc @ [c]). compareTo i cur \<noteq> 0"
      using Cons.prems(2) False by (auto simp: drop_stronger_def)
    ultimately have "sorted_wrt (\<lambda>i j. \<not> covers i j) (prune_loop cur (drop_stronger c acc @ [c]) cands) \<and>
      (\<forall>i\<in>set (prune_loop cur (drop_stronger c acc @ [c]) cands).
        (i \<in> set (drop_stronger c acc @ [c]) \<or> i \<in> set cands) \<and> compareTo i cur \<noteq> 0)"
      by (rule Cons.IH)
    with False show ?thesis by (auto simp: drop_stronger_def)
  qed
qed simp

lemma pruneCandidates_minimal:
  "sorted_wrt (\<lambda>i j. \<not> covers i j) (pruneCandidates cur l)"
  "i \<in> set (pruneCandidates cur l) \<Longrightarrow> i \<in> set l \<and> compareTo i cur \<noteq> 0"
  using prune_loop_minimal [of "[]" cur l] by (auto simp: pruneCandidates_def)

subsection \<open>The invariant of the set\<close>

definition inference_set_ok :: "inference_set \<Rightarrow> bool" where
  "inference_set_ok st \<longleftrightarrow>
     (\<forall>p\<in>set (discoveredSet st) \<union> set (results st) \<union> set (candidates st). p < next_infer st) \<and>
     sorted_wrt (\<lambda>p q. compareTo (infers st p) (infers st q) \<noteq> 0) (discoveredSet st) \<and>
     sorted_wrt (\<lambda>p q. \<not> covers (infers st p) (infers st q)) (results st)"

text \<open>Changing flags of an inference keeps what the comparison sees.\<close>

lemma upd_infer_ok:
  assumes "\<And>i. orders (f i) = orders i" "inference_set_ok st"
  shows "inference_set_ok (upd_infer p f st)"
proof -
  have "orders (infers (upd_infer p f st) q) = orders (infers st q)" for q
    using assms(1) by (simp add: upd_infer_def)
  then have "compareTo (infers (upd_infer p f st) q) (infers (upd_infer p f st) r) = compareTo (infers st q) (infers st r)"
    "covers (infers (upd_infer p f st) q) (infers (upd_infer p f st) r) = covers (infers st q) (infers st r)" for q r
    by (rule compareTo_orders covers_orders; simp)+
  with assms(2) show ?thesis by (simp add: inference_set_ok_def) (simp add: upd_infer_def)
qed

lemma addResult_ok: "inference_set_ok st \<Longrightarrow> p < next_infer st \<Longrightarrow> inference_set_ok (addResult p st)"
  by (auto simp: inference_set_ok_def addResult_def sorted_wrt_append covers_def sorted_wrt_filter)

lemma commitInference_ok:
  assumes "inference_set_ok st" "p < next_infer st"
  shows "inference_set_ok (commitInference p b st)"
proof -
  have "inference_set_ok (upd_infer p (\<lambda>i. i\<lparr>explored := True\<rparr>) st)"
    using assms(1) by (intro upd_infer_ok) simp_all
  then show ?thesis using assms(2) by (auto simp: commitInference_def Let_def upd_infer_def intro: addResult_ok)
qed

lemma addCurInference_ok:
  assumes "inference_set_ok st" "p < next_infer st"
  shows "inference_set_ok (addCurInference p st)"
proof -
  have "inference_set_ok (upd_infer p (\<lambda>i. i\<lparr>leaf := False\<rparr>) st)"
    using assms(1) by (intro upd_infer_ok) simp_all
  then show ?thesis using assms(2)
    by (auto simp: addCurInference_def Let_def inference_set_ok_def) (auto simp: upd_infer_def)
qed

text \<open>The invariant for the pairs of inferences outside of a set.\<close>

definition ok_except :: "infer_ptr set \<Rightarrow> inference_set \<Rightarrow> bool" where
  "ok_except X st \<longleftrightarrow>
     (\<forall>p\<in>set (discoveredSet st) \<union> set (results st) \<union> set (candidates st). p < next_infer st) \<and>
     sorted_wrt (\<lambda>p q. p \<in> X \<or> q \<in> X \<or> compareTo (infers st p) (infers st q) \<noteq> 0) (discoveredSet st) \<and>
     sorted_wrt (\<lambda>p q. p \<in> X \<or> q \<in> X \<or> \<not> covers (infers st p) (infers st q)) (results st)"

lemma ok_except_none: "inference_set_ok st \<longleftrightarrow> ok_except {} st"
  by (simp add: inference_set_ok_def ok_except_def)

lemma ok_except_mono: "ok_except X st \<Longrightarrow> X \<subseteq> Y \<Longrightarrow> ok_except Y st"
  unfolding ok_except_def by (auto elim!: sorted_wrt_mono_rel [rotated])

lemma ok_except_upd:
  assumes "ok_except X st" "p \<in> X"
  shows "ok_except X (upd_infer p f st)"
proof -
  have "q \<notin> X \<Longrightarrow> infers (upd_infer p f st) q = infers st q" for q
    using assms(2) by (auto simp: upd_infer_def)
  moreover have "next_infer (upd_infer p f st) = next_infer st" "discoveredSet (upd_infer p f st) = discoveredSet st"
    "results (upd_infer p f st) = results st" "candidates (upd_infer p f st) = candidates st"
    by (simp_all add: upd_infer_def)
  ultimately show ?thesis
    using assms(1) unfolding ok_except_def by (auto elim!: sorted_wrt_mono_rel [rotated])
qed

lemma addInference_except:
  assumes ok: "ok_except X st"
  shows "ok_except X (snd (addInference i st))"
proof (cases "hasBeenDiscovered st i")
  case True
  with ok show ?thesis by (simp add: addInference_def ok_except_def)
next
  case False
  let ?n = "next_infer st" let ?st = "snd (addInference i st)"
  have st: "infers ?st = (infers st)(?n := i\<lparr>leaf := True\<rparr>)" "next_infer ?st = ?n + 1"
    "discoveredSet ?st = discoveredSet st @ [?n]" "results ?st = results st" "candidates ?st = candidates st @ [?n]"
    using False by (simp_all add: addInference_def)
  have old: "q < ?n \<Longrightarrow> infers ?st q = infers st q" for q by (simp add: st)
  have lt: "q \<in> set (discoveredSet st) \<Longrightarrow> q < ?n" "q \<in> set (results st) \<Longrightarrow> q < ?n"
    "q \<in> set (candidates st) \<Longrightarrow> q < ?n" for q
    using ok by (auto simp: ok_except_def)
  have "compareTo (infers st q) (i\<lparr>leaf := True\<rparr>) \<noteq> 0" if "q \<in> set (discoveredSet st)" for q
    using False that compareTo_orders [of "infers st q" "infers st q" "i\<lparr>leaf := True\<rparr>" i]
    by (auto simp: hasBeenDiscovered_def)
  moreover have "sorted_wrt (\<lambda>p q. p \<in> X \<or> q \<in> X \<or> compareTo (infers ?st p) (infers ?st q) \<noteq> 0) (discoveredSet st)"
    using ok lt(1) old by (auto simp: ok_except_def elim!: sorted_wrt_mono_rel [rotated])
  moreover have "sorted_wrt (\<lambda>p q. p \<in> X \<or> q \<in> X \<or> \<not> covers (infers ?st p) (infers ?st q)) (results st)"
    using ok lt(2) old by (auto simp: ok_except_def elim!: sorted_wrt_mono_rel [rotated])
  ultimately show ?thesis
    unfolding ok_except_def st(2-5) using lt old st(1)
    by (auto simp: sorted_wrt_append less_Suc_eq)
qed

lemma addInference_ok: "inference_set_ok st \<Longrightarrow> inference_set_ok (snd (addInference i st))"
  unfolding ok_except_none by (rule addInference_except)

lemma addInference_next: "next_infer st \<le> next_infer (snd (addInference i st))"
  by (simp add: addInference_def)

lemma addCandidates_ok:
  assumes "inference_set_ok st" "cur < next_infer st"
  shows "inference_set_ok (snd (addCandidates cur l st))"
proof -
  have "inference_set_ok (snd x) \<Longrightarrow> inference_set_ok (snd (fold (add_candidate init) cs x))" for init cs x
  proof (induction cs arbitrary: x)
    case (Cons c cs)
    show ?case using Cons.prems addInference_ok by (cases x) (auto simp: split_def Let_def intro!: Cons.IH)
  qed simp
  then show ?thesis using addCurInference_ok [OF assms] by (simp add: addCandidates_def)
qed

lemma next_loop_ok:
  "inference_set_ok st \<Longrightarrow> \<forall>p\<in>set stack. p < next_infer st \<Longrightarrow> inference_set_ok (snd (next_loop stack st))"
proof (induction stack st rule: next_loop.induct)
  case (1 st)
  then show ?case by (auto simp: inference_set_ok_def)
next
  case (2 p stack st)
  have same_next: "next_infer (commitInference p False st) = next_infer st"
    by (simp add: commitInference_def upd_infer_def)
  show ?case
    using 2 commitInference_ok [of st p False] by (auto simp: same_next) (auto simp: inference_set_ok_def)
qed


lemma upd_infer_same: "upd_infer p (\<lambda>_. infers st p) st = st"
  by (simp add: upd_infer_def)

lemma order_at_within: "w > 0 \<Longrightarrow> w \<le> inf_size i \<Longrightarrow> order_at w i = Some (orders i ! w, i)"
  by (simp add: order_at_def)

lemma find_strengthened_same:
  assumes "find_strengthened cur w (ws, st) = Some (ws', st')" "w > 0" "w \<le> inf_size (infers st cur)"
    "w \<le> inf_size (infers st (initialInfer (infers st cur)))"
  shows "st' = st"
  using assms by (simp add: find_strengthened_def order_at_within upd_infer_same Let_def)

lemma find_all_same:
  assumes "for_each (find_strengthened cur) xs (ws, st) = Some (ws', st')" "\<forall>w\<in>set xs. w > 0 \<and>
    w \<le> inf_size (infers st cur) \<and> w \<le> inf_size (infers st (initialInfer (infers st cur)))"
  shows "st' = st"
  using assms
proof (induction xs arbitrary: ws)
  case (Cons w xs)
  from Cons.prems(1) obtain ws1 st1 where 1: "find_strengthened cur w (ws, st) = Some (ws1, st1)"
    and 2: "for_each (find_strengthened cur) xs (ws1, st1) = Some (ws', st')"
    by (auto simp: bind_eq_Some_conv)
  from find_strengthened_same [OF 1] Cons.prems(2) have "st1 = st" by simp
  with Cons.IH 2 Cons.prems(2) show ?case by simp
qed simp

text \<open>Otherwise reading an order of the initial inference grows it, and it alone.\<close>

lemma order_at_size: "order_at w i = Some (mo, i') \<Longrightarrow> inf_size i \<le> inf_size i' \<and> initialInfer i' = initialInfer i"
  by (auto simp: order_at_def resize_orders_def inf_size_def vec_grow_def bind_eq_Some_conv split: if_splits)

lemma find_strengthened_except:
  assumes "find_strengthened cur w (ws, st) = Some (ws', st')" "w > 0" "w \<le> inf_size (infers st cur)"
    and ok: "ok_except {initialInfer (infers st cur)} st"
  shows "ok_except {initialInfer (infers st cur)} st' \<and> inf_size (infers st cur) \<le> inf_size (infers st' cur) \<and>
    initialInfer (infers st' cur) = initialInfer (infers st cur)"
proof -
  let ?i = "initialInfer (infers st cur)"
  from assms(1-3) obtain mo2 i2 where i2: "order_at w (infers st ?i) = Some (mo2, i2)"
    and st': "st' = upd_infer ?i (\<lambda>_. i2) st"
    by (auto simp: find_strengthened_def order_at_within upd_infer_same Let_def bind_eq_Some_conv split: if_splits)
  have "ok_except {?i} st'" unfolding st' by (rule ok_except_upd [OF ok]) simp
  with order_at_size [OF i2] show ?thesis by (auto simp: st' upd_infer_def)
qed

lemma find_all_except:
  assumes "for_each (find_strengthened cur) xs (ws, st) = Some (ws', st')"
    "\<forall>w\<in>set xs. w > 0 \<and> w \<le> inf_size (infers st cur)" "ok_except {initialInfer (infers st cur)} st"
  shows "ok_except {initialInfer (infers st cur)} st'"
  using assms
proof (induction xs arbitrary: ws st)
  case (Cons w xs)
  from Cons.prems(1) obtain ws1 st1 where 1: "find_strengthened cur w (ws, st) = Some (ws1, st1)"
    and 2: "for_each (find_strengthened cur) xs (ws1, st1) = Some (ws', st')"
    by (auto simp: bind_eq_Some_conv)
  from find_strengthened_except [OF 1] Cons.prems(2,3)
  have a: "ok_except {initialInfer (infers st cur)} st1" "inf_size (infers st cur) \<le> inf_size (infers st1 cur)"
    "initialInfer (infers st1 cur) = initialInfer (infers st cur)" by simp_all
  have "\<forall>w\<in>set xs. w > 0 \<and> w \<le> inf_size (infers st1 cur)" using Cons.prems(2) a(2) le_trans by auto
  with Cons.IH [OF 2] a(1,3) show ?case by simp
qed simp

lemma add_weaker_except: "add_weaker cur w mo st = Some st' \<Longrightarrow> ok_except X st \<Longrightarrow> ok_except X st'"
  by (auto simp: add_weaker_def Let_def bind_eq_Some_conv split: if_splits intro: addInference_except)

lemma weaken_wildcard_except:
  assumes "weaken_wildcard cur w st = Some st'" "ok_except X st"
  shows "ok_except X st'"
proof -
  from assms(1) obtain mos where "for_each (add_weaker cur w) mos st = Some st'"
    by (auto simp: weaken_wildcard_def bind_eq_Some_conv)
  then show ?thesis by (rule for_each_inv) (use assms(2) add_weaker_except in auto)
qed

lemma addWeakerInference_except:
  assumes "addWeakerInference cur st = Some st'" "inference_set_ok st"
  defines "initial \<equiv> initialInfer (infers st cur)"
  shows "ok_except {initial} st' \<and> (inf_size (infers st cur) \<le> inf_size (infers st initial) \<longrightarrow> inference_set_ok st')"
proof -
  from assms(1) obtain ws st1 where
    1: "for_each (find_strengthened cur) [1..<inf_size (infers st cur) + 1] ([], st) = Some (ws, st1)"
    and 2: "for_each (weaken_wildcard cur) ws st1 = Some st'"
    by (auto simp: addWeakerInference_def bind_eq_Some_conv simp del: upt_Suc)
  have range: "w > 0 \<and> w \<le> n" if "w \<in> set [1..<n + 1]" for w n :: nat using that by auto
  have "ok_except {initial} st" using assms(2) unfolding ok_except_none by (rule ok_except_mono) simp
  from find_all_except [OF 1 _ this [unfolded initial_def]] range
  have "ok_except {initial} st1" unfolding initial_def by blast
  with 2 have x: "ok_except {initial} st'" by (rule for_each_inv) (rule weaken_wildcard_except)
  have "inference_set_ok st'" if le: "inf_size (infers st cur) \<le> inf_size (infers st initial)"
  proof -
    have "st1 = st"
    proof (rule find_all_same [OF 1], intro ballI)
      fix w assume "w \<in> set [1..<inf_size (infers st cur) + 1]"
      from range [OF this] show "w > 0 \<and> w \<le> inf_size (infers st cur) \<and>
          w \<le> inf_size (infers st (initialInfer (infers st cur)))"
        using le le_trans unfolding initial_def by blast
    qed
    with assms(2) have "ok_except {} st1" by (simp add: ok_except_none)
    with 2 show ?thesis unfolding ok_except_none by (rule for_each_inv) (rule weaken_wildcard_except)
  qed
  with x show ?thesis by blast
qed

lemma getNextInference_ok: "inference_set_ok st \<Longrightarrow> inference_set_ok (snd (getNextInference st))"
  unfolding getNextInference_def by (rule next_loop_ok) (auto simp: inference_set_ok_def)

subsection \<open>The next inference\<close>

text \<open>An inference that needs no exploration of its own in a state.\<close>

definition settled :: "inference_set \<Rightarrow> infer_ptr \<Rightarrow> bool" where
  "settled st p \<longleftrightarrow> (if leaf (infers st p) then shouldFix (infers st p) \<and> hasBeenExplored st (infers st p)
     else explored (infers st p))"

definition same_but_explored :: "inference_set \<Rightarrow> inference_set \<Rightarrow> bool" where
  "same_but_explored st st' \<longleftrightarrow> discoveredSet st' = discoveredSet st \<and> results st' = results st \<and>
     next_infer st' = next_infer st \<and>
     (\<forall>p. infers st' p = (infers st p)\<lparr>explored := explored (infers st' p)\<rparr> \<and>
          (explored (infers st p) \<longrightarrow> explored (infers st' p)))"

lemma same_but_explored_refl: "same_but_explored st (st\<lparr>candidates := c\<rparr>)"
  by (simp add: same_but_explored_def)

lemma same_but_explored_fields:
  assumes "same_but_explored st st'"
  shows "leaf (infers st' p) = leaf (infers st p)" "shouldFix (infers st' p) = shouldFix (infers st p)"
    "orders (infers st' p) = orders (infers st p)"
proof -
  have e: "infers st' p = (infers st p)\<lparr>explored := explored (infers st' p)\<rparr>"
    using assms by (simp add: same_but_explored_def)
  show "leaf (infers st' p) = leaf (infers st p)" using arg_cong [OF e, of leaf] by simp
  show "shouldFix (infers st' p) = shouldFix (infers st p)" using arg_cong [OF e, of shouldFix] by simp
  show "orders (infers st' p) = orders (infers st p)" using arg_cong [OF e, of orders] by simp
qed

lemma same_but_explored_trans:
  assumes "same_but_explored a b" "same_but_explored b c"
  shows "same_but_explored a c"
proof -
  have "infers c p = (infers a p)\<lparr>explored := explored (infers c p)\<rparr>" for p
  proof -
    have "infers c p = (infers b p)\<lparr>explored := explored (infers c p)\<rparr>"
      "infers b p = (infers a p)\<lparr>explored := explored (infers b p)\<rparr>"
      using assms by (auto simp: same_but_explored_def)
    then show ?thesis by (cases "infers a p"; cases "infers b p"; cases "infers c p") simp
  qed
  with assms show ?thesis by (auto simp: same_but_explored_def)
qed

lemma settled_mono: "same_but_explored st st' \<Longrightarrow> settled st p \<Longrightarrow> settled st' p"
proof -
  assume s: "same_but_explored st st'" and p: "settled st p"
  have d: "discoveredSet st' = discoveredSet st" and e: "\<And>q. explored (infers st q) \<Longrightarrow> explored (infers st' q)"
    using s by (auto simp: same_but_explored_def)
  have c: "compareTo (infers st' q) (infers st' p) = compareTo (infers st q) (infers st p)" for q
    by (rule compareTo_orders; rule same_but_explored_fields(3) [OF s])
  have "hasBeenExplored st (infers st p) \<Longrightarrow> hasBeenExplored st' (infers st' p)"
    unfolding hasBeenExplored_def d c using e by blast
  with p s show "settled st' p"
    by (auto simp: settled_def same_but_explored_fields [OF s] same_but_explored_def split: if_splits)
qed

lemma commit_same_but_explored: "same_but_explored st (commitInference p False st)"
  by (simp add: same_but_explored_def commitInference_def upd_infer_def)

lemma next_loop_spec:
  "next_loop stack st = (r, st') \<Longrightarrow> same_but_explored st st' \<and>
   (case r of
      None \<Rightarrow> candidates st' = [] \<and> (\<forall>q\<in>set stack. settled st' q)
    | Some p \<Rightarrow> \<exists>skipped. rev stack = candidates st' @ p # skipped \<and> (\<forall>q\<in>set skipped. settled st' q) \<and>
        leaf (infers st' p) \<and> \<not> settled st' p)"
proof (induction stack st rule: next_loop.induct)
  case (1 st)
  then show ?case by (auto simp: same_but_explored_def)
next
  case (2 p stack st)
  have add: "\<exists>sk. rev (p # stack) = c @ q # sk \<and> (\<forall>x\<in>set sk. settled st' x) \<and> leaf (infers st' q) \<and> \<not> settled st' q"
    if "\<exists>sk. rev stack = c @ q # sk \<and> (\<forall>x\<in>set sk. settled st' x) \<and> leaf (infers st' q) \<and> \<not> settled st' q"
      "settled st' p" for c q
  proof -
    from that obtain sk where "rev stack = c @ q # sk" "\<forall>x\<in>set sk. settled st' x" "leaf (infers st' q)" "\<not> settled st' q"
      by blast
    with that(2) show ?thesis by (intro exI [of _ "sk @ [p]"]) simp
  qed
  consider "\<not> leaf (infers st p)" | "leaf (infers st p)" "shouldFix (infers st p) \<and> hasBeenExplored st (infers st p)"
    | "leaf (infers st p)" "\<not> (shouldFix (infers st p) \<and> hasBeenExplored st (infers st p))" by blast
  then show ?case
  proof cases
    case 1
    let ?st = "commitInference p False st"
    from "2.IH"(1) [OF 1] "2.prems" 1 have IH: "same_but_explored ?st st'" and
      "case r of None \<Rightarrow> candidates st' = [] \<and> (\<forall>q\<in>set stack. settled st' q)
       | Some q \<Rightarrow> \<exists>sk. rev stack = candidates st' @ q # sk \<and> (\<forall>x\<in>set sk. settled st' x) \<and> leaf (infers st' q) \<and> \<not> settled st' q"
      by auto
    moreover have "settled ?st p" using 1 by (simp add: settled_def commitInference_def upd_infer_def)
    then have "settled st' p" by (rule settled_mono [OF IH])
    ultimately show ?thesis
      using same_but_explored_trans [OF commit_same_but_explored IH] add by (auto split: option.splits)
  next
    case 2
    note skip = this
    from "2.IH"(2) [OF _ skip(2)] "2.prems" skip have IH: "same_but_explored st st'" and
      "case r of None \<Rightarrow> candidates st' = [] \<and> (\<forall>q\<in>set stack. settled st' q)
       | Some q \<Rightarrow> \<exists>sk. rev stack = candidates st' @ q # sk \<and> (\<forall>x\<in>set sk. settled st' x) \<and> leaf (infers st' q) \<and> \<not> settled st' q"
      by auto
    moreover have "settled st p" using skip by (simp add: settled_def)
    then have "settled st' p" by (rule settled_mono [OF IH])
    ultimately show ?thesis using add by (auto split: option.splits)
  next
    case 3
    with "2.prems" have r: "r = Some p" "st' = st\<lparr>candidates := rev stack\<rparr>" by auto
    have "hasBeenExplored st' i = hasBeenExplored st i" for i by (simp add: hasBeenExplored_def r)
    with 3 r same_but_explored_refl show ?thesis by (auto simp: settled_def)
  qed
qed


subsection \<open>Properties\<close>

text \<open>Two discovered inferences: a result with one acquire wildcard and a candidate.\<close>

definition sample_set :: inference_set where
  "sample_set = \<lparr>infers = (\<lambda>p. if p = 0 then new_inference 0
       else if p = 1 then (new_inference 0)\<lparr>orders := [WILDCARD_NONEXIST, acquire, relaxed, relaxed, relaxed], leaf := True\<rparr>
       else (new_inference 0)\<lparr>orders := [WILDCARD_NONEXIST, release, relaxed, relaxed, relaxed], leaf := True\<rparr>),
     next_infer = 3, discoveredSet = [1, 2], results = [1], candidates = [2, 0], notAddedAtFirstPlace = 0\<rparr>"

text \<open>The initial inference among the discovered ones, and two that are longer.\<close>

definition sample_growing :: inference_set where
  "sample_growing = sample_set\<lparr>infers := (\<lambda>p. if p = 0 then new_inference 0
       else if p = 1 then (new_inference 0)\<lparr>orders := replicate 6 WILDCARD_NONEXIST, leaf := True\<rparr>
       else (new_inference 0)\<lparr>orders := replicate 5 WILDCARD_NONEXIST @ [acquire], leaf := True\<rparr>),
     discoveredSet := [0, 1, 2], results := [2]\<rparr>"

text \<open>
  C25: the set of inferences never discovers the same assignment of orders twice and never keeps a
  result that covers a later one: adding an inference or candidates, committing one and taking the
  next one preserve this. Weakening preserves it when the initial inference has room for the
  wildcards of the current one; otherwise reading the orders of the initial inference grows it,
  which changes its comparisons, and the invariant is only kept for the pairs without it. The
  witness has a set where the initial inference becomes equal to a discovered one.
\<close>

theorem inference_set_invariant:
  assumes "inference_set_ok st" "p < next_infer st"
  shows "inference_set_ok (snd (addInference i st)) \<and> inference_set_ok (addCurInference p st) \<and>
    inference_set_ok (commitInference p feasible st) \<and> inference_set_ok (snd (addCandidates p l st)) \<and>
    inference_set_ok (snd (getNextInference st)) \<and>
    (case addWeakerInference p st of None \<Rightarrow> True | Some st' \<Rightarrow>
       ok_except {initialInfer (infers st p)} st' \<and>
       (inf_size (infers st p) \<le> inf_size (infers st (initialInfer (infers st p))) \<longrightarrow> inference_set_ok st'))"
  using addWeakerInference_except [OF _ assms(1), of p]
  by (intro conjI addInference_ok addCurInference_ok commitInference_ok addCandidates_ok getNextInference_ok
      assms) (auto split: option.split)

theorem inference_set_invariant_witness:
  "inference_set_ok (commitInference 2 True sample_set) \<and>
   results (commitInference 2 True sample_set) = [1, 2] \<and>
   (\<exists>st'. addWeakerInference 1 sample_set = Some st' \<and> inference_set_ok st') \<and>
   inference_set_ok sample_growing \<and>
   (\<exists>st'. addWeakerInference 2 sample_growing = Some st' \<and> ok_except {0} st' \<and> \<not> inference_set_ok st')"
proof -
  have ok: "inference_set_ok sample_set" "inference_set_ok sample_growing" by code_simp+
  have "addWeakerInference 1 sample_set \<noteq> None" by code_simp
  then obtain st' where st': "addWeakerInference 1 sample_set = Some st'" by auto
  have "map_option inference_set_ok (addWeakerInference 2 sample_growing) = Some False" by code_simp
  then obtain st2 where st2: "addWeakerInference 2 sample_growing = Some st2" "\<not> inference_set_ok st2" by auto
  have n: "1 < next_infer sample_set" "2 < next_infer sample_set" "2 < next_infer sample_growing"
    "inf_size (infers sample_set 1) \<le> inf_size (infers sample_set (initialInfer (infers sample_set 1)))"
    "initialInfer (infers sample_growing 2) = 0"
    by code_simp+
  from inference_set_invariant [OF ok(1) n(1)] st' n(4) have "inference_set_ok st'" by simp
  moreover from inference_set_invariant [OF ok(1) n(2)] have "inference_set_ok (commitInference 2 True sample_set)" by blast
  moreover have "results (commitInference 2 True sample_set) = [1, 2]" by code_simp
  moreover from inference_set_invariant [OF ok(2) n(3)] st2(1) n(5) have "ok_except {0} st2" by simp
  ultimately show ?thesis using st' st2 ok(2) by blast
qed

text \<open>
  \<open>getNextInference\<close> pops candidates from the back until it finds a leaf that still has to be
  explored: everything it skips is settled afterwards (a node with fixes is marked explored, a leaf is
  covered by an explored inference), what it returns is not, and without a result nothing is left.
\<close>

theorem getNextInference_settles:
  "case getNextInference st of
     (None, st') \<Rightarrow> candidates st' = [] \<and> list_all (settled st') (candidates st)
   | (Some p, st') \<Rightarrow> leaf (infers st' p) \<and> \<not> settled st' p \<and>
       (\<exists>skipped. candidates st = candidates st' @ p # skipped \<and> list_all (settled st') skipped)"
proof -
  obtain r st' where r: "getNextInference st = (r, st')" by (cases "getNextInference st")
  then have "next_loop (rev (candidates st)) st = (r, st')" by (simp add: getNextInference_def)
  from next_loop_spec [OF this] show ?thesis unfolding r by (auto simp: list_all_iff split: option.splits)
qed

text \<open>
  A patch whose first unit is an action with a fixed order is applicable when that order is strong
  enough, but applying it stops at this unit and changes nothing; with the units swapped the same
  patch strengthens the wildcard.
\<close>

theorem fixed_action_blocks_patch:
  assumes "orig a = Order m" "guarantees mo \<subseteq> guarantees (Order m)" "met mo"
    and "orig b = Wildcard w" "w \<le> MAX_WILDCARD_NUM" "orders_ok i" "met mo'"
    and "\<not> guarantees mo' \<subseteq> guarantees (order_of i w)"
  shows "isApplicable orig [(a, mo), (b, mo')] \<and>
    apply_units orig [(a, mo), (b, mo')] False i = Some (False, i) \<and>
    (\<exists>i'. apply_units orig [(b, mo'), (a, mo)] False i = Some (True, i'))"
proof (intro conjI)
  have "compareMemoryOrder (Order m) mo = lattice_compare (Order m) mo"
    using assms(3) by (intro compareMemoryOrder_lattice) auto
  then have "\<not> (compareMemoryOrder (Order m) mo = 2 \<or> compareMemoryOrder (Order m) mo = - 1)"
    using assms(2) by (auto simp: lattice_compare_def)
  then show "isApplicable orig [(a, mo), (b, mo')]" using assms(1,4) by (simp add: isApplicable_def)
  have stop: "strengthen (orig a) mo j = Some (- 1, j)" for j using assms(1) by (simp add: strengthen_def)
  then show "apply_units orig [(a, mo), (b, mo')] False i = Some (False, i)" by simp
  obtain grown where grown: "(if w > inf_size i then resize_orders w i else Some i) = Some grown"
    "orders_ok grown" "w < length (orders grown)" "order_of grown w = order_of i w"
    using grown_inference [OF assms(6,5)] by metis
  have cur: "orders grown ! w = order_of i w" using grown(3,4) by (simp add: vec_get_def)
  have ok: "met (order_of i w) \<or> order_of i w = WILDCARD_NONEXIST" by (rule order_of_ok [OF assms(6)])
  then have n: "is_normal_mo mo'" "is_normal_mo_infer (order_of i w)"
    using met_normal assms(7) by (auto simp: is_normal_mo_infer_def)
  from stronger_order_join [OF ok assms(7)] assms(8) obtain x where "stronger_order (order_of i w) mo' = Some x"
    by (auto split: option.splits)
  then have "\<exists>j. strengthen (orig b) mo' i = Some (1, j)"
    using n by (simp add: strengthen_def Let_def assms(4) grown(1) cur)
  then show "\<exists>i'. apply_units orig [(b, mo'), (a, mo)] False i = Some (True, i')" using stop by auto
qed

theorem fixed_action_blocks_patch_witness:
  "apply_units (\<lambda>a. if a = 0 then acquire else Wildcard 1) [(0, acquire), (1, release)] False (new_inference 0) =
     Some (False, new_inference 0)"
proof -
  have "isApplicable (\<lambda>a. if a = 0 then acquire else Wildcard 1) [(0, acquire), (1, release)] \<and>
    apply_units (\<lambda>a. if a = 0 then acquire else Wildcard 1) [(0, acquire), (1, release)] False (new_inference 0) =
     Some (False, new_inference 0) \<and>
    (\<exists>i'. apply_units (\<lambda>a. if a = 0 then acquire else Wildcard 1) [(1, release), (0, acquire)] False (new_inference 0) = Some (True, i'))"
    by (rule fixed_action_blocks_patch [where m = memory_order_acquire and w = 1])
      (simp_all add: MAX_WILDCARD_NUM_def orders_ok_def new_inference_def vec_get_def)
  then show ?thesis by blast
qed

end
