(* ===== verification/Fence_Fixes.thy ===== *)
theory Fence_Fixes
  imports Fence_Paths Inference_Search SC_Generator
begin

text \<open>
  The fixes of the fence plugin (class \<open>SCFence\<close> of \<open>scfence/scfence.h\<close>, \<open>scfence/scfence.cc\<close>): from
  an execution that is not sequentially consistent, has a data race or reads the same store too often,
  the plugin derives stronger assignments of orders and restarts the checker with one of them.

  The wildcard of an action is \<open>orig a\<close>; \<open>dup\<close> holds the actions of the trace by thread. A value
  \<open>None\<close> is a failing assertion or the use of an iterator or object that does not exist. Reading an
  order of the current inference may grow it, so it is threaded through \<open>imposeSC\<close>.
\<close>

text \<open>Do the reads-from edges of the reversed path form a chain of RMWs?\<close>

fun release_chain :: "execution \<Rightarrow> act_ptr list \<Rightarrow> bool" where
  "release_chain s (read # next_read # rest) =
     (if ma_reads_from (ex_acts s read) \<noteq> Some next_read then False else release_chain s (next_read # rest))"
| "release_chain s _ = True"

definition isReleaseSequence :: "execution \<Rightarrow> act_ptr list \<Rightarrow> bool" where
  "isReleaseSequence s path = release_chain s (rev path)"

text \<open>The fences of a list from an action on and before a bound.\<close>

definition fences_from :: "execution \<Rightarrow> act_ptr list \<Rightarrow> act_ptr \<Rightarrow> act_ptr \<Rightarrow> act_ptr list" where
  "fences_from s list a bound =
     filter (\<lambda>f. is_fence (ex_acts s f)) (takeWhile (\<lambda>x. x \<noteq> bound) (dropWhile (\<lambda>x. x \<noteq> a) list))"

definition acq_patch :: "act_ptr \<Rightarrow> act_ptr \<Rightarrow> patch" where
  "acq_patch write fence = [(fence, acquire), (write, release)]"

definition rel_patch :: "act_ptr \<Rightarrow> act_ptr \<Rightarrow> patch" where
  "rel_patch read fence = [(fence, release), (read, acquire)]"

text \<open>The patches with fences: two fences where possible, otherwise one of either kind.\<close>

definition fence_patches ::
  "(act_ptr \<Rightarrow> mo_param) \<Rightarrow> act_ptr \<Rightarrow> act_ptr \<Rightarrow> act_ptr list \<Rightarrow> act_ptr list \<Rightarrow> patch list" where
  "fence_patches orig read write acqFences relFences = (
     let acqs = filter (isApplicable orig) (map (acq_patch write) acqFences);
         rels = filter (isApplicable orig) (map (rel_patch read) relFences);
         both = filter (isApplicable orig)
           (concat (map (\<lambda>r. map (\<lambda>a. [(r, release), (a, acquire)]) acqFences) relFences))
     in if acqFences = [] \<and> relFences = [] then []
        else if relFences = [] then acqs
        else if acqFences = [] then rels
        else if both \<noteq> [] then both else acqs @ rels)"

definition getAcqRel ::
  "execution \<Rightarrow> (act_ptr \<Rightarrow> mo_param) \<Rightarrow> thread_lists \<Rightarrow> act_ptr \<Rightarrow> act_ptr \<Rightarrow> act_ptr \<Rightarrow> act_ptr \<Rightarrow> patch list option" where
  "getAcqRel s orig dup read readBound write writeBound = do {
     ASSERT (tid_of s read < length dup \<and> tid_of s write < length dup);
     let acqFences = fences_from s (dup ! tid_of s read) read readBound;
     let relFences = fences_from s (rev (dup ! tid_of s write)) write writeBound;
     let patches = fence_patches orig read write acqFences relFences;
     Some (if patches \<noteq> [] then patches
           else filter (isApplicable orig) [[(read, acquire), (write, release)]])
   }"

subsection \<open>Imposing synchronization and sequential consistency\<close>

text \<open>
  One read of a path. The variable for the previous read is set to null in every iteration, so the
  bound on the side of the read is always the end action.
\<close>

fun impose_reads ::
  "execution \<Rightarrow> (act_ptr \<Rightarrow> mo_param) \<Rightarrow> thread_lists \<Rightarrow> inference \<Rightarrow> act_ptr \<Rightarrow> act_ptr \<Rightarrow> act_ptr list \<Rightarrow> inference list \<Rightarrow>
   (bool \<times> inference list) option" where
  "impose_reads s orig dup cur begin end [] list = Some (True, list)"
| "impose_reads s orig dup cur begin end (read # path) list = do {
     write \<leftarrow> ma_reads_from (ex_acts s read);
     patches \<leftarrow> getAcqRel s orig dup read end write (case path of next_read # rest \<Rightarrow> next_read | [] \<Rightarrow> begin);
     if patches = [] then Some (False, list)
     else do {
       list \<leftarrow> applyPatch orig cur patches list;
       impose_reads s orig dup cur begin end path list
     }
   }"

definition imposeSync_path ::
  "execution \<Rightarrow> (act_ptr \<Rightarrow> mo_param) \<Rightarrow> thread_lists \<Rightarrow> inference \<Rightarrow> act_ptr \<Rightarrow> act_ptr \<Rightarrow> act_ptr list \<Rightarrow> inference list \<Rightarrow>
   (bool \<times> inference list) option" where
  "imposeSync_path s orig dup cur begin end path list =
     (if isReleaseSequence s path
      then do {
        ASSERT (path \<noteq> []);
        relHead \<leftarrow> ma_reads_from (ex_acts s (hd path));
        patches \<leftarrow> getAcqRel s orig dup (List.last path) end relHead begin;
        if patches = [] then Some (False, list)
        else do { list \<leftarrow> applyPatch orig cur patches list; Some (True, list) }
      }
      else impose_reads s orig dup cur begin end path list)"

definition imposeSync ::
  "execution \<Rightarrow> (act_ptr \<Rightarrow> mo_param) \<Rightarrow> thread_lists \<Rightarrow> inference \<Rightarrow> act_ptr list list \<Rightarrow> act_ptr \<Rightarrow> act_ptr \<Rightarrow> inference list \<Rightarrow>
   (bool \<times> inference list) option" where
  "imposeSync s orig dup cur paths begin end inferList =
     for_each (\<lambda>path (res, inferList). do {
         (r, cands) \<leftarrow> imposeSync_path s orig dup cur begin end path [];
         Some (res \<or> r, inferList @ cands)
       }) paths (False, inferList)"

text \<open>
  Two fences for sequential consistency: every pair of wildcard fences; \<open>twoFences\<close> is set when one of
  the pair is not yet sequentially consistent.
\<close>

definition sc_patch :: "act_ptr \<Rightarrow> act_ptr \<Rightarrow> patch" where
  "sc_patch a b = [(a, seqcst), (b, seqcst)]"

definition wildcard_order :: "mo_param \<Rightarrow> inference \<Rightarrow> (mo_param \<times> inference) option" where
  "wildcard_order x i = do { ASSERT (get_wildcard_id x \<ge> 0); order_at (nat (get_wildcard_id x)) i }"

definition fence_pair ::
  "(act_ptr \<Rightarrow> mo_param) \<Rightarrow> act_ptr \<Rightarrow> act_ptr \<Rightarrow> bool \<times> patch list \<times> inference \<Rightarrow> (bool \<times> patch list \<times> inference) option" where
  "fence_pair orig fence1 fence2 st = (
     let (twoFences, patches, cur) = st
     in if \<not> isApplicable orig (sc_patch fence1 fence2) then Some st
        else do {
          (mo1, cur) \<leftarrow> wildcard_order (orig fence1) cur;
          (mo2, cur) \<leftarrow> wildcard_order (orig fence2) cur;
          Some (twoFences \<or> mo1 \<noteq> seqcst \<or> mo2 \<noteq> seqcst, patches @ [sc_patch fence1 fence2], cur)
        })"

fun fence_pairs ::
  "(act_ptr \<Rightarrow> mo_param) \<Rightarrow> act_ptr list \<Rightarrow> bool \<times> patch list \<times> inference \<Rightarrow> (bool \<times> patch list \<times> inference) option" where
  "fence_pairs orig [] st = Some st"
| "fence_pairs orig (f # fs) st = do { st \<leftarrow> for_each (fence_pair orig f) fs st; fence_pairs orig fs st }"

definition one_fence_patches :: "(act_ptr \<Rightarrow> mo_param) \<Rightarrow> act_ptr list \<Rightarrow> act_ptr \<Rightarrow> act_ptr \<Rightarrow> patch list" where
  "one_fence_patches orig fences act1 act2 = filter (isApplicable orig)
     (concat (map (\<lambda>f. [sc_patch act1 f, sc_patch act2 f]) fences) @ [sc_patch act1 act2])"

definition imposeSC ::
  "execution \<Rightarrow> (act_ptr \<Rightarrow> mo_param) \<Rightarrow> act_ptr list \<Rightarrow> act_ptr \<Rightarrow> act_ptr \<Rightarrow> inference \<times> inference list \<Rightarrow>
   (bool \<times> inference \<times> inference list) option" where
  "imposeSC s orig actions act1 act2 st = (
     let (cur, inferList) = st
     in do {
       ASSERT (act1 \<in> set actions \<and> act1 \<noteq> act2);
       let fences = filter (\<lambda>f. is_fence (ex_acts s f) \<and> is_wildcard (orig f))
         (takeWhile (\<lambda>x. x \<noteq> act2) (tl (dropWhile (\<lambda>x. x \<noteq> act1) actions)));
       (twoFences, patches, cur) \<leftarrow> fence_pairs orig fences (False, [], cur);
       let patches = (if twoFences then patches else patches @ one_fence_patches orig fences act1 act2);
       if patches \<noteq> []
       then do { inferList \<leftarrow> applyPatch orig cur patches inferList; Some (True, cur, inferList) }
       else Some (False, cur, inferList)
     })"

text \<open>Happens-before between two actions along all paths, or sequential consistency without a path.\<close>

definition impose_order ::
  "execution \<Rightarrow> (act_ptr \<Rightarrow> mo_param) \<Rightarrow> thread_lists \<Rightarrow> act_ptr list \<Rightarrow> act_ptr \<Rightarrow> act_ptr \<Rightarrow> inference \<times> inference list \<Rightarrow>
   (inference \<times> inference list) option" where
  "impose_order s orig dup actions a b st = (
     let (cur, inferList) = st
     in do {
       paths \<leftarrow> get_rf_sb_paths s dup a b;
       if paths \<noteq> []
       then do { (r, inferList) \<leftarrow> imposeSync s orig dup cur paths a b inferList; Some (cur, inferList) }
       else do { (r, st) \<leftarrow> imposeSC s orig actions a b st; Some st }
     })"

subsection \<open>The patterns\<close>

text \<open>
  Pattern (a), a read of an old value: for every store between the store that was read and the read,
  order the two stores and the second one before the read.
\<close>

definition fix_old_value ::
  "execution \<Rightarrow> (act_ptr \<Rightarrow> mo_param) \<Rightarrow> thread_lists \<Rightarrow> act_ptr list \<Rightarrow> act_ptr \<Rightarrow> act_ptr \<Rightarrow> act_ptr \<Rightarrow>
   inference \<times> inference list \<Rightarrow> (inference \<times> inference list) option" where
  "fix_old_value s orig dup actions read write write2 st = (
     let (cur, candidates) = st
     in do {
       mo \<leftarrow> checkReachable (mo_graph s) (ActObj write) (ActObj write2);
       let isWritesMO = (mo \<and> \<not> happens_before (ex_acts s write) (ex_acts s write2));
       (cur, tmp) \<leftarrow> (if mo then Some (cur, []) else impose_order s orig dup actions write write2 (cur, []));
       (cur, tmp) \<leftarrow>
         (if happens_before (ex_acts s write2) (ex_acts s read) then Some (cur, tmp)
          else do {
            paths2 \<leftarrow> get_rf_sb_paths s dup write2 read;
            (cur, tmp) \<leftarrow> impose_order s orig dup actions write2 read (cur, tmp);
            if paths2 = [] \<and> isWritesMO then impose_order s orig dup actions write write2 (cur, tmp)
            else Some (cur, tmp)
          });
       Some (cur, candidates @ tmp)
     })"

definition getFixesFromPatternA ::
  "execution \<Rightarrow> (act_ptr \<Rightarrow> mo_param) \<Rightarrow> thread_lists \<Rightarrow> act_ptr list \<Rightarrow> act_ptr \<Rightarrow> act_ptr \<Rightarrow> inference \<Rightarrow>
   (inference \<times> inference list) option" where
  "getFixesFromPatternA s orig dup actions read write cur = (
     let between = takeWhile (\<lambda>x. x \<noteq> read) (tl (dropWhile (\<lambda>x. x \<noteq> write) actions));
         write2s = filter (\<lambda>w. is_write (ex_acts s w) \<and> ma_location (ex_acts s w) = ma_location (ex_acts s write)) between
     in do {
       ASSERT (between \<noteq> []);
       for_each (fix_old_value s orig dup actions read write) write2s (cur, [])
     })"

text \<open>Pattern (b), a read of a future value: order the read before the store, or the store before the read.\<close>

definition getFixesFromPatternB ::
  "execution \<Rightarrow> (act_ptr \<Rightarrow> mo_param) \<Rightarrow> thread_lists \<Rightarrow> act_ptr \<Rightarrow> act_ptr \<Rightarrow> inference \<Rightarrow> inference list option" where
  "getFixesFromPatternB s orig dup read write cur = do {
     paths1 \<leftarrow> get_rf_sb_paths s dup read write;
     (r, res) \<leftarrow> imposeSync s orig dup cur paths1 read write [];
     paths2 \<leftarrow> get_rf_sb_paths s dup write read;
     (r, candidates) \<leftarrow> imposeSync s orig dup cur paths2 write read [];
     Some (res @ candidates)
   }"

subsection \<open>The state of the plugin\<close>

text \<open>
  The set of inferences, the current one, the options and the flags of the checker that the plugin
  sets. An execution is analysed in a context: the actions in the order of the analysis, the reads it
  found bad and those annotated to be ignored.
\<close>

record scfence =
  sf_set :: inference_set
  sf_cur :: infer_ptr
  sf_weaken :: bool
  sf_inferImplicitMO :: bool
  sf_implicitMOReadBound :: int
  sf_hasRestarted :: bool
  sf_restart :: bool
  sf_exit :: bool

record sc_result =
  sr_list :: "act_ptr list"
  sr_cyclic :: bool
  sr_badrf :: "act_ptr \<Rightarrow> bool"
  sr_annotated :: "act_ptr \<Rightarrow> bool"

definition getCurInference :: "scfence \<Rightarrow> inference" where
  "getCurInference sf = infers (sf_set sf) (sf_cur sf)"

definition upd_cur :: "(inference \<Rightarrow> inference) \<Rightarrow> scfence \<Rightarrow> scfence" where
  "upd_cur f sf = sf\<lparr>sf_set := upd_infer (sf_cur sf) f (sf_set sf)\<rparr>"

definition add_candidates_sf :: "inference list \<Rightarrow> scfence \<Rightarrow> bool \<times> scfence" where
  "add_candidates_sf cands sf =
     (let (added, set) = addCandidates (sf_cur sf) cands (sf_set sf) in (added, sf\<lparr>sf_set := set\<rparr>))"

subsection \<open>Fixes for an execution\<close>

text \<open>The first bad read of the order that is not annotated.\<close>

definition addFixesNonSC ::
  "execution \<Rightarrow> (act_ptr \<Rightarrow> mo_param) \<Rightarrow> thread_lists \<Rightarrow> sc_result \<Rightarrow> scfence \<Rightarrow> (bool \<times> scfence) option" where
  "addFixesNonSC s orig dup sr sf =
     (case filter (\<lambda>a. seq_of s a > 0 \<and> sr_badrf sr a \<and> \<not> sr_annotated sr a) (sr_list sr) of
        [] \<Rightarrow> Some (False, sf)
      | read # _ \<Rightarrow> do {
          write \<leftarrow> ma_reads_from (ex_acts s read);
          ASSERT (write \<in> set (sr_list sr));
          (cur, candidates) \<leftarrow>
            (if write \<in> set (takeWhile (\<lambda>x. x \<noteq> read) (sr_list sr))
             then getFixesFromPatternA s orig dup (sr_list sr) read write (getCurInference sf)
             else do {
               cands \<leftarrow> getFixesFromPatternB s orig dup read write (getCurInference sf);
               Some (getCurInference sf, cands)
             });
          Some (add_candidates_sf candidates (upd_cur (\<lambda>_. cur) sf))
        })"

text \<open>
  Two stores to a location with more reads between them than the bound and no modification order. The
  list of candidates is freed by \<open>addCandidates\<close>: \<open>cands\<close> is \<open>None\<close> afterwards, and using it again is
  an error.
\<close>

definition reads_between :: "execution \<Rightarrow> loc \<Rightarrow> act_ptr list \<Rightarrow> nat" where
  "reads_between s l list = length (filter (\<lambda>a. is_read (ex_acts s a) \<and> ma_location (ex_acts s a) = l) list)"

definition fix_implicit ::
  "execution \<Rightarrow> (act_ptr \<Rightarrow> mo_param) \<Rightarrow> thread_lists \<Rightarrow> act_ptr \<Rightarrow> act_ptr list \<Rightarrow>
   inference list option \<times> scfence \<Rightarrow> (bool \<times> inference list option \<times> scfence) option" where
  "fix_implicit s orig dup write2 earlier st = (
     let (cands, sf) = st; l = ma_location (ex_acts s write2);
         between = takeWhile (\<lambda>a. \<not> (is_write (ex_acts s a) \<and> ma_location (ex_acts s a) = l)) earlier
     in case dropWhile (\<lambda>a. \<not> (is_write (ex_acts s a) \<and> ma_location (ex_acts s a) = l)) earlier of
          [] \<Rightarrow> Some (False, st)
        | write1 # _ \<Rightarrow>
            if \<not> int (reads_between s l between) > sf_implicitMOReadBound sf then Some (False, st)
            else do {
              isMO \<leftarrow> checkReachable (mo_graph s) (ActObj write1) (ActObj write2);
              if isMO then Some (False, st)
              else do {
                paths1 \<leftarrow> get_rf_sb_paths s dup write1 write2;
                if paths1 = [] then Some (False, st)
                else do {
                  list \<leftarrow> cands;
                  (r, list) \<leftarrow> imposeSync s orig dup (getCurInference sf) paths1 write1 write2 list;
                  let (added, sf) = add_candidates_sf list sf;
                  Some (added, None, sf)
                }
              }
            })"

text \<open>The argument is the reversed list of the actions.\<close>

fun implicit_loop ::
  "execution \<Rightarrow> (act_ptr \<Rightarrow> mo_param) \<Rightarrow> thread_lists \<Rightarrow> act_ptr list \<Rightarrow> inference list option \<times> scfence \<Rightarrow>
   (bool \<times> scfence) option" where
  "implicit_loop s orig dup [] st = Some (False, snd st)"
| "implicit_loop s orig dup (write2 # earlier) st =
     (if \<not> is_write (ex_acts s write2) then implicit_loop s orig dup earlier st
      else do {
        (added, st) \<leftarrow> fix_implicit s orig dup write2 earlier st;
        if added then Some (True, snd st) else implicit_loop s orig dup earlier st
      })"

definition addFixesImplicitMO ::
  "execution \<Rightarrow> (act_ptr \<Rightarrow> mo_param) \<Rightarrow> thread_lists \<Rightarrow> sc_result \<Rightarrow> scfence \<Rightarrow> (bool \<times> scfence) option" where
  "addFixesImplicitMO s orig dup sr sf = implicit_loop s orig dup (rev (sr_list sr)) (Some [], sf)"

text \<open>
  A load of an uninitialised location is to come after an access to the location. The candidates are
  freed by \<open>addCandidates\<close> here too, and using them again is an error.
\<close>

fun fix_uninit_read ::
  "execution \<Rightarrow> (act_ptr \<Rightarrow> mo_param) \<Rightarrow> thread_lists \<Rightarrow> act_ptr \<Rightarrow> act_ptr list \<Rightarrow> inference list option \<times> scfence \<Rightarrow>
   (bool \<times> inference list option \<times> scfence) option" where
  "fix_uninit_read s orig dup uninitRead [] st = Some (False, st)"
| "fix_uninit_read s orig dup uninitRead (write # list) st =
     (if \<not> same_var (ex_acts s write) (ex_acts s uninitRead) then fix_uninit_read s orig dup uninitRead list st
      else do {
        paths1 \<leftarrow> get_rf_sb_paths s dup write uninitRead;
        if paths1 = [] then fix_uninit_read s orig dup uninitRead list st
        else do {
          candidates \<leftarrow> fst st;
          (r, candidates) \<leftarrow> imposeSync s orig dup (getCurInference (snd st)) paths1 write uninitRead candidates;
          let (added, sf) = add_candidates_sf candidates (snd st);
          if added then Some (True, None, sf) else fix_uninit_read s orig dup uninitRead list (None, sf)
        }
      })"

text \<open>The argument is the reversed list of the actions.\<close>

fun buggy_loop ::
  "execution \<Rightarrow> (act_ptr \<Rightarrow> mo_param) \<Rightarrow> thread_lists \<Rightarrow> act_ptr list \<Rightarrow> act_ptr list \<Rightarrow>
   inference list option \<times> scfence \<Rightarrow> (bool \<times> scfence) option" where
  "buggy_loop s orig dup list [] st = Some (False, snd st)"
| "buggy_loop s orig dup list (uninitRead # earlier) st =
     (if \<not> seq_of s uninitRead > 0 \<or> \<not> is_read (ex_acts s uninitRead) then buggy_loop s orig dup list earlier st
      else do {
        rf \<leftarrow> ma_reads_from (ex_acts s uninitRead);
        if \<not> is_uninitialized (ex_acts s rf) then buggy_loop s orig dup list earlier st
        else do {
          (foundFix, st) \<leftarrow> fix_uninit_read s orig dup uninitRead list st;
          if foundFix then Some (True, snd st) else buggy_loop s orig dup list earlier st
        }
      })"

definition addFixesBuggyExecution ::
  "execution \<Rightarrow> (act_ptr \<Rightarrow> mo_param) \<Rightarrow> thread_lists \<Rightarrow> sc_result \<Rightarrow> scfence \<Rightarrow> (bool \<times> scfence) option" where
  "addFixesBuggyExecution s orig dup sr sf = buggy_loop s orig dup (sr_list sr) (rev (sr_list sr)) (Some [], sf)"

subsection \<open>Data races\<close>

text \<open>The plain accesses by location, in the order of the first access.\<close>

definition add_plain ::
  "execution \<Rightarrow> (act_ptr \<Rightarrow> mo_param) \<Rightarrow> act_ptr \<Rightarrow> act_ptr list list \<Rightarrow> act_ptr list list" where
  "add_plain s orig a opList = (
     let same = (\<lambda>l. ma_location (ex_acts s (hd l)) = ma_location (ex_acts s a))
     in if orig a \<noteq> memory_order_normal then opList
        else if list_ex same opList then map (\<lambda>l. if same l then l @ [a] else l) opList
        else opList @ [[a]])"

definition plain_by_location :: "execution \<Rightarrow> (act_ptr \<Rightarrow> mo_param) \<Rightarrow> act_ptr list \<Rightarrow> act_ptr list list" where
  "plain_by_location s orig list = fold (add_plain s orig) list []"

fun first_unordered :: "execution \<Rightarrow> act_ptr list \<Rightarrow> (act_ptr \<times> act_ptr) option" where
  "first_unordered s [] = None"
| "first_unordered s (a # as) =
     (case filter (\<lambda>b. \<not> happens_before (ex_acts s a) (ex_acts s b) \<and> \<not> happens_before (ex_acts s b) (ex_acts s a)) as of
        b # _ \<Rightarrow> Some (a, b)
      | [] \<Rightarrow> first_unordered s as)"

fun first_race :: "execution \<Rightarrow> act_ptr list list \<Rightarrow> (act_ptr \<times> act_ptr) option" where
  "first_race s [] = None"
| "first_race s (l # ls) = (case first_unordered s l of Some r \<Rightarrow> Some r | None \<Rightarrow> first_race s ls)"

definition checkDataRace :: "execution \<Rightarrow> (act_ptr \<Rightarrow> mo_param) \<Rightarrow> act_ptr list \<Rightarrow> (act_ptr \<times> act_ptr) option" where
  "checkDataRace s orig list = first_race s (plain_by_location s orig list)"

text \<open>The neighbours of an action in its thread; there is none beyond the ends of the list.\<close>

definition sbPrevAction :: "execution \<Rightarrow> thread_lists \<Rightarrow> act_ptr \<Rightarrow> act_ptr option" where
  "sbPrevAction s dup a = do {
     ASSERT (tid_of s a < length dup);
     let before = takeWhile (\<lambda>x. x \<noteq> a) (dup ! tid_of s a);
     if before = [] then None else Some (List.last before)
   }"

definition sbNextAction :: "execution \<Rightarrow> thread_lists \<Rightarrow> act_ptr \<Rightarrow> act_ptr option" where
  "sbNextAction s dup a = do {
     ASSERT (tid_of s a < length dup);
     (case dropWhile (\<lambda>x. x \<noteq> a) (dup ! tid_of s a) of b # c # _ \<Rightarrow> Some c | _ \<Rightarrow> None)
   }"

text \<open>
  Fixes for a race in one direction, and then in the other when there are paths in the first. The
  inner variable \<open>added\<close> hides the outer one, which stays false and is returned.
\<close>

definition addFixesDataRace ::
  "execution \<Rightarrow> (act_ptr \<Rightarrow> mo_param) \<Rightarrow> thread_lists \<Rightarrow> sc_result \<Rightarrow> scfence \<Rightarrow> (bool \<times> scfence) option" where
  "addFixesDataRace s orig dup sr sf = (case checkDataRace s orig (sr_list sr) of
     None \<Rightarrow> Some (False, sf)
   | Some (act1, act2) \<Rightarrow> do {
       next1 \<leftarrow> sbNextAction s dup act1;
       prev2 \<leftarrow> sbPrevAction s dup act2;
       paths1 \<leftarrow> get_rf_sb_paths s dup next1 prev2;
       next2 \<leftarrow> sbNextAction s dup act2;
       prev1 \<leftarrow> sbPrevAction s dup act1;
       paths2 \<leftarrow> get_rf_sb_paths s dup next2 prev1;
       let added = False;
       if paths1 = [] then Some (added, sf)
       else do {
         (r, candidates1) \<leftarrow> imposeSync s orig dup (getCurInference sf) paths1 act1 act2 [];
         let (added_inner, sf) = add_candidates_sf candidates1 sf;
         if paths2 = [] then Some (added, sf)
         else do {
           (r, candidates2) \<leftarrow> imposeSync s orig dup (getCurInference sf) paths2 act2 act1 [];
           let (added_inner, sf) = add_candidates_sf candidates2 sf;
           Some (added, sf)
         }
       }
     })"

subsection \<open>The search\<close>

datatype fix_type = BUGGY_EXECUTION | IMPLICIT_MO | NON_SC | DATA_RACE

definition addFixes ::
  "execution \<Rightarrow> (act_ptr \<Rightarrow> mo_param) \<Rightarrow> thread_lists \<Rightarrow> sc_result \<Rightarrow> fix_type \<Rightarrow> scfence \<Rightarrow> (bool \<times> scfence) option" where
  "addFixes s orig dup sr type sf =
     (if \<not> shouldFix (getCurInference sf) then Some (False, sf)
      else do {
        (added, sf) \<leftarrow> (case type of
            BUGGY_EXECUTION \<Rightarrow> addFixesBuggyExecution s orig dup sr sf
          | IMPLICIT_MO \<Rightarrow> addFixesImplicitMO s orig dup sr sf
          | NON_SC \<Rightarrow> addFixesNonSC s orig dup sr sf
          | DATA_RACE \<Rightarrow> addFixesDataRace s orig dup sr sf);
        Some (added, if added \<and> buggy (getCurInference sf) then upd_cur (\<lambda>i. i\<lparr>hasFixes := True\<rparr>) sf else sf)
      })"

definition restartModelChecker :: "scfence \<Rightarrow> scfence" where
  "restartModelChecker sf = sf\<lparr>sf_restart := True, sf_hasRestarted := True\<rparr>"

definition exitModelChecker :: "scfence \<Rightarrow> scfence" where
  "exitModelChecker sf = sf\<lparr>sf_exit := True\<rparr>"

text \<open>The current inference is settled; the search goes on with the next one or ends.\<close>

definition routineBacktrack :: "bool \<Rightarrow> scfence \<Rightarrow> (bool \<times> scfence) option" where
  "routineBacktrack feasible sf = do {
     let set = commitInference (sf_cur sf) feasible (sf_set sf);
     set \<leftarrow> (if feasible \<and> sf_weaken sf \<and> \<not> buggy (infers set (sf_cur sf))
            then addWeakerInference (sf_cur sf) set else Some set);
     let (n, set) = getNextInference set;
     let sf = sf\<lparr>sf_set := set\<rparr>;
     Some (case n of
         Some p \<Rightarrow> (True, restartModelChecker (sf\<lparr>sf_cur := p\<rparr>))
       | None \<Rightarrow> (False, exitModelChecker sf))
   }"

definition routineAfterAddFixes :: "scfence \<Rightarrow> scfence option" where
  "routineAfterAddFixes sf = (
     let (n, set) = getNextInference (sf_set sf); sf = sf\<lparr>sf_set := set\<rparr>
     in case n of
          Some p \<Rightarrow> Some (restartModelChecker (sf\<lparr>sf_cur := p\<rparr>))
        | None \<Rightarrow> map_option snd (routineBacktrack False sf))"

text \<open>The analysis of one execution with the result of the order generator.\<close>

definition analyze_order ::
  "execution \<Rightarrow> (act_ptr \<Rightarrow> mo_param) \<Rightarrow> thread_lists \<Rightarrow> sc_result \<Rightarrow> scfence \<Rightarrow> scfence option" where
  "analyze_order s orig dup sr sf =
     (if sr_cyclic sr
      then do {
        (added, sf) \<leftarrow> addFixes s orig dup sr NON_SC sf;
        if added then routineAfterAddFixes sf else map_option snd (routineBacktrack False sf)
      }
      else do {
        stuck \<leftarrow> (if sf_inferImplicitMO sf \<and> too_many_steps s
                 then map_option Not (is_complete_execution s) else Some False);
        (added, sf) \<leftarrow> addFixes s orig dup sr (if stuck then IMPLICIT_MO else DATA_RACE) sf;
        if added then routineAfterAddFixes sf else Some sf
      })"

text \<open>\<open>timed_out\<close> is the answer of the clock when a timeout is set.\<close>

definition scfence_analyze ::
  "execution \<Rightarrow> (act_ptr \<Rightarrow> mo_param) \<Rightarrow> act_ptr list \<Rightarrow> bool \<Rightarrow> sc_generator \<Rightarrow> scfence \<Rightarrow> scfence option" where
  "scfence_analyze s orig actions timed_out g sf =
     (if timed_out then map_option snd (routineBacktrack False sf)
      else do {
        let sf = (if have_bug_reports s then upd_cur (\<lambda>i. i\<lparr>buggy := True\<rparr>) sf else sf);
        (list, g) \<leftarrow> getSCList s actions g;
        analyze_order s orig (dup_threadlists g)
          \<lparr>sr_list = list, sr_cyclic = getCyclic g, sr_badrf = (\<lambda>a. badrfset g a \<noteq> None),
           sr_annotated = annotatedReadSet g\<rparr> sf
      })"

text \<open>After all executions of an inference: it is a result, unless the search was ended.\<close>

definition actionAtModelCheckingFinish :: "scfence \<Rightarrow> scfence option" where
  "actionAtModelCheckingFinish sf =
     (if sf_exit sf then Some sf else map_option snd (routineBacktrack True sf))"

text \<open>The order an action is executed with.\<close>

definition inspectModelAction :: "mo_param \<Rightarrow> scfence \<Rightarrow> (mo_param \<times> scfence) option" where
  "inspectModelAction mo sf = (case mo of
     Order m \<Rightarrow> Some (mo, sf)
   | memory_order_normal \<Rightarrow> Some (relaxed, sf)
   | _ \<Rightarrow> do {
       (ord, i) \<leftarrow> wildcard_order mo (getCurInference sf);
       if ord = WILDCARD_NONEXIST
       then do {
         i \<leftarrow> set_order_at (nat (get_wildcard_id mo)) relaxed i;
         Some (relaxed, upd_cur (\<lambda>_. i) sf)
       }
       else Some (ord, upd_cur (\<lambda>_. i) sf)
     })"

end
