(* ===== verification/Fence_Search.thy ===== *)
theory Fence_Search
  imports Fence_Fixes
begin

text \<open>
  Properties of the fence plugin as a whole: the search for data races agrees with the definition of
  a race, the fixes for a race have no effect on the search, and backtracking always goes on with an
  inference that is still open or ends with none left.
\<close>

subsection \<open>Lists\<close>

lemma sorted_wrt_filter_iff: "sorted_wrt R (filter P xs) \<longleftrightarrow> sorted_wrt (\<lambda>a b. P a \<and> P b \<longrightarrow> R a b) xs"
  by (induction xs) auto

lemma filter_split_Cons: "filter P xs = b # r \<Longrightarrow> \<exists>q vs. xs = q @ b # vs \<and> filter P vs = r"
  by (auto simp: filter_eq_Cons_iff)

lemma filter_split_at: "filter P xs = p @ b # r \<Longrightarrow> \<exists>q vs. xs = q @ b # vs \<and> filter P vs = r"
proof (induction p arbitrary: xs)
  case Nil
  then show ?case using filter_split_Cons by simp
next
  case (Cons c p)
  then obtain us vs where v: "xs = us @ c # vs" "filter P vs = p @ b # r"
    using filter_split_Cons [of P xs c "p @ b # r"] by auto
  from Cons.IH [OF v(2)] obtain q ws where "vs = q @ b # ws" "filter P ws = r" by blast
  with v(1) have "xs = (us @ c # q) @ b # ws \<and> filter P ws = r" by simp
  then show ?case by blast
qed

lemma filter_split:
  assumes "filter P xs = p @ a # q @ b # r"
  shows "\<exists>p q r. xs = p @ a # q @ b # r"
proof -
  from filter_split_at [OF assms] obtain us vs where x: "xs = us @ a # vs" "filter P vs = q @ b # r" by blast
  from filter_split_at [OF x(2)] obtain us2 vs2 where "vs = us2 @ b # vs2" by blast
  with x(1) show ?thesis by blast
qed

lemma all_sorted_wrt:
  "(\<forall>l. sorted_wrt (R l) xs) \<longleftrightarrow> sorted_wrt (\<lambda>a b. \<forall>l. R l a b) xs"
  by (induction xs) auto

subsection \<open>Data races\<close>

text \<open>Two plain accesses to a location, in the order of the list, that happens-before does not order.\<close>

definition races_with :: "execution \<Rightarrow> (act_ptr \<Rightarrow> mo_param) \<Rightarrow> act_ptr \<Rightarrow> act_ptr \<Rightarrow> bool" where
  "races_with s orig a b \<longleftrightarrow> orig a = memory_order_normal \<and> orig b = memory_order_normal \<and>
     ma_location (ex_acts s a) = ma_location (ex_acts s b) \<and>
     \<not> happens_before (ex_acts s a) (ex_acts s b) \<and> \<not> happens_before (ex_acts s b) (ex_acts s a)"

abbreviation plain_at :: "execution \<Rightarrow> (act_ptr \<Rightarrow> mo_param) \<Rightarrow> loc \<Rightarrow> act_ptr list \<Rightarrow> act_ptr list" where
  "plain_at s orig l xs \<equiv> filter (\<lambda>a. orig a = memory_order_normal \<and> ma_location (ex_acts s a) = l) xs"

definition groups_ok :: "execution \<Rightarrow> (act_ptr \<Rightarrow> mo_param) \<Rightarrow> act_ptr list \<Rightarrow> act_ptr list list \<Rightarrow> bool" where
  "groups_ok s orig xs gs \<longleftrightarrow> (\<forall>g\<in>set gs. g \<noteq> [] \<and> g = plain_at s orig (ma_location (ex_acts s (hd g))) xs) \<and>
     (\<forall>a\<in>set xs. orig a = memory_order_normal \<longrightarrow> (\<exists>g\<in>set gs. ma_location (ex_acts s (hd g)) = ma_location (ex_acts s a)))"

lemma add_plain_groups:
  assumes "groups_ok s orig xs gs"
  shows "groups_ok s orig (xs @ [a]) (add_plain s orig a gs)"
proof (cases "orig a = memory_order_normal")
  case False
  with assms show ?thesis by (simp add: add_plain_def groups_ok_def Let_def)
next
  case True
  let ?l = "ma_location (ex_acts s a)"
  let ?same = "\<lambda>g. ma_location (ex_acts s (hd g)) = ?l"
  have good: "g \<noteq> []" "g = plain_at s orig (ma_location (ex_acts s (hd g))) xs" if "g \<in> set gs" for g
    using assms that by (auto simp: groups_ok_def)
  show ?thesis
  proof (cases "list_ex ?same gs")
    case ex: True
    have "add_plain s orig a gs = map (\<lambda>g. if ?same g then g @ [a] else g) gs"
      using True ex by (simp add: add_plain_def Let_def)
    moreover have "(if ?same g then g @ [a] else g) \<noteq> [] \<and>
      hd (if ?same g then g @ [a] else g) = hd g \<and>
      (if ?same g then g @ [a] else g) = plain_at s orig (ma_location (ex_acts s (hd g))) (xs @ [a])" if "g \<in> set gs" for g
      using good [OF that] True by (cases "?same g") auto
    ultimately show ?thesis using assms ex unfolding groups_ok_def
      by (auto simp: list_ex_iff)
  next
    case False
    then have new: "plain_at s orig ?l xs = []"
      using assms True by (auto simp: groups_ok_def list_ex_iff filter_empty_conv)
    have "add_plain s orig a gs = gs @ [[a]]" using True False by (simp add: add_plain_def Let_def)
    then show ?thesis using assms False new True
      by (auto simp: groups_ok_def list_ex_iff)
  qed
qed

lemma plain_by_location_groups: "groups_ok s orig xs (plain_by_location s orig xs)"
  by (induction xs rule: rev_induct)
    (simp_all add: plain_by_location_def groups_ok_def [of s orig "[]"] add_plain_groups)

lemma first_unordered_spec:
  "case first_unordered s xs of
     None \<Rightarrow> sorted_wrt (\<lambda>a b. happens_before (ex_acts s a) (ex_acts s b) \<or> happens_before (ex_acts s b) (ex_acts s a)) xs
   | Some (a, b) \<Rightarrow> \<exists>p q r. xs = p @ a # q @ b # r \<and>
       \<not> happens_before (ex_acts s a) (ex_acts s b) \<and> \<not> happens_before (ex_acts s b) (ex_acts s a)"
proof (induction s xs rule: first_unordered.induct)
  case (2 s a as)
  let ?u = "\<lambda>b. \<not> happens_before (ex_acts s a) (ex_acts s b) \<and> \<not> happens_before (ex_acts s b) (ex_acts s a)"
  show ?case
  proof (cases "filter ?u as")
    case Nil
    then have a: "\<forall>b\<in>set as. happens_before (ex_acts s a) (ex_acts s b) \<or> happens_before (ex_acts s b) (ex_acts s a)"
      by (auto simp: filter_empty_conv)
    show ?thesis
    proof (cases "first_unordered s as")
      case None
      with 2 [OF Nil] Nil a show ?thesis by simp
    next
      case (Some ab)
      obtain x y where ab: "ab = (x, y)" by (cases ab)
      from 2 [OF Nil] Some ab obtain p q r where "as = p @ x # q @ y # r"
        "\<not> happens_before (ex_acts s x) (ex_acts s y)" "\<not> happens_before (ex_acts s y) (ex_acts s x)" by auto
      moreover have "first_unordered s (a # as) = Some (x, y)" using Nil Some ab by simp
      ultimately show ?thesis by (simp del: first_unordered.simps) (metis append_Cons)
    qed
  next
    case (Cons b bs)
    then have "b \<in> set (filter ?u as)" by simp
    then have b: "?u b" "b \<in> set as" by auto
    from split_list [OF b(2)] obtain q r where "as = q @ b # r" by blast
    then have "a # as = [] @ a # q @ b # r" by simp
    moreover have "first_unordered s (a # as) = Some (a, b)" using Cons by simp
    ultimately show ?thesis using b(1) by (simp del: first_unordered.simps) blast
  qed
qed simp

lemma first_race_None: "first_race s gs = None \<longleftrightarrow> (\<forall>g\<in>set gs. first_unordered s g = None)"
  by (induction gs) (auto split: option.splits)

lemma first_race_Some: "first_race s gs = Some r \<Longrightarrow> \<exists>g\<in>set gs. first_unordered s g = Some r"
  by (induction gs) (auto split: option.splits)

lemma checkDataRace_None: "checkDataRace s orig xs = None \<longleftrightarrow> sorted_wrt (\<lambda>a b. \<not> races_with s orig a b) xs"
proof -
  let ?gs = "plain_by_location s orig xs"
  let ?R = "\<lambda>a b. happens_before (ex_acts s a) (ex_acts s b) \<or> happens_before (ex_acts s b) (ex_acts s a)"
  have ok: "groups_ok s orig xs ?gs" by (rule plain_by_location_groups)
  have unord: "first_unordered s g = None \<longleftrightarrow> sorted_wrt ?R g" for g
  proof (cases "first_unordered s g")
    case None
    with first_unordered_spec [of s g] show ?thesis by simp
  next
    case (Some ab)
    with first_unordered_spec [of s g] obtain p a q b r where "g = p @ a # q @ b # r" "\<not> ?R a b"
      by (cases ab) auto
    then have "\<not> sorted_wrt ?R g" by (auto simp: sorted_wrt_append)
    with Some show ?thesis by simp
  qed
  have group: "sorted_wrt ?R (plain_at s orig l xs) \<longleftrightarrow> sorted_wrt (\<lambda>a b. orig a = memory_order_normal \<and>
      ma_location (ex_acts s a) = l \<and> orig b = memory_order_normal \<and> ma_location (ex_acts s b) = l \<longrightarrow> ?R a b) xs" for l
    unfolding sorted_wrt_filter_iff by (simp add: conj_assoc)
  have "(\<forall>g\<in>set ?gs. sorted_wrt ?R g) \<longleftrightarrow> (\<forall>l. sorted_wrt ?R (plain_at s orig l xs))"
  proof
    assume sorted: "\<forall>g\<in>set ?gs. sorted_wrt ?R g"
    show "\<forall>l. sorted_wrt ?R (plain_at s orig l xs)"
    proof
      fix l
      show "sorted_wrt ?R (plain_at s orig l xs)"
      proof (cases "plain_at s orig l xs")
        case Nil
        then show ?thesis by simp
      next
        case (Cons a as)
        then have "a \<in> set (plain_at s orig l xs)" by simp
        then have "a \<in> set xs" "orig a = memory_order_normal" "ma_location (ex_acts s a) = l" by auto
        with ok obtain g where g: "g \<in> set ?gs" "ma_location (ex_acts s (hd g)) = l"
          "g = plain_at s orig (ma_location (ex_acts s (hd g))) xs"
          unfolding groups_ok_def by blast
        from bspec [OF sorted g(1)] show ?thesis by (subst (asm) g(3)) (simp only: g(2))
      qed
    qed
  next
    assume "\<forall>l. sorted_wrt ?R (plain_at s orig l xs)"
    then have all: "sorted_wrt ?R (plain_at s orig l xs)" for l by blast
    show "\<forall>g\<in>set ?gs. sorted_wrt ?R g"
    proof
      fix g
      assume "g \<in> set ?gs"
      with ok have "g = plain_at s orig (ma_location (ex_acts s (hd g))) xs" unfolding groups_ok_def by blast
      with all [of "ma_location (ex_acts s (hd g))"] show "sorted_wrt ?R g" by argo
    qed
  qed
  also have "\<dots> \<longleftrightarrow> sorted_wrt (\<lambda>a b. \<forall>l. orig a = memory_order_normal \<and>
      ma_location (ex_acts s a) = l \<and> orig b = memory_order_normal \<and> ma_location (ex_acts s b) = l \<longrightarrow> ?R a b) xs"
    unfolding group all_sorted_wrt ..
  also have "\<dots> \<longleftrightarrow> sorted_wrt (\<lambda>a b. \<not> races_with s orig a b) xs"
    by (rule arg_cong [where f = "\<lambda>R. sorted_wrt R xs"]) (auto simp: fun_eq_iff races_with_def)
  finally show ?thesis unfolding checkDataRace_def first_race_None unord .
qed

lemma checkDataRace_Some:
  assumes "checkDataRace s orig xs = Some (a, b)"
  shows "races_with s orig a b \<and> (\<exists>p q r. xs = p @ a # q @ b # r)"
proof -
  from assms obtain g where g: "g \<in> set (plain_by_location s orig xs)" "first_unordered s g = Some (a, b)"
    by (auto simp: checkDataRace_def dest!: first_race_Some)
  with first_unordered_spec [of s g] obtain p q r where split: "g = p @ a # q @ b # r"
    and u: "\<not> happens_before (ex_acts s a) (ex_acts s b)" "\<not> happens_before (ex_acts s b) (ex_acts s a)" by auto
  from plain_by_location_groups [of s orig xs] g(1)
  have f: "g = plain_at s orig (ma_location (ex_acts s (hd g))) xs" unfolding groups_ok_def by blast
  have "a \<in> set g" "b \<in> set g" by (simp_all add: split)
  then have "orig a = memory_order_normal" "orig b = memory_order_normal"
    "ma_location (ex_acts s a) = ma_location (ex_acts s b)"
    by (subst (asm) (1 2) f; simp)+
  moreover from f split have "plain_at s orig (ma_location (ex_acts s (hd g))) xs = p @ a # q @ b # r" by simp
  then have "\<exists>p q r. xs = p @ a # q @ b # r" by (rule filter_split)
  ultimately show ?thesis using u by (simp add: races_with_def)
qed

text \<open>
  The plugin finds a data race exactly when there is one: without an answer any two plain accesses
  of the trace to the same location are ordered by happens-before, and an answer names two plain
  accesses to one location in trace order that are not.
\<close>

theorem checkDataRace_decides:
  "case checkDataRace s orig xs of
     None \<Rightarrow> sorted_wrt (\<lambda>a b. \<not> races_with s orig a b) xs
   | Some (a, b) \<Rightarrow> races_with s orig a b \<and> (\<exists>p q r. xs = p @ a # q @ b # r)"
  using checkDataRace_None [of s orig xs] checkDataRace_Some [of s orig xs]
  by (cases "checkDataRace s orig xs") auto

subsection \<open>The search\<close>

definition same_search :: "scfence \<Rightarrow> scfence \<Rightarrow> bool" where
  "same_search sf sf' \<longleftrightarrow> sf_restart sf' = sf_restart sf \<and> sf_exit sf' = sf_exit sf \<and> sf_cur sf' = sf_cur sf"

lemma same_search_refl: "same_search sf sf"
  by (simp add: same_search_def)

lemma add_candidates_sf_frame: "same_search sf (snd (add_candidates_sf l sf))"
  by (simp add: same_search_def add_candidates_sf_def split_def Let_def)

lemma same_search_trans: "same_search a b \<Longrightarrow> same_search b c \<Longrightarrow> same_search a c"
  by (simp add: same_search_def)

lemma addFixesDataRace_frame:
  assumes "addFixesDataRace s orig dup sr sf = Some (added, sf')"
  shows "\<not> added \<and> same_search sf sf'"
proof (cases "checkDataRace s orig (sr_list sr)")
  case None
  with assms show ?thesis by (auto simp: addFixesDataRace_def same_search_refl)
next
  case (Some r)
  obtain a b where r: "r = (a, b)" by (cases r)
  from assms Some show ?thesis
    unfolding addFixesDataRace_def r Let_def split_def
    by (auto simp: bind_eq_Some_conv same_search_refl split: if_splits
        intro: add_candidates_sf_frame same_search_trans)
qed

text \<open>
  C40: The fixes for a data race are never acted upon: although new inferences may have been added to
  the set, \<open>addFixes\<close> answers that there is none, and the analysis of an execution that is otherwise
  sequentially consistent neither restarts nor ends the search nor moves to another inference.
\<close>

theorem data_race_fixes_ignored:
  assumes "analyze_order s orig dup sr sf = Some sf'"
    and "\<not> sr_cyclic sr" "\<not> sf_inferImplicitMO sf"
  shows "same_search sf sf'"
proof -
  from assms obtain added sf1 where 1: "addFixes s orig dup sr DATA_RACE sf = Some (added, sf1)"
    and 2: "(if added then routineAfterAddFixes sf1 else Some sf1) = Some sf'"
    by (auto simp: analyze_order_def bind_eq_Some_conv)
  from 1 have "\<not> added \<and> same_search sf sf1"
    by (auto simp: addFixes_def bind_eq_Some_conv same_search_refl split: if_splits dest!: addFixesDataRace_frame)
  with 2 show ?thesis by auto
qed

text \<open>Message passing of plain data with two wildcards: the race between the data accesses.\<close>

definition racy_passing :: execution where
  "racy_passing = sample_execution
     \<lparr>ex_acts := (\<lambda>p. if p = 0 then sample_action THREAD_START 1 1
                     else if p = 1 then sample_action ATOMIC_WRITE 1 2
                     else if p = 2 then (sample_action ATOMIC_WRITE 1 3)\<lparr>ma_location := 24\<rparr>
                     else if p = 3 then (sample_action ATOMIC_READ 2 4)\<lparr>ma_location := 24, ma_reads_from := Some 2\<rparr>
                     else if p = 4 then (sample_action ATOMIC_READ 2 5)\<lparr>ma_reads_from := Some 1\<rparr>
                     else sample_action THREAD_FINISH 2 6)\<rparr>"

definition racy_orders :: "act_ptr \<Rightarrow> mo_param" where
  "racy_orders a = (if a = 2 then Wildcard 1 else if a = 3 then Wildcard 2
     else if a = 1 \<or> a = 4 then memory_order_normal else seqcst)"

definition fresh_scfence :: scfence where
  "fresh_scfence = \<lparr>sf_set = \<lparr>infers = (\<lambda>_. (new_inference 0)\<lparr>leaf := True\<rparr>), next_infer = 1, discoveredSet = [0], results = [],
       candidates = [], notAddedAtFirstPlace = 0\<rparr>, sf_cur = 0, sf_weaken = False, sf_inferImplicitMO = False,
     sf_implicitMOReadBound = 5, sf_hasRestarted = False, sf_restart = False, sf_exit = False\<rparr>"

definition racy_result :: sc_result where
  "racy_result = \<lparr>sr_list = [0, 1, 2, 3, 4, 5], sr_cyclic = False, sr_badrf = (\<lambda>_. False), sr_annotated = (\<lambda>_. False)\<rparr>"

theorem data_race_fixes_ignored_witness:
  "checkDataRace racy_passing racy_orders [0, 1, 2, 3, 4, 5] = Some (1, 4) \<and>
   (\<exists>sf'. analyze_order racy_passing racy_orders [[], [0, 1, 2], [3, 4, 5]] racy_result fresh_scfence = Some sf' \<and>
      candidates (sf_set sf') = [0, 1] \<and>
      orders (infers (sf_set sf') 1) = [WILDCARD_NONEXIST, release, acquire, WILDCARD_NONEXIST, WILDCARD_NONEXIST] \<and>
      \<not> sf_restart sf' \<and> \<not> sf_exit sf')"
proof -
  let ?r = "analyze_order racy_passing racy_orders [[], [0, 1, 2], [3, 4, 5]] racy_result fresh_scfence"
  have "map_option (\<lambda>sf. (candidates (sf_set sf), orders (infers (sf_set sf) 1))) ?r =
      Some ([0, 1], [WILDCARD_NONEXIST, release, acquire, WILDCARD_NONEXIST, WILDCARD_NONEXIST])"
    by code_simp
  then obtain sf' where sf': "?r = Some sf'" "candidates (sf_set sf') = [0, 1]"
    "orders (infers (sf_set sf') 1) = [WILDCARD_NONEXIST, release, acquire, WILDCARD_NONEXIST, WILDCARD_NONEXIST]"
    by auto
  have "\<not> sr_cyclic racy_result" "\<not> sf_inferImplicitMO fresh_scfence"
    by (simp_all add: racy_result_def fresh_scfence_def)
  from data_race_fixes_ignored [OF sf'(1) this] have "\<not> sf_restart sf' \<and> \<not> sf_exit sf'"
    by (simp add: same_search_def fresh_scfence_def)
  moreover have "checkDataRace racy_passing racy_orders [0, 1, 2, 3, 4, 5] = Some (1, 4)" by code_simp
  ultimately show ?thesis using sf' by blast
qed

text \<open>
  Backtracking settles the current inference and goes on: it restarts the checker with a leaf that
  is still to be explored, or ends the search when no candidate is left, and never does both.
\<close>

theorem routineBacktrack_goes_on:
  assumes "routineBacktrack feasible sf = Some (found, sf')"
  shows "if found then sf_restart sf' \<and> sf_hasRestarted sf' \<and> sf_exit sf' = sf_exit sf \<and>
      leaf (getCurInference sf') \<and> \<not> settled (sf_set sf') (sf_cur sf')
    else sf_exit sf' \<and> sf_restart sf' = sf_restart sf \<and> sf_cur sf' = sf_cur sf \<and> candidates (sf_set sf') = []"
proof -
  from assms obtain st where "(case getNextInference st of (n, st') \<Rightarrow>
      (case n of Some p \<Rightarrow> (True, restartModelChecker (sf\<lparr>sf_set := st', sf_cur := p\<rparr>))
      | None \<Rightarrow> (False, exitModelChecker (sf\<lparr>sf_set := st'\<rparr>)))) = (found, sf')"
    unfolding routineBacktrack_def Let_def split_def by (auto simp: bind_eq_Some_conv)
  then obtain n st' where nxt: "next_loop (rev (candidates st)) st = (n, st')"
    and sf': "(case n of Some p \<Rightarrow> (True, restartModelChecker (sf\<lparr>sf_set := st', sf_cur := p\<rparr>))
       | None \<Rightarrow> (False, exitModelChecker (sf\<lparr>sf_set := st'\<rparr>))) = (found, sf')"
    by (cases "getNextInference st") (auto simp: getNextInference_def)
  from next_loop_spec [OF nxt] sf' show ?thesis
    by (cases n) (auto simp: restartModelChecker_def exitModelChecker_def getCurInference_def)
qed

theorem routineBacktrack_goes_on_witness:
  "(\<exists>sf'. routineBacktrack False (fresh_scfence\<lparr>sf_set := sample_set, sf_cur := 1\<rparr>) = Some (True, sf') \<and>
      sf_restart sf' \<and> sf_cur sf' = 2) \<and>
   (\<exists>sf'. routineBacktrack True fresh_scfence = Some (False, sf') \<and> sf_exit sf' \<and> candidates (sf_set sf') = [])"
proof
  let ?sf = "fresh_scfence\<lparr>sf_set := sample_set, sf_cur := 1\<rparr>"
  have "map_option (\<lambda>(b, sf). (b, sf_cur sf)) (routineBacktrack False ?sf) = Some (True, 2)" by code_simp
  then obtain sf' where sf': "routineBacktrack False ?sf = Some (True, sf')" "sf_cur sf' = 2" by auto
  from routineBacktrack_goes_on [OF sf'(1)] sf' show "\<exists>sf'. routineBacktrack False ?sf = Some (True, sf') \<and>
      sf_restart sf' \<and> sf_cur sf' = 2" by simp
next
  have "map_option fst (routineBacktrack True fresh_scfence) = Some False" by code_simp
  then obtain sf' where sf': "routineBacktrack True fresh_scfence = Some (False, sf')" by auto
  from routineBacktrack_goes_on [OF sf'] sf' show "\<exists>sf'. routineBacktrack True fresh_scfence = Some (False, sf') \<and>
      sf_exit sf' \<and> candidates (sf_set sf') = []" by simp
qed

end
