(* ===== verification/Inference_File.thy ===== *)
theory Inference_File
  imports Inference_Set "HOL-Library.More_List"
begin

text \<open>
  The files of the fence plugin: \<open>SCFence::initializeByFile\<close> reads the inferences that
  \<open>InferenceList::print\<close> has written (\<open>scfence/scfence.cc\<close>, \<open>scfence/inferlist.cc\<close>, \<open>scfence/inference.cc\<close>).
  A file is a string; \<open>fscanf\<close> with \<open>%s\<close> and \<open>%d\<close> is written out, with the flag of \<open>feof\<close>.
\<close>

subsection \<open>Writing\<close>

text \<open>\<open>printf\<close> with \<open>%d\<close>, for a number that is not negative.\<close>

fun decimal :: "nat \<Rightarrow> string" where
  "decimal n = (if n < 10 then [char_of (48 + n)] else decimal (n div 10) @ [char_of (48 + n mod 10)])"

declare decimal.simps [simp del]

fun mo_str :: "mo_param \<Rightarrow> string" where
  "mo_str (Order memory_order_relaxed) = ''relaxed''"
| "mo_str (Order memory_order_acquire) = ''acquire''"
| "mo_str (Order memory_order_release) = ''release''"
| "mo_str (Order memory_order_acq_rel) = ''acq_rel''"
| "mo_str (Order memory_order_seq_cst) = ''seq_cst''"
| "mo_str _ = ''unknown''"

definition newline :: string where
  "newline = [CHR 0x0A]"

definition print_entry :: "nat \<Rightarrow> mo_param \<Rightarrow> string" where
  "print_entry k mo =
     (if mo \<noteq> WILDCARD_NONEXIST then ''wildcard '' @ decimal k @ '' -> memory_order_'' @ mo_str mo @ newline else [])"

definition print_inference :: "inference \<Rightarrow> string" where
  "print_inference i = concat (map (\<lambda>k. print_entry k (orders i ! k)) [1..<inf_size i + 1])"

definition print_inferences :: "string \<Rightarrow> inference list \<Rightarrow> string" where
  "print_inferences msg is = concat (map (\<lambda>(k, i). msg @ '' '' @ decimal k @ '':'' @ newline @ print_inference i @ newline)
     (zip [0..<length is] is))"

subsection \<open>Scanning\<close>

record reader =
  r_input :: string
  r_eof :: bool
  r_str :: string
  r_num :: int
  r_mo :: mo_param

definition is_space :: "char \<Rightarrow> bool" where
  "is_space c \<longleftrightarrow> of_char c = (32 :: nat) \<or> (9 \<le> (of_char c :: nat) \<and> (of_char c :: nat) \<le> 13)"

definition is_digit :: "char \<Rightarrow> bool" where
  "is_digit c \<longleftrightarrow> 48 \<le> (of_char c :: nat) \<and> (of_char c :: nat) \<le> 57"

definition digits_value :: "string \<Rightarrow> nat" where
  "digits_value ds = fold (\<lambda>c v. 10 * v + (of_char c - 48)) ds 0"

text \<open>\<open>fscanf (fp, "%s", str)\<close>; the buffer \<open>str\<close> has 31 bytes.\<close>

definition scan_s :: "reader \<Rightarrow> reader option" where
  "scan_s r = (let s = dropWhile is_space (r_input r) in
     if s = [] then Some (r\<lparr>r_input := [], r_eof := True\<rparr>)
     else do {
       ASSERT (length (takeWhile (\<lambda>c. \<not> is_space c) s) \<le> 30);
       Some (r\<lparr>r_input := dropWhile (\<lambda>c. \<not> is_space c) s, r_eof := (dropWhile (\<lambda>c. \<not> is_space c) s = []),
         r_str := takeWhile (\<lambda>c. \<not> is_space c) s\<rparr>)
     })"

text \<open>\<open>fscanf (fp, "%d", &curNum)\<close>: without a digit the number stays as it is.\<close>

definition scan_d :: "reader \<Rightarrow> reader option" where
  "scan_d r = (let s = dropWhile is_space (r_input r) in
     if s = [] then Some (r\<lparr>r_input := [], r_eof := True\<rparr>)
     else
       (let neg = (hd s = CHR ''-'');
            t = (if neg \<or> hd s = CHR ''+'' then tl s else s);
            ds = takeWhile is_digit t
        in if ds = [] then Some (r\<lparr>r_input := t, r_eof := (t = [])\<rparr>)
           else do {
             ASSERT (int (digits_value ds) < 2 ^ 31);
             Some (r\<lparr>r_input := dropWhile is_digit t, r_eof := (dropWhile is_digit t = []),
               r_num := (if neg then - int (digits_value ds) else int (digits_value ds))\<rparr>)
           }))"

definition order_named :: "string \<Rightarrow> mo_param \<Rightarrow> mo_param" where
  "order_named str mo =
     (if str = ''memory_order_relaxed'' then relaxed
      else if str = ''memory_order_acquire'' then acquire
      else if str = ''memory_order_release'' then release
      else if str = ''memory_order_acq_rel'' then acqrel
      else if str = ''memory_order_seq_cst'' then seqcst
      else mo)"

subsection \<open>Reading\<close>

text \<open>
  One pass of the inner loop: true when it meets the next result. The results of the calls of \<open>fscanf\<close> are not
  looked at but for 0, which \<open>%s\<close> never gives: at the end of the file the old values are used again.
\<close>

definition read_line :: "reader \<Rightarrow> inference \<Rightarrow> (bool \<times> reader \<times> inference) option" where
  "read_line r i = do {
     r \<leftarrow> scan_s r;
     if r_str r = ''Result'' then Some (True, r, i)
     else do {
       r \<leftarrow> scan_d r;
       r \<leftarrow> scan_s r;
       r \<leftarrow> scan_s r;
       let r = r\<lparr>r_mo := order_named (r_str r) (r_mo r)\<rparr>;
       i \<leftarrow> set_order_at (nat (r_num r)) (r_mo r) i;
       Some (False, r, i)
     }
   }"

definition left_to_read :: "reader \<Rightarrow> nat" where
  "left_to_read r = length (r_input r) + (if r_eof r then 0 else 1)"

definition reader_ok :: "reader \<Rightarrow> bool" where
  "reader_ok r \<longleftrightarrow> (r_eof r \<longrightarrow> r_input r = [])"

lemma scan_s_le:
  assumes "scan_s r = Some r'"
  shows "reader_ok r'" "left_to_read r' \<le> left_to_read r \<or> \<not> reader_ok r"
    and "\<not> r_eof r \<Longrightarrow> left_to_read r' < left_to_read r"
proof -
  let ?s = "dropWhile is_space (r_input r)"
  have s: "length ?s \<le> length (r_input r)" by (rule length_dropWhile_le)
  have d: "length (dropWhile (\<lambda>c. \<not> is_space c) ?s) < length ?s" if "?s \<noteq> []"
  proof -
    from that obtain c t where t: "?s = c # t" by (cases ?s) auto
    then have "is_space c = False" using hd_dropWhile [of is_space "r_input r"] by auto
    with t show ?thesis by (simp add: le_imp_less_Suc length_dropWhile_le)
  qed
  show "reader_ok r'" using assms by (auto simp: scan_s_def reader_ok_def Let_def bind_eq_Some_conv split: if_splits)
  show "\<not> r_eof r \<Longrightarrow> left_to_read r' < left_to_read r"
    using assms s d by (auto simp: scan_s_def left_to_read_def Let_def bind_eq_Some_conv split: if_splits)
  show "left_to_read r' \<le> left_to_read r \<or> \<not> reader_ok r"
    using assms s d by (auto simp: scan_s_def left_to_read_def reader_ok_def Let_def bind_eq_Some_conv split: if_splits)
qed

lemma scan_d_le:
  assumes "scan_d r = Some r'"
  shows "reader_ok r'" "left_to_read r' \<le> left_to_read r \<or> \<not> reader_ok r"
proof -
  let ?s = "dropWhile is_space (r_input r)" let ?t = "if hd ?s = CHR ''-'' \<or> hd ?s = CHR ''+'' then tl ?s else ?s"
  have s: "length ?s \<le> length (r_input r)" by (rule length_dropWhile_le)
  have t: "length ?t \<le> length ?s" by simp
  have d: "length (dropWhile is_digit ?t) \<le> length ?t" by (rule length_dropWhile_le)
  from assms have r': "reader_ok r' \<and> (r_eof r' \<longleftrightarrow> r_input r' = []) \<and> length (r_input r') \<le> length (r_input r)"
  proof (cases "?s = []")
    case False
    with assms s t d show ?thesis
      by (auto simp: scan_d_def reader_ok_def Let_def bind_eq_Some_conv split: if_splits)
  qed (auto simp: scan_d_def reader_ok_def)
  then show "reader_ok r'" "left_to_read r' \<le> left_to_read r \<or> \<not> reader_ok r"
    by (auto simp: left_to_read_def reader_ok_def)
qed

lemma read_line_less:
  assumes "read_line r i = Some (b, r', i')" "\<not> r_eof r"
  shows "left_to_read r' < left_to_read r"
proof -
  from assms(1) obtain r1 where r1: "scan_s r = Some r1" and rest: "r' = r1 \<or> (\<exists>r2 r3 r4. scan_d r1 = Some r2 \<and>
      scan_s r2 = Some r3 \<and> scan_s r3 = Some r4 \<and> r' = r4\<lparr>r_mo := order_named (r_str r4) (r_mo r4)\<rparr>)"
    by (auto simp: read_line_def bind_eq_Some_conv Let_def split: if_splits)
  have less: "left_to_read r1 < left_to_read r" and ok: "reader_ok r1" using scan_s_le [OF r1] assms(2) by auto
  from rest show ?thesis
  proof
    assume "\<exists>r2 r3 r4. scan_d r1 = Some r2 \<and> scan_s r2 = Some r3 \<and> scan_s r3 = Some r4 \<and>
      r' = r4\<lparr>r_mo := order_named (r_str r4) (r_mo r4)\<rparr>"
    then obtain r2 r3 r4 where r: "scan_d r1 = Some r2" "scan_s r2 = Some r3" "scan_s r3 = Some r4"
      "r' = r4\<lparr>r_mo := order_named (r_str r4) (r_mo r4)\<rparr>" by blast
    have "left_to_read r' = left_to_read r4" using r(4) by (simp add: left_to_read_def)
    with scan_d_le [OF r(1)] scan_s_le [OF r(2)] scan_s_le [OF r(3)] ok less show ?thesis by linarith
  qed (use less in simp)
qed

text \<open>The inner loop; the result says whether the next result has begun.\<close>

function read_lines :: "reader \<Rightarrow> inference \<Rightarrow> (bool \<times> reader \<times> inference) option" where
  "read_lines r i =
     (if r_eof r then Some (False, r, i)
      else (case read_line r i of
              None \<Rightarrow> None
            | Some (found, r', i') \<Rightarrow> if found then Some (True, r', i') else read_lines r' i'))"
  by pat_completeness auto
termination
  by (relation "measure (\<lambda>(r, i). left_to_read r)") (auto dest: read_line_less)

declare read_lines.simps [simp del]

lemma read_lines_le:
  "\<lbrakk>read_lines r i = Some (b, r', i'); \<not> r_eof r\<rbrakk> \<Longrightarrow> left_to_read r' < left_to_read r"
proof (induction r i arbitrary: b r' i' rule: read_lines.induct)
  case (1 r i)
  from 1(2) 1(3) obtain found r1 i1 where l: "read_line r i = Some (found, r1, i1)"
    and n: "if found then r' = r1 else read_lines r1 i1 = Some (b, r', i')"
    by (subst (asm) read_lines.simps) (auto split: option.splits if_splits)
  have less: "left_to_read r1 < left_to_read r" by (rule read_line_less [OF l 1(3)])
  show ?case
  proof (cases "found \<or> r_eof r1")
    case True
    with n less show ?thesis by (cases found) (auto simp: read_lines.simps [of r1])
  next
    case False
    with 1(1) [OF 1(3) l] n less show ?thesis by force
  qed
qed

text \<open>
  The outer loop: \<open>processing\<close> says that the word \<open>Result\<close> has been read. The number of the result is read as a
  word and dropped; an inference that is already known is deleted.
\<close>

definition read_result :: "reader \<Rightarrow> inference_set \<Rightarrow> (bool \<times> reader \<times> inference_set) option" where
  "read_result r st = do {
     r \<leftarrow> scan_s r;
     (found, r, i) \<leftarrow> read_lines r (new_inference (next_infer st));
     Some (found, r, snd (addInference i st))
   }"

definition read_word :: "bool \<Rightarrow> reader \<Rightarrow> reader option" where
  "read_word processing r = (if processing then Some r else scan_s r)"

definition read_round :: "bool \<Rightarrow> reader \<Rightarrow> inference_set \<Rightarrow> (bool \<times> reader \<times> inference_set) option" where
  "read_round processing r st = do {
     r \<leftarrow> read_word processing r;
     if r_str r = ''Result'' \<or> processing then read_result r st else Some (processing, r, st)
   }"

lemma read_round_less:
  assumes "read_round p r st = Some (p', r', st')" "\<not> r_eof r"
  shows "left_to_read r' < left_to_read r"
proof -
  from assms(1) obtain r1 where r1: "read_word p r = Some r1"
    and rest: "if r_str r1 = ''Result'' \<or> p then read_result r1 st = Some (p', r', st') else r' = r1"
    by (auto simp: read_round_def bind_eq_Some_conv split: if_splits)
  have w: "p \<and> r1 = r \<or> \<not> p \<and> reader_ok r1 \<and> left_to_read r1 < left_to_read r"
    using r1 scan_s_le [of r r1] assms(2) by (auto simp: read_word_def split: if_splits)
  show ?thesis
  proof (cases "r_str r1 = ''Result'' \<or> p")
    case True
    with rest obtain r2 i where r2: "scan_s r1 = Some r2" "read_lines r2 (new_inference (next_infer st)) = Some (p', r', i)"
      by (auto simp: read_result_def bind_eq_Some_conv)
    have two: "left_to_read r2 < left_to_read r"
    proof (cases p)
      case True
      with w assms(2) scan_s_le(3) [OF r2(1)] show ?thesis by auto
    next
      case False
      with w scan_s_le(2) [OF r2(1)] show ?thesis by auto
    qed
    show ?thesis
    proof (cases "r_eof r2")
      case True
      with r2(2) two show ?thesis by (simp add: read_lines.simps)
    next
      case False
      with read_lines_le [OF r2(2)] two show ?thesis by simp
    qed
  next
    case False
    with rest w show ?thesis by auto
  qed
qed

function read_results :: "bool \<Rightarrow> reader \<Rightarrow> inference_set \<Rightarrow> inference_set option" where
  "read_results processing r st =
     (if r_eof r then Some st
      else (case read_round processing r st of
              None \<Rightarrow> None
            | Some (processing', r', st') \<Rightarrow> read_results processing' r' st'))"
  by pat_completeness auto
termination
  by (relation "measure (\<lambda>(p, r, st). left_to_read r)") (auto dest: read_round_less)

declare read_results.simps [simp del]

text \<open>
  The local variables at the start: the buffer comes from \<open>malloc\<close> and holds anything (\<open>junk\<close>). At the end
  \<open>getNextInference\<close> gives the inference to start with.
\<close>

definition new_reader :: "string \<Rightarrow> string \<Rightarrow> reader" where
  "new_reader junk file = \<lparr>r_input = file, r_eof = False, r_str = junk, r_num = 0, r_mo = relaxed\<rparr>"

definition initializeByFile :: "string \<Rightarrow> string \<Rightarrow> inference_set \<Rightarrow> (infer_ptr option \<times> inference_set) option" where
  "initializeByFile junk file st = do {
     st \<leftarrow> read_results False (new_reader junk file) st;
     Some (getNextInference st)
   }"

subsection \<open>Numbers and words\<close>

lemma decimal_not_empty [simp]: "decimal n \<noteq> []"
  by (subst decimal.simps) simp

lemma decimal_digits: "c \<in> set (decimal n) \<Longrightarrow> is_digit c"
proof (induction n rule: decimal.induct)
  case (1 n)
  show ?case
  proof (cases "n < 10")
    case True
    with 1(2) show ?thesis by (subst (asm) decimal.simps) (auto simp: is_digit_def)
  next
    case False
    then have "decimal n = decimal (n div 10) @ [char_of (48 + n mod 10)]" by (subst decimal.simps) simp
    with 1(2) have "c \<in> set (decimal (n div 10)) \<or> c = char_of (48 + n mod 10)" by auto
    with 1(1) [OF False] show ?thesis by (auto simp: is_digit_def)
  qed
qed

lemma digits_value_decimal: "digits_value (decimal n) = n"
proof (induction n rule: decimal.induct)
  case (1 n)
  show ?case
  proof (cases "n < 10")
    case True
    then show ?thesis by (subst decimal.simps) (simp add: digits_value_def)
  next
    case False
    then have "decimal n = decimal (n div 10) @ [char_of (48 + n mod 10)]" by (subst decimal.simps) simp
    then have "digits_value (decimal n) = 10 * digits_value (decimal (n div 10)) + n mod 10"
      by (simp add: digits_value_def)
    with 1 [OF False] show ?thesis by simp
  qed
qed

lemma length_decimal: "n < 10 ^ Suc d \<Longrightarrow> length (decimal n) \<le> Suc d"
proof (induction d arbitrary: n)
  case 0
  then show ?case by (subst decimal.simps) simp
next
  case (Suc d)
  show ?case
  proof (cases "n < 10")
    case True
    then show ?thesis by (subst decimal.simps) simp
  next
    case False
    then have "length (decimal n) = Suc (length (decimal (n div 10)))" by (subst decimal.simps) simp
    moreover have "n div 10 < 10 ^ Suc d" using Suc.prems by (simp add: div_less_iff_less_mult mult.commute)
    ultimately show ?thesis using Suc.IH [of "n div 10"] by simp
  qed
qed

lemma digit_not_space: "is_digit c \<Longrightarrow> \<not> is_space c"
  by (auto simp: is_digit_def is_space_def)

lemma scan_s_word:
  assumes "r_input r = sp @ w @ c # rest" "list_all is_space sp" "list_all (\<lambda>c. \<not> is_space c) w" "w \<noteq> []"
    and "is_space c" "length w \<le> 30"
  shows "scan_s r = Some (r\<lparr>r_input := c # rest, r_eof := False, r_str := w\<rparr>)"
proof -
  obtain a w' where w: "w = a # w'" using assms(4) by (cases w) auto
  have "dropWhile is_space (sp @ w @ c # rest) = w @ c # rest"
    using assms(2,3) w by (induction sp) simp_all
  moreover have "takeWhile (\<lambda>c. \<not> is_space c) (w @ c # rest) = w" "dropWhile (\<lambda>c. \<not> is_space c) (w @ c # rest) = c # rest"
    using assms(3,5) by (simp_all add: takeWhile_append2 dropWhile_append2 list_all_iff)
  ultimately show ?thesis using assms by (simp add: scan_s_def Let_def)
qed

lemma scan_s_end:
  assumes "list_all is_space (r_input r)"
  shows "scan_s r = Some (r\<lparr>r_input := [], r_eof := True\<rparr>)"
proof -
  have "dropWhile is_space (r_input r) = []" using assms by (simp add: list_all_iff)
  then show ?thesis by (simp add: scan_s_def Let_def)
qed

lemma scan_d_end:
  assumes "list_all is_space (r_input r)"
  shows "scan_d r = Some (r\<lparr>r_input := [], r_eof := True\<rparr>)"
proof -
  have "dropWhile is_space (r_input r) = []" using assms by (simp add: list_all_iff)
  then show ?thesis by (simp add: scan_d_def Let_def)
qed

lemma scan_d_number:
  assumes "r_input r = sp @ decimal n @ c # rest" "list_all is_space sp" "\<not> is_digit c" "n < 2 ^ 31"
  shows "scan_d r = Some (r\<lparr>r_input := c # rest, r_eof := False, r_num := int n\<rparr>)"
proof -
  obtain a w where w: "decimal n = a # w" by (cases "decimal n") auto
  have digits: "list_all is_digit (decimal n)" using decimal_digits [of _ n] by (simp add: list_all_iff)
  have a: "is_digit a" using digits w by simp
  have sign: "a \<noteq> CHR ''-''" "a \<noteq> CHR ''+''" using a by (auto simp: is_digit_def)
  have drop: "dropWhile is_space (sp @ decimal n @ c # rest) = decimal n @ c # rest"
    using assms(2) digit_not_space [OF a] w by (induction sp) simp_all
  have "takeWhile is_digit (decimal n @ c # rest) = decimal n" "dropWhile is_digit (decimal n @ c # rest) = c # rest"
    using digits assms(3) by (simp_all add: takeWhile_append2 dropWhile_append2 list_all_iff)
  moreover have "hd (decimal n @ c # rest) = a" using w by simp
  moreover have "int n < 2 ^ 31" using assms(4) by (metis of_nat_less_iff of_nat_numeral of_nat_power)
  ultimately show ?thesis using sign drop assms(1)
    by (simp add: scan_d_def Let_def digits_value_decimal)
qed

subsection \<open>Reading the lines of an inference\<close>

definition print_line :: "nat \<times> mo_param \<Rightarrow> string" where
  "print_line = (\<lambda>(k, mo). ''wildcard '' @ decimal k @ '' -> memory_order_'' @ mo_str mo @ newline)"

definition is_order :: "mo_param \<Rightarrow> bool" where
  "is_order mo = (case mo of Order _ \<Rightarrow> True | _ \<Rightarrow> False)"

lemma is_orderE:
  assumes "is_order mo"
  obtains "mo = relaxed" | "mo = acquire" | "mo = release" | "mo = acqrel" | "mo = seqcst"
proof -
  obtain m where "mo = Order m" using assms by (cases mo) (auto simp: is_order_def)
  with that show ?thesis by (cases m) auto
qed

lemma order_word:
  assumes "is_order mo"
  shows "list_all (\<lambda>c. \<not> is_space c) (''memory_order_'' @ mo_str mo)" "length (''memory_order_'' @ mo_str mo) \<le> 30"
    "order_named (''memory_order_'' @ mo_str mo) mo' = mo" "''memory_order_'' @ mo_str mo \<noteq> ''Result''"
  by (rule is_orderE [OF assms]; simp add: is_space_def order_named_def)+

lemma read_line_entry:
  assumes "r_input r = sp @ print_line (k, mo) @ rest" "list_all is_space sp" "is_order mo" "k < 2 ^ 31"
    and "set_order_at k mo i = Some i'"
  shows "read_line r i = Some (False, \<lparr>r_input = newline @ rest, r_eof = False, r_str = ''memory_order_'' @ mo_str mo,
    r_num = int k, r_mo = mo\<rparr>, i')"
proof -
  let ?w = "''memory_order_'' @ mo_str mo"
  let ?t = "CHR 0x0A # rest" let ?u = "CHR '' '' # ''->'' @ CHR '' '' # ?w @ ?t"
  let ?r1 = "r\<lparr>r_input := CHR '' '' # decimal k @ ?u, r_eof := False, r_str := ''wildcard''\<rparr>"
  let ?r2 = "?r1\<lparr>r_input := ?u, r_eof := False, r_num := int k\<rparr>"
  let ?r3 = "?r2\<lparr>r_input := CHR '' '' # ?w @ ?t, r_eof := False, r_str := ''->''\<rparr>"
  let ?r4 = "?r3\<lparr>r_input := ?t, r_eof := False, r_str := ?w\<rparr>"
  have "scan_s r = Some ?r1"
    by (rule scan_s_word [of _ sp "''wildcard''" "CHR '' ''"]) (use assms in \<open>simp_all add: print_line_def newline_def is_space_def\<close>)
  moreover have "scan_d ?r1 = Some ?r2"
    by (rule scan_d_number [of _ "[CHR '' '']" k "CHR '' ''"]) (use assms in \<open>simp_all add: is_space_def is_digit_def\<close>)
  moreover have "scan_s ?r2 = Some ?r3"
    by (rule scan_s_word [of _ "[CHR '' '']" "''->''" "CHR '' ''"]) (simp_all add: is_space_def)
  moreover have "scan_s ?r3 = Some ?r4"
    by (rule scan_s_word [of _ "[CHR '' '']" ?w "CHR 0x0A"])
      (use order_word [OF assms(3)] in \<open>simp_all add: is_space_def\<close>)
  moreover have "''wildcard'' \<noteq> ''Result''" by simp
  ultimately show ?thesis using assms(5) order_word(3) [OF assms(3)]
    by (simp add: read_line_def Let_def newline_def)
qed

definition set_entries :: "(nat \<times> mo_param) list \<Rightarrow> inference \<Rightarrow> inference option" where
  "set_entries es i = for_each (\<lambda>(k, mo). set_order_at k mo) es i"

definition reader_after :: "nat \<times> mo_param \<Rightarrow> string \<Rightarrow> reader" where
  "reader_after e input = \<lparr>r_input = input, r_eof = False, r_str = ''memory_order_'' @ mo_str (snd e),
     r_num = int (fst e), r_mo = snd e\<rparr>"

lemma space_newline [simp]: "list_all is_space newline" "newline \<noteq> []"
  by (simp_all add: newline_def is_space_def)

lemma read_lines_entries:
  assumes "r_input r = sp @ concat (map print_line es) @ tail" "list_all is_space sp" "\<not> r_eof r"
    and "list_all (\<lambda>(k, mo). k < 2 ^ 31 \<and> is_order mo) es" "es \<noteq> []" "set_entries es i = Some i'"
  shows "read_lines r i = read_lines (reader_after (last es) (newline @ tail)) i'"
  using assms
proof (induction es arbitrary: r i sp)
  case (Cons e es)
  obtain k mo where e: "e = (k, mo)" by (cases e)
  from Cons.prems(6) e obtain i1 where i1: "set_order_at k mo i = Some i1" "set_entries es i1 = Some i'"
    by (auto simp: set_entries_def bind_eq_Some_conv)
  let ?r1 = "reader_after e (newline @ concat (map print_line es) @ tail)"
  have "read_line r i = Some (False, ?r1, i1)"
    unfolding reader_after_def e fst_conv snd_conv
    by (rule read_line_entry [of _ sp]) (use Cons.prems e i1 in simp_all)
  then have one: "read_lines r i = read_lines ?r1 i1" using Cons.prems(3) by (subst read_lines.simps) simp
  show ?case
  proof (cases "es = []")
    case True
    with one i1 show ?thesis by (simp add: set_entries_def)
  next
    case False
    have "read_lines ?r1 i1 = read_lines (reader_after (last es) (newline @ tail)) i'"
      by (rule Cons.IH [of _ newline]) (use Cons.prems(4) False i1 in \<open>simp_all add: reader_after_def\<close>)
    with one False show ?thesis by simp
  qed
qed simp

text \<open>What follows the lines: another result, or the end, where the last order is set once more.\<close>

lemma read_lines_next:
  assumes "r_input r = sp @ ''Result'' @ CHR '' '' # rest" "list_all is_space sp" "\<not> r_eof r"
  shows "read_lines r i = Some (True, r\<lparr>r_input := CHR '' '' # rest, r_str := ''Result''\<rparr>, i)"
proof -
  have "scan_s r = Some (r\<lparr>r_input := CHR '' '' # rest, r_eof := False, r_str := ''Result''\<rparr>)"
    by (rule scan_s_word [OF assms(1)]) (use assms in \<open>simp_all add: is_space_def\<close>)
  moreover have "r\<lparr>r_input := CHR '' '' # rest, r_eof := False, r_str := ''Result''\<rparr> = r\<lparr>r_input := CHR '' '' # rest, r_str := ''Result''\<rparr>"
    using assms(3) by (cases r) simp
  ultimately show ?thesis using assms(3) by (subst read_lines.simps) (simp add: read_line_def)
qed

lemma read_lines_last:
  assumes "list_all is_space sp" "is_order (snd e)" "set_order_at (fst e) (snd e) i = Some i"
  shows "\<exists>r'. read_lines (reader_after e sp) i = Some (False, r', i) \<and> r_eof r'"
proof -
  let ?r = "reader_after e sp" let ?r' = "?r\<lparr>r_input := [], r_eof := True\<rparr>"
  have "scan_s ?r = Some ?r'" by (rule scan_s_end) (use assms(1) in \<open>simp add: reader_after_def\<close>)
  moreover have "scan_d ?r' = Some ?r'" "scan_s ?r' = Some ?r'" using scan_d_end [of ?r'] scan_s_end [of ?r'] by simp_all
  moreover have "r_str ?r' = ''memory_order_'' @ mo_str (snd e)" "r_mo ?r' = snd e" "r_num ?r' = int (fst e)"
    by (simp_all add: reader_after_def)
  moreover have "?r'\<lparr>r_mo := snd e\<rparr> = ?r'" by (simp add: reader_after_def)
  moreover note order_word(3,4) [OF assms(2)]
  ultimately have "read_line ?r i = Some (False, ?r', i)" using assms(3) by (simp add: read_line_def Let_def)
  then have "read_lines ?r i = Some (False, ?r', i)"
    by (subst read_lines.simps) (simp add: reader_after_def read_lines.simps)
  then show ?thesis by simp
qed

subsection \<open>What is read back\<close>

text \<open>The order of a wildcard; a vector that is too short has none.\<close>

definition entry_of :: "mo_param list \<Rightarrow> nat \<Rightarrow> mo_param" where
  "entry_of os k = (if k < length os then os ! k else WILDCARD_NONEXIST)"

definition trimmed :: "mo_param list \<Rightarrow> mo_param list" where
  "trimmed os = map (entry_of os) [0..<max 5 (length (strip_while ((=) WILDCARD_NONEXIST) os))]"

lemma strip_while_bound: "length (strip_while P xs) \<le> length xs"
  using length_dropWhile_le [of P "rev xs"] by (simp add: strip_while_def)

lemma strip_while_reaches:
  "\<lbrakk>k < length xs; \<not> P (xs ! k)\<rbrakk> \<Longrightarrow> k < length (strip_while P xs)"
proof (induction xs rule: rev_induct)
  case (snoc x xs)
  then show ?case by (cases "k < length xs") (auto simp: nth_append less_Suc_eq)
qed simp

lemma trimmed_none: "trimmed (os @ [WILDCARD_NONEXIST]) = trimmed os"
proof -
  have "entry_of (os @ [WILDCARD_NONEXIST]) = entry_of os" by (auto simp: entry_of_def nth_append fun_eq_iff)
  then show ?thesis by (simp add: trimmed_def)
qed

lemma length_trimmed: "length (trimmed os) = max 5 (length (strip_while ((=) WILDCARD_NONEXIST) os))"
  by (simp add: trimmed_def)

lemma entry_beyond:
  assumes "\<not> j < length (trimmed os)"
  shows "entry_of os j = WILDCARD_NONEXIST"
proof (rule ccontr)
  assume no: "entry_of os j \<noteq> WILDCARD_NONEXIST"
  then have "j < length os" "WILDCARD_NONEXIST \<noteq> os ! j" by (auto simp: entry_of_def split: if_splits)
  with strip_while_reaches [of j os "(=) WILDCARD_NONEXIST"] assms show False by (simp add: length_trimmed)
qed

lemma entry_trimmed: "entry_of (trimmed os) k = entry_of os k"
  using entry_beyond [of k os] by (auto simp: entry_of_def [of "trimmed os"]) (simp add: trimmed_def)

lemma set_order_trimmed:
  assumes m: "m \<noteq> WILDCARD_NONEXIST" and k: "1 \<le> length os" "length os \<le> MAX_WILDCARD_NUM"
  shows "set_order_at (length os) m (i\<lparr>orders := trimmed os\<rparr>) = Some (i\<lparr>orders := trimmed (os @ [m])\<rparr>)"
proof -
  let ?k = "length os" and ?d = "WILDCARD_NONEXIST"
  have strip: "strip_while ((=) ?d) (os @ [m]) = os @ [m]" using m by (simp add: eq_commute)
  have len: "length (trimmed os) \<le> max 5 ?k" using strip_while_bound [of "(=) ?d" os] by (simp add: length_trimmed)
  have entry: "entry_of (os @ [m]) j = (if j = ?k then m else entry_of os j)" for j
    by (auto simp: entry_of_def nth_append)
  show ?thesis
  proof (cases "?k \<le> inf_size (i\<lparr>orders := trimmed os\<rparr>)")
    case True
    then have l: "?k < length (trimmed os)" using k(1) by (simp add: inf_size_def)
    then have "(trimmed os)[?k := m] = trimmed (os @ [m])"
      using len strip entry by (intro nth_equalityI) (auto simp: trimmed_def nth_list_update length_trimmed)
    moreover have "os \<noteq> []" using k(1) by auto
    ultimately show ?thesis using True k(1) by (simp add: set_order_at_def order_at_def)
  next
    case False
    moreover have "inf_size (i\<lparr>orders := trimmed os\<rparr>) = length (trimmed os) - 1" by (simp add: inf_size_def)
    ultimately have l: "length (trimmed os) \<le> ?k" by linarith
    have "(vec_grow (?k + 1) ?d (trimmed os))[?k := ?d, ?k := m] = trimmed (os @ [m])"
    proof (rule nth_equalityI)
      show "length ((vec_grow (?k + 1) ?d (trimmed os))[?k := ?d, ?k := m]) = length (trimmed (os @ [m]))"
        using l length_trimmed [of os] strip by (simp add: trimmed_def)
      fix j assume "j < length ((vec_grow (?k + 1) ?d (trimmed os))[?k := ?d, ?k := m])"
      then have j: "j < ?k + 1" using l by simp
      have "entry_of os j = ?d" if "\<not> j < length (trimmed os)" using entry_beyond that .
      with j l strip entry length_trimmed [of os] show "(vec_grow (?k + 1) ?d (trimmed os))[?k := ?d, ?k := m] ! j = trimmed (os @ [m]) ! j"
        by (auto simp: trimmed_def nth_vec_grow nth_list_update nth_append)
    qed
    moreover have "inf_size (i\<lparr>orders := trimmed os\<rparr>) < ?k" using False by simp
    ultimately show ?thesis using k by (simp add: set_order_at_def order_at_def resize_orders_def)
  qed
qed

lemma set_order_same:
  assumes "1 \<le> k" "k < length os" "os ! k \<noteq> WILDCARD_NONEXIST"
  shows "set_order_at k (os ! k) (i\<lparr>orders := trimmed os\<rparr>) = Some (i\<lparr>orders := trimmed os\<rparr>)"
proof -
  have k: "k < length (trimmed os)"
    using strip_while_reaches [of k os "(=) WILDCARD_NONEXIST"] assms by (simp add: length_trimmed eq_commute)
  then have "trimmed os ! k = os ! k" using assms(2) by (simp add: trimmed_def entry_of_def)
  then have "(trimmed os)[k := os ! k] = trimmed os" by (metis list_update_id)
  moreover have "k \<le> length (trimmed os) - 1" using k by linarith
  ultimately show ?thesis using assms(1) by (simp add: set_order_at_def order_at_def inf_size_def)
qed

text \<open>The lines that are printed.\<close>

definition met_entries :: "mo_param list \<Rightarrow> (nat \<times> mo_param) list" where
  "met_entries os = concat (map (\<lambda>k. if os ! k \<noteq> WILDCARD_NONEXIST then [(k, os ! k)] else []) [1..<length os])"

lemma print_met_entries:
  assumes "orders i \<noteq> []"
  shows "print_inference i = concat (map print_line (met_entries (orders i)))"
proof -
  have "inf_size i + 1 = length (orders i)" using assms by (cases "orders i") (simp_all add: inf_size_def)
  moreover have "concat (map (\<lambda>k. print_entry k (os ! k)) ks) =
      concat (map print_line (concat (map (\<lambda>k. if os ! k \<noteq> WILDCARD_NONEXIST then [(k, os ! k)] else []) ks)))" for os ks
    by (induction ks) (simp_all add: print_entry_def print_line_def)
  ultimately show ?thesis by (simp only: print_inference_def met_entries_def)
qed

lemma met_entries_snoc:
  assumes "os \<noteq> []"
  shows "met_entries (os @ [m]) = met_entries os @ (if m \<noteq> WILDCARD_NONEXIST then [(length os, m)] else [])"
proof -
  let ?f = "\<lambda>os k. if os ! k \<noteq> WILDCARD_NONEXIST then [(k, os ! k)] else []"
  have same: "map (?f (os @ [m])) [1..<length os] = map (?f os) [1..<length os]"
    by (rule map_cong) (auto simp: nth_append)
  have upt: "[1..<length (os @ [m])] = [1..<length os] @ [length os]" using assms by (cases os) simp_all
  have "met_entries (os @ [m]) = concat (map (?f (os @ [m])) [1..<length os]) @ ?f (os @ [m]) (length os)"
    unfolding met_entries_def upt by simp
  also have "\<dots> = met_entries os @ ?f (os @ [m]) (length os)" unfolding same met_entries_def ..
  finally show ?thesis by simp
qed

lemma set_met_entries:
  assumes "length os \<le> MAX_WILDCARD_NUM + 1" "os \<noteq> []"
  shows "set_entries (met_entries os) (new_inference p) =
    Some ((new_inference p)\<lparr>orders := trimmed (WILDCARD_NONEXIST # tl os)\<rparr>)"
  using assms
proof (induction os rule: rev_induct)
  case (snoc m os)
  show ?case
  proof (cases "os = []")
    case True
    have "trimmed [WILDCARD_NONEXIST] = replicate 5 WILDCARD_NONEXIST"
    proof -
      have "trimmed [WILDCARD_NONEXIST] = map (\<lambda>_. WILDCARD_NONEXIST) [0..<5]"
        using trimmed_none [of "[]"] by (simp add: trimmed_def entry_of_def)
      then show ?thesis by (simp add: map_replicate_const)
    qed
    with True show ?thesis by (simp add: met_entries_def set_entries_def new_inference_def)
  next
    case False
    let ?os = "WILDCARD_NONEXIST # tl os"
    have len: "length ?os = length os" using False by simp
    have IH: "set_entries (met_entries os) (new_inference p) = Some ((new_inference p)\<lparr>orders := trimmed ?os\<rparr>)"
      using snoc False by simp
    have tl: "WILDCARD_NONEXIST # tl (os @ [m]) = ?os @ [m]" using False by simp
    show ?thesis
    proof (cases "m = WILDCARD_NONEXIST")
      case True
      with IH False tl show ?thesis using trimmed_none [of ?os] by (simp add: met_entries_snoc)
    next
      case m: False
      have "set_order_at (length ?os) m ((new_inference p)\<lparr>orders := trimmed ?os\<rparr>) =
          Some ((new_inference p)\<lparr>orders := trimmed (?os @ [m])\<rparr>)"
        by (rule set_order_trimmed [OF m]) (use len False snoc.prems(1) in \<open>simp_all add: Suc_le_eq\<close>)
      with IH m False tl len show ?thesis
        by (simp add: met_entries_snoc set_entries_def for_each_append)
    qed
  qed
qed simp

lemma met_entriesD:
  assumes "(k, mo) \<in> set (met_entries os)"
  shows "1 \<le> k \<and> k < length os \<and> mo = os ! k \<and> mo \<noteq> WILDCARD_NONEXIST"
  using assms by (auto simp: met_entries_def split: if_splits)

subsection \<open>Reading the results\<close>

fun results_from :: "nat \<Rightarrow> inference list \<Rightarrow> string" where
  "results_from k [] = []"
| "results_from k (i # is) = ''Result'' @ CHR '' '' # decimal k @ '':'' @ newline @
     concat (map print_line (met_entries (orders i))) @ newline @ results_from (Suc k) is"

text \<open>An inference that has at least one order, and only orders.\<close>

definition printable :: "inference \<Rightarrow> bool" where
  "printable i \<longleftrightarrow> length (orders i) \<le> MAX_WILDCARD_NUM + 1 \<and> list_all (\<lambda>(k, mo). is_order mo) (met_entries (orders i)) \<and>
     met_entries (orders i) \<noteq> []"

definition read_back :: "infer_ptr \<Rightarrow> inference \<Rightarrow> inference" where
  "read_back p i = (new_inference p)\<lparr>orders := trimmed (WILDCARD_NONEXIST # tl (orders i))\<rparr>"

lemma printable_entries:
  assumes "printable i"
  shows "list_all (\<lambda>(k, mo). k < 2 ^ 31 \<and> is_order mo) (met_entries (orders i))" "orders i \<noteq> []"
    "set_entries (met_entries (orders i)) (new_inference p) = Some (read_back p i)"
    "is_order (snd (last (met_entries (orders i))))"
    "set_order_at (fst (last (met_entries (orders i)))) (snd (last (met_entries (orders i)))) (read_back p i) = Some (read_back p i)"
proof -
  let ?es = "met_entries (orders i)"
  have ne: "?es \<noteq> []" and ord: "list_all (\<lambda>(k, mo). is_order mo) ?es" and len: "length (orders i) \<le> MAX_WILDCARD_NUM + 1"
    using assms by (simp_all add: printable_def)
  show os: "orders i \<noteq> []" using ne by (auto simp: met_entries_def)
  show "list_all (\<lambda>(k, mo). k < 2 ^ 31 \<and> is_order mo) ?es"
    using ord len met_entriesD [of _ _ "orders i"] by (fastforce simp: list_all_iff MAX_WILDCARD_NUM_def)
  show "set_entries ?es (new_inference p) = Some (read_back p i)"
    unfolding read_back_def by (rule set_met_entries [OF len os])
  have l: "last ?es \<in> set ?es" using ne by simp
  obtain k mo where last: "last ?es = (k, mo)" by (cases "last ?es")
  with l ord show "is_order (snd (last ?es))" by (auto simp: list_all_iff)
  from l last met_entriesD [of k mo "orders i"] have k: "1 \<le> k" "k < length (orders i)" "mo = orders i ! k" "mo \<noteq> WILDCARD_NONEXIST"
    by auto
  let ?os = "WILDCARD_NONEXIST # tl (orders i)"
  have "?os ! k = orders i ! k" "k < length ?os" using k os by (auto simp: nth_Cons nth_tl split: nat.splits)
  with set_order_same [of k ?os "new_inference p"] k last
  show "set_order_at (fst (last ?es)) (snd (last ?es)) (read_back p i) = Some (read_back p i)"
    by (simp add: read_back_def)
qed

lemma read_result_printed:
  assumes r: "r_input r = CHR '' '' # decimal k @ '':'' @ newline @ concat (map print_line (met_entries (orders i))) @ newline @ results_from k' is"
    and i: "printable i" and k: "k < 10 ^ 9"
  shows "\<exists>r'. read_result r st = Some (is \<noteq> [], r', snd (addInference (read_back (next_infer st) i) st)) \<and>
    (if is = [] then r_eof r' else \<not> r_eof r' \<and> ''Result'' @ r_input r' = results_from k' is)"
proof -
  let ?es = "met_entries (orders i)" and ?p = "next_infer st"
  note pr = printable_entries(1,2,4) [OF i] and set_pr = printable_entries(3,5) [OF i, of ?p]
  let ?w = "decimal k @ '':''"
  let ?rest = "concat (map print_line ?es) @ newline @ results_from k' is"
  let ?r1 = "r\<lparr>r_input := CHR 0x0A # ?rest, r_eof := False, r_str := ?w\<rparr>"
  have "list_all (\<lambda>c. \<not> is_space c) ?w"
    using decimal_digits [of _ k] digit_not_space by (auto simp: list_all_iff is_space_def)
  moreover have "length ?w \<le> 30" using length_decimal [of k 8] k by simp
  ultimately have r1: "scan_s r = Some ?r1"
    by (intro scan_s_word [of _ "[CHR '' '']" ?w "CHR 0x0A"]) (use r in \<open>simp_all add: is_space_def newline_def\<close>)
  have lines: "read_lines ?r1 (new_inference ?p) = read_lines (reader_after (last ?es) (newline @ newline @ results_from k' is)) (read_back ?p i)"
    by (rule read_lines_entries [of _ newline])
      (use pr set_pr i in \<open>simp_all add: newline_def is_space_def printable_def\<close>)
  have sp: "list_all is_space (newline @ newline)" by simp
  show ?thesis
  proof (cases "is")
    case Nil
    from read_lines_last [OF sp pr(3) set_pr(2)] obtain r' where
      "read_lines (reader_after (last ?es) (newline @ newline)) (read_back ?p i) = Some (False, r', read_back ?p i)" "r_eof r'" by blast
    with Nil lines r1 show ?thesis by (simp add: read_result_def)
  next
    case (Cons j js)
    obtain rest where more: "results_from k' is = ''Result'' @ CHR '' '' # rest" using Cons by simp
    let ?a = "reader_after (last ?es) (newline @ newline @ results_from k' is)"
    let ?r' = "?a\<lparr>r_input := CHR '' '' # rest, r_str := ''Result''\<rparr>"
    have "read_lines ?a (read_back ?p i) = Some (True, ?r', read_back ?p i)"
      by (rule read_lines_next [of _ "newline @ newline"]) (use more sp in \<open>simp_all add: reader_after_def\<close>)
    with Cons lines r1 more show ?thesis by (simp add: read_result_def reader_after_def)
  qed
qed

lemma read_results_printed:
  assumes "''Result'' @ r_input r = results_from k is" "is \<noteq> []" "list_all printable is" "k + length is \<le> 10 ^ 9" "\<not> r_eof r"
  shows "read_results True r st = Some (fold (\<lambda>i st. snd (addInference (read_back (next_infer st) i) st)) is st)"
  using assms
proof (induction "is" arbitrary: r k st)
  case (Cons i js)
  have input: "r_input r = CHR '' '' # decimal k @ '':'' @ newline @ concat (map print_line (met_entries (orders i))) @ newline @ results_from (Suc k) js"
    using Cons.prems(1) by simp
  have i: "printable i" and k: "k < 10 ^ 9" using Cons.prems(3,4) by simp_all
  let ?st = "snd (addInference (read_back (next_infer st) i) st)"
  from read_result_printed [OF input i k, of st] obtain r' where
    r': "read_result r st = Some (js \<noteq> [], r', ?st)"
    "if js = [] then r_eof r' else \<not> r_eof r' \<and> ''Result'' @ r_input r' = results_from (Suc k) js" by blast
  have one: "read_results True r st = read_results (js \<noteq> []) r' ?st"
    using Cons.prems(5) r'(1) by (subst read_results.simps) (simp add: read_round_def read_word_def)
  show ?case
  proof (cases "js = []")
    case True
    with one r'(2) show ?thesis by (simp add: read_results.simps)
  next
    case False
    have "read_results True r' ?st = Some (fold (\<lambda>i st. snd (addInference (read_back (next_infer st) i) st)) js ?st)"
      by (rule Cons.IH [of _ "Suc k"]) (use False r'(2) Cons.prems(3,4) in simp_all)
    with one False show ?thesis by simp
  qed
qed simp

lemma print_results_from:
  assumes "list_all (\<lambda>i. orders i \<noteq> []) is"
  shows "print_inferences ''Result'' is = results_from 0 is"
proof -
  have "concat (map (\<lambda>(k, i). ''Result'' @ '' '' @ decimal k @ '':'' @ newline @ print_inference i @ newline) (zip [k..<k + length is] is)) =
      results_from k is" for k
    using assms
  proof (induction "is" arbitrary: k)
    case (Cons i js)
    have "[k..<k + length (i # js)] = k # [Suc k..<Suc k + length js]"
      by (subst upt_conv_Cons) (simp_all del: upt_Suc)
    with Cons.IH [of "Suc k"] Cons.prems show ?case by (simp add: print_met_entries del: upt_Suc)
  qed simp
  from this [of 0] show ?thesis by (simp add: print_inferences_def)
qed

subsection \<open>Properties\<close>

text \<open>
  C28: A file that the plugin has printed is read back: each result, in order, is added to the set with the
  orders it was printed with (up to a shorter vector), when each has an order to print.
\<close>

theorem printed_results_read_back:
  assumes "list_all printable is" "is \<noteq> []" "length is \<le> 10 ^ 9"
  shows "read_results False (new_reader junk (print_inferences ''Result'' is)) st =
      Some (fold (\<lambda>i st. snd (addInference (read_back (next_infer st) i) st)) is st) \<and>
    list_all (\<lambda>i. map (entry_of (orders (read_back p i))) [1..<MAX_WILDCARD_NUM + 1] =
      map (entry_of (orders i)) [1..<MAX_WILDCARD_NUM + 1]) is"
proof
  have os: "list_all (\<lambda>i. orders i \<noteq> []) is" using assms(1) printable_entries(2) by (auto simp: list_all_iff)
  obtain rest where content: "print_inferences ''Result'' is = ''Result'' @ CHR '' '' # rest"
  proof -
    obtain i js where "is = i # js" using assms(2) by (cases "is") auto
    with print_results_from [OF os] have "print_inferences ''Result'' is = ''Result'' @ CHR '' '' # decimal 0 @ '':'' @ newline @
        concat (map print_line (met_entries (orders i))) @ newline @ results_from (Suc 0) js" by (simp only: results_from.simps)
    with that show ?thesis by blast
  qed
  let ?r = "new_reader junk (print_inferences ''Result'' is)"
  let ?r' = "?r\<lparr>r_input := CHR '' '' # rest, r_eof := False, r_str := ''Result''\<rparr>"
  have "scan_s ?r = Some ?r'"
    by (rule scan_s_word [of _ "[]"]) (simp_all add: new_reader_def content is_space_def)
  moreover have "read_results True ?r' st = Some (fold (\<lambda>i st. snd (addInference (read_back (next_infer st) i) st)) is st)"
    by (rule read_results_printed [of _ 0]) (use assms content print_results_from [OF os] in simp_all)
  ultimately show "read_results False ?r st = Some (fold (\<lambda>i st. snd (addInference (read_back (next_infer st) i) st)) is st)"
    by (simp add: read_results.simps [of False] read_results.simps [of True] read_round_def read_word_def new_reader_def)
  have "entry_of (orders (read_back p i)) k = entry_of (orders i) k" if "orders i \<noteq> []" "1 \<le> k" for i k
  proof -
    let ?os = "WILDCARD_NONEXIST # tl (orders i)"
    have "entry_of ?os k = entry_of (orders i) k" using that by (cases "orders i") (auto simp: entry_of_def nth_Cons split: nat.splits)
    moreover have "entry_of (trimmed ?os) k = entry_of ?os k" by (rule entry_trimmed)
    ultimately show ?thesis by (simp add: read_back_def)
  qed
  with os show "list_all (\<lambda>i. map (entry_of (orders (read_back p i))) [1..<MAX_WILDCARD_NUM + 1] =
      map (entry_of (orders i)) [1..<MAX_WILDCARD_NUM + 1]) is"
    by (auto simp: list_all_iff)
qed

definition acquire_third :: inference where
  "acquire_third = (new_inference 0)\<lparr>orders := [WILDCARD_NONEXIST, relaxed, WILDCARD_NONEXIST, acquire, WILDCARD_NONEXIST]\<rparr>"

definition seqcst_seventh :: inference where
  "seqcst_seventh = (new_inference 0)\<lparr>orders := replicate 7 WILDCARD_NONEXIST @ [seqcst]\<rparr>"

definition empty_set :: inference_set where
  "empty_set = \<lparr>infers = (\<lambda>p. new_inference p), next_infer = 0, discoveredSet = [], results = [], candidates = [],
     notAddedAtFirstPlace = 0\<rparr>"

theorem printed_results_read_back_witness:
  "map_option (\<lambda>st. map (\<lambda>p. orders (infers st p)) (candidates st))
     (read_results False (new_reader [] (print_inferences ''Result'' [acquire_third, seqcst_seventh])) empty_set) =
   Some [orders acquire_third, orders seqcst_seventh]"
proof -
  let ?is = "[acquire_third, seqcst_seventh]"
  have "list_all printable ?is" by code_simp
  from printed_results_read_back [OF this, of "[]" empty_set 0]
  have "read_results False (new_reader [] (print_inferences ''Result'' ?is)) empty_set =
      Some (fold (\<lambda>i st. snd (addInference (read_back (next_infer st) i) st)) ?is empty_set)" by simp
  moreover have "map (\<lambda>p. orders (infers (fold (\<lambda>i st. snd (addInference (read_back (next_infer st) i) st)) ?is empty_set) p))
      (candidates (fold (\<lambda>i st. snd (addInference (read_back (next_infer st) i) st)) ?is empty_set)) =
    [orders acquire_third, orders seqcst_seventh]" by code_simp
  ultimately show ?thesis by simp
qed

text \<open>
  The last result of a file must have an order. At the end of the file the failing reads leave the old
  values: a last result without an order gets the last order of the result before it (and here
  is taken for that result), and a file with only such a result fails an assertion.
\<close>

theorem empty_last_result_reads_stale_order:
  "map_option (\<lambda>st. map (\<lambda>p. orders (infers st p)) (candidates st))
     (read_results False (new_reader [] (print_inferences ''Result'' [seqcst_seventh, new_inference 0])) empty_set) =
   Some [orders seqcst_seventh] \<and>
   map_option candidates (read_results False (new_reader [] (print_inferences ''Result'' [new_inference 0])) empty_set) = None"
  by (rule conjI; code_simp)

end
