(* ===== verification/Options.thy ===== *)
theory Options
  imports Inference_File Fence_Fixes Node
begin

text \<open>
  The command line: the parameters and their defaults (\<open>main.cc\<close>, \<open>params.h\<close>), the plugins
  (\<open>plugins.cc\<close>) and their options (\<open>SCAnalysis::option\<close>, \<open>SCFence::option\<close>). What \<open>getopt_long\<close> makes of the
  arguments is an argument: the list of the short letters with their values, \<open>?\<close> for an error. A long option
  gives the letter of its short form. The files that can be opened are a function. Printing is left out.
\<close>

subsection \<open>Numbers\<close>

text \<open>\<open>atoi\<close>; a number that does not fit an \<open>int\<close> has no defined value.\<close>

definition atoi :: "string \<Rightarrow> int option" where
  "atoi str =
     (let s = dropWhile is_space str;
          neg = (s \<noteq> [] \<and> hd s = CHR ''-'');
          t = (if s \<noteq> [] \<and> (neg \<or> hd s = CHR ''+'') then tl s else s);
          v = int (digits_value (takeWhile is_digit t))
      in if neg then (if v \<le> 2 ^ 31 then Some (- v) else None) else (if v < 2 ^ 31 then Some v else None))"

subsection \<open>The parameters\<close>

text \<open>\<open>!!DBG_ENABLED ()\<close> is an argument: the build decides.\<close>

definition param_defaults :: "bool \<Rightarrow> model_params" where
  "param_defaults debug = \<lparr>maxreads = 0, maxfuturedelay = 6, yieldon = False, yieldblock = False, fairwindow = 0,
     enabledcount = 1, mp_bound = 0, uninitvalue = 0, maxexecutions = 0, maxfuturevalues = 0, expireslop = 4,
     verbose = of_bool debug\<rparr>"

text \<open>A letter that sets a parameter.\<close>

definition set_param :: "char \<Rightarrow> string option \<Rightarrow> model_params \<Rightarrow> model_params option" where
  "set_param c arg p =
     (if c = CHR ''v'' then
        (case arg of None \<Rightarrow> Some (p\<lparr>verbose := 1\<rparr>) | Some a \<Rightarrow> map_option (\<lambda>n. p\<lparr>verbose := n\<rparr>) (atoi a))
      else if c = CHR ''y'' then Some (p\<lparr>yieldon := True\<rparr>)
      else if c = CHR ''Y'' then Some (p\<lparr>yieldblock := True\<rparr>)
      else do {
        a \<leftarrow> arg;
        n \<leftarrow> atoi a;
        Some (if c = CHR ''x'' then p\<lparr>maxexecutions := n\<rparr>
          else if c = CHR ''s'' then p\<lparr>maxfuturedelay := n\<rparr>
          else if c = CHR ''S'' then p\<lparr>expireslop := of_int n\<rparr>
          else if c = CHR ''f'' then p\<lparr>fairwindow := of_int n\<rparr>
          else if c = CHR ''e'' then p\<lparr>enabledcount := of_int n\<rparr>
          else if c = CHR ''b'' then p\<lparr>mp_bound := of_int n\<rparr>
          else if c = CHR ''m'' then p\<lparr>maxreads := n\<rparr>
          else if c = CHR ''M'' then p\<lparr>maxfuturevalues := n\<rparr>
          else p\<lparr>uninitvalue := of_int n\<rparr>)
      })"

subsection \<open>The plugins\<close>

record sc_options =
  print_always :: bool
  print_buggy :: bool
  print_nonsc :: bool
  sc_time :: bool

definition new_sc_options :: sc_options where
  "new_sc_options = \<lparr>print_always = False, print_buggy = True, print_nonsc = False, sc_time = False\<rparr>"

text \<open>\<open>SCAnalysis::option\<close>: true for an option that it does not know (and for \<open>help\<close>).\<close>

definition sc_option :: "string \<Rightarrow> sc_options \<Rightarrow> bool \<times> sc_options" where
  "sc_option opt o' =
     (if opt = ''verbose'' then (False, o'\<lparr>print_always := True\<rparr>)
      else if opt = ''buggy'' then (False, o')
      else if opt = ''quiet'' then (False, o'\<lparr>print_buggy := False\<rparr>)
      else if opt = ''nonsc'' then (False, o'\<lparr>print_nonsc := True\<rparr>)
      else if opt = ''time'' then (False, o'\<lparr>sc_time := True\<rparr>)
      else (True, o'))"

text \<open>The fence plugin, with the options of its generator and those it does not use.\<close>

record fence_plugin = scfence +
  gen_print_always :: bool
  gen_print_buggy :: bool
  gen_print_nonsc :: bool
  gen_annotation :: bool
  sf_candidateFile :: "string option"
  sf_timeout :: int
  sf_time :: bool

definition DEFAULT_REPETITIVE_READ_BOUND :: int where
  "DEFAULT_REPETITIVE_READ_BOUND = 20"

text \<open>\<open>time\<close> is not initialised: any value.\<close>

definition new_fence_plugin :: "bool \<Rightarrow> fence_plugin" where
  "new_fence_plugin time = \<lparr>
     sf_set = \<lparr>infers = new_inference, next_infer = 1, discoveredSet = [], results = [], candidates = [], notAddedAtFirstPlace = 0\<rparr>,
     sf_cur = 0, sf_weaken = True, sf_inferImplicitMO = False,
     sf_implicitMOReadBound = DEFAULT_REPETITIVE_READ_BOUND, sf_hasRestarted = False, sf_restart = False, sf_exit = False,
     gen_print_always = False, gen_print_buggy = False, gen_print_nonsc = False, gen_annotation = False,
     sf_candidateFile = None, sf_timeout = 0, sf_time = time\<rparr>"

text \<open>Copies into buffers of 1024 bytes; a longer text is written past their end.\<close>

definition copy_buffer :: "string \<Rightarrow> string option" where
  "copy_buffer s = do { ASSERT (length s < 1024); Some s }"

definition getInputFileName :: "string \<Rightarrow> string option option" where
  "getInputFileName opt =
     (if take 5 opt = ''file-'' then map_option Some (copy_buffer (drop 5 opt)) else Some None)"

definition getImplicitMOBound :: "string \<Rightarrow> int option" where
  "getImplicitMOBound opt =
     (if take 6 opt = ''bound-'' then do { num \<leftarrow> copy_buffer (drop 6 opt); atoi num } else Some 0)"

text \<open>The file, and the inference to start with; without one the present inference stays.\<close>

definition load_candidates :: "string \<Rightarrow> string \<Rightarrow> fence_plugin \<Rightarrow> fence_plugin option" where
  "load_candidates junk content sf = do {
     (n, set) \<leftarrow> initializeByFile junk content (sf_set sf);
     let sf = sf\<lparr>sf_set := set\<rparr>;
     Some (case n of None \<Rightarrow> sf | Some p \<Rightarrow> sf\<lparr>sf_cur := p\<rparr>)
   }"

text \<open>
  \<open>SCFence::option\<close>. The bound is stored in an \<open>unsigned\<close> before the comparison with 0, and converted to an
  \<open>int\<close> when it is set. A file that cannot be opened ends the process.
\<close>

definition fence_option :: "(string \<Rightarrow> string option) \<Rightarrow> string \<Rightarrow> string \<Rightarrow> fence_plugin \<Rightarrow> (bool \<times> fence_plugin) option" where
  "fence_option files junk opt sf =
     (if opt = ''verbose'' then Some (False, sf\<lparr>gen_print_always := True\<rparr>)
      else if opt = ''buggy'' then Some (False, sf)
      else if opt = ''quiet'' then Some (False, sf\<lparr>gen_print_buggy := False\<rparr>)
      else if opt = ''nonsc'' then Some (False, sf\<lparr>gen_print_nonsc := True\<rparr>)
      else if opt = ''time'' then Some (False, sf\<lparr>sf_time := True\<rparr>)
      else if opt = ''no-weaken'' then Some (False, sf\<lparr>sf_weaken := False\<rparr>)
      else if opt = ''anno'' then Some (False, sf\<lparr>gen_annotation := True\<rparr>)
      else if opt = ''implicit-mo'' then Some (False, sf\<lparr>sf_inferImplicitMO := True\<rparr>)
      else do {
        name \<leftarrow> getInputFileName opt;
        (case name of
           Some f \<Rightarrow>
             if f = '''' then Some (True, sf)
             else do {
               content \<leftarrow> files f;
               sf \<leftarrow> load_candidates junk content (sf\<lparr>sf_candidateFile := Some f\<rparr>);
               Some (False, sf)
             }
         | None \<Rightarrow> do {
             n \<leftarrow> getImplicitMOBound opt;
             let bound = (of_int n :: 32 word);
             Some (if bound > 0 then (False, sf\<lparr>sf_implicitMOReadBound := sint bound\<rparr>) else (True, sf))
           })
      })"

text \<open>
  \<open>SCFence::parseOption\<close>, which nothing calls: options of one letter with \<open>|\<close> between them.
\<close>

definition parse_letter :: "char \<Rightarrow> string \<Rightarrow> fence_plugin \<Rightarrow> (bool \<times> fence_plugin) option" where
  "parse_letter c val sf =
     (if c = CHR ''f'' then Some (val = '''', sf\<lparr>sf_candidateFile := Some val\<rparr>)
      else if c = CHR ''b'' then map_option (\<lambda>n. (n \<le> 0, sf\<lparr>sf_implicitMOReadBound := n\<rparr>)) (atoi val)
      else if c = CHR ''m'' then Some (val \<noteq> '''', sf\<lparr>sf_inferImplicitMO := True\<rparr>)
      else if c = CHR ''a'' then Some (val \<noteq> '''', sf\<lparr>gen_annotation := True\<rparr>)
      else if c = CHR ''t'' then map_option (\<lambda>n. (False, sf\<lparr>sf_timeout := n\<rparr>)) (atoi val)
      else Some (True, sf))"

text \<open>The empty option reads behind its end.\<close>

function parseOption :: "string \<Rightarrow> fence_plugin \<Rightarrow> (bool \<times> fence_plugin) option" where
  "parseOption [] sf = None"
| "parseOption (c # s) sf = do {
     val \<leftarrow> copy_buffer (takeWhile (\<lambda>c. c \<noteq> CHR ''|'') s);
     (err, sf) \<leftarrow> parse_letter c val sf;
     if err then Some (True, sf)
     else (case dropWhile (\<lambda>c. c \<noteq> CHR ''|'') s of [] \<Rightarrow> Some (False, sf) | _ # t \<Rightarrow> parseOption t sf)
   }"
  by pat_completeness auto
termination
proof (relation "measure (\<lambda>(s, sf). length s)")
  fix c :: char and s val err sf' x t
  assume "dropWhile (\<lambda>c. c \<noteq> CHR ''|'') s = x # t"
  then have "length (x # t) \<le> length s" using length_dropWhile_le [of "\<lambda>c. c \<noteq> CHR ''|''" s] by simp
  then show "((t, sf'), (c # s, sf)) \<in> measure (\<lambda>(s, sf). length s)" for sf' sf :: fence_plugin by simp
qed simp

text \<open>The registered plugins by name, and the installed ones.\<close>

datatype plugin = SC | AUTOMO

record command_line =
  cl_params :: model_params
  cl_sc :: sc_options
  cl_fence :: fence_plugin
  cl_installed :: "plugin list"

definition register_plugins :: "(plugin \<times> string) list" where
  "register_plugins = [(SC, ''SC''), (AUTOMO, ''AUTOMO'')]"

definition install_plugin :: "string \<Rightarrow> command_line \<Rightarrow> bool \<times> command_line" where
  "install_plugin name cl = (case List.find (\<lambda>(_, n). n = name) register_plugins of
     Some (a, _) \<Rightarrow> (False, cl\<lparr>cl_installed := cl_installed cl @ [a]\<rparr>)
   | None \<Rightarrow> (True, cl))"

definition plugin_option :: "(string \<Rightarrow> string option) \<Rightarrow> string \<Rightarrow> string \<Rightarrow> command_line \<Rightarrow> (bool \<times> command_line) option" where
  "plugin_option files junk opt cl =
     (if cl_installed cl = [] then Some (True, cl)
      else (case last (cl_installed cl) of
              SC \<Rightarrow> (let (err, o') = sc_option opt (cl_sc cl) in Some (err, cl\<lparr>cl_sc := o'\<rparr>))
            | AUTOMO \<Rightarrow> do {
                (err, sf) \<leftarrow> fence_option files junk opt (cl_fence cl);
                Some (err, cl\<lparr>cl_fence := sf\<rparr>)
              }))"

definition param_letters :: string where
  "param_letters = ''xsSfebmMvuyY''"

text \<open>
  One option: true for an error. \<open>-h\<close> prints the help and ends the process, as an error does after the loop;
  the value is \<open>Inl\<close> then.
\<close>

definition parse_one :: "(string \<Rightarrow> string option) \<Rightarrow> string \<Rightarrow> char \<times> string option \<Rightarrow> command_line \<Rightarrow> (unit + bool \<times> command_line) option" where
  "parse_one files junk = (\<lambda>(c, arg) cl.
     if c = CHR ''h'' then Some (Inl ())
     else if List.member param_letters c then map_option (\<lambda>p. Inr (False, cl\<lparr>cl_params := p\<rparr>)) (set_param c arg (cl_params cl))
     else if c = CHR ''t'' then map_option (\<lambda>a. Inr (install_plugin a cl)) arg
     else if c = CHR ''o'' then do {
       a \<leftarrow> arg;
       r \<leftarrow> plugin_option files junk a cl;
       Some (Inr r)
     }
     else Some (Inr (True, cl)))"

fun parse_options :: "(string \<Rightarrow> string option) \<Rightarrow> string \<Rightarrow> (char \<times> string option) list \<Rightarrow> command_line \<Rightarrow> (unit + command_line) option" where
  "parse_options files junk [] cl = Some (Inr cl)"
| "parse_options files junk (opt # opts) cl = do {
     r \<leftarrow> parse_one files junk opt cl;
     (case r of
        Inl _ \<Rightarrow> Some (Inl ())
      | Inr (err, cl) \<Rightarrow> if err then Some (Inl ()) else parse_options files junk opts cl)
   }"

definition new_command_line :: "bool \<Rightarrow> bool \<Rightarrow> command_line" where
  "new_command_line debug time = \<lparr>cl_params = param_defaults debug, cl_sc = new_sc_options, cl_fence = new_fence_plugin time,
     cl_installed = []\<rparr>"

text \<open>The arguments that are left go to the program, with the name of the process in front: \<open>optind\<close> is where they begin.\<close>

definition program_arguments :: "nat \<Rightarrow> string list \<Rightarrow> (int \<times> string list) option" where
  "program_arguments optind argv = do {
     ASSERT (1 \<le> optind \<and> optind - 1 < length argv);
     Some (int (length argv) - (int optind - 1), (drop (optind - 1) argv)[0 := argv ! 0])
   }"

subsection \<open>What the options set\<close>

text \<open>The value of the last option with a letter, as a number.\<close>

definition given_int :: "int \<Rightarrow> string option \<Rightarrow> int" where
  "given_int d arg = (case arg of None \<Rightarrow> d | Some a \<Rightarrow> (case atoi a of None \<Rightarrow> d | Some n \<Rightarrow> n))"

fun last_int :: "char \<Rightarrow> int \<Rightarrow> (char \<times> string option) list \<Rightarrow> int" where
  "last_int c d [] = d"
| "last_int c d ((c', arg) # opts) = last_int c (if c' = c then given_int d arg else d) opts"

definition given_verbose :: "int \<Rightarrow> string option \<Rightarrow> int" where
  "given_verbose d arg = (case arg of None \<Rightarrow> 1 | Some a \<Rightarrow> given_int d (Some a))"

fun last_verbose :: "int \<Rightarrow> (char \<times> string option) list \<Rightarrow> int" where
  "last_verbose d [] = d"
| "last_verbose d ((c, arg) # opts) = last_verbose (if c = CHR ''v'' then given_verbose d arg else d) opts"

definition has_letter :: "char \<Rightarrow> (char \<times> string option) list \<Rightarrow> bool" where
  "has_letter c opts = List.member (map fst opts) c"

text \<open>The parameters that the options make of others.\<close>

definition given_params :: "(char \<times> string option) list \<Rightarrow> model_params \<Rightarrow> model_params" where
  "given_params opts p = \<lparr>
     maxreads = last_int CHR ''m'' (maxreads p) opts,
     maxfuturedelay = last_int CHR ''s'' (maxfuturedelay p) opts,
     yieldon = (yieldon p \<or> has_letter CHR ''y'' opts),
     yieldblock = (yieldblock p \<or> has_letter CHR ''Y'' opts),
     fairwindow = of_int (last_int CHR ''f'' (uint (fairwindow p)) opts),
     enabledcount = of_int (last_int CHR ''e'' (uint (enabledcount p)) opts),
     mp_bound = of_int (last_int CHR ''b'' (uint (mp_bound p)) opts),
     uninitvalue = of_int (last_int CHR ''u'' (uint (uninitvalue p)) opts),
     maxexecutions = last_int CHR ''x'' (maxexecutions p) opts,
     maxfuturevalues = last_int CHR ''M'' (maxfuturevalues p) opts,
     expireslop = of_int (last_int CHR ''S'' (uint (expireslop p)) opts),
     verbose = last_verbose (verbose p) opts\<rparr>"

lemma last_int_cong: "of_int d = (of_int d' :: 32 word) \<Longrightarrow> of_int (last_int c d opts) = (of_int (last_int c d' opts) :: 32 word)"
proof (induction opts arbitrary: d d')
  case (Cons o' opts)
  obtain c' arg where o': "o' = (c', arg)" by (cases o')
  have "of_int (given_int d arg) = (of_int (given_int d' arg) :: 32 word)"
    using Cons.prems by (simp add: given_int_def split: option.splits)
  with Cons.IH [of "if c' = c then given_int d arg else d" "if c' = c then given_int d' arg else d'"] Cons.prems o'
  show ?case by simp
qed simp

lemma given_params_Nil [simp]: "given_params [] p = p"
  by (simp add: given_params_def has_letter_def)

lemma given_params_other:
  assumes "\<not> List.member param_letters c"
  shows "given_params ((c, arg) # opts) p = given_params opts p"
  using assms by (auto simp: given_params_def has_letter_def param_letters_def)

lemma given_params_set:
  assumes "set_param c arg p = Some p'" "List.member param_letters c"
  shows "given_params ((c, arg) # opts) p = given_params opts p'"
proof -
  have w: "of_int (last_int c' (uint (of_int n :: 32 word)) opts) = (of_int (last_int c' n opts) :: 32 word)" for c' n
    by (rule last_int_cong) simp
  have "c \<in> {CHR ''x'', CHR ''s'', CHR ''S'', CHR ''f'', CHR ''e'', CHR ''b'', CHR ''m'', CHR ''M'', CHR ''v'', CHR ''u'', CHR ''y'', CHR ''Y''}"
    using assms(2) by (simp add: param_letters_def)
  then show ?thesis
    by (elim insertE emptyE; use assms(1) in
        \<open>auto simp: set_param_def given_params_def has_letter_def given_int_def given_verbose_def w bind_eq_Some_conv
          split: option.splits\<close>)
qed

lemma plugin_option_params: "plugin_option files junk a cl = Some (err, cl') \<Longrightarrow> cl_params cl' = cl_params cl"
  by (auto simp: plugin_option_def bind_eq_Some_conv split: if_splits plugin.splits prod.splits)

lemma install_plugin_params: "install_plugin a cl = (err, cl') \<Longrightarrow> cl_params cl' = cl_params cl"
  by (auto simp: install_plugin_def split: option.splits)

lemma parse_one_params:
  assumes "parse_one files junk (c, arg) cl = Some (Inr (False, cl'))"
  shows "given_params ((c, arg) # opts) (cl_params cl) = given_params opts (cl_params cl')"
proof (cases "List.member param_letters c")
  case True
  with assms show ?thesis
    by (auto simp: parse_one_def intro!: given_params_set split: if_splits)
next
  case False
  then have "cl_params cl' = cl_params cl" using assms
    by (auto simp: parse_one_def bind_eq_Some_conv split: if_splits dest: plugin_option_params install_plugin_params)
  with given_params_other [OF False] show ?thesis by simp
qed

lemma parse_options_params:
  "parse_options files junk opts cl = Some (Inr cl') \<Longrightarrow> cl_params cl' = given_params opts (cl_params cl)"
proof (induction opts arbitrary: cl)
  case (Cons opt opts)
  obtain c arg where opt: "opt = (c, arg)" by (cases opt)
  from Cons.prems obtain cl1 where one: "parse_one files junk (c, arg) cl = Some (Inr (False, cl1))"
    and rest: "parse_options files junk opts cl1 = Some (Inr cl')"
  proof -
    from Cons.prems opt obtain r where r: "parse_one files junk (c, arg) cl = Some r"
      "(case r of Inl _ \<Rightarrow> Some (Inl ()) | Inr (err, cl) \<Rightarrow> if err then Some (Inl ()) else parse_options files junk opts cl) = Some (Inr cl')"
      by (auto simp: bind_eq_Some_conv)
    then obtain cl1 where "r = Inr (False, cl1)" "parse_options files junk opts cl1 = Some (Inr cl')"
      by (auto split: sum.splits prod.splits if_splits)
    with r(1) that show ?thesis by blast
  qed
  from Cons.IH [OF rest] parse_one_params [OF one, of opts] opt show ?case by simp
qed simp

subsection \<open>Properties\<close>

text \<open>
  C32: When the options are accepted each parameter has the value of the last option for it, converted to its
  type, and its default without one, whatever plugins and other options come between.
\<close>

theorem options_set_parameters:
  assumes "parse_options files junk opts (new_command_line debug time) = Some (Inr cl)"
  shows "cl_params cl = given_params opts (param_defaults debug)"
  using parse_options_params [OF assms] by (simp add: new_command_line_def)

theorem options_set_parameters_witness:
  "(let opts = [(CHR ''m'', Some ''2''), (CHR ''t'', Some ''AUTOMO''), (CHR ''y'', None), (CHR ''o'', Some ''anno''), (CHR ''m'', Some ''7''), (CHR ''b'', Some ''-1'')]
    in case parse_options (\<lambda>_. None) [] opts (new_command_line False False) of
         Some (Inr cl) \<Rightarrow> cl_params cl = given_params opts (param_defaults False) \<and> maxreads (cl_params cl) = 7 \<and>
           mp_bound (cl_params cl) = - 1
       | _ \<Rightarrow> False)"
proof -
  let ?opts = "[(CHR ''m'', Some ''2''), (CHR ''t'', Some ''AUTOMO''), (CHR ''y'', None), (CHR ''o'', Some ''anno''), (CHR ''m'', Some ''7''), (CHR ''b'', Some ''-1'')]"
  have "(case parse_options (\<lambda>_. None) [] ?opts (new_command_line False False) of
      Some (Inr cl) \<Rightarrow> maxreads (cl_params cl) = 7 \<and> mp_bound (cl_params cl) = - 1 | _ \<Rightarrow> False)" by code_simp
  then obtain cl where cl: "parse_options (\<lambda>_. None) [] ?opts (new_command_line False False) = Some (Inr cl)"
    "maxreads (cl_params cl) = 7" "mp_bound (cl_params cl) = - 1" by (auto split: option.splits sum.splits)
  from options_set_parameters [OF cl(1)] cl show ?thesis by (simp add: Let_def)
qed

text \<open>
  \<open>SCFence::option\<close> accepts a negative bound, which \<open>parseOption\<close> refuses: the number is tested as an
  \<open>unsigned\<close> and then set as an \<open>int\<close>.
\<close>

theorem negative_bound_accepted:
  assumes "atoi num = Some n" "n < 0" "length num < 1024" "list_all (\<lambda>c. c \<noteq> CHR ''|'') num"
  shows "fence_option files junk (''bound-'' @ num) sf = Some (False, sf\<lparr>sf_implicitMOReadBound := n\<rparr>) \<and>
    map_option fst (parseOption (CHR ''b'' # num) sf) = Some True"
proof
  have range: "- (2 ^ 31) \<le> n" using assms(1,2) by (auto simp: atoi_def Let_def split: if_splits)
  then have signed: "sint (of_int n :: 32 word) = n"
    using assms(2) by (simp add: sint_sbintrunc' signed_take_bit_int_eq_self)
  have pos: "(of_int n :: 32 word) > 0"
  proof -
    have "(of_int n :: 32 word) \<noteq> 0" using signed assms(2) by auto
    then show ?thesis by (simp add: word_gt_0)
  qed
  show "fence_option files junk (''bound-'' @ num) sf = Some (False, sf\<lparr>sf_implicitMOReadBound := n\<rparr>)"
    using assms(1,3) signed pos by (simp add: fence_option_def getInputFileName_def getImplicitMOBound_def copy_buffer_def Let_def)
  have all: "takeWhile (\<lambda>c. c \<noteq> CHR ''|'') num = num" using assms(4) by (simp add: list_all_iff takeWhile_eq_all_conv)
  show "map_option fst (parseOption (CHR ''b'' # num) sf) = Some True"
    using assms(1-3) by (simp add: all copy_buffer_def parse_letter_def)
qed

theorem negative_bound_accepted_witness:
  "map_option (\<lambda>(err, sf). (err, sf_implicitMOReadBound sf)) (fence_option (\<lambda>_. None) [] ''bound--5'' (new_fence_plugin False)) = Some (False, - 5)"
proof -
  have "atoi ''-5'' = Some (- 5)" by code_simp
  from negative_bound_accepted [OF this, of "\<lambda>_. None" "[]" "new_fence_plugin False"] show ?thesis by simp
qed

end
