(* ===== verification/User_Library.thy ===== *)
theory User_Library
  imports Atomics Data_Race
begin

unbundle bit_operations_syntax

text \<open>
  What a checked program calls beside the atomics: mutexes (\<open>mutex.cc\<close>), condition variables
  (\<open>conditionvariable.cc\<close>), threads (\<open>libthreads.cc\<close>), annotations (\<open>libannotate.cc\<close>) and the checked
  accesses to plain memory (\<open>librace.cc\<close>). The first four hand actions to the checker (theory \<open>Atomics\<close>); the
  accesses run the race checks of their bytes (theory \<open>Data_Race\<close>) on a memory of bytes.
\<close>

subsection \<open>Mutexes and condition variables\<close>

text \<open>The constructor of a mutex: the thread and the time of its allocation.\<close>

definition new_mutex :: "execution \<Rightarrow> thread_id \<Rightarrow> mutex_state option" where
  "new_mutex s current = do {
     cv \<leftarrow> get_cv s current;
     Some \<lparr>locked = None, alloc_tid = current, alloc_clock = getClock cv current\<rparr>
   }"

definition mutex_lock :: "loc \<Rightarrow> unit prog" where
  "mutex_lock m = then_prog (request ATOMIC_LOCK memory_order_seq_cst m VALUE_NONE) (\<lambda>_. Ret ())"

definition mutex_try_lock :: "loc \<Rightarrow> bool prog" where
  "mutex_try_lock m = then_prog (request ATOMIC_TRYLOCK memory_order_seq_cst m VALUE_NONE) (\<lambda>r. Ret (r \<noteq> 0))"

definition mutex_unlock :: "loc \<Rightarrow> unit prog" where
  "mutex_unlock m = then_prog (request ATOMIC_UNLOCK memory_order_seq_cst m VALUE_NONE) (\<lambda>_. Ret ())"

definition cond_notify_one :: "loc \<Rightarrow> unit prog" where
  "cond_notify_one c = then_prog (request ATOMIC_NOTIFY_ONE memory_order_seq_cst c VALUE_NONE) (\<lambda>_. Ret ())"

definition cond_notify_all :: "loc \<Rightarrow> unit prog" where
  "cond_notify_all c = then_prog (request ATOMIC_NOTIFY_ALL memory_order_seq_cst c VALUE_NONE) (\<lambda>_. Ret ())"

text \<open>The wait gives up the mutex; the lock is taken again by a second action.\<close>

definition cond_wait :: "loc \<Rightarrow> loc \<Rightarrow> unit prog" where
  "cond_wait c m = then_prog (request ATOMIC_WAIT memory_order_seq_cst c m) (\<lambda>_. mutex_lock m)"

subsection \<open>Threads and annotations\<close>

definition thrd_create :: "loc \<Rightarrow> u64 \<Rightarrow> int prog" where
  "thrd_create t params = then_prog (request THREAD_CREATE memory_order_seq_cst t params) (\<lambda>_. Ret 0)"

text \<open>\<open>th\<close> is the address of the thread object, \<open>tid\<close> its number.\<close>

definition thrd_join :: "loc \<Rightarrow> thread_id \<Rightarrow> int prog" where
  "thrd_join th tid = then_prog (request THREAD_JOIN memory_order_seq_cst th (of_nat tid)) (\<lambda>_. Ret 0)"

definition thrd_yield :: "loc \<Rightarrow> unit prog" where
  "thrd_yield current = then_prog (request THREAD_YIELD memory_order_seq_cst current VALUE_NONE) (\<lambda>_. Ret ())"

definition cdsannotate :: "u64 \<Rightarrow> loc \<Rightarrow> unit prog" where
  "cdsannotate analysistype annotation =
     then_prog (request ATOMIC_ANNOTATION memory_order_seq_cst annotation analysistype) (\<lambda>_. Ret ())"

subsection \<open>Plain memory\<close>

type_synonym memory = "loc \<Rightarrow> 8 word"

definition bytes_at :: "nat \<Rightarrow> loc \<Rightarrow> loc list" where
  "bytes_at n a = map (\<lambda>k. a + of_nat k) [0..<n]"

text \<open>The least significant byte has the lowest address.\<close>

definition write_bytes :: "nat \<Rightarrow> loc \<Rightarrow> u64 \<Rightarrow> memory \<Rightarrow> memory" where
  "write_bytes n a v m = fold (\<lambda>k m. m(a + of_nat k := ucast (drop_bit (8 * k) v))) [0..<n] m"

definition read_bytes :: "nat \<Rightarrow> loc \<Rightarrow> memory \<Rightarrow> u64" where
  "read_bytes n a m = horner_sum (\<lambda>x. ucast x) 256 (map m (bytes_at n a))"

fun check_writes :: "thread_id \<Rightarrow> loc list \<Rightarrow> execution \<Rightarrow> (bool \<times> execution) option" where
  "check_writes t [] s = Some (False, s)"
| "check_writes t (a # as) s = unless_left (raceCheckWrite t a s) (check_writes t as)"

fun check_reads :: "thread_id \<Rightarrow> loc list \<Rightarrow> execution \<Rightarrow> (bool \<times> execution) option" where
  "check_reads t [] s = Some (False, s)"
| "check_reads t (a # as) s = unless_left (raceCheckRead t a s) (check_reads t as)"

text \<open>A thread that leaves on a race does not come to the access.\<close>

definition store_n :: "nat \<Rightarrow> thread_id \<Rightarrow> loc \<Rightarrow> u64 \<Rightarrow> execution \<times> memory \<Rightarrow> (bool \<times> execution \<times> memory) option" where
  "store_n n t a v = (\<lambda>(s, m). do {
     (left, s) \<leftarrow> check_writes t (bytes_at n a) s;
     Some (left, s, if left then m else write_bytes n a v m)
   })"

definition load_n :: "nat \<Rightarrow> thread_id \<Rightarrow> loc \<Rightarrow> execution \<times> memory \<Rightarrow> (u64 option \<times> execution \<times> memory) option" where
  "load_n n t a = (\<lambda>(s, m). do {
     (left, s) \<leftarrow> check_reads t (bytes_at n a) s;
     Some (if left then None else Some (read_bytes n a m), s, m)
   })"

definition store_8 :: "thread_id \<Rightarrow> loc \<Rightarrow> 8 word \<Rightarrow> execution \<times> memory \<Rightarrow> (bool \<times> execution \<times> memory) option" where
  "store_8 t a v = store_n 1 t a (ucast v)"
definition store_16 :: "thread_id \<Rightarrow> loc \<Rightarrow> 16 word \<Rightarrow> execution \<times> memory \<Rightarrow> (bool \<times> execution \<times> memory) option" where
  "store_16 t a v = store_n 2 t a (ucast v)"
definition store_32 :: "thread_id \<Rightarrow> loc \<Rightarrow> 32 word \<Rightarrow> execution \<times> memory \<Rightarrow> (bool \<times> execution \<times> memory) option" where
  "store_32 t a v = store_n 4 t a (ucast v)"
definition store_64 :: "thread_id \<Rightarrow> loc \<Rightarrow> u64 \<Rightarrow> execution \<times> memory \<Rightarrow> (bool \<times> execution \<times> memory) option" where
  "store_64 t a v = store_n 8 t a v"

definition load_8 :: "thread_id \<Rightarrow> loc \<Rightarrow> execution \<times> memory \<Rightarrow> (8 word option \<times> execution \<times> memory) option" where
  "load_8 t a sm = map_option (apfst (map_option ucast)) (load_n 1 t a sm)"
definition load_16 :: "thread_id \<Rightarrow> loc \<Rightarrow> execution \<times> memory \<Rightarrow> (16 word option \<times> execution \<times> memory) option" where
  "load_16 t a sm = map_option (apfst (map_option ucast)) (load_n 2 t a sm)"
definition load_32 :: "thread_id \<Rightarrow> loc \<Rightarrow> execution \<times> memory \<Rightarrow> (32 word option \<times> execution \<times> memory) option" where
  "load_32 t a sm = map_option (apfst (map_option ucast)) (load_n 4 t a sm)"
definition load_64 :: "thread_id \<Rightarrow> loc \<Rightarrow> execution \<times> memory \<Rightarrow> (u64 option \<times> execution \<times> memory) option" where
  "load_64 t a sm = load_n 8 t a sm"

subsection \<open>The checks of several bytes\<close>

lemma bytes_apart:
  assumes "i < j" "j < 8"
  shows "\<not> same_entry (a + of_nat i) (a + of_nat j)"
proof
  assume "same_entry (a + of_nat i) (a + of_nat j)"
  then have "unat (take_bit 48 (a + of_nat i)) = unat (take_bit 48 (a + of_nat j))" by (simp add: same_entry_def)
  moreover have "unat (take_bit 48 (a + of_nat k)) = (unat a + k) mod 2 ^ 48" if "k < 8" for k
  proof -
    have k: "unat (of_nat k :: loc) = k" using that by (simp add: unat_of_nat take_bit_nat_eq_self)
    have "unat (take_bit 48 (a + of_nat k)) = unat (a + of_nat k) mod 2 ^ 48"
      by (simp only: unsigned_take_bit_eq) (rule take_bit_eq_mod)
    also have "\<dots> = (unat a + k) mod 2 ^ 64 mod 2 ^ 48" using k by (simp add: unat_word_ariths)
    also have "\<dots> = (unat a + k) mod 2 ^ 48" by (simp add: mod_mod_cancel)
    finally show ?thesis .
  qed
  ultimately have "(unat a + i) mod 2 ^ 48 = (unat a + j) mod 2 ^ 48" using assms by simp
  moreover have "(unat a + i) mod 2 ^ 48 \<noteq> (unat a + j) mod 2 ^ 48" by (rule mod_neq) (use assms in simp_all)
  ultimately show False by simp
qed

text \<open>The races that a write to \<open>l\<close> has with the recorded accesses.\<close>

definition write_races :: "act_ptr \<Rightarrow> clock_vector \<Rightarrow> thread_id \<Rightarrow> shadow_root \<Rightarrow> loc \<Rightarrow> data_race set" where
  "write_races a cv t root l = races_with a True l False (racing cv t (fst (history (shadow_of root l)))) \<union>
     races_with a True l True (racing cv t (snd (history (shadow_of root l))))"

lemma set_entry_add [simp]:
  "set_entry r' (add_races rs' (set_entry r (add_races rs s))) = set_entry r' (add_races (rs @ rs') s)"
  by (simp add: set_entry_def add_races_def)

text \<open>
  \<open>bytes_passed\<close>: the checks of all bytes queue their races and replace their histories;
  \<open>bytes_left\<close>: a byte with a race ends the thread, the bytes before it have no race.
\<close>

definition bytes_passed ::
  "act_ptr \<Rightarrow> clock_vector \<Rightarrow> thread_id \<Rightarrow> execution \<Rightarrow> execution \<Rightarrow> loc list \<Rightarrow> bool" where
  "bytes_passed a cv t s s' as \<longleftrightarrow> (\<exists>rs root. s' = set_entry root (add_races rs s) \<and>
    set rs = (\<Union>l\<in>set as. write_races a cv t (ex_shadow s) l) \<and>
    (\<forall>l\<in>set as. history (shadow_of root l) = ({}, access t (getClock cv t))) \<and>
    (\<forall>k. (\<forall>l\<in>set as. \<not> same_entry k l) \<longrightarrow> shadow_of root k = shadow_of (ex_shadow s) k))"

definition bytes_left ::
  "act_ptr \<Rightarrow> clock_vector \<Rightarrow> thread_id \<Rightarrow> execution \<Rightarrow> execution \<Rightarrow> loc list \<Rightarrow> loc \<Rightarrow> bool" where
  "bytes_left a cv t s s' pre l \<longleftrightarrow> (\<exists>r root. s' = set_entry root (report_race r s) \<and>
    r \<in> write_races a cv t (ex_shadow s) l \<and> (\<forall>l'\<in>set pre. write_races a cv t (ex_shadow s) l' = {}) \<and>
    (\<forall>l'\<in>set pre. history (shadow_of root l') = ({}, access t (getClock cv t))) \<and>
    (\<forall>k. (\<forall>l'\<in>set pre. \<not> same_entry k l') \<longrightarrow> history (shadow_of root k) = history (shadow_of (ex_shadow s) k)))"

lemma check_writes_outcome:
  assumes "own_action s t a cv" "list_all (\<lambda>l. shadow_ok (shadow_of (ex_shadow s) l)) as"
    and "sorted_wrt (\<lambda>l l'. \<not> same_entry l l' \<and> \<not> same_entry l' l) as"
  shows "\<exists>left s'. check_writes t as s = Some (left, s') \<and>
    (if isfeasibleprefix s \<and> (\<exists>l\<in>set as. write_races a cv t (ex_shadow s) l \<noteq> {})
     then left \<and> (\<exists>pre l post. as = pre @ l # post \<and> bytes_left a cv t s s' pre l)
     else \<not> left \<and> bytes_passed a cv t s s' as)"
  using assms
proof (induction as arbitrary: s)
  case Nil
  have "s = set_entry (ex_shadow s) (add_races [] s)" by (simp add: set_entry_def)
  then show ?case by (auto simp: bytes_passed_def intro!: exI [of _ "[]"] exI [of _ "ex_shadow s"])
next
  case (Cons l as)
  let ?W = "write_races a cv t"
  have ok: "shadow_ok (shadow_of (ex_shadow s) l)" using Cons.prems(2) by simp
  from race_check_write_outcome [OF Cons.prems(1) ok, folded write_races_def] obtain left1 s1 where
    r: "raceCheckWrite t l s = Some (left1, s1)" and
    out: "race_outcome s left1 s1 l (?W (ex_shadow s) l) (spec_write cv t (history (shadow_of (ex_shadow s) l)))"
    by blast
  show ?case
  proof (cases "isfeasibleprefix s \<and> ?W (ex_shadow s) l \<noteq> {}")
    case True
    with out have "left1" "reported s s1 (?W (ex_shadow s) l)" by (simp_all add: race_outcome_def)
    then have "bytes_left a cv t s s1 [] l" by (auto simp: reported_def bytes_left_def)
    moreover have "check_writes t (l # as) s = Some (True, s1)"
      using r \<open>left1\<close> by (simp add: unless_left_def)
    moreover have "\<exists>k\<in>set (l # as). ?W (ex_shadow s) k \<noteq> {}" using True by auto
    moreover have "\<exists>pre k post. l # as = pre @ k # post \<and> bytes_left a cv t s s1 pre k"
      using \<open>bytes_left a cv t s s1 [] l\<close> by (intro exI [of _ "[]"] exI [of _ l] exI [of _ as]) simp
    ultimately show ?thesis using True by (intro exI [of _ True] exI [of _ s1]) simp
  next
    case False
    with out have l1: "\<not> left1"
      and ch: "checked s s1 l (?W (ex_shadow s) l) (spec_write cv t (history (shadow_of (ex_shadow s) l)))"
      by (simp_all add: race_outcome_def split: if_splits)
    from ch obtain rs1 root1 where s1: "s1 = set_entry root1 (add_races rs1 s)" "set rs1 = ?W (ex_shadow s) l"
      "history (shadow_of root1 l) = ({}, access t (getClock cv t))"
      "\<And>k. \<not> same_entry k l \<Longrightarrow> shadow_of root1 k = shadow_of (ex_shadow s) k"
      by (auto simp: checked_def spec_write_def)
    have sh: "ex_shadow s1 = root1" using s1(1) by (simp add: set_entry_def)
    have same: "shadow_of root1 l' = shadow_of (ex_shadow s) l'" if "l' \<in> set as" for l'
      using Cons.prems(3) that s1(4) by simp
    have races: "?W root1 l' = ?W (ex_shadow s) l'" if "l' \<in> set as" for l'
      using same [OF that] by (simp add: write_races_def)
    have feas: "isfeasibleprefix s1 = isfeasibleprefix s" using s1(1) by simp
    have run: "check_writes t (l # as) s = check_writes t as s1" using r l1 by (simp add: unless_left_def)
    have cond: "(isfeasibleprefix s \<and> (\<exists>k\<in>set (l # as). ?W (ex_shadow s) k \<noteq> {})) =
        (isfeasibleprefix s1 \<and> (\<exists>k\<in>set as. ?W root1 k \<noteq> {}))"
      using False feas races by auto
    have "own_action s1 t a cv" "list_all (\<lambda>l. shadow_ok (shadow_of (ex_shadow s1) l)) as"
      "sorted_wrt (\<lambda>l l'. \<not> same_entry l l' \<and> \<not> same_entry l' l) as"
      using Cons.prems s1(1) same by (simp_all add: sh list_all_iff)
    from Cons.IH [OF this] obtain left s' where res: "check_writes t as s1 = Some (left, s')"
      and IH: "if isfeasibleprefix s1 \<and> (\<exists>k\<in>set as. ?W root1 k \<noteq> {})
       then left \<and> (\<exists>pre l post. as = pre @ l # post \<and> bytes_left a cv t s1 s' pre l)
       else \<not> left \<and> bytes_passed a cv t s1 s' as" unfolding sh by blast
    have l_apart: "\<not> same_entry l l'" if "l' \<in> set as" for l' using Cons.prems(3) that by simp
    show ?thesis
    proof (cases "isfeasibleprefix s1 \<and> (\<exists>k\<in>set as. ?W root1 k \<noteq> {})")
      case True
      with IH obtain pre l2 post where left: "left" and as: "as = pre @ l2 # post"
        and b: "bytes_left a cv t s1 s' pre l2" by auto
      from True feas False have none: "?W (ex_shadow s) l = {}" by blast
      then have s1': "s1 = set_entry root1 s" using s1(1,2) by simp
      from b obtain r root where b': "s' = set_entry root (report_race r s)"
        "r \<in> ?W (ex_shadow s) l2" "\<forall>l'\<in>set pre. ?W (ex_shadow s) l' = {}"
        "\<forall>l'\<in>set pre. history (shadow_of root l') = ({}, access t (getClock cv t))"
        "\<forall>k. (\<forall>l'\<in>set pre. \<not> same_entry k l') \<longrightarrow> history (shadow_of root k) = history (shadow_of root1 k)"
        using as races unfolding bytes_left_def sh by (auto simp: s1')
      have "history (shadow_of root l) = ({}, access t (getClock cv t))"
        using b'(5) l_apart as s1(3) by simp
      then have "bytes_left a cv t s s' (l # pre) l2"
        using b' none s1(4) unfolding bytes_left_def by (intro exI [of _ r] exI [of _ root]) auto
      then have "\<exists>pre k post. l # as = pre @ k # post \<and> bytes_left a cv t s s' pre k"
        using as by (intro exI [of _ "l # pre"] exI [of _ l2] exI [of _ post]) simp
      then show ?thesis
        using left res True unfolding run cond by (intro exI [of _ left] exI [of _ s']) simp
    next
      case stay: False
      with IH have "\<not> left" "bytes_passed a cv t s1 s' as" by (simp_all split: if_splits)
      then obtain rs root where b: "s' = set_entry root (add_races rs s1)"
        "set rs = (\<Union>l\<in>set as. ?W root1 l)"
        "\<forall>l\<in>set as. history (shadow_of root l) = ({}, access t (getClock cv t))"
        "\<forall>k. (\<forall>l\<in>set as. \<not> same_entry k l) \<longrightarrow> shadow_of root k = shadow_of root1 k"
        unfolding bytes_passed_def sh by blast
      have "set (rs1 @ rs) = (\<Union>l'\<in>set (l # as). ?W (ex_shadow s) l')" using s1(2) b(2) races by simp
      moreover have "s' = set_entry root (add_races (rs1 @ rs) s)" using b(1) s1(1) by simp
      moreover have "shadow_of root l = shadow_of root1 l" using b(4) l_apart by simp
      ultimately have "bytes_passed a cv t s s' (l # as)"
        using b(3,4) s1(3,4) unfolding bytes_passed_def
        by (intro exI [of _ "rs1 @ rs"] exI [of _ root]) auto
      then show ?thesis
        using res stay \<open>\<not> left\<close> unfolding run cond by (intro exI [of _ left] exI [of _ s']) simp
    qed
  qed
qed

subsection \<open>Bytes\<close>

lemma write_bytes_nth:
  assumes "n \<le> 8"
  shows "j < n \<Longrightarrow> write_bytes n a v m (a + of_nat j) = ucast (drop_bit (8 * j) v)"
    and "(\<And>j. j < n \<Longrightarrow> l \<noteq> a + of_nat j) \<Longrightarrow> write_bytes n a v m l = m l"
proof -
  have ne: "a + of_nat i \<noteq> a + of_nat j" if "i < j" "j < 8" for i j
    using bytes_apart [OF that, of a] by (auto simp: same_entry_def)
  have step: "write_bytes (Suc k) a v m = (write_bytes k a v m)(a + of_nat k := ucast (drop_bit (8 * k) v))" for k
    by (simp add: write_bytes_def)
  show "j < n \<Longrightarrow> write_bytes n a v m (a + of_nat j) = ucast (drop_bit (8 * j) v)"
    using assms
  proof (induction n)
    case (Suc n)
    show ?case
    proof (cases "j = n")
      case True
      then show ?thesis by (simp only: step fun_upd_same)
    next
      case False
      with Suc.prems have "j < n" by simp
      moreover from this have "a + of_nat j \<noteq> a + of_nat n" using Suc.prems ne by simp
      ultimately show ?thesis using Suc step by (simp del: add_left_cancel)
    qed
  qed simp
  show "(\<And>j. j < n \<Longrightarrow> l \<noteq> a + of_nat j) \<Longrightarrow> write_bytes n a v m l = m l"
    by (induction n) (simp_all add: step write_bytes_def [of 0])
qed

lemma read_write_bytes:
  assumes "n \<le> 8"
  shows "read_bytes n a (write_bytes n a v m) = take_bit (8 * n) v"
proof -
  have "map (write_bytes n a v m) (bytes_at n a) = map (\<lambda>j. ucast (drop_bit (8 * j) v)) [0..<n]"
    using write_bytes_nth(1) [OF assms] by (simp add: bytes_at_def)
  moreover have "horner_sum (\<lambda>x. ucast x) 256 (map (\<lambda>j. ucast (drop_bit (8 * j) v) :: 8 word) [0..<n]) = take_bit (8 * n) v"
    for n
  proof (induction n)
    case (Suc n)
    let ?b = "drop_bit (8 * n) v"
    have byte: "push_bit (8 * n) (ucast (ucast ?b :: 8 word)) = push_bit (8 * n) (take_bit 8 ?b)"
      by (rule arg_cong [where f = "push_bit (8 * n)"], rule bit_word_eqI) (auto simp: bit_simps)
    have pow: "(256 :: u64) ^ n = 2 ^ (8 * n)" by (simp add: power_mult)
    have "horner_sum (\<lambda>x. ucast x) 256 (map (\<lambda>j. ucast (drop_bit (8 * j) v) :: 8 word) [0..<Suc n]) =
        horner_sum (\<lambda>x. ucast x) 256 (map (\<lambda>j. ucast (drop_bit (8 * j) v) :: 8 word) [0..<n]) + 256 ^ n * ucast (ucast ?b :: 8 word)"
      by (simp add: horner_sum_append)
    also have "\<dots> = take_bit (8 * n) v + push_bit (8 * n) (ucast (ucast ?b :: 8 word))"
      unfolding Suc pow push_bit_eq_mult by (rule arg_cong2 [where f = "(+)", OF refl mult.commute])
    also have "\<dots> = take_bit (8 * n) v + push_bit (8 * n) (take_bit 8 ?b)" by (simp only: byte)
    also have "\<dots> = take_bit (8 * n) v OR push_bit (8 * n) (take_bit 8 ?b)"
      by (rule disjunctive_add_eq_or, rule bit_word_eqI) (auto simp: bit_simps)
    also have "\<dots> = take_bit (8 * Suc n) v" by (rule bit_word_eqI) (auto simp: bit_simps)
    finally show ?case .
  qed simp
  ultimately show ?thesis by (simp add: read_bytes_def)
qed

subsection \<open>Properties\<close>

lemma bytes_at_apart:
  assumes "n \<le> 8"
  shows "sorted_wrt (\<lambda>l l'. \<not> same_entry l l' \<and> \<not> same_entry l' l) (bytes_at n l)"
proof -
  have "sorted_wrt (\<lambda>i j. \<not> same_entry (l + of_nat i) (l + of_nat j) \<and> \<not> same_entry (l + of_nat j) (l + of_nat i)) [0..<n]"
  proof (rule sorted_wrt_mono_rel [OF _ sorted_wrt_upt])
    fix i j assume ij: "i \<in> set [0..<n]" "j \<in> set [0..<n]" "i < j"
    then have "\<not> same_entry (l + of_nat i) (l + of_nat j)" using assms by (intro bytes_apart) auto
    moreover from this have "\<not> same_entry (l + of_nat j) (l + of_nat i)"
      unfolding same_entry_def by (rule not_sym)
    ultimately show "\<not> same_entry (l + of_nat i) (l + of_nat j) \<and> \<not> same_entry (l + of_nat j) (l + of_nat i)" ..
  qed
  then show ?thesis by (simp add: bytes_at_def sorted_wrt_map)
qed

lemma bytes_at_split:
  assumes "bytes_at n l = pre @ k # post"
  shows "\<exists>i<n. pre = bytes_at i l \<and> k = l + of_nat i"
proof -
  let ?i = "length pre"
  have "length (bytes_at n l) = n" by (simp add: bytes_at_def)
  then have i: "?i < n" using assms by auto
  have "pre = take ?i (bytes_at n l)" "k = bytes_at n l ! ?i" using assms by simp_all
  with i show ?thesis by (intro exI [of _ ?i]) (simp add: bytes_at_def take_map)
qed

text \<open>
  C29: a store of up to 8 bytes checks its bytes in order. When the execution is a feasible prefix
  and a byte races with a recorded access, the thread is left at the first such byte: the memory
  is not written, a race of that byte is reported, only the bytes before it have the store as
  their recorded access and no other history changes. Otherwise the races of all bytes with their
  recorded accesses are queued, the store becomes the only access recorded for each of them, no
  other address is touched, and the memory then reads as the value at the address and is
  unchanged elsewhere.
\<close>

theorem store_checks_each_byte:
  assumes "n \<le> 8" "get_parent_action s t = Some (Some a)" "ma_tid (ex_acts s a) = t" "ma_cv (ex_acts s a) = cv"
    and "list_all (\<lambda>l. shadow_ok (shadow_of (ex_shadow s) l)) (bytes_at n l)"
  shows "\<exists>left s' m'. store_n n t l v (s, m) = Some (left, s', m') \<and>
    (if isfeasibleprefix s \<and> list_ex (\<lambda>k. write_races a cv t (ex_shadow s) k \<noteq> {}) (bytes_at n l)
     then left \<and> m' = m \<and> (\<exists>i<n. bytes_left a cv t s s' (bytes_at i l) (l + of_nat i))
     else \<not> left \<and> bytes_passed a cv t s s' (bytes_at n l) \<and> read_bytes n l m' = take_bit (8 * n) v \<and>
       (\<forall>k. k \<in> set (bytes_at n l) \<or> m' k = m k))"
proof -
  have own: "own_action s t a cv" using assms(2-4) by (simp add: own_action_def)
  from check_writes_outcome [OF own assms(5) bytes_at_apart [OF assms(1)]] obtain left s' where
    c: "check_writes t (bytes_at n l) s = Some (left, s')"
    and o: "if isfeasibleprefix s \<and> (\<exists>k\<in>set (bytes_at n l). write_races a cv t (ex_shadow s) k \<noteq> {})
     then left \<and> (\<exists>pre k post. bytes_at n l = pre @ k # post \<and> bytes_left a cv t s s' pre k)
     else \<not> left \<and> bytes_passed a cv t s s' (bytes_at n l)" by blast
  have st: "store_n n t l v (s, m) = Some (left, s', if left then m else write_bytes n l v m)"
    using c by (simp add: store_n_def)
  have mem: "k \<in> set (bytes_at n l) \<or> write_bytes n l v m k = m k" for k
  proof (rule disjCI)
    assume "write_bytes n l v m k \<noteq> m k"
    then obtain j where "j < n" "k = l + of_nat j" using write_bytes_nth(2) [OF assms(1)] by blast
    then show "k \<in> set (bytes_at n l)" by (auto simp: bytes_at_def)
  qed
  show ?thesis
  proof (cases "isfeasibleprefix s \<and> (\<exists>k\<in>set (bytes_at n l). write_races a cv t (ex_shadow s) k \<noteq> {})")
    case True
    with o have "left" "\<exists>i<n. bytes_left a cv t s s' (bytes_at i l) (l + of_nat i)"
      using bytes_at_split [of n l] by auto
    with st True show ?thesis by (auto simp: list_ex_iff)
  next
    case False
    with o have "\<not> left" "bytes_passed a cv t s s' (bytes_at n l)" by (simp_all split: if_splits)
    with st False read_write_bytes [OF assms(1), of l v m] mem show ?thesis
      by (intro exI [of _ left] exI [of _ s'] exI [of _ "write_bytes n l v m"]) (auto simp: list_ex_iff)
  qed
qed

text \<open>A store on a queueing execution, and one that leaves at its first byte.\<close>

theorem store_checks_each_byte_witness:
  "(\<exists>s' m'. store_16 2 100 0x1234 (sample_raced, \<lambda>_. 0) = Some (False, s', m') \<and> read_bytes 2 100 m' = 0x1234) \<and>
   (\<exists>s' i. store_16 2 100 0x1234 (sample_raced\<lparr>failed_promise := False\<rparr>, \<lambda>_. 0) = Some (True, s', \<lambda>_. 0) \<and>
     bytes_left 1 (new_clock_vector None 2 2) 2 (sample_raced\<lparr>failed_promise := False\<rparr>) s' (bytes_at i 100) (100 + of_nat i))"
proof -
  let ?c = "new_clock_vector None 2 2" and ?f = "sample_raced\<lparr>failed_promise := False\<rparr>"
  have h: "get_parent_action sample_raced 2 = Some (Some 1)" "ma_tid (ex_acts sample_raced 1) = 2"
    "ma_cv (ex_acts sample_raced 1) = ?c"
    "list_all (\<lambda>l. shadow_ok (shadow_of (ex_shadow sample_raced) l)) (bytes_at 2 100)"
    "get_parent_action ?f 2 = Some (Some 1)" "ma_tid (ex_acts ?f 1) = 2" "ma_cv (ex_acts ?f 1) = ?c"
    "list_all (\<lambda>l. shadow_ok (shadow_of (ex_shadow ?f) l)) (bytes_at 2 100)" by code_simp+
  have f: "isfeasibleprefix ?f" "\<not> isfeasibleprefix sample_raced" by code_simp+
  have "history (shadow_of (ex_shadow ?f) 100) = ({}, {(1, 1)})" "racing ?c 2 {(1, 1)} = {(1, 1)}"
    "bytes_at 2 100 = [100, 101]" by code_simp+
  then have r: "list_ex (\<lambda>k. write_races 1 ?c 2 (ex_shadow ?f) k \<noteq> {}) (bytes_at 2 100)"
    by (simp add: write_races_def races_with_def)
  have "take_bit 16 (0x1234 :: u64) = 0x1234" by simp
  with store_checks_each_byte [OF _ h(1-4), where v = "0x1234" and m = "\<lambda>_. 0"] f(2) show ?thesis
    using store_checks_each_byte [OF _ h(5-8), where v = "0x1234" and m = "\<lambda>_. 0"] f(1) r
    unfolding store_16_def by auto
qed

end
