(* ===== verification/Early_Memory.thy ===== *)
theory Early_Memory
  imports CDS_Prelude
begin

unbundle bit_operations_syntax

text \<open>
  The allocator of a checked program (\<open>mymemory.cc\<close>, for snapshots by page protection). Before the heap of
  the program exists, requests are served from a fixed array; afterwards they go to one of three heaps. The
  heaps themselves, \<open>mspace\<close>s of \<open>malloc.c\<close> and the one of the C library, are parameters: a null pointer is
  \<open>None\<close>. An exit of the process and a failed assertion are \<open>None\<close> as the result of a call.
\<close>

subsection \<open>State and calls\<close>

text \<open>
  \<open>user_context\<close> stands for \<open>!model || thread_current()\<close>. The array begins at the address \<open>bootstrapmemory\<close>,
  a parameter of the functions.
\<close>

record 'h malloc_state =
  bytes :: "loc \<Rightarrow> 8 word"
  early_offset :: u64
  has_user_snapshot_space :: bool
  switch_alloc :: bool
  user_context :: bool
  heaps :: 'h

record 'h heap_calls =
  mspace_malloc :: "u64 \<Rightarrow> 'h \<Rightarrow> loc option \<times> 'h"
  mspace_calloc :: "u64 \<Rightarrow> u64 \<Rightarrow> 'h \<Rightarrow> loc option \<times> 'h"
  mspace_realloc :: "loc \<Rightarrow> u64 \<Rightarrow> 'h \<Rightarrow> loc option \<times> 'h"
  mspace_free :: "loc \<Rightarrow> 'h \<Rightarrow> 'h"
  libc_malloc :: "u64 \<Rightarrow> 'h \<Rightarrow> loc option \<times> 'h"
  libc_free :: "loc \<Rightarrow> 'h \<Rightarrow> 'h"

definition BOOTSTRAPBYTES :: u64 where
  "BOOTSTRAPBYTES = 131072"

definition HandleEarlyAllocationRequest :: "loc \<Rightarrow> u64 \<Rightarrow> 'h malloc_state \<Rightarrow> (loc \<times> 'h malloc_state) option" where
  "HandleEarlyAllocationRequest bootstrapmemory sz st = (
     let sz = (sz + 7) AND NOT 7
     in if BOOTSTRAPBYTES - early_offset st < sz then None
        else Some (bootstrapmemory + early_offset st, st\<lparr>early_offset := early_offset st + sz\<rparr>))"

definition DontFree :: "loc \<Rightarrow> loc \<Rightarrow> bool" where
  "DontFree bootstrapmemory ptr \<longleftrightarrow> bootstrapmemory \<le> ptr \<and> ptr < bootstrapmemory + BOOTSTRAPBYTES"

text \<open>A pointer that a heap returns; \<open>must\<close>: a null pointer fails an assertion.\<close>

definition from_heap :: "bool \<Rightarrow> loc option \<times> 'h \<Rightarrow> 'h malloc_state \<Rightarrow> (loc option \<times> 'h malloc_state) option" where
  "from_heap must = (\<lambda>(p, h) st. do { ASSERT (must \<longrightarrow> p \<noteq> None); Some (p, st\<lparr>heaps := h\<rparr>) })"

definition user_malloc :: "'h heap_calls \<Rightarrow> u64 \<Rightarrow> 'h malloc_state \<Rightarrow> (loc option \<times> 'h malloc_state) option" where
  "user_malloc c sz st = from_heap True (mspace_malloc c sz (heaps st)) st"

definition malloc :: "'h heap_calls \<Rightarrow> loc \<Rightarrow> u64 \<Rightarrow> 'h malloc_state \<Rightarrow> (loc option \<times> 'h malloc_state) option" where
  "malloc c bootstrapmemory sz st =
     (if has_user_snapshot_space st
      then if switch_alloc st then from_heap False (libc_malloc c sz (heaps st)) st
           else do { ASSERT (user_context st); user_malloc c sz st }
      else map_option (apfst Some) (HandleEarlyAllocationRequest bootstrapmemory sz st))"

definition free :: "'h heap_calls \<Rightarrow> loc \<Rightarrow> loc \<Rightarrow> 'h malloc_state \<Rightarrow> 'h malloc_state" where
  "free c bootstrapmemory ptr st =
     (if DontFree bootstrapmemory ptr then st
      else if switch_alloc st then st\<lparr>heaps := libc_free c ptr (heaps st)\<rparr>
      else st\<lparr>heaps := mspace_free c ptr (heaps st)\<rparr>)"

definition realloc :: "'h heap_calls \<Rightarrow> loc \<Rightarrow> u64 \<Rightarrow> 'h malloc_state \<Rightarrow> (loc option \<times> 'h malloc_state) option" where
  "realloc c ptr sz st = from_heap True (mspace_realloc c ptr sz (heaps st)) st"

definition memset_zero :: "loc \<Rightarrow> u64 \<Rightarrow> (loc \<Rightarrow> 8 word) \<Rightarrow> loc \<Rightarrow> 8 word" where
  "memset_zero p n m = (\<lambda>a. if a - p < n then 0 else m a)"

definition calloc :: "'h heap_calls \<Rightarrow> loc \<Rightarrow> u64 \<Rightarrow> u64 \<Rightarrow> 'h malloc_state \<Rightarrow> (loc option \<times> 'h malloc_state) option" where
  "calloc c bootstrapmemory num sz st =
     (if has_user_snapshot_space st then from_heap True (mspace_calloc c num sz (heaps st)) st
      else do {
        (tmp, st) \<leftarrow> HandleEarlyAllocationRequest bootstrapmemory (sz * num) st;
        Some (Some tmp, st\<lparr>bytes := memset_zero tmp (sz * num) (bytes st)\<rparr>)
      })"

text \<open>The operators and the functions for threads are the calls above.\<close>

definition operator_new :: "'h heap_calls \<Rightarrow> loc \<Rightarrow> u64 \<Rightarrow> 'h malloc_state \<Rightarrow> (loc option \<times> 'h malloc_state) option" where
  "operator_new c bootstrapmemory sz = malloc c bootstrapmemory sz"
definition operator_delete :: "'h heap_calls \<Rightarrow> loc \<Rightarrow> loc \<Rightarrow> 'h malloc_state \<Rightarrow> 'h malloc_state" where
  "operator_delete c bootstrapmemory p = free c bootstrapmemory p"
definition Thread_malloc :: "'h heap_calls \<Rightarrow> u64 \<Rightarrow> 'h malloc_state \<Rightarrow> (loc option \<times> 'h malloc_state) option" where
  "Thread_malloc c sz = user_malloc c sz"
definition Thread_free :: "'h heap_calls \<Rightarrow> loc \<Rightarrow> loc \<Rightarrow> 'h malloc_state \<Rightarrow> 'h malloc_state" where
  "Thread_free c bootstrapmemory p = free c bootstrapmemory p"

subsection \<open>Blocks of the array\<close>

text \<open>Calls before the heap exists, with the sizes they ask for; each answers the block it returned.\<close>

datatype alloc_call = Malloc u64 | Calloc u64 u64

primrec asked :: "alloc_call \<Rightarrow> nat" where
  "asked (Malloc sz) = unat sz"
| "asked (Calloc num sz) = unat num * unat sz"

fun early_call :: "'h heap_calls \<Rightarrow> loc \<Rightarrow> alloc_call \<Rightarrow> 'h malloc_state \<Rightarrow> (loc option \<times> 'h malloc_state) option" where
  "early_call c b (Malloc sz) st = malloc c b sz st"
| "early_call c b (Calloc num sz) st = calloc c b num sz st"

fun early_calls :: "'h heap_calls \<Rightarrow> loc \<Rightarrow> alloc_call list \<Rightarrow> 'h malloc_state \<Rightarrow> (loc list \<times> 'h malloc_state) option" where
  "early_calls c b [] st = Some ([], st)"
| "early_calls c b (k # ks) st = do {
     (p, st) \<leftarrow> early_call c b k st;
     p \<leftarrow> p;
     (ps, st) \<leftarrow> early_calls c b ks st;
     Some (p # ps, st)
   }"

text \<open>Sizes whose rounding does not wrap, and an array that does not wrap around the address space.\<close>

abbreviation small :: "alloc_call \<Rightarrow> bool" where
  "small k \<equiv> asked k + 7 < 2 ^ 64"

definition array_ok :: "loc \<Rightarrow> bool" where
  "array_ok b \<longleftrightarrow> unat b + 131072 < 2 ^ 64"

definition early_state :: "'h malloc_state \<Rightarrow> bool" where
  "early_state st \<longleftrightarrow> \<not> has_user_snapshot_space st \<and> unat (early_offset st) \<le> 131072 \<and> 8 dvd unat (early_offset st)"

lemma unat_round_up:
  assumes "unat sz + 7 < 2 ^ 64"
  shows "unat ((sz + 7) AND NOT 7 :: u64) = (unat sz + 7) div 8 * 8"
proof -
  have "unat (sz + 7) = unat sz + 7" using assms by (simp add: unat_word_ariths)
  moreover have "(sz + 7) AND NOT 7 = (sz + 7) AND NOT (mask 3)" by (simp add: mask_eq_exp_minus_1)
  moreover have "(sz + 7) AND NOT (mask 3) = push_bit 3 (drop_bit 3 (sz + 7))"
    by (rule bit_word_eqI) (auto simp: bit_simps)
  moreover have "unat (push_bit 3 (drop_bit 3 w)) = unat w div 8 * 8" for w :: u64
  proof -
    have "unat w div 8 * 8 < 2 ^ 64" using unsigned_less [of w, where 'a = nat] by simp
    then show ?thesis by (simp add: push_bit_eq_mult drop_bit_eq_div unat_div unat_word_ariths)
  qed
  ultimately show ?thesis by simp
qed

lemma early_request:
  assumes r: "HandleEarlyAllocationRequest b sz st = Some (p, st')"
    and "unat sz + 7 < 2 ^ 64" "early_state st" "array_ok b"
  shows "early_state st' \<and> unat p = unat b + unat (early_offset st) \<and>
    unat (early_offset st') = unat (early_offset st) + (unat sz + 7) div 8 * 8 \<and> bytes st' = bytes st"
proof -
  let ?o = "unat (early_offset st)" and ?n = "(unat sz + 7) div 8 * 8"
  have "unat (BOOTSTRAPBYTES - early_offset st) = 131072 - ?o"
    using assms(3) by (simp add: BOOTSTRAPBYTES_def early_state_def unat_sub word_le_nat_alt)
  with r have st': "st' = st\<lparr>early_offset := early_offset st + ((sz + 7) AND NOT 7)\<rparr>" "p = b + early_offset st"
    and fits: "?n \<le> 131072 - ?o"
    by (auto simp: HandleEarlyAllocationRequest_def Let_def word_less_nat_alt unat_round_up [OF assms(2), simplified] split: if_splits)
  have tot: "?o + ?n \<le> 131072"
    using fits assms(3) by (simp only: early_state_def le_diff_conv2 add.commute)
  then have "?o + ?n < 2 ^ 64" by (rule le_less_trans) simp
  then have "unat (early_offset st + ((sz + 7) AND NOT 7)) = ?o + ?n"
    by (subst unat_add_lem [THEN iffD1]) (simp_all add: unat_round_up [OF assms(2), simplified] early_state_def)
  moreover have "unat (b + early_offset st) = unat b + ?o"
    using assms(3,4) by (subst unat_add_lem [THEN iffD1]) (simp_all add: early_state_def array_ok_def)
  ultimately show ?thesis using st' tot assms(3) by (simp add: early_state_def)
qed

text \<open>What a block holds: \<open>calloc\<close> clears it.\<close>

definition cleared :: "alloc_call \<Rightarrow> loc \<Rightarrow> (loc \<Rightarrow> 8 word) \<Rightarrow> bool" where
  "cleared k p m = (case k of Malloc _ \<Rightarrow> True
     | Calloc _ _ \<Rightarrow> list_all (\<lambda>i. m (p + of_nat i) = 0) [0..<asked k])"

text \<open>The block of a call between two offsets of the array.\<close>

definition block_between :: "loc \<Rightarrow> nat \<Rightarrow> nat \<Rightarrow> alloc_call \<Rightarrow> loc \<Rightarrow> bool" where
  "block_between b from_o to_o k p \<longleftrightarrow>
     unat b + from_o \<le> unat p \<and> unat p + asked k \<le> unat b + to_o \<and> 8 dvd unat p - unat b"

lemma memset_zero_out:
  assumes "unat a < unat p \<or> unat p + unat n \<le> unat a" "unat p + unat n < 2 ^ 64"
  shows "memset_zero p n m a = m a"
proof -
  have "\<not> a - p < n"
  proof (cases "p \<le> a")
    case True
    with assms show ?thesis by (auto simp: word_less_nat_alt word_le_nat_alt unat_sub)
  next
    case False
    then have l: "unat a < unat p" by (simp add: word_le_nat_alt)
    have "unat (a - p) = 2 ^ 64 + unat a - unat p"
      using False unat_sub_if' [of a p] by (simp add: word_le_nat_alt)
    with assms(2) l show ?thesis by (simp add: word_less_nat_alt)
  qed
  then show ?thesis by (simp add: memset_zero_def)
qed

lemma early_step:
  assumes "early_call c b k st = Some (Some p, st')" "small k" "early_state st" "array_ok b"
  shows "early_state st'" "block_between b (unat (early_offset st)) (unat (early_offset st')) k p"
    "cleared k p (bytes st')" "\<And>a. unat a < unat b + unat (early_offset st) \<Longrightarrow> bytes st' a = bytes st a"
proof -
  let ?n = "case k of Malloc sz \<Rightarrow> sz | Calloc num sz \<Rightarrow> sz * num"
  have n: "unat ?n = asked k" using assms(2) by (cases k) (simp_all add: unat_word_ariths mult.commute)
  from assms(1,3) obtain st1 where r: "HandleEarlyAllocationRequest b ?n st = Some (p, st1)"
    and st': "st' = (case k of Malloc _ \<Rightarrow> st1 | Calloc _ _ \<Rightarrow> st1\<lparr>bytes := memset_zero p ?n (bytes st1)\<rparr>)"
    by (cases k) (auto simp: malloc_def calloc_def early_state_def bind_eq_Some_conv)
  have small: "unat ?n + 7 < 2 ^ 64" using assms(2) n by simp
  note e = early_request [OF r small assms(3,4)]
  have same: "early_state st' = early_state st1" "early_offset st' = early_offset st1"
    by (cases k; simp add: st' early_state_def)+
  with e show "early_state st'" by simp
  have le: "asked k \<le> (asked k + 7) div 8 * 8" by linarith
  have off: "8 dvd unat (early_offset st)" "unat (early_offset st1) \<le> 131072" using assms(3) e by (simp_all add: early_state_def)
  show "block_between b (unat (early_offset st)) (unat (early_offset st')) k p"
    unfolding block_between_def same(2) using e le n off(1) by simp
  have fits: "unat p + unat ?n < 2 ^ 64" using e le n off(2) assms(4) unfolding array_ok_def by linarith
  show "cleared k p (bytes st')"
    using n by (cases k) (auto simp: cleared_def list_all_iff st' memset_zero_def word_less_nat_alt unat_of_nat take_bit_nat_eq_self)
  show "bytes st' a = bytes st a" if "unat a < unat b + unat (early_offset st)" for a
    using that e fits by (cases k) (auto simp: st' intro!: memset_zero_out)
qed

lemma block_between_mono:
  "block_between b m n k p \<Longrightarrow> m' \<le> m \<Longrightarrow> n \<le> n' \<Longrightarrow> block_between b m' n' k p"
  by (auto simp: block_between_def)

lemma early_calls_blocks:
  assumes "early_calls c b ks st = Some (ps, st')" "list_all small ks" "early_state st" "array_ok b"
  shows "early_state st' \<and> unat (early_offset st) \<le> unat (early_offset st') \<and>
    list_all2 (block_between b (unat (early_offset st)) (unat (early_offset st'))) ks ps \<and>
    sorted_wrt (\<lambda>(k, p) (k', p'). unat p + asked k \<le> unat p') (zip ks ps) \<and>
    list_all2 (\<lambda>k p. cleared k p (bytes st')) ks ps \<and>
    (\<forall>a. unat a < unat b + unat (early_offset st) \<longrightarrow> bytes st' a = bytes st a)"
  using assms
proof (induction ks arbitrary: st ps)
  case (Cons k ks)
  from Cons.prems(1) obtain p st1 qs where f: "early_call c b k st = Some (Some p, st1)"
    and r: "early_calls c b ks st1 = Some (qs, st')" and ps: "ps = p # qs"
    by (auto simp: bind_eq_Some_conv)
  have small: "small k" using Cons.prems(2) by simp
  note e = early_step [OF f small Cons.prems(3,4)]
  have IH: "early_state st'" "unat (early_offset st1) \<le> unat (early_offset st')"
    "list_all2 (block_between b (unat (early_offset st1)) (unat (early_offset st'))) ks qs"
    "sorted_wrt (\<lambda>(k, p) (k', p'). unat p + asked k \<le> unat p') (zip ks qs)"
    "list_all2 (\<lambda>k p. cleared k p (bytes st')) ks qs"
    "\<And>a. unat a < unat b + unat (early_offset st1) \<Longrightarrow> bytes st' a = bytes st1 a"
    using Cons.IH [OF r _ e(1) Cons.prems(4)] Cons.prems(2) by auto
  have mono: "unat (early_offset st) \<le> unat (early_offset st1)" using e(2) by (auto simp: block_between_def)
  have ends: "unat p + asked k \<le> unat b + unat (early_offset st1)" using e(2) by (simp add: block_between_def)
  have "list_all2 (block_between b (unat (early_offset st)) (unat (early_offset st'))) ks qs"
    using IH(3) by (rule list_all2_mono) (rule block_between_mono [OF _ mono order_refl])
  moreover have "\<forall>(k', p')\<in>set (zip ks qs). unat p + asked k \<le> unat p'"
    using IH(3) ends by (fastforce simp: list_all2_iff block_between_def)
  moreover have "cleared k p (bytes st')"
  proof (cases k)
    case (Calloc num sz)
    have "bytes st' (p + of_nat i) = bytes st1 (p + of_nat i)" if "i < asked k" for i
    proof (rule IH(6))
      have "asked k + 7 < 2 ^ 64" using small .
      moreover have "unat p + i < 2 ^ 64" using that ends IH(1,2) Cons.prems(4)
        unfolding early_state_def array_ok_def by linarith
      ultimately have "unat (p + of_nat i) = unat p + i"
        using that by (simp add: unat_word_ariths unat_of_nat take_bit_nat_eq_self)
      then show "unat (p + of_nat i) < unat b + unat (early_offset st1)" using that ends by simp
    qed
    with e(3) show ?thesis by (simp add: cleared_def Calloc list_all_iff)
  qed (simp add: cleared_def)
  ultimately show ?case
    using e(4) IH(1,2,4-6) block_between_mono [OF e(2) order_refl IH(2)] mono
    by (auto simp: ps)
qed simp

subsection \<open>Properties\<close>

text \<open>
  C31: The blocks that \<open>malloc\<close> and \<open>calloc\<close> return before the heap exists lie within the array, at
  multiples of 8 bytes, in the order of the calls and without overlap; the blocks of \<open>calloc\<close> are zero
  after all the calls, and a non-empty block given to \<open>free\<close>, at whatever later time, is left alone and
  never reaches a heap.
\<close>

theorem early_blocks_disjoint:
  assumes "early_calls c b ks st = Some (ps, st')" "list_all small ks" "early_state st" "array_ok b"
  shows "list_all2 (block_between b 0 131072) ks ps \<and>
    sorted_wrt (\<lambda>(k, p) (k', p'). unat p + asked k \<le> unat p') (zip ks ps) \<and>
    list_all2 (\<lambda>k p. cleared k p (bytes st') \<and> (asked k = 0 \<or> free c b p later = later)) ks ps"
proof -
  note e = early_calls_blocks [OF assms]
  have "block_between b 0 131072 k p \<Longrightarrow> asked k = 0 \<or> free c b p later = later" for k p
    using assms(4) by (auto simp: block_between_def free_def DontFree_def BOOTSTRAPBYTES_def array_ok_def
        word_le_nat_alt word_less_nat_alt unat_word_ariths)
  moreover have blocks: "list_all2 (block_between b 0 131072) ks ps"
    by (rule list_all2_mono [where P = "block_between b (unat (early_offset st)) (unat (early_offset st'))"])
      (use e in \<open>auto simp: early_state_def intro: block_between_mono\<close>)
  ultimately have "list_all2 (\<lambda>k p. asked k = 0 \<or> free c b p later = later) ks ps"
    by (auto intro: list_all2_mono)
  with e blocks show ?thesis by (auto simp: list_all2_conv_all_nth)
qed

definition no_heaps :: "unit heap_calls" where
  "no_heaps = \<lparr>mspace_malloc = (\<lambda>_ h. (None, h)), mspace_calloc = (\<lambda>_ _ h. (None, h)),
     mspace_realloc = (\<lambda>_ _ h. (None, h)), mspace_free = (\<lambda>_ h. h), libc_malloc = (\<lambda>_ h. (None, h)), libc_free = (\<lambda>_ h. h)\<rparr>"

definition at_start :: "unit malloc_state" where
  "at_start = \<lparr>bytes = (\<lambda>_. 0xFF), early_offset = 0, has_user_snapshot_space = False, switch_alloc = False,
     user_context = True, heaps = ()\<rparr>"

theorem early_blocks_disjoint_witness:
  "\<exists>st'. early_calls no_heaps 0x1000 [Malloc 5, Calloc 3 3, Malloc 131000] at_start = Some ([0x1000, 0x1008, 0x1018], st') \<and>
     list_all (\<lambda>i. bytes st' (0x1008 + of_nat i) = 0) [0..<9] \<and> free no_heaps 0x1000 0x1008 st' = st'"
proof -
  let ?ks = "[Malloc 5, Calloc 3 3, Malloc 131000]"
  have "map_option fst (early_calls no_heaps 0x1000 ?ks at_start) = Some [0x1000, 0x1008, 0x1018]" by code_simp
  then obtain st' where r: "early_calls no_heaps 0x1000 ?ks at_start = Some ([0x1000, 0x1008, 0x1018], st')" by auto
  have "early_state at_start" "array_ok 0x1000" "list_all small ?ks"
    by (simp_all add: early_state_def at_start_def array_ok_def)
  with early_blocks_disjoint [OF r, of st'] r show ?thesis by (simp add: cleared_def)
qed

end
