(* ===== verification/Snapshot.thy ===== *)
theory Snapshot
  imports CDS_Prelude
begin

text \<open>
  Snapshots of memory (\<open>snapshot.cc\<close>, \<open>config.h\<close>): the two systems that page protection and \<open>fork\<close>
  give. The machine is part of the state: the bytes of memory and the protection of each page, where
  a store to a protected page enters the fault handler. A failed system call, a segmentation fault
  and a resource that has run out end the process: the value \<open>None\<close>.
\<close>

type_synonym memory = "loc \<Rightarrow> 8 word"
type_synonym snapshot_page = "12 word \<Rightarrow> 8 word"
type_synonym snapshot_id = nat

subsection \<open>Pages\<close>

definition PAGESIZE :: loc where
  "PAGESIZE = 4096"

definition PageAlignAddressUpward :: "loc \<Rightarrow> loc" where
  "PageAlignAddressUpward addr = (addr + PAGESIZE - 1) AND NOT (PAGESIZE - 1)"

definition ReturnPageAlignedAddress :: "loc \<Rightarrow> loc" where
  "ReturnPageAlignedAddress addr = addr AND NOT (PAGESIZE - 1)"

text \<open>\<open>memcpy\<close> of one page, out of memory and back.\<close>

definition read_page :: "loc \<Rightarrow> memory \<Rightarrow> snapshot_page" where
  "read_page base m = (\<lambda>off. m (base + ucast off))"

definition write_page :: "loc \<Rightarrow> snapshot_page \<Rightarrow> memory \<Rightarrow> memory" where
  "write_page base page m = (\<lambda>a. if ReturnPageAlignedAddress a = base then page (ucast a) else m a)"

subsection \<open>Snapshots by page protection\<close>

record memory_region =
  basePtr :: loc
  sizeInPages :: nat

text \<open>
  \<open>writable\<close> is \<open>None\<close> for a page that is not mapped. The arrays of the backing store are functions
  of the index, written only below their maximal size; the regions are a list of length \<open>lastRegion\<close>.
\<close>

record mprot_snapshotter =
  mem :: memory
  writable :: "loc \<Rightarrow> bool option"
  regionsToSnapShot :: "memory_region list"
  backingStore :: "nat \<Rightarrow> snapshot_page"
  backingRecords :: "nat \<Rightarrow> loc"
  snapShots :: "nat \<Rightarrow> nat"
  lastSnapShot :: nat
  lastBackingPage :: nat
  maxRegions :: nat
  maxBackingPages :: nat
  maxSnapShots :: nat

definition new_mprot_snapshotter :: "memory \<Rightarrow> (loc \<Rightarrow> bool option) \<Rightarrow> nat \<Rightarrow> nat \<Rightarrow> nat \<Rightarrow> mprot_snapshotter" where
  "new_mprot_snapshotter m w backing_pages snapshots regions =
     \<lparr>mem = m, writable = w, regionsToSnapShot = [], backingStore = (\<lambda>_ _. 0), backingRecords = (\<lambda>_. 0),
      snapShots = (\<lambda>_. 0), lastSnapShot = 0, lastBackingPage = 0, maxRegions = regions,
      maxBackingPages = backing_pages, maxSnapShots = snapshots\<rparr>"

definition region_pages :: "memory_region \<Rightarrow> loc list" where
  "region_pages r = map (\<lambda>k. basePtr r + of_nat k * PAGESIZE) [0..<sizeInPages r]"

text \<open>\<open>mprotect\<close> needs an aligned address and mapped pages.\<close>

definition protect_region :: "bool \<Rightarrow> memory_region \<Rightarrow> mprot_snapshotter \<Rightarrow> mprot_snapshotter option" where
  "protect_region w r st = do {
     ASSERT (ReturnPageAlignedAddress (basePtr r) = basePtr r);
     ASSERT (list_all (\<lambda>p. writable st p \<noteq> None) (region_pages r));
     Some (st\<lparr>writable := fold (\<lambda>p f. f(p \<mapsto> w)) (region_pages r) (writable st)\<rparr>)
   }"

text \<open>The fault handler, for a fault at a mapped page.\<close>

definition mprot_handle_pf :: "loc \<Rightarrow> mprot_snapshotter \<Rightarrow> mprot_snapshotter option" where
  "mprot_handle_pf si_addr st = (
     let addr = ReturnPageAlignedAddress si_addr; backingpage = lastBackingPage st;
         st = st\<lparr>lastBackingPage := lastBackingPage st + 1\<rparr>
     in do {
       ASSERT (backingpage \<noteq> maxBackingPages st);
       Some (st\<lparr>backingStore := (backingStore st)(backingpage := read_page addr (mem st)),
                backingRecords := (backingRecords st)(backingpage := addr),
                writable := (writable st)(addr \<mapsto> True)\<rparr>)
     })"

text \<open>A store of the program: it is tried again after the handler has returned.\<close>

definition mprot_store :: "loc \<Rightarrow> 8 word \<Rightarrow> mprot_snapshotter \<Rightarrow> mprot_snapshotter option" where
  "mprot_store a v st = do {
     w \<leftarrow> writable st (ReturnPageAlignedAddress a);
     st \<leftarrow> (if w then Some st else mprot_handle_pf a st);
     Some (st\<lparr>mem := (mem st)(a := v)\<rparr>)
   }"

definition mprot_add_to_snapshot :: "loc \<Rightarrow> nat \<Rightarrow> mprot_snapshotter \<Rightarrow> mprot_snapshotter option" where
  "mprot_add_to_snapshot addr numPages st = do {
     ASSERT (length (regionsToSnapShot st) \<noteq> maxRegions st);
     Some (st\<lparr>regionsToSnapShot := regionsToSnapShot st @ [\<lparr>basePtr = addr, sizeInPages = numPages\<rparr>]\<rparr>)
   }"

definition mprot_take_snapshot :: "mprot_snapshotter \<Rightarrow> (snapshot_id \<times> mprot_snapshotter) option" where
  "mprot_take_snapshot st = do {
     st \<leftarrow> for_each (protect_region False) (regionsToSnapShot st) st;
     let snapshot = lastSnapShot st;
     ASSERT (snapshot \<noteq> maxSnapShots st);
     Some (snapshot, st\<lparr>lastSnapShot := snapshot + 1,
       snapShots := (snapShots st)(snapshot := lastBackingPage st)\<rparr>)
   }"

text \<open>
  Copying a saved page back. The page is writable; otherwise the copy would enter the handler, which
  would save pages while they are restored.
\<close>

definition restore_page :: "nat \<Rightarrow> mprot_snapshotter \<Rightarrow> mprot_snapshotter option" where
  "restore_page page st = do {
     ASSERT (writable st (backingRecords st page) = Some True);
     Some (st\<lparr>mem := write_page (backingRecords st page) (backingStore st page) (mem st)\<rparr>)
   }"

fun restore_first :: "loc set \<Rightarrow> nat list \<Rightarrow> mprot_snapshotter \<Rightarrow> mprot_snapshotter option" where
  "restore_first duplicateMap [] st = Some st"
| "restore_first duplicateMap (page # pages) st =
     (if backingRecords st page \<in> duplicateMap then restore_first duplicateMap pages st
      else do {
        st \<leftarrow> restore_page page st;
        restore_first (insert (backingRecords st page) duplicateMap) pages st
      })"

text \<open>
  \<open>tuned\<close> stands for the configuration \<open>USE_MPROTECT_SNAPSHOT == 2\<close>: a roll back to the latest
  snapshot restores the pages and keeps them writable and saved.
\<close>

definition mprot_roll_back :: "bool \<Rightarrow> snapshot_id \<Rightarrow> mprot_snapshotter \<Rightarrow> mprot_snapshotter option" where
  "mprot_roll_back tuned theID st = (
     let pages = [snapShots st theID..<lastBackingPage st]
     in if tuned \<and> lastSnapShot st = theID + 1 then for_each restore_page pages st
        else do {
          ASSERT (theID < maxSnapShots st);
          st \<leftarrow> for_each (protect_region True) (regionsToSnapShot st) st;
          st \<leftarrow> restore_first {} pages st;
          map_option snd (mprot_take_snapshot
            (st\<lparr>lastSnapShot := theID, lastBackingPage := snapShots st theID\<rparr>))
        })"

subsection \<open>Snapshots by processes\<close>

text \<open>
  A process keeps its own memory and the number of the snapshot it stands for; it waits for its child.
  What the processes share is the id to roll back to and the next snapshot number. The running process
  is the innermost one. The shared heap and the stack of the program are not restored and not part of
  the memory here.
\<close>

record process =
  proc_snapshotid :: snapshot_id
  proc_mem :: memory

record fork_snapshotter =
  running :: process
  waiting :: "process list"
  mIDToRollback :: "snapshot_id option"
  currSnapShotID :: snapshot_id

definition new_fork_snapshotter :: "memory \<Rightarrow> fork_snapshotter" where
  "new_fork_snapshotter m = \<lparr>running = \<lparr>proc_snapshotid = 0, proc_mem = m\<rparr>, waiting = [],
     mIDToRollback = None, currSnapShotID = 0\<rparr>"

definition fork_store :: "loc \<Rightarrow> 8 word \<Rightarrow> fork_snapshotter \<Rightarrow> fork_snapshotter option" where
  "fork_store a v st = Some (st\<lparr>running := (running st)\<lparr>proc_mem := (proc_mem (running st))(a := v)\<rparr>\<rparr>)"

text \<open>One round of the loop of a process: it forks, and the child goes on with a copy.\<close>

definition fork_child :: "process \<Rightarrow> fork_snapshotter \<Rightarrow> fork_snapshotter" where
  "fork_child p st = st\<lparr>currSnapShotID := proc_snapshotid p + 1, waiting := p # waiting st, running := p\<rparr>"

definition fork_take_snapshot :: "fork_snapshotter \<Rightarrow> (snapshot_id \<times> fork_snapshotter) option" where
  "fork_take_snapshot st = (
     let p = (running st)\<lparr>proc_snapshotid := currSnapShotID st\<rparr>; st = fork_child p st
     in Some (proc_snapshotid (running st), st))"

text \<open>
  The waiting processes exit from the inside out until one has the number to roll back to; it forks a
  new child. Without such a process the program has ended.
\<close>

fun fork_unwind :: "process list \<Rightarrow> fork_snapshotter \<Rightarrow> fork_snapshotter option" where
  "fork_unwind [] st = None"
| "fork_unwind (p # ps) st =
     (if mIDToRollback st \<noteq> Some (proc_snapshotid p) then fork_unwind ps st
      else Some (fork_child p (st\<lparr>waiting := ps\<rparr>)))"

definition fork_roll_back :: "snapshot_id \<Rightarrow> fork_snapshotter \<Rightarrow> fork_snapshotter option" where
  "fork_roll_back theID st = do {
     st \<leftarrow> fork_unwind (waiting st) (st\<lparr>mIDToRollback := Some theID\<rparr>);
     Some (st\<lparr>mIDToRollback := None\<rparr>)
   }"

subsection \<open>The specification\<close>

text \<open>
  The images of memory at the live snapshots. A roll back restores the addresses the system covers and
  drops the later images.
\<close>

datatype snap_op = Store loc "8 word" | Take | RollBack snapshot_id

fun image_op :: "(loc \<Rightarrow> bool) \<Rightarrow> snap_op \<Rightarrow> memory \<times> memory list \<Rightarrow> (memory \<times> memory list) option" where
  "image_op covered (Store a v) (m, images) = Some (m(a := v), images)"
| "image_op covered Take (m, images) = Some (m, images @ [m])"
| "image_op covered (RollBack i) (m, images) =
     (if i < length images
      then Some (\<lambda>a. if covered a then (images ! i) a else m a, take (i + 1) images) else None)"

fun snap_op_step ::
  "('s \<Rightarrow> (snapshot_id \<times> 's) option) \<Rightarrow> (snapshot_id \<Rightarrow> 's \<Rightarrow> 's option) \<Rightarrow> (loc \<Rightarrow> 8 word \<Rightarrow> 's \<Rightarrow> 's option) \<Rightarrow>
   snap_op \<Rightarrow> 's \<Rightarrow> 's option" where
  "snap_op_step take_snap roll store (Store a v) s = store a v s"
| "snap_op_step take_snap roll store Take s = map_option snd (take_snap s)"
| "snap_op_step take_snap roll store (RollBack i) s = roll i s"

text \<open>
  What a snapshot system promises on the covered addresses; \<open>ok\<close> relates a state to its images, which
  count on these addresses only.
\<close>

locale snapshot_system =
  fixes take_snap :: "'s \<Rightarrow> (snapshot_id \<times> 's) option"
    and roll :: "snapshot_id \<Rightarrow> 's \<Rightarrow> 's option"
    and store :: "loc \<Rightarrow> 8 word \<Rightarrow> 's \<Rightarrow> 's option"
    and view :: "'s \<Rightarrow> memory"
    and covered :: "loc \<Rightarrow> bool"
    and ok :: "memory list \<Rightarrow> 's \<Rightarrow> bool"
  assumes store_law: "ok images s \<Longrightarrow> store a v s = Some s' \<Longrightarrow> ok images s' \<and> view s' = (view s)(a := v)"
    and take_law: "ok images s \<Longrightarrow> take_snap s = Some (i, s') \<Longrightarrow> \<forall>a. covered a \<longrightarrow> m a = view s a \<Longrightarrow>
      i = length images \<and> ok (images @ [m]) s' \<and> view s' = view s"
    and roll_law: "ok images s \<Longrightarrow> i < length images \<Longrightarrow>
      \<exists>s'. roll i s = Some s' \<and> ok (take (i + 1) images) s' \<and> (\<forall>a. covered a \<longrightarrow> view s' a = (images ! i) a)"
begin

abbreviation "step \<equiv> snap_op_step take_snap roll store"

definition sees :: "'s \<Rightarrow> memory \<times> memory list \<Rightarrow> bool" where
  "sees s spec \<longleftrightarrow> ok (snd spec) s \<and> (\<forall>a. covered a \<longrightarrow> fst spec a = view s a)"

lemma step_image:
  assumes "sees s spec" "step opn s = Some s'" "image_op covered opn spec = Some spec'"
  shows "sees s' spec'"
proof -
  obtain m images where spec: "spec = (m, images)" by (cases spec)
  show ?thesis
  proof (cases opn)
    case (Store a v)
    with assms store_law [of images s a v s'] show ?thesis by (auto simp: sees_def spec)
  next
    case Take
    with assms(2) obtain i where t: "take_snap s = Some (i, s')" by auto
    from take_law [OF _ t, of images m] assms Take show ?thesis by (auto simp: sees_def spec)
  next
    case (RollBack i)
    with assms(3) have i: "i < length images" and
      spec': "spec' = (\<lambda>a. if covered a then (images ! i) a else m a, take (i + 1) images)"
      by (auto simp: spec split: if_splits)
    from assms(1) roll_law [OF _ i, of s] obtain s1 where "roll i s = Some s1" "ok (take (i + 1) images) s1"
      "\<forall>a. covered a \<longrightarrow> view s1 a = (images ! i) a"
      by (auto simp: sees_def spec)
    with RollBack assms(2) spec' show ?thesis by (auto simp: sees_def)
  qed
qed

lemma run_image:
  "sees s spec \<Longrightarrow> for_each step ops s = Some s' \<Longrightarrow> for_each (image_op covered) ops spec = Some spec' \<Longrightarrow> sees s' spec'"
proof (induction ops arbitrary: s spec)
  case (Cons opn ops)
  from Cons.prems(2) obtain s1 where s1: "step opn s = Some s1" "for_each step ops s1 = Some s'"
    by (auto simp: bind_eq_Some_conv)
  from Cons.prems(3) obtain spec1 where m1: "image_op covered opn spec = Some spec1"
    "for_each (image_op covered) ops spec1 = Some spec'"
    by (auto simp: bind_eq_Some_conv)
  from Cons.IH [OF step_image [OF Cons.prems(1) s1(1) m1(1)] s1(2) m1(2)] show ?case .
qed simp

text \<open>A roll back to a live snapshot never fails and shows its image.\<close>

lemma roll_restores:
  assumes "sees s (m, images)" "i < length images"
  shows "\<exists>s'. roll i s = Some s' \<and> sees s' (images ! i, take (i + 1) images)"
  using assms roll_law [of images s i] by (auto simp: sees_def)

end

end
