(* ===== verification/Snapshot_Images.thy ===== *)
theory Snapshot_Images
  imports Snapshot
begin

text \<open>
  Both snapshot systems keep the images of memory that \<open>Snapshot\<close> specifies: they interpret the locale
  \<open>snapshot_system\<close>.
\<close>

abbreviation page_of :: "loc \<Rightarrow> loc" where
  "page_of \<equiv> ReturnPageAlignedAddress"

subsection \<open>Pages\<close>

lemma page_of_mask: "page_of a = a AND NOT (mask 12)"
  by (simp add: ReturnPageAlignedAddress_def PAGESIZE_def mask_eq_exp_minus_1)

lemma page_of_idem [simp]: "page_of (page_of a) = page_of a"
  by (simp add: page_of_mask and.assoc)

lemma offset_mask: "ucast (ucast a :: 12 word) = (a AND mask 12 :: loc)"
  by (rule bit_word_eqI) (auto simp: bit_simps)

lemma page_plus_offset: "page_of a + ucast (ucast a :: 12 word) = a"
proof -
  have "page_of a + (a AND mask 12) = page_of a OR (a AND mask 12)"
    by (rule disjunctive_add) (auto simp: page_of_mask bit_simps)
  also have "\<dots> = a"
    by (rule bit_eqI) (auto simp: page_of_mask bit_simps)
  finally show ?thesis by (simp add: offset_mask)
qed

lemma read_page_at: "read_page (page_of a) m (ucast a) = m a"
  by (simp add: read_page_def page_plus_offset)

subsection \<open>Protecting regions\<close>

definition pages_of :: "memory_region list \<Rightarrow> loc set" where
  "pages_of R = (\<Union>r\<in>set R. set (region_pages r))"

definition covered_by :: "memory_region list \<Rightarrow> loc \<Rightarrow> bool" where
  "covered_by R a \<longleftrightarrow> page_of a \<in> pages_of R"

definition regions_mapped :: "memory_region list \<Rightarrow> (loc \<Rightarrow> bool option) \<Rightarrow> bool" where
  "regions_mapped R w \<longleftrightarrow> (\<forall>r\<in>set R. page_of (basePtr r) = basePtr r) \<and> (\<forall>p\<in>pages_of R. w p \<noteq> None)"

lemma fold_protect: "fold (\<lambda>p f. f(p \<mapsto> w)) ps f = (\<lambda>p. if p \<in> set ps then Some w else f p)"
  by (induction ps arbitrary: f) (auto simp: fun_eq_iff)

lemma protect_regions:
  "regions_mapped R (writable st) \<Longrightarrow> for_each (protect_region w) R st =
     Some (st\<lparr>writable := \<lambda>p. if p \<in> pages_of R then Some w else writable st p\<rparr>)"
proof (induction R arbitrary: st)
  case Nil
  then show ?case by (simp add: pages_of_def)
next
  case (Cons r R)
  let ?st = "st\<lparr>writable := fold (\<lambda>p f. f(p \<mapsto> w)) (region_pages r) (writable st)\<rparr>"
  from Cons.prems have "protect_region w r st = Some ?st"
    by (auto simp: protect_region_def regions_mapped_def pages_of_def list_all_iff)
  moreover from Cons.prems have "regions_mapped R (writable ?st)"
    by (auto simp: regions_mapped_def pages_of_def fold_protect)
  ultimately show ?case using Cons.IH [of ?st]
    by (auto simp: pages_of_def fold_protect fun_eq_iff intro!: arg_cong2 [where f = "\<lambda>w st. Some (st\<lparr>writable := w\<rparr>)"])
qed

subsection \<open>Restoring pages\<close>

lemma find_append: "List.find P (xs @ ys) = (case List.find P xs of None \<Rightarrow> List.find P ys | Some x \<Rightarrow> Some x)"
  by (induction xs) auto

text \<open>Memory with the first saved page among some indices put back.\<close>

definition restored :: "mprot_snapshotter \<Rightarrow> nat list \<Rightarrow> memory" where
  "restored st ks = (\<lambda>a. case List.find (\<lambda>k. backingRecords st k = page_of a) ks of
     None \<Rightarrow> mem st a | Some k \<Rightarrow> backingStore st k (ucast a))"

lemma restore_first_restored:
  "\<forall>k\<in>set ks. writable st (backingRecords st k) = Some True \<Longrightarrow>
   restore_first D ks st = Some (st\<lparr>mem := \<lambda>a. if page_of a \<in> D then mem st a else restored st ks a\<rparr>)"
proof (induction ks arbitrary: D st)
  case Nil
  then show ?case by (simp add: restored_def cong: if_cong)
next
  case (Cons k ks)
  show ?case
  proof (cases "backingRecords st k \<in> D")
    case True
    with Cons.IH [of st D] Cons.prems show ?thesis
      by (auto simp: restored_def fun_eq_iff intro!: arg_cong [where f = "\<lambda>m. st\<lparr>mem := m\<rparr>"])
  next
    case False
    let ?st = "st\<lparr>mem := write_page (backingRecords st k) (backingStore st k) (mem st)\<rparr>"
    have "restore_page k st = Some ?st" using Cons.prems by (simp add: restore_page_def)
    with False have "restore_first D (k # ks) st = restore_first (insert (backingRecords st k) D) ks ?st" by simp
    also have "\<dots> = Some (?st\<lparr>mem := \<lambda>a. if page_of a \<in> insert (backingRecords st k) D then mem ?st a
        else restored ?st ks a\<rparr>)"
      by (rule Cons.IH) (use Cons.prems in simp)
    also have "\<dots> = Some (st\<lparr>mem := \<lambda>a. if page_of a \<in> D then mem st a else restored st (k # ks) a\<rparr>)"
      using False by (auto simp: restored_def write_page_def fun_eq_iff split: option.splits
          intro!: arg_cong [where f = "\<lambda>m. st\<lparr>mem := m\<rparr>"])
    finally show ?thesis .
  qed
qed

lemma restore_all_restored:
  "\<forall>k\<in>set ks. writable st (backingRecords st k) = Some True \<Longrightarrow> distinct (map (backingRecords st) ks) \<Longrightarrow>
   for_each restore_page ks st = Some (st\<lparr>mem := restored st ks\<rparr>)"
proof (induction ks arbitrary: st)
  case Nil
  then show ?case by (simp add: restored_def)
next
  case (Cons k ks)
  let ?st = "st\<lparr>mem := write_page (backingRecords st k) (backingStore st k) (mem st)\<rparr>"
  have "restore_page k st = Some ?st" using Cons.prems by (simp add: restore_page_def)
  moreover have "for_each restore_page ks ?st = Some (?st\<lparr>mem := restored ?st ks\<rparr>)"
    by (rule Cons.IH) (use Cons.prems in auto)
  moreover have "restored ?st ks = restored st (k # ks)"
  proof
    fix a
    have "List.find (\<lambda>j. backingRecords st j = backingRecords st k) ks = None"
      using Cons.prems(2) by (auto simp: find_None_iff image_iff)
    then show "restored ?st ks a = restored st (k # ks) a"
      by (auto simp: restored_def write_page_def split: option.splits)
  qed
  ultimately show ?case by simp
qed

lemma restored_append: "restored st (xs @ ys) = restored (st\<lparr>mem := restored st ys\<rparr>) xs"
  by (auto simp: restored_def find_append fun_eq_iff split: option.splits)

lemma restored_idem: "restored (st\<lparr>mem := restored st ys\<rparr>) (xs @ ys) = restored st (xs @ ys)"
  by (auto simp: restored_def find_append fun_eq_iff split: option.splits)


subsection \<open>The invariant of the page-protection system\<close>

text \<open>The pages saved since the latest snapshot.\<close>

definition latest_window :: "mprot_snapshotter \<Rightarrow> nat list" where
  "latest_window st = (if lastSnapShot st = 0 then []
     else [snapShots st (lastSnapShot st - 1)..<lastBackingPage st])"

definition mprot_ok :: "memory_region list \<Rightarrow> memory list \<Rightarrow> mprot_snapshotter \<Rightarrow> bool" where
  "mprot_ok R images st \<longleftrightarrow> regionsToSnapShot st = R \<and> regions_mapped R (writable st) \<and>
     length images = lastSnapShot st \<and> lastSnapShot st \<le> maxSnapShots st \<and>
     (\<forall>i<lastSnapShot st. snapShots st i \<le> lastBackingPage st \<and>
        (\<forall>j<lastSnapShot st. i \<le> j \<longrightarrow> snapShots st i \<le> snapShots st j)) \<and>
     (\<forall>i<lastSnapShot st. \<forall>a. covered_by R a \<longrightarrow>
        (images ! i) a = restored st [snapShots st i..<lastBackingPage st] a) \<and>
     (\<forall>k<lastBackingPage st. backingRecords st k \<in> pages_of R \<or> writable st (backingRecords st k) = Some True) \<and>
     (\<forall>k\<in>set (latest_window st). writable st (backingRecords st k) = Some True) \<and>
     distinct (map (backingRecords st) (latest_window st)) \<and>
     (lastSnapShot st > 0 \<longrightarrow> (\<forall>p\<in>pages_of R. writable st p = Some False \<or>
        p \<in> backingRecords st ` set (latest_window st)))"

lemma restored_cong:
  assumes "\<And>k. k \<in> set ks \<Longrightarrow> backingRecords st k = backingRecords st' k \<and> backingStore st k = backingStore st' k"
    and "List.find (\<lambda>k. backingRecords st k = page_of a) ks = None \<Longrightarrow> mem st a = mem st' a"
  shows "restored st ks a = restored st' ks a"
proof -
  have f: "List.find (\<lambda>k. backingRecords st k = page_of a) ks = List.find (\<lambda>k. backingRecords st' k = page_of a) ks"
    by (rule find_cong) (use assms(1) in auto)
  show ?thesis
  proof (cases "List.find (\<lambda>k. backingRecords st' k = page_of a) ks")
    case None
    with assms(2) f show ?thesis by (simp add: restored_def)
  next
    case (Some k)
    then have "k \<in> set ks" by (auto simp: find_Some_iff)
    with assms(1) f Some show ?thesis by (simp add: restored_def)
  qed
qed

lemma restored_saved: "page_of a \<in> backingRecords st ` set ks \<Longrightarrow>
  restored st ks a = restored (st\<lparr>mem := m\<rparr>) ks a"
  by (rule restored_cong) (auto simp: find_None_iff)

text \<open>Saving a page of which no copy has been kept yet does not change what would be restored.\<close>

lemma restored_save:
  assumes "b \<notin> set ks"
  shows "restored (st\<lparr>backingStore := (backingStore st)(b := read_page (page_of x) (mem st)),
      backingRecords := (backingRecords st)(b := page_of x), mem := (mem st)(x := v)\<rparr>) (ks @ [b]) a = restored st ks a"
    (is "restored ?st _ _ = _")
proof -
  have f: "List.find (\<lambda>k. backingRecords ?st k = page_of a) ks = List.find (\<lambda>k. backingRecords st k = page_of a) ks"
    by (rule find_cong) (use assms in auto)
  show ?thesis
  proof (cases "List.find (\<lambda>k. backingRecords st k = page_of a) ks")
    case None
    with f show ?thesis by (auto simp: restored_def find_append read_page_at)
  next
    case (Some k)
    then have "k \<noteq> b" using assms by (auto simp: find_Some_iff)
    with f Some show ?thesis by (simp add: restored_def find_append)
  qed
qed

lemma latest_window_bound: "k \<in> set (latest_window st) \<Longrightarrow> k < lastBackingPage st"
  by (auto simp: latest_window_def split: if_splits)

lemma latest_window_within:
  assumes "mprot_ok R images st" "i < lastSnapShot st"
  shows "set (latest_window st) \<subseteq> set [snapShots st i..<lastBackingPage st]"
proof -
  from assms have "snapShots st i \<le> snapShots st (lastSnapShot st - 1)" by (simp add: mprot_ok_def)
  then show ?thesis using assms(2) by (auto simp: latest_window_def)
qed

lemma store_writable_ok:
  assumes ok: "mprot_ok R images st" and w: "writable st (page_of a) = Some True"
  shows "mprot_ok R images (st\<lparr>mem := (mem st)(a := v)\<rparr>)" (is "mprot_ok R images ?st")
proof -
  have "restored ?st [snapShots st i..<lastBackingPage st] x = restored st [snapShots st i..<lastBackingPage st] x"
    if i: "i < lastSnapShot st" and x: "covered_by R x" for i x
  proof (cases "x = a")
    case True
    with ok w i x have "page_of x \<in> backingRecords st ` set (latest_window st)"
      by (auto simp: mprot_ok_def covered_by_def)
    with latest_window_within [OF ok i] have "page_of x \<in> backingRecords st ` set [snapShots st i..<lastBackingPage st]"
      by blast
    then show ?thesis by (rule restored_saved [symmetric])
  next
    case False
    then show ?thesis by (intro restored_cong) auto
  qed
  moreover have "latest_window ?st = latest_window st" by (simp add: latest_window_def)
  ultimately show ?thesis using ok by (simp add: mprot_ok_def)
qed

lemma store_protected_ok:
  assumes ok: "mprot_ok R images st" and w: "writable st (page_of a) = Some False"
    and h: "mprot_handle_pf a st = Some st1"
  shows "mprot_ok R images (st1\<lparr>mem := (mem st1)(a := v)\<rparr>)"
proof -
  let ?b = "lastBackingPage st"
  let ?st = "st1\<lparr>mem := (mem st1)(a := v)\<rparr>"
  from h have st1: "st1 = st\<lparr>lastBackingPage := ?b + 1, backingStore := (backingStore st)(?b := read_page (page_of a) (mem st)),
      backingRecords := (backingRecords st)(?b := page_of a), writable := (writable st)(page_of a \<mapsto> True)\<rparr>"
    by (simp add: mprot_handle_pf_def Let_def)
  have images: "restored ?st [snapShots st i..<?b + 1] x = restored st [snapShots st i..<?b] x"
    if "i < lastSnapShot st" for i x
  proof -
    from ok that have "snapShots st i \<le> ?b" by (simp add: mprot_ok_def)
    then have "[snapShots st i..<?b + 1] = [snapShots st i..<?b] @ [?b]" by simp
    moreover have "restored ?st ks x =
        restored (st\<lparr>backingStore := (backingStore st)(?b := read_page (page_of a) (mem st)),
          backingRecords := (backingRecords st)(?b := page_of a), mem := (mem st)(a := v)\<rparr>) ks x" for ks
      by (rule restored_cong) (simp_all add: st1)
    ultimately show ?thesis by (simp add: restored_save del: upt_Suc)
  qed
  have new: "latest_window ?st = (if lastSnapShot st = 0 then [] else latest_window st @ [?b])"
    using ok by (auto simp: latest_window_def st1 mprot_ok_def)
  have unsaved: "page_of a \<notin> backingRecords st ` set (latest_window st)"
    using ok w by (force simp: mprot_ok_def)
  have "map (backingRecords ?st) (latest_window st) = map (backingRecords st) (latest_window st)"
    using latest_window_bound [of _ st] by (auto simp: st1)
  then have saved: "map (backingRecords ?st) (latest_window ?st) =
      (if lastSnapShot st = 0 then [] else map (backingRecords st) (latest_window st) @ [page_of a])"
    unfolding new by (simp add: st1)
  have pages: "backingRecords ?st ` set (latest_window ?st) =
      (if lastSnapShot st = 0 then {} else insert (page_of a) (backingRecords st ` set (latest_window st)))"
    using arg_cong [OF saved, of set] by (simp add: if_distrib [of set])
  show ?thesis
    unfolding mprot_ok_def
  proof (intro conjI)
    show "\<forall>i<lastSnapShot ?st. \<forall>x. covered_by R x \<longrightarrow> (images ! i) x = restored ?st [snapShots ?st i..<lastBackingPage ?st] x"
      using ok images by (simp add: mprot_ok_def st1 del: upt_Suc)
    show "distinct (map (backingRecords ?st) (latest_window ?st))"
      unfolding saved using ok unsaved by (simp add: mprot_ok_def)
    show "\<forall>k\<in>set (latest_window ?st). writable ?st (backingRecords ?st k) = Some True"
    proof -
      have "\<forall>p\<in>backingRecords ?st ` set (latest_window ?st). writable ?st p = Some True"
        unfolding pages using ok by (auto simp: mprot_ok_def st1)
      then show ?thesis by blast
    qed
    show "lastSnapShot ?st > 0 \<longrightarrow> (\<forall>p\<in>pages_of R. writable ?st p = Some False \<or> p \<in> backingRecords ?st ` set (latest_window ?st))"
      unfolding pages using ok by (auto simp: mprot_ok_def st1)
  qed (use ok in \<open>auto simp: mprot_ok_def st1 regions_mapped_def less_Suc_eq le_SucI\<close>)
qed

lemma mprot_store_ok:
  assumes "mprot_ok R images st" "mprot_store a v st = Some st'"
  shows "mprot_ok R images st' \<and> mem st' = (mem st)(a := v)"
proof -
  from assms(2) obtain w st1 where w: "writable st (page_of a) = Some w"
    and st1: "(if w then Some st else mprot_handle_pf a st) = Some st1" and st': "st' = st1\<lparr>mem := (mem st1)(a := v)\<rparr>"
    by (auto simp: mprot_store_def bind_eq_Some_conv)
  show ?thesis
  proof (cases w)
    case True
    with st1 st' store_writable_ok [OF assms(1)] w show ?thesis by simp
  next
    case False
    then have "mem st1 = mem st" using st1 by (auto simp: mprot_handle_pf_def Let_def)
    moreover from False st1 w have "writable st (page_of a) = Some False" "mprot_handle_pf a st = Some st1" by simp_all
    note store_protected_ok [OF assms(1) this, of v]
    ultimately show ?thesis using st' by simp
  qed
qed

subsection \<open>Taking a snapshot and rolling back\<close>

lemma regions_mapped_cong: "(\<And>p. (w p = None) = (w' p = None)) \<Longrightarrow> regions_mapped R w = regions_mapped R w'"
  by (simp add: regions_mapped_def)

text \<open>All regions are protected and the next snapshot starts at the present end of the backing store.\<close>

lemma take_snapshot_eq:
  assumes "regionsToSnapShot st = R" "regions_mapped R (writable st)"
  shows "mprot_take_snapshot st = (if lastSnapShot st = maxSnapShots st then None
    else Some (lastSnapShot st, st\<lparr>writable := \<lambda>p. if p \<in> pages_of R then Some False else writable st p,
      lastSnapShot := lastSnapShot st + 1, snapShots := (snapShots st)(lastSnapShot st := lastBackingPage st)\<rparr>))"
  using assms protect_regions [OF assms(2), of False]
  by (simp add: mprot_take_snapshot_def Let_def ASSERT_def)

lemma mprot_take_ok:
  assumes ok: "mprot_ok R images st" and t: "mprot_take_snapshot st = Some (i, st')"
    and m: "\<forall>a. covered_by R a \<longrightarrow> m a = mem st a"
  shows "i = length images \<and> mprot_ok R (images @ [m]) st' \<and> mem st' = mem st"
proof -
  let ?n = "lastSnapShot st"
  have R: "regionsToSnapShot st = R" "regions_mapped R (writable st)" using ok by (auto simp: mprot_ok_def)
  from t have i: "i = ?n" and n: "?n \<noteq> maxSnapShots st" and
    st': "st' = st\<lparr>writable := \<lambda>p. if p \<in> pages_of R then Some False else writable st p,
      lastSnapShot := ?n + 1, snapShots := (snapShots st)(?n := lastBackingPage st)\<rparr>"
    by (auto simp: take_snapshot_eq [OF R] split: if_splits)
  have same: "restored st' ks = restored st ks" for ks by (intro ext restored_cong) (simp_all add: st')
  have "latest_window st' = []" by (simp add: latest_window_def st')
  moreover have "regions_mapped R (writable st')" using R(2) by (auto simp: regions_mapped_def st')
  moreover have "(images @ [m]) ! j = (if j < ?n then images ! j else m)" if "j < ?n + 1" for j
    using ok that by (auto simp: mprot_ok_def nth_append)
  moreover have "restored st [] = mem st" by (simp add: restored_def)
  ultimately have "mprot_ok R (images @ [m]) st'"
    using ok n m unfolding mprot_ok_def same by (auto simp: st' less_Suc_eq)
  with ok i show ?thesis by (simp add: mprot_ok_def st')
qed

text \<open>A roll back to the latest snapshot by the tuned system.\<close>

lemma tuned_roll_back_ok:
  assumes ok: "mprot_ok R images st" and i: "lastSnapShot st = i + 1"
  shows "\<exists>st'. mprot_roll_back True i st = Some st' \<and> mprot_ok R (take (i + 1) images) st' \<and>
    (\<forall>a. covered_by R a \<longrightarrow> mem st' a = (images ! i) a)"
proof -
  let ?W = "[snapShots st i..<lastBackingPage st]"
  have W: "latest_window st = ?W" using i by (simp add: latest_window_def)
  let ?st = "st\<lparr>mem := restored st ?W\<rparr>"
  have r: "mprot_roll_back True i st = Some ?st"
    unfolding mprot_roll_back_def Let_def using ok i by (simp add: restore_all_restored mprot_ok_def W)
  have "restored ?st [snapShots st j..<lastBackingPage st] = restored st [snapShots st j..<lastBackingPage st]"
    if "j < lastSnapShot st" for j
  proof -
    from ok that i have "snapShots st j \<le> snapShots st i" "snapShots st i \<le> lastBackingPage st"
      by (auto simp: mprot_ok_def)
    then have "[snapShots st j..<lastBackingPage st] = [snapShots st j..<snapShots st i] @ ?W"
      by (metis le_Suc_ex upt_add_eq_append)
    then show ?thesis by (simp add: restored_idem)
  qed
  moreover have "latest_window ?st = latest_window st" by (simp add: latest_window_def)
  ultimately have "mprot_ok R images ?st" using ok by (simp add: mprot_ok_def)
  moreover have "take (i + 1) images = images" using ok i by (simp add: mprot_ok_def)
  moreover have "(images ! i) a = restored st ?W a" if "covered_by R a" for a
    using ok i that by (simp add: mprot_ok_def)
  ultimately show ?thesis using r W by (intro exI [of _ ?st]) (auto simp: fun_eq_iff)
qed

text \<open>A roll back to any live snapshot.\<close>

lemma roll_back_ok:
  assumes ok: "mprot_ok R images st" and i: "i < lastSnapShot st" and slow: "\<not> (tuned \<and> lastSnapShot st = i + 1)"
  shows "\<exists>st'. mprot_roll_back tuned i st = Some st' \<and> mprot_ok R (take (i + 1) images) st' \<and>
    (\<forall>a. covered_by R a \<longrightarrow> mem st' a = (images ! i) a)"
proof -
  let ?b = "snapShots st i"
  let ?W = "[?b..<lastBackingPage st]"
  let ?w = "\<lambda>p. if p \<in> pages_of R then Some True else writable st p"
  let ?st1 = "st\<lparr>writable := ?w\<rparr>"
  have R: "regionsToSnapShot st = R" "regions_mapped R (writable st)" using ok by (auto simp: mprot_ok_def)
  have protect: "for_each (protect_region True) R st = Some ?st1" by (rule protect_regions [OF R(2)])
  have W: "\<forall>k\<in>set ?W. writable ?st1 (backingRecords ?st1 k) = Some True" using ok by (auto simp: mprot_ok_def)
  have "restored ?st1 ?W = restored st ?W" by (intro ext restored_cong) simp_all
  then have restore: "restore_first {} ?W ?st1 = Some (?st1\<lparr>mem := restored st ?W\<rparr>)"
    using restore_first_restored [OF W, of "{}"] by simp
  let ?st2 = "?st1\<lparr>mem := restored st ?W, lastSnapShot := i, lastBackingPage := ?b\<rparr>"
  have m: "i < maxSnapShots st" using ok i by (simp add: mprot_ok_def)
  have mapped: "regions_mapped R (writable ?st2)" using R(2) by (auto simp: regions_mapped_def)
  have take: "mprot_take_snapshot ?st2 = Some (i, ?st2\<lparr>writable := \<lambda>p. if p \<in> pages_of R then Some False else writable st p,
      lastSnapShot := i + 1, snapShots := (snapShots st)(i := ?b)\<rparr>)"
    using take_snapshot_eq [of ?st2, OF _ mapped] R(1) m by (auto simp: fun_eq_iff)
  let ?st = "?st2\<lparr>writable := \<lambda>p. if p \<in> pages_of R then Some False else writable st p, lastSnapShot := i + 1,
    snapShots := (snapShots st)(i := ?b)\<rparr>"
  have result: "mprot_roll_back tuned i st = Some ?st"
    using slow m R(1) protect restore take by (auto simp: mprot_roll_back_def Let_def)
  have images: "restored ?st [snapShots st j..<?b] = restored st [snapShots st j..<lastBackingPage st]" if "j \<le> i" for j
  proof -
    from ok i that have "snapShots st j \<le> ?b" "?b \<le> lastBackingPage st" by (auto simp: mprot_ok_def)
    then have split: "[snapShots st j..<lastBackingPage st] = [snapShots st j..<?b] @ ?W"
      by (metis le_Suc_ex upt_add_eq_append)
    have "restored ?st [snapShots st j..<?b] = restored (st\<lparr>mem := restored st ?W\<rparr>) [snapShots st j..<?b]"
      by (intro ext restored_cong) simp_all
    then show ?thesis unfolding split restored_append .
  qed
  have "mprot_ok R (take (i + 1) images) ?st"
    unfolding mprot_ok_def
  proof (intro conjI)
    show "\<forall>j<lastSnapShot ?st. \<forall>a. covered_by R a \<longrightarrow> (take (i + 1) images ! j) a =
        restored ?st [snapShots ?st j..<lastBackingPage ?st] a"
      using ok i images by (simp add: mprot_ok_def less_Suc_eq_le)
    have "?b \<le> lastBackingPage st" using ok i by (simp add: mprot_ok_def)
    then have "backingRecords st k \<in> pages_of R \<or> writable st (backingRecords st k) = Some True" if "k < ?b" for k
      using ok that unfolding mprot_ok_def by (meson less_le_trans)
    then show "\<forall>k<lastBackingPage ?st. backingRecords ?st k \<in> pages_of R \<or> writable ?st (backingRecords ?st k) = Some True"
      by auto
    show "\<forall>j<lastSnapShot ?st. snapShots ?st j \<le> lastBackingPage ?st \<and>
        (\<forall>k<lastSnapShot ?st. j \<le> k \<longrightarrow> snapShots ?st j \<le> snapShots ?st k)"
      using ok i by (auto simp: mprot_ok_def)
    show "regions_mapped R (writable ?st)" using R(2) by (auto simp: regions_mapped_def)
  qed (use ok i in \<open>auto simp: mprot_ok_def latest_window_def\<close>)
  moreover have "mem ?st a = (images ! i) a" if "covered_by R a" for a
    using ok i that by (simp add: mprot_ok_def)
  ultimately show ?thesis using result by blast
qed

interpretation mprot: snapshot_system mprot_take_snapshot "mprot_roll_back tuned" mprot_store mem
  "covered_by R" "mprot_ok R" for tuned R
proof
  fix images st a v st'
  assume "mprot_ok R images st" "mprot_store a v st = Some st'"
  then show "mprot_ok R images st' \<and> mem st' = (mem st)(a := v)" by (rule mprot_store_ok)
next
  fix images st i st' m
  assume "mprot_ok R images st" "mprot_take_snapshot st = Some (i, st')" "\<forall>a. covered_by R a \<longrightarrow> m a = mem st a"
  then show "i = length images \<and> mprot_ok R (images @ [m]) st' \<and> mem st' = mem st" by (rule mprot_take_ok)
next
  fix images st i
  assume ok: "mprot_ok R images st" and i: "i < length images"
  then have i: "i < lastSnapShot st" by (simp add: mprot_ok_def)
  show "\<exists>st'. mprot_roll_back tuned i st = Some st' \<and> mprot_ok R (take (i + 1) images) st' \<and>
      (\<forall>a. covered_by R a \<longrightarrow> mem st' a = (images ! i) a)"
  proof (cases "tuned \<and> lastSnapShot st = i + 1")
    case True
    then show ?thesis using tuned_roll_back_ok [OF ok] by simp
  next
    case False
    then show ?thesis by (rule roll_back_ok [OF ok i])
  qed
qed

subsection \<open>The system of processes\<close>

definition fork_ok :: "memory list \<Rightarrow> fork_snapshotter \<Rightarrow> bool" where
  "fork_ok images st \<longleftrightarrow> map proc_snapshotid (rev (waiting st)) = [0..<length images] \<and>
     map proc_mem (rev (waiting st)) = images \<and> currSnapShotID st = length images"

lemma fork_unwind_at:
  "\<forall>p\<in>set xs. proc_snapshotid p \<noteq> i \<Longrightarrow> proc_snapshotid p = i \<Longrightarrow> mIDToRollback st = Some i \<Longrightarrow>
   fork_unwind (xs @ p # ps) st = Some (fork_child p (st\<lparr>waiting := ps\<rparr>))"
  by (induction xs) auto

lemma fork_roll_ok:
  assumes ok: "fork_ok images st" and i: "i < length images"
  shows "\<exists>st'. fork_roll_back i st = Some st' \<and> fork_ok (take (i + 1) images) st' \<and> proc_mem (running st') = images ! i"
proof -
  let ?w = "rev (waiting st)"
  have w: "map proc_snapshotid ?w = [0..<length images]" "map proc_mem ?w = images" and n: "length ?w = length images"
    using ok by (auto simp: fork_ok_def dest: arg_cong [where f = length])
  then have id: "proc_snapshotid (?w ! j) = j" if "j < length images" for j
  proof -
    from that n have "proc_snapshotid (?w ! j) = map proc_snapshotid ?w ! j" by simp
    with w(1) that show ?thesis by simp
  qed
  let ?p = "?w ! i"
  have "?w = take i ?w @ ?p # drop (i + 1) ?w" using i n by (simp add: id_take_nth_drop)
  then have split: "waiting st = rev (drop (i + 1) ?w) @ ?p # rev (take i ?w)"
    by (metis append.assoc append_Cons append_Nil rev.simps(2) rev_append rev_rev_ident)
  have "\<forall>p\<in>set (rev (drop (i + 1) ?w)). proc_snapshotid p \<noteq> i"
  proof
    fix p
    assume "p \<in> set (rev (drop (i + 1) ?w))"
    then obtain j where "j < length images - (i + 1)" "p = ?w ! (i + 1 + j)"
      using n by (auto simp: in_set_conv_nth)
    with id [of "i + 1 + j"] show "proc_snapshotid p \<noteq> i" by simp
  qed
  then have "fork_unwind (rev (drop (i + 1) ?w) @ ?p # rev (take i ?w)) (st\<lparr>mIDToRollback := Some i\<rparr>) =
      Some (fork_child ?p (st\<lparr>mIDToRollback := Some i, waiting := rev (take i ?w)\<rparr>))"
    by (subst fork_unwind_at) (simp_all add: id i)
  then have r: "fork_roll_back i st = Some ((fork_child ?p (st\<lparr>mIDToRollback := Some i, waiting := rev (take i ?w)\<rparr>))\<lparr>mIDToRollback := None\<rparr>)"
    using split by (simp add: fork_roll_back_def)
  have t: "take i ?w @ [?p] = take (i + 1) ?w" using i n by (simp add: take_Suc_conv_app_nth)
  have "map proc_snapshotid (take (i + 1) ?w) = take (i + 1) [0..<length images]"
    "map proc_mem (take (i + 1) ?w) = take (i + 1) images"
    unfolding take_map [symmetric] w by (rule refl)+
  moreover have "take (i + 1) [0..<length images] = [0..<i + 1]" using i by (simp add: take_upt del: upt_Suc)
  moreover have "proc_mem ?p = images ! i" using w(2) n i by (metis nth_map)
  moreover have "min (length images) (Suc i) = Suc i" using i by simp
  ultimately show ?thesis using r t i id [of i] by (simp add: fork_ok_def fork_child_def del: upt_Suc)
qed

interpretation fork: snapshot_system fork_take_snapshot fork_roll_back fork_store "\<lambda>st. proc_mem (running st)"
  "\<lambda>_. True" fork_ok
proof
  fix images st a v st'
  assume "fork_ok images st" "fork_store a v st = Some st'"
  then show "fork_ok images st' \<and> proc_mem (running st') = (proc_mem (running st))(a := v)"
    by (auto simp: fork_store_def fork_ok_def)
next
  fix images st i st' and m :: memory
  assume "fork_ok images st" "fork_take_snapshot st = Some (i, st')" "\<forall>a. True \<longrightarrow> m a = proc_mem (running st) a"
  then show "i = length images \<and> fork_ok (images @ [m]) st' \<and> proc_mem (running st') = proc_mem (running st)"
    by (auto simp: fork_take_snapshot_def fork_ok_def fork_child_def Let_def fun_eq_iff)
next
  fix images st i
  assume "fork_ok images st" "i < length images"
  then show "\<exists>st'. fork_roll_back i st = Some st' \<and> fork_ok (take (i + 1) images) st' \<and>
      (\<forall>a. True \<longrightarrow> proc_mem (running st') a = (images ! i) a)"
    using fork_roll_ok by fastforce
qed

subsection \<open>Properties\<close>

text \<open>A system before its first snapshot.\<close>

definition mprot_ready :: "mprot_snapshotter \<Rightarrow> bool" where
  "mprot_ready st \<longleftrightarrow> lastSnapShot st = 0 \<and> lastBackingPage st = 0 \<and> regions_mapped (regionsToSnapShot st) (writable st)"

lemma mprot_ready_sees: "mprot_ready st \<Longrightarrow> mprot.sees (regionsToSnapShot st) st (mem st, [])"
  by (simp add: mprot.sees_def mprot_ready_def mprot_ok_def latest_window_def)

text \<open>
  C9: Snapshots by page protection, plain or tuned, implement images of memory: after any stores,
  snapshots and roll backs the covered memory is what the specification says, and a roll back to any
  live snapshot succeeds and shows the memory as it was when that snapshot was taken.
\<close>

theorem mprot_refines_images:
  assumes "mprot_ready st"
    and "for_each (snap_op_step mprot_take_snapshot (mprot_roll_back tuned) mprot_store) ops st = Some st'"
    and "for_each (image_op (covered_by (regionsToSnapShot st))) ops (mem st, []) = Some (m, images)"
  shows "(\<forall>a. covered_by (regionsToSnapShot st) a \<longrightarrow> mem st' a = m a) \<and>
    (\<forall>i<length images. \<exists>st2. mprot_roll_back tuned i st' = Some st2 \<and>
       (\<forall>a. covered_by (regionsToSnapShot st) a \<longrightarrow> mem st2 a = (images ! i) a))"
proof -
  let ?R = "regionsToSnapShot st"
  from mprot.run_image [OF mprot_ready_sees [OF assms(1)] assms(2,3)] have s: "mprot.sees ?R st' (m, images)" .
  then have "\<forall>a. covered_by ?R a \<longrightarrow> mem st' a = m a" by (simp add: mprot.sees_def)
  moreover have "\<exists>st2. mprot_roll_back tuned i st' = Some st2 \<and> (\<forall>a. covered_by ?R a \<longrightarrow> mem st2 a = (images ! i) a)"
    if "i < length images" for i
    using mprot.roll_restores [OF s that, of tuned] by (fastforce simp: mprot.sees_def)
  ultimately show ?thesis by blast
qed

text \<open>One page at 4096 is covered.\<close>

definition one_page :: mprot_snapshotter where
  "one_page = (new_mprot_snapshotter (\<lambda>_. 0) (\<lambda>_. Some True) 3 2 1)\<lparr>regionsToSnapShot := [\<lparr>basePtr = 4096, sizeInPages = 1\<rparr>]\<rparr>"

definition two_stores :: "snap_op list" where
  "two_stores = [Take, Store 4100 7, Take, Store 4100 9, Store 4101 1]"

theorem mprot_refines_images_witness:
  "\<exists>st' st2. for_each (snap_op_step mprot_take_snapshot (mprot_roll_back True) mprot_store) two_stores one_page = Some st' \<and>
     mem st' 4100 = 9 \<and> mprot_roll_back True 1 st' = Some st2 \<and> mem st2 4100 = 7 \<and> mem st2 4101 = 0"
proof -
  let ?run = "for_each (snap_op_step mprot_take_snapshot (mprot_roll_back True) mprot_store) two_stores one_page"
  let ?spec = "for_each (image_op (covered_by (regionsToSnapShot one_page))) two_stores (mem one_page, [])"
  have "map_option (\<lambda>st. mem st 4100) ?run = Some 9" by code_simp
  then obtain st' where st': "?run = Some st'" "mem st' 4100 = 9" by auto
  have "map_option (\<lambda>(m, images). (length images, (images ! 1) 4100, (images ! 1) 4101)) ?spec = Some (2, 7, 0)"
    by (simp add: two_stores_def one_page_def new_mprot_snapshotter_def)
  then obtain m images where spec: "?spec = Some (m, images)" "length images = 2" "(images ! 1) 4100 = 7" "(images ! 1) 4101 = 0"
    by auto
  have ready: "mprot_ready one_page"
    by (simp add: mprot_ready_def one_page_def new_mprot_snapshotter_def regions_mapped_def ReturnPageAlignedAddress_def PAGESIZE_def)
  have c: "covered_by (regionsToSnapShot one_page) 4100" "covered_by (regionsToSnapShot one_page) 4101"
    by (simp_all add: covered_by_def pages_of_def region_pages_def one_page_def ReturnPageAlignedAddress_def PAGESIZE_def)
  have "1 < length images" using spec(2) by simp
  with conjunct2 [OF mprot_refines_images [OF ready st'(1) spec(1)]] obtain st2 where
    "mprot_roll_back True 1 st' = Some st2" "\<forall>a. covered_by (regionsToSnapShot one_page) a \<longrightarrow> mem st2 a = (images ! 1) a"
    by blast
  with c spec st' show ?thesis by auto
qed

text \<open>
  Snapshots by processes implement the same images for all of a process's memory: the process with
  the number of the snapshot is found among the waiting ones, whatever snapshots were taken and rolled
  back in between, and its child goes on with the memory it had.
\<close>

theorem fork_refines_images:
  assumes "for_each (snap_op_step fork_take_snapshot fork_roll_back fork_store) ops (new_fork_snapshotter m0) = Some st"
    and "for_each (image_op (\<lambda>_. True)) ops (m0, []) = Some (m, images)"
  shows "proc_mem (running st) = m \<and>
    (\<forall>i<length images. \<exists>st2. fork_roll_back i st = Some st2 \<and> proc_mem (running st2) = images ! i)"
proof -
  have "fork.sees (new_fork_snapshotter m0) (m0, [])"
    by (simp add: fork.sees_def fork_ok_def new_fork_snapshotter_def)
  from fork.run_image [OF this assms] have s: "fork.sees st (m, images)" .
  then have "proc_mem (running st) = m" by (auto simp: fork.sees_def)
  moreover have "\<exists>st2. fork_roll_back i st = Some st2 \<and> proc_mem (running st2) = images ! i" if "i < length images" for i
    using fork.roll_restores [OF s that] by (fastforce simp: fork.sees_def)
  ultimately show ?thesis by blast
qed

theorem fork_refines_images_witness:
  "\<exists>st st2. for_each (snap_op_step fork_take_snapshot fork_roll_back fork_store) two_stores (new_fork_snapshotter (\<lambda>_. 0)) = Some st \<and>
     fork_roll_back 0 st = Some st2 \<and> proc_mem (running st2) 4100 = 0"
proof -
  let ?run = "for_each (snap_op_step fork_take_snapshot fork_roll_back fork_store) two_stores (new_fork_snapshotter (\<lambda>_. 0))"
  let ?spec = "for_each (image_op (\<lambda>_. True)) two_stores (\<lambda>_. 0, [])"
  have "map_option (\<lambda>st. proc_mem (running st) 4100) ?run = Some 9" by code_simp
  then obtain st where st: "?run = Some st" by auto
  have "map_option (\<lambda>(m, images). (length images, (images ! 0) 4100)) ?spec = Some (2, 0)"
    by (simp add: two_stores_def)
  then obtain m images where spec: "?spec = Some (m, images)" "length images = 2" "(images ! 0) 4100 = 0" by auto
  have "0 < length images" using spec(2) by simp
  with conjunct2 [OF fork_refines_images [OF st spec(1)]] obtain st2 where
    "fork_roll_back 0 st = Some st2" "proc_mem (running st2) = images ! 0" by blast
  with spec st show ?thesis by auto
qed

end
