(* ===== verification/Snapshot_Stack.thy ===== *)
theory Snapshot_Stack
  imports Snapshot_Images
begin

text \<open>
  The stack of snapshots the checker keeps (class \<open>SnapshotStack\<close> of \<open>snapshot-interface.cc\<close>), on top of
  any snapshot system: an entry is a snapshot and the sequence number it was taken at. Finding the
  memory regions of the program (\<open>SnapshotGlobalSegments\<close>) reads a file of the operating system and is
  left out.
\<close>

type_synonym snapshot_entry = "snapshot_id \<times> int"

definition snapshotStep ::
  "('s \<Rightarrow> (snapshot_id \<times> 's) option) \<Rightarrow> int \<Rightarrow> snapshot_entry list \<times> 's \<Rightarrow> (snapshot_entry list \<times> 's) option" where
  "snapshotStep take_snap seq_index st = (
     let (stack, s) = st
     in do { (i, s) \<leftarrow> take_snap s; Some (stack @ [(i, seq_index)], s) })"

text \<open>
  The loop counts \<open>i\<close> upwards while it pops entries from the back, so after the first pop it reads
  beyond the end of the vector.
\<close>

function backtrack_loop :: "int \<Rightarrow> int \<Rightarrow> snapshot_entry list \<Rightarrow> (int \<times> snapshot_entry list) option" where
  "backtrack_loop seqindex i stack =
     (if \<not> i \<ge> 0 then Some (i, stack)
      else if \<not> nat i < length stack then None
      else if snd (stack ! nat i) \<le> seqindex then Some (i, stack)
      else backtrack_loop seqindex (i + 1) (butlast stack))"
  by pat_completeness auto
termination
  by (relation "measure (\<lambda>(n, i, stack). length stack)") auto

declare backtrack_loop.simps [simp del]

definition backTrackBeforeStep ::
  "(snapshot_id \<Rightarrow> 's \<Rightarrow> 's option) \<Rightarrow> int \<Rightarrow> snapshot_entry list \<times> 's \<Rightarrow> (int \<times> snapshot_entry list \<times> 's) option" where
  "backTrackBeforeStep roll seqindex st = (
     let (stack, s) = st
     in do {
       (i, stack) \<leftarrow> backtrack_loop seqindex (int (length stack) - 1) stack;
       ASSERT (i \<ge> 0);
       ASSERT (nat i < length stack);
       s \<leftarrow> roll (fst (stack ! nat i)) s;
       Some (snd (stack ! nat i), stack, s)
     })"

lemma last_index:
  assumes "stack \<noteq> []"
  shows "stack ! nat (int (length stack) - 1) = last stack" "nat (int (length stack) - 1) < length stack"
proof -
  have "nat (int (length stack) - 1) = length stack - 1" using assms by (cases stack) auto
  then show "stack ! nat (int (length stack) - 1) = last stack" "nat (int (length stack) - 1) < length stack"
    using assms by (simp_all add: last_conv_nth)
qed

lemma backtrack_loop_top:
  "backtrack_loop seqindex (int (length stack) - 1) stack =
     (if stack = [] then Some (- 1, []) else if snd (last stack) \<le> seqindex then Some (int (length stack) - 1, stack) else None)"
proof (cases "stack = []")
  case True
  then show ?thesis by (simp add: backtrack_loop.simps)
next
  case False
  note top = last_index [OF False]
  show ?thesis
  proof (cases "snd (last stack) \<le> seqindex")
    case True
    then show ?thesis using False top by (subst backtrack_loop.simps) simp
  next
    case above: False
    have "backtrack_loop seqindex (int (length stack) - 1) stack = backtrack_loop seqindex (int (length stack)) (butlast stack)"
      using False top above by (subst backtrack_loop.simps) simp
    also have "\<dots> = None"
    proof -
      have "\<not> length stack < length stack - Suc 0" by simp
      then show ?thesis by (subst backtrack_loop.simps) simp
    qed
    finally show ?thesis using False above by simp
  qed
qed

lemma backTrackBeforeStep_top:
  "backTrackBeforeStep roll seqindex (stack, s) =
     (if stack = [] \<or> snd (last stack) > seqindex then None
      else map_option (\<lambda>s'. (snd (last stack), stack, s')) (roll (fst (last stack)) s))"
proof (cases "stack = []")
  case True
  then show ?thesis by (simp add: backTrackBeforeStep_def backtrack_loop_top)
next
  case False
  from False last_index [OF False] show ?thesis
    by (cases "roll (fst (last stack)) s") (auto simp: backTrackBeforeStep_def backtrack_loop_top)
qed

context snapshot_system
begin

lemma stores_image:
  "sees s (m, images) \<Longrightarrow> for_each (\<lambda>(a, v). store a v) vs s = Some s' \<Longrightarrow> \<exists>m'. sees s' (m', images)"
proof (induction vs arbitrary: s m)
  case Nil
  then show ?case by auto
next
  case (Cons av vs)
  obtain a v where av: "av = (a, v)" by (cases av)
  from Cons.prems(2) obtain s1 where s1: "store a v s = Some s1" "for_each (\<lambda>(a, v). store a v) vs s1 = Some s'"
    by (auto simp: av bind_eq_Some_conv)
  have "sees s1 (m(a := v), images)"
    by (rule step_image [OF Cons.prems(1), of "Store a v"]) (simp_all add: s1(1))
  from Cons.IH [OF this s1(2)] show ?case .
qed

lemma record_backtrack:
  assumes s: "sees s (m, images)" and rec: "snapshotStep take_snap n (stack, s) = Some (stack', s1)"
    and stores: "for_each (\<lambda>(a, v). store a v) vs s1 = Some s2" and le: "n \<le> n'"
  shows "\<exists>s3. backTrackBeforeStep roll n' (stack', s2) = Some (n, stack', s3) \<and> (\<forall>a. covered a \<longrightarrow> view s3 a = view s a)"
proof -
  from rec obtain i where t: "take_snap s = Some (i, s1)" and stack': "stack' = stack @ [(i, n)]"
    by (auto simp: snapshotStep_def bind_eq_Some_conv)
  have "sees s1 (m, images @ [m])" by (rule step_image [OF s, of Take]) (simp_all add: t)
  from stores_image [OF this stores] obtain m' where s2: "sees s2 (m', images @ [m])" by blast
  have i: "i = length images" using take_law [OF _ t, of images m] s by (simp add: sees_def)
  from roll_restores [OF s2, of i] i obtain s3 where s3: "roll i s2 = Some s3" "sees s3 (m, images @ [m])"
    by (auto simp: nth_append)
  have "view s3 a = view s a" if "covered a" for a using s s3(2) that by (simp add: sees_def)
  with s3(1) show ?thesis using le by (simp add: backTrackBeforeStep_top stack')
qed

end

subsection \<open>Properties\<close>

text \<open>
  Recording and backtracking is a round trip: after any use of the tuned system, a snapshot that is
  recorded at a sequence number, and any stores, backtracking to before this number or a later one
  returns to this snapshot and restores the memory it was taken at.
\<close>

theorem record_then_backtrack:
  assumes "mprot_ready st0"
    and "for_each (snap_op_step mprot_take_snapshot (mprot_roll_back True) mprot_store) ops st0 = Some st"
    and "for_each (image_op (covered_by (regionsToSnapShot st0))) ops (mem st0, []) = Some spec"
    and "snapshotStep mprot_take_snapshot n (stack, st) = Some (stack', st1)"
    and "for_each (\<lambda>(a, v). mprot_store a v) vs st1 = Some st2" "n \<le> n'"
  shows "\<exists>st3. backTrackBeforeStep (mprot_roll_back True) n' (stack', st2) = Some (n, stack', st3) \<and>
    (\<forall>a. covered_by (regionsToSnapShot st0) a \<longrightarrow> mem st3 a = mem st a)"
proof -
  obtain m images where spec: "spec = (m, images)" by (cases spec)
  from mprot.run_image [OF mprot_ready_sees [OF assms(1)] assms(2,3)]
  have "mprot.sees (regionsToSnapShot st0) st (m, images)" unfolding spec .
  from mprot.record_backtrack [OF this assms(4,5,6)] show ?thesis .
qed

theorem record_then_backtrack_witness:
  "\<exists>st1 st2 st3. snapshotStep mprot_take_snapshot 0 ([], one_page) = Some ([(0, 0)], st1) \<and>
     for_each (\<lambda>(a, v). mprot_store a v) [(4100, 7)] st1 = Some st2 \<and> mem st2 4100 = 7 \<and>
     backTrackBeforeStep (mprot_roll_back True) 3 ([(0, 0)], st2) = Some (0, [(0, 0)], st3) \<and> mem st3 4100 = 0"
proof -
  have "map_option fst (snapshotStep mprot_take_snapshot 0 ([], one_page)) = Some [(0, 0)]" by code_simp
  then obtain st1 where st1: "snapshotStep mprot_take_snapshot 0 ([], one_page) = Some ([(0, 0)], st1)" by auto
  have "map_option (\<lambda>st. mem st 4100)
      (Option.bind (snapshotStep mprot_take_snapshot 0 ([], one_page)) (\<lambda>(stack, st). for_each (\<lambda>(a, v). mprot_store a v) [(4100, 7)] st)) = Some 7"
    by code_simp
  then obtain st2 where st2: "for_each (\<lambda>(a, v). mprot_store a v) [(4100, 7)] st1 = Some st2" "mem st2 4100 = 7"
    using st1 by (auto simp: bind_eq_Some_conv)
  have ready: "mprot_ready one_page"
    by (simp add: mprot_ready_def one_page_def new_mprot_snapshotter_def regions_mapped_def ReturnPageAlignedAddress_def PAGESIZE_def)
  have c: "covered_by (regionsToSnapShot one_page) 4100"
    by (simp add: covered_by_def pages_of_def region_pages_def one_page_def ReturnPageAlignedAddress_def PAGESIZE_def)
  have "\<exists>st3. backTrackBeforeStep (mprot_roll_back True) 3 ([(0, 0)], st2) = Some (0, [(0, 0)], st3) \<and>
      (\<forall>a. covered_by (regionsToSnapShot one_page) a \<longrightarrow> mem st3 a = mem one_page a)"
    by (rule record_then_backtrack [OF ready _ _ st1 st2(1), where ops = "[]"]) simp_all
  moreover have "mem one_page 4100 = 0" by (simp add: one_page_def new_mprot_snapshotter_def)
  ultimately show ?thesis using st1 st2 c by force
qed

text \<open>
  Backtracking only ever looks at the latest snapshot: when that one is too late, the loop leaves the
  vector instead of going on to the one before.
\<close>

theorem backtrack_only_to_latest:
  "backTrackBeforeStep roll seqindex (stack, s) =
     (if stack = [] \<or> snd (last stack) > seqindex then None
      else map_option (\<lambda>s'. (snd (last stack), stack, s')) (roll (fst (last stack)) s))"
  by (rule backTrackBeforeStep_top)

end
