(* ===== verification/Lock_Free_List.thy ===== *)
theory Lock_Free_List
  imports CDS_Prelude
begin

unbundle bit_operations_syntax

text \<open>
  The lock-free ordered list of \<open>linkedlist_test/lock_free_list.h\<close>, the test program of the model
  checker. Nodes are cells of a heap; the lowest bit of a pointer is the mark. The steps are the atomic
  operations, each with the reads of immutable fields around it; they interleave in any order. An access
  through an address that holds no node (null, a deleted node, a pointer with its mark) is refused. The
  address of a new node is an argument of the call: any even address that is not in use.
\<close>

type_synonym node_ptr = "64 word"
type_synonym tid = nat

subsection \<open>Marked pointers\<close>

definition get_pointer :: "node_ptr \<Rightarrow> node_ptr" where
  "get_pointer p = p AND NOT 1"

definition is_marked :: "node_ptr \<Rightarrow> bool" where
  "is_marked p \<longleftrightarrow> p AND 1 \<noteq> 0"

definition get_marked :: "node_ptr \<Rightarrow> node_ptr" where
  "get_marked p = p OR 1"

subsection \<open>State\<close>

datatype l_call = In_Add node_ptr | In_Remove

text \<open>Where a thread is, with its local variables; \<open>find\<close> is part of \<open>add\<close> and of \<open>remove\<close>.\<close>

datatype l_local =
    Out
  | Find l_call int
  | Find_Next l_call int node_ptr
  | Find_Walk l_call int node_ptr node_ptr
  | Find_Clean l_call int node_ptr node_ptr
  | Find_Swing l_call int node_ptr node_ptr node_ptr
  | Add_Test node_ptr int node_ptr node_ptr
  | Add_Link node_ptr int node_ptr node_ptr
  | Rem_Test int node_ptr node_ptr
  | Rem_Mark int node_ptr node_ptr node_ptr
  | Rem_Unlink node_ptr node_ptr node_ptr
  | Con_Head int
  | Con_Walk int node_ptr

record lf_list =
  l_heap :: "node_ptr \<Rightarrow> (int \<times> node_ptr) option"
  l_head :: node_ptr
  l_tail :: node_ptr
  l_threads :: "tid \<Rightarrow> l_local"

text \<open>The two sentinels, at the addresses \<open>h\<close> and \<open>t\<close>, have the value \<open>T{}\<close>, which is 0.\<close>

definition new_list :: "node_ptr \<Rightarrow> node_ptr \<Rightarrow> lf_list" where
  "new_list h t = \<lparr>l_heap = [h \<mapsto> (0, t), t \<mapsto> (0, 0)], l_head = h, l_tail = t, l_threads = (\<lambda>_. Out)\<rparr>"

definition goto :: "tid \<Rightarrow> l_local \<Rightarrow> lf_list \<Rightarrow> lf_list" where
  "goto i l st = st\<lparr>l_threads := (l_threads st)(i := l)\<rparr>"

definition set_next :: "node_ptr \<Rightarrow> node_ptr \<Rightarrow> lf_list \<Rightarrow> lf_list option" where
  "set_next p n st = do {
     (v, _) \<leftarrow> l_heap st p;
     Some (st\<lparr>l_heap := (l_heap st)(p \<mapsto> (v, n))\<rparr>)
   }"

definition delete_node :: "node_ptr \<Rightarrow> lf_list \<Rightarrow> lf_list option" where
  "delete_node p st = do {
     _ \<leftarrow> l_heap st p;
     Some (st\<lparr>l_heap := (l_heap st)(p := None)\<rparr>)
   }"

definition cas_next :: "node_ptr \<Rightarrow> node_ptr \<Rightarrow> node_ptr \<Rightarrow> lf_list \<Rightarrow> (bool \<times> lf_list) option" where
  "cas_next p expected desired st = do {
     (v, n) \<leftarrow> l_heap st p;
     if n = expected then do { st \<leftarrow> set_next p desired st; Some (True, st) } else Some (False, st)
   }"

subsection \<open>Steps\<close>

text \<open>A step gives the result of the operation when it returns.\<close>

type_synonym l_result = "(bool option \<times> lf_list) option"

fun find_step :: "tid \<Rightarrow> l_local \<Rightarrow> lf_list \<Rightarrow> l_result" where
  "find_step i (Find c v) st = Some (None, goto i (Find_Next c v (l_head st)) st)"
| "find_step i (Find_Next c v pre) st = do {
     (_, cur) \<leftarrow> l_heap st pre;
     Some (None, goto i (Find_Walk c v pre cur) st)
   }"
| "find_step i (Find_Walk c v pre cur) st =
     (if cur = 0 then Some (None, goto i (Find_Clean c v pre cur) st)
      else do {
        (val, n) \<leftarrow> l_heap st (get_pointer cur);
        if val \<ge> v then Some (None, goto i (Find_Clean c v pre cur) st)
        else Some (None, goto i (Find_Walk c v cur n) st)
      })"
| "find_step i (Find_Clean c v pre cur) st =
     (if cur \<noteq> 0 \<and> is_marked cur
      then do {
        (_, n) \<leftarrow> l_heap st (get_pointer cur);
        Some (None, goto i (Find_Swing c v pre cur n) st)
      }
      else Some (None, goto i (case c of In_Add nd \<Rightarrow> Add_Test nd v pre cur | In_Remove \<Rightarrow> Rem_Test v pre cur) st))"
| "find_step i (Find_Swing c v pre cur n) st = do {
     (ok, st) \<leftarrow> cas_next pre cur n st;
     if ok then Some (None, goto i (Find_Clean c v pre n) st) else Some (None, goto i (Find c v) st)
   }"
| "find_step i _ st = None"

fun add_step :: "tid \<Rightarrow> l_local \<Rightarrow> lf_list \<Rightarrow> l_result" where
  "add_step i (Add_Test nd v pre cur) st = do {
     present \<leftarrow> (if cur = 0 then Some False
                 else map_option (\<lambda>(val, _). val = v \<and> \<not> is_marked cur) (l_heap st (get_pointer cur)));
     if present then do { st \<leftarrow> delete_node nd st; Some (Some False, goto i Out st) }
     else do { st \<leftarrow> set_next nd cur st; Some (None, goto i (Add_Link nd v pre cur) st) }
   }"
| "add_step i (Add_Link nd v pre cur) st = do {
     (ok, st) \<leftarrow> cas_next pre cur nd st;
     if ok then Some (Some True, goto i Out st) else Some (None, goto i (Find (In_Add nd) v) st)
   }"
| "add_step i _ st = None"

fun remove_step :: "tid \<Rightarrow> l_local \<Rightarrow> lf_list \<Rightarrow> l_result" where
  "remove_step i (Rem_Test v pre cur) st =
     (if cur = 0 then Some (Some False, goto i Out st)
      else do {
        (val, n) \<leftarrow> l_heap st (get_pointer cur);
        if val \<noteq> v then Some (Some False, goto i Out st) else Some (None, goto i (Rem_Mark v pre cur n) st)
      })"
| "remove_step i (Rem_Mark v pre cur n) st = do {
     (ok, st) \<leftarrow> cas_next (get_pointer cur) n (get_marked n) st;
     if ok then Some (None, goto i (Rem_Unlink pre cur n) st) else Some (None, goto i (Find In_Remove v) st)
   }"
| "remove_step i (Rem_Unlink pre cur n) st = do {
     (ok, st) \<leftarrow> cas_next pre cur n st;
     if ok then do { st \<leftarrow> delete_node (get_pointer cur) st; Some (Some True, goto i Out st) }
     else Some (Some True, goto i Out st)
   }"
| "remove_step i _ st = None"

text \<open>\<open>contains\<close> goes on through \<open>cur\<close> itself, with its mark, and ends through the pointer without it.\<close>

fun contains_step :: "tid \<Rightarrow> l_local \<Rightarrow> lf_list \<Rightarrow> l_result" where
  "contains_step i (Con_Head v) st = Some (None, goto i (Con_Walk v (l_head st)) st)"
| "contains_step i (Con_Walk v cur) st =
     (if cur = 0 \<or> get_pointer cur = l_tail st
      then Some (Some False, goto i Out st)
      else do {
        (val, n) \<leftarrow> l_heap st (get_pointer cur);
        if val < v then do {
          (_, n) \<leftarrow> l_heap st cur;
          Some (None, goto i (Con_Walk v n) st)
        }
        else Some (Some (val = v \<and> \<not> is_marked n), goto i Out st)
      })"
| "contains_step i _ st = None"

fun in_find :: "l_local \<Rightarrow> bool" where
  "in_find (Find _ _) = True"
| "in_find (Find_Next _ _ _) = True"
| "in_find (Find_Walk _ _ _ _) = True"
| "in_find (Find_Clean _ _ _ _) = True"
| "in_find (Find_Swing _ _ _ _ _) = True"
| "in_find _ = False"

fun in_add :: "l_local \<Rightarrow> bool" where
  "in_add (Add_Test _ _ _ _) = True"
| "in_add (Add_Link _ _ _ _) = True"
| "in_add _ = False"

fun in_contains :: "l_local \<Rightarrow> bool" where
  "in_contains (Con_Head _) = True"
| "in_contains (Con_Walk _ _) = True"
| "in_contains _ = False"

definition l_go :: "tid \<Rightarrow> lf_list \<Rightarrow> l_result" where
  "l_go i st =
     (let l = l_threads st i
      in if in_find l then find_step i l st
         else if in_add l then add_step i l st
         else if in_contains l then contains_step i l st
         else remove_step i l st)"

text \<open>The calls: \<open>add\<close> makes its node first.\<close>

datatype l_op = Op_Add int node_ptr | Op_Remove int | Op_Contains int

fun l_begin :: "tid \<Rightarrow> l_op \<Rightarrow> lf_list \<Rightarrow> lf_list option" where
  "l_begin i (Op_Add v nd) st = do {
     ASSERT (l_threads st i = Out \<and> nd \<noteq> 0 \<and> \<not> is_marked nd \<and> l_heap st nd = None);
     Some (goto i (Find (In_Add nd) v) (st\<lparr>l_heap := (l_heap st)(nd \<mapsto> (v, 0))\<rparr>))
   }"
| "l_begin i (Op_Remove v) st = do {
     ASSERT (l_threads st i = Out);
     Some (goto i (Find In_Remove v) st)
   }"
| "l_begin i (Op_Contains v) st = do {
     ASSERT (l_threads st i = Out);
     Some (goto i (Con_Head v) st)
   }"

subsection \<open>Runs\<close>

text \<open>An interleaving: calls and steps of the threads, with the results of the operations that return.\<close>

datatype l_action = Begin tid l_op | Go tid

fun l_run :: "l_action list \<Rightarrow> lf_list \<Rightarrow> ((tid \<times> bool) list \<times> lf_list) option" where
  "l_run [] st = Some ([], st)"
| "l_run (Begin i c # acts) st = do {
     st \<leftarrow> l_begin i c st;
     l_run acts st
   }"
| "l_run (Go i # acts) st = do {
     (r, st) \<leftarrow> l_go i st;
     (rs, st) \<leftarrow> l_run acts st;
     Some ((case r of None \<Rightarrow> [] | Some b \<Rightarrow> [(i, b)]) @ rs, st)
   }"

text \<open>A thread runs alone until its operation returns, for at most \<open>n\<close> steps.\<close>

fun alone :: "nat \<Rightarrow> tid \<Rightarrow> lf_list \<Rightarrow> (bool \<times> lf_list) option" where
  "alone 0 i st = None"
| "alone (Suc n) i st = do {
     (r, st) \<leftarrow> l_go i st;
     (case r of None \<Rightarrow> alone n i st | Some b \<Rightarrow> Some (b, st))
   }"

fun sequential :: "nat \<Rightarrow> tid \<Rightarrow> l_op list \<Rightarrow> lf_list \<Rightarrow> (bool list \<times> lf_list) option" where
  "sequential n i [] st = Some ([], st)"
| "sequential n i (c # cs) st = do {
     st \<leftarrow> l_begin i c st;
     (b, st) \<leftarrow> alone n i st;
     (bs, st) \<leftarrow> sequential n i cs st;
     Some (b # bs, st)
   }"

text \<open>The values of the nodes behind an address, for at most \<open>n\<close> nodes.\<close>

fun values_from :: "nat \<Rightarrow> node_ptr \<Rightarrow> lf_list \<Rightarrow> int list option" where
  "values_from 0 p st = None"
| "values_from (Suc n) p st =
     (if p = 0 then Some []
      else do {
        (v, q) \<leftarrow> l_heap st p;
        vs \<leftarrow> values_from n q st;
        Some (v # vs)
      })"

subsection \<open>Threads and pointers\<close>

lemma goto_simps [simp]:
  "l_threads (goto i l st) = (l_threads st)(i := l)" "l_heap (goto i l st) = l_heap st"
  "l_head (goto i l st) = l_head st" "l_tail (goto i l st) = l_tail st"
  "goto i l (goto i l' st) = goto i l st"
  by (simp_all add: goto_def)

lemma get_pointer_id [simp]:
  assumes "\<not> is_marked p"
  shows "get_pointer p = p"
proof -
  have "bit (p AND 1) 0 = bit p 0" by (simp only: bit_and_iff bit_1_0 simp_thms)
  then have "\<not> bit p 0" using assms by (simp add: is_marked_def del: bit_0)
  then show ?thesis by (auto simp: get_pointer_def bit_simps intro!: bit_word_eqI gr0I simp del: bit_0)
qed

lemma not_marked_0 [simp]: "\<not> is_marked 0"
  by (simp add: is_marked_def)

definition finishes :: "nat \<Rightarrow> tid \<Rightarrow> lf_list \<Rightarrow> bool \<times> lf_list \<Rightarrow> bool" where
  "finishes k i st r \<longleftrightarrow> (\<forall>m \<ge> k. alone m i st = Some r)"

lemma finishes_mono: "\<lbrakk>finishes k i st r; k \<le> k'\<rbrakk> \<Longrightarrow> finishes k' i st r"
  by (simp add: finishes_def)

lemma finishes_step:
  assumes "l_go i st = Some (None, st')" "finishes k i st' r" "k < k'"
  shows "finishes k' i st r"
proof -
  have "alone m i st = Some r" if "k' \<le> m" for m
    using assms that by (cases m) (auto simp: finishes_def)
  then show ?thesis by (simp add: finishes_def)
qed

lemma finishes_done:
  assumes "l_go i st = Some (Some b, st')" "0 < k'"
  shows "finishes k' i st (b, st')"
proof -
  have "alone m i st = Some (b, st')" if "k' \<le> m" for m
    using assms that by (cases m) auto
  then show ?thesis by (simp add: finishes_def)
qed

subsection \<open>Lists in the heap\<close>

type_synonym l_cells = "(node_ptr \<times> int) list"

fun seg :: "(node_ptr \<Rightarrow> (int \<times> node_ptr) option) \<Rightarrow> node_ptr \<Rightarrow> l_cells \<Rightarrow> node_ptr \<Rightarrow> bool" where
  "seg h p [] q \<longleftrightarrow> p = q"
| "seg h p ((a, v) # xs) q \<longleftrightarrow> p = a \<and> a \<noteq> 0 \<and> \<not> is_marked a \<and> (\<exists>n. h a = Some (v, n) \<and> seg h n xs q)"

definition first_ptr :: "l_cells \<Rightarrow> node_ptr" where
  "first_ptr xs = (case xs of [] \<Rightarrow> 0 | (a, _) # _ \<Rightarrow> a)"

lemma first_ptr_simps [simp]: "first_ptr [] = 0" "first_ptr ((a, v) # xs) = a"
  by (simp_all add: first_ptr_def)

lemma seg_append: "seg h p (xs @ ys) q \<longleftrightarrow> (\<exists>r. seg h p xs r \<and> seg h r ys q)"
  by (induction h p xs q rule: seg.induct) auto

lemma seg_first: "seg h p xs 0 \<Longrightarrow> p = first_ptr xs"
  by (cases xs) auto

lemma seg_upd [simp]: "a \<notin> fst ` set xs \<Longrightarrow> seg (h(a := y)) p xs q \<longleftrightarrow> seg h p xs q"
  by (induction h p xs q rule: seg.induct) auto

lemma first_ptr_ok: "seg h p xs 0 \<Longrightarrow> \<not> is_marked (first_ptr xs)"
  by (cases xs) auto

text \<open>The node before \<open>ys\<close>.\<close>

lemma seg_pre:
  assumes "seg h p (us @ (a, x) # ys) 0"
  shows "h a = Some (x, first_ptr ys)" "seg h (first_ptr ys) ys 0" "\<not> is_marked a" "a \<noteq> 0" "seg h p us a"
  using assms seg_first by (auto simp: seg_append)

lemma seg_relink:
  assumes "seg h p (us @ (a, x) # ys) 0" "a \<notin> fst ` set us" "a \<notin> fst ` set zs" "seg h (first_ptr zs) zs 0"
  shows "seg (h(a \<mapsto> (x, first_ptr zs))) p (us @ (a, x) # zs) 0"
  using assms seg_pre [OF assms(1)] by (auto simp: seg_append)

text \<open>The list of a state, from the node of the head on.\<close>

definition list_at :: "lf_list \<Rightarrow> l_cells \<Rightarrow> bool" where
  "list_at st xs \<longleftrightarrow> seg (l_heap st) (l_head st) ((l_head st, 0) # xs) 0 \<and> distinct (l_head st # map fst xs) \<and>
     sorted_wrt (<) (map snd xs) \<and> dom (l_heap st) = insert (l_head st) (fst ` set xs)"

lemma list_atI:
  assumes "l_heap st = h" "l_head st = a" "seg h a ((a, 0) # xs) 0" "distinct (a # map fst xs)"
    and "sorted_wrt (<) (map snd xs)" "dom h = insert a (fst ` set xs)"
  shows "list_at st xs"
  using assms by (simp add: list_at_def)

lemma lf_heap_simps: "l_heap (st\<lparr>l_heap := h\<rparr>) = h" "l_head (st\<lparr>l_heap := h\<rparr>) = l_head st"
  by simp_all

subsection \<open>\<open>find\<close> without interference\<close>

definition before_val :: "int \<Rightarrow> l_cells \<Rightarrow> l_cells" where
  "before_val v xs = takeWhile (\<lambda>c. snd c < v) xs"

definition from_val :: "int \<Rightarrow> l_cells \<Rightarrow> l_cells" where
  "from_val v xs = dropWhile (\<lambda>c. snd c < v) xs"

lemma walk_alone:
  assumes "seg (l_heap st) cur xs 0" "l_threads st i = Find_Walk c v pre cur"
    and "finishes k i (goto i (Find_Clean c v (last (pre # map fst (before_val v xs))) (first_ptr (from_val v xs))) st) r"
  shows "finishes (k + length xs + 1) i st r"
  using assms
proof (induction xs arbitrary: cur pre st)
  case Nil
  show ?case
    by (rule finishes_step [OF _ Nil(3)]) (use Nil in \<open>auto simp: l_go_def before_val_def from_val_def\<close>)
next
  case (Cons ax xs)
  obtain a x where ax: "ax = (a, x)" by (cases ax)
  from Cons.prems(1) ax obtain n where a: "cur = a" "a \<noteq> 0" "\<not> is_marked a" "l_heap st a = Some (x, n)" "seg (l_heap st) n xs 0"
    by auto
  show ?case
  proof (cases "x < v")
    case True
    let ?st = "goto i (Find_Walk c v a n) st"
    have "finishes (k + length xs + 1) i ?st r"
      by (rule Cons.IH [of _ n a]) (use Cons.prems True ax a in \<open>simp_all add: before_val_def from_val_def\<close>)
    then show ?thesis
      by (rule finishes_step [rotated]) (use Cons.prems(2) a True in \<open>simp_all add: l_go_def\<close>)
  next
    case False
    show ?thesis
      by (rule finishes_step [OF _ Cons.prems(3)])
        (use Cons.prems(2) ax a False in \<open>auto simp: l_go_def before_val_def from_val_def\<close>)
  qed
qed

definition after_find :: "l_call \<Rightarrow> int \<Rightarrow> node_ptr \<Rightarrow> node_ptr \<Rightarrow> l_local" where
  "after_find c v pre cur = (case c of In_Add nd \<Rightarrow> Add_Test nd v pre cur | In_Remove \<Rightarrow> Rem_Test v pre cur)"

lemma after_find_simps [simp]:
  "after_find (In_Add nd) v pre cur = Add_Test nd v pre cur" "after_find In_Remove v pre cur = Rem_Test v pre cur"
  by (simp_all add: after_find_def)

lemma find_alone:
  assumes heap: "seg (l_heap st) (l_head st) ((l_head st, 0) # xs) 0" and t: "l_threads st i = Find c v"
    and r: "finishes k i (goto i (after_find c v (last (l_head st # map fst (before_val v xs))) (first_ptr (from_val v xs))) st) r"
  shows "finishes (k + length xs + 4) i st r"
proof -
  let ?pre = "last (l_head st # map fst (before_val v xs))" and ?cur = "first_ptr (from_val v xs)"
  have p: "l_heap st (l_head st) = Some (0, first_ptr xs)" "seg (l_heap st) (first_ptr xs) xs 0"
    using seg_pre(1,2) [of "l_heap st" "l_head st" "[]" "l_head st" 0 xs] heap by (simp_all only: append_Nil)
  have xs: "xs = before_val v xs @ from_val v xs" by (simp add: before_val_def from_val_def)
  have "seg (l_heap st) (first_ptr xs) (before_val v xs @ from_val v xs) 0" using p(2) xs by simp
  then obtain q where "seg (l_heap st) q (from_val v xs) 0" unfolding seg_append by blast
  then have cur: "\<not> is_marked ?cur" by (rule first_ptr_ok)
  have "finishes (k + 1) i (goto i (Find_Clean c v ?pre ?cur) st) r"
    by (rule finishes_step [OF _ r]) (use cur in \<open>auto simp: l_go_def after_find_def\<close>)
  then have "finishes (k + 1 + length xs + 1) i (goto i (Find_Walk c v (l_head st) (first_ptr xs)) st) r"
    by (intro walk_alone) (use p in simp_all)
  then have "finishes (k + length xs + 3) i (goto i (Find_Next c v (l_head st)) st) r"
    by (rule finishes_step [rotated]) (use p in \<open>simp_all add: l_go_def\<close>)
  then show ?thesis by (rule finishes_step [rotated]) (use t in \<open>simp_all add: l_go_def\<close>)
qed

subsection \<open>The operations without interference\<close>

definition insert_val :: "node_ptr \<Rightarrow> int \<Rightarrow> l_cells \<Rightarrow> l_cells" where
  "insert_val nd v xs = (if v \<in> snd ` set xs then xs else before_val v xs @ (nd, v) # from_val v xs)"

definition remove_val :: "int \<Rightarrow> l_cells \<Rightarrow> l_cells" where
  "remove_val v xs = before_val v xs @ (if v \<in> snd ` set xs then tl (from_val v xs) else from_val v xs)"

lemma before_from: "before_val v xs @ from_val v xs = xs"
  by (simp add: before_val_def from_val_def)

lemma before_less: "c \<in> set (before_val v xs) \<Longrightarrow> snd c < v"
  by (auto simp: before_val_def dest: set_takeWhileD)

lemma from_val_cases:
  assumes "sorted_wrt (<) (map snd xs)"
  obtains "from_val v xs = []" "v \<notin> snd ` set xs"
  | a x ys where "from_val v xs = (a, x) # ys" "v \<le> x" "v \<in> snd ` set xs \<longleftrightarrow> x = v" "\<forall>c \<in> set ys. x < snd c"
proof (cases "from_val v xs")
  case Nil
  then have "xs = before_val v xs" using before_from [of v xs] by simp
  then have "v \<notin> snd ` set xs" by (metis (no_types, lifting) before_less imageE less_irrefl)
  with Nil show ?thesis by (rule that(1))
next
  case (Cons ax ys)
  obtain a x where ax: "ax = (a, x)" by (cases ax)
  have xs: "xs = before_val v xs @ (a, x) # ys" using before_from [of v xs] Cons ax by simp
  have "\<not> snd ax < v" using Cons hd_dropWhile [of "\<lambda>c. snd c < v" xs] by (auto simp: from_val_def)
  then have x: "v \<le> x" using ax by simp
  have "sorted_wrt (<) (map snd (before_val v xs @ (a, x) # ys))" using assms xs by simp
  then have ys: "\<forall>c \<in> set ys. x < snd c" by (auto simp: sorted_wrt_append)
  have "v \<in> snd ` set (before_val v xs @ (a, x) # ys) \<longleftrightarrow> x = v"
    using x ys before_less [of _ v xs] by fastforce
  then have "v \<in> snd ` set xs \<longleftrightarrow> x = v" using xs by simp
  from that(2) [OF _ x this ys] Cons ax show ?thesis by simp
qed

text \<open>The node before the place of a value.\<close>

lemma split_list:
  obtains us pv where "(hd_ptr, 0) # xs = us @ (last (hd_ptr # map fst (before_val v xs)), pv) # from_val v xs"
    "(hd_ptr, 0) # before_val v xs = us @ [(last (hd_ptr # map fst (before_val v xs)), pv)]"
proof -
  obtain us c where us: "(hd_ptr, 0 :: int) # before_val v xs = us @ [c]" by (cases "(hd_ptr, 0 :: int) # before_val v xs" rule: rev_exhaust) auto
  then have "map fst ((hd_ptr, 0 :: int) # before_val v xs) = map fst us @ [fst c]" by (metis map_append list.simps(8,9))
  then have c: "last (hd_ptr # map fst (before_val v xs)) = fst c" by (metis fst_conv last_snoc list.simps(9))
  have "(hd_ptr, 0) # xs = (us @ [c]) @ from_val v xs" using us before_from [of v xs] by (metis append_Cons)
  with that [of us "snd c"] us c show ?thesis by simp
qed

definition alone_ok :: "tid \<Rightarrow> l_op \<Rightarrow> l_cells \<Rightarrow> lf_list \<Rightarrow> bool \<Rightarrow> l_cells \<Rightarrow> lf_list \<Rightarrow> bool" where
  "alone_ok i c xs st b xs' st' \<longleftrightarrow> (\<exists>st1. l_begin i c st = Some st1 \<and> finishes (length xs + 8) i st1 (b, st')) \<and>
     list_at st' xs' \<and> l_threads st' i = Out \<and> l_head st' = l_head st \<and> l_tail st' = l_tail st"

lemma list_at_goto [simp]: "list_at (goto i l st) xs = list_at st xs"
  by (simp add: list_at_def)

lemma same_heap:
  assumes "l_heap st a = None"
  shows "st\<lparr>l_heap := (l_heap st)(a := None), l_threads := t\<rparr> = st\<lparr>l_threads := t\<rparr>"
proof -
  have "(l_heap st)(a := None) = l_heap st" using assms by (rule fun_upd_idem)
  then show ?thesis by (cases st) simp
qed

lemma add_test_absent:
  assumes "l_threads st i = Add_Test nd v pre cur" "set_next nd cur st = Some st'"
    and "cur = 0 \<or> (\<exists>x n. l_heap st (get_pointer cur) = Some (x, n) \<and> x \<noteq> v)"
  shows "l_go i st = Some (None, goto i (Add_Link nd v pre cur) st')"
  using assms by (auto simp: l_go_def)

lemma add_alone:
  assumes ok: "list_at st xs" and i: "l_threads st i = Out"
    and nd: "nd \<noteq> 0" "\<not> is_marked nd" "nd \<noteq> l_head st" "nd \<notin> fst ` set xs"
  shows "\<exists>st'. alone_ok i (Op_Add v nd) xs st (v \<notin> snd ` set xs) (insert_val nd v xs) st'"
proof -
  let ?h = "l_heap st" and ?pre = "last (l_head st # map fst (before_val v xs))" and ?cur = "first_ptr (from_val v xs)"
  let ?h1 = "?h(nd \<mapsto> (v, 0))"
  let ?st1 = "goto i (Find (In_Add nd) v) (st\<lparr>l_heap := ?h1\<rparr>)"
  obtain us pv where us: "(l_head st, 0) # xs = us @ (?pre, pv) # from_val v xs"
    and us': "(l_head st, 0) # before_val v xs = us @ [(?pre, pv)]" by (rule split_list)
  have heap: "seg ?h (l_head st) ((l_head st, 0) # xs) 0" and d: "distinct (map fst ((l_head st, 0 :: int) # xs))"
    and sorted: "sorted_wrt (<) (map snd xs)" and dom: "dom ?h = insert (l_head st) (fst ` set xs)"
    using ok by (simp_all add: list_at_def)
  have fresh: "?h nd = None" using nd dom by auto
  with i nd have b: "l_begin i (Op_Add v nd) st = Some ?st1" by simp
  have nd': "nd \<notin> fst ` set ((l_head st, 0) # xs)" using nd by simp
  have heap1: "seg ?h1 (l_head st) ((l_head st, 0) # xs) 0" using heap nd' by (simp del: seg.simps)
  have find: "finishes (k + length xs + 4) i ?st1 r"
    if "finishes k i (goto i (Add_Test nd v ?pre ?cur) ?st1) r" for k r
    by (rule find_alone [of _ _ _ "In_Add nd" v]) (use heap1 that in \<open>simp_all del: seg.simps last.simps\<close>)
  show ?thesis
  proof (cases "v \<in> snd ` set xs")
    case True
    then obtain a ys where f: "from_val v xs = (a, v) # ys" using from_val_cases [OF sorted, of v] by metis
    have a: "?h1 a = Some (v, first_ptr ys)" "\<not> is_marked a" "a \<noteq> 0"
      using seg_pre [of ?h1 "l_head st" "us @ [(?pre, pv)]" a v ys] heap1 us f by simp_all
    have "l_go i (goto i (Add_Test nd v ?pre ?cur) ?st1) = Some (Some False, goto i Out st)"
      using f a same_heap [OF fresh] by (simp add: l_go_def delete_node_def goto_def del: last.simps)
    from find [OF finishes_done [OF this, of 1]] b ok show ?thesis
      using True by (intro exI [of _ "goto i Out st"]) (auto simp: alone_ok_def insert_val_def elim: finishes_mono)
  next
    case False
    let ?h2 = "?h(nd \<mapsto> (v, ?cur))" let ?h3 = "?h2(?pre \<mapsto> (pv, nd))"
    have pre: "?h ?pre = Some (pv, ?cur)" "seg ?h ?cur (from_val v xs) 0"
      using seg_pre [of ?h "l_head st" us ?pre pv "from_val v xs"] heap us by (simp_all del: last.simps)
    have ne: "nd \<noteq> ?pre" using pre fresh by auto
    let ?st2 = "goto i (Add_Link nd v ?pre ?cur) (st\<lparr>l_heap := ?h2\<rparr>)"
    let ?st3 = "goto i Out (st\<lparr>l_heap := ?h3\<rparr>)"
    have absent: "?cur = 0 \<or> (\<exists>x n. ?h1 (get_pointer ?cur) = Some (x, n) \<and> x \<noteq> v)"
    proof (cases rule: from_val_cases [OF sorted, of v])
      case (2 a x ys)
      have "?h1 a = Some (x, first_ptr ys)" "\<not> is_marked a" "a \<noteq> 0"
        using seg_pre [of ?h1 "l_head st" "us @ [(?pre, pv)]" a x ys] heap1 us 2 by simp_all
      with 2 False show ?thesis by simp
    qed simp
    have "set_next nd ?cur (goto i (Add_Test nd v ?pre ?cur) ?st1) =
        Some (goto i (Add_Test nd v ?pre ?cur) (st\<lparr>l_heap := ?h2\<rparr>))"
      by (simp add: set_next_def goto_def del: last.simps)
    from add_test_absent [OF _ this] absent have test: "l_go i (goto i (Add_Test nd v ?pre ?cur) ?st1) = Some (None, ?st2)"
      by (simp del: last.simps)
    have link: "l_go i ?st2 = Some (Some True, ?st3)"
      using pre ne by (simp add: l_go_def cas_next_def set_next_def goto_def del: last.simps)
    have fin: "finishes (length xs + 8) i ?st1 (True, ?st3)"
      by (rule finishes_mono [OF find [OF finishes_step [OF test finishes_done [OF link, of 1], of 2]]]) simp_all
    have xs': "(l_head st, 0) # before_val v xs @ (nd, v) # from_val v xs = us @ (?pre, pv) # (nd, v) # from_val v xs"
      using arg_cong [OF us', of "\<lambda>l. l @ (nd, v) # from_val v xs"] by (simp only: append_Cons append_assoc append_Nil)
    have h2: "seg ?h2 (l_head st) (us @ (?pre, pv) # from_val v xs) 0" using heap nd' us by (simp del: seg.simps)
    have dus: "?pre \<notin> fst ` set us" "?pre \<notin> fst ` set (from_val v xs)"
      using d unfolding us by (auto simp del: last.simps)
    have tail: "seg ?h2 (first_ptr ((nd, v) # from_val v xs)) ((nd, v) # from_val v xs) 0"
    proof -
      have "nd \<notin> fst ` set (from_val v xs)" using nd before_from [of v xs] by (metis UnCI image_Un set_append)
      with pre nd show ?thesis by simp
    qed
    have s1: "seg ?h3 (l_head st) (us @ (?pre, pv) # (nd, v) # from_val v xs) 0"
      using seg_relink [OF h2 dus(1) _ tail] dus(2) ne by simp
    have s2: "distinct (l_head st # map fst (before_val v xs @ (nd, v) # from_val v xs))"
    proof -
      have "distinct (map fst ((l_head st, 0 :: int) # (before_val v xs @ from_val v xs)))" using d before_from [of v xs] by simp
      moreover have "nd \<notin> fst ` set (before_val v xs @ from_val v xs)" using nd before_from [of v xs] by simp
      ultimately show ?thesis using nd(3) by auto
    qed
    have s3: "sorted_wrt (<) (map snd (before_val v xs @ (nd, v) # from_val v xs))"
    proof -
      have "sorted_wrt (<) (map snd (before_val v xs @ from_val v xs))" using sorted before_from [of v xs] by simp
      moreover have "\<forall>c \<in> set (from_val v xs). v < snd c"
        by (rule from_val_cases [OF sorted, of v]) (use False in auto)
      ultimately show ?thesis using before_less [of _ v xs] by (auto simp: sorted_wrt_append)
    qed
    have s4: "dom ?h3 = insert (l_head st) (fst ` set (before_val v xs @ (nd, v) # from_val v xs))"
    proof -
      have "?pre \<in> dom ?h" using pre by blast
      then have "dom ?h3 = insert nd (dom ?h)" by auto
      also have "\<dots> = insert nd (insert (l_head st) (fst ` set (before_val v xs @ from_val v xs)))"
        using dom before_from [of v xs] by simp
      finally show ?thesis by auto
    qed
    have "list_at ?st3 (before_val v xs @ (nd, v) # from_val v xs)"
      by (rule list_atI [of _ ?h3 "l_head st"]) (use s1 s2 s3 s4 xs' in \<open>simp_all only: goto_simps lf_heap_simps\<close>)
    then have "list_at ?st3 (insert_val nd v xs)" using False by (simp only: insert_val_def if_False)
    with b fin False show ?thesis
      by (intro exI [of _ ?st3]) (simp del: last.simps add: alone_ok_def)
  qed
qed

lemma rem_test:
  assumes "l_threads st i = Rem_Test v pre cur"
  shows "cur = 0 \<or> (\<exists>x n. l_heap st (get_pointer cur) = Some (x, n) \<and> x \<noteq> v) \<Longrightarrow> l_go i st = Some (Some False, goto i Out st)"
    and "\<lbrakk>cur \<noteq> 0; l_heap st (get_pointer cur) = Some (v, n)\<rbrakk> \<Longrightarrow> l_go i st = Some (None, goto i (Rem_Mark v pre cur n) st)"
  using assms by (auto simp: l_go_def)

lemma remove_alone:
  assumes ok: "list_at st xs" and i: "l_threads st i = Out"
  shows "\<exists>st'. alone_ok i (Op_Remove v) xs st (v \<in> snd ` set xs) (remove_val v xs) st'"
proof -
  let ?h = "l_heap st" and ?pre = "last (l_head st # map fst (before_val v xs))" and ?cur = "first_ptr (from_val v xs)"
  let ?st1 = "goto i (Find In_Remove v) st"
  obtain us pv where us: "(l_head st, 0) # xs = us @ (?pre, pv) # from_val v xs"
    and us': "(l_head st, 0) # before_val v xs = us @ [(?pre, pv)]" by (rule split_list)
  have heap: "seg ?h (l_head st) ((l_head st, 0) # xs) 0" and d: "distinct (map fst ((l_head st, 0 :: int) # xs))"
    and sorted: "sorted_wrt (<) (map snd xs)" and dom: "dom ?h = insert (l_head st) (fst ` set xs)"
    using ok by (simp_all add: list_at_def)
  have b: "l_begin i (Op_Remove v) st = Some ?st1" using i by simp
  have find: "finishes (k + length xs + 4) i ?st1 r" if "finishes k i (goto i (Rem_Test v ?pre ?cur) ?st1) r" for k r
    by (rule find_alone [of _ _ _ In_Remove v]) (use heap that in \<open>simp_all del: seg.simps last.simps\<close>)
  have cell: "?h a = Some (x, first_ptr ys)" "\<not> is_marked a" "a \<noteq> 0" "seg ?h (first_ptr ys) ys 0"
    if "from_val v xs = (a, x) # ys" for a x ys
    using seg_pre [of ?h "l_head st" "us @ [(?pre, pv)]" a x ys] heap us that by simp_all
  show ?thesis
  proof (cases "v \<in> snd ` set xs")
    case False
    have absent: "?cur = 0 \<or> (\<exists>x n. ?h (get_pointer ?cur) = Some (x, n) \<and> x \<noteq> v)"
    proof (cases rule: from_val_cases [OF sorted, of v])
      case (2 a x ys)
      with cell [of a x ys] False show ?thesis by simp
    qed simp
    have t: "l_go i (goto i (Rem_Test v ?pre ?cur) ?st1) = Some (Some False, goto i Out st)"
      using rem_test(1) [of "goto i (Rem_Test v ?pre ?cur) ?st1" i v ?pre ?cur] absent by (simp del: last.simps)
    have "finishes (length xs + 8) i ?st1 (False, goto i Out st)"
      by (rule finishes_mono [OF find [OF finishes_done [OF t, of 1]]]) simp_all
    with b ok False show ?thesis
      by (intro exI [of _ "goto i Out st"]) (simp add: alone_ok_def remove_val_def before_from)
  next
    case True
    then obtain a ys where f: "from_val v xs = (a, v) # ys" using from_val_cases [OF sorted, of v] by metis
    note cell = cell [OF f]
    let ?n = "first_ptr ys"
    let ?h1 = "?h(a \<mapsto> (v, get_marked ?n))" let ?h2 = "?h1(?pre \<mapsto> (pv, ?n))" let ?h3 = "?h2(a := None)"
    let ?st2 = "goto i (Rem_Mark v ?pre a ?n) st" and ?st3 = "goto i (Rem_Unlink ?pre a ?n) (st\<lparr>l_heap := ?h1\<rparr>)"
    let ?st4 = "goto i Out (st\<lparr>l_heap := ?h3\<rparr>)"
    have pre: "?h ?pre = Some (pv, a)"
      using seg_pre(1) [of ?h "l_head st" us ?pre pv "from_val v xs"] heap us f by (simp del: last.simps)
    have dus: "?pre \<notin> fst ` set us" "?pre \<notin> fst ` set ys" "?pre \<noteq> a" "a \<notin> fst ` set us" "a \<notin> fst ` set ys"
      using d unfolding us f by (auto simp del: last.simps)
    have t: "l_go i (goto i (Rem_Test v ?pre ?cur) ?st1) = Some (None, ?st2)"
      using rem_test(2) [of "goto i (Rem_Test v ?pre a) ?st1" i v ?pre a ?n] cell f by (simp del: last.simps)
    have m: "l_go i ?st2 = Some (None, ?st3)"
      using cell by (simp add: l_go_def cas_next_def set_next_def goto_def del: last.simps)
    have u: "l_go i ?st3 = Some (Some True, ?st4)"
      using pre dus cell by (simp add: l_go_def cas_next_def set_next_def delete_node_def goto_def del: last.simps)
    have "finishes 3 i (goto i (Rem_Test v ?pre ?cur) ?st1) (True, ?st4)"
      by (rule finishes_step [OF t finishes_step [OF m finishes_done [OF u, of 1], of 2]]) simp_all
    from finishes_mono [OF find [OF this]] have fin: "finishes (length xs + 8) i ?st1 (True, ?st4)" by simp
    have xs': "(l_head st, 0) # before_val v xs @ ys = us @ (?pre, pv) # ys"
      using arg_cong [OF us', of "\<lambda>l. l @ ys"] by (simp only: append_Cons append_assoc append_Nil)
    have xs: "xs = before_val v xs @ (a, v) # ys" using before_from [of v xs] f by simp
    have h: "seg ?h (l_head st) (us @ (?pre, pv) # (a, v) # ys) 0" using heap us f by (simp del: last.simps seg.simps)
    have h': "seg (?h(?pre \<mapsto> (pv, ?n))) (l_head st) (us @ (?pre, pv) # ys) 0"
      by (rule seg_relink [OF h dus(1,2) cell(4)])
    have h3: "?h3 = (?h(?pre \<mapsto> (pv, ?n)))(a := None)" using dus(3) by auto
    have "a \<notin> fst ` set (us @ (?pre, pv) # ys)" using dus dus(3) [symmetric] by (simp del: last.simps add: image_Un)
    then have s1: "seg ?h3 (l_head st) (us @ (?pre, pv) # ys) 0"
      unfolding h3 by (rule iffD2 [OF seg_upd h'])
    have "distinct (map fst ((l_head st, 0 :: int) # (before_val v xs @ (a, v) # ys)))" using d xs by simp
    then have s2: "distinct (l_head st # map fst (before_val v xs @ ys))" by auto
    have "sorted_wrt (<) (map snd (before_val v xs @ (a, v) # ys))" using sorted xs by simp
    then have s3: "sorted_wrt (<) (map snd (before_val v xs @ ys))" by (auto simp: sorted_wrt_append)
    have s4: "dom ?h3 = insert (l_head st) (fst ` set (before_val v xs @ ys))"
    proof -
      have "?pre \<in> dom ?h" using pre by blast
      then have "dom ?h3 = dom ?h - {a}" using dus(3) by (auto simp del: last.simps)
      also have "\<dots> = insert (l_head st) (fst ` set (before_val v xs @ (a, v) # ys)) - {a}" using dom xs by simp
      finally show ?thesis using \<open>distinct (map fst ((l_head st, 0 :: int) # (before_val v xs @ (a, v) # ys)))\<close> by auto
    qed
    have "list_at ?st4 (before_val v xs @ ys)"
      by (rule list_atI [of _ ?h3 "l_head st"]) (use s1 s2 s3 s4 xs' in \<open>simp_all only: goto_simps lf_heap_simps\<close>)
    then have "list_at ?st4 (remove_val v xs)" using True f by (simp only: remove_val_def if_True list.sel)
    with b fin True show ?thesis
      by (intro exI [of _ ?st4]) (simp del: last.simps add: alone_ok_def)
  qed
qed

text \<open>
  \<open>contains\<close> starts at the head, whose value is 0: a value that is not positive stops there, and a positive
  one goes on to the tail, whose value is 0 too.
\<close>

lemma con_walk_alone:
  assumes "seg (l_heap st) cur xs 0" "l_threads st i = Con_Walk v cur"
    and "sorted_wrt (<) (map snd xs)" "(l_tail st, 0) \<in> set xs" "distinct (map fst xs)" "0 < v"
  shows "finishes (length xs + 1) i st (False, goto i Out st)"
  using assms
proof (induction xs arbitrary: cur st)
  case (Cons ax xs)
  obtain a x where ax: "ax = (a, x)" by (cases ax)
  from Cons.prems(1) ax obtain n where a: "cur = a" "a \<noteq> 0" "\<not> is_marked a" "l_heap st a = Some (x, n)" "seg (l_heap st) n xs 0"
    by auto
  show ?case
  proof (cases "a = l_tail st")
    case True
    show ?thesis by (rule finishes_done) (use Cons.prems(2) a True in \<open>auto simp: l_go_def\<close>)
  next
    case False
    with Cons.prems(4) ax have t: "(l_tail st, 0) \<in> set xs" by auto
    with Cons.prems(3) ax have "x < 0" by auto
    then have go: "l_go i st = Some (None, goto i (Con_Walk v n) st)"
      using Cons.prems(2,6) a False by (simp add: l_go_def)
    have "finishes (length xs + 1) i (goto i (Con_Walk v n) st) (False, goto i Out (goto i (Con_Walk v n) st))"
      by (rule Cons.IH) (use Cons.prems ax a t in simp_all)
    then show ?thesis using finishes_step [OF go, of "length xs + 1"] by simp
  qed
qed simp

lemma contains_alone:
  assumes ok: "list_at st xs" and i: "l_threads st i = Out" and tail: "(l_tail st, 0) \<in> set xs"
  shows "\<exists>st'. alone_ok i (Op_Contains v) xs st (v = 0) xs st'"
proof -
  let ?st1 = "goto i (Con_Head v) st" and ?st2 = "goto i (Con_Walk v (l_head st)) st" and ?st' = "goto i Out st"
  have heap: "seg (l_heap st) (l_head st) ((l_head st, 0) # xs) 0" and d: "distinct (map fst ((l_head st, 0 :: int) # xs))"
    and sorted: "sorted_wrt (<) (map snd xs)" using ok by (simp_all add: list_at_def)
  have p: "l_heap st (l_head st) = Some (0, first_ptr xs)" "seg (l_heap st) (first_ptr xs) xs 0" "\<not> is_marked (l_head st)" "l_head st \<noteq> 0"
    using seg_pre(1-4) [of "l_heap st" "l_head st" "[]" "l_head st" 0 xs] heap by (simp_all only: append_Nil simp_thms)
  have ne: "l_head st \<noteq> l_tail st" using d tail by force
  have head: "l_go i ?st1 = Some (None, ?st2)" by (simp add: l_go_def)
  have "finishes (length xs + 2) i ?st2 (v = 0, ?st')"
  proof (cases "0 < v")
    case True
    have go: "l_go i ?st2 = Some (None, goto i (Con_Walk v (first_ptr xs)) st)" using p ne True by (simp add: l_go_def)
    have "finishes (length xs + 1) i (goto i (Con_Walk v (first_ptr xs)) st)
        (False, goto i Out (goto i (Con_Walk v (first_ptr xs)) st))"
      by (rule con_walk_alone) (use p sorted tail d True in simp_all)
    with True show ?thesis using finishes_step [OF go, of "length xs + 1"] by simp
  next
    case False
    have "\<not> is_marked (first_ptr xs)" by (rule first_ptr_ok [OF p(2)])
    with False p ne have "l_go i ?st2 = Some (Some (v = 0), ?st')" by (auto simp: l_go_def)
    then show ?thesis by (rule finishes_done) simp
  qed
  from finishes_step [OF head this, of "length xs + 8"] i ok show ?thesis
    by (intro exI [of _ ?st']) (simp add: alone_ok_def)
qed

subsection \<open>Sequences of operations\<close>

text \<open>The results of the operations as a set: \<open>contains\<close> does not look at it.\<close>

fun set_call :: "l_op \<Rightarrow> int set \<Rightarrow> bool \<times> int set" where
  "set_call (Op_Add v _) S = (v \<notin> S, insert v S)"
| "set_call (Op_Remove v) S = (v \<in> S, S - {v})"
| "set_call (Op_Contains v) S = (v = 0, S)"

fun set_calls :: "l_op list \<Rightarrow> int set \<Rightarrow> bool list" where
  "set_calls [] S = []"
| "set_calls (c # cs) S = fst (set_call c S) # set_calls cs (snd (set_call c S))"

fun new_nodes :: "l_op list \<Rightarrow> node_ptr list" where
  "new_nodes [] = []"
| "new_nodes (Op_Add _ nd # cs) = nd # new_nodes cs"
| "new_nodes (_ # cs) = new_nodes cs"

definition nodes_ok :: "node_ptr \<Rightarrow> node_ptr \<Rightarrow> l_op list \<Rightarrow> bool" where
  "nodes_ok h t cs \<longleftrightarrow> distinct (h # t # new_nodes cs) \<and>
     list_all (\<lambda>p. p \<noteq> 0 \<and> \<not> is_marked p) (h # t # new_nodes cs)"

lemma set_insert_cells:
  "set (insert_val nd v xs) = (if v \<in> snd ` set xs then set xs else insert (nd, v) (set xs))"
proof -
  have "set xs = set (before_val v xs) \<union> set (from_val v xs)" using arg_cong [OF before_from [of v xs], of set] by simp
  then show ?thesis by (auto simp: insert_val_def)
qed

lemma set_insert_val: "snd ` set (insert_val nd v xs) = insert v (snd ` set xs)"
  by (auto simp: set_insert_cells)

lemma fst_insert_val: "fst ` set (insert_val nd v xs) \<subseteq> insert nd (fst ` set xs)"
  by (auto simp: set_insert_cells)

lemma remove_val_filter:
  assumes "sorted_wrt (<) (map snd xs)"
  shows "remove_val v xs = filter (\<lambda>c. snd c \<noteq> v) xs"
proof -
  have b: "filter (\<lambda>c. snd c \<noteq> v) (before_val v xs) = before_val v xs"
    by (auto simp: filter_id_conv dest: before_less)
  have f: "filter (\<lambda>c. snd c \<noteq> v) (from_val v xs) = (if v \<in> snd ` set xs then tl (from_val v xs) else from_val v xs)"
  proof (cases rule: from_val_cases [OF assms, of v])
    case (2 a x ys)
    then show ?thesis by (auto simp: filter_id_conv)
  qed simp
  have "filter (\<lambda>c. snd c \<noteq> v) xs = filter (\<lambda>c. snd c \<noteq> v) (before_val v xs @ from_val v xs)"
    by (simp only: before_from)
  then show ?thesis using b f by (simp add: remove_val_def)
qed

definition list_inv :: "tid \<Rightarrow> lf_list \<Rightarrow> l_cells \<Rightarrow> bool" where
  "list_inv i st xs \<longleftrightarrow> list_at st xs \<and> l_threads st i = Out"

definition calls_fit :: "lf_list \<Rightarrow> l_cells \<Rightarrow> l_op list \<Rightarrow> bool" where
  "calls_fit st xs cs \<longleftrightarrow> distinct (new_nodes cs) \<and> (\<forall>p \<in> set (new_nodes cs). p \<noteq> 0 \<and> \<not> is_marked p \<and>
     p \<noteq> l_head st \<and> p \<notin> fst ` set xs)"

text \<open>One operation; \<open>contains\<close> needs the tail, and \<open>remove\<close> of its value takes it away.\<close>

fun keeps_tail :: "l_op \<Rightarrow> bool" where
  "keeps_tail (Op_Remove v) = (v \<noteq> 0)"
| "keeps_tail _ = True"

fun is_contains :: "l_op \<Rightarrow> bool" where
  "is_contains (Op_Contains _) = True"
| "is_contains _ = False"

lemma call_alone:
  assumes inv: "list_inv i st xs" and fit: "calls_fit st xs (c # cs)"
    and tail: "is_contains c \<Longrightarrow> (l_tail st, 0) \<in> set xs"
  obtains st' xs' where "alone_ok i c xs st (fst (set_call c (snd ` set xs))) xs' st'"
    "snd ` set xs' = snd (set_call c (snd ` set xs))" "length xs' \<le> Suc (length xs)"
    "calls_fit st' xs' cs" "list_inv i st' xs'"
    "keeps_tail c \<and> (l_tail st, 0) \<in> set xs \<longrightarrow> (l_tail st', 0) \<in> set xs'"
proof (cases c)
  case (Op_Add v nd)
  from add_alone [of st xs i nd v] inv fit Op_Add obtain st' where
    st': "alone_ok i c xs st (v \<notin> snd ` set xs) (insert_val nd v xs) st'" by (auto simp: list_inv_def calls_fit_def)
  have "length (insert_val nd v xs) \<le> Suc (length xs)"
    using arg_cong [OF before_from [of v xs], of length] by (simp add: insert_val_def)
  moreover have "(l_tail st, 0) \<in> set xs \<Longrightarrow> (l_tail st, 0) \<in> set (insert_val nd v xs)"
    by (simp add: set_insert_cells)
  moreover have "calls_fit st' (insert_val nd v xs) cs"
    using fit st' fst_insert_val [of nd v xs] unfolding Op_Add calls_fit_def alone_ok_def by auto
  moreover have "list_inv i st' (insert_val nd v xs)" "l_tail st' = l_tail st" using st' by (simp_all add: alone_ok_def list_inv_def)
  ultimately show ?thesis using that [where xs' = "insert_val nd v xs" and st' = st'] st' unfolding Op_Add
    by (simp add: set_insert_val)
next
  case (Op_Remove v)
  from remove_alone [of st xs i v] inv Op_Remove obtain st' where
    st': "alone_ok i c xs st (v \<in> snd ` set xs) (remove_val v xs) st'" by (auto simp: list_inv_def)
  have f: "remove_val v xs = filter (\<lambda>c. snd c \<noteq> v) xs"
    using inv by (simp add: remove_val_filter list_inv_def list_at_def)
  have "length (remove_val v xs) \<le> Suc (length xs)" using f by (simp add: le_SucI)
  moreover have "snd ` set (remove_val v xs) = snd ` set xs - {v}" using f by auto
  moreover have "calls_fit st' (remove_val v xs) cs"
    using fit st' f unfolding Op_Remove calls_fit_def alone_ok_def by auto
  moreover have "list_inv i st' (remove_val v xs)" "l_tail st' = l_tail st" using st' by (simp_all add: alone_ok_def list_inv_def)
  moreover have "v \<noteq> 0 \<Longrightarrow> (l_tail st, 0) \<in> set xs \<Longrightarrow> (l_tail st, 0) \<in> set (remove_val v xs)" using f by simp
  ultimately show ?thesis using that [where xs' = "remove_val v xs" and st' = st'] st' unfolding Op_Remove
    by simp
next
  case (Op_Contains v)
  from contains_alone [of st xs i v] inv Op_Contains tail obtain st' where
    st': "alone_ok i c xs st (v = 0) xs st'" by (auto simp: list_inv_def)
  moreover have "calls_fit st' xs cs" using fit st' unfolding Op_Contains calls_fit_def alone_ok_def by auto
  moreover have "list_inv i st' xs" "l_tail st' = l_tail st" using st' by (simp_all add: alone_ok_def list_inv_def)
  ultimately show ?thesis using that [where xs' = xs and st' = st'] unfolding Op_Contains by simp
qed

lemma sequential_step:
  assumes "alone_ok i c xs st b xs' st'" "length xs + 8 \<le> n" "sequential n i cs st' = Some (bs, st'')"
  shows "sequential n i (c # cs) st = Some (b # bs, st'')"
  using assms by (auto simp: alone_ok_def finishes_def)

lemma sequential_calls:
  assumes "list_inv i st xs" "calls_fit st xs cs" "length xs + length cs + 8 \<le> n"
    and "list_ex is_contains cs \<Longrightarrow> (l_tail st, 0) \<in> set xs \<and> list_all keeps_tail cs"
  shows "\<exists>st'. sequential n i cs st = Some (set_calls cs (snd ` set xs), st')"
  using assms
proof (induction cs arbitrary: st xs)
  case (Cons c cs)
  have tail: "is_contains c \<Longrightarrow> (l_tail st, 0) \<in> set xs" using Cons.prems(4) by simp
  obtain st' xs' where
    c: "alone_ok i c xs st (fst (set_call c (snd ` set xs))) xs' st'" "snd ` set xs' = snd (set_call c (snd ` set xs))"
    "length xs' \<le> Suc (length xs)" "calls_fit st' xs' cs" "list_inv i st' xs'"
    "keeps_tail c \<and> (l_tail st, 0) \<in> set xs \<longrightarrow> (l_tail st', 0) \<in> set xs'"
    by (rule call_alone [OF Cons.prems(1,2) tail])
  have "\<exists>st''. sequential n i cs st' = Some (set_calls cs (snd ` set xs'), st'')"
  proof (rule Cons.IH [OF c(5) c(4)])
    show "length xs' + length cs + 8 \<le> n" using Cons.prems(3) c(3) by simp
    show "(l_tail st', 0) \<in> set xs' \<and> list_all keeps_tail cs" if "list_ex is_contains cs"
      using Cons.prems(4) that c(6) by simp
  qed
  then obtain st'' where "sequential n i cs st' = Some (set_calls cs (snd ` set xs'), st'')" by blast
  from sequential_step [OF c(1) _ this] Cons.prems(3) c(2) show ?case by simp
qed simp

lemma new_list_inv:
  assumes "nodes_ok h t cs"
  shows "list_inv i (new_list h t) [(t, 0)]" "calls_fit (new_list h t) [(t, 0)] cs" "l_tail (new_list h t) = t"
proof -
  have ht: "h \<noteq> t" "h \<noteq> 0" "t \<noteq> 0" "\<not> is_marked h" "\<not> is_marked t" and d: "distinct (new_nodes cs)"
    and new: "\<forall>p \<in> set (new_nodes cs). p \<noteq> 0 \<and> \<not> is_marked p \<and> p \<noteq> h \<and> p \<noteq> t"
    using assms by (auto simp: nodes_ok_def list_all_iff)
  have "list_at (new_list h t) [(t, 0)]"
    by (rule list_atI [of _ "[h \<mapsto> (0, t), t \<mapsto> (0, 0)]" h]) (use ht in \<open>simp_all add: new_list_def insert_commute\<close>)
  then show "list_inv i (new_list h t) [(t, 0)]" by (simp add: list_inv_def new_list_def)
  show "calls_fit (new_list h t) [(t, 0)] cs" using d new by (simp add: calls_fit_def new_list_def)
  show "l_tail (new_list h t) = t" by (simp add: new_list_def)
qed

subsection \<open>Properties of one thread\<close>

text \<open>
  C30: Without interference \<open>add\<close> and \<open>remove\<close> are the operations of a set that starts with the value of the
  sentinels: each returns whether it changed the set, and each returns, within a number of steps that
  grows with the number of nodes.
\<close>

theorem list_refines_set:
  assumes "nodes_ok h t cs" "list_all (\<lambda>c. \<not> is_contains c) cs" "length cs + 9 \<le> n"
  shows "map_option fst (sequential n i cs (new_list h t)) = Some (set_calls cs {0})"
proof -
  have "\<not> list_ex is_contains cs" using assms(2) by (simp add: list_all_iff list_ex_iff)
  with sequential_calls [OF new_list_inv(1,2) [OF assms(1)], of n i] assms(3) show ?thesis by fastforce
qed

theorem list_refines_set_witness:
  "map_option fst (sequential 20 0 [Op_Add 7 48, Op_Add (- 3) 64, Op_Add 7 80, Op_Remove 7, Op_Remove 7, Op_Add 0 96] (new_list 16 32)) =
     Some [True, True, False, True, False, False]"
proof -
  let ?cs = "[Op_Add 7 48, Op_Add (- 3) 64, Op_Add 7 80, Op_Remove 7, Op_Remove 7, Op_Add 0 96]"
  have "nodes_ok 16 32 ?cs" by code_simp
  from list_refines_set [OF this, of 20 0] show ?thesis by simp
qed

text \<open>
  \<open>contains\<close> says nothing about the set: after any operations that leave the tail in the list it
  returns whether the value is 0. The walk stops at the head for a value that is not
  positive, and at the tail, whose value 0 puts it before the positive values, for the others.
\<close>

theorem contains_is_constant:
  assumes "nodes_ok h t cs" "list_all keeps_tail cs" "length cs + 10 \<le> n"
  shows "map_option (\<lambda>(bs, _). last bs) (sequential n i (cs @ [Op_Contains v]) (new_list h t)) = Some (v = 0)"
proof -
  let ?cs = "cs @ [Op_Contains v]"
  have n: "new_nodes ?cs = new_nodes cs" by (induction cs rule: new_nodes.induct) simp_all
  with assms(1) have ok: "nodes_ok h t ?cs" by (simp add: nodes_ok_def)
  obtain st where "sequential n i ?cs (new_list h t) = Some (set_calls ?cs {0}, st)"
    using sequential_calls [OF new_list_inv(1,2) [OF ok], of n i] new_list_inv(3) [OF ok] assms(2,3) by auto
  moreover have "last (set_calls ?cs S) = (v = 0)" for S
  proof (induction cs arbitrary: S)
    case (Cons c cs)
    then show ?case by (cases cs) simp_all
  qed simp
  ultimately show ?thesis by simp
qed

theorem contains_is_constant_witness:
  "map_option (\<lambda>(bs, _). last bs) (sequential 20 0 [Op_Add 7 48, Op_Add 9 64, Op_Contains 7] (new_list 16 32)) = Some False"
proof -
  let ?cs = "[Op_Add 7 48, Op_Add 9 64]"
  have "nodes_ok 16 32 ?cs" by code_simp
  from contains_is_constant [OF this, of 20 0 7] show ?thesis by simp
qed

subsection \<open>Properties of interleavings\<close>

text \<open>
  A concurrent \<open>find\<close> takes the mark for that of the wrong node. The mark of a node is in its own
  \<open>next\<close>, but \<open>find\<close> unlinks the node that a marked pointer leads to. Here 10, 20 and 30 are in the list;
  \<open>remove(10)\<close> has marked the node of 10 when \<open>add(5)\<close> comes in before it and \<open>remove(20)\<close> looks for 20: that
  unlinks 20, wipes out the mark of 10 and returns false, and \<open>remove(10)\<close> returns true with 10 still in the
  list.
\<close>

theorem find_unlinks_wrong_node:
  "(case sequential 20 0 [Op_Add 10 48, Op_Add 20 64, Op_Add 30 80] (new_list 16 32) of
      None \<Rightarrow> False
    | Some (bs, st) \<Rightarrow> bs = [True, True, True] \<and> values_from 9 16 st = Some [0, 0, 10, 20, 30] \<and>
        (case l_run (Begin 1 (Op_Remove 10) # replicate 7 (Go 1) @ Begin 2 (Op_Add 5 96) # replicate 7 (Go 2) @
            Begin 3 (Op_Remove 20) # replicate 10 (Go 3) @ [Go 1]) st of
           None \<Rightarrow> False
         | Some (rs, st) \<Rightarrow> rs = [(2, True), (3, False), (1, True)] \<and>
             values_from 9 16 st = Some [0, 0, 5, 10, 30]))"
  by code_simp

end
