(* ===== verification/NonBlocking_Queue.thy ===== *)
theory NonBlocking_Queue
  imports CDS_Prelude
begin

text \<open>
  The bounded queue of \<open>assignment2/noblocking_queue.hpp\<close>: a ring of slots with a sequence number each.
  Threads take positions from two counters by compare-and-swap. The steps are the atomic operations and
  the accesses to the data of a slot; they interleave in any order. The memory orders are not modelled:
  the steps are those of a sequentially consistent machine. What \<open>backoff\<close> does with time is left out.
\<close>

type_synonym size_t = "64 word"
type_synonym tid = nat

subsection \<open>State\<close>

text \<open>Where a thread is in \<open>add\<close> or \<open>remove\<close>, with its local variables.\<close>

datatype 'a q_local =
    Idle
  | Add_Start 'a
  | Add_Loaded 'a size_t
  | Add_Seq 'a size_t size_t
  | Add_Claimed 'a size_t
  | Add_Written 'a size_t
  | Rem_Start
  | Rem_Loaded size_t
  | Rem_Seq size_t size_t
  | Rem_Claimed size_t
  | Rem_Read size_t 'a

record 'a nbqueue =
  q_capacity :: size_t
  q_seq :: "size_t list"
  q_data :: "'a list"
  q_head :: size_t
  q_tail :: size_t
  q_threads :: "tid \<Rightarrow> 'a q_local"

definition new_nbqueue :: "size_t \<Rightarrow> 'a \<Rightarrow> 'a nbqueue" where
  "new_nbqueue cap d = \<lparr>q_capacity = cap, q_seq = map of_nat [0..<unat cap], q_data = replicate (unat cap) d,
     q_head = 0, q_tail = 0, q_threads = (\<lambda>_. Idle)\<rparr>"

text \<open>The slot of a position; a capacity of 0 divides by 0.\<close>

definition slot_of :: "'a nbqueue \<Rightarrow> size_t \<Rightarrow> nat option" where
  "slot_of q pos = do {
     ASSERT (q_capacity q \<noteq> 0);
     ASSERT (unat (pos mod q_capacity q) < length (q_seq q) \<and> unat (pos mod q_capacity q) < length (q_data q));
     Some (unat (pos mod q_capacity q))
   }"

definition set_thread :: "tid \<Rightarrow> 'a q_local \<Rightarrow> 'a nbqueue \<Rightarrow> 'a nbqueue" where
  "set_thread i l q = q\<lparr>q_threads := (q_threads q)(i := l)\<rparr>"

subsection \<open>Steps\<close>

text \<open>
  The events of a step: a position has been taken for an item, or an item has been returned. A weak
  compare-and-swap may fail although the counter has the expected value.
\<close>

datatype 'a q_event = Claimed 'a | Removed size_t 'a

datatype 'a q_action = Call_Add tid 'a | Call_Remove tid | Go tid | Weak_Fail tid

type_synonym 'a q_result = "('a q_event list \<times> 'a nbqueue) option"

fun add_step :: "bool \<Rightarrow> tid \<Rightarrow> 'a q_local \<Rightarrow> 'a nbqueue \<Rightarrow> 'a q_result" where
  "add_step fail i (Add_Start item) q = Some ([], set_thread i (Add_Loaded item (q_tail q)) q)"
| "add_step fail i (Add_Loaded item pos) q = do {
     node \<leftarrow> slot_of q pos;
     Some ([], set_thread i (Add_Seq item pos (q_seq q ! node)) q)
   }"
| "add_step fail i (Add_Seq item pos seq) q =
     (let dif = sint seq - sint pos
      in if dif = 0 \<and> q_tail q = pos \<and> \<not> fail
         then Some ([Claimed item], set_thread i (Add_Claimed item pos) (q\<lparr>q_tail := pos + 1\<rparr>))
         else Some ([], set_thread i (Add_Start item) q))"
| "add_step fail i (Add_Claimed item pos) q = do {
     node \<leftarrow> slot_of q pos;
     Some ([], set_thread i (Add_Written item pos) (q\<lparr>q_data := (q_data q)[node := item]\<rparr>))
   }"
| "add_step fail i (Add_Written item pos) q = do {
     node \<leftarrow> slot_of q pos;
     Some ([], set_thread i Idle (q\<lparr>q_seq := (q_seq q)[node := pos + 1]\<rparr>))
   }"
| "add_step fail i _ q = None"

fun remove_step :: "bool \<Rightarrow> tid \<Rightarrow> 'a q_local \<Rightarrow> 'a nbqueue \<Rightarrow> 'a q_result" where
  "remove_step fail i Rem_Start q = Some ([], set_thread i (Rem_Loaded (q_head q)) q)"
| "remove_step fail i (Rem_Loaded pos) q = do {
     node \<leftarrow> slot_of q pos;
     Some ([], set_thread i (Rem_Seq pos (q_seq q ! node)) q)
   }"
| "remove_step fail i (Rem_Seq pos seq) q =
     (let dif = sint seq - sint (pos + 1)
      in if dif = 0 \<and> q_head q = pos \<and> \<not> fail
         then Some ([], set_thread i (Rem_Claimed pos) (q\<lparr>q_head := pos + 1\<rparr>))
         else Some ([], set_thread i Rem_Start q))"
| "remove_step fail i (Rem_Claimed pos) q = do {
     node \<leftarrow> slot_of q pos;
     Some ([], set_thread i (Rem_Read pos (q_data q ! node)) q)
   }"
| "remove_step fail i (Rem_Read pos out) q = do {
     node \<leftarrow> slot_of q pos;
     Some ([Removed pos out], set_thread i Idle (q\<lparr>q_seq := (q_seq q)[node := pos + q_capacity q]\<rparr>))
   }"
| "remove_step fail i _ q = None"

fun is_adding :: "'a q_local \<Rightarrow> bool" where
  "is_adding (Add_Start _) = True"
| "is_adding (Add_Loaded _ _) = True"
| "is_adding (Add_Seq _ _ _) = True"
| "is_adding (Add_Claimed _ _) = True"
| "is_adding (Add_Written _ _) = True"
| "is_adding _ = False"

definition thread_step :: "bool \<Rightarrow> tid \<Rightarrow> 'a nbqueue \<Rightarrow> 'a q_result" where
  "thread_step fail i q =
     (if is_adding (q_threads q i) then add_step fail i (q_threads q i) q
      else remove_step fail i (q_threads q i) q)"

fun q_step :: "'a q_action \<Rightarrow> 'a nbqueue \<Rightarrow> 'a q_result" where
  "q_step (Call_Add i item) q = (case q_threads q i of Idle \<Rightarrow> Some ([], set_thread i (Add_Start item) q) | _ \<Rightarrow> None)"
| "q_step (Call_Remove i) q = (case q_threads q i of Idle \<Rightarrow> Some ([], set_thread i Rem_Start q) | _ \<Rightarrow> None)"
| "q_step (Go i) q = thread_step False i q"
| "q_step (Weak_Fail i) q = thread_step True i q"

definition q_run :: "'a q_action list \<Rightarrow> 'a nbqueue \<Rightarrow> 'a q_result" where
  "q_run acts q = for_each (\<lambda>a (evs, q). map_option (\<lambda>(e, q). (evs @ e, q)) (q_step a q)) acts ([], q)"

text \<open>The items in the order in which they took a position.\<close>

definition claims :: "'a q_event list \<Rightarrow> 'a list" where
  "claims evs = concat (map (\<lambda>e. case e of Claimed x \<Rightarrow> [x] | _ \<Rightarrow> []) evs)"

definition removals :: "'a q_event list \<Rightarrow> (size_t \<times> 'a) list" where
  "removals evs = concat (map (\<lambda>e. case e of Removed p x \<Rightarrow> [(p, x)] | _ \<Rightarrow> []) evs)"

lemma claims_simps [simp]:
  "claims [] = []" "claims (a @ b) = claims a @ claims b" "claims [Claimed x] = [x]" "claims [Removed p x] = []"
  by (simp_all add: claims_def)

lemma removals_simps [simp]:
  "removals [] = []" "removals (a @ b) = removals a @ removals b" "removals [Claimed x] = []"
  "removals [Removed p x] = [(p, x)]"
  by (simp_all add: removals_def)

subsection \<open>The invariant\<close>

text \<open>
  A slot holds a position \<open>p\<close> of its residue class: its number is \<open>p\<close> while it is free for the item
  of \<open>p\<close> (or is being filled), and \<open>p + 1\<close> once the item is there.
\<close>

definition slot_ok :: "nat \<Rightarrow> 'a list \<Rightarrow> nat \<Rightarrow> nat \<Rightarrow> 'a \<Rightarrow> bool" where
  "slot_ok n cl i s x \<longleftrightarrow> (\<exists>p. p mod n = i \<and> length cl \<le> p + n \<and> p < length cl + n \<and>
     (s = p \<or> s = p + 1 \<and> p < length cl \<and> x = cl ! p))"

fun add_position :: "'a q_local \<Rightarrow> size_t option" where
  "add_position (Add_Claimed x p) = Some p"
| "add_position (Add_Written x p) = Some p"
| "add_position _ = None"

fun rem_position :: "'a q_local \<Rightarrow> size_t option" where
  "rem_position (Rem_Claimed p) = Some p"
| "rem_position (Rem_Read p x) = Some p"
| "rem_position _ = None"

text \<open>The number and the item of the slot of a position.\<close>

definition num_at :: "'a nbqueue \<Rightarrow> size_t \<Rightarrow> nat" where
  "num_at q p = unat (q_seq q ! (unat p mod unat (q_capacity q)))"

definition item_at :: "'a nbqueue \<Rightarrow> size_t \<Rightarrow> 'a" where
  "item_at q p = q_data q ! (unat p mod unat (q_capacity q))"

fun local_ok :: "'a list \<Rightarrow> 'a nbqueue \<Rightarrow> 'a q_local \<Rightarrow> bool" where
  "local_ok cl q (Add_Loaded x p) = (unat p \<le> length cl)"
| "local_ok cl q (Add_Seq x p s) = (unat p \<le> length cl \<and> (s = p \<longrightarrow> unat p < length cl \<or> num_at q p = unat p))"
| "local_ok cl q (Add_Claimed x p) = (unat p < length cl \<and> cl ! unat p = x \<and> num_at q p = unat p)"
| "local_ok cl q (Add_Written x p) = (unat p < length cl \<and> cl ! unat p = x \<and> num_at q p = unat p \<and> item_at q p = x)"
| "local_ok cl q (Rem_Loaded p) = (unat p \<le> unat (q_head q))"
| "local_ok cl q (Rem_Seq p s) = (unat p \<le> unat (q_head q) \<and>
     (s = p + 1 \<longrightarrow> unat p < unat (q_head q) \<or> num_at q p = unat p + 1))"
| "local_ok cl q (Rem_Claimed p) = (unat p < unat (q_head q) \<and> num_at q p = unat p + 1)"
| "local_ok cl q (Rem_Read p x) = (unat p < unat (q_head q) \<and> num_at q p = unat p + 1 \<and>
     unat p < length cl \<and> x = cl ! unat p)"
| "local_ok cl q _ = True"

definition ring_ok :: "nat \<Rightarrow> 'a q_event list \<Rightarrow> 'a nbqueue \<Rightarrow> bool" where
  "ring_ok n evs q \<longleftrightarrow> 2 \<le> n \<and> unat (q_capacity q) = n \<and> length (q_seq q) = n \<and> length (q_data q) = n \<and>
     unat (q_tail q) = length (claims evs) \<and> unat (q_head q) \<le> length (claims evs) \<and>
     (\<forall>i<n. slot_ok n (claims evs) i (unat (q_seq q ! i)) (q_data q ! i)) \<and>
     (\<forall>t. local_ok (claims evs) q (q_threads q t)) \<and>
     (\<forall>t u p. add_position (q_threads q t) = Some p \<longrightarrow> add_position (q_threads q u) = Some p \<longrightarrow> t = u) \<and>
     (\<forall>t u p. rem_position (q_threads q t) = Some p \<longrightarrow> rem_position (q_threads q u) = Some p \<longrightarrow> t = u) \<and>
     (\<forall>(p, x)\<in>set (removals evs). unat p < unat (q_head q) \<and> x = claims evs ! unat p \<and>
        (\<forall>t. rem_position (q_threads q t) \<noteq> Some p)) \<and>
     distinct (map fst (removals evs))"

lemma next_residue: "2 \<le> n \<Longrightarrow> (p + 1) mod n \<noteq> p mod (n :: nat)"
  by (auto simp: mod_Suc)

lemma slot_of_eq:
  assumes "ring_ok n evs q"
  shows "slot_of q p = Some (unat p mod n)"
proof -
  have n: "unat (q_capacity q) = n" "2 \<le> n" "length (q_seq q) = n" "length (q_data q) = n"
    using assms by (auto simp: ring_ok_def)
  then have "q_capacity q \<noteq> 0" by auto
  with n show ?thesis by (simp add: slot_of_def unat_mod)
qed

lemma num_at_eq: "ring_ok n evs q \<Longrightarrow> num_at q p = unat (q_seq q ! (unat p mod n))"
  by (simp add: num_at_def ring_ok_def)

lemma item_at_eq: "ring_ok n evs q \<Longrightarrow> item_at q p = q_data q ! (unat p mod n)"
  by (simp add: item_at_def ring_ok_def)

lemma slot_at:
  assumes "ring_ok n evs q"
  obtains p' where "p' mod n = unat p mod n" "length (claims evs) \<le> p' + n" "p' < length (claims evs) + n"
    "num_at q p = p' \<or> num_at q p = p' + 1 \<and> p' < length (claims evs) \<and> item_at q p = claims evs ! p'"
proof -
  have "slot_ok n (claims evs) (unat p mod n) (num_at q p) (item_at q p)"
    using assms by (simp add: ring_ok_def num_at_def item_at_def)
  then show ?thesis using that by (auto simp: slot_ok_def)
qed

text \<open>The number of a slot tells which of its positions is free or filled.\<close>

lemma free_slot:
  assumes "ring_ok n evs q" "num_at q p = unat p"
  shows "length (claims evs) \<le> unat p + n" "unat p < length (claims evs) + n"
proof -
  have "2 \<le> n" using assms(1) by (simp add: ring_ok_def)
  from slot_at [OF assms(1), of p] obtain p' where p': "p' mod n = unat p mod n" "length (claims evs) \<le> p' + n"
    "p' < length (claims evs) + n" "unat p = p' \<or> unat p = p' + 1" unfolding assms(2) by blast
  with next_residue [OF \<open>2 \<le> n\<close>, of p'] have "unat p = p'" by auto
  with p' show "length (claims evs) \<le> unat p + n" "unat p < length (claims evs) + n" by auto
qed

lemma filled_slot:
  assumes "ring_ok n evs q" "num_at q p = unat p + 1"
  shows "unat p < length (claims evs)" "item_at q p = claims evs ! unat p"
proof -
  have "2 \<le> n" using assms(1) by (simp add: ring_ok_def)
  from slot_at [OF assms(1), of p] obtain p' where p': "p' mod n = unat p mod n"
    "unat p + 1 = p' \<or> unat p + 1 = p' + 1 \<and> p' < length (claims evs) \<and> item_at q p = claims evs ! p'"
    unfolding assms(2) by blast
  with next_residue [OF \<open>2 \<le> n\<close>, of "unat p"] show "unat p < length (claims evs)" "item_at q p = claims evs ! unat p"
    by auto
qed

lemma same_slot:
  assumes "ring_ok n evs q" "unat p mod n = unat p' mod n"
  shows "num_at q p = num_at q p'" "num_at q p = unat p \<Longrightarrow> num_at q p' \<noteq> unat p' + 1"
proof -
  show same: "num_at q p = num_at q p'" using assms by (simp add: num_at_eq)
  have "2 \<le> n" using assms(1) by (simp add: ring_ok_def)
  with next_residue [of n "unat p'"] assms(2) same show "num_at q p = unat p \<Longrightarrow> num_at q p' \<noteq> unat p' + 1" by metis
qed

subsection \<open>Steps keep the invariant\<close>

lemma threads_simps [simp]:
  "q_threads (set_thread i l q) = (q_threads q)(i := l)" "q_capacity (set_thread i l q) = q_capacity q"
  "q_seq (set_thread i l q) = q_seq q" "q_data (set_thread i l q) = q_data q"
  "q_head (set_thread i l q) = q_head q" "q_tail (set_thread i l q) = q_tail q"
  by (simp_all add: set_thread_def)

lemma local_ok_cong:
  assumes "q_seq q' = q_seq q" "q_data q' = q_data q" "q_capacity q' = q_capacity q" "q_head q' = q_head q"
  shows "local_ok cl q' l = local_ok cl q l"
  using assms by (cases l) (simp_all add: num_at_def item_at_def)

lemma set_thread_ok:
  assumes ok: "ring_ok n evs q" and l: "local_ok (claims evs) q l"
    and "add_position l = None \<or> add_position l = add_position (q_threads q i)"
    and "rem_position l = None \<or> rem_position l = rem_position (q_threads q i)"
  shows "ring_ok n evs (set_thread i l q)"
proof -
  have loc: "local_ok (claims evs) (set_thread i l q) l' = local_ok (claims evs) q l'" for l'
    by (rule local_ok_cong) simp_all
  have adds: "add_position (if t = i then l else q_threads q t) = Some p \<Longrightarrow> add_position (q_threads q t) = Some p" for t p
    using assms(3) by (auto split: if_splits)
  have rems: "rem_position (if t = i then l else q_threads q t) = Some p \<Longrightarrow> rem_position (q_threads q t) = Some p" for t p
    using assms(4) by (auto split: if_splits)
  show ?thesis
    unfolding ring_ok_def
  proof (intro conjI)
    show "\<forall>t u p. add_position (q_threads (set_thread i l q) t) = Some p \<longrightarrow>
        add_position (q_threads (set_thread i l q) u) = Some p \<longrightarrow> t = u"
      using ok unfolding ring_ok_def threads_simps fun_upd_apply by (blast dest: adds)
    show "\<forall>t u p. rem_position (q_threads (set_thread i l q) t) = Some p \<longrightarrow>
        rem_position (q_threads (set_thread i l q) u) = Some p \<longrightarrow> t = u"
      using ok unfolding ring_ok_def threads_simps fun_upd_apply by (blast dest: rems)
    show "\<forall>(p, x)\<in>set (removals evs). unat p < unat (q_head (set_thread i l q)) \<and> x = claims evs ! unat p \<and>
        (\<forall>t. rem_position (q_threads (set_thread i l q) t) \<noteq> Some p)"
      using ok unfolding ring_ok_def threads_simps fun_upd_apply by (fast dest: rems)
    show "\<forall>t. local_ok (claims evs) (set_thread i l q) (q_threads (set_thread i l q) t)"
      using ok l unfolding loc by (simp add: ring_ok_def)
  qed (use ok in \<open>simp_all add: ring_ok_def\<close>)
qed

lemma removalsD:
  assumes "ring_ok n evs q" "(r, y) \<in> set (removals evs)"
  shows "unat r < unat (q_head q)" "unat r < length (claims evs)" "y = claims evs ! unat r"
    "rem_position (q_threads q t) \<noteq> Some r"
  using assms by (auto simp: ring_ok_def)

text \<open>A thread takes the next position of the tail.\<close>

lemma local_ok_claim:
  "local_ok cl q l \<Longrightarrow> local_ok (cl @ [x]) (q\<lparr>q_tail := t\<rparr>) l"
  by (cases l) (auto simp: nth_append num_at_def item_at_def)

lemma claim_ok:
  assumes ok: "ring_ok n evs q" and bound: "length (claims evs) + n + 1 < 2 ^ 64"
    and l: "q_threads q i = Add_Seq x p p" and tail: "q_tail q = p"
  shows "ring_ok n (evs @ [Claimed x]) (set_thread i (Add_Claimed x p) (q\<lparr>q_tail := p + 1\<rparr>))" (is "ring_ok n ?evs ?q")
proof -
  let ?cl = "claims evs"
  have p: "unat p = length ?cl" using ok tail by (simp add: ring_ok_def)
  have "local_ok ?cl q (Add_Seq x p p)" using ok l by (metis ring_ok_def)
  then have num: "num_at q p = unat p" using p by simp
  have p1: "unat (p + 1) = length ?cl + 1" using p bound by (simp add: unat_word_ariths)
  have same: "num_at ?q r = num_at q r" "item_at ?q r = item_at q r" for r by (simp_all add: num_at_def item_at_def)
  have loc: "local_ok (?cl @ [x]) ?q l'" if "local_ok ?cl q l'" for l'
    using local_ok_claim [OF that, of x "p + 1"] local_ok_cong [of ?q "q\<lparr>q_tail := p + 1\<rparr>"] by simp
  have fresh: "add_position (q_threads q t) \<noteq> Some p" for t
  proof
    assume "add_position (q_threads q t) = Some p"
    moreover have "local_ok ?cl q (q_threads q t)" using ok by (simp add: ring_ok_def)
    ultimately show False using p by (cases "q_threads q t") auto
  qed
  have slots: "slot_ok n (?cl @ [x]) j (unat (q_seq q ! j)) (q_data q ! j)" if j: "j < n" for j
  proof -
    have "slot_ok n ?cl j (unat (q_seq q ! j)) (q_data q ! j)" using ok j by (simp add: ring_ok_def)
    then obtain r where r: "r mod n = j" "length ?cl \<le> r + n" "r < length ?cl + n"
      "unat (q_seq q ! j) = r \<or> unat (q_seq q ! j) = r + 1 \<and> r < length ?cl \<and> q_data q ! j = ?cl ! r"
      by (auto simp: slot_ok_def)
    have "length ?cl \<noteq> r + n"
    proof
      assume *: "length ?cl = r + n"
      then have "unat p mod n = j" using p r(1) by simp
      then have "unat (q_seq q ! j) = r + n" using num num_at_eq [OF ok, of p] p * by simp
      with r(4) ok show False by (auto simp: ring_ok_def)
    qed
    with r show ?thesis by (auto simp: slot_ok_def nth_append intro!: exI [of _ r])
  qed
  show ?thesis
    unfolding ring_ok_def
  proof (intro conjI)
    show "\<forall>j<n. slot_ok n (claims ?evs) j (unat (q_seq ?q ! j)) (q_data ?q ! j)" using slots by simp
    have "local_ok (?cl @ [x]) ?q (Add_Claimed x p)" using p num same by (simp add: nth_append)
    then show "\<forall>t. local_ok (claims ?evs) ?q (q_threads ?q t)"
      using loc ok by (simp add: ring_ok_def)
    show "\<forall>t u r. add_position (q_threads ?q t) = Some r \<longrightarrow> add_position (q_threads ?q u) = Some r \<longrightarrow> t = u"
      using ok fresh by (auto simp: ring_ok_def)
    show "\<forall>t u r. rem_position (q_threads ?q t) = Some r \<longrightarrow> rem_position (q_threads ?q u) = Some r \<longrightarrow> t = u"
      using ok by (auto simp: ring_ok_def)
    show "\<forall>(r, y)\<in>set (removals ?evs). unat r < unat (q_head ?q) \<and> y = claims ?evs ! unat r \<and>
        (\<forall>t. rem_position (q_threads ?q t) \<noteq> Some r)"
    proof (intro ballI, clarify)
      fix r y
      assume "(r, y) \<in> set (removals ?evs)"
      then have "(r, y) \<in> set (removals evs)" by simp
      note removalsD [OF ok this]
      then show "unat r < unat (q_head ?q) \<and> y = claims ?evs ! unat r \<and> (\<forall>t. rem_position (q_threads ?q t) \<noteq> Some r)"
        by (simp add: nth_append)
    qed
  qed (use ok p1 in \<open>simp_all add: ring_ok_def\<close>)
qed

text \<open>A thread takes the next position of the head.\<close>

lemma take_head_ok:
  assumes ok: "ring_ok n evs q" and bound: "length (claims evs) + n + 1 < 2 ^ 64"
    and l: "q_threads q i = Rem_Seq p (p + 1)" and head: "q_head q = p"
  shows "ring_ok n evs (set_thread i (Rem_Claimed p) (q\<lparr>q_head := p + 1\<rparr>))" (is "ring_ok n evs ?q")
proof -
  let ?cl = "claims evs"
  have "local_ok ?cl q (Rem_Seq p (p + 1))" using ok l by (metis ring_ok_def)
  then have num: "num_at q p = unat p + 1" using head by simp
  have p: "unat p < length ?cl" by (rule filled_slot [OF ok num])
  have p1: "unat (p + 1) = unat p + 1" using p bound by (simp add: unat_word_ariths)
  have same: "num_at ?q r = num_at q r" "item_at ?q r = item_at q r" for r by (simp_all add: num_at_def item_at_def)
  have loc: "local_ok ?cl ?q l'" if "local_ok ?cl q l'" for l'
    using that head p1 same by (cases l') auto
  have fresh: "rem_position (q_threads q t) \<noteq> Some p" for t
  proof
    assume "rem_position (q_threads q t) = Some p"
    moreover have "local_ok ?cl q (q_threads q t)" using ok by (simp add: ring_ok_def)
    ultimately show False using head by (cases "q_threads q t") auto
  qed
  show ?thesis
    unfolding ring_ok_def
  proof (intro conjI)
    have "local_ok ?cl ?q (Rem_Claimed p)" using p1 num same by simp
    then show "\<forall>t. local_ok ?cl ?q (q_threads ?q t)" using loc ok by (simp add: ring_ok_def)
    show "\<forall>t u r. add_position (q_threads ?q t) = Some r \<longrightarrow> add_position (q_threads ?q u) = Some r \<longrightarrow> t = u"
      using ok by (auto simp: ring_ok_def)
    show "\<forall>t u r. rem_position (q_threads ?q t) = Some r \<longrightarrow> rem_position (q_threads ?q u) = Some r \<longrightarrow> t = u"
      using ok fresh by (auto simp: ring_ok_def)
    show "\<forall>(r, y)\<in>set (removals evs). unat r < unat (q_head ?q) \<and> y = ?cl ! unat r \<and>
        (\<forall>t. rem_position (q_threads ?q t) \<noteq> Some r)"
    proof (intro ballI, clarify)
      fix r y
      assume "(r, y) \<in> set (removals evs)"
      note r = removalsD [OF ok this]
      then have "r \<noteq> p" using head by auto
      with r head p1 show "unat r < unat (q_head ?q) \<and> y = ?cl ! unat r \<and> (\<forall>t. rem_position (q_threads ?q t) \<noteq> Some r)"
        by simp
    qed
  qed (use ok p p1 in \<open>simp_all add: ring_ok_def\<close>)
qed

text \<open>The item is written into the slot of a taken position.\<close>

lemma write_item_ok:
  assumes ok: "ring_ok n evs q" and l: "q_threads q i = Add_Claimed x p"
  shows "ring_ok n evs (set_thread i (Add_Written x p) (q\<lparr>q_data := (q_data q)[unat p mod n := x]\<rparr>))"
    (is "ring_ok n evs ?q")
proof -
  let ?cl = "claims evs"
  have n: "2 \<le> n" "length (q_seq q) = n" "length (q_data q) = n" "unat (q_capacity q) = n"
    using ok by (auto simp: ring_ok_def)
  then have slot: "unat p mod n < n" by simp
  have "local_ok ?cl q (Add_Claimed x p)" using ok l by (metis ring_ok_def)
  then have own: "unat p < length ?cl" "?cl ! unat p = x" "num_at q p = unat p" by simp_all
  have nums: "num_at ?q r = num_at q r" for r by (simp add: num_at_def)
  have items: "item_at ?q r = (if unat r mod n = unat p mod n then x else item_at q r)" for r
    using n slot by (simp add: item_at_def)
  have pos: "add_position (if t = i then Add_Written x p else q_threads q t) = add_position (q_threads q t)"
    "rem_position (if t = i then Add_Written x p else q_threads q t) = rem_position (q_threads q t)" for t
    using l by auto
  have loc: "local_ok ?cl ?q (q_threads q t)" if t: "t \<noteq> i" for t
  proof -
    have old: "local_ok ?cl q (q_threads q t)" using ok by (simp add: ring_ok_def)
    show ?thesis
    proof (cases "q_threads q t")
      case (Add_Written y r)
      have "unat r mod n \<noteq> unat p mod n"
      proof
        assume "unat r mod n = unat p mod n"
        then have "num_at q r = num_at q p" by (rule same_slot(1) [OF ok])
        then have "r = p" using own(3) old Add_Written by (simp add: word_unat_eq_iff)
        then show False using ok t l Add_Written by (auto simp: ring_ok_def)
      qed
      with old Add_Written nums items show ?thesis by simp
    qed (use old nums in simp_all)
  qed
  show ?thesis
    unfolding ring_ok_def
  proof (intro conjI)
    show "\<forall>j<n. slot_ok n ?cl j (unat (q_seq ?q ! j)) (q_data ?q ! j)"
    proof (intro allI impI)
      fix j
      assume j: "j < n"
      have "slot_ok n ?cl j (unat (q_seq q ! j)) (q_data q ! j)" using ok j by (simp add: ring_ok_def)
      moreover have "slot_ok n ?cl j (unat (q_seq q ! j)) x" if "j = unat p mod n"
        using free_slot [OF ok own(3)] own(3) num_at_eq [OF ok, of p] that by (auto simp: slot_ok_def)
      ultimately show "slot_ok n ?cl j (unat (q_seq ?q ! j)) (q_data ?q ! j)"
        using j n(3) by (auto simp: nth_list_update)
    qed
    have "local_ok ?cl ?q (Add_Written x p)" using own nums items by simp
    with loc show "\<forall>t. local_ok ?cl ?q (q_threads ?q t)" by simp
  qed (use ok n in \<open>simp_all add: ring_ok_def pos\<close>)
qed

text \<open>A slot gets a new number; only its owner depended on the old one.\<close>

lemma set_number_ok:
  assumes ok: "ring_ok n evs q" and num: "unat s = m" "unat p mod n = j"
    and add_old: "\<And>r. unat r mod n = j \<Longrightarrow> num_at q r = unat r \<Longrightarrow> unat r < length (claims evs) \<and> add_position (q_threads q i) = Some r"
    and rem_old: "\<And>r. unat r mod n = j \<Longrightarrow> num_at q r = unat r + 1 \<Longrightarrow> unat r < unat (q_head q) \<and> rem_position (q_threads q i) = Some r"
    and slot: "slot_ok n (claims evs) j m (q_data q ! j)"
    and rest: "rest = [] \<or> (\<exists>r x. rest = [Removed r x] \<and> q_threads q i = Rem_Read r x)"
  shows "ring_ok n (evs @ rest) (set_thread i Idle (q\<lparr>q_seq := (q_seq q)[j := s]\<rparr>))" (is "ring_ok n ?evs ?q")
proof -
  let ?cl = "claims evs"
  have n: "2 \<le> n" "length (q_seq q) = n" "length (q_data q) = n" "unat (q_capacity q) = n"
    using ok by (auto simp: ring_ok_def)
  then have "0 < n" by simp
  then have j: "j < n" unfolding num(2) [symmetric] by (rule mod_less_divisor)
  have cl: "claims ?evs = ?cl" using rest by auto
  have nums: "num_at ?q r = (if unat r mod n = j then m else num_at q r)" for r
    using n j num(1) by (simp add: num_at_def nth_list_update)
  have items: "item_at ?q r = item_at q r" for r by (simp add: item_at_def)
  have adds: "add_position (if t = i then Idle else q_threads q t) = Some r \<Longrightarrow> add_position (q_threads q t) = Some r \<and> t \<noteq> i" for t r
    by (auto split: if_splits)
  have rems: "rem_position (if t = i then Idle else q_threads q t) = Some r \<Longrightarrow> rem_position (q_threads q t) = Some r \<and> t \<noteq> i" for t r
    by (auto split: if_splits)
  have add_own: "unat r mod n \<noteq> j" if "t \<noteq> i" "add_position (q_threads q t) = Some r" "num_at q r = unat r" for t r
    using add_old [of r] that ok by (auto simp: ring_ok_def)
  have rem_own: "unat r mod n \<noteq> j" if "t \<noteq> i" "rem_position (q_threads q t) = Some r" "num_at q r = unat r + 1" for t r
    using rem_old [of r] that ok by (auto simp: ring_ok_def)
  have loc: "local_ok ?cl ?q (q_threads q t)" if t: "t \<noteq> i" for t
  proof -
    have old: "local_ok ?cl q (q_threads q t)" using ok by (simp add: ring_ok_def)
    show ?thesis
      using old add_own [OF t] rem_own [OF t] nums items add_old rem_old
      by (cases "q_threads q t") auto
  qed
  show ?thesis
    unfolding ring_ok_def cl
  proof (intro conjI)
    show "\<forall>k<n. slot_ok n ?cl k (unat (q_seq ?q ! k)) (q_data ?q ! k)"
      using ok slot n num(1) j by (auto simp: ring_ok_def nth_list_update)
    show "\<forall>t. local_ok ?cl ?q (q_threads ?q t)" using loc by simp
    show "\<forall>t u r. add_position (q_threads ?q t) = Some r \<longrightarrow> add_position (q_threads ?q u) = Some r \<longrightarrow> t = u"
    proof (intro allI impI)
      fix t u r
      assume "add_position (q_threads ?q t) = Some r" "add_position (q_threads ?q u) = Some r"
      then have "add_position (q_threads q t) = Some r" "add_position (q_threads q u) = Some r"
        using adds [of t r] adds [of u r] by simp_all
      with ok show "t = u" unfolding ring_ok_def by blast
    qed
    show "\<forall>t u r. rem_position (q_threads ?q t) = Some r \<longrightarrow> rem_position (q_threads ?q u) = Some r \<longrightarrow> t = u"
    proof (intro allI impI)
      fix t u r
      assume "rem_position (q_threads ?q t) = Some r" "rem_position (q_threads ?q u) = Some r"
      then have "rem_position (q_threads q t) = Some r" "rem_position (q_threads q u) = Some r"
        using rems [of t r] rems [of u r] by simp_all
      with ok show "t = u" unfolding ring_ok_def by blast
    qed
    show "\<forall>(r, y)\<in>set (removals ?evs). unat r < unat (q_head ?q) \<and> y = ?cl ! unat r \<and>
        (\<forall>t. rem_position (q_threads ?q t) \<noteq> Some r)"
    proof (intro ballI, clarify)
      fix r y
      assume "(r, y) \<in> set (removals ?evs)"
      then consider "(r, y) \<in> set (removals evs)" | "q_threads q i = Rem_Read r y" using rest by auto
      then show "unat r < unat (q_head ?q) \<and> y = ?cl ! unat r \<and> (\<forall>t. rem_position (q_threads ?q t) \<noteq> Some r)"
      proof cases
        case 1
        with removalsD [OF ok 1] show ?thesis by simp
      next
        case 2
        have "local_ok ?cl q (q_threads q i)" using ok by (simp add: ring_ok_def)
        moreover have "rem_position (q_threads q t) \<noteq> Some r" if "t \<noteq> i" for t
          using ok that 2 by (auto simp: ring_ok_def)
        ultimately show ?thesis using 2 by simp
      qed
    qed
    show "distinct (map fst (removals ?evs))"
      using rest
    proof
      assume "\<exists>r x. rest = [Removed r x] \<and> q_threads q i = Rem_Read r x"
      then obtain r x where r: "rest = [Removed r x]" "q_threads q i = Rem_Read r x" by blast
      have "r \<notin> fst ` set (removals evs)" using removalsD(4) [OF ok, of r _ i] r(2) by auto
      with r ok show ?thesis by (simp add: ring_ok_def)
    qed (use ok in \<open>simp add: ring_ok_def\<close>)
  qed (use ok n in \<open>simp_all add: ring_ok_def\<close>)
qed

lemma publish_ok:
  assumes ok: "ring_ok n evs q" and bound: "length (claims evs) + n + 1 < 2 ^ 64"
    and l: "q_threads q i = Add_Written x p"
  shows "ring_ok n evs (set_thread i Idle (q\<lparr>q_seq := (q_seq q)[unat p mod n := p + 1]\<rparr>))"
proof -
  let ?cl = "claims evs"
  have "local_ok ?cl q (Add_Written x p)" using ok l by (metis ring_ok_def)
  then have own: "unat p < length ?cl" "?cl ! unat p = x" "num_at q p = unat p" "item_at q p = x" by simp_all
  have p1: "unat (p + 1) = unat p + 1" using own(1) bound by (simp add: unat_word_ariths)
  have "ring_ok n (evs @ []) (set_thread i Idle (q\<lparr>q_seq := (q_seq q)[unat p mod n := p + 1]\<rparr>))"
  proof (rule set_number_ok [OF ok p1 refl])
    show "slot_ok n ?cl (unat p mod n) (unat p + 1) (q_data q ! (unat p mod n))"
      using own free_slot [OF ok own(3)] item_at_eq [OF ok, of p] by (auto simp: slot_ok_def)
  next
    fix r
    assume r: "unat r mod n = unat p mod n" "num_at q r = unat r"
    then have "r = p" using same_slot(1) [OF ok r(1)] own(3) by (simp add: word_unat_eq_iff)
    with own(1) l show "unat r < length ?cl \<and> add_position (q_threads q i) = Some r" by simp
  next
    fix r
    assume r: "unat r mod n = unat p mod n" "num_at q r = unat r + 1"
    with same_slot(2) [OF ok r(1) [symmetric] own(3)] show "unat r < unat (q_head q) \<and> rem_position (q_threads q i) = Some r" by simp
  qed simp
  then show ?thesis by simp
qed

lemma release_ok:
  assumes ok: "ring_ok n evs q" and bound: "length (claims evs) + n + 1 < 2 ^ 64"
    and l: "q_threads q i = Rem_Read p x"
  shows "ring_ok n (evs @ [Removed p x]) (set_thread i Idle (q\<lparr>q_seq := (q_seq q)[unat p mod n := p + q_capacity q]\<rparr>))"
proof (rule set_number_ok [OF ok, of _ "unat p + n" p])
  let ?cl = "claims evs"
  have "local_ok ?cl q (Rem_Read p x)" using ok l by (metis ring_ok_def)
  then have own: "unat p < unat (q_head q)" "num_at q p = unat p + 1" "unat p < length ?cl" by simp_all
  have cap: "unat (q_capacity q) = n" using ok by (simp add: ring_ok_def)
  show "unat (p + q_capacity q) = unat p + n" using own(3) bound cap by (simp add: unat_word_ariths)
  have le: "length ?cl \<le> unat p + 2 * n"
  proof -
    from slot_at [OF ok, of p] obtain r where "r mod n = unat p mod n" "length ?cl \<le> r + n"
      "num_at q p = r \<or> num_at q p = r + 1" by metis
    moreover have "2 \<le> n" using ok by (simp add: ring_ok_def)
    ultimately show ?thesis using own(2) by auto
  qed
  then show "slot_ok n ?cl (unat p mod n) (unat p + n) (q_data q ! (unat p mod n))"
    using own(3) unfolding slot_ok_def by (intro exI [of _ "unat p + n"]) auto
  show "unat r < length ?cl \<and> add_position (q_threads q i) = Some r"
    if "unat r mod n = unat p mod n" "num_at q r = unat r" for r
    using same_slot(2) [OF ok that(1)] that(2) own(2) by simp
  show "unat r < unat (q_head q) \<and> rem_position (q_threads q i) = Some r"
    if "unat r mod n = unat p mod n" "num_at q r = unat r + 1" for r
  proof -
    have "r = p" using same_slot(1) [OF ok that(1)] that(2) own(2) by (simp add: word_unat_eq_iff)
    with own(1) l show ?thesis by simp
  qed
qed (use l in simp_all)

lemma sint_eq: "sint (a :: size_t) = sint b \<longleftrightarrow> a = b"
  by (rule iffI, erule signed_word_eqI) simp

lemma q_step_ok:
  assumes ok: "ring_ok n evs q" and bound: "length (claims evs) + n + 1 < 2 ^ 64"
    and step: "q_step a q = Some (e, q')"
  shows "ring_ok n (evs @ e) q' \<and> length (claims e) \<le> 1"
proof -
  have tail: "unat (q_tail q) = length (claims evs)" using ok by (simp add: ring_ok_def)
  have old: "local_ok (claims evs) q (q_threads q i)" for i using ok by (simp add: ring_ok_def)
  have slot: "slot_of q p = Some (unat p mod n)" for p by (rule slot_of_eq [OF ok])
  note num = num_at_eq [OF ok] and item = item_at_eq [OF ok]
  have thread: "ring_ok n (evs @ e) q' \<and> length (claims e) \<le> 1" if t: "thread_step fail i q = Some (e, q')" for fail i
  proof (cases "q_threads q i")
    case (Add_Start x)
    with t show ?thesis using tail by (auto simp: thread_step_def intro!: set_thread_ok [OF ok])
  next
    case (Add_Loaded x p)
    with t old [of i] slot num [of p] show ?thesis
      by (auto simp: thread_step_def word_unat_eq_iff intro!: set_thread_ok [OF ok])
  next
    case (Add_Seq x p s)
    show ?thesis
    proof (cases "s = p \<and> q_tail q = p \<and> \<not> fail")
      case True
      with t Add_Seq claim_ok [OF ok bound, of i x p] show ?thesis by (auto simp: thread_step_def)
    next
      case False
      with t Add_Seq show ?thesis
        by (auto simp: thread_step_def Let_def sint_eq split: if_splits intro!: set_thread_ok [OF ok])
    qed
  next
    case (Add_Claimed x p)
    with t slot write_item_ok [OF ok Add_Claimed] show ?thesis by (auto simp: thread_step_def)
  next
    case (Add_Written x p)
    with t slot publish_ok [OF ok bound Add_Written] show ?thesis by (auto simp: thread_step_def)
  next
    case Rem_Start
    with t show ?thesis by (auto simp: thread_step_def intro!: set_thread_ok [OF ok])
  next
    case (Rem_Loaded p)
    have p1: "unat (p + 1) = unat p + 1"
    proof -
      have "unat p \<le> length (claims evs)" using old [of i] Rem_Loaded ok by (auto simp: ring_ok_def)
      then show ?thesis using bound by (simp add: unat_word_ariths)
    qed
    with t old [of i] slot num [of p] Rem_Loaded show ?thesis
      by (auto simp: thread_step_def intro!: set_thread_ok [OF ok])
  next
    case (Rem_Seq p s)
    show ?thesis
    proof (cases "s = p + 1 \<and> q_head q = p \<and> \<not> fail")
      case True
      with t Rem_Seq take_head_ok [OF ok bound, of i p] show ?thesis by (auto simp: thread_step_def)
    next
      case False
      with t Rem_Seq show ?thesis
        by (auto simp: thread_step_def Let_def sint_eq split: if_splits intro!: set_thread_ok [OF ok])
    qed
  next
    case (Rem_Claimed p)
    with old [of i] have "num_at q p = unat p + 1" by simp
    with t old [of i] slot Rem_Claimed filled_slot [OF ok this] item [of p] show ?thesis
      by (auto simp: thread_step_def intro!: set_thread_ok [OF ok])
  next
    case (Rem_Read p x)
    with t slot release_ok [OF ok bound Rem_Read] show ?thesis by (auto simp: thread_step_def)
  qed (use t in \<open>simp add: thread_step_def\<close>)
  from step thread show ?thesis
    by (cases a) (auto split: q_local.splits intro!: set_thread_ok [OF ok])
qed


subsection \<open>Runs\<close>

lemma new_nbqueue_ok:
  assumes "2 \<le> unat cap"
  shows "ring_ok (unat cap) [] (new_nbqueue cap d)"
proof -
  have "unat (of_nat i :: size_t) = i" if "i < unat cap" for i
  proof -
    have "unat cap < 2 ^ LENGTH(64)" by (rule unsigned_less)
    with that show ?thesis by (simp add: unat_of_nat take_bit_nat_eq_self)
  qed
  then have "slot_ok (unat cap) [] i (unat (map of_nat [0..<unat cap] ! i :: size_t)) (replicate (unat cap) d ! i)"
    if "i < unat cap" for i using that by (auto simp: slot_ok_def)
  with assms show ?thesis by (simp add: ring_ok_def new_nbqueue_def)
qed

lemma q_run_ok:
  assumes "q_run acts q = Some (evs, q')" "ring_ok n [] q" "length acts + n + 1 < 2 ^ 64"
  shows "ring_ok n evs q'"
proof -
  have "ring_ok n evs' q' \<and> length (claims evs') \<le> length acts + length (claims evs)"
    if "for_each (\<lambda>a (evs, q). map_option (\<lambda>(e, q). (evs @ e, q)) (q_step a q)) acts (evs, q) = Some (evs', q')"
      "ring_ok n evs q" "length (claims evs) + length acts + n + 1 < 2 ^ 64" for acts evs q evs' q'
    using that
  proof (induction acts arbitrary: evs q)
    case Nil
    then show ?case by simp
  next
    case (Cons a acts)
    from Cons.prems(1) obtain e q1 where s: "q_step a q = Some (e, q1)" and
      r: "for_each (\<lambda>a (evs, q). map_option (\<lambda>(e, q). (evs @ e, q)) (q_step a q)) acts (evs @ e, q1) = Some (evs', q')"
      by (auto simp: bind_eq_Some_conv)
    have "ring_ok n (evs @ e) q1 \<and> length (claims e) \<le> 1"
      by (rule q_step_ok [OF Cons.prems(2) _ s]) (use Cons.prems(3) in simp)
    with Cons.IH [OF r] Cons.prems(3) show ?case by simp
  qed
  from this [of acts "[]" q evs q'] assms show ?thesis by (simp add: q_run_def)
qed

subsection \<open>Properties\<close>

text \<open>
  C20: In a ring with at least two slots the queue is first-in first-out, whatever the threads and the
  interleaving of their steps: a \<open>remove\<close> that took position \<open>p\<close> returns the item of the \<open>add\<close> that
  took position \<open>p\<close>, which has taken it before, and no position is returned twice. The bound on the
  length of the run keeps the counters from wrapping.
\<close>

theorem nonblocking_queue_fifo:
  assumes "q_run acts (new_nbqueue cap d) = Some (evs, q)"
    and "2 \<le> unat cap" "length acts + unat cap + 1 < 2 ^ 64"
  shows "list_all (\<lambda>(p, x). unat p < length (claims evs) \<and> x = claims evs ! unat p) (removals evs) \<and>
    distinct (map fst (removals evs))"
proof -
  have ok: "ring_ok (unat cap) evs q"
    by (rule q_run_ok [OF assms(1) new_nbqueue_ok [OF assms(2)] assms(3)])
  have "distinct (map fst (removals evs))" using ok by (simp add: ring_ok_def)
  moreover have "unat p < length (claims evs) \<and> x = claims evs ! unat p" if "(p, x) \<in> set (removals evs)" for p x
    using removalsD [OF ok that] by simp
  ultimately show ?thesis by (auto simp: list_all_iff)
qed

text \<open>Two threads add and a third removes, in an interleaving.\<close>

definition two_adds :: "nat q_action list" where
  "two_adds = [Call_Add 0 5, Call_Add 1 6, Go 0, Go 1, Go 0, Go 1, Go 1, Go 0, Go 1, Go 1, Call_Remove 2,
     Go 0, Go 0, Go 0, Go 0, Go 0, Go 2, Go 2, Go 2, Go 2, Go 2]"

theorem nonblocking_queue_fifo_witness:
  "\<exists>evs q. q_run two_adds (new_nbqueue 2 0) = Some (evs, q) \<and> claims evs = [6, 5] \<and> removals evs = [(0, 6)] \<and>
     list_all (\<lambda>(p, x). unat p < length (claims evs) \<and> x = claims evs ! unat p) (removals evs)"
proof -
  have "map_option fst (q_run two_adds (new_nbqueue 2 0)) = Some [Claimed 6, Claimed 5, Removed 0 6]" by code_simp
  then obtain q where q: "q_run two_adds (new_nbqueue 2 0) = Some ([Claimed 6, Claimed 5, Removed 0 6], q)" by auto
  have "length two_adds + unat (2 :: size_t) + 1 < 2 ^ 64" by (simp add: two_adds_def)
  from nonblocking_queue_fifo [OF q _ this] q show ?thesis by (auto simp: claims_def removals_def)
qed

text \<open>
  With one slot the number of a filled slot is the number of the next free one: a second \<open>add\<close>
  overwrites the first item, and then \<open>remove\<close> finds a number that is too large and goes round for
  ever, although two items were added and none was removed.
\<close>

theorem one_slot_loses_items:
  "map_option fst (q_run (Call_Add 0 (5 :: nat) # replicate 5 (Go 0) @ Call_Add 0 6 # replicate 5 (Go 0)) (new_nbqueue 1 0)) =
     Some [Claimed 5, Claimed 6] \<and>
   (case q_run (Call_Add 0 5 # replicate 5 (Go 0) @ Call_Add 0 6 # replicate 5 (Go 0) @ [Call_Remove 1]) (new_nbqueue 1 (0 :: nat)) of
      None \<Rightarrow> False
    | Some (evs, q) \<Rightarrow> q_data q = [6] \<and>
         (case q_run [Go 1, Go 1, Go 1] q of
            None \<Rightarrow> False
          | Some (evs', q') \<Rightarrow> evs' = [] \<and> q_data q' = q_data q \<and> q_seq q' = q_seq q \<and> q_head q' = q_head q \<and>
              q_tail q' = q_tail q \<and> q_threads q' 1 = q_threads q 1))"
  by (rule conjI; code_simp)

end
