(* ===== verification/Blocking_Queue.thy ===== *)
theory Blocking_Queue
  imports CDS_Prelude "HOL-Library.Sublist"
begin

text \<open>
  The bounded queue of \<open>assignment2/blocking_queue.hpp\<close>: a ring with a mutex and a condition variable
  at each end and an atomic counter of the items between them. The steps are the lock operations, the
  evaluations of the two predicates, the accesses to the ring and the notifications; the steps of the
  threads interleave in any order, a blocked thread may wake up without a notification, and
  \<open>notify_one\<close> may choose any waiting thread.
\<close>

type_synonym size_t = "64 word"
type_synonym tid = nat

subsection \<open>State\<close>

text \<open>
  Where a thread is in \<open>add\<close> (\<open>Put\<close>) or \<open>remove\<close> (\<open>Get\<close>). A thread at \<open>Put_Wait\<close> has found the predicate
  false and is about to release the lock; at \<open>Put_Blocked\<close> it has released it and waits; at \<open>Put_Woken\<close>
  it waits for the lock again.
\<close>

datatype 'a b_local =
    Outside
  | Put_Lock 'a
  | Put_Check 'a
  | Put_Wait 'a
  | Put_Blocked 'a
  | Put_Woken 'a
  | Put_Write 'a
  | Put_Advance
  | Put_Count
  | Put_Notify
  | Put_Unlock
  | Get_Lock
  | Get_Check
  | Get_Wait
  | Get_Blocked
  | Get_Woken
  | Get_Read
  | Get_Advance 'a
  | Get_Count 'a
  | Get_Notify 'a
  | Get_Unlock 'a

record 'a bqueue =
  b_capacity :: size_t
  b_buffer :: "'a list"
  b_head :: size_t
  b_tail :: size_t
  b_size :: size_t
  b_head_mutex :: "tid option"
  b_tail_mutex :: "tid option"
  b_not_empty :: "tid list"
  b_not_full :: "tid list"
  b_threads :: "tid \<Rightarrow> 'a b_local"

definition new_bqueue :: "size_t \<Rightarrow> 'a \<Rightarrow> 'a bqueue" where
  "new_bqueue cap d = \<lparr>b_capacity = cap, b_buffer = replicate (unat cap) d, b_head = 0, b_tail = 0, b_size = 0,
     b_head_mutex = None, b_tail_mutex = None, b_not_empty = [], b_not_full = [], b_threads = (\<lambda>_. Outside)\<rparr>"

definition set_local :: "tid \<Rightarrow> 'a b_local \<Rightarrow> 'a bqueue \<Rightarrow> 'a bqueue" where
  "set_local i l q = q\<lparr>b_threads := (b_threads q)(i := l)\<rparr>"

subsection \<open>Steps\<close>

text \<open>The events of a step: an item has been stored in the ring, or read from it, or returned.\<close>

datatype 'a b_event = Stored 'a | Taken 'a | Returned tid 'a

type_synonym 'a b_result = "('a b_event list \<times> 'a bqueue) option"

fun woken :: "'a b_local \<Rightarrow> 'a b_local" where
  "woken (Put_Blocked x) = Put_Woken x"
| "woken Get_Blocked = Get_Woken"
| "woken l = l"

definition wake :: "tid \<Rightarrow> 'a bqueue \<Rightarrow> 'a bqueue" where
  "wake j q = set_local j (woken (b_threads q j))
     (q\<lparr>b_not_empty := remove1 j (b_not_empty q), b_not_full := remove1 j (b_not_full q)\<rparr>)"

text \<open>\<open>notify_one\<close>: nothing happens without a waiter, and otherwise the waiter \<open>j\<close> wakes up.\<close>

definition notify_one :: "tid list \<Rightarrow> tid \<Rightarrow> 'a bqueue \<Rightarrow> 'a bqueue option" where
  "notify_one waiters j q =
     (if waiters = [] then Some q else if List.member waiters j then Some (wake j q) else None)"

fun put_step :: "tid \<Rightarrow> tid \<Rightarrow> 'a b_local \<Rightarrow> 'a bqueue \<Rightarrow> 'a b_result" where
  "put_step i j (Put_Lock item) q =
     (if b_tail_mutex q = None then Some ([], set_local i (Put_Check item) (q\<lparr>b_tail_mutex := Some i\<rparr>)) else None)"
| "put_step i j (Put_Check item) q =
     Some ([], set_local i (if b_size q < b_capacity q then Put_Write item else Put_Wait item) q)"
| "put_step i j (Put_Wait item) q =
     Some ([], set_local i (Put_Blocked item) (q\<lparr>b_tail_mutex := None, b_not_full := b_not_full q @ [i]\<rparr>))"
| "put_step i j (Put_Woken item) q =
     (if b_tail_mutex q = None then Some ([], set_local i (Put_Check item) (q\<lparr>b_tail_mutex := Some i\<rparr>)) else None)"
| "put_step i j (Put_Write item) q = do {
     ASSERT (unat (b_tail q) < length (b_buffer q));
     Some ([Stored item], set_local i Put_Advance (q\<lparr>b_buffer := (b_buffer q)[unat (b_tail q) := item]\<rparr>))
   }"
| "put_step i j Put_Advance q = do {
     ASSERT (b_capacity q \<noteq> 0);
     Some ([], set_local i Put_Count (q\<lparr>b_tail := (b_tail q + 1) mod b_capacity q\<rparr>))
   }"
| "put_step i j Put_Count q = Some ([], set_local i Put_Notify (q\<lparr>b_size := b_size q + 1\<rparr>))"
| "put_step i j Put_Notify q = do {
     q \<leftarrow> notify_one (b_not_empty q) j q;
     Some ([], set_local i Put_Unlock q)
   }"
| "put_step i j Put_Unlock q = Some ([], set_local i Outside (q\<lparr>b_tail_mutex := None\<rparr>))"
| "put_step i j _ q = None"

fun get_step :: "tid \<Rightarrow> tid \<Rightarrow> 'a b_local \<Rightarrow> 'a bqueue \<Rightarrow> 'a b_result" where
  "get_step i j Get_Lock q =
     (if b_head_mutex q = None then Some ([], set_local i Get_Check (q\<lparr>b_head_mutex := Some i\<rparr>)) else None)"
| "get_step i j Get_Check q = Some ([], set_local i (if b_size q > 0 then Get_Read else Get_Wait) q)"
| "get_step i j Get_Wait q =
     Some ([], set_local i Get_Blocked (q\<lparr>b_head_mutex := None, b_not_empty := b_not_empty q @ [i]\<rparr>))"
| "get_step i j Get_Woken q =
     (if b_head_mutex q = None then Some ([], set_local i Get_Check (q\<lparr>b_head_mutex := Some i\<rparr>)) else None)"
| "get_step i j Get_Read q = do {
     ASSERT (unat (b_head q) < length (b_buffer q));
     Some ([Taken (b_buffer q ! unat (b_head q))], set_local i (Get_Advance (b_buffer q ! unat (b_head q))) q)
   }"
| "get_step i j (Get_Advance out) q = do {
     ASSERT (b_capacity q \<noteq> 0);
     Some ([], set_local i (Get_Count out) (q\<lparr>b_head := (b_head q + 1) mod b_capacity q\<rparr>))
   }"
| "get_step i j (Get_Count out) q = Some ([], set_local i (Get_Notify out) (q\<lparr>b_size := b_size q - 1\<rparr>))"
| "get_step i j (Get_Notify out) q = do {
     q \<leftarrow> notify_one (b_not_full q) j q;
     Some ([], set_local i (Get_Unlock out) q)
   }"
| "get_step i j (Get_Unlock out) q = Some ([Returned i out], set_local i Outside (q\<lparr>b_head_mutex := None\<rparr>))"
| "get_step i j _ q = None"

fun is_put :: "'a b_local \<Rightarrow> bool" where
  "is_put (Put_Lock _) = True"
| "is_put (Put_Check _) = True"
| "is_put (Put_Wait _) = True"
| "is_put (Put_Blocked _) = True"
| "is_put (Put_Woken _) = True"
| "is_put (Put_Write _) = True"
| "is_put Put_Advance = True"
| "is_put Put_Count = True"
| "is_put Put_Notify = True"
| "is_put Put_Unlock = True"
| "is_put _ = False"

text \<open>
  The actions: a thread outside the queue calls an operation, a thread does the next step of its
  operation (with \<open>j\<close> the thread to wake where that is a notification), a blocked thread wakes up by itself.
\<close>

datatype 'a b_action = Call_Put tid 'a | Call_Get tid | Step tid tid | Spurious tid

fun is_blocked :: "'a b_local \<Rightarrow> bool" where
  "is_blocked (Put_Blocked _) = True"
| "is_blocked Get_Blocked = True"
| "is_blocked _ = False"

fun b_step :: "'a b_action \<Rightarrow> 'a bqueue \<Rightarrow> 'a b_result" where
  "b_step (Call_Put i item) q = (case b_threads q i of Outside \<Rightarrow> Some ([], set_local i (Put_Lock item) q) | _ \<Rightarrow> None)"
| "b_step (Call_Get i) q = (case b_threads q i of Outside \<Rightarrow> Some ([], set_local i Get_Lock q) | _ \<Rightarrow> None)"
| "b_step (Step i j) q =
     (if is_put (b_threads q i) then put_step i j (b_threads q i) q else get_step i j (b_threads q i) q)"
| "b_step (Spurious j) q = (if is_blocked (b_threads q j) then Some ([], wake j q) else None)"

fun b_run :: "'a b_action list \<Rightarrow> 'a bqueue \<Rightarrow> 'a b_result" where
  "b_run [] q = Some ([], q)"
| "b_run (a # acts) q = do {
     (e, q) \<leftarrow> b_step a q;
     (es, q) \<leftarrow> b_run acts q;
     Some (e @ es, q)
   }"

definition stored :: "'a b_event list \<Rightarrow> 'a list" where
  "stored evs = concat (map (\<lambda>e. case e of Stored x \<Rightarrow> [x] | _ \<Rightarrow> []) evs)"

definition taken :: "'a b_event list \<Rightarrow> 'a list" where
  "taken evs = concat (map (\<lambda>e. case e of Taken x \<Rightarrow> [x] | _ \<Rightarrow> []) evs)"

lemma stored_simps [simp]:
  "stored [] = []" "stored (a @ b) = stored a @ stored b" "stored (Stored x # evs) = x # stored evs"
  "stored (Taken x # evs) = stored evs" "stored (Returned i x # evs) = stored evs"
  by (simp_all add: stored_def)

lemma taken_simps [simp]:
  "taken [] = []" "taken (a @ b) = taken a @ taken b" "taken (Stored x # evs) = taken evs"
  "taken (Taken x # evs) = x # taken evs" "taken (Returned i x # evs) = taken evs"
  by (simp_all add: taken_def)

subsection \<open>The invariant\<close>

fun holds_tail :: "'a b_local \<Rightarrow> bool" where
  "holds_tail (Put_Check _) = True"
| "holds_tail (Put_Wait _) = True"
| "holds_tail (Put_Write _) = True"
| "holds_tail Put_Advance = True"
| "holds_tail Put_Count = True"
| "holds_tail Put_Notify = True"
| "holds_tail Put_Unlock = True"
| "holds_tail _ = False"

fun holds_head :: "'a b_local \<Rightarrow> bool" where
  "holds_head Get_Check = True"
| "holds_head Get_Wait = True"
| "holds_head Get_Read = True"
| "holds_head (Get_Advance _) = True"
| "holds_head (Get_Count _) = True"
| "holds_head (Get_Notify _) = True"
| "holds_head (Get_Unlock _) = True"
| "holds_head _ = False"

text \<open>What the holder of a lock has reserved, moved but not counted, and not yet advanced over.\<close>

fun reserved :: "'a b_local \<Rightarrow> nat" where
  "reserved (Put_Write _) = 1"
| "reserved Put_Advance = 1"
| "reserved Put_Count = 1"
| "reserved Get_Read = 1"
| "reserved (Get_Advance _) = 1"
| "reserved (Get_Count _) = 1"
| "reserved _ = 0"

fun uncounted :: "'a b_local \<Rightarrow> nat" where
  "uncounted Put_Advance = 1"
| "uncounted Put_Count = 1"
| "uncounted (Get_Advance _) = 1"
| "uncounted (Get_Count _) = 1"
| "uncounted _ = 0"

fun unmoved :: "'a b_local \<Rightarrow> nat" where
  "unmoved Put_Advance = 1"
| "unmoved (Get_Advance _) = 1"
| "unmoved _ = 0"

definition holder :: "tid option \<Rightarrow> 'a bqueue \<Rightarrow> 'a b_local" where
  "holder m q = (case m of None \<Rightarrow> Outside | Some i \<Rightarrow> b_threads q i)"

definition locks_ok :: "'a bqueue \<Rightarrow> bool" where
  "locks_ok q \<longleftrightarrow> (\<forall>i. (holds_tail (b_threads q i) \<longleftrightarrow> b_tail_mutex q = Some i) \<and>
     (holds_head (b_threads q i) \<longleftrightarrow> b_head_mutex q = Some i))"

definition items_ok :: "nat \<Rightarrow> 'a list \<Rightarrow> 'a list \<Rightarrow> 'a b_local \<Rightarrow> 'a b_local \<Rightarrow> 'a bqueue \<Rightarrow> bool" where
  "items_ok n ps ts p g q \<longleftrightarrow>
     unat (b_capacity q) = n \<and> length (b_buffer q) = n \<and>
     ts = take (length ts) ps \<and>
     unat (b_size q) + uncounted p + length ts = length ps + uncounted g \<and>
     unat (b_size q) + reserved p \<le> n \<and> reserved g \<le> unat (b_size q) \<and>
     unmoved p \<le> length ps \<and> unmoved g \<le> length ts \<and>
     unat (b_tail q) = (length ps - unmoved p) mod n \<and> unat (b_head q) = (length ts - unmoved g) mod n \<and>
     (\<forall>k. length ts \<le> k \<longrightarrow> k < length ps \<longrightarrow> b_buffer q ! (k mod n) = ps ! k)"

definition bqueue_ok :: "nat \<Rightarrow> 'a b_event list \<Rightarrow> 'a bqueue \<Rightarrow> bool" where
  "bqueue_ok n evs q \<longleftrightarrow> locks_ok q \<and>
     items_ok n (stored evs) (taken evs) (holder (b_tail_mutex q) q) (holder (b_head_mutex q) q) q"


subsection \<open>Steps keep the invariant\<close>

lemma holder_simps [simp]:
  "holder m (set_local i l q) = (if m = Some i then l else holder m q)"
  "holder m (q\<lparr>b_head_mutex := x\<rparr>) = holder m q" "holder m (q\<lparr>b_tail_mutex := x\<rparr>) = holder m q"
  "holder m (q\<lparr>b_buffer := bs\<rparr>) = holder m q" "holder m (q\<lparr>b_head := w\<rparr>) = holder m q"
  "holder m (q\<lparr>b_tail := w\<rparr>) = holder m q" "holder m (q\<lparr>b_size := w\<rparr>) = holder m q"
  "holder m (q\<lparr>b_not_empty := ws\<rparr>) = holder m q" "holder m (q\<lparr>b_not_full := ws\<rparr>) = holder m q"
  "holder None q = Outside" "holder (Some i) q = b_threads q i"
  by (auto simp: holder_def set_local_def split: option.splits)

lemma set_local_simps [simp]:
  "b_threads (set_local i l q) = (b_threads q)(i := l)" "b_head_mutex (set_local i l q) = b_head_mutex q"
  "b_tail_mutex (set_local i l q) = b_tail_mutex q" "b_capacity (set_local i l q) = b_capacity q"
  "b_buffer (set_local i l q) = b_buffer q" "b_head (set_local i l q) = b_head q"
  "b_tail (set_local i l q) = b_tail q" "b_size (set_local i l q) = b_size q"
  "b_not_empty (set_local i l q) = b_not_empty q" "b_not_full (set_local i l q) = b_not_full q"
  by (simp_all add: set_local_def)

lemma locks_okD:
  assumes "locks_ok q"
  shows "holds_tail (b_threads q i) \<Longrightarrow> b_tail_mutex q = Some i"
    "\<not> holds_tail (b_threads q i) \<Longrightarrow> b_tail_mutex q \<noteq> Some i"
    "holds_head (b_threads q i) \<Longrightarrow> b_head_mutex q = Some i"
    "\<not> holds_head (b_threads q i) \<Longrightarrow> b_head_mutex q \<noteq> Some i"
  using assms by (simp_all add: locks_ok_def)

lemma items_ok_set_local [simp]: "items_ok n ps ts p g (set_local i l q) = items_ok n ps ts p g q"
  by (simp add: items_ok_def)

text \<open>A thread that holds no lock before and after a step does not matter.\<close>

lemma locks_ok_set:
  assumes "locks_ok q" "b_threads q' = (b_threads q)(i := l)"
    and "b_tail_mutex q' = (if holds_tail l then Some i else if b_tail_mutex q = Some i then None else b_tail_mutex q)"
    and "b_head_mutex q' = (if holds_head l then Some i else if b_head_mutex q = Some i then None else b_head_mutex q)"
    and "holds_tail l \<Longrightarrow> b_tail_mutex q \<in> {None, Some i}" "holds_head l \<Longrightarrow> b_head_mutex q \<in> {None, Some i}"
  shows "locks_ok q'"
proof -
  have "(holds_tail (b_threads q' j) \<longleftrightarrow> b_tail_mutex q' = Some j) \<and>
      (holds_head (b_threads q' j) \<longleftrightarrow> b_head_mutex q' = Some j)" for j
  proof (cases "j = i")
    case True
    with assms(2-4) show ?thesis by simp
  next
    case False
    then have "b_threads q' j = b_threads q j" using assms(2) by simp
    moreover have "(b_tail_mutex q' = Some j) = (b_tail_mutex q = Some j)"
      using assms(3,5) False by (cases "holds_tail l") auto
    moreover have "(b_head_mutex q' = Some j) = (b_head_mutex q = Some j)"
      using assms(4,6) False by (cases "holds_head l") auto
    ultimately show ?thesis using assms(1) by (simp add: locks_ok_def)
  qed
  then show ?thesis by (simp add: locks_ok_def)
qed

lemma outside_ok:
  assumes ok: "bqueue_ok n evs q" and old: "\<not> holds_tail (b_threads q i)" "\<not> holds_head (b_threads q i)"
    and new: "\<not> holds_tail l" "\<not> holds_head l"
  shows "bqueue_ok n evs (set_local i l q)"
proof -
  have l: "locks_ok q" using ok by (simp add: bqueue_ok_def)
  have "locks_ok (set_local i l q)"
    by (rule locks_ok_set [OF l, of _ i l]) (use locks_okD [OF l, of i] old new in auto)
  with ok locks_okD [OF l, of i] old show ?thesis by (simp add: bqueue_ok_def items_ok_def)
qed

lemma waiters_ok:
  "bqueue_ok n evs (q\<lparr>b_not_empty := a, b_not_full := b\<rparr>) = bqueue_ok n evs q"
  by (simp add: bqueue_ok_def items_ok_def locks_ok_def)

lemma woken_holds [simp]:
  "holds_tail (woken l) = holds_tail l" "holds_head (woken l) = holds_head l"
  "holds_tail l \<Longrightarrow> woken l = l" "holds_head l \<Longrightarrow> woken l = l"
  by (cases l; simp)+

lemma wake_ok:
  assumes ok: "bqueue_ok n evs q"
  shows "bqueue_ok n evs (wake j q)"
proof -
  let ?q = "q\<lparr>b_not_empty := remove1 j (b_not_empty q), b_not_full := remove1 j (b_not_full q)\<rparr>"
  have ok': "bqueue_ok n evs ?q" using ok by (simp only: waiters_ok)
  show ?thesis
  proof (cases "holds_tail (b_threads q j) \<or> holds_head (b_threads q j)")
    case True
    then have "woken (b_threads q j) = b_threads q j" by auto
    then have "wake j q = ?q" by (simp add: wake_def set_local_def)
    with ok' show ?thesis by simp
  next
    case False
    with outside_ok [OF ok', of j "woken (b_threads q j)"] show ?thesis by (simp add: wake_def)
  qed
qed

lemma notify_one_ok:
  assumes "bqueue_ok n evs q" "notify_one ws j q = Some q'"
  shows "bqueue_ok n evs q'"
  using assms wake_ok by (auto simp: notify_one_def split: if_splits)

lemma notify_one_thread:
  assumes "notify_one ws j q = Some q'" "holds_tail (b_threads q i) \<or> holds_head (b_threads q i)"
  shows "b_threads q' i = b_threads q i"
  using assms by (auto simp: notify_one_def wake_def split: if_splits)

text \<open>What a step of the holder of a lock has to show.\<close>

lemma put_holder_ok:
  assumes ok: "bqueue_ok n evs q" and old: "b_tail_mutex q \<in> {None, Some i}" "\<not> holds_head (b_threads q i)"
    and new: "b_threads q' = (b_threads q)(i := l)" "b_head_mutex q' = b_head_mutex q" "\<not> holds_head l"
      "b_tail_mutex q' = (if holds_tail l then Some i else None)" "\<not> holds_tail l \<Longrightarrow> l = Outside \<or> reserved l = 0 \<and> uncounted l = 0 \<and> unmoved l = 0"
    and items: "items_ok n (stored evs) (taken evs) (holder (b_tail_mutex q) q) (holder (b_head_mutex q) q) q \<Longrightarrow>
      items_ok n (stored evs') (taken evs') l (holder (b_head_mutex q) q) q'"
  shows "bqueue_ok n evs' q'"
proof -
  have l: "locks_ok q" using ok by (simp add: bqueue_ok_def)
  have h: "b_head_mutex q \<noteq> Some i" using l old(2) by (simp add: locks_ok_def)
  have "locks_ok q'"
    by (rule locks_ok_set [OF l new(1)]) (use old new h in auto)
  moreover have "holder (b_head_mutex q') q' = holder (b_head_mutex q) q"
    using new(1,2) h by (auto simp: holder_def split: option.splits)
  moreover have "items_ok n (stored evs') (taken evs') (holder (b_tail_mutex q') q') (holder (b_head_mutex q) q) q'"
    using items ok new by (cases "holds_tail l") (auto simp: bqueue_ok_def items_ok_def)
  ultimately show ?thesis by (simp add: bqueue_ok_def)
qed

lemma get_holder_ok:
  assumes ok: "bqueue_ok n evs q" and old: "b_head_mutex q \<in> {None, Some i}" "\<not> holds_tail (b_threads q i)"
    and new: "b_threads q' = (b_threads q)(i := l)" "b_tail_mutex q' = b_tail_mutex q" "\<not> holds_tail l"
      "b_head_mutex q' = (if holds_head l then Some i else None)" "\<not> holds_head l \<Longrightarrow> l = Outside \<or> reserved l = 0 \<and> uncounted l = 0 \<and> unmoved l = 0"
    and items: "items_ok n (stored evs) (taken evs) (holder (b_tail_mutex q) q) (holder (b_head_mutex q) q) q \<Longrightarrow>
      items_ok n (stored evs') (taken evs') (holder (b_tail_mutex q) q) l q'"
  shows "bqueue_ok n evs' q'"
proof -
  have l: "locks_ok q" using ok by (simp add: bqueue_ok_def)
  have h: "b_tail_mutex q \<noteq> Some i" using l old(2) by (simp add: locks_ok_def)
  have "locks_ok q'"
    by (rule locks_ok_set [OF l new(1)]) (use old new h in auto)
  moreover have "holder (b_tail_mutex q') q' = holder (b_tail_mutex q) q"
    using new(1,2) h by (auto simp: holder_def split: option.splits)
  moreover have "items_ok n (stored evs') (taken evs') (holder (b_tail_mutex q) q) (holder (b_head_mutex q') q') q'"
    using items ok new by (cases "holds_head l") (auto simp: bqueue_ok_def items_ok_def)
  ultimately show ?thesis by (simp add: bqueue_ok_def)
qed

lemma items_ok_bounds:
  assumes "items_ok n ps ts p g q"
  shows "length ts \<le> length ps" "length ps \<le> length ts + n"
proof -
  have "uncounted g \<le> reserved g" by (cases g; simp)
  moreover have "uncounted p \<le> reserved p" by (cases p; simp)
  ultimately show "length ts \<le> length ps" "length ps \<le> length ts + n" using assms by (auto simp: items_ok_def)
qed

lemma advance_unat:
  assumes "unat (w :: size_t) = (m - 1) mod n" "unat cap = n" "0 < n" "1 \<le> m"
  shows "unat ((w + 1) mod cap) = m mod n"
proof -
  have "unat w < n" using assms by simp
  then have "unat w + 1 < 2 ^ LENGTH(64)" using assms(2) unsigned_less [of cap, where 'a = nat] by simp
  then have "unat (w + 1) = unat w + 1" by (simp add: unat_word_ariths)
  with assms show ?thesis by (simp add: unat_mod_distrib mod_Suc_eq)
qed


lemma store_items:
  assumes ok: "items_ok n ps ts (Put_Write x) g q" and l: "unat (b_tail q) < length (b_buffer q)"
  shows "items_ok n (ps @ [x]) ts Put_Advance g (q\<lparr>b_buffer := (b_buffer q)[unat (b_tail q) := x]\<rparr>)"
proof -
  note ok' = ok [unfolded items_ok_def, simplified]
  have le: "length ts \<le> length ps" using items_ok_bounds [OF ok] by simp
  have room: "length ps < length ts + n" using ok' by linarith
  have tail: "unat (b_tail q) = length ps mod n" using ok' by simp
  have "(b_buffer q)[unat (b_tail q) := x] ! (k mod n) = (ps @ [x]) ! k" if "length ts \<le> k" "k < length ps + 1" for k
  proof (cases "k = length ps")
    case True
    with tail l show ?thesis by simp
  next
    case False
    with that have "k < length ps" by simp
    moreover from this have "k mod n \<noteq> length ps mod n" using that room by (intro mod_neq) auto
    ultimately show ?thesis using ok' that tail by (simp add: nth_append)
  qed
  with ok' le show ?thesis by (simp add: items_ok_def)
qed

lemma read_items:
  assumes ok: "items_ok n ps ts p Get_Read q"
  shows "items_ok n ps (ts @ [b_buffer q ! unat (b_head q)]) p (Get_Advance x) q"
proof -
  note ok' = ok [unfolded items_ok_def, simplified]
  have lt: "length ts < length ps" using ok' by linarith
  then have "b_buffer q ! unat (b_head q) = ps ! length ts" using ok' by simp
  then have "ts @ [b_buffer q ! unat (b_head q)] = take (Suc (length ts)) ps"
    using ok' lt by (simp add: take_Suc_conv_app_nth)
  with ok' lt show ?thesis by (simp add: items_ok_def)
qed

lemma advance_tail_items:
  assumes ok: "items_ok n ps ts Put_Advance g q"
  shows "items_ok n ps ts Put_Count g (q\<lparr>b_tail := (b_tail q + 1) mod b_capacity q\<rparr>)"
proof -
  note ok' = ok [unfolded items_ok_def, simplified]
  have "unat ((b_tail q + 1) mod b_capacity q) = length ps mod n"
    using ok' by (intro advance_unat) auto
  with ok' show ?thesis by (simp add: items_ok_def)
qed

lemma advance_head_items:
  assumes ok: "items_ok n ps ts p (Get_Advance x) q"
  shows "items_ok n ps ts p (Get_Count x) (q\<lparr>b_head := (b_head q + 1) mod b_capacity q\<rparr>)"
proof -
  note ok' = ok [unfolded items_ok_def, simplified]
  have "unat ((b_head q + 1) mod b_capacity q) = length ts mod n"
    using ok' by (intro advance_unat) auto
  with ok' show ?thesis by (simp add: items_ok_def)
qed

lemma count_up_items:
  assumes ok: "items_ok n ps ts Put_Count g q"
  shows "items_ok n ps ts Put_Notify g (q\<lparr>b_size := b_size q + 1\<rparr>)"
proof -
  note ok' = ok [unfolded items_ok_def, simplified]
  have "unat (b_size q) + 1 < 2 ^ LENGTH(64)" using ok' unsigned_less [of "b_capacity q", where 'a = nat] by simp
  then have "unat (b_size q + 1) = unat (b_size q) + 1" by (simp add: unat_word_ariths)
  with ok' show ?thesis by (simp add: items_ok_def)
qed

lemma count_down_items:
  assumes ok: "items_ok n ps ts p (Get_Count x) q"
  shows "items_ok n ps ts p (Get_Notify x) (q\<lparr>b_size := b_size q - 1\<rparr>)"
proof -
  note ok' = ok [unfolded items_ok_def, simplified]
  have "b_size q \<noteq> 0" using ok' by auto
  then have "unat (b_size q - 1) = unat (b_size q) - 1" by (rule unat_minus_one)
  moreover have "unat (b_size q) + reserved p - Suc 0 \<le> n" using ok' by linarith
  ultimately show ?thesis using ok' by (simp add: items_ok_def)
qed

lemma put_step_ok:
  assumes ok: "bqueue_ok n evs q" and step: "put_step i j (b_threads q i) q = Some (e, q')"
  shows "bqueue_ok n (evs @ e) q'"
proof -
  have l: "locks_ok q" using ok by (simp add: bqueue_ok_def)
  note locks = locks_okD [OF l, of i]
  show ?thesis
  proof (cases "b_threads q i")
    case (Put_Lock x)
    with step locks show ?thesis
      by (auto split: if_splits intro!: put_holder_ok [OF ok, of i _ "Put_Check x"] simp: items_ok_def)
  next
    case (Put_Check x)
    show ?thesis
    proof (cases "b_size q < b_capacity q")
      case True
      with step locks Put_Check show ?thesis
        by (auto intro!: put_holder_ok [OF ok, of i _ "Put_Write x"] simp: items_ok_def word_less_nat_alt)
    next
      case False
      with step locks Put_Check show ?thesis
        by (auto intro!: put_holder_ok [OF ok, of i _ "Put_Wait x"] simp: items_ok_def)
    qed
  next
    case (Put_Wait x)
    with step locks show ?thesis
      by (auto intro!: put_holder_ok [OF ok, of i _ "Put_Blocked x"] simp: items_ok_def)
  next
    case (Put_Woken x)
    with step locks show ?thesis
      by (auto split: if_splits intro!: put_holder_ok [OF ok, of i _ "Put_Check x"] simp: items_ok_def)
  next
    case (Put_Write x)
    with step locks show ?thesis
      by (auto simp: bind_eq_Some_conv intro!: put_holder_ok [OF ok, of i _ "Put_Advance"])
        (simp_all add: store_items)
  next
    case Put_Advance
    with step locks show ?thesis
      by (auto simp: bind_eq_Some_conv intro!: put_holder_ok [OF ok, of i _ "Put_Count"])
        (simp_all add: advance_tail_items)
  next
    case Put_Count
    with step locks show ?thesis
      by (auto intro!: put_holder_ok [OF ok, of i _ "Put_Notify"]) (simp_all add: count_up_items)
  next
    case Put_Notify
    from step Put_Notify obtain q1 where n: "notify_one (b_not_empty q) j q = Some q1" and q': "q' = set_local i Put_Unlock q1"
      and e: "e = []" by (auto simp: bind_eq_Some_conv)
    have ok1: "bqueue_ok n evs q1" by (rule notify_one_ok [OF ok n])
    have t1: "b_threads q1 i = Put_Notify" using notify_one_thread [OF n, of i] Put_Notify by simp
    have l1: "locks_ok q1" using ok1 by (simp add: bqueue_ok_def)
    from q' e t1 locks_okD [OF l1, of i] show ?thesis
      by (auto intro!: put_holder_ok [OF ok1, of i _ Put_Unlock] simp: items_ok_def)
  next
    case Put_Unlock
    with step locks show ?thesis
      by (auto intro!: put_holder_ok [OF ok, of i _ Outside] simp: items_ok_def)
  qed (use step in simp_all)
qed

lemma get_step_ok:
  assumes ok: "bqueue_ok n evs q" and step: "get_step i j (b_threads q i) q = Some (e, q')"
  shows "bqueue_ok n (evs @ e) q'"
proof -
  have l: "locks_ok q" using ok by (simp add: bqueue_ok_def)
  note locks = locks_okD [OF l, of i]
  show ?thesis
  proof (cases "b_threads q i")
    case Get_Lock
    with step locks show ?thesis
      by (auto split: if_splits intro!: get_holder_ok [OF ok, of i _ Get_Check] simp: items_ok_def)
  next
    case Get_Check
    show ?thesis
    proof (cases "b_size q > 0")
      case True
      then have "0 < unat (b_size q)" by (simp add: word_less_nat_alt)
      with True step locks Get_Check show ?thesis
        by (auto intro!: get_holder_ok [OF ok, of i _ Get_Read] simp: items_ok_def)
    next
      case False
      with step locks Get_Check show ?thesis
        by (auto intro!: get_holder_ok [OF ok, of i _ Get_Wait] simp: items_ok_def)
    qed
  next
    case Get_Wait
    with step locks show ?thesis
      by (auto intro!: get_holder_ok [OF ok, of i _ Get_Blocked] simp: items_ok_def)
  next
    case Get_Woken
    with step locks show ?thesis
      by (auto split: if_splits intro!: get_holder_ok [OF ok, of i _ Get_Check] simp: items_ok_def)
  next
    case Get_Read
    with step locks show ?thesis
      by (auto simp: bind_eq_Some_conv intro!: get_holder_ok [OF ok, of i _ "Get_Advance (b_buffer q ! unat (b_head q))"])
        (simp_all add: read_items)
  next
    case (Get_Advance x)
    with step locks show ?thesis
      by (auto simp: bind_eq_Some_conv intro!: get_holder_ok [OF ok, of i _ "Get_Count x"])
        (simp_all add: advance_head_items)
  next
    case (Get_Count x)
    with step locks show ?thesis
      by (auto intro!: get_holder_ok [OF ok, of i _ "Get_Notify x"]) (simp_all add: count_down_items)
  next
    case (Get_Notify x)
    from step Get_Notify obtain q1 where n: "notify_one (b_not_full q) j q = Some q1" and q': "q' = set_local i (Get_Unlock x) q1"
      and e: "e = []" by (auto simp: bind_eq_Some_conv)
    have ok1: "bqueue_ok n evs q1" by (rule notify_one_ok [OF ok n])
    have t1: "b_threads q1 i = Get_Notify x" using notify_one_thread [OF n, of i] Get_Notify by simp
    have l1: "locks_ok q1" using ok1 by (simp add: bqueue_ok_def)
    from q' e t1 locks_okD [OF l1, of i] show ?thesis
      by (auto intro!: get_holder_ok [OF ok1, of i _ "Get_Unlock x"] simp: items_ok_def)
  next
    case (Get_Unlock x)
    with step locks show ?thesis
      by (auto intro!: get_holder_ok [OF ok, of i _ Outside] simp: items_ok_def)
  qed (use step in simp_all)
qed

lemma b_step_ok:
  assumes ok: "bqueue_ok n evs q" and step: "b_step a q = Some (e, q')"
  shows "bqueue_ok n (evs @ e) q'"
proof (cases a)
  case (Call_Put i x)
  with step outside_ok [OF ok, of i "Put_Lock x"] show ?thesis by (auto split: b_local.splits)
next
  case (Call_Get i)
  with step outside_ok [OF ok, of i Get_Lock] show ?thesis by (auto split: b_local.splits)
next
  case (Step i j)
  with step put_step_ok [OF ok, of i j] get_step_ok [OF ok, of i j] show ?thesis by (auto split: if_splits)
next
  case (Spurious j)
  with step wake_ok [OF ok, of j] show ?thesis by (auto split: if_splits)
qed

lemma new_bqueue_ok: "bqueue_ok (unat cap) [] (new_bqueue cap d)"
  by (simp add: bqueue_ok_def locks_ok_def items_ok_def new_bqueue_def holder_def)

lemma b_run_ok:
  "\<lbrakk>b_run acts q = Some (es, q'); bqueue_ok n evs q\<rbrakk> \<Longrightarrow> bqueue_ok n (evs @ es) q'"
proof (induction acts arbitrary: q es evs)
  case (Cons a acts)
  from Cons.prems(1) obtain e q1 e1 where s: "b_step a q = Some (e, q1)" and r: "b_run acts q1 = Some (e1, q')"
    and es: "es = e @ e1" by (auto simp: bind_eq_Some_conv)
  from Cons.IH [OF r b_step_ok [OF Cons.prems(2) s]] es show ?case by simp
qed simp

subsection \<open>Properties\<close>

text \<open>
  C19: The queue is a bounded first-in first-out queue, whatever the threads, the interleaving of their
  steps and the threads the notifications wake: the items read are the first items stored, in their
  order, and at most the capacity of them are in the ring.
\<close>

theorem blocking_queue_fifo:
  assumes "b_run acts (new_bqueue cap d) = Some (evs, q)"
  shows "taken evs = take (length (taken evs)) (stored evs) \<and>
    length (taken evs) \<le> length (stored evs) \<and> length (stored evs) \<le> length (taken evs) + unat cap \<and>
    b_size q \<le> b_capacity q"
proof -
  have "bqueue_ok (unat cap) evs q" using b_run_ok [OF assms new_bqueue_ok] by simp
  then have items: "items_ok (unat cap) (stored evs) (taken evs) (holder (b_tail_mutex q) q) (holder (b_head_mutex q) q) q"
    by (simp add: bqueue_ok_def)
  from items_ok_bounds [OF this] this show ?thesis by (auto simp: items_ok_def word_le_nat_alt)
qed

text \<open>Two items go through a ring with one slot: the second \<open>add\<close> waits until the first item is removed.\<close>

definition one_by_one :: "nat b_action list" where
  "one_by_one = Call_Put 0 5 # replicate 7 (Step 0 9) @ Call_Put 1 6 # replicate 3 (Step 1 9) @
     Call_Get 2 # replicate 7 (Step 2 1) @ replicate 7 (Step 1 9)"

theorem blocking_queue_fifo_witness:
  "\<exists>evs q. b_run one_by_one (new_bqueue 1 0) = Some (evs, q) \<and> stored evs = [5, 6] \<and>
     taken evs = take (length (taken evs)) (stored evs) \<and> length (taken evs) = 1"
proof -
  have "map_option fst (b_run one_by_one (new_bqueue 1 0)) = Some [Stored 5, Taken 5, Returned 2 5, Stored 6]"
    by code_simp
  then obtain q where q: "b_run one_by_one (new_bqueue 1 0) = Some ([Stored 5, Taken 5, Returned 2 5, Stored 6], q)"
    by auto
  from blocking_queue_fifo [OF q] q show ?thesis by auto
qed

subsection \<open>Who waits\<close>

text \<open>The waiting lists hold blocked threads only, each once.\<close>

fun blocked_put :: "'a b_local \<Rightarrow> bool" where
  "blocked_put (Put_Blocked _) = True"
| "blocked_put _ = False"

definition waits_ok :: "'a bqueue \<Rightarrow> bool" where
  "waits_ok q \<longleftrightarrow> distinct (b_not_empty q) \<and> distinct (b_not_full q) \<and>
     (\<forall>k \<in> set (b_not_empty q). b_threads q k = Get_Blocked) \<and>
     (\<forall>k \<in> set (b_not_full q). blocked_put (b_threads q k))"

lemma waits_ok_same:
  assumes "waits_ok q" "b_not_empty q' = b_not_empty q" "b_not_full q' = b_not_full q"
    and "b_threads q' = (b_threads q)(i := l)" "\<not> is_blocked (b_threads q i)"
  shows "waits_ok q'"
proof -
  have "i \<notin> set (b_not_empty q)" "i \<notin> set (b_not_full q)"
    using assms(1,5) by (auto simp: waits_ok_def elim!: blocked_put.elims)
  with assms show ?thesis by (auto simp: waits_ok_def)
qed

lemma waits_ok_wake:
  assumes "waits_ok q"
  shows "waits_ok (wake j q)"
  using assms by (auto simp: waits_ok_def wake_def distinct_remove1)

lemma waits_ok_notify_one:
  "\<lbrakk>waits_ok q; notify_one ws j q = Some q'\<rbrakk> \<Longrightarrow> waits_ok q'"
  by (auto simp: notify_one_def waits_ok_wake split: if_splits)

lemma waits_ok_block:
  assumes "waits_ok q" "\<not> is_blocked (b_threads q i)"
  shows "waits_ok (set_local i Get_Blocked (q\<lparr>b_head_mutex := m, b_not_empty := b_not_empty q @ [i]\<rparr>))"
    and "waits_ok (set_local i (Put_Blocked x) (q\<lparr>b_tail_mutex := m, b_not_full := b_not_full q @ [i]\<rparr>))"
proof -
  have "i \<notin> set (b_not_empty q)" "i \<notin> set (b_not_full q)"
    using assms by (auto simp: waits_ok_def elim!: blocked_put.elims)
  with assms show "waits_ok (set_local i Get_Blocked (q\<lparr>b_head_mutex := m, b_not_empty := b_not_empty q @ [i]\<rparr>))"
    "waits_ok (set_local i (Put_Blocked x) (q\<lparr>b_tail_mutex := m, b_not_full := b_not_full q @ [i]\<rparr>))"
    by (auto simp: waits_ok_def)
qed

lemma put_step_waits:
  assumes ok: "waits_ok q" and step: "put_step i j (b_threads q i) q = Some (e, q')"
  shows "waits_ok q'"
proof (cases "b_threads q i")
  case (Put_Wait x)
  with step waits_ok_block(2) [OF ok, where i = i and m = None and x = x] show ?thesis by auto
next
  case Put_Notify
  with step obtain q1 where n: "notify_one (b_not_empty q) j q = Some q1" and q': "q' = set_local i Put_Unlock q1"
    by (auto simp: bind_eq_Some_conv)
  have t: "b_threads q1 i = Put_Notify" using notify_one_thread [OF n, of i] Put_Notify by simp
  show ?thesis unfolding q'
    by (rule waits_ok_same [OF waits_ok_notify_one [OF ok n], of _ i Put_Unlock]) (simp_all add: t)
qed (use step in \<open>auto simp: bind_eq_Some_conv split: if_splits intro!: waits_ok_same [OF ok, of _ i]\<close>)

lemma get_step_waits:
  assumes ok: "waits_ok q" and step: "get_step i j (b_threads q i) q = Some (e, q')"
  shows "waits_ok q'"
proof (cases "b_threads q i")
  case Get_Wait
  with step waits_ok_block(1) [OF ok, where i = i and m = None] show ?thesis by auto
next
  case (Get_Notify x)
  with step obtain q1 where n: "notify_one (b_not_full q) j q = Some q1" and q': "q' = set_local i (Get_Unlock x) q1"
    by (auto simp: bind_eq_Some_conv)
  have t: "b_threads q1 i = Get_Notify x" using notify_one_thread [OF n, of i] Get_Notify by simp
  show ?thesis unfolding q'
    by (rule waits_ok_same [OF waits_ok_notify_one [OF ok n], of _ i "Get_Unlock x"]) (simp_all add: t)
qed (use step in \<open>auto simp: bind_eq_Some_conv split: if_splits intro!: waits_ok_same [OF ok, of _ i]\<close>)

lemma b_step_waits:
  assumes ok: "waits_ok q" and step: "b_step a q = Some (e, q')"
  shows "waits_ok q'"
proof (cases a)
  case (Step i j)
  with step put_step_waits [OF ok, of i j] get_step_waits [OF ok, of i j] show ?thesis by (auto split: if_splits)
next
  case (Spurious j)
  with step waits_ok_wake [OF ok] show ?thesis by (auto split: if_splits)
qed (use step in \<open>auto split: b_local.splits intro!: waits_ok_same [OF ok]\<close>)

lemma b_run_waits: "\<lbrakk>b_run acts q = Some (es, q'); waits_ok q\<rbrakk> \<Longrightarrow> waits_ok q'"
  by (induction acts arbitrary: q es) (auto simp: bind_eq_Some_conv dest: b_step_waits)

lemma new_bqueue_waits: "waits_ok (new_bqueue cap d)"
  by (simp add: waits_ok_def new_bqueue_def)

text \<open>
  A thread that waits in \<open>remove\<close> sleeps on while the others only remove, and no wake-up comes by itself.
\<close>

fun leaves_asleep :: "tid \<Rightarrow> 'a b_action \<Rightarrow> bool" where
  "leaves_asleep i (Call_Put _ _) = False"
| "leaves_asleep i (Spurious k) = (k \<noteq> i)"
| "leaves_asleep i _ = True"

definition asleep :: "tid \<Rightarrow> 'a bqueue \<Rightarrow> bool" where
  "asleep i q \<longleftrightarrow> b_threads q i = Get_Blocked \<and> (\<forall>k. \<not> is_put (b_threads q k)) \<and> b_not_full q = []"

lemma get_step_asleep:
  assumes "asleep i q" "get_step k j (b_threads q k) q = Some (e, q')"
  shows "asleep i q'"
proof -
  have "k \<noteq> i" using assms by (auto simp: asleep_def)
  with assms show ?thesis
    by (cases "b_threads q k") (auto simp: asleep_def bind_eq_Some_conv notify_one_def split: if_splits)
qed

lemma b_step_asleep:
  assumes "asleep i q" "leaves_asleep i a" "b_step a q = Some (e, q')"
  shows "asleep i q'"
proof (cases a)
  case (Step k j)
  with assms get_step_asleep [OF assms(1), of k j] show ?thesis by (auto simp: asleep_def)
next
  case (Call_Get k)
  with assms show ?thesis by (auto simp: asleep_def split: b_local.splits if_splits)
next
  case (Spurious k)
  with assms have "b_threads q k = Get_Blocked"
    by (cases "b_threads q k") (auto simp: asleep_def, metis is_put.simps)
  with Spurious assms show ?thesis by (auto simp: asleep_def wake_def split: if_splits)
qed (use assms in simp)

lemma b_run_asleep:
  "\<lbrakk>b_run acts q = Some (es, q'); list_all (leaves_asleep i) acts; asleep i q\<rbrakk> \<Longrightarrow> asleep i q'"
  by (induction acts arbitrary: q es) (auto simp: bind_eq_Some_conv dest: b_step_asleep)


text \<open>
  C37: A notification can be lost. A thread of \<open>remove\<close> that has evaluated its predicate and has not
  started to wait holds the lock of the head; \<open>add\<close> takes the lock of the tail only. So another thread can
  complete an \<open>add\<close> here, in any reachable state with the other threads outside and room in the ring:
  its notification finds no waiter, and the thread goes on to wait, with an item in the queue and
  both locks free. It then sleeps through every run in which no item is added and no wake-up comes by itself, whatever
  the other threads remove.
\<close>

theorem remove_misses_notification:
  assumes run: "b_run acts (new_bqueue cap d) = Some (evs, q)"
    and wait: "b_threads q i = Get_Wait" and others: "\<forall>k. k \<noteq> i \<longrightarrow> b_threads q k = Outside"
    and other: "i \<noteq> j" and room: "b_size q < b_capacity q"
  shows "\<exists>q'. b_run (Call_Put j x # replicate 7 (Step j n) @ [Step i n]) q = Some ([Stored x], q') \<and>
    b_size q' = b_size q + 1 \<and> 0 < b_size q' \<and> b_threads q' = (b_threads q)(i := Get_Blocked) \<and>
    b_not_empty q' = [i] \<and> b_head_mutex q' = None \<and> b_tail_mutex q' = None \<and>
    (\<forall>k. b_step (Step i k) q' = None) \<and>
    (\<forall>acts' es q''. list_all (leaves_asleep i) acts' \<and> b_run acts' q' = Some (es, q'') \<longrightarrow>
      b_threads q'' i = Get_Blocked)"
proof -
  have inv: "bqueue_ok (unat cap) evs q" using b_run_ok [OF run new_bqueue_ok] by simp
  then have l: "locks_ok q"
    and items: "items_ok (unat cap) (stored evs) (taken evs) (holder (b_tail_mutex q) q) (holder (b_head_mutex q) q) q"
    by (simp_all add: bqueue_ok_def)
  have locals: "\<not> holds_tail (b_threads q k) \<and> \<not> is_put (b_threads q k) \<and> \<not> is_blocked (b_threads q k)" for k
    using wait others by (cases "k = i") auto
  have tail: "b_tail_mutex q = None" using locks_okD(2) [OF l] locals by (metis not_None_eq)
  have w: "waits_ok q" by (rule b_run_waits [OF run new_bqueue_waits])
  have "k \<notin> set (b_not_empty q)" "k \<notin> set (b_not_full q)" for k
    using w locals [of k] by (auto simp: waits_ok_def elim!: blocked_put.elims)
  then have empty: "b_not_empty q = []" and full: "b_not_full q = []" by (metis list.set_intros(1) list.exhaust)+
  have cap: "b_capacity q \<noteq> 0" using room by auto
  have tl: "unat (b_tail q) < length (b_buffer q)" and big: "unat (b_size q) < unat (b_capacity q)"
    using items room cap tail by (auto simp: items_ok_def word_less_nat_alt unat_eq_0)
  have size: "0 < b_size q + 1"
    using big unsigned_less [of "b_capacity q", where 'a = nat]
    by (simp add: word_less_nat_alt unat_word_ariths)
  have out: "b_threads q j = Outside" using others other by metis
  have seven: "replicate 7 (Step j n) = [Step j n, Step j n, Step j n, Step j n, Step j n, Step j n, Step j n]"
    by (simp add: numeral_nat)
  let ?q = "q\<lparr>b_buffer := (b_buffer q)[unat (b_tail q) := x], b_tail := (b_tail q + 1) mod b_capacity q, b_size := b_size q + 1,
      b_tail_mutex := None, b_head_mutex := None, b_not_empty := [i], b_threads := (b_threads q)(i := Get_Blocked)\<rparr>"
  have same: "(b_threads q)(i := Get_Blocked, j := Outside) = (b_threads q)(i := Get_Blocked)" using out other by auto
  have go: "b_run (Call_Put j x # replicate 7 (Step j n) @ [Step i n]) q = Some ([Stored x], ?q)"
    using wait other out tail empty room cap tl by (simp add: seven set_local_def notify_one_def fun_upd_twist same)
  have "asleep i ?q" using locals full by (simp add: asleep_def)
  then have sleep: "\<forall>acts' es q''. list_all (leaves_asleep i) acts' \<and> b_run acts' ?q = Some (es, q'') \<longrightarrow>
      b_threads q'' i = Get_Blocked"
    using b_run_asleep by (blast intro: asleep_def [THEN iffD1, THEN conjunct1])
  show ?thesis using size tail sleep by (intro exI [of _ ?q] conjI go) simp_all
qed

definition about_to_wait :: "nat b_action list" where
  "about_to_wait = [Call_Get 0, Step 0 9, Step 0 9]"

theorem remove_misses_notification_witness:
  "\<exists>q q'. b_run about_to_wait (new_bqueue 2 (0 :: nat)) = Some ([], q) \<and>
    b_run (Call_Put 1 5 # replicate 7 (Step 1 9) @ [Step 0 9]) q = Some ([Stored 5], q') \<and>
    0 < b_size q' \<and> b_threads q' 0 = Get_Blocked \<and> b_not_empty q' = [0]"
proof -
  define q :: "nat bqueue" where "q = \<lparr>b_capacity = 2, b_buffer = [0, 0], b_head = 0, b_tail = 0, b_size = 0,
     b_head_mutex = Some 0, b_tail_mutex = None, b_not_empty = [], b_not_full = [], b_threads = (\<lambda>_. Outside)(0 := Get_Wait)\<rparr>"
  have two: "replicate 2 (0 :: nat) = [0, 0]" by (simp add: numeral_2_eq_2)
  have run: "b_run about_to_wait (new_bqueue 2 0) = Some ([], q)"
    by (simp add: about_to_wait_def new_bqueue_def set_local_def q_def two)
  have "b_threads q 0 = Get_Wait" "\<forall>k. k \<noteq> 0 \<longrightarrow> b_threads q k = Outside" "b_size q < b_capacity q"
    by (simp_all add: q_def)
  from remove_misses_notification [OF run this(1,2) _ this(3), of 1 5 9] obtain q' where
    "b_run (Call_Put 1 5 # replicate 7 (Step 1 9) @ [Step 0 9]) q = Some ([Stored 5], q')" "0 < b_size q'"
    "b_threads q' = (b_threads q)(0 := Get_Blocked)" "b_not_empty q' = [0]" by auto
  with run show ?thesis by auto
qed

end
