(* ===== verification/Dining.thy ===== *)
theory Dining
  imports CDS_Prelude
begin

text \<open>
  The dining philosophers of \<open>assignment1/program2\<close>. The first version has a mutex for each chopstick and
  gives up when it finds a deadlock; the others keep the chopsticks in a vector under one mutex, and the
  third and the fourth also limit the number of philosophers that try to take chopsticks. The steps of the
  threads are the lock operations and what a thread does under a lock; they interleave in any order.
\<close>

type_synonym tid = nat

subsection \<open>The first version\<close>

datatype v1_local =
    P_Top
  | P_Own
  | P_Wait
  | P_Count
  | P_Release
  | P_Next
  | P_Eat
  | P_Dec_Lock
  | P_Dec
  | P_Dec_Unlock
  | P_Done

text \<open>\<open>v1_over\<close>: the process has reported a deadlock and has left.\<close>

record v1_state =
  v1_mutex :: "nat \<Rightarrow> tid option"
  v1_wait :: "tid option"
  v1_count :: int
  v1_over :: bool
  v1_pc :: "tid \<Rightarrow> v1_local"

definition v1_init :: v1_state where
  "v1_init = \<lparr>v1_mutex = (\<lambda>_. None), v1_wait = None, v1_count = 0, v1_over = False, v1_pc = (\<lambda>_. P_Top)\<rparr>"

definition v1_goto :: "tid \<Rightarrow> v1_local \<Rightarrow> v1_state \<Rightarrow> v1_state" where
  "v1_goto i l st = st\<lparr>v1_pc := (v1_pc st)(i := l)\<rparr>"

definition v1_lock :: "tid \<Rightarrow> nat \<Rightarrow> v1_local \<Rightarrow> v1_state \<Rightarrow> v1_state option" where
  "v1_lock i j l st =
     (if v1_mutex st j = None then Some (v1_goto i l (st\<lparr>v1_mutex := (v1_mutex st)(j \<mapsto> i)\<rparr>)) else None)"

definition v1_lock_wait :: "tid \<Rightarrow> v1_local \<Rightarrow> v1_state \<Rightarrow> v1_state option" where
  "v1_lock_wait i l st = (if v1_wait st = None then Some (v1_goto i l (st\<lparr>v1_wait := Some i\<rparr>)) else None)"

definition right_of :: "tid \<Rightarrow> nat" where
  "right_of i = (i + 1) mod 5"

text \<open>One step of \<open>thinking_and_eating\<close>; a thread that has to wait for a mutex has none.\<close>

definition v1_step :: "tid \<Rightarrow> v1_state \<Rightarrow> v1_state option" where
  "v1_step i st = do {
     ASSERT (i < 5 \<and> \<not> v1_over st);
     (case v1_pc st i of
        P_Top \<Rightarrow> Some (if v1_count st = 5 then st\<lparr>v1_over := True\<rparr> else v1_goto i P_Own st)
      | P_Own \<Rightarrow> v1_lock i i P_Wait st
      | P_Wait \<Rightarrow> v1_lock_wait i P_Count st
      | P_Count \<Rightarrow>
          Some (v1_goto i P_Release (st\<lparr>v1_count := v1_count st + 1, v1_over := (v1_count st + 1 = 5)\<rparr>))
      | P_Release \<Rightarrow> Some (v1_goto i P_Next (st\<lparr>v1_wait := None\<rparr>))
      | P_Next \<Rightarrow> v1_lock i (right_of i) P_Eat st
      | P_Eat \<Rightarrow> Some (v1_goto i P_Dec_Lock (st\<lparr>v1_mutex := (v1_mutex st)(i := None)\<rparr>))
      | P_Dec_Lock \<Rightarrow> v1_lock_wait i P_Dec st
      | P_Dec \<Rightarrow> Some (v1_goto i P_Dec_Unlock (st\<lparr>v1_count := v1_count st - 1\<rparr>))
      | P_Dec_Unlock \<Rightarrow> Some (v1_goto i P_Done (st\<lparr>v1_wait := None\<rparr>))
      | P_Done \<Rightarrow> Some (v1_goto i P_Top (st\<lparr>v1_mutex := (v1_mutex st)(right_of i := None)\<rparr>)))
   }"

definition v1_run :: "tid list \<Rightarrow> v1_state \<Rightarrow> v1_state option" where
  "v1_run is st = for_each v1_step is st"

text \<open>What a thread holds, by its place.\<close>

fun has_own :: "v1_local \<Rightarrow> bool" where
  "has_own P_Wait = True"
| "has_own P_Count = True"
| "has_own P_Release = True"
| "has_own P_Next = True"
| "has_own P_Eat = True"
| "has_own _ = False"

fun has_right :: "v1_local \<Rightarrow> bool" where
  "has_right P_Eat = True"
| "has_right P_Dec_Lock = True"
| "has_right P_Dec = True"
| "has_right P_Dec_Unlock = True"
| "has_right P_Done = True"
| "has_right _ = False"

fun has_wait :: "v1_local \<Rightarrow> bool" where
  "has_wait P_Count = True"
| "has_wait P_Release = True"
| "has_wait P_Dec = True"
| "has_wait P_Dec_Unlock = True"
| "has_wait _ = False"

fun is_counted :: "v1_local \<Rightarrow> bool" where
  "is_counted P_Release = True"
| "is_counted P_Next = True"
| "is_counted P_Eat = True"
| "is_counted P_Dec_Lock = True"
| "is_counted P_Dec = True"
| "is_counted _ = False"

text \<open>How many of the first \<open>n\<close> threads are at a place.\<close>

definition how_many :: "nat \<Rightarrow> ('l \<Rightarrow> bool) \<Rightarrow> (tid \<Rightarrow> 'l) \<Rightarrow> int" where
  "how_many n P pc = (\<Sum>i<n. of_bool (P (pc i)))"

lemma how_many_upd:
  assumes "i < n"
  shows "how_many n P (pc(i := l)) = how_many n P pc - of_bool (P (pc i)) + of_bool (P l)"
proof -
  have "(\<Sum>j\<in>{..<n} - {i}. of_bool (P ((pc(i := l)) j)) :: int) = (\<Sum>j\<in>{..<n} - {i}. of_bool (P (pc j)))"
    by (rule sum.cong) auto
  moreover have split: "how_many n P pc = of_bool (P (pc i)) + (\<Sum>j\<in>{..<n} - {i}. of_bool (P (pc j)))" for pc
    unfolding how_many_def by (rule sum.remove) (use assms in auto)
  ultimately show ?thesis using split [of pc] split [of "pc(i := l)"] by simp
qed

lemma how_many_bounds: "0 \<le> how_many n P pc" "how_many n P pc \<le> int n"
proof -
  show "0 \<le> how_many n P pc" unfolding how_many_def by (rule sum_nonneg) simp
  have "how_many n P pc \<le> (\<Sum>i<n. 1)" unfolding how_many_def by (rule sum_mono) simp
  then show "how_many n P pc \<le> int n" by simp
qed

lemma how_many_all:
  assumes "how_many n P pc = int n" "i < n"
  shows "P (pc i)"
proof (rule ccontr)
  assume no: "\<not> P (pc i)"
  then obtain l where l: "how_many n (\<lambda>b. b) ((\<lambda>j. P (pc j))(i := True)) = how_many n P pc + l" "l = 1"
    using how_many_upd [OF assms(2), of "\<lambda>b. b" "\<lambda>j. P (pc j)" True] by (simp add: how_many_def)
  with how_many_bounds(2) [of n "\<lambda>b. b" "(\<lambda>j. P (pc j))(i := True)"] assms(1) show False by simp
qed

lemma how_many_none: "(\<And>i. i < n \<Longrightarrow> P (pc i)) \<Longrightarrow> how_many n P pc = int n"
  by (simp add: how_many_def)

lemma right_of_simps:
  "right_of i < 5" "i < 5 \<Longrightarrow> right_of i \<noteq> i"
  "i < 5 \<Longrightarrow> j < 5 \<Longrightarrow> right_of i = right_of j \<longleftrightarrow> i = j"
proof -
  show "right_of i < 5" by (simp add: right_of_def)
  have five: "i < 5 \<Longrightarrow> i \<in> {0, 1, 2, 3, 4}" for i :: nat by auto
  show "i < 5 \<Longrightarrow> right_of i \<noteq> i" using five [of i] by (auto simp: right_of_def)
  show "i < 5 \<Longrightarrow> j < 5 \<Longrightarrow> right_of i = right_of j \<longleftrightarrow> i = j"
    using five [of i] five [of j] by (auto simp: right_of_def)
qed

definition left_of :: "nat \<Rightarrow> tid" where
  "left_of j = (j + 4) mod 5"

lemma left_of_simps: "j < 5 \<Longrightarrow> left_of j < 5 \<and> right_of (left_of j) = j"
proof -
  assume "j < 5"
  then have "j \<in> {0, 1, 2, 3, 4}" by auto
  then show ?thesis by (auto simp: right_of_def left_of_def)
qed

definition v1_ok :: "v1_state \<Rightarrow> bool" where
  "v1_ok st \<longleftrightarrow>
     (\<forall>j < 5. \<forall>i. v1_mutex st j = Some i \<longleftrightarrow>
        i < 5 \<and> (i = j \<and> has_own (v1_pc st i) \<or> right_of i = j \<and> has_right (v1_pc st i))) \<and>
     (\<forall>i. v1_wait st = Some i \<longleftrightarrow> i < 5 \<and> has_wait (v1_pc st i)) \<and>
     v1_count st = how_many 5 is_counted (v1_pc st) \<and>
     (\<exists>i < 5. \<not> has_right (v1_pc st i)) \<and>
     (v1_over st \<longleftrightarrow> v1_count st = 5)"

lemma v1_okD:
  assumes "v1_ok st" "i < 5"
  shows "has_own (v1_pc st i) \<Longrightarrow> v1_mutex st i = Some i"
    and "has_right (v1_pc st i) \<Longrightarrow> v1_mutex st (right_of i) = Some i"
    and "has_wait (v1_pc st i) \<Longrightarrow> v1_wait st = Some i"
  using assms right_of_simps(1) [of i] by (auto simp: v1_ok_def)

lemma v1_goto_simps [simp]:
  "v1_pc (v1_goto i l st) = (v1_pc st)(i := l)" "v1_mutex (v1_goto i l st) = v1_mutex st"
  "v1_wait (v1_goto i l st) = v1_wait st" "v1_count (v1_goto i l st) = v1_count st" "v1_over (v1_goto i l st) = v1_over st"
  by (simp_all add: v1_goto_def)

text \<open>What a step has to show, piece by piece.\<close>

lemma v1_ok_step:
  assumes ok: "v1_ok st" and i: "i < 5" and pc: "v1_pc st' = (v1_pc st)(i := l)"
    and own: "v1_mutex st' i = (if has_own l then Some i else if has_own (v1_pc st i) then None else v1_mutex st i)"
      "has_own l \<Longrightarrow> has_own (v1_pc st i) \<or> v1_mutex st i = None"
    and right: "v1_mutex st' (right_of i) = (if has_right l then Some i else if has_right (v1_pc st i) then None else v1_mutex st (right_of i))"
      "has_right l \<Longrightarrow> has_right (v1_pc st i) \<or> v1_mutex st (right_of i) = None"
    and other: "\<And>j. j \<noteq> i \<Longrightarrow> j \<noteq> right_of i \<Longrightarrow> v1_mutex st' j = v1_mutex st j"
    and wait: "v1_wait st' = (if has_wait l then Some i else if has_wait (v1_pc st i) then None else v1_wait st)"
      "has_wait l \<Longrightarrow> has_wait (v1_pc st i) \<or> v1_wait st = None"
    and count: "v1_count st' = v1_count st - of_bool (is_counted (v1_pc st i)) + of_bool (is_counted l)"
    and place: "has_right l \<Longrightarrow> has_right (v1_pc st i) \<or> has_own (v1_pc st i)"
    and over: "v1_over st' \<longleftrightarrow> v1_count st' = 5"
  shows "v1_ok st'"
proof -
  have ne: "right_of i \<noteq> i" "right_of i < 5" using i right_of_simps by auto
  have m: "v1_mutex st j = Some k \<longleftrightarrow> k < 5 \<and> (k = j \<and> has_own (v1_pc st k) \<or> right_of k = j \<and> has_right (v1_pc st k))"
    if "j < 5" for j k using ok that by (simp add: v1_ok_def)
  have "v1_mutex st' j = Some k \<longleftrightarrow> k < 5 \<and> (k = j \<and> has_own (v1_pc st' k) \<or> right_of k = j \<and> has_right (v1_pc st' k))"
    if j: "j < 5" for j k
  proof (cases "k = i")
    case True
    with pc own right other [of j] m [OF j, of k] i ne show ?thesis by (cases "j = i"; cases "j = right_of i") (auto split: if_splits)
  next
    case False
    then have same: "v1_pc st' k = v1_pc st k" using pc by simp
    have "(v1_mutex st' j = Some k) = (v1_mutex st j = Some k)"
    proof (cases "j = i")
      case True
      have "v1_mutex st i \<noteq> Some k" if "has_own l \<or> has_own (v1_pc st i)"
        using v1_okD(1) [OF ok i] own(2) that False by auto
      with own(1) True False show ?thesis by auto
    next
      case ji: False
      show ?thesis
      proof (cases "j = right_of i")
        case True
        have "v1_mutex st (right_of i) \<noteq> Some k" if "has_right l \<or> has_right (v1_pc st i)"
          using v1_okD(2) [OF ok i] right(2) that False by auto
        with right(1) True False show ?thesis by auto
      qed (use other [of j] ji in simp)
    qed
    with m [OF j, of k] same show ?thesis by simp
  qed
  moreover have "v1_wait st' = Some k \<longleftrightarrow> k < 5 \<and> has_wait (v1_pc st' k)" for k
  proof -
    have w: "v1_wait st = Some k \<longleftrightarrow> k < 5 \<and> has_wait (v1_pc st k)" for k using ok by (simp add: v1_ok_def)
    show ?thesis
    proof (cases "k = i")
      case True
      with pc wait w [of i] i show ?thesis by auto
    next
      case False
      have "v1_wait st \<noteq> Some k" if "has_wait l \<or> has_wait (v1_pc st i)"
        using v1_okD(3) [OF ok i] wait(2) that False by auto
      with w [of k] False pc wait(1) show ?thesis by auto
    qed
  qed
  moreover have "v1_count st' = how_many 5 is_counted (v1_pc st')"
    using ok count pc how_many_upd [OF i, of is_counted "v1_pc st" l] by (simp add: v1_ok_def)
  moreover have "\<exists>k < 5. \<not> has_right (v1_pc st' k)"
  proof (cases "has_right l \<and> \<not> has_right (v1_pc st i)")
    case True
    then have "v1_mutex st i = Some i" using place v1_okD(1) [OF ok i] by blast
    moreover have "left_of i < 5" "right_of (left_of i) = i" using left_of_simps [OF i] by auto
    ultimately have "\<not> has_right (v1_pc st (left_of i))" "left_of i \<noteq> i"
      using v1_okD(2) [OF ok, of "left_of i"] right_of_simps(2) [of i] i by auto
    with \<open>left_of i < 5\<close> pc show ?thesis by auto
  next
    case False
    from ok obtain k where "k < 5" "\<not> has_right (v1_pc st k)" by (auto simp: v1_ok_def)
    with False pc show ?thesis by (cases "k = i") auto
  qed
  ultimately show ?thesis using over by (simp add: v1_ok_def)
qed

lemma v1_step_ok:
  assumes ok: "v1_ok st" and step: "v1_step i st = Some st'"
  shows "v1_ok st'"
proof -
  from step have i: "i < 5" and run: "\<not> v1_over st" by (auto simp: v1_step_def bind_eq_Some_conv)
  have ne: "right_of i \<noteq> i" "i \<noteq> right_of i" using right_of_simps(2) [OF i] by simp_all
  have c: "v1_count st \<noteq> 5" "v1_count st \<le> 5" using ok run how_many_bounds(2) [of 5] by (auto simp: v1_ok_def)
  note rule = v1_ok_step [OF ok i]
  note defs = v1_step_def v1_lock_def v1_lock_wait_def bind_eq_Some_conv
  show ?thesis
  proof (cases "v1_pc st i")
    case P_Top
    with step i run c show ?thesis by (intro rule [of _ P_Own]) (auto simp: defs)
  next
    case P_Own
    with step i run c ne v1_okD [OF ok i] show ?thesis by (intro rule [of _ P_Wait]) (auto simp: defs split: if_splits)
  next
    case P_Wait
    with step i run c ne v1_okD [OF ok i] show ?thesis by (intro rule [of _ P_Count]) (auto simp: defs split: if_splits)
  next
    case P_Count
    with step i run c ne v1_okD [OF ok i] show ?thesis by (intro rule [of _ P_Release]) (auto simp: defs)
  next
    case P_Release
    with step i run c ne v1_okD [OF ok i] show ?thesis by (intro rule [of _ P_Next]) (auto simp: defs)
  next
    case P_Next
    with step i run c ne v1_okD [OF ok i] show ?thesis by (intro rule [of _ P_Eat]) (auto simp: defs split: if_splits)
  next
    case P_Eat
    with step i run c ne v1_okD [OF ok i] show ?thesis by (intro rule [of _ P_Dec_Lock]) (auto simp: defs)
  next
    case P_Dec_Lock
    with step i run c ne v1_okD [OF ok i] show ?thesis by (intro rule [of _ P_Dec]) (auto simp: defs split: if_splits)
  next
    case P_Dec
    with step i run c ne v1_okD [OF ok i] show ?thesis by (intro rule [of _ P_Dec_Unlock]) (auto simp: defs)
  next
    case P_Dec_Unlock
    with step i run c ne v1_okD [OF ok i] show ?thesis by (intro rule [of _ P_Done]) (auto simp: defs)
  next
    case P_Done
    with step i run c ne v1_okD [OF ok i] show ?thesis by (intro rule [of _ P_Top]) (auto simp: defs)
  qed
qed

lemma v1_run_ok: "\<lbrakk>v1_run is st = Some st'; v1_ok st\<rbrakk> \<Longrightarrow> v1_ok st'"
  unfolding v1_run_def by (induction "is" arbitrary: st) (auto simp: bind_eq_Some_conv dest: v1_step_ok)

lemma v1_init_ok: "v1_ok v1_init"
  by (auto simp: v1_ok_def v1_init_def how_many_def intro!: exI [of _ 0])

lemma v1_all_own:
  assumes ok: "v1_ok st" and all: "\<And>i. i < 5 \<Longrightarrow> is_counted (v1_pc st i)" and i: "i < 5"
  shows "has_own (v1_pc st i) \<and> \<not> has_right (v1_pc st i)"
proof -
  have own: "has_own l \<or> has_right l" if "is_counted l" for l using that by (cases l) auto
  have next_right: "has_right (v1_pc st (right_of k))" if k: "k < 5" "has_right (v1_pc st k)" for k
  proof -
    have "v1_mutex st (right_of k) = Some k" by (rule v1_okD(2) [OF ok k])
    then have "\<not> has_own (v1_pc st (right_of k))"
      using v1_okD(1) [OF ok, of "right_of k"] right_of_simps(1,2) [of k] k(1) by auto
    with own all [of "right_of k"] right_of_simps(1) [of k] show ?thesis by blast
  qed
  have none: "\<not> has_right (v1_pc st k)" if k: "k < 5" for k
  proof
    assume r: "has_right (v1_pc st k)"
    have r5: "right_of 0 = 1" "right_of 1 = 2" "right_of 2 = 3" "right_of 3 = 4" "right_of 4 = 0"
      by (simp_all add: right_of_def)
    have step: "has_right (v1_pc st m) \<longrightarrow> has_right (v1_pc st (right_of m))" if "m < 5" for m using next_right that by blast
    have "k = 0 \<or> k = 1 \<or> k = 2 \<or> k = 3 \<or> k = 4" using k by linarith
    with r step [of 0] step [of 1] step [of 2] step [of 3] step [of 4]
    have "\<forall>m < 5. has_right (v1_pc st m)"
      unfolding r5 by (auto simp: less_Suc_eq numeral_eq_Suc)
    with ok show False by (auto simp: v1_ok_def)
  qed
  show ?thesis using none [OF i] own [OF all [OF i]] by blast
qed

subsection \<open>Properties of the first version\<close>

text \<open>
  C33: Neighbours never eat at the same time, and the deadlock that is reported is one: each thread then
  holds its own mutex, none holds the next one, and all of them are in the queue for it.
\<close>

theorem v1_safe:
  assumes "v1_run is v1_init = Some st"
  shows "list_all (\<lambda>i. \<not> (v1_pc st i = P_Eat \<and> v1_pc st (right_of i) = P_Eat)) [0..<5] \<and>
    (v1_over st = list_all (\<lambda>i. v1_mutex st i = Some i \<and> v1_pc st i \<in> {P_Release, P_Next}) [0..<5])"
proof
  have ok: "v1_ok st" by (rule v1_run_ok [OF assms v1_init_ok])
  have "\<not> (v1_pc st i = P_Eat \<and> v1_pc st (right_of i) = P_Eat)" if "i < 5" for i
    using v1_okD(2) [OF ok that] v1_okD(1) [OF ok, of "right_of i"] right_of_simps(1,2) [of i] that by auto
  then show "list_all (\<lambda>i. \<not> (v1_pc st i = P_Eat \<and> v1_pc st (right_of i) = P_Eat)) [0..<5]" by (simp add: list_all_iff)
  have lock: "v1_mutex st i = Some i \<and> v1_pc st i \<in> {P_Release, P_Next}" if "v1_over st" "i < 5" for i
  proof -
    have "how_many 5 is_counted (v1_pc st) = int 5" using ok that(1) by (simp add: v1_ok_def)
    then have all: "is_counted (v1_pc st k)" if "k < 5" for k using how_many_all that by blast
    from v1_all_own [OF ok all that(2)] have own: "has_own (v1_pc st i)" "\<not> has_right (v1_pc st i)" by auto
    moreover have "v1_pc st i \<in> {P_Release, P_Next}" using all [OF that(2)] own by (cases "v1_pc st i") auto
    ultimately show ?thesis using v1_okD(1) [OF ok that(2)] by simp
  qed
  have over: "v1_over st" if h: "\<And>i. i < 5 \<Longrightarrow> v1_pc st i \<in> {P_Release, P_Next}"
  proof -
    have "is_counted (v1_pc st i)" if "i < 5" for i using h [OF that] by auto
    then have "how_many 5 is_counted (v1_pc st) = int 5" by (rule how_many_none)
    with ok show ?thesis by (simp add: v1_ok_def)
  qed
  show "v1_over st = list_all (\<lambda>i. v1_mutex st i = Some i \<and> v1_pc st i \<in> {P_Release, P_Next}) [0..<5]"
  proof
    assume "v1_over st"
    from lock [OF this] show "list_all (\<lambda>i. v1_mutex st i = Some i \<and> v1_pc st i \<in> {P_Release, P_Next}) [0..<5]"
      unfolding list_all_iff by simp
  next
    assume "list_all (\<lambda>i. v1_mutex st i = Some i \<and> v1_pc st i \<in> {P_Release, P_Next}) [0..<5]"
    then show "v1_over st" unfolding list_all_iff by (intro over) simp
  qed
qed

definition v1_deadlock :: "tid list" where
  "v1_deadlock = concat (map (\<lambda>i. replicate 5 i) [0..<4]) @ [4, 4, 4, 4]"

theorem v1_safe_witness:
  "map_option v1_over (v1_run v1_deadlock v1_init) = Some True \<and>
   (\<exists>st. v1_run v1_deadlock v1_init = Some st \<and> list_all (\<lambda>i. v1_mutex st i = Some i) [0..<5])"
proof -
  have o: "map_option v1_over (v1_run v1_deadlock v1_init) = Some True" by code_simp
  then obtain st where st: "v1_run v1_deadlock v1_init = Some st" "v1_over st" by auto
  from v1_safe [OF st(1)] st(2) have "list_all (\<lambda>i. v1_mutex st i = Some i) [0..<5]"
    by (auto simp: list_all_iff)
  with o st(1) show ?thesis by blast
qed

text \<open>
  C34: No deadlock goes unreported: at any time the process has reported one and left, or some thread can
  do a step.
\<close>

theorem v1_never_stuck:
  assumes "v1_run is v1_init = Some st"
  shows "v1_over st \<or> list_ex (\<lambda>i. v1_step i st \<noteq> None) [0..<5]"
proof (rule ccontr)
  assume no: "\<not> (v1_over st \<or> list_ex (\<lambda>i. v1_step i st \<noteq> None) [0..<5])"
  have ok: "v1_ok st" by (rule v1_run_ok [OF assms v1_init_ok])
  have stuck: "v1_step i st = None" if "i < 5" for i using no that by (auto simp: list_ex_iff)
  have over: "\<not> v1_over st" using no by simp
  have "v1_pc st i \<in> {P_Own, P_Wait, P_Next, P_Dec_Lock}" if "i < 5" for i
    using stuck [OF that] that over by (cases "v1_pc st i") (auto simp: v1_step_def)
  note four = this
  have free: "v1_wait st = None"
  proof (rule ccontr)
    assume "v1_wait st \<noteq> None"
    then obtain k where "k < 5" "has_wait (v1_pc st k)" using ok by (auto simp: v1_ok_def)
    with four [of k] show False by auto
  qed
  have two: "v1_pc st i \<in> {P_Own, P_Next}" if "i < 5" for i
    using four [OF that] stuck [OF that] that over free by (auto simp: v1_step_def v1_lock_wait_def)
  have "v1_pc st i = P_Next" if "i < 5" for i
  proof (rule ccontr)
    assume "v1_pc st i \<noteq> P_Next"
    with two [OF that] have p: "v1_pc st i = P_Own" by simp
    with stuck [OF that] that over obtain k where k: "v1_mutex st i = Some k" by (auto simp: v1_step_def v1_lock_def split: if_splits)
    with ok that have "k < 5" "k = i \<and> has_own (v1_pc st k) \<or> right_of k = i \<and> has_right (v1_pc st k)" by (auto simp: v1_ok_def)
    with two [of k] p show False by auto
  qed
  then have "how_many 5 is_counted (v1_pc st) = int 5" by (intro how_many_none) simp
  moreover have "v1_count st = how_many 5 is_counted (v1_pc st)" "v1_count st \<noteq> 5" using ok over by (simp_all add: v1_ok_def)
  ultimately show False by simp
qed

theorem v1_never_stuck_witness:
  "\<exists>st. v1_run (take 23 v1_deadlock) v1_init = Some st \<and> \<not> v1_over st \<and> list_ex (\<lambda>i. v1_step i st \<noteq> None) [0..<5]"
proof -
  have "map_option v1_over (v1_run (take 23 v1_deadlock) v1_init) = Some False" by code_simp
  then obtain st where st: "v1_run (take 23 v1_deadlock) v1_init = Some st" "\<not> v1_over st" by auto
  from v1_never_stuck [OF st(1)] st show ?thesis by blast
qed

subsection \<open>The versions with one mutex\<close>

datatype d_local =
    D_Top
  | D_Wait_Lock
  | D_Wait_Test
  | D_Wait_Unlock
  | D_Lock
  | D_Test
  | D_Unlock
  | D_Uncount_Lock
  | D_Uncount
  | D_Uncount_Unlock
  | D_Eat
  | D_Put
  | D_Put_Unlock
  | D_Left

text \<open>
  \<open>d_limit\<close> is the value of \<open>count\<close> at which a thread waits, in the versions that count; \<open>d_starved\<close>: the
  process has reported a starving thread and has left.
\<close>

record d_state =
  d_limit :: "int option"
  d_chopsticks :: "bool list"
  d_count :: int
  d_mutex :: "tid option"
  d_wait :: "tid option"
  d_exit_flag :: bool
  d_starved :: bool
  d_pc :: "tid \<Rightarrow> d_local"

definition d_init :: "nat \<Rightarrow> int option \<Rightarrow> d_state" where
  "d_init n limit = \<lparr>d_limit = limit, d_chopsticks = replicate n True, d_count = 0, d_mutex = None, d_wait = None,
     d_exit_flag = False, d_starved = False, d_pc = (\<lambda>_. D_Top)\<rparr>"

definition version2 :: d_state where
  "version2 = d_init 5 None"

definition version3 :: d_state where
  "version3 = d_init 5 (Some 4)"

definition version4 :: "nat \<Rightarrow> d_state" where
  "version4 n = d_init n (Some (int n - 1))"

definition d_goto :: "tid \<Rightarrow> d_local \<Rightarrow> d_state \<Rightarrow> d_state" where
  "d_goto i l st = st\<lparr>d_pc := (d_pc st)(i := l)\<rparr>"

text \<open>The test of the chopsticks and the two writes; an index out of range is refused.\<close>

definition both_free :: "tid \<Rightarrow> d_state \<Rightarrow> bool option" where
  "both_free i st = do {
     ASSERT (i < length (d_chopsticks st));
     if \<not> d_chopsticks st ! i then Some False
     else do {
       ASSERT (right_of i < length (d_chopsticks st));
       Some (d_chopsticks st ! right_of i)
     }
   }"

definition set_both :: "tid \<Rightarrow> bool \<Rightarrow> d_state \<Rightarrow> d_state option" where
  "set_both i b st = do {
     ASSERT (i < length (d_chopsticks st) \<and> right_of i < length (d_chopsticks st));
     Some (st\<lparr>d_chopsticks := (d_chopsticks st)[i := b, right_of i := b]\<rparr>)
   }"

text \<open>\<open>late\<close> is the outcome of the test of the clock in the second version.\<close>

definition d_step :: "bool \<Rightarrow> tid \<Rightarrow> d_state \<Rightarrow> d_state option" where
  "d_step late i st = do {
     ASSERT (i < length (d_chopsticks st) \<and> \<not> d_starved st);
     (case d_pc st i of
        D_Top \<Rightarrow> Some (d_goto i (if d_exit_flag st then D_Left else if d_limit st = None then D_Lock else D_Wait_Lock) st)
      | D_Wait_Lock \<Rightarrow> (if d_wait st = None then Some (d_goto i D_Wait_Test (st\<lparr>d_wait := Some i\<rparr>)) else None)
      | D_Wait_Test \<Rightarrow>
          Some (if d_limit st = Some (d_count st) then d_goto i D_Wait_Lock (st\<lparr>d_wait := None\<rparr>)
                else d_goto i D_Wait_Unlock (st\<lparr>d_count := d_count st + 1\<rparr>))
      | D_Wait_Unlock \<Rightarrow> Some (d_goto i D_Lock (st\<lparr>d_wait := None\<rparr>))
      | D_Lock \<Rightarrow> (if d_mutex st = None then Some (d_goto i D_Test (st\<lparr>d_mutex := Some i\<rparr>)) else None)
      | D_Test \<Rightarrow> do {
          free \<leftarrow> both_free i st;
          if free then do { st \<leftarrow> set_both i False st; Some (d_goto i D_Unlock st) }
          else Some (d_goto i D_Lock (st\<lparr>d_mutex := None, d_starved := (d_limit st = None \<and> late)\<rparr>))
        }
      | D_Unlock \<Rightarrow> Some (d_goto i (if d_limit st = None then D_Eat else D_Uncount_Lock) (st\<lparr>d_mutex := None\<rparr>))
      | D_Uncount_Lock \<Rightarrow> (if d_wait st = None then Some (d_goto i D_Uncount (st\<lparr>d_wait := Some i\<rparr>)) else None)
      | D_Uncount \<Rightarrow> Some (d_goto i D_Uncount_Unlock (st\<lparr>d_count := d_count st - 1\<rparr>))
      | D_Uncount_Unlock \<Rightarrow> Some (d_goto i D_Eat (st\<lparr>d_wait := None\<rparr>))
      | D_Eat \<Rightarrow> (if d_mutex st = None then Some (d_goto i D_Put (st\<lparr>d_mutex := Some i\<rparr>)) else None)
      | D_Put \<Rightarrow> do { st \<leftarrow> set_both i True st; Some (d_goto i D_Put_Unlock st) }
      | D_Put_Unlock \<Rightarrow> Some (d_goto i D_Top (st\<lparr>d_mutex := None\<rparr>))
      | D_Left \<Rightarrow> None)
   }"

text \<open>
  The threads of the three versions do these steps on the paths that \<open>d_limit\<close> leaves open; only the second
  version looks at the clock.
\<close>

definition thinking_and_eating_v2 :: "bool \<Rightarrow> tid \<Rightarrow> d_state \<Rightarrow> d_state option" where
  "thinking_and_eating_v2 late i st = do { ASSERT (d_limit st = None); d_step late i st }"

definition thinking_and_eating_v3 :: "tid \<Rightarrow> d_state \<Rightarrow> d_state option" where
  "thinking_and_eating_v3 i st = do { ASSERT (d_limit st = Some 4); d_step False i st }"

text \<open>The actions: a step of a thread, and the user ends the program.\<close>

datatype d_action = D_Step bool tid | D_Exit

fun d_act :: "d_action \<Rightarrow> d_state \<Rightarrow> d_state option" where
  "d_act (D_Step late i) st = d_step late i st"
| "d_act D_Exit st = Some (st\<lparr>d_exit_flag := True\<rparr>)"

definition d_run :: "d_action list \<Rightarrow> d_state \<Rightarrow> d_state option" where
  "d_run acts st = for_each d_act acts st"

fun has_chopsticks :: "d_local \<Rightarrow> bool" where
  "has_chopsticks D_Unlock = True"
| "has_chopsticks D_Uncount_Lock = True"
| "has_chopsticks D_Uncount = True"
| "has_chopsticks D_Uncount_Unlock = True"
| "has_chopsticks D_Eat = True"
| "has_chopsticks D_Put = True"
| "has_chopsticks _ = False"

fun in_count :: "d_local \<Rightarrow> bool" where
  "in_count D_Wait_Unlock = True"
| "in_count D_Lock = True"
| "in_count D_Test = True"
| "in_count D_Unlock = True"
| "in_count D_Uncount_Lock = True"
| "in_count D_Uncount = True"
| "in_count _ = False"

definition d_ok :: "int option \<Rightarrow> d_state \<Rightarrow> bool" where
  "d_ok limit st \<longleftrightarrow> d_limit st = limit \<and> length (d_chopsticks st) = 5 \<and>
     (\<forall>i < 5. has_chopsticks (d_pc st i) \<longrightarrow> \<not> d_chopsticks st ! i \<and> \<not> d_chopsticks st ! right_of i) \<and>
     (\<forall>i < 5. \<forall>j < 5. has_chopsticks (d_pc st i) \<longrightarrow> has_chopsticks (d_pc st j) \<longrightarrow> i \<noteq> right_of j) \<and>
     (\<forall>m. limit = Some m \<longrightarrow> 0 \<le> m \<longrightarrow> d_count st = how_many 5 in_count (d_pc st) \<and> d_count st \<le> m)"

lemma d_goto_simps [simp]:
  "d_pc (d_goto i l st) = (d_pc st)(i := l)" "d_limit (d_goto i l st) = d_limit st"
  "d_chopsticks (d_goto i l st) = d_chopsticks st" "d_count (d_goto i l st) = d_count st"
  by (simp_all add: d_goto_def)

lemma d_okD:
  assumes "d_ok limit st" "i < 5" "j < 5" "has_chopsticks (d_pc st i)" "has_chopsticks (d_pc st j)"
  shows "i \<noteq> right_of j"
  using assms by (simp add: d_ok_def)

lemma d_ok_same:
  assumes ok: "d_ok limit st" and i: "i < 5" and pc: "d_pc st' = (d_pc st)(i := l)"
    and same: "d_limit st' = d_limit st" "d_chopsticks st' = d_chopsticks st" "has_chopsticks l = has_chopsticks (d_pc st i)"
    and count: "limit \<noteq> None \<Longrightarrow> d_count st' = d_count st - of_bool (in_count (d_pc st i)) + of_bool (in_count l)"
      "\<And>m. limit = Some m \<Longrightarrow> d_count st \<le> m \<Longrightarrow> d_count st' \<le> m"
  shows "d_ok limit st'"
proof -
  have h: "has_chopsticks (d_pc st' j) = has_chopsticks (d_pc st j)" for j using pc same(3) by simp
  have "d_count st' = how_many 5 in_count (d_pc st') \<and> d_count st' \<le> m" if "limit = Some m" "0 \<le> m" for m
    using ok count that how_many_upd [OF i, of in_count "d_pc st" l] pc by (simp add: d_ok_def)
  then have "\<forall>m. limit = Some m \<longrightarrow> 0 \<le> m \<longrightarrow> d_count st' = how_many 5 in_count (d_pc st') \<and> d_count st' \<le> m" by blast
  with ok show ?thesis unfolding d_ok_def h same(1,2) by blast
qed

lemma take_ok:
  assumes ok: "d_ok limit st" and i: "i < 5" and pc: "d_pc st i = D_Test" and free: "both_free i st = Some True"
    and set: "set_both i False st = Some st1"
  shows "d_ok limit (d_goto i D_Unlock st1)"
proof -
  let ?st' = "d_goto i D_Unlock st1"
  have st1: "st1 = st\<lparr>d_chopsticks := (d_chopsticks st)[i := False, right_of i := False]\<rparr>"
    using set by (auto simp: set_both_def bind_eq_Some_conv)
  have len: "length (d_chopsticks st) = 5" using ok by (simp add: d_ok_def)
  have fr: "d_chopsticks st ! i" "d_chopsticks st ! right_of i"
    using free by (auto simp: both_free_def bind_eq_Some_conv split: if_splits)
  have "j \<noteq> right_of i \<and> i \<noteq> right_of j" if "j < 5" "has_chopsticks (d_pc st j)" for j
    using ok that fr by (auto simp: d_ok_def)
  note far = this
  have right: "right_of i < 5" "right_of i \<noteq> i" using right_of_simps(1,2) i by auto
  have "\<not> d_chopsticks ?st' ! j \<and> \<not> d_chopsticks ?st' ! right_of j" if "j < 5" "has_chopsticks (d_pc ?st' j)" for j
    using that ok i right len st1 right_of_simps(1) [of j] by (cases "j = i") (auto simp: d_ok_def nth_list_update)
  moreover have "j \<noteq> right_of k" if "j < 5" "k < 5" "has_chopsticks (d_pc ?st' j)" "has_chopsticks (d_pc ?st' k)" for j k
  proof -
    have "has_chopsticks (d_pc st j) \<or> j = i" "has_chopsticks (d_pc st k) \<or> k = i" using that st1 by (auto split: if_splits)
    with ok far [of j] far [of k] right that(1,2) show ?thesis by (auto simp: d_ok_def)
  qed
  moreover have "d_count ?st' = how_many 5 in_count (d_pc ?st') \<and> d_count ?st' \<le> m" if "limit = Some m" "0 \<le> m" for m
    using ok that how_many_upd [OF i, of in_count "d_pc st" D_Unlock] pc st1 by (simp add: d_ok_def)
  ultimately show ?thesis using ok st1 len by (auto simp: d_ok_def)
qed

lemma put_ok:
  assumes ok: "d_ok limit st" and i: "i < 5" and pc: "d_pc st i = D_Put" and set: "set_both i True st = Some st1"
  shows "d_ok limit (d_goto i D_Put_Unlock st1)"
proof -
  let ?st' = "d_goto i D_Put_Unlock st1"
  have st1: "st1 = st\<lparr>d_chopsticks := (d_chopsticks st)[i := True, right_of i := True]\<rparr>"
    using set by (auto simp: set_both_def bind_eq_Some_conv)
  have other: "j \<noteq> i \<and> has_chopsticks (d_pc st j)" if "has_chopsticks (d_pc ?st' j)" for j
    using that st1 by (auto split: if_splits)
  have "j \<noteq> right_of i \<and> i \<noteq> right_of j" if "j < 5" "has_chopsticks (d_pc st j)" for j
    using ok that i pc by (auto simp: d_ok_def)
  note far = this
  have "\<not> d_chopsticks ?st' ! j \<and> \<not> d_chopsticks ?st' ! right_of j" if j: "j < 5" "has_chopsticks (d_pc ?st' j)" for j
  proof -
    note o = other [OF j(2)]
    have "right_of j \<noteq> right_of i" using right_of_simps(3) [OF j(1) i] o by simp
    moreover have "j \<noteq> right_of i" "i \<noteq> right_of j" using far [of j] o j(1) by auto
    moreover have "\<not> d_chopsticks st ! j" "\<not> d_chopsticks st ! right_of j" using ok o j(1) by (auto simp: d_ok_def)
    ultimately show ?thesis using st1 o by (simp add: nth_list_update)
  qed
  moreover have "j \<noteq> right_of k" if "j < 5" "k < 5" "has_chopsticks (d_pc ?st' j)" "has_chopsticks (d_pc ?st' k)" for j k
    using ok that(1,2) other [OF that(3)] other [OF that(4)] by (auto simp: d_ok_def)
  moreover have "d_count ?st' = how_many 5 in_count (d_pc ?st') \<and> d_count ?st' \<le> m" if "limit = Some m" "0 \<le> m" for m
    using ok that how_many_upd [OF i, of in_count "d_pc st" D_Put_Unlock] pc st1 by (simp add: d_ok_def)
  ultimately show ?thesis using ok st1 by (auto simp: d_ok_def)
qed

lemma d_step_ok:
  assumes ok: "d_ok limit st" and step: "d_step late i st = Some st'"
  shows "d_ok limit st'"
proof -
  from step have i: "i < 5" and limit: "d_limit st = limit" using ok by (auto simp: d_step_def d_ok_def bind_eq_Some_conv)
  note rule = d_ok_same [OF ok i]
  note defs = d_step_def bind_eq_Some_conv
  show ?thesis
  proof (cases "d_pc st i")
    case D_Top
    with step i limit show ?thesis
      by (intro rule [of _ "if d_exit_flag st then D_Left else if limit = None then D_Lock else D_Wait_Lock"]) (auto simp: defs)
  next
    case D_Wait_Lock
    with step i show ?thesis by (intro rule [of _ D_Wait_Test]) (auto simp: defs split: if_splits)
  next
    case D_Wait_Test
    show ?thesis
    proof (cases "limit = Some (d_count st)")
      case True
      with D_Wait_Test step i limit show ?thesis by (intro rule [of _ D_Wait_Lock]) (auto simp: defs)
    next
      case False
      with D_Wait_Test step i limit show ?thesis by (intro rule [of _ D_Wait_Unlock]) (auto simp: defs)
    qed
  next
    case D_Wait_Unlock
    with step i show ?thesis by (intro rule [of _ D_Lock]) (auto simp: defs)
  next
    case D_Lock
    with step i show ?thesis by (intro rule [of _ D_Test]) (auto simp: defs split: if_splits)
  next
    case D_Test
    from step D_Test obtain free where f: "both_free i st = Some free" by (auto simp: defs)
    show ?thesis
    proof (cases free)
      case True
      with step D_Test f take_ok [OF ok i D_Test] show ?thesis by (auto simp: defs)
    next
      case False
      with step D_Test i f show ?thesis by (intro rule [of _ D_Lock]) (auto simp: defs)
    qed
  next
    case D_Unlock
    with step i limit show ?thesis
      by (intro rule [of _ "if limit = None then D_Eat else D_Uncount_Lock"]) (auto simp: defs)
  next
    case D_Uncount_Lock
    with step i show ?thesis by (intro rule [of _ D_Uncount]) (auto simp: defs split: if_splits)
  next
    case D_Uncount
    with step i show ?thesis by (intro rule [of _ D_Uncount_Unlock]) (auto simp: defs)
  next
    case D_Uncount_Unlock
    with step i show ?thesis by (intro rule [of _ D_Eat]) (auto simp: defs)
  next
    case D_Eat
    with step i show ?thesis by (intro rule [of _ D_Put]) (auto simp: defs split: if_splits)
  next
    case D_Put
    with step put_ok [OF ok i D_Put] show ?thesis by (auto simp: defs)
  next
    case D_Put_Unlock
    with step i show ?thesis by (intro rule [of _ D_Top]) (auto simp: defs)
  next
    case D_Left
    with step show ?thesis by (auto simp: defs)
  qed
qed

lemma d_ok_exit: "d_ok limit (st\<lparr>d_exit_flag := b\<rparr>) = d_ok limit st"
  by (simp add: d_ok_def)

lemma d_run_ok: "\<lbrakk>d_run acts st = Some st'; d_ok limit st\<rbrakk> \<Longrightarrow> d_ok limit st'"
  unfolding d_run_def
proof (induction acts arbitrary: st)
  case (Cons a acts)
  from Cons.prems(1) obtain st1 where s: "d_act a st = Some st1" "for_each d_act acts st1 = Some st'"
    by (auto simp: bind_eq_Some_conv)
  have "d_ok limit st1"
  proof (cases a)
    case (D_Step late i)
    with s(1) d_step_ok [OF Cons.prems(2)] show ?thesis by simp
  next
    case D_Exit
    with s(1) have "st1 = st\<lparr>d_exit_flag := True\<rparr>" by simp
    with Cons.prems(2) show ?thesis by (simp only: d_ok_exit)
  qed
  with Cons.IH s(2) show ?case by simp
qed simp

lemma d_init_ok: "d_ok limit (d_init 5 limit)"
  by (simp add: d_ok_def d_init_def how_many_def)

subsection \<open>Properties of the versions with one mutex\<close>

text \<open>
  With five philosophers neighbours never eat at the same time, in each version, and in the versions
  that count the number of the threads that try to take chopsticks is the count and never above the limit.
\<close>

theorem philosophers_safe:
  assumes "d_run acts (d_init 5 limit) = Some st"
  shows "list_all (\<lambda>i. \<not> (d_pc st i = D_Eat \<and> d_pc st (right_of i) = D_Eat)) [0..<5] \<and>
    (case limit of None \<Rightarrow> True | Some m \<Rightarrow> m < 0 \<or> d_count st = how_many 5 in_count (d_pc st) \<and> 0 \<le> d_count st \<and> d_count st \<le> m)"
proof -
  have ok: "d_ok limit st" by (rule d_run_ok [OF assms d_init_ok])
  have "\<not> (d_pc st i = D_Eat \<and> d_pc st (right_of i) = D_Eat)" if "i < 5" for i
    using d_okD [OF ok right_of_simps(1) [of i] that] by auto
  then have "list_all (\<lambda>i. \<not> (d_pc st i = D_Eat \<and> d_pc st (right_of i) = D_Eat)) [0..<5]" by (simp add: list_all_iff)
  moreover have "m < 0 \<or> d_count st = how_many 5 in_count (d_pc st) \<and> 0 \<le> d_count st \<and> d_count st \<le> m"
    if "limit = Some m" for m
    using ok that how_many_bounds(1) [of 5 in_count "d_pc st"] by (auto simp: d_ok_def)
  ultimately show ?thesis by (auto split: option.splits)
qed

theorem philosophers_safe_witness:
  "map_option (\<lambda>st. (d_pc st 0, d_pc st 2, d_count st)) (d_run (map (D_Step False) (replicate 10 0 @ replicate 10 2)) version3) =
     Some (D_Eat, D_Eat, 0) \<and>
   (\<exists>st. d_run (map (D_Step False) (replicate 10 0 @ replicate 10 2)) version3 = Some st \<and> d_pc st 1 \<noteq> D_Eat)"
proof -
  have o: "map_option (\<lambda>st. (d_pc st 0, d_pc st 2, d_count st)) (d_run (map (D_Step False) (replicate 10 0 @ replicate 10 2)) version3) =
     Some (D_Eat, D_Eat, 0)" by code_simp
  then obtain st where st: "d_run (map (D_Step False) (replicate 10 0 @ replicate 10 2)) (d_init 5 (Some 4)) = Some st" "d_pc st 0 = D_Eat"
    by (auto simp: version3_def)
  from philosophers_safe [OF st(1)] st(2) have "d_pc st 1 \<noteq> D_Eat" by (auto simp: list_all_iff right_of_def dest!: bspec [where x = 0])
  with o st(1) show ?thesis by (auto simp: version3_def)
qed

text \<open>
  The fourth version reads the number of philosophers but takes the right chopstick modulo 5: with six
  of them, the neighbours 4 and 5 eat at the same time, and with three of them the last one looks for a
  chopstick behind the end of the vector.
\<close>

theorem modulus_is_not_the_number:
  "map_option (\<lambda>st. (d_pc st 4, d_pc st 5)) (d_run (map (D_Step False) (replicate 10 4 @ replicate 10 5)) (version4 6)) =
     Some (D_Eat, D_Eat) \<and>
   map_option (\<lambda>st. (d_pc st 2, both_free 2 st)) (d_run (map (D_Step False) (replicate 5 2)) (version4 3)) =
     Some (D_Test, None)"
  by (rule conjI; code_simp)

end
