(* ===== verification/Sieve.thy ===== *)
theory Sieve
  imports CDS_Prelude "HOL-Library.Word"
begin

unbundle bit_operations_syntax

text \<open>
  The sieve of \<open>assignment1/program1.cpp\<close>: the table of the small primes, the sequential marking, the marking
  by ranges that the workers of the library run at the same time, and the summary of the result. The limits of the code are
  10000 and 100000000; they are arguments here. With these limits no value of a loop exceeds
  100000000 + 10000, so that the 32-bit variables are natural numbers here; the sum has 64 bits.
\<close>

subsection \<open>Marking\<close>

text \<open>The inner loops, \<open>for (j = start; j <= limit; j += p)\<close>, for a positive step.\<close>

function mark :: "nat \<Rightarrow> nat \<Rightarrow> nat \<Rightarrow> bool list \<Rightarrow> bool list" where
  "mark p j limit s = (if j \<le> limit \<and> 0 < p then mark p (j + p) limit (s[j := False]) else s)"
  by pat_completeness auto
termination by (relation "measure (\<lambda>(p, j, limit, s). limit + 1 - j)") auto

declare mark.simps [simp del]

definition fresh_table :: "nat \<Rightarrow> bool list" where
  "fresh_table limit = (replicate (limit + 1) True)[0 := False, 1 := False]"

definition init_step :: "nat \<Rightarrow> nat \<Rightarrow> bool list \<times> nat list \<Rightarrow> bool list \<times> nat list" where
  "init_step limit i = (\<lambda>(s, ps). if s ! i then (mark i (i * i) limit s, ps @ [i]) else (s, ps))"

definition init_prime :: "nat \<Rightarrow> nat list" where
  "init_prime limit = snd (fold (init_step limit) [2..<limit + 1] (fresh_table limit, []))"

definition find_primes_single :: "nat list \<Rightarrow> nat \<Rightarrow> bool list" where
  "find_primes_single ps limit = fold (\<lambda>p. mark p (p * p) limit) ps (fresh_table limit)"

subsection \<open>Marking in parallel\<close>

text \<open>
  The body of the parallel loop, for the range from \<open>b\<close> up to \<open>e\<close>: the numbers it marks, in its order.
\<close>

definition range_start :: "nat \<Rightarrow> nat \<Rightarrow> nat" where
  "range_start b p = max (p * p) (((b + p - 1) div p) * p)"

function multiples :: "nat \<Rightarrow> nat \<Rightarrow> nat \<Rightarrow> nat list" where
  "multiples p j e = (if j < e \<and> 0 < p then j # multiples p (j + p) e else [])"
  by pat_completeness auto
termination by (relation "measure (\<lambda>(p, j, e). e - j)") auto

declare multiples.simps [simp del]

definition range_marks :: "nat list \<Rightarrow> nat \<times> nat \<Rightarrow> nat list" where
  "range_marks ps = (\<lambda>(b, e). concat (map (\<lambda>p. multiples p (range_start b p) e) ps))"

text \<open>
  \<open>std::vector<bool>\<close> keeps the flags as bits of words: to clear one is to read its word and to write it
  back. The workers of the library do so without synchronisation, so that the two steps of a mark
  interleave with those of the other workers. \<open>t_todo\<close> is what a worker has still to mark; a worker with
  \<open>t_loaded\<close> has read the word of the next mark into \<open>t_reg\<close>.
\<close>

record tbb_state =
  t_words :: "64 word list"
  t_todo :: "nat \<Rightarrow> nat list"
  t_loaded :: "nat \<Rightarrow> bool"
  t_reg :: "nat \<Rightarrow> 64 word"

definition flag :: "64 word list \<Rightarrow> nat \<Rightarrow> bool" where
  "flag ws k = bit (ws ! (k div 64)) (k mod 64)"

definition clear_flag :: "nat \<Rightarrow> 64 word list \<Rightarrow> 64 word list" where
  "clear_flag k ws = ws[k div 64 := unset_bit (k mod 64) (ws ! (k div 64))]"

definition fresh_words :: "nat \<Rightarrow> 64 word list" where
  "fresh_words limit = clear_flag 1 (clear_flag 0 (replicate (limit div 64 + 1) (- 1)))"

fun tbb_step :: "nat \<Rightarrow> tbb_state \<Rightarrow> tbb_state option" where
  "tbb_step i st =
     (case t_todo st i of
        [] \<Rightarrow> None
      | k # ks \<Rightarrow>
          if k div 64 < length (t_words st)
          then if t_loaded st i
               then Some (st\<lparr>t_words := (t_words st)[k div 64 := unset_bit (k mod 64) (t_reg st i)],
                  t_todo := (t_todo st)(i := ks), t_loaded := (t_loaded st)(i := False)\<rparr>)
               else Some (st\<lparr>t_loaded := (t_loaded st)(i := True), t_reg := (t_reg st)(i := t_words st ! (k div 64))\<rparr>)
          else None)"

fun tbb_run :: "nat list \<Rightarrow> tbb_state \<Rightarrow> tbb_state option" where
  "tbb_run [] st = Some st"
| "tbb_run (i # sched) st = Option.bind (tbb_step i st) (tbb_run sched)"

text \<open>
  Which worker runs which ranges, and in which order their steps interleave, the library and the
  machine decide: \<open>work\<close> is the list of ranges of each worker, \<open>sched\<close> the sequence of the workers that
  step. The loop returns when all the workers are done.
\<close>

definition worker_marks :: "nat list \<Rightarrow> (nat \<times> nat) list list \<Rightarrow> nat \<Rightarrow> nat list" where
  "worker_marks ps work i = (if i < length work then concat (map (range_marks ps) (work ! i)) else [])"

definition tbb_start :: "nat list \<Rightarrow> nat \<Rightarrow> (nat \<times> nat) list list \<Rightarrow> tbb_state" where
  "tbb_start ps limit work =
     \<lparr>t_words = fresh_words limit, t_todo = worker_marks ps work, t_loaded = (\<lambda>_. False), t_reg = (\<lambda>_. 0)\<rparr>"

definition find_primes_tbb :: "nat list \<Rightarrow> nat \<Rightarrow> (nat \<times> nat) list list \<Rightarrow> nat list \<Rightarrow> 64 word list option" where
  "find_primes_tbb ps limit work sched =
     Option.bind (tbb_run sched (tbb_start ps limit work)) (\<lambda>st.
       if list_all (\<lambda>i. t_todo st i = []) [0..<length work] then Some (t_words st) else None)"

definition splits :: "nat \<Rightarrow> (nat \<times> nat) list \<Rightarrow> bool" where
  "splits limit ranges \<longleftrightarrow> list_all (\<lambda>(b, e). e \<le> limit + 1) ranges \<and>
     list_all (\<lambda>k. list_ex (\<lambda>(b, e). b \<le> k \<and> k < e) ranges) [2..<limit + 1]"

subsection \<open>The summary\<close>

record prime_summary =
  prime_count :: nat
  prime_sum :: "64 word"
  top_primes :: "nat list"

text \<open>The priority queue gives the least element first: a sorted list with its least element in front.\<close>

definition summary_step :: "bool list \<Rightarrow> nat \<Rightarrow> prime_summary \<Rightarrow> prime_summary" where
  "summary_step s i r =
     (if s ! i
      then (let top = insort i (top_primes r)
            in \<lparr>prime_count = prime_count r + 1, prime_sum = prime_sum r + of_nat i,
                top_primes = (if length top > 10 then tl top else top)\<rparr>)
      else r)"

definition summary :: "nat \<Rightarrow> bool list \<Rightarrow> prime_summary" where
  "summary limit s = fold (summary_step s) [2..<limit + 1] \<lparr>prime_count = 0, prime_sum = 0, top_primes = []\<rparr>"

subsection \<open>What marking does\<close>

lemma length_mark [simp]: "length (mark p j limit s) = length s"
  by (induction p j limit s rule: mark.induct) (subst mark.simps, simp)

lemma nth_mark:
  assumes "0 < p" "limit < length s" "k < length s"
  shows "mark p j limit s ! k \<longleftrightarrow> s ! k \<and> \<not> (j \<le> k \<and> k \<le> limit \<and> p dvd (k - j))"
  using assms
proof (induction p j limit s rule: mark.induct)
  case (1 p j limit s)
  show ?case
  proof (cases "j \<le> limit")
    case False
    then show ?thesis by (subst mark.simps) auto
  next
    case True
    have IH: "mark p (j + p) limit (s[j := False]) ! k \<longleftrightarrow>
        s[j := False] ! k \<and> \<not> (j + p \<le> k \<and> k \<le> limit \<and> p dvd (k - (j + p)))"
      using 1 True by simp
    have "p dvd (k - j) \<longleftrightarrow> k = j \<or> j + p \<le> k \<and> p dvd (k - (j + p))" if "j \<le> k"
    proof (cases "k < j + p")
      case True
      with that show ?thesis using 1(2) by (auto dest: dvd_imp_le)
    next
      case False
      then have "k - j = (k - (j + p)) + p" by simp
      then have "p dvd (k - j) \<longleftrightarrow> p dvd (k - (j + p))" by (simp only: dvd_add_triv_right_iff)
      with False 1(2) show ?thesis by auto
    qed
    with IH True 1(2-4) show ?thesis by (subst mark.simps) (auto simp: nth_list_update)
  qed
qed

lemma mult_dvd_diff:
  assumes "p dvd (j :: nat)" "j \<le> k"
  shows "p dvd (k - j) \<longleftrightarrow> p dvd k"
  using assms by (metis dvd_diff_nat dvd_diffD1 dvd_diffD)

lemma nth_mark_square:
  assumes "0 < p" "limit < length s" "k < length s"
  shows "mark p (p * p) limit s ! k \<longleftrightarrow> s ! k \<and> \<not> (p * p \<le> k \<and> k \<le> limit \<and> p dvd k)"
  using nth_mark [OF assms, of "p * p"] mult_dvd_diff [of p "p * p" k] by auto

lemma fresh_table_simps [simp]:
  "length (fresh_table limit) = limit + 1"
  "k \<le> limit \<Longrightarrow> fresh_table limit ! k \<longleftrightarrow> 2 \<le> k"
  by (auto simp: fresh_table_def nth_list_update less_Suc_eq_le nth_Cons split: nat.splits)

subsection \<open>Primes\<close>

definition is_prime :: "nat \<Rightarrow> bool" where
  "is_prime n \<longleftrightarrow> 2 \<le> n \<and> list_all (\<lambda>d. \<not> d dvd n) [2..<n]"

lemma is_prime_iff: "is_prime n \<longleftrightarrow> 2 \<le> n \<and> (\<forall>d. d dvd n \<longrightarrow> d = 1 \<or> d = n)"
proof -
  have "d = 1 \<or> d = n" if "2 \<le> n" "list_all (\<lambda>d. \<not> d dvd n) [2..<n]" "d dvd n" for d
  proof -
    have "d \<noteq> 0" using that(1,3) by (cases d) auto
    moreover have "d \<le> n" using that(1,3) by (auto intro: dvd_imp_le)
    ultimately show ?thesis using that by (cases "d = 1"; cases "d = n") (auto simp: list_all_iff)
  qed
  then show ?thesis by (auto simp: is_prime_def list_all_iff)
qed

text \<open>A number that is not prime has a prime divisor whose square is not above it.\<close>

lemma small_divisor:
  assumes "2 \<le> k" "\<not> is_prime k"
  obtains p where "is_prime p" "p * p \<le> k" "p dvd k"
proof -
  define p where "p = (LEAST d. 2 \<le> d \<and> d dvd k)"
  have p: "2 \<le> p" "p dvd k" using LeastI [of "\<lambda>d. 2 \<le> d \<and> d dvd k" k] assms(1) by (auto simp: p_def)
  have least: "p \<le> d" if "2 \<le> d" "d dvd k" for d
    unfolding p_def by (rule Least_le) (use that in simp)
  have prime: "is_prime p"
  proof -
    have "d = 1 \<or> d = p" if "d dvd p" for d
    proof -
      have "d dvd k" using that p(2) by (rule dvd_trans)
      moreover have "d \<le> p" using that p(1) by (intro dvd_imp_le) simp_all
      moreover have "d \<noteq> 0" using that p(1) by (cases d) auto
      ultimately show ?thesis using least [of d] by (cases "d = 1") auto
    qed
    with p show ?thesis by (simp add: is_prime_iff)
  qed
  with assms(2) have "p \<noteq> k" by auto
  obtain e where e: "k = p * e" using p(2) by auto
  have "e \<noteq> 0" using e assms(1) by (cases e) auto
  moreover have "e \<noteq> 1" using e \<open>p \<noteq> k\<close> by auto
  ultimately have "2 \<le> e" by linarith
  moreover have "e dvd k" using e by simp
  ultimately have "p \<le> e" by (rule least)
  then have "p * p \<le> k" using e by simp
  from that [OF prime this p(2)] show ?thesis .
qed

lemma prime_sieved:
  "is_prime k \<longleftrightarrow> 2 \<le> k \<and> \<not> (\<exists>p. is_prime p \<and> p * p \<le> k \<and> p dvd k)"
proof -
  have "\<not> (p * p \<le> k \<and> p dvd k)" if "is_prime k" "is_prime p" for p
  proof
    assume h: "p * p \<le> k \<and> p dvd k"
    have p: "2 \<le> p" using that(2) by (simp add: is_prime_iff)
    with h that(1) have "p = k" by (auto simp: is_prime_iff)
    with h p show False using mult_le_mono1 [of 2 p p] by simp
  qed
  moreover have "2 \<le> k" if "is_prime k" using that by (simp add: is_prime_def)
  ultimately show ?thesis using small_divisor [of k] by blast
qed

lemma marked_primes:
  assumes "limit < length s" "k < length s" "list_all (\<lambda>p. 0 < p) ps"
  shows "fold (\<lambda>p. mark p (p * p) limit) ps s ! k \<longleftrightarrow>
    s ! k \<and> \<not> (k \<le> limit \<and> (\<exists>p \<in> set ps. p * p \<le> k \<and> p dvd k))"
  using assms by (induction ps arbitrary: s) (auto simp: nth_mark_square)


subsection \<open>The table of the small primes\<close>

lemma length_marks [simp]: "length (fold (\<lambda>p. mark p (p * p) limit) ps s) = length s"
  by (induction ps arbitrary: s) simp_all

text \<open>The table after the primes up to the square root are done.\<close>

lemma table_prime:
  assumes "k \<le> limit" "list_all is_prime ps" "\<And>p. is_prime p \<Longrightarrow> p * p \<le> k \<Longrightarrow> p \<in> set ps"
  shows "fold (\<lambda>p. mark p (p * p) limit) ps (fresh_table limit) ! k \<longleftrightarrow> is_prime k"
proof -
  have pos: "list_all (\<lambda>p. 0 < p) ps" using assms(2) by (auto simp: list_all_iff is_prime_def)
  have "fold (\<lambda>p. mark p (p * p) limit) ps (fresh_table limit) ! k \<longleftrightarrow>
      2 \<le> k \<and> \<not> (\<exists>p \<in> set ps. p * p \<le> k \<and> p dvd k)"
    using marked_primes [of limit "fresh_table limit" k ps] assms(1) pos by simp
  also have "(\<exists>p \<in> set ps. p * p \<le> k \<and> p dvd k) \<longleftrightarrow> (\<exists>p. is_prime p \<and> p * p \<le> k \<and> p dvd k)"
    using assms(2,3) by (auto simp: list_all_iff)
  finally show ?thesis using prime_sieved [of k] by blast
qed

lemma init_fold:
  assumes "i \<le> limit + 1"
  shows "fold (init_step limit) [2..<i] (fresh_table limit, []) =
    (fold (\<lambda>p. mark p (p * p) limit) (filter is_prime [2..<i]) (fresh_table limit), filter is_prime [2..<i])"
  using assms
proof (induction i)
  case (Suc i)
  show ?case
  proof (cases "2 \<le> i")
    case True
    let ?ps = "filter is_prime [2..<i]"
    have root: "p \<in> set ?ps" if "is_prime p" "p * p \<le> i" for p
    proof -
      have p: "2 \<le> p" using that(1) by (simp add: is_prime_def)
      then have "p < p * p" by simp
      then have "p < i" using that(2) by linarith
      with p that(1) show ?thesis by simp
    qed
    have "fold (\<lambda>p. mark p (p * p) limit) ?ps (fresh_table limit) ! i \<longleftrightarrow> is_prime i"
      by (rule table_prime) (use Suc.prems root in \<open>simp_all add: list_all_iff\<close>)
    with Suc True show ?thesis by (simp add: init_step_def)
  qed simp
qed simp

lemma range_start_multiple:
  assumes "0 < p"
  shows "p dvd range_start b p" "p * p \<le> range_start b p" "b \<le> range_start b p"
    "\<lbrakk>p dvd k; p * p \<le> k; b \<le> k\<rbrakk> \<Longrightarrow> range_start b p \<le> k"
proof -
  let ?q = "(b + p - 1) div p"
  show "p dvd range_start b p" by (auto simp: range_start_def max_def)
  show "p * p \<le> range_start b p" by (simp add: range_start_def)
  have "b + p - 1 < (?q + 1) * p" using assms by (metis Suc_eq_plus1 div_less_iff_less_mult lessI)
  then have "b \<le> ?q * p" using assms by simp
  then show "b \<le> range_start b p" by (simp add: range_start_def)
  show "range_start b p \<le> k" if "p dvd k" "p * p \<le> k" "b \<le> k"
  proof -
    from that(1) obtain m where k: "k = p * m" by (elim dvdE)
    have "?q * p \<le> b + p - 1" by simp
    also have "\<dots> < k + p" using that(3) assms by simp
    finally have "?q * p < (m + 1) * p" using k by (simp add: mult.commute)
    then have "?q < m + 1" by (simp only: mult_less_cancel2)
    then have "?q \<le> m" by simp
    then have "?q * p \<le> k" using k by (simp add: mult.commute)
    with that(2) show ?thesis by (simp add: range_start_def)
  qed
qed

subsection \<open>What the ranges mark\<close>

lemma set_multiples:
  assumes "0 < p"
  shows "k \<in> set (multiples p j e) \<longleftrightarrow> j \<le> k \<and> k < e \<and> p dvd (k - j)"
  using assms
proof (induction p j e rule: multiples.induct)
  case (1 p j e)
  show ?case
  proof (cases "j < e")
    case False
    then show ?thesis by (subst multiples.simps) auto
  next
    case True
    have "p dvd (k - j) \<longleftrightarrow> k = j \<or> j + p \<le> k \<and> p dvd (k - (j + p))" if "j \<le> k"
    proof (cases "k < j + p")
      case True
      with that show ?thesis using 1(2) by (auto dest: dvd_imp_le)
    next
      case False
      then have "k - j = (k - (j + p)) + p" by simp
      then have "p dvd (k - j) \<longleftrightarrow> p dvd (k - (j + p))" by (simp only: dvd_add_triv_right_iff)
      with False 1(2) show ?thesis by auto
    qed
    with True 1 show ?thesis by (subst multiples.simps) auto
  qed
qed

lemma set_range_marks:
  assumes "list_all (\<lambda>p. 0 < p) ps"
  shows "k \<in> set (range_marks ps (b, e)) \<longleftrightarrow> b \<le> k \<and> k < e \<and> (\<exists>p \<in> set ps. p * p \<le> k \<and> p dvd k)"
proof -
  have "k \<in> set (multiples p (range_start b p) e) \<longleftrightarrow> b \<le> k \<and> k < e \<and> p * p \<le> k \<and> p dvd k" if "0 < p" for p
  proof -
    note r = range_start_multiple [OF that, where b = b]
    have "range_start b p \<le> k \<and> p dvd (k - range_start b p) \<longleftrightarrow> b \<le> k \<and> p * p \<le> k \<and> p dvd k"
      using r mult_dvd_diff [OF r(1), of k] by (meson le_trans)
    with set_multiples [OF that, of k "range_start b p" e] show ?thesis by blast
  qed
  with assms show ?thesis by (auto simp: range_marks_def list_all_iff)
qed

definition marked :: "nat list \<Rightarrow> (nat \<times> nat) list list \<Rightarrow> nat \<Rightarrow> bool" where
  "marked ps work k \<longleftrightarrow> list_ex (\<lambda>i. k \<in> set (worker_marks ps work i)) [0..<length work]"

lemma marked_iff: "marked ps work k \<longleftrightarrow> (\<exists>i. k \<in> set (worker_marks ps work i))"
  by (auto simp: marked_def list_ex_iff worker_marks_def)

lemma bex_set_nth: "(\<exists>x \<in> set xs. P x) \<longleftrightarrow> (\<exists>i < length xs. P (xs ! i))"
  using all_set_conv_all_nth [of xs "\<lambda>x. \<not> P x"] by blast

lemma marked_ranges:
  assumes "list_all (\<lambda>p. 0 < p) ps"
  shows "marked ps work k \<longleftrightarrow>
    list_ex (\<lambda>(b, e). b \<le> k \<and> k < e) (concat work) \<and> (\<exists>p \<in> set ps. p * p \<le> k \<and> p dvd k)"
proof -
  have "marked ps work k \<longleftrightarrow> (\<exists>rs \<in> set work. \<exists>r \<in> set rs. k \<in> set (range_marks ps r))"
    using bex_set_nth [of work "\<lambda>rs. \<exists>r \<in> set rs. k \<in> set (range_marks ps r)"]
    by (simp add: marked_def worker_marks_def list_ex_iff Bex_def)
  also have "\<dots> \<longleftrightarrow> list_ex (\<lambda>(b, e). b \<le> k \<and> k < e) (concat work) \<and> (\<exists>p \<in> set ps. p * p \<le> k \<and> p dvd k)"
  proof -
    have "k \<in> set (range_marks ps r) \<longleftrightarrow>
        (case r of (b, e) \<Rightarrow> b \<le> k \<and> k < e) \<and> (\<exists>p \<in> set ps. p * p \<le> k \<and> p dvd k)" for r
      using set_range_marks [OF assms, of k] by (cases r) simp
    then show ?thesis by (simp only: list_ex_iff set_concat) blast
  qed
  finally show ?thesis .
qed

text \<open>The sequential table keeps what no range marks.\<close>

lemma single_unmarked:
  assumes "splits limit (concat work)" "list_all (\<lambda>p. 0 < p) ps" "k \<le> limit"
  shows "find_primes_single ps limit ! k \<longleftrightarrow> 2 \<le> k \<and> \<not> marked ps work k"
proof -
  have "list_ex (\<lambda>(b, e). b \<le> k \<and> k < e) (concat work)" if "2 \<le> k"
    using assms(1,3) that by (auto simp: splits_def list_all_iff)
  moreover have "find_primes_single ps limit ! k \<longleftrightarrow> 2 \<le> k \<and> \<not> (\<exists>p \<in> set ps. p * p \<le> k \<and> p dvd k)"
    unfolding find_primes_single_def
    using marked_primes [of limit "fresh_table limit" k ps] assms(2,3) by simp
  ultimately show ?thesis using marked_ranges [OF assms(2), of work k] by blast
qed

lemma marked_bound:
  assumes "splits limit (concat work)" "list_all (\<lambda>p. 0 < p) ps" "marked ps work k"
  shows "k \<le> limit"
  using assms(1,3) marked_ranges [OF assms(2), of work k] by (force simp: splits_def list_all_iff list_ex_iff)

subsection \<open>Words\<close>

lemma flag_store:
  assumes "j div 64 < length ws"
  shows "flag (ws[j div 64 := unset_bit (j mod 64) w]) k \<longleftrightarrow>
    (if k div 64 = j div 64 then k \<noteq> j \<and> bit w (k mod 64) else flag ws k)"
proof -
  have "k = j" if "k div 64 = j div 64" "k mod 64 = j mod 64"
    using that by (metis div_mult_mod_eq)
  with assms show ?thesis by (auto simp: flag_def bit_unset_bit_iff)
qed

lemma flag_clear:
  assumes "j div 64 < length ws"
  shows "flag (clear_flag j ws) k \<longleftrightarrow> k \<noteq> j \<and> flag ws k"
  unfolding clear_flag_def using flag_store [OF assms, of _ k] by (auto simp: flag_def)

lemma length_clear_flag [simp]: "length (clear_flag j ws) = length ws"
  by (simp add: clear_flag_def)

lemma fresh_words_simps [simp]:
  "length (fresh_words limit) = limit div 64 + 1"
  "k \<le> limit \<Longrightarrow> flag (fresh_words limit) k \<longleftrightarrow> 2 \<le> k"
proof -
  show "length (fresh_words limit) = limit div 64 + 1" by (simp add: fresh_words_def)
  define ws :: "64 word list" where "ws = replicate (limit div 64 + 1) (- 1)"
  assume "k \<le> limit"
  then have "k div 64 < limit div 64 + 1" by (simp add: div_le_mono less_Suc_eq_le)
  then have "flag ws k" by (simp add: flag_def ws_def del: replicate_Suc)
  moreover have "0 < length ws" by (simp add: ws_def)
  ultimately show "flag (fresh_words limit) k \<longleftrightarrow> 2 \<le> k"
    unfolding fresh_words_def ws_def [symmetric] by (auto simp: flag_clear)
qed

subsection \<open>The runs of the workers\<close>

text \<open>
  What stays what it is: the flags no worker marks, in the table and in the registers. \<open>m\<close> gives the marks of
  each worker.
\<close>

definition todo_ok :: "(nat \<Rightarrow> nat list) \<Rightarrow> nat \<Rightarrow> tbb_state \<Rightarrow> bool" where
  "todo_ok m n st \<longleftrightarrow> length (t_words st) = n \<and> (\<forall>i. \<forall>k \<in> set (t_todo st i). k \<in> set (m i)) \<and>
     (\<forall>i. \<forall>k \<in> set (m i). k div 64 < n)"

definition kept :: "(nat \<Rightarrow> nat list) \<Rightarrow> nat \<Rightarrow> bool \<Rightarrow> tbb_state \<Rightarrow> bool" where
  "kept m k v st \<longleftrightarrow> (\<forall>i. k \<notin> set (m i)) \<and> flag (t_words st) k = v \<and>
     (\<forall>i j ks. t_loaded st i \<longrightarrow> t_todo st i = j # ks \<longrightarrow> j div 64 = k div 64 \<longrightarrow> bit (t_reg st i) (k mod 64) = v)"

text \<open>In a word of one worker only, what is still set has still to be marked.\<close>

definition owned :: "(nat \<Rightarrow> nat list) \<Rightarrow> nat \<Rightarrow> nat \<Rightarrow> tbb_state \<Rightarrow> bool" where
  "owned m w i st \<longleftrightarrow> (\<forall>i'. i' \<noteq> i \<longrightarrow> (\<forall>k \<in> set (m i'). k div 64 \<noteq> w)) \<and>
     (\<forall>k \<in> set (m i). k div 64 = w \<longrightarrow> flag (t_words st) k \<longrightarrow> k \<in> set (t_todo st i)) \<and>
     (\<forall>j ks. t_loaded st i \<longrightarrow> t_todo st i = j # ks \<longrightarrow> j div 64 = w \<longrightarrow> t_reg st i = t_words st ! w)"

lemma todo_okD:
  assumes "todo_ok m n st" "t_todo st i = k # ks"
  shows "k \<in> set (m i)" "k div 64 < length (t_words st)" "\<forall>l \<in> set ks. l \<in> set (m i)"
proof -
  have "\<forall>l \<in> set (t_todo st i). l \<in> set (m i)" using assms(1) unfolding todo_ok_def by blast
  then show k: "k \<in> set (m i)" and "\<forall>l \<in> set ks. l \<in> set (m i)" using assms(2) by simp_all
  show "k div 64 < length (t_words st)" using assms(1) k unfolding todo_ok_def by blast
qed

lemma tbb_step_todo:
  assumes ok: "todo_ok m n st" and step: "tbb_step i st = Some st'"
  shows "todo_ok m n st'"
proof (cases "t_todo st i")
  case (Cons k ks)
  from todo_okD [OF ok Cons] step Cons ok show ?thesis by (auto simp: todo_ok_def split: if_splits)
qed (use step in simp)

lemma tbb_step_kept:
  assumes ok: "todo_ok m n st" "kept m k v st" and step: "tbb_step i st = Some st'"
  shows "kept m k v st'"
proof (cases "t_todo st i")
  case (Cons j ks)
  then have "j \<noteq> k" "j div 64 < length (t_words st)" using todo_okD [OF ok(1) Cons] ok(2) by (auto simp: kept_def)
  with ok step Cons show ?thesis
    by (auto simp: kept_def flag_store split: if_splits) (auto simp: flag_def)
qed (use step in simp)

lemma tbb_step_owned:
  assumes ok: "todo_ok m n st" "owned m w i st" and step: "tbb_step i' st = Some st'"
  shows "owned m w i st'"
proof (cases "t_todo st i'")
  case (Cons j ks)
  then have j: "j \<in> set (m i')" "j div 64 < length (t_words st)" using todo_okD [OF ok(1) Cons] by simp_all
  show ?thesis
  proof (cases "i' = i")
    case True
    then have this_worker: "t_todo st i = j # ks" "tbb_step i st = Some st'" using Cons step by simp_all
    have reg: "t_reg st i = t_words st ! w" if "t_loaded st i" "j div 64 = w"
      using ok(2) that this_worker(1) by (simp add: owned_def)
    show ?thesis
    proof (cases "t_loaded st i")
      case True
      then have st': "st' = st\<lparr>t_words := (t_words st)[j div 64 := unset_bit (j mod 64) (t_reg st i)],
          t_todo := (t_todo st)(i := ks), t_loaded := (t_loaded st)(i := False)\<rparr>"
        using this_worker j by simp
      have "k \<in> set ks" if "k \<in> set (m i)" "k div 64 = w" "flag (t_words st') k" for k
        using that ok(2) reg True this_worker(1) flag_store [OF j(2), of "t_reg st i" k]
        by (auto simp: st' owned_def flag_def [of "t_words st"] split: if_splits)
      with ok(2) show ?thesis by (simp add: st' owned_def)
    next
      case False
      with ok(2) this_worker j show ?thesis by (auto simp: owned_def)
    qed
  next
    case False
    then have w: "j div 64 \<noteq> w" using ok(2) j by (auto simp: owned_def)
    show ?thesis
    proof (cases "t_loaded st i'")
      case True
      then have st': "st' = st\<lparr>t_words := (t_words st)[j div 64 := unset_bit (j mod 64) (t_reg st i')],
          t_todo := (t_todo st)(i' := ks), t_loaded := (t_loaded st)(i' := False)\<rparr>"
        using Cons step j by simp
      show ?thesis using ok(2) False w flag_store [OF j(2)] by (auto simp: st' owned_def)
    next
      case f: False
      with ok(2) False w Cons step j show ?thesis by (auto simp: owned_def)
    qed
  qed
qed (use step in simp)

lemma tbb_run_invariants:
  "\<lbrakk>tbb_run sched st = Some st'; todo_ok m n st\<rbrakk> \<Longrightarrow>
    todo_ok m n st' \<and> (kept m k v st \<longrightarrow> kept m k v st') \<and> (owned m w i st \<longrightarrow> owned m w i st')"
proof (induction sched arbitrary: st)
  case (Cons i' sched)
  from Cons.prems(1) obtain st1 where s: "tbb_step i' st = Some st1" and r: "tbb_run sched st1 = Some st'"
    by (auto simp: bind_eq_Some_conv simp del: tbb_step.simps)
  from Cons.IH [OF r tbb_step_todo [OF Cons.prems(2) s]] tbb_step_kept [OF Cons.prems(2) _ s]
    tbb_step_owned [OF Cons.prems(2) _ s] show ?case by blast
qed simp

text \<open>Workers that are not interrupted between the two steps of a mark lose nothing.\<close>

fun uninterrupted :: "nat list \<Rightarrow> bool" where
  "uninterrupted [] = True"
| "uninterrupted [i] = False"
| "uninterrupted (i # j # sched) = (i = j \<and> uninterrupted sched)"

definition pending :: "(nat \<Rightarrow> nat list) \<Rightarrow> tbb_state \<Rightarrow> bool" where
  "pending m st \<longleftrightarrow> (\<forall>i. \<not> t_loaded st i) \<and>
     (\<forall>i. \<forall>k \<in> set (m i). flag (t_words st) k \<longrightarrow> (\<exists>i'. k \<in> set (t_todo st i')))"

lemma two_steps:
  assumes "pending m st" "tbb_step i st = Some st1" "tbb_step i st1 = Some st2"
  shows "pending m st2"
proof -
  obtain k ks where k: "t_todo st i = k # ks" "k div 64 < length (t_words st)"
    using assms(2) by (auto split: list.splits if_splits)
  have st2: "st2 = st\<lparr>t_words := (t_words st)[k div 64 := unset_bit (k mod 64) (t_words st ! (k div 64))],
      t_todo := (t_todo st)(i := ks), t_loaded := (t_loaded st)(i := False),
      t_reg := (t_reg st)(i := t_words st ! (k div 64))\<rparr>"
    using assms k by (auto simp: pending_def)
  have left: "\<exists>i''. l \<in> set (((t_todo st)(i := ks)) i'')" if "l \<in> set (m i')" "flag (t_words st) l" "l \<noteq> k" for i' l
  proof -
    from that assms(1) obtain i'' where "l \<in> set (t_todo st i'')" unfolding pending_def by blast
    with k that(3) show ?thesis by (intro exI [of _ i'']) auto
  qed
  have "l \<noteq> k \<and> flag (t_words st) l" if "flag (t_words st2) l" for l
    using that flag_store [OF k(2), of "t_words st ! (k div 64)" l]
    by (auto simp: st2 flag_def [of "t_words st"] split: if_splits)
  moreover have "t_todo st2 = (t_todo st)(i := ks)" "t_loaded st2 = (t_loaded st)(i := False)" by (simp_all add: st2)
  ultimately show ?thesis using assms(1) left by (simp only: pending_def) (metis fun_upd_def)
qed

lemma uninterrupted_pending:
  "\<lbrakk>uninterrupted sched; tbb_run sched st = Some st'; pending m st\<rbrakk> \<Longrightarrow> pending m st'"
proof (induction sched arbitrary: st rule: uninterrupted.induct)
  case (3 i j sched)
  then obtain st1 st2 where "tbb_step i st = Some st1" "tbb_step i st1 = Some st2" "tbb_run sched st2 = Some st'"
    by (auto simp: bind_eq_Some_conv simp del: tbb_step.simps)
  with 3 two_steps [OF 3(4), of i st1 st2] show ?case by simp
qed simp_all

text \<open>The state of the start.\<close>

lemma tbb_start_ok:
  assumes "splits limit (concat work)" "list_all (\<lambda>p. 0 < p) ps"
  shows "todo_ok (worker_marks ps work) (limit div 64 + 1) (tbb_start ps limit work)"
    "\<not> marked ps work k \<Longrightarrow> k \<le> limit \<Longrightarrow> kept (worker_marks ps work) k (2 \<le> k) (tbb_start ps limit work)"
    "pending (worker_marks ps work) (tbb_start ps limit work)"
proof -
  have "k div 64 < limit div 64 + 1" if "k \<in> set (worker_marks ps work i)" for i k
  proof -
    have "k \<le> limit" using marked_bound [OF assms, of k] that by (auto simp: marked_iff)
    then show ?thesis by (simp add: div_le_mono less_Suc_eq_le)
  qed
  then show "todo_ok (worker_marks ps work) (limit div 64 + 1) (tbb_start ps limit work)"
    by (simp add: todo_ok_def tbb_start_def)
  show "kept (worker_marks ps work) k (2 \<le> k) (tbb_start ps limit work)" if "\<not> marked ps work k" "k \<le> limit"
    using that by (auto simp: kept_def tbb_start_def marked_iff)
  show "pending (worker_marks ps work) (tbb_start ps limit work)" by (auto simp: pending_def tbb_start_def)
qed

definition alone :: "nat list \<Rightarrow> (nat \<times> nat) list list \<Rightarrow> nat \<Rightarrow> bool" where
  "alone ps work w \<longleftrightarrow>
     length (filter (\<lambda>i. list_ex (\<lambda>k. k div 64 = w) (worker_marks ps work i)) [0..<length work]) \<le> 1"

lemma alone_owned:
  assumes "alone ps work (k div 64)" "k \<in> set (worker_marks ps work i)"
  shows "owned (worker_marks ps work) (k div 64) i (tbb_start ps limit work)"
proof -
  let ?P = "\<lambda>i. list_ex (\<lambda>l. l div 64 = k div 64) (worker_marks ps work i)"
  have i: "i < length work" "?P i" using assms(2) by (auto simp: worker_marks_def list_ex_iff split: if_splits)
  have "i' = i" if "?P i'" for i'
  proof -
    have "i' < length work" using that by (auto simp: worker_marks_def split: if_splits)
    with i that have sub: "{i, i'} \<subseteq> set (filter ?P [0..<length work])" by auto
    have "card (set (filter ?P [0..<length work])) \<le> 1"
      using assms(1) card_length [of "filter ?P [0..<length work]"] unfolding alone_def by linarith
    with card_mono [OF _ sub] have "card {i, i'} \<le> 1" by fastforce
    then show ?thesis by (cases "i' = i") auto
  qed
  then show ?thesis by (auto simp: owned_def tbb_start_def list_ex_iff)
qed


subsection \<open>Properties\<close>

text \<open>The table that is built first holds the primes up to its limit, in ascending order.\<close>

theorem init_prime_correct: "init_prime limit = filter is_prime [2..<limit + 1]"
  using init_fold [of "limit + 1" limit] by (simp add: init_prime_def)

lemma single_primes:
  assumes "limit < (small + 1) * (small + 1)" "k \<le> limit"
  shows "find_primes_single (filter is_prime [2..<small + 1]) limit ! k \<longleftrightarrow> is_prime k"
  unfolding find_primes_single_def
proof (rule table_prime [OF assms(2)])
  fix p assume p: "is_prime p" "p * p \<le> k"
  then have "p * p < (small + 1) * (small + 1)" using assms by simp
  then have "p < small + 1" by (metis linorder_not_less mult_le_mono)
  with p(1) show "p \<in> set (filter is_prime [2..<small + 1])" by (simp add: is_prime_def del: upt_Suc)
qed (simp add: list_all_iff)

text \<open>
  C36: The sequential marking leaves the primes, when the square of the limit of the small table reaches
  the limit of the large one (as the square of 10000 does).
\<close>

theorem find_primes_single_correct:
  assumes "limit < (small + 1) * (small + 1)"
  shows "map (nth (find_primes_single (init_prime small) limit)) [0..<limit + 1] = map is_prime [0..<limit + 1]"
proof -
  have "init_prime small = filter is_prime [2..<small + 1]"
    using init_fold [of "small + 1" small] by (simp add: init_prime_def)
  with single_primes [OF assms] show ?thesis by simp
qed

theorem find_primes_single_correct_witness:
  "map (nth (find_primes_single (init_prime 5) 30)) [0..<31] = map is_prime [0..<31]"
  using find_primes_single_correct [of 30 5] by simp

text \<open>
  C35: The parallel marking, whatever the ranges into which the library splits the numbers (as long
  as they cover the numbers), the workers that run them and the interleaving of their reads and writes of the words. A
  worker that has marks left can always go on, within the table. When all are done, each number that
  the sequential marking keeps is kept: no prime is lost. A word that one worker alone marks is
  exactly that of the sequential table, and so is the whole table when no worker is interrupted between
  reading a word and writing it.
\<close>

theorem tbb_marks_like_single:
  assumes split: "splits limit (concat work)" and pos: "list_all (\<lambda>p. 0 < p) ps"
  shows "(\<forall>sched st i. tbb_run sched (tbb_start ps limit work) = Some st \<and> t_todo st i \<noteq> [] \<longrightarrow> tbb_step i st \<noteq> None) \<and>
    (\<forall>sched ws k. find_primes_tbb ps limit work sched = Some ws \<and> k \<le> limit \<longrightarrow>
      (find_primes_single ps limit ! k \<longrightarrow> flag ws k) \<and>
      (alone ps work (k div 64) \<or> uninterrupted sched \<longrightarrow> flag ws k = find_primes_single ps limit ! k))"
proof (intro conjI allI impI)
  note start = tbb_start_ok [OF split pos]
  note single = single_unmarked [OF split pos]
  show "tbb_step i st \<noteq> None" if "tbb_run sched (tbb_start ps limit work) = Some st \<and> t_todo st i \<noteq> []" for sched st i
  proof -
    have "todo_ok (worker_marks ps work) (limit div 64 + 1) st" using tbb_run_invariants that start(1) by blast
    from todo_okD(2) [OF this] that show ?thesis by (cases "t_todo st i") simp_all
  qed
  fix sched ws k assume h: "find_primes_tbb ps limit work sched = Some ws \<and> k \<le> limit"
  from h obtain st where run: "tbb_run sched (tbb_start ps limit work) = Some st" and ws: "ws = t_words st"
    and fin: "\<And>i. i < length work \<Longrightarrow> t_todo st i = []"
    by (auto simp: find_primes_tbb_def bind_eq_Some_conv list_all_iff split: if_splits)
  note inv = tbb_run_invariants [OF run start(1)]
  have empty: "t_todo st i = []" for i
  proof (cases "i < length work")
    case False
    have "\<forall>k \<in> set (t_todo st i). k \<in> set (worker_marks ps work i)" using inv unfolding todo_ok_def by blast
    with False show ?thesis by (cases "t_todo st i") (auto simp: worker_marks_def)
  qed (rule fin)
  have unmarked: "flag ws k \<longleftrightarrow> 2 \<le> k" if "\<not> marked ps work k"
    using inv [of k "2 \<le> k"] start(2) [OF that] h by (simp add: kept_def ws)
  then show "flag ws k" if "find_primes_single ps limit ! k" using single [of k] h that by blast
  show "flag ws k = find_primes_single ps limit ! k" if e: "alone ps work (k div 64) \<or> uninterrupted sched"
  proof (cases "marked ps work k")
    case True
    then obtain i where i: "k \<in> set (worker_marks ps work i)" by (auto simp: marked_iff)
    have "\<not> flag ws k"
      using e
    proof
      assume "alone ps work (k div 64)"
      then have "owned (worker_marks ps work) (k div 64) i st" using inv alone_owned i by blast
      with i empty show ?thesis by (auto simp: owned_def ws)
    next
      assume "uninterrupted sched"
      from uninterrupted_pending [OF this run start(3)] i empty show ?thesis by (auto simp: pending_def ws)
    qed
    with True single [of k] h show ?thesis by simp
  qed (use single [of k] h unmarked in simp)
qed

text \<open>
  Two workers in one word: they run one after the other, and all is well; or both read the word
  before one of them writes, and 8, which has been marked, counts as a prime.
\<close>

definition two_workers :: "(nat \<times> nat) list list" where
  "two_workers = [[(2, 9)], [(9, 11)]]"

definition worker_order :: "nat list" where
  "worker_order = [0, 0, 0, 0, 0, 0, 1, 1, 1, 1]"

definition reads_first :: "nat list" where
  "reads_first = [0, 0, 0, 0, 0, 1, 0, 1, 1, 1]"

theorem tbb_marks_like_single_witness:
  "\<exists>ws. find_primes_tbb [2, 3] 10 two_workers worker_order = Some ws \<and>
     list_all (\<lambda>k. flag ws k = find_primes_single [2, 3] 10 ! k) [0..<11] \<and>
   (\<exists>ws. find_primes_tbb [2, 3] 10 two_workers reads_first = Some ws \<and>
     flag ws 8 \<and> list_all (\<lambda>k. find_primes_single [2, 3] 10 ! k \<longrightarrow> flag ws k) [0..<11])"
proof -
  have split: "splits 10 (concat two_workers)" "list_all (\<lambda>p. 0 < p) [2, 3 :: nat]" by code_simp+
  have "map_option (\<lambda>_. ()) (find_primes_tbb [2, 3] 10 two_workers worker_order) = Some ()"
    "map_option (\<lambda>ws. flag ws 8) (find_primes_tbb [2, 3] 10 two_workers reads_first) = Some True"
    by code_simp+
  then obtain ws vs where runs: "find_primes_tbb [2, 3] 10 two_workers worker_order = Some ws"
    "find_primes_tbb [2, 3] 10 two_workers reads_first = Some vs" "flag vs 8" by auto
  have u: "uninterrupted worker_order" by code_simp
  note single = tbb_marks_like_single [OF split, THEN conjunct2, rule_format]
  from single [OF conjI [OF runs(1)]] single [OF conjI [OF runs(2)]] u runs \<open>flag vs 8\<close> show ?thesis
    by (auto simp: list_all_iff less_Suc_eq_le intro!: exI [of _ ws] exI [of _ vs])
qed


lemma top_snoc:
  "(if length (drop (length ps - 10) ps @ [i]) > 10 then tl (drop (length ps - 10) ps @ [i]) else drop (length ps - 10) ps @ [i]) =
    drop (length (ps @ [i]) - 10) (ps @ [i])"
proof (cases "length ps < 10")
  case True
  then show ?thesis by simp
next
  case False
  then have "drop (length ps - 10) ps \<noteq> []" by simp
  then have "tl (drop (length ps - 10) ps @ [i]) = drop (Suc (length ps - 10)) ps @ [i]" by (simp add: drop_Suc tl_drop)
  moreover have "Suc (length ps - 10) = length ps - 9" using False by linarith
  ultimately show ?thesis using False by simp
qed

lemma summary_fold:
  assumes "sorted ps" "\<forall>p \<in> set is. \<forall>q \<in> set ps. q \<le> p" "sorted is" "distinct is"
  shows "fold (summary_step s) is \<lparr>prime_count = length ps, prime_sum = of_nat (sum_list ps), top_primes = drop (length ps - 10) ps\<rparr> =
    (let qs = ps @ filter (\<lambda>i. s ! i) is
     in \<lparr>prime_count = length qs, prime_sum = of_nat (sum_list qs), top_primes = drop (length qs - 10) qs\<rparr>)"
  using assms
proof (induction "is" arbitrary: ps)
  case (Cons i "is")
  show ?case
  proof (cases "s ! i")
    case False
    with Cons show ?thesis by (simp add: summary_step_def)
  next
    case True
    let ?qs = "ps @ [i]"
    have "insort i (drop (length ps - 10) ps) = drop (length ps - 10) ps @ [i]"
      using Cons.prems(1,2) by (intro sorted_insort_is_snoc) (auto simp: sorted_wrt_drop dest: in_set_dropD)
    then have "summary_step s i \<lparr>prime_count = length ps, prime_sum = of_nat (sum_list ps), top_primes = drop (length ps - 10) ps\<rparr> =
        \<lparr>prime_count = length ?qs, prime_sum = of_nat (sum_list ?qs), top_primes = drop (length ?qs - 10) ?qs\<rparr>"
      using True top_snoc [of ps i] by (simp add: summary_step_def Let_def)
    with Cons.IH [of ?qs] Cons.prems True show ?thesis by (auto simp: sorted_append)
  qed
qed (simp add: Let_def)

text \<open>
  The summary of the primes: their number, their sum modulo 2^64, and the ten largest in ascending order.
\<close>

theorem summary_correct:
  "summary limit s =
    (let ps = filter (\<lambda>i. s ! i) [2..<limit + 1]
     in \<lparr>prime_count = length ps, prime_sum = of_nat (sum_list ps), top_primes = drop (length ps - 10) ps\<rparr>)"
  using summary_fold [of "[]" "[2..<limit + 1]" s] by (simp add: summary_def Let_def del: upt_Suc)

end
