(* ===== verification/Spec2Isabelle.thy ===== *)
theory Spec2Isabelle
  imports Model_Checker Execution_Lists Atomic_Types SC_Order SC_Generator_Order Fence_Search
    Options User_Library Early_Memory Snapshot_Stack Lock_Free_List NonBlocking_Queue Blocking_Queue
    Dining Sieve
begin

text \<open>
  A model of CDSChecker, the stateless model checker for C/C++11 atomics in
  \<open>src/assignment3/model-checker\<close>, and of the parallel programs of \<open>src/assignment1\<close> and
  \<open>src/assignment2\<close>. A checked program calls into the checker at every atomic operation; the
  checker runs its threads one action at a time, maintains the happens-before relation and the
  modification order, records every choice on a stack of nodes, and runs the program again, from a
  snapshot of its memory, for each choice not yet taken. Two plugins look at the finished
  executions: one orders them sequentially consistently, the other searches for memory orders under
  which all executions have such an order. File names below are relative to the directory of the
  checker unless they begin with an assignment.

  \<^bold>\<open>Parts and theories.\<close>
  \<^item> \<open>CDS_Prelude\<close>: vectors read and written by index, loops over lists that fail or leave early,
    and the lemmas on them the components share.
  \<^item> \<open>Clock_Vector\<close> (\<open>clockvector.h/.cc\<close>): clock vectors, their merge and \<open>synchronized_since\<close>. The
    interface the other components rely on is the locale \<open>clock_spec\<close>.
  \<^item> \<open>Model_Action\<close> (\<open>action.h/.cc\<close>, \<open>include/memoryorder.h\<close>): actions, their classification,
    happens-before, synchronization.
  \<^item> \<open>Promise_Model\<close> (\<open>promise.h/.cc\<close>): values read from the future, and the threads that can still
    write them.
  \<^item> \<open>Hash_Table\<close> (\<open>hashtable.h\<close>): the open-addressing table; it implements the locale \<open>ptr_map\<close>,
    which is why all other theories use maps for it.
  \<^item> \<open>Cycle_Graph\<close> (\<open>cyclegraph.h/.cc\<close>): the modification-order graph, incremental cycle detection,
    RMW edges, resolution of promises, transactions.
  \<^item> \<open>Thread_Model\<close> (\<open>threads-model.h\<close>, \<open>threads.cc\<close>): threads and their waits-for chain.
  \<^item> \<open>Scheduler\<close>, \<open>Thread_Selection\<close> (\<open>schedule.h/.cc\<close>): enabled array, sleep sets, the round-robin
    choice with fairness and yield priorities.
  \<^item> \<open>Node\<close>, \<open>Node_Stack\<close> (\<open>nodestack.h/.cc\<close>, \<open>params.h\<close>): the choices at one point of the search and
    the stack of them.
  \<^item> \<open>Race_Records\<close>, \<open>Data_Race\<close> (\<open>datarace.h/.cc\<close>): shadow words and full records, the shadow tables,
    the checks of plain reads and writes, pending and realized races.
  \<^item> \<open>Execution_State\<close>, \<open>Execution_Lists\<close> (\<open>execution.h/.cc\<close>): the state of one execution, look-ups,
    feasibility, deadlock and completion, the lists an action is added to.
  \<^item> \<open>Execution_Conflicts\<close>: waking sleeping threads, the last conflict and the backtracking points.
  \<^item> \<open>Execution_Promises\<close>: what a write may resolve, elimination of threads, future values, blocking.
  \<^item> \<open>Execution_Order\<close>: the constraints of reads and writes, recency, the candidates of a read.
  \<^item> \<open>Execution_Release\<close> (with \<open>workqueue.h\<close>): release sequences, reading from a store, resolution of
    promises.
  \<^item> \<open>Execution_Step\<close>: reads, writes, fences, mutexes, condition variables, thread actions, the work
    queue and \<open>take_step\<close>.
  \<^item> \<open>Model_Checker\<close> (\<open>model.h/.cc\<close>): the choice of the next thread, rounds, the end of an execution,
    statistics and the search loop.
  \<^item> \<open>Atomics\<close>, \<open>Atomic_Types\<close> (\<open>include/impatomic.h\<close>, \<open>impatomic.cc\<close>, \<open>include/cmodelint.h\<close>): the
    atomics library a checked program includes, as programs that issue model actions.
  \<^item> \<open>User_Library\<close> (\<open>mutex.cc\<close>, \<open>conditionvariable.cc\<close>, \<open>libthreads.cc\<close>, \<open>libannotate.cc\<close>, \<open>librace.cc\<close>):
    the other calls of a checked program; the accesses to plain memory check each of their bytes.
  \<^item> \<open>Early_Memory\<close> (\<open>mymemory.cc\<close>): the allocator of the checked program before and after its heap
    exists.
  \<^item> \<open>Snapshot\<close>, \<open>Snapshot_Images\<close>, \<open>Snapshot_Stack\<close> (\<open>snapshot.cc\<close>, \<open>snapshot-interface.cc\<close>): snapshots by
    page protection and by processes. Both interpret the locale \<open>snapshot_system\<close>, in which the
    refinement of images of memory is proved once.
  \<^item> \<open>SC_Analysis\<close>, \<open>SC_Order\<close> (\<open>scanalysis.h/.cc\<close>): the order of an execution, generated by a search
    that restarts. \<open>SC_Generator\<close>, \<open>SC_Generator_Order\<close> (\<open>scfence/scgen.h/.cc\<close>,
    \<open>scfence/sc_annotation.h\<close>): the generator of the other plugin, which has its own computations of
    vectors and otherwise copies of the same functions; \<open>SC_Generator\<close> uses those of \<open>SC_Analysis\<close>. The
    locale \<open>sc_search\<close> holds what the search needs of a computation, and both interpret it.
  \<^item> \<open>Inference\<close>, \<open>Inference_Set\<close>, \<open>Inference_Search\<close> (\<open>scfence/inference.h/.cc\<close>, \<open>patch\<close>, \<open>inferlist\<close>,
    \<open>inferset\<close>): assignments of memory orders to wildcards, patches of them and the set the search
    works on. \<open>Inference_File\<close>: their text form, printed and read.
  \<^item> \<open>Fence_Paths\<close>, \<open>Fence_Fixes\<close>, \<open>Fence_Search\<close> (\<open>scfence/scfence.h/.cc\<close>): paths of reads-from and
    sequenced-before, the fixes for each kind of bad execution, the hooks and the search.
  \<^item> \<open>Options\<close> (\<open>main.cc\<close>, \<open>plugins.cc\<close>, \<open>scanalysis.cc\<close>, \<open>scfence/scfence.cc\<close>): parameters, command line and
    the options of the plugins.
  \<^item> \<open>Lock_Free_List\<close> (\<open>linkedlist_test/lock_free_list.h\<close>): the list that is a subject of the checker.
  \<^item> \<open>NonBlocking_Queue\<close>, \<open>Blocking_Queue\<close> (\<open>assignment2/noblocking_queue.hpp\<close>, \<open>blocking_queue.hpp\<close>): the
    bounded queues. \<open>Dining\<close> (\<open>assignment1/program2\<close>): the dining philosophers. \<open>Sieve\<close>
    (\<open>assignment1/program1.cpp\<close>): the sieves.

  \<^bold>\<open>State.\<close> An object the code shares by pointer lives in a store of the execution: actions
  (\<open>ex_acts\<close>), promises (\<open>ex_proms\<close>), threads (\<open>thread_map\<close>), nodes (\<open>ex_stack\<close>, by index), inferences
  (\<open>infers\<close>); a pointer is a number. A method becomes a function from the state to its result and
  the new state. Clocks are 32-bit words, values and addresses 64-bit words, as in the code; thread
  ids are natural numbers. The programs with threads of their own (queues, list, philosophers) are
  step functions: a thread has a program counter with its local variables, a run is a list of
  actions in any order, and a step that has to wait has no result. In these the atomics are
  sequentially consistent.

  \<^bold>\<open>Failure and termination.\<close> A function returns \<open>None\<close> where the code fails an assertion,
  follows a null pointer or an iterator past the end, indexes beyond a vector or leaves the process.
  Loops whose end depends on the data are \<open>partial_function (option)\<close>s: searches in the graph and the
  hash table, chains of reads-from, waits-for chains, the work queue, the rounds of an execution,
  the search itself, the paths and the orders of the plugins; not returning is \<open>None\<close> as well. For the
  graph searches, the hash table, the waits-for chain and the paths it is proved that they return.
  Fuel is used in two places: the waiting loop of \<open>atomic_flag\<close> has a number of rounds, since it
  may wait forever, and an operation of the list that runs alone has a number of steps, of which the
  number of calls so far and nine more are proved to be enough. The counters of the queues are 64-bit
  words: the theorem on the queue without locks bounds the length of a run so that they do not wrap.
  All definitions are executable: the search theorem's witness runs the whole checker on a small
  program in the logic.

  \<^bold>\<open>What the lemmas show.\<close> The graph decides acyclicity and reachability of the recorded order and
  its transactions restore it; a read becomes possible exactly when its constraints are consistent;
  the constraints are those of a declarative list; acquire reads synchronize with every release
  store of the chain they read from; the lists of an execution are the trace filtered; race checks
  are functions of the recorded history; the scheduler is sound, complete and does not starve a
  thread; a node enumerates each of its choices once; the search ends only when exhausted; the hash
  table is a map; the atomics meet their specification under sequential consistency; a roll back
  restores the image of memory at its snapshot; the orders of the plugins are complete; the search
  over inferences repeats none; printed inferences are read back; the options set the parameters;
  the queues are first-in first-out and the list is a set while a thread is alone; philosophers
  that are neighbours do not eat together; the sieves find the primes. Where the code does not do
  what it means to, theorems state what it does: lost notifications, marks taken for those of the
  wrong node, fixes that are not acted upon, capacities and moduli that are wrong.

  \<^bold>\<open>Parameters.\<close> The checked program is an argument of the run loop: it runs a thread to its next
  action. In the search of the checker, contexts (\<open>ucontext\<close>) are not in the model, and restoring a
  snapshot returns the state of the execution at its creation, except for the node stack and the
  actions, which the code allocates outside the snapshot; that memory is restored is the subject of
  \<open>Snapshot_Images\<close>. The original orders of the actions (\<open>orig\<close>, with wildcards), the clock (\<open>timed_out\<close>,
  \<open>late\<close>), the content of files, the heaps behind \<open>malloc\<close>, the split of ranges by TBB and what
  uninitialised variables hold are arguments.

  \<^bold>\<open>Not modelled.\<close> Printing, dumps of the graph and redirection of output; \<open>malloc.c\<close>, a vendored
  allocator; \<open>getopt_long\<close> (the options are given as a list); the set-up of signals, contexts and the
  shared mapping in \<open>snapshot.cc\<close> and the reading of the segments of the process in
  \<open>snapshot-interface.cc\<close>; routines of the plugin that are never called (\<open>getWeakerInferences\<close>,
  \<open>canStrengthen\<close>, \<open>check_rf1\<close>); destructors; weak memory in the queues and the list; the benchmark of
  the queues (\<open>assignment2/main.cpp\<close>, \<open>tbb_queue.hpp\<close>, \<open>random_bits.hpp\<close>), creation of threads, and the
  test programs.
\<close>

end
